(* ===== verification/Prelude.thy ===== *)
theory Prelude
  imports Main "HOL-Library.Word"
begin

text \<open>
  Shared material of the development: the machine integer types, the result type of kernel
  code that may panic, null-terminated chains of links (the shape of every free list in the
  repository), and the word and list lemmas the components use.  The collection \<open>res_simps\<close>
  holds the rewrite rules for results, \<open>chain_simps\<close> those for chains.
\<close>

unbundle bit_operations_syntax

named_theorems res_simps "rewrite rules for results of code that may panic"
named_theorems chain_simps "rewrite rules for null-terminated chains"

subsection \<open>Machine integers and results\<close>

type_synonym u8 = "8 word"
type_synonym u16 = "16 word"
type_synonym u32 = "32 word"

text \<open>A kernel routine either panics with a message (\<open>Inl\<close>) or returns (\<open>Inr\<close>).\<close>

type_synonym 'a res = "string + 'a"

definition rbind :: "'e + 'a \<Rightarrow> ('a \<Rightarrow> 'e + 'b) \<Rightarrow> 'e + 'b" where
  "rbind r f = (case r of Inl e \<Rightarrow> Inl e | Inr x \<Rightarrow> f x)"

definition rassert :: "bool \<Rightarrow> 's \<Rightarrow> string + 's" where
  "rassert b s = (if b then Inr s else Inl ''assertion failed'')"

lemma rbind_Inl [simp, res_simps]: "rbind (Inl e) f = Inl e"
  by (simp add: rbind_def)

lemma rbind_Inr [simp, res_simps]: "rbind (Inr x) f = f x"
  by (simp add: rbind_def)

lemma rbind_eq_Inr [res_simps]:
  "rbind r f = Inr y \<longleftrightarrow> (\<exists>x. r = Inr x \<and> f x = Inr y)"
  by (cases r) auto

lemma rbind_assoc: "rbind (rbind r f) g = rbind r (\<lambda>x. rbind (f x) g)"
  by (cases r) auto

lemma rassert_eq_Inr [res_simps]: "rassert b s = Inr t \<longleftrightarrow> b \<and> t = s"
  by (auto simp: rassert_def)

subsection \<open>Null-terminated chains\<close>

text \<open>
  \<open>chain nxt p xs\<close>: following the links \<open>nxt\<close> from the pointer \<open>p\<close> visits exactly \<open>xs\<close> and
  then reaches the null pointer.
\<close>

primrec chain :: "('a \<Rightarrow> 'a option) \<Rightarrow> 'a option \<Rightarrow> 'a list \<Rightarrow> bool" where
  "chain nxt p [] \<longleftrightarrow> p = None"
| "chain nxt p (x # xs) \<longleftrightarrow> p = Some x \<and> chain nxt (nxt x) xs"

lemma chain_None [simp, chain_simps]: "chain nxt None xs \<longleftrightarrow> xs = []"
  by (cases xs) auto

lemma chain_Some [chain_simps]:
  "chain nxt (Some x) xs \<longleftrightarrow> (\<exists>ys. xs = x # ys \<and> chain nxt (nxt x) ys)"
  by (cases xs) auto

lemma chain_unique: "chain nxt p xs \<Longrightarrow> chain nxt p ys \<Longrightarrow> xs = ys"
proof (induction xs arbitrary: p ys)
  case (Cons x xs)
  then show ?case by (cases ys) auto
qed auto

lemma chain_suffix: "chain nxt p (xs @ y # ys) \<Longrightarrow> chain nxt (Some y) (y # ys)"
  by (induction xs arbitrary: p) auto

text \<open>A chain that ends is acyclic.\<close>

lemma chain_distinct: "chain nxt p xs \<Longrightarrow> distinct xs"
proof (induction xs arbitrary: p)
  case (Cons x xs)
  have "x \<notin> set xs"
  proof
    assume "x \<in> set xs"
    then obtain us vs where xs: "xs = us @ x # vs" by (auto simp: in_set_conv_decomp)
    from Cons.prems have "chain nxt p ((x # us) @ x # vs)" by (simp add: xs)
    then have "chain nxt (Some x) (x # vs)" by (rule chain_suffix)
    moreover from Cons.prems have "chain nxt (Some x) (x # xs)" by simp
    ultimately have "x # vs = x # xs" by (rule chain_unique)
    then show False by (simp add: xs)
  qed
  with Cons show ?case by auto
qed simp

text \<open>A node linked to itself starts no chain that ends.\<close>

lemma chain_self_loop: "nxt x = Some x \<Longrightarrow> \<not> chain nxt (Some x) xs"
proof
  assume n: "nxt x = Some x" and c: "chain nxt (Some x) xs"
  from c obtain ys where xs: "xs = x # ys" and ys: "chain nxt (nxt x) ys" by (auto simp: chain_Some)
  from ys n have "ys = xs" by (intro chain_unique [of nxt "Some x"] c) simp
  then show False by (simp add: xs)
qed

lemma chain_cong:
  "(\<And>x. x \<in> set xs \<Longrightarrow> nxt x = nxt' x) \<Longrightarrow> chain nxt p xs \<longleftrightarrow> chain nxt' p xs"
  by (induction xs arbitrary: p) auto

lemma chain_upd [chain_simps]: "x \<notin> set xs \<Longrightarrow> chain (nxt(x := v)) p xs \<longleftrightarrow> chain nxt p xs"
  by (rule chain_cong) auto

text \<open>\<open>follow n nxt p\<close> collects at most \<open>n\<close> links; on a chain that short it finds all of it.\<close>

fun follow :: "nat \<Rightarrow> ('a \<Rightarrow> 'a option) \<Rightarrow> 'a option \<Rightarrow> 'a list" where
  "follow 0 nxt p = []"
| "follow (Suc n) nxt None = []"
| "follow (Suc n) nxt (Some x) = x # follow n nxt (nxt x)"

lemma follow_None [simp]: "follow n nxt None = []"
  by (cases n) auto

lemma follow_chain: "chain nxt p xs \<Longrightarrow> length xs \<le> n \<Longrightarrow> follow n nxt p = xs"
proof (induction xs arbitrary: p n)
  case Nil
  then show ?case by (cases n) auto
next
  case (Cons x xs)
  then show ?case by (cases n) auto
qed

subsection \<open>Words\<close>

lemma word_and_one_eq_0 [simp]: "(w::u32) AND 1 = 0 \<longleftrightarrow> \<not> bit w 0"
  by (simp add: and_one_eq odd_iff_mod_2_eq_one bit_0 even_iff_mod_2_eq_zero)

lemma unat_plus_one: "(w::'a::len word) + 1 \<noteq> 0 \<Longrightarrow> unat (w + 1) = Suc (unat w)"
  using unatSuc [of w] by (simp add: add.commute)

lemma unat_minus_1: "(w::'a::len word) \<noteq> 0 \<Longrightarrow> unat (w - 1) = unat w - 1"
  by (rule unat_minus_one)

lemma unat_lt: "unat (w::u32) < 4294967296"
  using unsigned_less [of w] by simp

lemma unat_inj: "unat v = unat w \<longleftrightarrow> v = (w::'a::len word)"
  by (simp add: word_unat_eq_iff)

text \<open>Multiples of the page size are closed under subtraction, wrap-around included.\<close>

lemma page_aligned_diff:
  fixes v w :: u32
  assumes "w mod 4096 = 0" and "v mod 4096 = 0"
  shows "(w - v) mod 4096 = 0"
proof -
  have "4096 dvd unat w" "4096 dvd unat v"
    using assms by (simp_all add: unat_eq_0 [symmetric] unat_mod dvd_eq_mod_eq_0)
  moreover have "(4096::nat) dvd 4294967296" by simp
  ultimately have "4096 dvd unat (w - v)"
    by (simp add: unat_sub_if' dvd_diff_nat)
  then show ?thesis by (simp add: unat_eq_0 [symmetric] unat_mod dvd_eq_mod_eq_0)
qed

lemma unat_page_floor: "unat ((w::u32) AND NOT 0xFFF) = unat w div 4096 * 4096"
proof -
  have m: "(0xFFF::u32) = mask 12" by (simp add: mask_eq_exp_minus_1)
  have "w AND NOT (0xFFF::u32) = push_bit 12 (drop_bit 12 w)"
    unfolding m by (rule bit_eqI) (auto simp: bit_simps)
  then have "unat (w AND NOT 0xFFF) = unat w div 4096 * 4096 mod 4294967296"
    by (simp only: push_bit_eq_mult)
       (simp add: unat_word_ariths unat_drop_bit_eq drop_bit_nat_def mult.commute)
  also have "\<dots> = unat w div 4096 * 4096"
    using unat_lt [of w] by (intro mod_less) (metis div_times_less_eq_dividend le_less_trans)
  finally show ?thesis .
qed

subsection \<open>Arithmetic\<close>

lemma mod_add_inj:
  fixes a k l m :: nat
  assumes "(a + k) mod m = (a + l) mod m" and "k < m" and "l < m"
  shows "k = l"
proof -
  have "m dvd x - y \<Longrightarrow> x < m \<Longrightarrow> x \<le> y" for x y :: nat
    by (metis diff_is_0_eq dvd_imp_le le_less_trans less_imp_diff_less not_gr_zero not_less)
  moreover have "m dvd k - l" "m dvd l - k"
    using assms(1) mod_eq_dvd_iff_nat [of "a + l" "a + k" m] mod_eq_dvd_iff_nat [of "a + k" "a + l" m]
    by (cases "l \<le> k"; simp)+
  ultimately show ?thesis using assms(2,3) by (meson le_antisym)
qed

subsection \<open>Lists\<close>

text \<open>\<open>find_idx P xs\<close>: the index at which a C loop over an array stops at the first match.\<close>

primrec find_from :: "('a \<Rightarrow> bool) \<Rightarrow> nat \<Rightarrow> 'a list \<Rightarrow> nat option" where
  "find_from P i [] = None"
| "find_from P i (x # xs) = (if P x then Some i else find_from P (Suc i) xs)"

definition find_idx :: "('a \<Rightarrow> bool) \<Rightarrow> 'a list \<Rightarrow> nat option" where
  "find_idx P xs = find_from P 0 xs"

lemma find_from_Some:
  "find_from P i xs = Some k \<longleftrightarrow>
     i \<le> k \<and> k < i + length xs \<and> P (xs ! (k - i)) \<and> (\<forall>j<k - i. \<not> P (xs ! j))"
proof (induction xs arbitrary: i)
  case (Cons x xs)
  show ?case
  proof (cases "P x")
    case True
    then show ?thesis by (auto simp: nth_Cons')
  next
    case False
    have "(\<forall>j<k - i. \<not> P ((x # xs) ! j)) \<longleftrightarrow> (\<forall>j<k - Suc i. \<not> P (xs ! j))" if "i < k"
      using that False by (auto simp: nth_Cons' less_diff_conv split: if_splits)
    moreover have "(x # xs) ! (k - i) = xs ! (k - Suc i)" if "i < k" using that by (simp add: nth_Cons')
    ultimately show ?thesis using False Cons.IH [of "Suc i"] by (cases "i < k") (auto simp: Suc_le_eq)
  qed
qed simp

lemma find_idx_Some:
  "find_idx P xs = Some k \<longleftrightarrow> k < length xs \<and> P (xs ! k) \<and> (\<forall>j<k. \<not> P (xs ! j))"
  by (simp add: find_idx_def find_from_Some)

lemma find_from_None: "find_from P i xs = None \<longleftrightarrow> (\<forall>x\<in>set xs. \<not> P x)"
  by (induction xs arbitrary: i) auto

lemma find_idx_None: "find_idx P xs = None \<longleftrightarrow> (\<forall>k<length xs. \<not> P (xs ! k))"
  by (simp add: find_idx_def find_from_None all_set_conv_all_nth)

lemma nth_list_update_if:
  "xs[j := v] ! i = (if j = i \<and> j < length xs then v else xs ! i)"
  by (cases "j < length xs") (auto simp: nth_list_update list_update_beyond)

lemma take_Suc_update: "i < length xs \<Longrightarrow> take (Suc i) (xs[i := v]) = take i xs @ [v]"
  by (simp add: take_Suc_conv_app_nth take_update_cancel)

lemma card_word_range:
  assumes "hi \<le> 4294967296"
  shows "card {x::u32. lo \<le> unat x \<and> unat x < hi} = hi - lo"
proof -
  have "bij_betw unat {x::u32. lo \<le> unat x \<and> unat x < hi} {lo..<hi}"
  proof (rule bij_betw_imageI)
    show "inj_on unat {x::u32. lo \<le> unat x \<and> unat x < hi}" by (rule inj_onI) (simp add: unat_inj)
    show "unat ` {x::u32. lo \<le> unat x \<and> unat x < hi} = {lo..<hi}"
    proof (intro set_eqI iffI)
      fix n assume n: "n \<in> {lo..<hi}"
      then have "unat (of_nat n :: u32) = n" using assms by (simp add: unat_of_nat take_bit_nat_eq_self)
      then show "n \<in> unat ` {x::u32. lo \<le> unat x \<and> unat x < hi}"
        using n by (intro image_eqI [of _ _ "of_nat n"]) auto
    qed auto
  qed
  then show ?thesis by (simp add: bij_betw_same_card)
qed

end
