(* ===== verification/Interfaces.thy ===== *)
theory Interfaces
  imports Prelude
begin

text \<open>
  The interfaces the components share, as locales: \<open>page_pool\<close>, a pool of pages handed out and
  taken back one at a time (provided by the JOS page allocator of \<^verbatim>\<open>lab-3/kern/pmap.c\<close> and by
  the xv6 allocator of \<^verbatim>\<open>lab-2/kalloc.c\<close>), and \<open>byte_stream\<close>, a buffer filled at one end and emptied
  at the other (provided by the pipes of \<^verbatim>\<open>lab-2/pipe.c\<close>), and \<open>block_cache\<close>, a cache of disk blocks with
  read, write-through and release (provided by \<^verbatim>\<open>lab-2/bio.c\<close>, used by \<^verbatim>\<open>lab-2/log.c\<close>).  The clients' lemmas are proved once here, over the
  laws the providers promise.
\<close>

subsection \<open>Pools of pages\<close>

locale page_pool =
  fixes invar :: "'s \<Rightarrow> bool"
    and avail :: "'s \<Rightarrow> 'a list"
    and alloc :: "'s \<Rightarrow> ('a \<times> 's) option"
    and release :: "'a \<Rightarrow> 's \<Rightarrow> 's"
    and freeable :: "'s \<Rightarrow> 'a \<Rightarrow> bool"
  assumes alloc_None: "invar s \<Longrightarrow> alloc s = None \<longleftrightarrow> avail s = []"
    and alloc_avail: "invar s \<Longrightarrow> alloc s = Some (a, t) \<Longrightarrow> avail s = a # avail t"
    and alloc_invar: "invar s \<Longrightarrow> alloc s = Some (a, t) \<Longrightarrow> invar t"
    and alloc_freeable: "invar s \<Longrightarrow> alloc s = Some (a, t) \<Longrightarrow> freeable t a"
    and release_avail: "invar s \<Longrightarrow> freeable s a \<Longrightarrow> avail (release a s) = a # avail s"
    and release_invar: "invar s \<Longrightarrow> freeable s a \<Longrightarrow> invar (release a s)"
    and freeable_fresh: "invar s \<Longrightarrow> freeable s a \<Longrightarrow> a \<notin> set (avail s)"
    and avail_distinct: "invar s \<Longrightarrow> distinct (avail s)"
begin

text \<open>\<open>alloc_n n s\<close> allocates until \<open>n\<close> pages are handed out or the pool is empty.\<close>

primrec alloc_n :: "nat \<Rightarrow> 's \<Rightarrow> 'a list \<times> 's" where
  "alloc_n 0 s = ([], s)"
| "alloc_n (Suc n) s =
     (case alloc s of None \<Rightarrow> ([], s)
      | Some (a, t) \<Rightarrow> (let (as, u) = alloc_n n t in (a # as, u)))"

lemma alloc_n_invar: "invar s \<Longrightarrow> invar (snd (alloc_n n s))"
  by (induction n arbitrary: s) (auto simp: split_beta Let_def intro: alloc_invar split: option.splits)

lemma alloc_n_avail: "invar s \<Longrightarrow> alloc_n n s = (as, t) \<Longrightarrow> avail s = as @ avail t"
proof (induction n arbitrary: s as)
  case (Suc n)
  show ?case
  proof (cases "alloc s")
    case None
    with Suc.prems show ?thesis by simp
  next
    case (Some r)
    obtain a s' where r: "r = (a, s')" by (cases r)
    obtain bs u where n: "alloc_n n s' = (bs, u)" by (cases "alloc_n n s'")
    with Suc.prems Some r have "as = a # bs" "t = u" by auto
    with Suc.IH [of s' bs] n Some r Suc.prems(1) alloc_avail alloc_invar
    show ?thesis by fastforce
  qed
qed simp

lemma alloc_n_length:
  "invar s \<Longrightarrow> alloc_n n s = (as, t) \<Longrightarrow> length as = min n (length (avail s))"
proof (induction n arbitrary: s as)
  case (Suc n)
  show ?case
  proof (cases "alloc s")
    case None
    with Suc.prems alloc_None show ?thesis by fastforce
  next
    case (Some r)
    obtain a s' where r: "r = (a, s')" by (cases r)
    obtain bs u where n: "alloc_n n s' = (bs, u)" by (cases "alloc_n n s'")
    with Suc.prems Some r have "as = a # bs" by auto
    with Suc.IH [of s' bs] n Some r Suc.prems alloc_avail alloc_invar
    show ?thesis by fastforce
  qed
qed simp

text \<open>Pages handed out are pairwise different and none of them is still in the pool.\<close>

lemma alloc_n_distinct:
  assumes "invar s" and "alloc_n n s = (as, t)"
  shows "distinct as \<and> set as \<inter> set (avail t) = {}"
  using avail_distinct [OF assms(1)] alloc_n_avail [OF assms] by auto

text \<open>The pool is exhausted after exactly as many allocations as it had pages.\<close>

lemma alloc_n_exhausts:
  assumes "invar s" and "alloc_n n s = (as, t)" and "length (avail s) \<le> n"
  shows "as = avail s \<and> alloc t = None"
proof -
  have len: "length as = length (avail s)"
    using alloc_n_length [OF assms(1,2)] assms(3) by simp
  with alloc_n_avail [OF assms(1,2)] have "avail t = []" by simp
  with alloc_n_avail [OF assms(1,2)] alloc_None [of t] alloc_n_invar [OF assms(1), of n] assms(2)
  show ?thesis by simp
qed

text \<open>Freeing what was just allocated gives the pool back in the same order.\<close>

lemma alloc_release:
  assumes "invar s" and "alloc s = Some (a, t)"
  shows "avail (release a t) = avail s \<and> invar (release a t)"
  using assms release_avail release_invar alloc_avail alloc_invar alloc_freeable by metis

text \<open>A page that is freed is the next one allocated.\<close>

lemma release_alloc:
  assumes "invar s" and "freeable s a"
  shows "\<exists>t. alloc (release a s) = Some (a, t) \<and> avail t = avail s"
proof -
  have inv: "invar (release a s)" using assms by (rule release_invar)
  moreover have av: "avail (release a s) = a # avail s" using assms by (rule release_avail)
  ultimately obtain b t where bt: "alloc (release a s) = Some (b, t)"
    using alloc_None [OF inv] by (cases "alloc (release a s)") auto
  with alloc_avail [OF inv bt] av show ?thesis by simp
qed

end

subsection \<open>Byte streams\<close>

text \<open>\<open>stream snd rcv s0 w r t\<close>: from \<open>s0\<close>, a sequence of sends and receives in any order leads to \<open>t\<close>; the
  senders put in \<open>w\<close> and the receivers got \<open>r\<close>, both in the order of the operations.\<close>

inductive stream ::
  "('s \<Rightarrow> 'a list \<Rightarrow> 's \<Rightarrow> bool) \<Rightarrow> ('s \<Rightarrow> 'a list \<Rightarrow> 's \<Rightarrow> bool) \<Rightarrow> 's \<Rightarrow> 'a list \<Rightarrow> 'a list \<Rightarrow> 's \<Rightarrow> bool"
  for snd rcv s0 where
  stream_start: "stream snd rcv s0 [] [] s0"
| stream_send: "stream snd rcv s0 w r s \<Longrightarrow> snd s xs t \<Longrightarrow> stream snd rcv s0 (w @ xs) r t"
| stream_recv: "stream snd rcv s0 w r s \<Longrightarrow> rcv s xs t \<Longrightarrow> stream snd rcv s0 w (r @ xs) t"

locale byte_stream =
  fixes invar :: "'s \<Rightarrow> bool"
    and items :: "'s \<Rightarrow> 'a list"
    and send :: "'s \<Rightarrow> 'a list \<Rightarrow> 's \<Rightarrow> bool"
    and recv :: "'s \<Rightarrow> 'a list \<Rightarrow> 's \<Rightarrow> bool"
  assumes send_items: "invar s \<Longrightarrow> send s xs t \<Longrightarrow> invar t \<and> items t = items s @ xs"
    and recv_items: "invar s \<Longrightarrow> recv s xs t \<Longrightarrow> invar t \<and> items s = xs @ items t"
begin

lemma stream_order:
  assumes "stream send recv s w r t" and "invar s"
  shows "invar t \<and> r @ items t = items s @ w"
  using assms
proof (induction rule: stream.induct)
  case (stream_send w r s1 xs t)
  then show ?case using send_items [of s1 xs t] by auto
next
  case (stream_recv w r s1 xs t)
  then show ?case using recv_items [of s1 xs t] by auto
qed simp

end

subsection \<open>Block caches\<close>

text \<open>\<open>cur\<close> is the contents of a block as the cache shows it and \<open>dsk\<close> what is on the disk; \<open>dirty\<close> blocks are
  pinned in the cache, \<open>held\<close> blocks have a handle.  \<open>hist\<close> is the history of the disk writes and \<open>rest\<close> the
  part of the state the cache does not touch.\<close>

locale block_cache =
  fixes invar :: "'s \<Rightarrow> bool"
    and cur :: "'s \<Rightarrow> 'n \<Rightarrow> 'd"
    and dsk :: "'s \<Rightarrow> 'n \<Rightarrow> 'd"
    and dirty :: "'s \<Rightarrow> 'n set"
    and held :: "'s \<Rightarrow> 'n set"
    and handle :: "'s \<Rightarrow> 'n \<Rightarrow> 'h \<Rightarrow> bool"
    and hist :: "'s \<Rightarrow> 'e list"
    and rest :: "'s \<Rightarrow> 'r"
    and ev :: "'n \<Rightarrow> 'd \<Rightarrow> 'e"
    and legal :: "'n \<Rightarrow> bool"
    and good :: "'d \<Rightarrow> bool"
    and capacity :: nat
    and rd :: "'n \<Rightarrow> 's \<Rightarrow> ('h \<times> 's) res"
    and val :: "'s \<Rightarrow> 'h \<Rightarrow> 'd"
    and put :: "'h \<Rightarrow> 'd \<Rightarrow> 's \<Rightarrow> 's"
    and wr :: "'h \<Rightarrow> 's \<Rightarrow> 's res"
    and rel :: "'h \<Rightarrow> 's \<Rightarrow> 's res"
  assumes rd_law: "invar s \<Longrightarrow> n \<notin> held s \<Longrightarrow> legal n \<Longrightarrow> n \<in> dirty s \<or> card (dirty s \<union> held s) < capacity \<Longrightarrow>
      \<exists>h t. rd n s = Inr (h, t) \<and> invar t \<and> handle t n h \<and> (\<forall>m c. handle s m c \<longrightarrow> handle t m c) \<and> cur t = cur s \<and>
        dsk t = dsk s \<and> dirty t = dirty s \<and> held t = insert n (held s) \<and> hist t = hist s \<and> rest t = rest s"
    and val_law: "invar s \<Longrightarrow> handle s n h \<Longrightarrow> val s h = cur s n"
    and good_law: "invar s \<Longrightarrow> handle s n h \<Longrightarrow> good (cur s n)"
    and held_law: "invar s \<Longrightarrow> handle s n h \<Longrightarrow> n \<in> held s"
    and put_law: "invar s \<Longrightarrow> handle s n h \<Longrightarrow> good d \<Longrightarrow> t = put h d s \<Longrightarrow>
      invar t \<and> (\<forall>m c. handle t m c \<longleftrightarrow> handle s m c) \<and> cur t = (cur s)(n := d) \<and> dsk t = dsk s \<and> dirty t = dirty s \<and>
        held t = held s \<and> hist t = hist s \<and> rest t = rest s"
    and wr_law: "invar s \<Longrightarrow> handle s n h \<Longrightarrow> legal n \<Longrightarrow>
      \<exists>t. wr h s = Inr t \<and> invar t \<and> (\<forall>m c. handle t m c \<longleftrightarrow> handle s m c) \<and> cur t = cur s \<and>
        dsk t = (dsk s)(n := cur s n) \<and> dirty t = dirty s - {n} \<and> held t = held s \<and> hist t = hist s @ [ev n (cur s n)] \<and>
        rest t = rest s"
    and rel_law: "invar s \<Longrightarrow> handle s n h \<Longrightarrow> n \<in> dirty s \<or> cur s n = dsk s n \<Longrightarrow>
      \<exists>t. rel h s = Inr t \<and> invar t \<and> (\<forall>m c. handle t m c \<longleftrightarrow> m \<noteq> n \<and> handle s m c) \<and> cur t = cur s \<and> dsk t = dsk s \<and>
        dirty t = dirty s \<and> held t = held s - {n} \<and> hist t = hist s \<and> rest t = rest s"
    and clean_law: "invar s \<Longrightarrow> n \<notin> held s \<Longrightarrow> n \<notin> dirty s \<Longrightarrow> cur s n = dsk s n"
begin

text \<open>Reading a block and releasing it changes nothing.\<close>

lemma rd_rel:
  assumes "invar s" "n \<notin> held s" "legal n" "n \<in> dirty s \<or> card (dirty s \<union> held s) < capacity"
  shows "\<exists>h u t. rd n s = Inr (h, u) \<and> val u h = cur s n \<and> rel h u = Inr t \<and> invar t \<and> cur t = cur s \<and> dsk t = dsk s \<and>
    dirty t = dirty s \<and> held t = held s \<and> hist t = hist s \<and> rest t = rest s \<and> rest u = rest s"
proof -
  obtain h u where u: "rd n s = Inr (h, u)" "invar u" "handle u n h" "cur u = cur s" "dsk u = dsk s" "dirty u = dirty s"
      "held u = insert n (held s)" "hist u = hist s" "rest u = rest s"
    using rd_law [OF assms] by blast
  have "n \<in> dirty u \<or> cur u n = dsk u n" using clean_law [OF assms(1,2)] u by auto
  then obtain t where "rel h u = Inr t" "invar t" "cur t = cur u" "dsk t = dsk u" "dirty t = dirty u"
      "held t = held u - {n}" "hist t = hist u" "rest t = rest u"
    using rel_law [OF u(2,3)] by blast
  then show ?thesis using u val_law [OF u(2,3)] assms(2) by (intro exI [of _ h] exI [of _ u] exI [of _ t]) auto
qed

text \<open>Changing a held block, writing it through and releasing it.\<close>

lemma put_wr_rel:
  assumes "invar s" "handle s n h" "legal n" "good d"
  shows "\<exists>u t. wr h (put h d s) = Inr u \<and> rel h u = Inr t \<and> invar t \<and> cur t = (cur s)(n := d) \<and> dsk t = (dsk s)(n := d) \<and>
    dirty t = dirty s - {n} \<and> held t = held s - {n} \<and> hist t = hist s @ [ev n d] \<and> rest t = rest s \<and>
    (\<forall>m c. handle t m c \<longleftrightarrow> m \<noteq> n \<and> handle s m c)"
proof -
  let ?p = "put h d s"
  note p = put_law [OF assms(1,2,4) refl]
  obtain u where u: "wr h ?p = Inr u" "invar u" "\<forall>m c. handle u m c \<longleftrightarrow> handle ?p m c" "cur u = cur ?p"
      "dsk u = (dsk ?p)(n := cur ?p n)" "dirty u = dirty ?p - {n}" "held u = held ?p" "hist u = hist ?p @ [ev n (cur ?p n)]"
      "rest u = rest ?p"
    using wr_law [of ?p n h] p assms(2,3) by blast
  have "handle u n h" "cur u n = dsk u n" using u p assms(2) by auto
  then obtain t where "rel h u = Inr t" "invar t" "cur t = cur u" "dsk t = dsk u" "dirty t = dirty u"
      "held t = held u - {n}" "hist t = hist u" "rest t = rest u" "\<forall>m c. handle t m c \<longleftrightarrow> m \<noteq> n \<and> handle u m c"
    using rel_law [OF u(2), of n h] by blast
  then show ?thesis using u p by (intro exI [of _ u] exI [of _ t]) auto
qed

text \<open>Copying one held block over another, writing the copy through and releasing both.\<close>

lemma copy_wr_rel:
  assumes "invar s" "handle s a x" "handle s b y" "a \<noteq> b" "legal b" "a \<in> dirty s \<or> cur s a = dsk s a"
  shows "\<exists>u v t. wr y (put y (val s x) s) = Inr u \<and> rel x u = Inr v \<and> rel y v = Inr t \<and> invar t \<and>
    cur t = (cur s)(b := cur s a) \<and> dsk t = (dsk s)(b := cur s a) \<and> dirty t = dirty s - {b} \<and>
    held t = held s - {a, b} \<and> hist t = hist s @ [ev b (cur s a)] \<and> rest t = rest s"
proof -
  have g: "good (val s x)" using good_law [OF assms(1,2)] val_law [OF assms(1,2)] by simp
  let ?p = "put y (val s x) s"
  have p: "invar ?p" "\<forall>m c. handle ?p m c \<longleftrightarrow> handle s m c" "cur ?p = (cur s)(b := cur s a)" "dsk ?p = dsk s"
      "dirty ?p = dirty s" "held ?p = held s" "hist ?p = hist s" "rest ?p = rest s"
    using put_law [OF assms(1,3) g refl] val_law [OF assms(1,2)] by auto
  obtain u where u: "wr y ?p = Inr u" "invar u" "\<forall>m c. handle u m c \<longleftrightarrow> handle ?p m c" "cur u = cur ?p"
      "dsk u = (dsk ?p)(b := cur ?p b)" "dirty u = dirty ?p - {b}" "held u = held ?p" "hist u = hist ?p @ [ev b (cur ?p b)]"
      "rest u = rest ?p"
    using wr_law [of ?p b y] p assms(3,5) by blast
  have "handle u a x" "a \<in> dirty u \<or> cur u a = dsk u a" using u p assms by auto
  then obtain v where v: "rel x u = Inr v" "invar v" "cur v = cur u" "dsk v = dsk u" "dirty v = dirty u"
      "held v = held u - {a}" "hist v = hist u" "rest v = rest u" "\<forall>m c. handle v m c \<longleftrightarrow> m \<noteq> a \<and> handle u m c"
    using rel_law [OF u(2), of a x] by blast
  have "handle v b y" "cur v b = dsk v b" using v u p assms by auto
  then obtain t where t: "rel y v = Inr t" "invar t" "cur t = cur v" "dsk t = dsk v" "dirty t = dirty v"
      "held t = held v - {b}" "hist t = hist v" "rest t = rest v"
    using rel_law [OF v(2), of b y] by blast
  have "held t = held s - {a, b}" unfolding t(6) v(6) u(7) p(6) by blast
  then show ?thesis using t(2) u(1) v(1) t(1)
    by (intro exI [of _ u] exI [of _ v] exI [of _ t]) (simp add: t(3-5,7,8) v(3-5,7,8) u(4-6,8,9) p(3-5,7,8))
qed

end

end
