(* ===== verification/JosPmap.thy ===== *)
theory JosPmap
  imports Interfaces
begin

text \<open>
  The JOS physical page allocator and two-level page tables of \<^verbatim>\<open>lab-3/kern/pmap.c\<close>.

  Addresses and page-table entries are 32-bit words.  \<open>kmem\<close> is physical memory as the kernel
  reads it: the 32-bit word stored at each word-aligned kernel virtual address.  The array
  \<open>pages\<close> of \<open>struct PageInfo\<close> is kept as a list, and a \<open>struct PageInfo *\<close> is an index into
  it (the null pointer is \<open>None\<close>).  Pointers to page-table entries and page directories are
  kernel virtual addresses, with the null pointer 0.  \<open>invlpg_log\<close> records the addresses whose
  TLB entry was invalidated, latest first.
\<close>

subsection \<open>Constants and address arithmetic: inc/mmu.h, inc/memlayout.h, inc/types.h\<close>

definition KERNBASE :: u32 where "KERNBASE = 0xF0000000"
definition PGSIZE :: u32 where "PGSIZE = 4096"
definition N_PGSIZE :: u32 where "N_PGSIZE = 4194304"
definition IOPHYSMEM :: u32 where "IOPHYSMEM = 0x0A0000"
definition EXTPHYSMEM :: u32 where "EXTPHYSMEM = 0x100000"
definition PTE_P :: u32 where "PTE_P = 0x001"
definition PTE_W :: u32 where "PTE_W = 0x002"
definition PTE_U :: u32 where "PTE_U = 0x004"
definition PTE_PS :: u32 where "PTE_PS = 0x080"
definition ALLOC_ZERO :: u32 where "ALLOC_ZERO = 1"
definition E_NO_MEM :: int where "E_NO_MEM = 4"

definition PGNUM :: "u32 \<Rightarrow> u32" where "PGNUM la = drop_bit 12 la"
definition PDX :: "u32 \<Rightarrow> u32" where "PDX la = drop_bit 22 la AND 0x3FF"
definition PTX :: "u32 \<Rightarrow> u32" where "PTX la = drop_bit 12 la AND 0x3FF"
definition PGOFF :: "u32 \<Rightarrow> u32" where "PGOFF la = la AND 0xFFF"
definition N_PGOFF :: "u32 \<Rightarrow> u32" where "N_PGOFF la = la AND 0x3FFFFF"

definition PGADDR :: "u32 \<Rightarrow> u32 \<Rightarrow> u32 \<Rightarrow> u32" where
  "PGADDR d t off = push_bit 22 d OR push_bit 12 t OR off"

definition PTE_ADDR :: "u32 \<Rightarrow> u32" where "PTE_ADDR pte = pte AND NOT 0xFFF"
definition PDE_ADDR :: "u32 \<Rightarrow> u32" where "PDE_ADDR pde = pde AND NOT 0xFFC00000"

definition ROUNDDOWN :: "u32 \<Rightarrow> u32 \<Rightarrow> u32" where
  "ROUNDDOWN a n = a - a mod n"

definition ROUNDUP :: "u32 \<Rightarrow> u32 \<Rightarrow> u32" where
  "ROUNDUP a n = ROUNDDOWN (a + n - 1) n"

subsection \<open>State\<close>

record PageInfo =
  pp_link :: "nat option"
  pp_ref :: u16

record pmap =
  npages :: u32
  npages_basemem :: u32
  fourMB_page_support :: bool
  nextfree :: u32
  kern_pgdir :: u32
  pages_va :: u32
  pages :: "PageInfo list"
  page_free_list :: "nat option"
  kmem :: "u32 \<Rightarrow> u32"
  invlpg_log :: "u32 list"

definition set_link :: "nat \<Rightarrow> nat option \<Rightarrow> pmap \<Rightarrow> pmap" where
  "set_link p l s = s\<lparr>pages := (pages s)[p := (pages s ! p)\<lparr>pp_link := l\<rparr>]\<rparr>"

definition set_ref :: "nat \<Rightarrow> u16 \<Rightarrow> pmap \<Rightarrow> pmap" where
  "set_ref p r s = s\<lparr>pages := (pages s)[p := (pages s ! p)\<lparr>pp_ref := r\<rparr>]\<rparr>"

definition store :: "u32 \<Rightarrow> u32 \<Rightarrow> pmap \<Rightarrow> pmap" where
  "store a v s = s\<lparr>kmem := (kmem s)(a := v)\<rparr>"

text \<open>\<open>memset\<close> on whole words: \<open>kva\<close> and \<open>n\<close> are multiples of four at every call.\<close>

definition memset_words :: "u32 \<Rightarrow> u8 \<Rightarrow> u32 \<Rightarrow> pmap \<Rightarrow> pmap" where
  "memset_words kva c n s =
     s\<lparr>kmem := (\<lambda>a. if a - kva < n then ucast c * 0x01010101 else kmem s a)\<rparr>"

subsection \<open>Address conversion: kern/pmap.h\<close>

definition PADDR :: "u32 \<Rightarrow> u32 res" where
  "PADDR kva =
     (if kva < KERNBASE then Inl ''PADDR called with invalid kva'' else Inr (kva - KERNBASE))"

definition KADDR :: "pmap \<Rightarrow> u32 \<Rightarrow> u32 res" where
  "KADDR s pa =
     (if npages s \<le> PGNUM pa then Inl ''KADDR called with invalid pa'' else Inr (pa + KERNBASE))"

definition page2pa :: "nat \<Rightarrow> u32" where
  "page2pa pp = push_bit 12 (of_nat pp)"

definition pa2page :: "pmap \<Rightarrow> u32 \<Rightarrow> nat res" where
  "pa2page s pa =
     (if npages s \<le> PGNUM pa then Inl ''pa2page called with invalid pa''
      else Inr (unat (PGNUM pa)))"

definition page2kva :: "pmap \<Rightarrow> nat \<Rightarrow> u32 res" where
  "page2kva s pp = KADDR s (page2pa pp)"

subsection \<open>The page allocator\<close>

definition page_alloc :: "u32 \<Rightarrow> pmap \<Rightarrow> (nat option \<times> pmap) res" where
  "page_alloc alloc_flags s =
     (case page_free_list s of
        None \<Rightarrow> Inr (None, s)
      | Some sendPage \<Rightarrow>
          (let s1 = s\<lparr>page_free_list := pp_link (pages s ! sendPage)\<rparr>;
               s2 = set_link sendPage None s1
           in if alloc_flags AND ALLOC_ZERO \<noteq> 0
              then rbind (page2kva s2 sendPage)
                     (\<lambda>kva. Inr (Some sendPage, memset_words kva 0 PGSIZE s2))
              else Inr (Some sendPage, s2)))"

definition page_free :: "nat \<Rightarrow> pmap \<Rightarrow> pmap res" where
  "page_free pp s =
     (if pp_ref (pages s ! pp) \<noteq> 0 then Inl ''Page reference count is not zero''
      else if pp_link (pages s ! pp) \<noteq> None then Inl ''Page link is not NULL''
      else Inr ((set_link pp (page_free_list s) s)\<lparr>page_free_list := Some pp\<rparr>))"

definition page_decref :: "nat \<Rightarrow> pmap \<Rightarrow> pmap res" where
  "page_decref pp s =
     (let s1 = set_ref pp (pp_ref (pages s ! pp) - 1) s
      in if pp_ref (pages s1 ! pp) = 0 then page_free pp s1 else Inr s1)"

subsection \<open>Page tables\<close>

definition pgdir_walk :: "u32 \<Rightarrow> u32 \<Rightarrow> bool \<Rightarrow> pmap \<Rightarrow> (u32 \<times> pmap) res" where
  "pgdir_walk pgdir va create s =
     (let pde = pgdir + 4 * PDX va
      in if kmem s pde AND PTE_P \<noteq> 0
         then rbind (KADDR s (PTE_ADDR (kmem s pde))) (\<lambda>pte. Inr (pte + 4 * PTX va, s))
         else if create
         then rbind (page_alloc ALLOC_ZERO s)
                (\<lambda>(newPage, s1). case newPage of
                     None \<Rightarrow> Inr (0, s1)
                   | Some np \<Rightarrow>
                       (let s2 = set_ref np (pp_ref (pages s1 ! np) + 1) s1;
                            s3 = store pde (page2pa np OR PTE_P OR PTE_W OR PTE_U) s2
                        in rbind (KADDR s3 (PTE_ADDR (kmem s3 pde)))
                             (\<lambda>pte. Inr (pte + 4 * PTX va, s3))))
         else Inr (0, s))"

fun boot_map_4M :: "u32 \<Rightarrow> u32 \<Rightarrow> u32 \<Rightarrow> u32 \<Rightarrow> nat \<Rightarrow> nat \<Rightarrow> pmap \<Rightarrow> pmap res" where
  "boot_map_4M pgdir va pa perm i 0 s = Inr s"
| "boot_map_4M pgdir va pa perm i (Suc n) s =
     (let pte = pgdir + 4 * PDX (va + of_nat i * N_PGSIZE)
      in if pte = 0 then Inl ''boot_map_region: Failed to map region''
         else boot_map_4M pgdir va pa perm (Suc i) n
                (store pte ((pa + of_nat i * N_PGSIZE) OR perm OR PTE_P) s))"

fun boot_map_4K :: "u32 \<Rightarrow> u32 \<Rightarrow> u32 \<Rightarrow> u32 \<Rightarrow> nat \<Rightarrow> nat \<Rightarrow> pmap \<Rightarrow> pmap res" where
  "boot_map_4K pgdir va pa perm i 0 s = Inr s"
| "boot_map_4K pgdir va pa perm i (Suc n) s =
     rbind (pgdir_walk pgdir (va + of_nat i * PGSIZE) True s)
       (\<lambda>(pte, s1).
          if pte = 0 then Inl ''boot_map_region: Failed to map region''
          else boot_map_4K pgdir va pa perm (Suc i) n
                 (store pte ((pa + of_nat i * PGSIZE) OR perm OR PTE_P) s1))"

definition boot_map_region :: "u32 \<Rightarrow> u32 \<Rightarrow> u32 \<Rightarrow> u32 \<Rightarrow> u32 \<Rightarrow> pmap \<Rightarrow> pmap res" where
  "boot_map_region pgdir va sz pa perm s =
     rbind
       (if fourMB_page_support s \<and> perm AND PTE_PS \<noteq> 0
        then boot_map_4M pgdir va pa perm 0 (unat (sz div N_PGSIZE)) s else Inr s)
       (boot_map_4K pgdir va pa perm 0 (unat (sz div PGSIZE)))"

definition page_lookup :: "u32 \<Rightarrow> u32 \<Rightarrow> pmap \<Rightarrow> (nat option \<times> u32 \<times> pmap) res" where
  \<comment> \<open>the second component is what the call stores through \<open>pte_store\<close>\<close>
  "page_lookup pgdir va s =
     rbind (pgdir_walk pgdir va False s)
       (\<lambda>(pte, s1).
          if pte = 0 \<or> kmem s1 pte AND PTE_P = 0 then Inr (None, 0, s1)
          else rbind (pa2page s1 (PTE_ADDR (kmem s1 pte))) (\<lambda>pp. Inr (Some pp, pte, s1)))"

definition tlb_invalidate :: "u32 \<Rightarrow> u32 \<Rightarrow> pmap \<Rightarrow> pmap" where
  "tlb_invalidate pgdir va s = s\<lparr>invlpg_log := va # invlpg_log s\<rparr>"

definition page_remove :: "u32 \<Rightarrow> u32 \<Rightarrow> pmap \<Rightarrow> pmap res" where
  "page_remove pgdir va s =
     rbind (page_lookup pgdir va s)
       (\<lambda>(checkPage, pte, s1). case checkPage of
            None \<Rightarrow> Inr s1
          | Some pp \<Rightarrow>
              rbind (page_decref pp s1) (\<lambda>s2. Inr (tlb_invalidate pgdir va (store pte 0 s2))))"

definition page_insert :: "u32 \<Rightarrow> nat \<Rightarrow> u32 \<Rightarrow> u32 \<Rightarrow> pmap \<Rightarrow> (int \<times> pmap) res" where
  "page_insert pgdir pp va perm s =
     rbind (pgdir_walk pgdir va True s)
       (\<lambda>(pte, s1).
          if pte = 0 then Inr (- E_NO_MEM, s1)
          else
            (let s2 = set_ref pp (pp_ref (pages s1 ! pp) + 1) s1
             in rbind (if kmem s2 pte AND PTE_P \<noteq> 0 then page_remove pgdir va s2 else Inr s2)
                  (\<lambda>s3.
                     (let s4 = store pte (page2pa pp OR perm OR PTE_P) s3;
                          pde = pgdir + 4 * PDX va
                      in Inr (0, store pde (kmem s4 pde OR perm) s4)))))"

subsection \<open>The free list as a list of pages\<close>

definition nxt :: "pmap \<Rightarrow> nat \<Rightarrow> nat option" where
  "nxt s p = pp_link (pages s ! p)"

definition free_pages :: "pmap \<Rightarrow> nat list" where
  "free_pages s = follow (length (pages s)) (nxt s) (page_free_list s)"

text \<open>
  The allocator's invariant: the free list ends, it holds valid pages with reference count 0,
  and every page off the list has a null link.
\<close>

definition pool_ok :: "pmap \<Rightarrow> bool" where
  "pool_ok s \<longleftrightarrow>
     length (pages s) = unat (npages s) \<and>
     chain (nxt s) (page_free_list s) (free_pages s) \<and>
     (\<forall>p\<in>set (free_pages s). p < length (pages s) \<and> pp_ref (pages s ! p) = 0) \<and>
     (\<forall>p<length (pages s). p \<notin> set (free_pages s) \<longrightarrow> pp_link (pages s ! p) = None)"

definition can_free :: "pmap \<Rightarrow> nat \<Rightarrow> bool" where
  "can_free s p \<longleftrightarrow> p < length (pages s) \<and> pp_ref (pages s ! p) = 0 \<and> p \<notin> set (free_pages s)"

text \<open>The two operations without the zeroing flag, as a client without panics sees them.\<close>

definition alloc_page :: "pmap \<Rightarrow> (nat \<times> pmap) option" where
  "alloc_page s = (case page_alloc 0 s of Inr (Some p, t) \<Rightarrow> Some (p, t) | _ \<Rightarrow> None)"

definition release_page :: "nat \<Rightarrow> pmap \<Rightarrow> pmap" where
  "release_page p s = (case page_free p s of Inl _ \<Rightarrow> s | Inr t \<Rightarrow> t)"

lemma free_pages_eqI:
  assumes "chain (nxt s) (page_free_list s) xs" and "\<forall>p\<in>set xs. p < length (pages s)"
  shows "free_pages s = xs"
proof -
  have "distinct xs" using assms(1) by (rule chain_distinct)
  moreover have "set xs \<subseteq> {..<length (pages s)}" using assms(2) by auto
  ultimately have "length xs \<le> length (pages s)"
    by (metis card_lessThan card_mono distinct_card finite_lessThan)
  then show ?thesis using assms(1) by (simp add: free_pages_def follow_chain)
qed

lemma pool_okI:
  assumes "length (pages s) = unat (npages s)" and "chain (nxt s) (page_free_list s) xs"
    and "\<forall>p\<in>set xs. p < length (pages s) \<and> pp_ref (pages s ! p) = 0"
    and "\<forall>p<length (pages s). p \<notin> set xs \<longrightarrow> pp_link (pages s ! p) = None"
  shows "pool_ok s \<and> free_pages s = xs"
  using assms free_pages_eqI [of s xs] by (simp add: pool_ok_def)

lemma pool_ok_distinct: "pool_ok s \<Longrightarrow> distinct (free_pages s)"
  unfolding pool_ok_def using chain_distinct by blast

lemma nxt_set_link: "p < length (pages s) \<Longrightarrow> nxt (set_link p l s) = (nxt s)(p := l)"
  by (auto simp: nxt_def set_link_def nth_list_update fun_eq_iff)

lemma set_link_fields [simp]:
  "npages (set_link p l s) = npages s" "page_free_list (set_link p l s) = page_free_list s"
  "kmem (set_link p l s) = kmem s" "length (pages (set_link p l s)) = length (pages s)"
  "pp_ref (pages (set_link p l s) ! q) = pp_ref (pages s ! q)"
  by (auto simp: set_link_def nth_list_update_if)

lemma page_alloc_free_list:
  assumes ok: "pool_ok s" and fl: "page_free_list s = Some p"
  defines "t \<equiv> set_link p None (s\<lparr>page_free_list := pp_link (pages s ! p)\<rparr>)"
  shows "pool_ok t \<and> free_pages s = p # free_pages t \<and> can_free t p"
proof -
  obtain ps where fp: "free_pages s = p # ps" and ch: "chain (nxt s) (nxt s p) ps"
    using ok fl unfolding pool_ok_def by (auto simp: chain_Some)
  have dist: "distinct (p # ps)" using pool_ok_distinct [OF ok] fp by simp
  have p: "p < length (pages s)" using ok fp by (simp add: pool_ok_def)
  have nx: "nxt t = (nxt s)(p := None)"
    unfolding t_def by (subst nxt_set_link) (use p in \<open>auto simp: nxt_def fun_eq_iff\<close>)
  have "pool_ok t \<and> free_pages t = ps"
  proof (rule pool_okI)
    show "length (pages t) = unat (npages t)" using ok by (simp add: t_def pool_ok_def)
    show "chain (nxt t) (page_free_list t) ps"
      using ch dist by (simp add: nx chain_upd) (simp add: t_def nxt_def)
    show "\<forall>q\<in>set ps. q < length (pages t) \<and> pp_ref (pages t ! q) = 0"
      using ok fp unfolding t_def pool_ok_def by auto
    show "\<forall>q<length (pages t). q \<notin> set ps \<longrightarrow> pp_link (pages t ! q) = None"
      using ok fp by (auto simp: t_def pool_ok_def set_link_def nth_list_update_if)
  qed
  moreover have "p < length (pages t) \<and> pp_ref (pages t ! p) = 0"
    using ok fp unfolding t_def pool_ok_def by auto
  ultimately show ?thesis using fp dist by (simp add: can_free_def)
qed

lemma alloc_page_cases:
  "alloc_page s =
     (case page_free_list s of None \<Rightarrow> None
      | Some p \<Rightarrow> Some (p, set_link p None (s\<lparr>page_free_list := pp_link (pages s ! p)\<rparr>)))"
  by (simp add: alloc_page_def page_alloc_def ALLOC_ZERO_def Let_def split: option.splits)

lemma page_alloc_ok:
  assumes ok: "pool_ok s"
  shows "alloc_page s = None \<longleftrightarrow> free_pages s = []"
    and "alloc_page s = Some (p, t) \<Longrightarrow> pool_ok t \<and> free_pages s = p # free_pages t \<and> can_free t p"
proof -
  have ch: "chain (nxt s) (page_free_list s) (free_pages s)" using ok by (simp add: pool_ok_def)
  show "alloc_page s = None \<longleftrightarrow> free_pages s = []"
    using ch by (cases "page_free_list s") (auto simp: alloc_page_cases chain_Some)
  show "pool_ok t \<and> free_pages s = p # free_pages t \<and> can_free t p" if "alloc_page s = Some (p, t)"
    using page_alloc_free_list [OF ok] that by (auto simp: alloc_page_cases split: option.splits)
qed

lemma page_free_ok:
  assumes ok: "pool_ok s" and cf: "can_free s p"
  shows "\<exists>t. page_free p s = Inr t \<and> pool_ok t \<and> free_pages t = p # free_pages s"
proof -
  define t where "t = (set_link p (page_free_list s) s)\<lparr>page_free_list := Some p\<rparr>"
  have p: "p < length (pages s)" "pp_ref (pages s ! p) = 0" "p \<notin> set (free_pages s)"
    using cf by (auto simp: can_free_def)
  have link: "pp_link (pages s ! p) = None" using ok p by (simp add: pool_ok_def)
  have nx: "nxt t = (nxt s)(p := page_free_list s)"
    using nxt_set_link [OF p(1), of "page_free_list s"] by (simp add: t_def nxt_def fun_eq_iff)
  have "pool_ok t \<and> free_pages t = p # free_pages s"
  proof (rule pool_okI)
    show "length (pages t) = unat (npages t)" using ok by (simp add: t_def pool_ok_def)
    show "chain (nxt t) (page_free_list t) (p # free_pages s)"
      using ok p by (simp add: nx chain_upd pool_ok_def) (simp add: t_def)
    show "\<forall>q\<in>set (p # free_pages s). q < length (pages t) \<and> pp_ref (pages t ! q) = 0"
      using ok p unfolding t_def pool_ok_def by auto
    show "\<forall>q<length (pages t). q \<notin> set (p # free_pages s) \<longrightarrow> pp_link (pages t ! q) = None"
      using ok nx unfolding t_def pool_ok_def nxt_def by (auto simp: fun_eq_iff)
  qed
  moreover have "page_free p s = Inr t" using p link by (simp add: page_free_def t_def)
  ultimately show ?thesis by blast
qed

text \<open>The allocator provides the page-pool interface.\<close>

interpretation jos_pool: page_pool pool_ok free_pages alloc_page release_page can_free
proof
  fix s t :: pmap and p :: nat
  assume ok: "pool_ok s"
  show "alloc_page s = None \<longleftrightarrow> free_pages s = []" using ok by (rule page_alloc_ok)
  show "distinct (free_pages s)" using ok by (rule pool_ok_distinct)
  show "free_pages s = p # free_pages t" "pool_ok t" "can_free t p"
    if "alloc_page s = Some (p, t)" using page_alloc_ok(2) [OF ok that] by auto
  show "free_pages (release_page p s) = p # free_pages s" "pool_ok (release_page p s)"
    if "can_free s p" using page_free_ok [OF ok that] by (auto simp: release_page_def)
  show "p \<notin> set (free_pages s)" if "can_free s p" using that by (simp add: can_free_def)
qed

end
