(* ===== verification/JosPgtable.thy ===== *)
theory JosPgtable
  imports JosPmap
begin

text \<open>
  Correctness of the JOS page tables: the two-level table of a page directory as a map from
  (directory index, table index) to page frames, the invariant that ties reference counts to
  that map, and what \<open>pgdir_walk\<close>, \<open>page_lookup\<close>, \<open>page_remove\<close>, \<open>page_insert\<close> and
  \<open>boot_map_region\<close> do to it.
\<close>

subsection \<open>Addresses of page-table entries\<close>

definition pfn :: "u32 \<Rightarrow> nat" where
  "pfn e = unat (PGNUM e)"

definition frame_va :: "nat \<Rightarrow> u32" where
  "frame_va f = page2pa f + KERNBASE"

definition pte_va :: "nat \<Rightarrow> nat \<Rightarrow> u32" where
  "pte_va f i = frame_va f + 4 * of_nat i"

lemma numeral_masks:
  "(0xFFF::u32) = mask 12" "(0x3FF::u32) = mask 10" "(0x3FFFFF::u32) = mask 22"
  by (simp_all add: mask_eq_exp_minus_1)

lemma page2pa_eq: "page2pa p = of_nat (p * 4096)"
  by (simp add: page2pa_def push_bit_eq_mult)

lemma unat_page2pa: "p < 1048576 \<Longrightarrow> unat (page2pa p) = p * 4096"
  by (simp add: page2pa_eq unat_of_nat take_bit_nat_eq_self del: of_nat_mult)

lemma unat_PDX: "unat (PDX va) < 1024"
  unfolding PDX_def numeral_masks
  by (simp add: take_bit_eq_mask [symmetric] unsigned_take_bit_eq take_bit_nat_def)

lemma unat_PTX: "unat (PTX va) < 1024"
  unfolding PTX_def numeral_masks
  by (simp add: take_bit_eq_mask [symmetric] unsigned_take_bit_eq take_bit_nat_def)

lemma PTE_ADDR_page2pa: "PTE_ADDR e = page2pa (pfn e)"
proof -
  have "of_nat (unat (drop_bit 12 e)) = (drop_bit 12 e :: u32)" by simp
  then show ?thesis
    unfolding PTE_ADDR_def page2pa_def pfn_def PGNUM_def numeral_masks
    by (simp only:) (auto intro!: bit_eqI simp: bit_simps)
qed

lemma pfn_PTE_ADDR [simp]: "pfn (PTE_ADDR e) = pfn e"
  unfolding PTE_ADDR_def pfn_def PGNUM_def numeral_masks
  by (intro arg_cong [where f = unat] bit_eqI) (auto simp: bit_simps dest: bit_imp_le_length)

lemma pfn_bound: "pfn e < 1048576"
proof -
  have "unat e < 2 ^ 32" using unsigned_less [of e] by simp
  then show ?thesis by (simp add: pfn_def PGNUM_def unat_drop_bit_eq drop_bit_nat_def)
qed

lemma PGNUM_or: "PGNUM (a OR b) = PGNUM a OR PGNUM b"
  by (simp add: PGNUM_def drop_bit_or)

lemma PGNUM_eq_0: "PGNUM x = 0 \<longleftrightarrow> x < 4096"
  by (simp add: PGNUM_def word_unat_eq_iff unat_drop_bit_eq drop_bit_nat_def word_less_nat_alt
      div_eq_0_iff)

lemma PGNUM_small: "x < 4096 \<Longrightarrow> PGNUM x = 0"
  by (simp add: PGNUM_eq_0)

lemma pfn_page2pa: "p < 1048576 \<Longrightarrow> pfn (page2pa p) = p"
  by (simp add: pfn_def PGNUM_def unat_drop_bit_eq drop_bit_nat_def unat_page2pa)

lemma pfn_entry:
  assumes "p < 1048576" and "x < 4096"
  shows "pfn (page2pa p OR x) = p"
  using assms by (simp add: pfn_def PGNUM_or PGNUM_small) (simp flip: pfn_def add: pfn_page2pa)

lemma or_small: "a < 4096 \<Longrightarrow> b < 4096 \<Longrightarrow> (a OR b :: u32) < 4096"
  by (simp flip: PGNUM_eq_0 add: PGNUM_or)

lemma unat_pte_va:
  "f < 65536 \<Longrightarrow> i < 1024 \<Longrightarrow> unat (pte_va f i) = 4026531840 + 4096 * f + 4 * i"
proof -
  assume b: "f < 65536" "i < 1024"
  have "pte_va f i = of_nat (4026531840 + 4096 * f + 4 * i)"
    by (simp add: pte_va_def frame_va_def page2pa_eq KERNBASE_def)
  then show ?thesis using b by (simp add: unat_of_nat take_bit_nat_eq_self del: of_nat_add of_nat_mult)
qed

lemma pte_va_inj:
  assumes "f < 65536" "g < 65536" "i < 1024" "j < 1024"
  shows "pte_va f i = pte_va g j \<longleftrightarrow> f = g \<and> i = j"
proof
  assume "pte_va f i = pte_va g j"
  then have "unat (pte_va f i) = unat (pte_va g j)" by simp
  then have "4096 * f + 4 * i = 4096 * g + 4 * j" using assms by (simp add: unat_pte_va)
  moreover have "(4096 * f + 4 * i) div 4096 = f" "(4096 * g + 4 * j) div 4096 = g"
    using assms by simp_all
  ultimately show "f = g \<and> i = j" by auto
qed simp

lemma pte_va_nonzero: "f < 65536 \<Longrightarrow> i < 1024 \<Longrightarrow> pte_va f i \<noteq> 0"
  using unat_pte_va [of f i] by (metis add_is_0 unat_0 zero_neq_numeral)

subsection \<open>The page tables of a directory as a map\<close>

text \<open>
  \<open>d\<close> is the page frame of the directory and \<open>skip\<close> the directory indices left out of the
  view: those of the static mappings made by \<open>boot_map_region\<close> and of the self-map at \<open>UVPT\<close>.
\<close>

definition present :: "u32 \<Rightarrow> bool" where
  "present e \<longleftrightarrow> e AND PTE_P \<noteq> 0"

definition dirs :: "nat set \<Rightarrow> nat set" where
  "dirs skip = {..<1024} - skip"

definition tbl :: "nat set \<Rightarrow> nat \<Rightarrow> pmap \<Rightarrow> nat \<Rightarrow> nat option" where
  \<comment> \<open>the frame of the page table for directory index \<open>i\<close>\<close>
  "tbl skip d s i =
     (let e = kmem s (pte_va d i) in if i \<in> dirs skip \<and> present e then Some (pfn e) else None)"

definition pte_word :: "nat set \<Rightarrow> nat \<Rightarrow> pmap \<Rightarrow> nat \<times> nat \<Rightarrow> u32" where
  \<comment> \<open>the page-table entry for the indices \<open>(i, j)\<close>, 0 where there is no page table\<close>
  "pte_word skip d s =
     (\<lambda>(i, j). case tbl skip d s i of None \<Rightarrow> 0
               | Some f \<Rightarrow> if j < 1024 then kmem s (pte_va f j) else 0)"

definition mapping :: "nat set \<Rightarrow> nat \<Rightarrow> pmap \<Rightarrow> nat \<times> nat \<Rightarrow> nat option" where
  \<comment> \<open>the page frame mapped at the indices\<close>
  "mapping skip d s x =
     (let e = pte_word skip d s x in if present e then Some (pfn e) else None)"

definition idx :: "u32 \<Rightarrow> nat \<times> nat" where
  "idx va = (unat (PDX va), unat (PTX va))"

definition slots :: "nat set \<Rightarrow> (nat \<times> nat) set" where
  "slots skip = dirs skip \<times> {..<1024}"

definition refs :: "nat set \<Rightarrow> nat \<Rightarrow> pmap \<Rightarrow> nat \<Rightarrow> nat" where
  \<comment> \<open>how many entries of the view refer to page \<open>p\<close>\<close>
  "refs skip d s p =
     card {x \<in> slots skip. mapping skip d s x = Some p} +
     card {i \<in> dirs skip. tbl skip d s i = Some p}"

text \<open>
  The invariant of a directory: the page tables are distinct frames, different from the
  directory, all entries name existing pages, and the reference count of every page is exactly
  the number of entries that refer to it plus its references from elsewhere (\<open>ext\<close>).
\<close>

definition vm_ok :: "nat set \<Rightarrow> (nat \<Rightarrow> nat) \<Rightarrow> nat \<Rightarrow> pmap \<Rightarrow> bool" where
  "vm_ok skip ext d s \<longleftrightarrow>
     pool_ok s \<and> unat (npages s) \<le> 65536 \<and> d < unat (npages s) \<and> 0 < ext d \<and>
     (\<forall>i f. tbl skip d s i = Some f \<longrightarrow> f < unat (npages s) \<and> f \<noteq> d) \<and>
     (\<forall>i j f. tbl skip d s i = Some f \<longrightarrow> tbl skip d s j = Some f \<longrightarrow> i = j) \<and>
     (\<forall>x p. mapping skip d s x = Some p \<longrightarrow> p < unat (npages s)) \<and>
     (\<forall>p<unat (npages s). unat (pp_ref (pages s ! p)) = refs skip d s p + ext p)"

text \<open>The part of the invariant that does not count references.\<close>

definition pt_ok :: "nat set \<Rightarrow> nat \<Rightarrow> pmap \<Rightarrow> bool" where
  "pt_ok skip d s \<longleftrightarrow>
     pool_ok s \<and> unat (npages s) \<le> 65536 \<and> d < unat (npages s) \<and> d \<notin> set (free_pages s) \<and>
     (\<forall>i f. tbl skip d s i = Some f \<longrightarrow> f < unat (npages s) \<and> f \<noteq> d \<and> f \<notin> set (free_pages s)) \<and>
     (\<forall>i j f. tbl skip d s i = Some f \<longrightarrow> tbl skip d s j = Some f \<longrightarrow> i = j)"

lemma card_filter_upd:
  assumes "finite A" and "x \<in> A"
  shows "card {y\<in>A. (f(x := v)) y = q} + (if f x = q then 1 else 0) =
         card {y\<in>A. f y = q} + (if v = q then 1 else 0)"
proof -
  have split: "card {y\<in>A. g y = q} = card {y\<in>A - {x}. g y = q} + (if g x = q then 1 else 0)"
    for g :: "'a \<Rightarrow> 'b"
  proof -
    have "{y\<in>A. g y = q} = {y\<in>A - {x}. g y = q} \<union> (if g x = q then {x} else {})"
      using assms(2) by auto
    moreover have "{y\<in>A - {x}. g y = q} \<inter> (if g x = q then {x} else {}) = {}" by auto
    ultimately show ?thesis using assms(1) by (simp add: card_Un_disjoint)
  qed
  have "{y\<in>A - {x}. (f(x := v)) y = q} = {y\<in>A - {x}. f y = q}" by auto
  then show ?thesis using split [of f] split [of "f(x := v)"] by (simp only: fun_upd_same)
qed

lemma card_filter_pos: "finite A \<Longrightarrow> x \<in> A \<Longrightarrow> P x \<Longrightarrow> 0 < card {y\<in>A. P y}"
  by (subst card_gt_0_iff) auto

lemma finite_dirs [simp]: "finite (dirs skip)" "finite (slots skip)"
  by (simp_all add: dirs_def slots_def)

lemma dirs_less: "i \<in> dirs skip \<Longrightarrow> i < 1024"
  by (simp add: dirs_def)

lemma idx_slots: "idx va \<in> slots skip \<longleftrightarrow> fst (idx va) \<in> dirs skip"
  by (simp add: idx_def slots_def unat_PTX)

lemma tbl_dirs: "tbl skip d s i = Some f \<Longrightarrow> i \<in> dirs skip"
  by (simp add: tbl_def Let_def split: if_splits)

lemma mapping_tbl:
  "mapping skip d s x = Some p \<Longrightarrow>
     \<exists>f. tbl skip d s (fst x) = Some f \<and> snd x < 1024 \<and> pte_word skip d s x = kmem s (pte_va f (snd x))"
  by (cases x) (auto simp: mapping_def pte_word_def Let_def present_def
      split: option.splits if_splits)

lemma mapping_slots: "mapping skip d s x = Some p \<Longrightarrow> x \<in> slots skip"
  by (cases x) (auto dest!: mapping_tbl tbl_dirs simp: slots_def)

lemma present_entry [simp]: "present (a OR PTE_P)" "present (a OR (PTE_P OR b))"
  "present (a OR (b OR PTE_P))"
  by (auto simp: present_def PTE_P_def bit_or_iff bit_1_iff)

lemma not_present_0 [simp]: "\<not> present 0"
  by (simp add: present_def)

lemma vm_ok_table:
  assumes ok: "vm_ok skip ext d s" and f: "tbl skip d s i = Some f"
  shows "f < unat (npages s)" "f \<noteq> d" "f < 65536" "f \<notin> set (free_pages s)"
    "0 < unat (pp_ref (pages s ! f))"
proof -
  show b: "f < unat (npages s)" "f \<noteq> d" using assms by (auto simp: vm_ok_def)
  then show "f < 65536" using ok by (simp add: vm_ok_def)
  have "i \<in> {i \<in> dirs skip. tbl skip d s i = Some f}" using f by (simp add: tbl_dirs)
  then have "0 < card {i \<in> dirs skip. tbl skip d s i = Some f}"
    using finite_dirs(1) by (intro card_filter_pos) auto
  then show r: "0 < unat (pp_ref (pages s ! f))" using ok b by (simp add: vm_ok_def refs_def)
  then show "f \<notin> set (free_pages s)" using ok by (auto simp: vm_ok_def pool_ok_def)
qed

lemma vm_ok_pt_ok: "vm_ok skip ext d s \<Longrightarrow> pt_ok skip d s"
proof -
  assume ok: "vm_ok skip ext d s"
  have "d \<notin> set (free_pages s)" using ok by (auto simp: vm_ok_def pool_ok_def)
  moreover have "\<forall>i f. tbl skip d s i = Some f \<longrightarrow>
      f < unat (npages s) \<and> f \<noteq> d \<and> f \<notin> set (free_pages s)"
    using vm_ok_table(1,2,4) [OF ok] by blast
  ultimately show ?thesis using ok unfolding vm_ok_def pt_ok_def by simp
qed

lemma pt_ok_table:
  assumes "pt_ok skip d s" and "tbl skip d s i = Some f"
  shows "f < unat (npages s)" "f \<noteq> d" "f < 65536" "f \<notin> set (free_pages s)"
  using assms by (fastforce simp: pt_ok_def)+

lemma pt_ok_dir:
  "pt_ok skip d s \<Longrightarrow> d \<notin> set (free_pages s)" "pt_ok skip d s \<Longrightarrow> d < 65536"
  by (auto simp: pt_ok_def)

lemma vm_ok_mapped:
  assumes ok: "vm_ok skip ext d s" and p: "mapping skip d s x = Some p"
  shows "p < unat (npages s)" "0 < unat (pp_ref (pages s ! p))" "p \<notin> set (free_pages s)"
proof -
  show b: "p < unat (npages s)" using assms unfolding vm_ok_def by blast
  have "x \<in> {x \<in> slots skip. mapping skip d s x = Some p}" using p by (simp add: mapping_slots)
  then have "0 < card {x \<in> slots skip. mapping skip d s x = Some p}"
    using finite_dirs(2) by (intro card_filter_pos) auto
  then show r: "0 < unat (pp_ref (pages s ! p))" using ok b by (simp add: vm_ok_def refs_def)
  then show "p \<notin> set (free_pages s)" using ok by (auto simp: vm_ok_def pool_ok_def)
qed

subsection \<open>How stores change the map\<close>

lemma view_kmem_cong:
  assumes "kmem t = kmem s"
  shows "tbl skip d t = tbl skip d s" "pte_word skip d t = pte_word skip d s"
    "mapping skip d t = mapping skip d s" "refs skip d t = refs skip d s"
proof -
  show t: "tbl skip d t = tbl skip d s" using assms by (auto simp: tbl_def fun_eq_iff)
  then show w: "pte_word skip d t = pte_word skip d s"
    using assms by (auto simp: pte_word_def fun_eq_iff split: option.splits)
  then show m: "mapping skip d t = mapping skip d s" by (auto simp: mapping_def fun_eq_iff)
  then show "refs skip d t = refs skip d s" using t by (simp add: refs_def [abs_def])
qed

lemma store_fields [simp]:
  "npages (store a v s) = npages s" "page_free_list (store a v s) = page_free_list s"
  "pages (store a v s) = pages s" "nxt (store a v s) = nxt s"
  "free_pages (store a v s) = free_pages s" "pool_ok (store a v s) = pool_ok s"
  "kmem (store a v s) = (kmem s)(a := v)" "invlpg_log (store a v s) = invlpg_log s"
proof -
  show nx: "nxt (store a v s) = nxt s" by (simp add: store_def nxt_def fun_eq_iff)
  show "free_pages (store a v s) = free_pages s"
    unfolding free_pages_def nx by (simp add: store_def)
  then show "pool_ok (store a v s) = pool_ok s"
    unfolding pool_ok_def nx by (simp add: store_def)
qed (simp_all add: store_def)

lemma store_table:
  assumes ok: "pt_ok skip d s" and f: "tbl skip d s i = Some f" and j: "j < 1024"
  shows "tbl skip d (store (pte_va f j) e s) = tbl skip d s"
    and "pte_word skip d (store (pte_va f j) e s) = (pte_word skip d s)((i, j) := e)"
    and "mapping skip d (store (pte_va f j) e s) =
           (mapping skip d s)((i, j) := if present e then Some (pfn e) else None)"
proof -
  have d: "d < 65536" using ok by (rule pt_ok_dir)
  note F = pt_ok_table [OF ok f]
  show t: "tbl skip d (store (pte_va f j) e s) = tbl skip d s"
    using F d j by (auto simp: tbl_def Let_def fun_eq_iff pte_va_inj dirs_less)
  show w: "pte_word skip d (store (pte_va f j) e s) = (pte_word skip d s)((i, j) := e)"
  proof
    fix x :: "nat \<times> nat"
    obtain k l where x: "x = (k, l)" by (cases x)
    show "pte_word skip d (store (pte_va f j) e s) x = ((pte_word skip d s)((i, j) := e)) x"
    proof (cases "tbl skip d s k")
      case None
      then show ?thesis using f by (auto simp: x pte_word_def t)
    next
      case (Some g)
      have "g = f \<longleftrightarrow> k = i" using ok f Some by (auto simp: pt_ok_def)
      then show ?thesis
        using Some F j pt_ok_table [OF ok Some]
        by (auto simp: x pte_word_def t pte_va_inj)
    qed
  qed
  show "mapping skip d (store (pte_va f j) e s) =
      (mapping skip d s)((i, j) := if present e then Some (pfn e) else None)"
    by (auto simp: mapping_def w Let_def fun_eq_iff)
qed

lemma store_dir_flags:
  assumes ok: "pt_ok skip d s" and i: "tbl skip d s i = Some f" and perm: "perm < 4096"
  shows "tbl skip d (store (pte_va d i) (kmem s (pte_va d i) OR perm) s) = tbl skip d s"
    and "pte_word skip d (store (pte_va d i) (kmem s (pte_va d i) OR perm) s) = pte_word skip d s"
    and "mapping skip d (store (pte_va d i) (kmem s (pte_va d i) OR perm) s) = mapping skip d s"
proof -
  let ?t = "store (pte_va d i) (kmem s (pte_va d i) OR perm) s"
  have d: "d < 65536" using ok by (rule pt_ok_dir)
  have I: "i \<in> dirs skip" "i < 1024" using i by (auto dest: tbl_dirs dirs_less)
  have e: "present (kmem s (pte_va d i))" using i by (simp add: tbl_def Let_def split: if_splits)
  then have p: "present (kmem s (pte_va d i) OR perm)"
    by (auto simp: present_def PTE_P_def bit_or_iff)
  have n: "pfn (kmem s (pte_va d i) OR perm) = pfn (kmem s (pte_va d i))"
    using perm by (simp add: pfn_def PGNUM_or PGNUM_small)
  show t: "tbl skip d ?t = tbl skip d s"
    using d I e p n by (auto simp: tbl_def Let_def fun_eq_iff pte_va_inj dirs_less)
  show w: "pte_word skip d ?t = pte_word skip d s"
  proof
    fix x :: "nat \<times> nat"
    show "pte_word skip d ?t x = pte_word skip d s x"
    proof (cases "tbl skip d s (fst x)")
      case (Some g)
      then show ?thesis using d I pt_ok_table [OF ok Some]
        by (cases x) (auto simp: pte_word_def t pte_va_inj)
    qed (cases x, auto simp: pte_word_def t)
  qed
  show "mapping skip d ?t = mapping skip d s" by (auto simp: mapping_def w fun_eq_iff)
qed

subsection \<open>Reference counts\<close>

lemma set_ref_fields [simp]:
  "npages (set_ref p r s) = npages s" "page_free_list (set_ref p r s) = page_free_list s"
  "kmem (set_ref p r s) = kmem s" "length (pages (set_ref p r s)) = length (pages s)"
  "pp_link (pages (set_ref p r s) ! q) = pp_link (pages s ! q)"
  "nxt (set_ref p r s) = nxt s" "free_pages (set_ref p r s) = free_pages s"
proof -
  show nx: "nxt (set_ref p r s) = nxt s"
    by (auto simp: set_ref_def nxt_def nth_list_update_if fun_eq_iff)
  show "free_pages (set_ref p r s) = free_pages s"
    unfolding free_pages_def nx by (simp add: set_ref_def)
qed (auto simp: set_ref_def nth_list_update_if)

lemma pp_ref_set_ref:
  "pp_ref (pages (set_ref p r s) ! q) =
     (if q = p \<and> p < length (pages s) then r else pp_ref (pages s ! q))"
  by (auto simp: set_ref_def nth_list_update_if)

lemma pool_ok_set_ref: "pool_ok s \<Longrightarrow> p \<notin> set (free_pages s) \<Longrightarrow> pool_ok (set_ref p r s)"
  unfolding pool_ok_def by (auto simp: pp_ref_set_ref)

lemma vm_ok_incref:
  assumes ok: "vm_ok skip ext d s" and p: "p < unat (npages s)" "p \<notin> set (free_pages s)"
    and r: "pp_ref (pages s ! p) \<noteq> 0xFFFF"
  shows "vm_ok skip (ext(p := Suc (ext p))) d (set_ref p (pp_ref (pages s ! p) + 1) s)"
proof -
  let ?t = "set_ref p (pp_ref (pages s ! p) + 1) s"
  have len: "p < length (pages s)" using ok p by (simp add: vm_ok_def pool_ok_def)
  have "pp_ref (pages s ! p) + 1 \<noteq> 0"
  proof
    assume "pp_ref (pages s ! p) + 1 = 0"
    then have "pp_ref (pages s ! p) = - 1" by (simp add: eq_neg_iff_add_eq_0)
    then show False using r by simp
  qed
  then have "unat (pp_ref (pages s ! p) + 1) = Suc (unat (pp_ref (pages s ! p)))"
    by (rule unat_plus_one)
  then have refs: "\<forall>q<unat (npages s). unat (pp_ref (pages ?t ! q)) = refs skip d s q + (ext(p := Suc (ext p))) q"
    using ok len by (auto simp: vm_ok_def pp_ref_set_ref)
  have view: "kmem ?t = kmem s" by simp
  show ?thesis
    using ok refs pool_ok_set_ref [OF _ p(2)] unfolding vm_ok_def
    by (simp add: view_kmem_cong [OF view])
qed

subsection \<open>Walking the directory\<close>

lemma dir_entry_va: "frame_va d + 4 * PDX va = pte_va d (fst (idx va))"
  by (simp add: pte_va_def idx_def)

lemma table_entry_va: "frame_va f + 4 * PTX va = pte_va f (snd (idx va))"
  by (simp add: pte_va_def idx_def)

lemma KADDR_frame:
  assumes "pfn e < unat (npages s)"
  shows "KADDR s (PTE_ADDR e) = Inr (frame_va (pfn e))"
  using assms pfn_PTE_ADDR [of e]
  by (simp add: KADDR_def PTE_ADDR_page2pa frame_va_def word_le_nat_alt pfn_def)

lemma page2kva_frame:
  assumes "p < unat (npages s)" and "unat (npages s) \<le> 65536"
  shows "page2kva s p = Inr (frame_va p)"
proof -
  have "pfn (page2pa p) = p" using assms by (intro pfn_page2pa) simp
  then show ?thesis
    using assms by (simp add: page2kva_def KADDR_def frame_va_def word_le_nat_alt pfn_def)
qed

lemma in_frame_iff:
  assumes "f < 65536" "p < 65536" "i < 1024"
  shows "pte_va f i - frame_va p < PGSIZE \<longleftrightarrow> f = p"
proof -
  have u: "unat (pte_va f i) = 4026531840 + 4096 * f + 4 * i" "unat (frame_va p) = 4026531840 + 4096 * p"
    using assms unat_pte_va [of f i] unat_pte_va [of p 0] by (simp_all add: pte_va_def)
  show ?thesis
    using assms by (auto simp: PGSIZE_def word_less_nat_alt unat_sub_if_size u word_size)
qed

lemma memset_words_fields [simp]:
  "npages (memset_words a c n s) = npages s" "page_free_list (memset_words a c n s) = page_free_list s"
  "pages (memset_words a c n s) = pages s" "nxt (memset_words a c n s) = nxt s"
  "free_pages (memset_words a c n s) = free_pages s" "pool_ok (memset_words a c n s) = pool_ok s"
proof -
  show nx: "nxt (memset_words a c n s) = nxt s" by (simp add: memset_words_def nxt_def fun_eq_iff)
  show "free_pages (memset_words a c n s) = free_pages s"
    unfolding free_pages_def nx by (simp add: memset_words_def)
  then show "pool_ok (memset_words a c n s) = pool_ok s"
    unfolding pool_ok_def nx by (simp add: memset_words_def)
qed (simp_all add: memset_words_def)

text \<open>Allocating a zeroed page: it leaves the pool, and only its own frame is cleared.\<close>

lemma page_alloc_zero:
  assumes ok: "pool_ok s" and n: "unat (npages s) \<le> 65536"
  shows "free_pages s = [] \<and> page_alloc ALLOC_ZERO s = Inr (None, s) \<or>
    (\<exists>p t. page_alloc ALLOC_ZERO s = Inr (Some p, t) \<and> pool_ok t \<and> free_pages s = p # free_pages t \<and>
       p < unat (npages s) \<and> npages t = npages s \<and>
       (\<forall>q. pp_ref (pages t ! q) = pp_ref (pages s ! q)) \<and>
       (\<forall>f<65536. \<forall>i<1024. kmem t (pte_va f i) = (if f = p then 0 else kmem s (pte_va f i))))"
proof (cases "page_free_list s")
  case None
  then show ?thesis using ok by (auto simp: page_alloc_def pool_ok_def)
next
  case (Some p)
  let ?s2 = "set_link p None (s\<lparr>page_free_list := pp_link (pages s ! p)\<rparr>)"
  note A = page_alloc_free_list [OF ok Some]
  have p: "p < unat (npages s)" using A by (simp add: can_free_def pool_ok_def)
  have kva: "page2kva ?s2 p = Inr (frame_va p)" using p n by (intro page2kva_frame) auto
  have "page_alloc ALLOC_ZERO s = Inr (Some p, memset_words (frame_va p) 0 PGSIZE ?s2)"
    using Some kva by (simp add: page_alloc_def Let_def ALLOC_ZERO_def)
  moreover have "\<forall>f<65536. \<forall>i<1024. kmem (memset_words (frame_va p) 0 PGSIZE ?s2) (pte_va f i) =
      (if f = p then 0 else kmem s (pte_va f i))"
    using p n by (simp add: memset_words_def in_frame_iff)
  ultimately show ?thesis using A p by auto
qed

text \<open>A new page table at a directory index that had none.\<close>

lemma new_table_view:
  fixes r :: u16
  assumes ok: "pt_ok skip d s" and i: "i \<in> dirs skip" and none: "tbl skip d s i = None"
    and fp: "free_pages s = p # free_pages t" and t: "pool_ok t" "npages t = npages s"
    and mem: "\<forall>f<65536. \<forall>i<1024. kmem t (pte_va f i) = (if f = p then 0 else kmem s (pte_va f i))"
    and e: "present e" "pfn e = p"
  defines "u \<equiv> store (pte_va d i) e (set_ref p r t)"
  shows "pt_ok skip d u" "tbl skip d u = (tbl skip d s)(i := Some p)"
    "pte_word skip d u = pte_word skip d s" "mapping skip d u = mapping skip d s"
    "free_pages u = free_pages t"
proof -
  have pf: "p \<in> set (free_pages s)" using fp by simp
  have p: "p < unat (npages s)" "p < 65536" using ok pf by (auto simp: pt_ok_def pool_ok_def)
  have d: "d < 65536" "d \<noteq> p" using ok pf pt_ok_dir by auto
  have nt: "f \<noteq> p \<and> f \<noteq> d \<and> f < 65536 \<and> f < unat (npages s) \<and> f \<notin> set (free_pages s)"
    if "tbl skip d s k = Some f" for k f using pt_ok_table [OF ok that] pf by auto
  have mu: "kmem u (pte_va f k) = (if f = d \<and> k = i then e else if f = p then 0 else kmem s (pte_va f k))"
    if "f < 65536" "k < 1024" for f k
    using that d i mem by (auto simp: u_def pte_va_inj dirs_less)
  show T: "tbl skip d u = (tbl skip d s)(i := Some p)"
    using d i e by (auto simp: tbl_def mu dirs_less Let_def fun_eq_iff)
  show W: "pte_word skip d u = pte_word skip d s"
  proof
    fix x :: "nat \<times> nat"
    show "pte_word skip d u x = pte_word skip d s x"
      using p d none nt by (cases x, cases "tbl skip d s (fst x)") (auto simp: pte_word_def T mu)
  qed
  then show "mapping skip d u = mapping skip d s" by (simp add: mapping_def fun_eq_iff)
  show F: "free_pages u = free_pages t" by (simp add: u_def)
  have pnt: "p \<notin> set (free_pages t)"
    using pool_ok_distinct [of s] ok fp by (simp add: pt_ok_def)
  have "pool_ok u" using t(1) pnt by (simp add: u_def pool_ok_set_ref)
  moreover have "\<forall>k f. tbl skip d u k = Some f \<longrightarrow> f < unat (npages s) \<and> f \<noteq> d \<and> f \<notin> set (free_pages u)"
    using nt p d pnt fp by (auto simp: T F split: if_splits)
  moreover have "\<forall>k l f. tbl skip d u k = Some f \<longrightarrow> tbl skip d u l = Some f \<longrightarrow> k = l"
    using nt ok by (auto simp: T pt_ok_def split: if_splits)
  moreover have "npages u = npages s" using t(2) by (simp add: u_def)
  ultimately show "pt_ok skip d u"
    using ok fp unfolding pt_ok_def F by auto
qed

lemma vm_ok_new_table:
  assumes ok: "vm_ok skip ext d s" and i: "i \<in> dirs skip" and none: "tbl skip d s i = None"
    and fp: "free_pages s = p # free_pages t" and t: "pool_ok t" "npages t = npages s"
    and ref: "\<forall>q. pp_ref (pages t ! q) = pp_ref (pages s ! q)"
    and mem: "\<forall>f<65536. \<forall>i<1024. kmem t (pte_va f i) = (if f = p then 0 else kmem s (pte_va f i))"
    and e: "present e" "pfn e = p"
  shows "vm_ok skip ext d (store (pte_va d i) e (set_ref p (pp_ref (pages t ! p) + 1) t))"
proof -
  let ?u = "store (pte_va d i) e (set_ref p (pp_ref (pages t ! p) + 1) t)"
  note V = new_table_view [OF vm_ok_pt_ok [OF ok] i none fp t mem e]
  have p: "p < unat (npages s)" "pp_ref (pages s ! p) = 0"
    using ok fp by (auto simp: vm_ok_def pool_ok_def)
  have "refs skip d ?u q = refs skip d s q + (if q = p then 1 else 0)" for q
    using card_filter_upd [of "dirs skip" i "tbl skip d s" "Some p" "Some q"] i none
    by (auto simp: refs_def V)
  moreover have "unat (pp_ref (pages ?u ! q)) = unat (pp_ref (pages s ! q)) + (if q = p then 1 else 0)" for q
    using p ref t by (auto simp: pp_ref_set_ref pool_ok_def)
  ultimately have "\<forall>q<unat (npages s). unat (pp_ref (pages ?u ! q)) = refs skip d ?u q + ext q"
    using ok by (simp add: vm_ok_def)
  moreover have "\<forall>x q. mapping skip d ?u x = Some q \<longrightarrow> q < unat (npages s)"
    using ok unfolding V vm_ok_def by blast
  ultimately show ?thesis
    using V(1) ok t(2) unfolding vm_ok_def pt_ok_def by simp
qed

lemma pgdir_walk_cases:
  assumes ok: "pt_ok skip d s" and i: "fst (idx va) \<in> dirs skip"
  obtains
    (found) f where "tbl skip d s (fst (idx va)) = Some f"
      "pgdir_walk (frame_va d) va create s = Inr (pte_va f (snd (idx va)), s)"
  | (absent) "tbl skip d s (fst (idx va)) = None" "create \<Longrightarrow> free_pages s = []"
      "pgdir_walk (frame_va d) va create s = Inr (0, s)"
  | (created) p t w where "tbl skip d s (fst (idx va)) = None" "create" "pool_ok t"
      "free_pages s = p # free_pages t" "p < unat (npages s)" "npages t = npages s"
      "\<forall>q. pp_ref (pages t ! q) = pp_ref (pages s ! q)"
      "\<forall>f<65536. \<forall>i<1024. kmem t (pte_va f i) = (if f = p then 0 else kmem s (pte_va f i))"
      "present w" "pfn w = p"
      "pgdir_walk (frame_va d) va create s =
         Inr (pte_va p (snd (idx va)), store (pte_va d (fst (idx va))) w (set_ref p (pp_ref (pages t ! p) + 1) t))"
proof -
  have n: "unat (npages s) \<le> 65536" "pool_ok s" using ok by (auto simp: pt_ok_def)
  let ?va = "pte_va d (fst (idx va))"
  show thesis
  proof (cases "tbl skip d s (fst (idx va))")
    case (Some f)
    then have e: "present (kmem s ?va)" "pfn (kmem s ?va) = f"
      by (auto simp: tbl_def Let_def split: if_splits)
    have "KADDR s (PTE_ADDR (kmem s ?va)) = Inr (frame_va f)"
      using e pt_ok_table [OF ok Some] by (subst KADDR_frame) auto
    then have "pgdir_walk (frame_va d) va create s = Inr (pte_va f (snd (idx va)), s)"
      using e by (simp add: pgdir_walk_def Let_def dir_entry_va table_entry_va present_def)
    then show thesis by (rule found [OF Some])
  next
    case None
    then have e: "\<not> present (kmem s ?va)" using i by (simp add: tbl_def Let_def split: if_splits)
    show thesis
    proof (cases "create \<and> free_pages s \<noteq> []")
      case False
      then have "pgdir_walk (frame_va d) va create s = Inr (0, s)"
        using e page_alloc_zero [OF n(2,1)]
        by (auto simp: pgdir_walk_def Let_def dir_entry_va present_def)
      then show thesis using absent None False by blast
    next
      case True
      then obtain p t where new: "page_alloc ALLOC_ZERO s = Inr (Some p, t)" "pool_ok t"
          "free_pages s = p # free_pages t" "p < unat (npages s)" "npages t = npages s"
          "\<forall>q. pp_ref (pages t ! q) = pp_ref (pages s ! q)"
          "\<forall>f<65536. \<forall>i<1024. kmem t (pte_va f i) = (if f = p then 0 else kmem s (pte_va f i))"
        using page_alloc_zero [OF n(2,1)] by blast
      let ?w = "page2pa p OR PTE_P OR PTE_W OR PTE_U"
      have w: "present ?w" "pfn ?w = p"
        using new(4) n by (simp, intro pfn_entry or_small) (auto simp: PTE_P_def PTE_W_def PTE_U_def)
      have "KADDR (store ?va ?w (set_ref p (pp_ref (pages t ! p) + 1) t)) (PTE_ADDR ?w) = Inr (frame_va p)"
        using w new by (subst KADDR_frame) auto
      then have "pgdir_walk (frame_va d) va create s =
         Inr (pte_va p (snd (idx va)), store ?va ?w (set_ref p (pp_ref (pages t ! p) + 1) t))"
        using e True new(1)
        by (simp add: pgdir_walk_def Let_def dir_entry_va table_entry_va present_def)
      then show thesis using created None True new w by blast
    qed
  qed
qed

lemma pgdir_walk_ok:
  assumes ok: "vm_ok skip ext d s" and i: "fst (idx va) \<in> dirs skip"
  shows "\<exists>r t. pgdir_walk (frame_va d) va create s = Inr (r, t) \<and> vm_ok skip ext d t \<and>
    npages t = npages s \<and> pte_word skip d t = pte_word skip d s \<and> mapping skip d t = mapping skip d s \<and>
    (r = 0 \<and> t = s \<and> tbl skip d s (fst (idx va)) = None \<and> (create \<longrightarrow> free_pages s = []) \<or>
     (\<exists>f. r = pte_va f (snd (idx va)) \<and> r \<noteq> 0 \<and> tbl skip d t (fst (idx va)) = Some f \<and>
        (tbl skip d s (fst (idx va)) = Some f \<and> t = s \<or>
         tbl skip d s (fst (idx va)) = None \<and> create \<and> free_pages s = f # free_pages t \<and>
         pp_ref (pages s ! f) = 0 \<and> (\<forall>q. q \<noteq> f \<longrightarrow> pp_ref (pages t ! q) = pp_ref (pages s ! q)))))"
proof -
  have n: "unat (npages s) \<le> 65536" "pool_ok s" using ok by (auto simp: vm_ok_def)
  have j: "snd (idx va) < 1024" by (simp add: idx_def unat_PTX)
  show ?thesis
  proof (rule pgdir_walk_cases [OF vm_ok_pt_ok [OF ok] i, where create = create], goal_cases)
    case found: (1 f)
    then show ?thesis using ok vm_ok_table [OF ok found(1)] j pte_va_nonzero by auto
  next
    case 2
    then show ?thesis using ok by auto
  next
    case created: (3 p t w)
    have "pte_va p (snd (idx va)) \<noteq> 0" using created(5) n j by (intro pte_va_nonzero) auto
    moreover have "pp_ref (pages s ! p) = 0" using n(2) created(4) by (simp add: pool_ok_def)
    ultimately show ?thesis
      using created vm_ok_new_table [OF ok i created(1,4,3,6,7,8,9,10)]
        new_table_view [OF vm_ok_pt_ok [OF ok] i created(1,4,3,6,8,9,10)]
      by (auto simp: pp_ref_set_ref)
  qed
qed

text \<open>The same, with the counts in use kept.\<close>

lemma pgdir_walk_keep:
  assumes ok: "vm_ok skip ext d s" and i: "fst (idx va) \<in> dirs skip"
  shows "\<exists>r t. pgdir_walk (frame_va d) va create s = Inr (r, t) \<and> vm_ok skip ext d t \<and>
    npages t = npages s \<and> pte_word skip d t = pte_word skip d s \<and> mapping skip d t = mapping skip d s \<and>
    (r = 0 \<and> t = s \<and> tbl skip d s (fst (idx va)) = None \<and> (create \<longrightarrow> free_pages s = []) \<or>
     (\<exists>f. r = pte_va f (snd (idx va)) \<and> r \<noteq> 0 \<and> tbl skip d t (fst (idx va)) = Some f \<and>
        (t = s \<or> tbl skip d s (fst (idx va)) = None \<and> free_pages s = f # free_pages t \<and>
          (\<forall>q. q \<noteq> f \<longrightarrow> pp_ref (pages t ! q) = pp_ref (pages s ! q))))) \<and>
    (\<forall>q. pp_ref (pages s ! q) \<noteq> 0 \<longrightarrow> pp_ref (pages t ! q) = pp_ref (pages s ! q))"
proof -
  obtain r t where w: "pgdir_walk (frame_va d) va create s = Inr (r, t)" "vm_ok skip ext d t"
    "npages t = npages s" "pte_word skip d t = pte_word skip d s" "mapping skip d t = mapping skip d s"
    and c: "r = 0 \<and> t = s \<and> tbl skip d s (fst (idx va)) = None \<and> (create \<longrightarrow> free_pages s = []) \<or>
     (\<exists>f. r = pte_va f (snd (idx va)) \<and> r \<noteq> 0 \<and> tbl skip d t (fst (idx va)) = Some f \<and>
        (tbl skip d s (fst (idx va)) = Some f \<and> t = s \<or>
         tbl skip d s (fst (idx va)) = None \<and> create \<and> free_pages s = f # free_pages t \<and>
         pp_ref (pages s ! f) = 0 \<and> (\<forall>q. q \<noteq> f \<longrightarrow> pp_ref (pages t ! q) = pp_ref (pages s ! q))))"
    using pgdir_walk_ok [OF ok i, of create] by blast
  have "\<forall>q. pp_ref (pages s ! q) \<noteq> 0 \<longrightarrow> pp_ref (pages t ! q) = pp_ref (pages s ! q)"
  proof (cases "t = s")
    case False
    then obtain f where "pp_ref (pages s ! f) = 0" "\<forall>q. q \<noteq> f \<longrightarrow> pp_ref (pages t ! q) = pp_ref (pages s ! q)"
      using c by auto
    then show ?thesis by metis
  qed simp
  then show ?thesis using w c by (intro exI [of _ r] exI [of _ t]) auto
qed

text \<open>Looking an address up finds exactly what the map says, without changing anything.\<close>

lemma page_lookup_ok:
  assumes ok: "vm_ok skip ext d s" and i: "fst (idx va) \<in> dirs skip"
  shows "page_lookup (frame_va d) va s =
    (case mapping skip d s (idx va) of None \<Rightarrow> Inr (None, 0, s)
     | Some p \<Rightarrow> Inr (Some p, pte_va (the (tbl skip d s (fst (idx va)))) (snd (idx va)), s))"
proof -
  have n: "unat (npages s) \<le> 65536" using ok by (auto simp: vm_ok_def)
  have j: "snd (idx va) < 1024" by (simp add: idx_def unat_PTX)
  obtain r where walk: "pgdir_walk (frame_va d) va False s = Inr (r, s)"
    and r: "r = 0 \<and> tbl skip d s (fst (idx va)) = None \<or>
      (\<exists>f. r = pte_va f (snd (idx va)) \<and> r \<noteq> 0 \<and> tbl skip d s (fst (idx va)) = Some f)"
    using pgdir_walk_ok [OF ok i, of False] by auto
  show ?thesis
  proof (cases "tbl skip d s (fst (idx va))")
    case None
    then have "mapping skip d s (idx va) = None"
      by (cases "idx va") (simp add: mapping_def pte_word_def)
    then show ?thesis using None walk r by (simp add: page_lookup_def)
  next
    case (Some f)
    let ?e = "kmem s (pte_va f (snd (idx va)))"
    have m: "mapping skip d s (idx va) = (if present ?e then Some (pfn ?e) else None)"
      using Some j by (cases "idx va") (simp add: mapping_def pte_word_def Let_def)
    have "pa2page s (PTE_ADDR ?e) = Inr (pfn ?e)" if "present ?e"
      using vm_ok_mapped(1) [OF ok, of "idx va" "pfn ?e"] m that pfn_PTE_ADDR [of ?e]
      by (simp add: pa2page_def word_le_nat_alt pfn_def)
    then show ?thesis
      using Some walk r m by (auto simp: page_lookup_def present_def)
  qed
qed

subsection \<open>Removing and inserting mappings\<close>

lemma page_free_fields:
  assumes "page_free p s = Inr t"
  shows "npages t = npages s" "kmem t = kmem s" "\<And>q. pp_ref (pages t ! q) = pp_ref (pages s ! q)"
    "length (pages t) = length (pages s)"
  using assms by (auto simp: page_free_def split: if_splits)

lemma state_cong:
  assumes "pages t = pages s" "page_free_list t = page_free_list s"
  shows "free_pages t = free_pages s"
    and "npages t = npages s \<Longrightarrow> pool_ok t = pool_ok s"
    and "npages t = npages s \<Longrightarrow> kmem t = kmem s \<Longrightarrow> vm_ok skip ext d t = vm_ok skip ext d s"
proof -
  have nx: "nxt t = nxt s" using assms by (simp add: nxt_def fun_eq_iff)
  show fp: "free_pages t = free_pages s" by (simp add: free_pages_def nx assms)
  show pk: "npages t = npages s \<Longrightarrow> pool_ok t = pool_ok s"
    by (simp add: pool_ok_def nx fp assms)
  show "vm_ok skip ext d t = vm_ok skip ext d s" if "npages t = npages s" "kmem t = kmem s"
    by (simp only: vm_ok_def pk [OF that(1)] that(1) assms view_kmem_cong [OF that(2)])
qed

lemma page_decref_log: "page_decref p s = Inr t \<Longrightarrow> invlpg_log t = invlpg_log s"
  by (auto simp: page_decref_def page_free_def set_ref_def set_link_def Let_def split: if_splits)

text \<open>Dropping one reference to a page that has one: the count goes down, and at zero the page
  goes to the front of the free list.\<close>

lemma page_decref_ok:
  assumes ok: "pool_ok s" and p: "p < unat (npages s)" "p \<notin> set (free_pages s)"
    and r: "0 < unat (pp_ref (pages s ! p))"
  shows "\<exists>t. page_decref p s = Inr t \<and> pool_ok t \<and> npages t = npages s \<and> kmem t = kmem s \<and>
    (\<forall>q. unat (pp_ref (pages t ! q)) = unat (pp_ref (pages s ! q)) - (if q = p then 1 else 0)) \<and>
    free_pages t = (if unat (pp_ref (pages s ! p)) = 1 then p # free_pages s else free_pages s)"
proof -
  let ?r = "pp_ref (pages s ! p)"
  let ?s1 = "set_ref p (?r - 1) s"
  have len: "p < length (pages s)" using ok p by (simp add: pool_ok_def)
  have r1: "unat (?r - 1) = unat ?r - 1" using r by (intro unat_minus_1) auto
  have ref1: "unat (pp_ref (pages ?s1 ! q)) = unat (pp_ref (pages s ! q)) - (if q = p then 1 else 0)" for q
    using len r1 by (simp add: pp_ref_set_ref)
  have ok1: "pool_ok ?s1" using ok p(2) by (rule pool_ok_set_ref)
  have z: "pp_ref (pages ?s1 ! p) = 0 \<longleftrightarrow> unat ?r = 1"
    unfolding unat_0_iff [symmetric] ref1 using r by auto
  show ?thesis
  proof (cases "unat ?r = 1")
    case True
    then have cf: "can_free ?s1 p" using z len p(2) by (simp add: can_free_def)
    obtain t where t: "page_free p ?s1 = Inr t" "pool_ok t" "free_pages t = p # free_pages ?s1"
      using page_free_ok [OF ok1 cf] by blast
    have "page_decref p s = Inr t" using True z t(1) by (simp add: page_decref_def Let_def)
    then show ?thesis using True t page_free_fields [OF t(1)] ref1 by auto
  next
    case False
    then have "page_decref p s = Inr ?s1" using z by (simp add: page_decref_def Let_def)
    then show ?thesis using False ok1 ref1 by auto
  qed
qed

lemma vm_ok_unmap:
  assumes ok: "vm_ok skip ext d s" and m: "mapping skip d s (i, j) = Some p"
    and f: "tbl skip d s i = Some f"
    and t: "pool_ok t" "npages t = npages s" "kmem t = kmem s"
    and r: "\<forall>q. unat (pp_ref (pages t ! q)) = unat (pp_ref (pages s ! q)) - (if q = p then 1 else 0)"
  shows "vm_ok skip ext d (store (pte_va f j) 0 t)"
proof -
  let ?u = "store (pte_va f j) 0 t"
  have j: "j < 1024" and x: "(i, j) \<in> slots skip" using m mapping_slots by (auto simp: slots_def)
  have view: "tbl skip d ?u = tbl skip d s" "mapping skip d ?u = (mapping skip d s)((i, j) := None)"
    using store_table(1,3) [OF vm_ok_pt_ok [OF ok] f j, of 0] view_kmem_cong [of ?u "store (pte_va f j) 0 s"] t(3)
    by simp_all
  have card: "card {y\<in>slots skip. mapping skip d ?u y = Some q} + (if q = p then 1 else 0) =
        card {y\<in>slots skip. mapping skip d s y = Some q}" for q
  proof -
    have "card {y\<in>slots skip. mapping skip d ?u y = Some q} + (if mapping skip d s (i, j) = Some q then 1 else 0) =
        card {y\<in>slots skip. mapping skip d s y = Some q} + (if None = Some q then 1 else 0)"
      unfolding view using x by (intro card_filter_upd) auto
    then show ?thesis using m by (simp split: if_splits)
  qed
  have "refs skip d ?u q = refs skip d s q - (if q = p then 1 else 0)" for q
    using card [of q] by (auto simp: refs_def view(1))
  moreover have "(if q = p then 1 else 0) \<le> refs skip d s q" for q
    using card [of q] by (auto simp: refs_def)
  ultimately have "\<forall>q<unat (npages s). unat (pp_ref (pages ?u ! q)) = refs skip d ?u q + ext q"
    using ok r by (simp add: vm_ok_def)
  moreover have "\<forall>x q. mapping skip d ?u x = Some q \<longrightarrow> q < unat (npages s)"
    using vm_ok_mapped(1) [OF ok] by (auto simp: view split: if_splits)
  ultimately show ?thesis using ok t unfolding vm_ok_def view(1) by simp
qed

lemma page_remove_unmapped:
  assumes "vm_ok skip ext d s" and "fst (idx va) \<in> dirs skip" and "mapping skip d s (idx va) = None"
  shows "page_remove (frame_va d) va s = Inr s"
  using page_lookup_ok [OF assms(1,2)] assms(3) by (simp add: page_remove_def)

lemma page_remove_ok:
  assumes ok: "vm_ok skip ext d s" and i: "fst (idx va) \<in> dirs skip"
  shows "\<exists>t. page_remove (frame_va d) va s = Inr t \<and> vm_ok skip ext d t \<and> npages t = npages s \<and>
    tbl skip d t = tbl skip d s \<and> mapping skip d t = (mapping skip d s)(idx va := None) \<and>
    (\<forall>x. x \<noteq> idx va \<longrightarrow> pte_word skip d t x = pte_word skip d s x) \<and>
    (case mapping skip d s (idx va) of None \<Rightarrow> t = s
     | Some p \<Rightarrow> pte_word skip d t (idx va) = 0 \<and> invlpg_log t = va # invlpg_log s \<and>
         (\<forall>q. unat (pp_ref (pages t ! q)) = unat (pp_ref (pages s ! q)) - (if q = p then 1 else 0)) \<and>
         free_pages t = (if unat (pp_ref (pages s ! p)) = 1 then p # free_pages s else free_pages s))"
proof (cases "mapping skip d s (idx va)")
  case None
  then have "page_remove (frame_va d) va s = Inr s" by (rule page_remove_unmapped [OF ok i])
  then show ?thesis using ok None by (auto simp: fun_eq_iff)
next
  case (Some p)
  obtain k j where x: "idx va = (k, j)" by (cases "idx va")
  obtain f where f: "tbl skip d s k = Some f" using mapping_tbl [OF Some] x by auto
  have j: "j < 1024" using x unat_PTX [of va] by (auto simp: idx_def)
  have P: "p < unat (npages s)" "0 < unat (pp_ref (pages s ! p))" "p \<notin> set (free_pages s)"
    using vm_ok_mapped [OF ok Some] by auto
  obtain u where u: "page_decref p s = Inr u" "pool_ok u" "npages u = npages s" "kmem u = kmem s"
    "\<forall>q. unat (pp_ref (pages u ! q)) = unat (pp_ref (pages s ! q)) - (if q = p then 1 else 0)"
    "free_pages u = (if unat (pp_ref (pages s ! p)) = 1 then p # free_pages s else free_pages s)"
    using page_decref_ok [of s p] ok P by (auto simp: vm_ok_def)
  let ?v = "store (pte_va f j) 0 u"
  let ?t = "tlb_invalidate (frame_va d) va ?v"
  have run: "page_remove (frame_va d) va s = Inr ?t"
    using page_lookup_ok [OF ok i] Some f x u(1) by (simp add: page_remove_def)
  have tf: "kmem ?t = kmem ?v" "pages ?t = pages ?v" "npages ?t = npages ?v"
    "page_free_list ?t = page_free_list ?v"
    by (simp_all add: tlb_invalidate_def)
  have fp: "free_pages ?t = free_pages ?v" using tf by (intro state_cong) auto
  have "vm_ok skip ext d ?v" using Some x by (intro vm_ok_unmap [OF ok _ f u(2,3,4,5)]) simp
  then have vm: "vm_ok skip ext d ?t"
    using state_cong(3) [OF tf(2,4,3,1)] by simp
  have kv: "kmem ?v = kmem (store (pte_va f j) 0 s)" using u(4) by simp
  note V = store_table [OF vm_ok_pt_ok [OF ok] f j, of 0] view_kmem_cong [OF tf(1)] view_kmem_cong [OF kv]
  have "invlpg_log ?t = va # invlpg_log s"
    by (simp add: page_decref_log [OF u(1)] tlb_invalidate_def)
  then show ?thesis using run vm V u x Some fp tf by (intro exI [of _ ?t]) simp
qed

lemma vm_ok_map:
  assumes ok: "vm_ok skip (ext(p := Suc (ext p))) d s" and d: "0 < ext d"
    and m: "mapping skip d s (i, j) = None" and f: "tbl skip d s i = Some f" and j: "j < 1024"
    and e: "present e" "pfn e = p" and p: "p < unat (npages s)"
  shows "vm_ok skip ext d (store (pte_va f j) e s)"
proof -
  let ?u = "store (pte_va f j) e s"
  have x: "(i, j) \<in> slots skip" using tbl_dirs [OF f] j by (simp add: slots_def)
  have view: "tbl skip d ?u = tbl skip d s" "mapping skip d ?u = (mapping skip d s)((i, j) := Some p)"
    using store_table(1,3) [OF vm_ok_pt_ok [OF ok] f j, of e] e by simp_all
  have "card {y\<in>slots skip. mapping skip d ?u y = Some q} =
        card {y\<in>slots skip. mapping skip d s y = Some q} + (if q = p then 1 else 0)" for q
  proof -
    have "card {y\<in>slots skip. mapping skip d ?u y = Some q} + (if mapping skip d s (i, j) = Some q then 1 else 0) =
        card {y\<in>slots skip. mapping skip d s y = Some q} + (if Some p = Some q then 1 else 0)"
      unfolding view using x by (intro card_filter_upd) auto
    then show ?thesis using m by (simp split: if_splits)
  qed
  then have "refs skip d ?u q = refs skip d s q + (if q = p then 1 else 0)" for q
    by (simp add: refs_def view(1))
  then have "\<forall>q<unat (npages s). unat (pp_ref (pages ?u ! q)) = refs skip d ?u q + ext q"
    using ok by (simp add: vm_ok_def)
  moreover have "\<forall>x q. mapping skip d ?u x = Some q \<longrightarrow> q < unat (npages s)"
    using vm_ok_mapped(1) [OF ok] p by (auto simp: view split: if_splits)
  ultimately show ?thesis using ok d unfolding vm_ok_def view(1) by simp
qed

lemma vm_ok_dir_flags:
  assumes ok: "vm_ok skip ext d s" and i: "tbl skip d s i = Some f" and perm: "perm < 4096"
  shows "vm_ok skip ext d (store (pte_va d i) (kmem s (pte_va d i) OR perm) s)"
  using ok unfolding vm_ok_def refs_def store_dir_flags [OF vm_ok_pt_ok [OF ok] i perm] by simp

text \<open>A count that drops to zero when one reference to \<open>p\<close> goes was the last one of \<open>p\<close>.\<close>

lemma last_ref:
  fixes r r' :: "nat \<Rightarrow> u16"
  assumes "\<forall>q. unat (r' q) = unat (r q) - (if q = p then 1 else 0)" and "r q \<noteq> 0" "r' q = 0"
  shows "q = p" "unat (r p) = 1"
proof -
  have u: "unat (r q) \<noteq> 0" "unat (r' q) = 0" using assms(2,3) by (simp_all add: unat_eq_zero)
  have e: "unat (r' q) = unat (r q) - (if q = p then 1 else 0)" using assms(1) by blast
  with u show "q = p" by (cases "q = p") simp_all
  with u e show "unat (r p) = 1" by simp
qed

lemma page_insert_ok:
  assumes ok: "vm_ok skip ext d s" and i: "fst (idx va) \<in> dirs skip"
    and pp: "pp < unat (npages s)" "pp \<notin> set (free_pages s)" "pp_ref (pages s ! pp) \<noteq> 0xFFFF"
    and perm: "perm < 4096"
  shows "\<exists>r t. page_insert (frame_va d) pp va perm s = Inr (r, t) \<and> vm_ok skip ext d t \<and>
    npages t = npages s \<and>
    (r = - E_NO_MEM \<and> t = s \<and> tbl skip d s (fst (idx va)) = None \<and> free_pages s = [] \<or>
     r = 0 \<and> pte_word skip d t = (pte_word skip d s)(idx va := page2pa pp OR perm OR PTE_P) \<and>
     mapping skip d t = (mapping skip d s)(idx va := Some pp) \<and>
     (tbl skip d s (fst (idx va)) \<noteq> None \<longrightarrow> tbl skip d t = tbl skip d s) \<and>
     (\<forall>q. pp_ref (pages s ! q) \<noteq> 0 \<longrightarrow> pp_ref (pages t ! q) = 0 \<longrightarrow> q \<in> set (free_pages t)))"
proof -
  let ?e = "page2pa pp OR perm OR PTE_P"
  obtain r s1 where walk: "pgdir_walk (frame_va d) va True s = Inr (r, s1)"
    and ok1: "vm_ok skip ext d s1" and n1: "npages s1 = npages s"
    and w1: "pte_word skip d s1 = pte_word skip d s" "mapping skip d s1 = mapping skip d s"
    and r: "r = 0 \<and> s1 = s \<and> tbl skip d s (fst (idx va)) = None \<and> free_pages s = [] \<or>
      (\<exists>f. r = pte_va f (snd (idx va)) \<and> r \<noteq> 0 \<and> tbl skip d s1 (fst (idx va)) = Some f \<and>
        (s1 = s \<or> tbl skip d s (fst (idx va)) = None \<and> free_pages s = f # free_pages s1 \<and>
          (\<forall>q. q \<noteq> f \<longrightarrow> pp_ref (pages s1 ! q) = pp_ref (pages s ! q))))"
    and kp: "\<forall>q. pp_ref (pages s ! q) \<noteq> 0 \<longrightarrow> pp_ref (pages s1 ! q) = pp_ref (pages s ! q)"
    using pgdir_walk_keep [OF ok i, of True] by blast
  show ?thesis
  proof (cases "r = 0")
    case True
    then show ?thesis using walk r ok by (auto simp: page_insert_def)
  next
    case False
    then obtain f where f: "r = pte_va f (snd (idx va))" "tbl skip d s1 (fst (idx va)) = Some f"
      and s1: "pp \<notin> set (free_pages s1)" "pp_ref (pages s1 ! pp) = pp_ref (pages s ! pp)"
        "s1 = s \<or> tbl skip d s (fst (idx va)) = None"
      using r pp(2) by auto
    let ?s2 = "set_ref pp (pp_ref (pages s1 ! pp) + 1) s1"
    have ok2: "vm_ok skip (ext(pp := Suc (ext pp))) d ?s2"
      using pp s1 n1 by (intro vm_ok_incref [OF ok1]) auto
    have v2: "tbl skip d ?s2 = tbl skip d s1" "pte_word skip d ?s2 = pte_word skip d s"
      "mapping skip d ?s2 = mapping skip d s"
      using view_kmem_cong [of ?s2 s1 skip d] w1 by simp_all
    have j: "snd (idx va) < 1024" by (simp add: idx_def unat_PTX)
    obtain s3 where S3: "page_remove (frame_va d) va ?s2 = Inr s3 \<and> vm_ok skip (ext(pp := Suc (ext pp))) d s3 \<and> npages s3 = npages ?s2 \<and>
      tbl skip d s3 = tbl skip d ?s2 \<and> mapping skip d s3 = (mapping skip d ?s2)(idx va := None) \<and>
      (\<forall>x. x \<noteq> idx va \<longrightarrow> pte_word skip d s3 x = pte_word skip d ?s2 x) \<and>
      (case mapping skip d ?s2 (idx va) of None \<Rightarrow> s3 = ?s2
       | Some p \<Rightarrow> pte_word skip d s3 (idx va) = 0 \<and> invlpg_log s3 = va # invlpg_log ?s2 \<and>
           (\<forall>q. unat (pp_ref (pages s3 ! q)) = unat (pp_ref (pages ?s2 ! q)) - (if q = p then 1 else 0)) \<and>
           free_pages s3 = (if unat (pp_ref (pages ?s2 ! p)) = 1 then p # free_pages ?s2 else free_pages ?s2))"
      using page_remove_ok [OF ok2 i] by (elim exE) (rule that)
    note c3 = S3 [THEN conjunct2, THEN conjunct2, THEN conjunct2, THEN conjunct2, THEN conjunct2, THEN conjunct2, unfolded v2]
    have s3: "page_remove (frame_va d) va ?s2 = Inr s3"
      "vm_ok skip (ext(pp := Suc (ext pp))) d s3" "npages s3 = npages s"
      "tbl skip d s3 = tbl skip d s1" "mapping skip d s3 = (mapping skip d s)(idx va := None)"
      "\<forall>x. x \<noteq> idx va \<longrightarrow> pte_word skip d s3 x = pte_word skip d s x"
      using S3 n1 unfolding v2 by simp_all
    have f3': "q \<in> set (free_pages s3)" if that: "pp_ref (pages ?s2 ! q) \<noteq> 0" "pp_ref (pages s3 ! q) = 0" for q
    proof (cases "mapping skip d s (idx va)")
      case None
      then show ?thesis using c3 that by simp
    next
      case (Some p)
      have c: "\<forall>q. unat (pp_ref (pages s3 ! q)) = unat (pp_ref (pages ?s2 ! q)) - (if q = p then 1 else 0)"
        "free_pages s3 = (if unat (pp_ref (pages ?s2 ! p)) = 1 then p # free_pages ?s2 else free_pages ?s2)"
        using c3 unfolding Some option.case by blast+
      note l = last_ref [of "\<lambda>q. pp_ref (pages s3 ! q)" "\<lambda>q. pp_ref (pages ?s2 ! q)" p q, OF c(1) that]
      show ?thesis unfolding c(2) l(1) using l(2) by (simp only: if_True list.set insert_iff simp_thms)
    qed
    have s3': "s3 = ?s2" if "mapping skip d s (idx va) = None"
      using page_remove_unmapped [OF ok2 i] s3(1) v2 that by simp
    have pres: "kmem ?s2 r AND PTE_P \<noteq> 0 \<longleftrightarrow> mapping skip d s (idx va) \<noteq> None"
      using f j unfolding w1(2) [symmetric]
      by (cases "idx va") (simp add: mapping_def pte_word_def Let_def present_def)
    have rm: "(if kmem ?s2 r AND PTE_P \<noteq> 0 then page_remove (frame_va d) va ?s2 else Inr ?s2) = Inr s3"
      using s3(1) s3' pres by auto
    have m1: "(65535 :: u16) = - 1" by simp
    have nz: "pp_ref (pages s ! pp) + 1 \<noteq> 0"
      using pp(3) unfolding m1 eq_neg_iff_add_eq_0 [symmetric] by simp
    let ?s4 = "store r ?e s3"
    let ?t = "store (pte_va d (fst (idx va))) (kmem ?s4 (pte_va d (fst (idx va))) OR perm) ?s4"
    have e: "present ?e" "pfn ?e = pp"
      using ok pp(1) perm by (simp, intro pfn_entry or_small) (auto simp: PTE_P_def vm_ok_def)
    have f3: "tbl skip d s3 (fst (idx va)) = Some f" using s3(4) f(2) by simp
    have ok4: "vm_ok skip ext d ?s4" unfolding f(1)
      by (rule vm_ok_map [OF s3(2) _ _ f3 j e]) (use ok s3 pp in \<open>auto simp: vm_ok_def\<close>)
    note v4 = store_table [OF vm_ok_pt_ok [OF s3(2)] f3 j, of ?e, folded f(1)]
    have f4: "tbl skip d ?s4 (fst (idx va)) = Some f" using v4 f3 by simp
    have run: "page_insert (frame_va d) pp va perm s = Inr (0, ?t)"
      using walk False rm by (simp add: page_insert_def Let_def dir_entry_va)
    have "pte_word skip d ?t = (pte_word skip d s)(idx va := ?e)"
      "mapping skip d ?t = (mapping skip d s)(idx va := Some pp)"
      using store_dir_flags [OF vm_ok_pt_ok [OF ok4] f4 perm] v4 s3(5,6) e by (auto simp: fun_eq_iff)
    moreover have "tbl skip d s (fst (idx va)) \<noteq> None \<longrightarrow> tbl skip d ?t = tbl skip d s"
      using store_dir_flags(1) [OF vm_ok_pt_ok [OF ok4] f4 perm] v4(1) s3(4) s1(3) by auto
    moreover have "npages ?t = npages s" using s3(3) by simp
    moreover have "q \<in> set (free_pages ?t)" if "pp_ref (pages s ! q) \<noteq> 0" "pp_ref (pages ?t ! q) = 0" for q
    proof -
      have "pp_ref (pages ?s2 ! q) \<noteq> 0" using that(1) kp s1(2) nz by (auto simp: pp_ref_set_ref)
      then show ?thesis using f3' [of q] that(2) by simp
    qed
    ultimately show ?thesis using run vm_ok_dir_flags [OF ok4 f4 perm] by blast
  qed
qed

subsection \<open>Static mappings\<close>

lemma idx_pgnum: "fst (idx va) * 1024 + snd (idx va) = unat va div 4096"
proof -
  have "unat va < 2 ^ 32" using unsigned_less [of va] by simp
  then have "unat (PDX va) = unat va div 4194304" "unat (PTX va) = unat va div 4096 mod 1024"
    unfolding PDX_def PTX_def numeral_masks
    by (simp_all add: take_bit_eq_mask [symmetric] unsigned_take_bit_eq take_bit_nat_def
        unat_drop_bit_eq drop_bit_nat_def)
  moreover have "unat va div 4194304 = unat va div 4096 div 1024" by (simp add: div_mult2_eq [symmetric])
  ultimately show ?thesis by (simp add: idx_def)
qed

lemma unat_page_step:
  "unat (va + of_nat k * PGSIZE) div 4096 = (unat va div 4096 + k) mod 1048576"
proof -
  have "va + of_nat k * PGSIZE = of_nat (unat va + k * 4096)" by (simp add: PGSIZE_def)
  then have "unat (va + of_nat k * PGSIZE) = (unat va + k * 4096) mod 4294967296"
    by (simp add: unat_of_nat take_bit_nat_def del: of_nat_add of_nat_mult)
  also have "\<dots> div 4096 = (unat va + k * 4096) div 4096 mod 1048576"
    using mod_mult2_eq [of "unat va + k * 4096" 4096 1048576] by simp
  finally show ?thesis by (simp add: add.commute)
qed

lemma idx_page_step_inj:
  assumes "k < 1048576" "l < 1048576" "idx (va + of_nat k * PGSIZE) = idx (va + of_nat l * PGSIZE)"
  shows "k = l"
proof -
  have "(unat va div 4096 + k) mod 1048576 = (unat va div 4096 + l) mod 1048576"
    using assms(3) idx_pgnum [of "va + of_nat k * PGSIZE"] idx_pgnum [of "va + of_nat l * PGSIZE"]
    by (simp add: unat_page_step)
  then show ?thesis using assms(1,2) mod_add_inj by blast
qed

definition page_at :: "u32 \<Rightarrow> nat \<Rightarrow> nat \<times> nat" where
  \<comment> \<open>the indices of the \<open>k\<close>-th page from \<open>va\<close>\<close>
  "page_at va k = idx (va + of_nat k * PGSIZE)"

definition missing :: "nat set \<Rightarrow> nat \<Rightarrow> pmap \<Rightarrow> u32 \<Rightarrow> nat \<Rightarrow> nat \<Rightarrow> nat set" where
  \<comment> \<open>the directory indices of pages \<open>i\<close> to \<open>i + n\<close> that have no page table yet\<close>
  "missing skip d s va i n = {x \<in> fst ` page_at va ` {i..<i + n}. tbl skip d s x = None}"

lemma missing_step:
  assumes "\<And>x. tbl skip d t x = None \<Longrightarrow> tbl skip d s x = None"
    and "tbl skip d t (fst (page_at va i)) \<noteq> None"
  shows "missing skip d t va (Suc i) n \<subseteq> missing skip d s va i (Suc n) - {fst (page_at va i)}"
  using assms unfolding missing_def by force

lemma finite_missing [simp]: "finite (missing skip d s va i n)"
  by (simp add: missing_def)

lemma boot_map_step:
  assumes ok: "pt_ok skip d s" and i: "fst (page_at va i) \<in> dirs skip"
    and enough: "card (missing skip d s va i (Suc n)) \<le> length (free_pages s)"
  shows "\<exists>pte t. pgdir_walk (frame_va d) (va + of_nat i * PGSIZE) True s = Inr (pte, t) \<and> pte \<noteq> 0 \<and>
    npages t = npages s \<and> pt_ok skip d (store pte e t) \<and>
    pte_word skip d (store pte e t) = (pte_word skip d s)(page_at va i := e) \<and>
    card (missing skip d (store pte e t) va (Suc i) n) \<le> length (free_pages (store pte e t))"
proof -
  let ?x = "page_at va i"
  have j: "snd ?x < 1024" by (simp add: page_at_def idx_def unat_PTX)
  have st: "pt_ok skip d (store (pte_va f (snd ?x)) e t) \<and> pte_va f (snd ?x) \<noteq> 0 \<and>
      tbl skip d (store (pte_va f (snd ?x)) e t) = tbl skip d t \<and>
      pte_word skip d (store (pte_va f (snd ?x)) e t) = (pte_word skip d t)(?x := e)"
    if "pt_ok skip d t" "tbl skip d t (fst ?x) = Some f" for t f
    using that store_table(1,2) [OF that j, of e] pt_ok_table [OF that] j pte_va_nonzero
    unfolding pt_ok_def by simp
  have lt: "card (missing skip d t va (Suc i) n) \<le> card (missing skip d s va i (Suc n) - {fst ?x})"
    if "\<And>x. tbl skip d t x = None \<Longrightarrow> tbl skip d s x = None" "tbl skip d t (fst ?x) \<noteq> None" for t
    using missing_step [OF that] by (intro card_mono) auto
  show ?thesis
  proof (rule pgdir_walk_cases [OF ok i [unfolded page_at_def], where create = True, folded page_at_def],
      goal_cases)
    case found: (1 f)
    let ?t = "store (pte_va f (snd ?x)) e s"
    have "card (missing skip d ?t va (Suc i) n) \<le> card (missing skip d s va i (Suc n) - {fst ?x})"
      using st [OF ok found(1)] found(1) by (intro lt) auto
    also have "\<dots> \<le> card (missing skip d s va i (Suc n))" by (rule card_Diff1_le)
    finally show ?case using enough found(2) st [OF ok found(1)] by auto
  next
    case absent: 2
    then have "fst ?x \<in> missing skip d s va i (Suc n)" by (simp add: missing_def)
    then have "0 < card (missing skip d s va i (Suc n))" by (auto simp: card_gt_0_iff)
    then show ?case using enough absent(2) by simp
  next
    case new: (3 p t w)
    let ?u = "store (pte_va d (fst ?x)) w (set_ref p (pp_ref (pages t ! p) + 1) t)"
    note V = new_table_view [OF ok i new(1,4,3,6,8,9,10)]
    have T: "tbl skip d ?u (fst ?x) = Some p" using V(2) by simp
    let ?t = "store (pte_va p (snd ?x)) e ?u"
    note S = st [OF V(1) T]
    have "card (missing skip d ?t va (Suc i) n) \<le> card (missing skip d s va i (Suc n) - {fst ?x})"
      using S V(2) new(1) by (intro lt) (auto split: if_splits)
    also have "\<dots> = card (missing skip d s va i (Suc n)) - 1"
      using new(1) by (intro card_Diff_singleton) (simp add: missing_def)
    also have "\<dots> \<le> length (free_pages ?t)" using enough new(4) V(5) by simp
    finally show ?case using new(6,11) S V(3) by auto
  qed
qed

lemma boot_map_4K_ok:
  assumes "pt_ok skip d s" and "\<forall>k\<in>{i..<i + n}. fst (page_at va k) \<in> dirs skip"
    and "card (missing skip d s va i n) \<le> length (free_pages s)" and "i + n \<le> 1048576"
  shows "\<exists>t. boot_map_4K (frame_va d) va pa perm i n s = Inr t \<and> pt_ok skip d t \<and>
    (\<forall>k\<in>{i..<i + n}. pte_word skip d t (page_at va k) = (pa + of_nat k * PGSIZE) OR perm OR PTE_P) \<and>
    (\<forall>x. x \<notin> page_at va ` {i..<i + n} \<longrightarrow> pte_word skip d t x = pte_word skip d s x)"
  using assms
proof (induction n arbitrary: i s)
  case 0
  then show ?case by auto
next
  case (Suc n)
  let ?e = "(pa + of_nat i * PGSIZE) OR perm OR PTE_P"
  obtain pte t where w: "pgdir_walk (frame_va d) (va + of_nat i * PGSIZE) True s = Inr (pte, t)" "pte \<noteq> 0"
    and t: "pt_ok skip d (store pte ?e t)"
      "pte_word skip d (store pte ?e t) = (pte_word skip d s)(page_at va i := ?e)"
      "card (missing skip d (store pte ?e t) va (Suc i) n) \<le> length (free_pages (store pte ?e t))"
    using boot_map_step [of skip d s va i n ?e] Suc.prems by auto
  obtain u where u: "boot_map_4K (frame_va d) va pa perm (Suc i) n (store pte ?e t) = Inr u"
    "pt_ok skip d u"
    "\<forall>k\<in>{Suc i..<Suc i + n}. pte_word skip d u (page_at va k) = (pa + of_nat k * PGSIZE) OR perm OR PTE_P"
    "\<forall>x. x \<notin> page_at va ` {Suc i..<Suc i + n} \<longrightarrow>
         pte_word skip d u x = ((pte_word skip d s)(page_at va i := ?e)) x"
    using Suc.IH [OF t(1) _ t(3)] Suc.prems(2,4) unfolding t(2) by auto
  have i: "page_at va i \<notin> page_at va ` {Suc i..<Suc i + n}"
    using Suc.prems(4) by (auto simp: page_at_def dest!: idx_page_step_inj [rotated 2])
  have "pte_word skip d u (page_at va i) = ?e" using u(4) [rule_format, OF i] by simp
  moreover have range: "{i..<i + Suc n} = insert i {Suc i..<Suc i + n}" by auto
  ultimately have "\<forall>k\<in>{i..<i + Suc n}. pte_word skip d u (page_at va k) = (pa + of_nat k * PGSIZE) OR perm OR PTE_P"
    using u(3) by simp
  moreover have "\<forall>x. x \<notin> page_at va ` {i..<i + Suc n} \<longrightarrow> pte_word skip d u x = pte_word skip d s x"
    using u(4) unfolding range by (simp del: split_paired_All)
  moreover have "boot_map_4K (frame_va d) va pa perm i (Suc n) s = Inr u" using w u(1) by simp
  ultimately show ?case using u(2) by blast
qed

lemma boot_map_region_ok:
  assumes ok: "pt_ok skip d s" and small: "\<not> (fourMB_page_support s \<and> perm AND PTE_PS \<noteq> 0)"
    and dirs: "\<forall>k<unat (sz div PGSIZE). fst (page_at va k) \<in> dirs skip"
    and enough: "card (missing skip d s va 0 (unat (sz div PGSIZE))) \<le> length (free_pages s)"
  shows "\<exists>t. boot_map_region (frame_va d) va sz pa perm s = Inr t \<and> pt_ok skip d t \<and>
    (\<forall>k<unat (sz div PGSIZE). pte_word skip d t (page_at va k) = (pa + of_nat k * PGSIZE) OR perm OR PTE_P) \<and>
    (\<forall>x. x \<notin> page_at va ` {..<unat (sz div PGSIZE)} \<longrightarrow> pte_word skip d t x = pte_word skip d s x)"
proof -
  have "unat sz < 2 ^ 32" using unsigned_less [of sz] by simp
  then have n: "0 + unat (sz div PGSIZE) \<le> 1048576" by (simp add: PGSIZE_def unat_div)
  have "boot_map_region (frame_va d) va sz pa perm s =
      boot_map_4K (frame_va d) va pa perm 0 (unat (sz div PGSIZE)) s"
    using small by (auto simp: boot_map_region_def)
  then show ?thesis
    using boot_map_4K_ok [OF ok _ enough n, of pa perm] dirs by (simp add: atLeast0LessThan lessThan_def)
qed

end
