(* ===== verification/JosMemInit.thy ===== *)
theory JosMemInit
  imports JosPgtable
begin

text \<open>
  Setting up JOS memory, from \<^verbatim>\<open>lab-3/kern/pmap.c\<close>: sizing physical memory
  (\<open>i386_detect_memory\<close>), the boot-time allocator (\<open>boot_alloc\<close>), the initial free list
  (\<open>page_init\<close>) and the software page-table walk the self-checks use (\<open>check_va2pa\<close>).
  The CMOS registers, the control register \<open>%cr4\<close> and the linker symbol \<open>end\<close> are parameters.
\<close>

subsection \<open>Sizing physical memory\<close>

definition nvram_read :: "(nat \<Rightarrow> u32) \<Rightarrow> nat \<Rightarrow> u32" where
  "nvram_read mc146818_read r = mc146818_read r OR push_bit 8 (mc146818_read (r + 1))"

definition i386_detect_memory :: "(nat \<Rightarrow> u32) \<Rightarrow> u32 \<Rightarrow> pmap \<Rightarrow> pmap" where
  "i386_detect_memory mc146818_read cr4 s =
     (let basemem = nvram_read mc146818_read (14 + 7);
          extmem = nvram_read mc146818_read (14 + 9);
          ext16mem = nvram_read mc146818_read (14 + 38) * 64;
          totalmem = (if ext16mem \<noteq> 0 then 16 * 1024 + ext16mem
                      else if extmem \<noteq> 0 then 1 * 1024 + extmem
                      else basemem);
          s1 = (if cr4 AND 0x10 \<noteq> 0 then s\<lparr>fourMB_page_support := True\<rparr> else s)
      in s1\<lparr>npages := totalmem div (PGSIZE div 1024),
            npages_basemem := basemem div (PGSIZE div 1024)\<rparr>)"

subsection \<open>The boot-time allocator\<close>

definition boot_alloc :: "u32 \<Rightarrow> u32 \<Rightarrow> pmap \<Rightarrow> (u32 \<times> pmap) res" where
  "boot_alloc kend n s =
     (let s1 = (if nextfree s = 0 then s\<lparr>nextfree := ROUNDUP kend PGSIZE\<rparr> else s);
          result = nextfree s1
      in if n > 0
         then (let s2 = s1\<lparr>nextfree := ROUNDUP (nextfree s1 + n) PGSIZE\<rparr>
               in if nextfree s2 - KERNBASE > npages s2 * PGSIZE
                  then Inl ''Panic! boot_alloc() failed! Out of memory!''
                  else Inr (result, s2))
         else Inr (result, s1))"

subsection \<open>The initial free list\<close>

definition push_free :: "nat \<Rightarrow> pmap \<Rightarrow> pmap" where
  \<comment> \<open>\<open>pages[i].pp_ref = 0; pages[i].pp_link = page_free_list; page_free_list = &pages[i]\<close>\<close>
  "push_free i s =
     (let s1 = set_ref i 0 s in (set_link i (page_free_list s1) s1)\<lparr>page_free_list := Some i\<rparr>)"

fun page_init_loop :: "u32 \<Rightarrow> nat \<Rightarrow> nat \<Rightarrow> pmap \<Rightarrow> pmap res" where
  "page_init_loop kend 0 i s = Inr s"
| "page_init_loop kend (Suc n) i s =
     (if of_nat i < npages_basemem s then page_init_loop kend n (Suc i) (push_free i s)
      else if of_nat i \<ge> IOPHYSMEM div PGSIZE \<and> of_nat i < EXTPHYSMEM div PGSIZE
      then page_init_loop kend n (Suc i) (set_ref i 1 s)
      else if of_nat i \<ge> EXTPHYSMEM div PGSIZE
      then rbind (boot_alloc kend 0 s)
             (\<lambda>(va, s1). rbind (PADDR va)
                (\<lambda>pa. if of_nat i < pa div PGSIZE
                      then page_init_loop kend n (Suc i) (set_ref i 1 s1)
                      else page_init_loop kend n (Suc i) (push_free i s1)))
      else page_init_loop kend n (Suc i) (push_free i s))"

definition page_init :: "u32 \<Rightarrow> pmap \<Rightarrow> pmap res" where
  "page_init kend s = page_init_loop kend (unat (npages s) - 1) 1 (set_ref 0 1 s)"

subsection \<open>The software page-table walk of the self-checks\<close>

definition check_va2pa :: "u32 \<Rightarrow> u32 \<Rightarrow> pmap \<Rightarrow> u32 res" where
  "check_va2pa pgdir va s =
     (let pde = kmem s (pgdir + 4 * PDX va)
      in if pde AND PTE_P = 0 then Inr (NOT 0)
         else if pde AND PTE_PS \<noteq> 0 then Inr (PDE_ADDR pde OR N_PGOFF va)
         else rbind (KADDR s (PTE_ADDR pde))
                (\<lambda>p. let pte = kmem s (p + 4 * PTX va)
                     in if pte AND PTE_P = 0 then Inr (NOT 0) else Inr (PTE_ADDR pte)))"

subsection \<open>Lemmas on the boot allocator\<close>

lemma unat_ROUNDUP_PGSIZE:
  assumes "unat a < 4294963201"
  shows "unat (ROUNDUP a PGSIZE) = (unat a + 4095) div 4096 * 4096"
proof -
  have "unat (a + PGSIZE - 1) = unat a + 4095"
  proof -
    have eq: "a + PGSIZE - 1 = a + 4095" by (simp add: PGSIZE_def)
    show ?thesis unfolding eq using assms by (simp add: unat_plus_if_size word_size)
  qed
  then have "unat ((a + PGSIZE - 1) mod PGSIZE) = (unat a + 4095) mod 4096"
    by (simp add: unat_mod) (simp add: PGSIZE_def)
  moreover have "(a + PGSIZE - 1) mod PGSIZE \<le> a + PGSIZE - 1"
    by (simp add: word_le_nat_alt unat_mod)
  ultimately have "unat (ROUNDUP a PGSIZE) = (unat a + 4095) - (unat a + 4095) mod 4096"
    using \<open>unat (a + PGSIZE - 1) = unat a + 4095\<close>
    unfolding ROUNDUP_def ROUNDDOWN_def by (simp only: unat_sub)
  then show ?thesis by (simp only: minus_mod_eq_div_mult)
qed

lemma boot_alloc_0:
  "nextfree s \<noteq> 0 \<Longrightarrow> boot_alloc kend 0 s = Inr (nextfree s, s)"
  by (simp add: boot_alloc_def)

subsection \<open>Lemmas on the free list\<close>

definition is_free :: "u32 \<Rightarrow> pmap \<Rightarrow> nat \<Rightarrow> bool" where
  \<comment> \<open>the pages the comment in \<open>page_init\<close> calls free: base memory, and extended memory above
    what \<open>boot_alloc\<close> has handed out\<close>
  "is_free brk s i \<longleftrightarrow>
     i < unat (npages_basemem s) \<or> \<not> (160 \<le> i \<and> i < 256) \<and> \<not> (256 \<le> i \<and> i < unat (brk - KERNBASE) div 4096)"

lemma push_free_ok:
  assumes ok: "pool_ok s" and i: "i < unat (npages s)" "i \<notin> set (free_pages s)"
  shows "pool_ok (push_free i s) \<and> free_pages (push_free i s) = i # free_pages s"
proof -
  let ?s1 = "set_ref i 0 s"
  have ok1: "pool_ok ?s1" using ok i(2) by (rule pool_ok_set_ref)
  have len: "i < length (pages s)" using ok i by (simp add: pool_ok_def)
  have cf: "can_free ?s1 i" using len i by (simp add: can_free_def pp_ref_set_ref)
  obtain t where t: "page_free i ?s1 = Inr t" "pool_ok t" "free_pages t = i # free_pages ?s1"
    using page_free_ok [OF ok1 cf] by blast
  moreover have "t = push_free i s"
    using t(1) by (auto simp: page_free_def push_free_def Let_def split: if_splits)
  ultimately show ?thesis by simp
qed

lemma push_free_fields [simp]:
  "npages (push_free i s) = npages s" "npages_basemem (push_free i s) = npages_basemem s"
  "nextfree (push_free i s) = nextfree s" "kmem (push_free i s) = kmem s"
  by (simp_all add: push_free_def Let_def set_link_def set_ref_def)

lemma set_ref_boot_fields [simp]:
  "npages_basemem (set_ref i r s) = npages_basemem s" "nextfree (set_ref i r s) = nextfree s"
  by (simp_all add: set_ref_def)

lemma page_init_loop_ok:
  assumes "pool_ok s" and "i + n \<le> unat (npages s)" and "unat (npages s) \<le> 65536"
    and "nextfree s \<ge> KERNBASE" and "free_pages s = rev (filter (is_free (nextfree s) s) [1..<i])"
    and "1 \<le> i"
  shows "\<exists>t. page_init_loop kend n i s = Inr t \<and> pool_ok t \<and> npages t = npages s \<and> kmem t = kmem s \<and>
    free_pages t = rev (filter (is_free (nextfree s) s) [1..<i + n])"
  using assms
proof (induction n arbitrary: i s)
  case 0
  then show ?case by simp
next
  case (Suc n)
  have small: "unat (of_nat i :: u32) = i"
    using Suc.prems(2,3) by (simp add: unat_of_nat take_bit_nat_eq_self)
  have ni: "i \<notin> set (free_pages s)" using Suc.prems(5) by simp
  have nz: "nextfree s \<noteq> 0" using Suc.prems(4) by (auto simp: KERNBASE_def)
  have step: "page_init_loop kend (Suc n) i s =
      page_init_loop kend n (Suc i) (if is_free (nextfree s) s i then push_free i s else set_ref i 1 s)"
    using Suc.prems(4) boot_alloc_0 [OF nz]
    by (auto simp: is_free_def word_less_nat_alt word_le_nat_alt small PADDR_def unat_div
        IOPHYSMEM_def EXTPHYSMEM_def PGSIZE_def)
  let ?t = "if is_free (nextfree s) s i then push_free i s else set_ref i 1 s"
  have t: "pool_ok ?t" "free_pages ?t = rev (filter (is_free (nextfree s) s) [1..<Suc i])"
    "npages ?t = npages s" "npages_basemem ?t = npages_basemem s" "nextfree ?t = nextfree s" "kmem ?t = kmem s"
    using push_free_ok [OF Suc.prems(1) _ ni] pool_ok_set_ref [OF Suc.prems(1) ni, of 1] Suc.prems(2,5,6)
    by simp_all
  have "is_free (nextfree s) ?t = is_free (nextfree s) s" using t(4) by (simp add: is_free_def fun_eq_iff)
  then show ?case using Suc.IH [of ?t "Suc i"] Suc.prems t step by simp
qed

end
