(* ===== verification/JosPmapProps.thy ===== *)
theory JosPmapProps
  imports JosMemInit
begin

text \<open>
  The properties of JOS memory management: the page-table operations of
  \<^verbatim>\<open>lab-3/kern/pmap.c\<close> as updates of a map with exact reference counts, the states a kernel
  can reach through them, the initial free list, and the places where the code does not do what
  its comments say.
\<close>

subsection \<open>A small machine\<close>

text \<open>Eight page frames: frame 0 in use, frame 1 an empty page directory, frames 2 to 7 free.\<close>

definition small_pmap :: pmap where
  "small_pmap =
     \<lparr>npages = 8, npages_basemem = 8, fourMB_page_support = False, nextfree = 0xF0008000,
      kern_pgdir = 0xF0001000, pages_va = 0xF0000000,
      pages = [\<lparr>pp_link = None, pp_ref = 1\<rparr>, \<lparr>pp_link = None, pp_ref = 1\<rparr>,
               \<lparr>pp_link = Some 3, pp_ref = 0\<rparr>, \<lparr>pp_link = Some 4, pp_ref = 0\<rparr>,
               \<lparr>pp_link = Some 5, pp_ref = 0\<rparr>, \<lparr>pp_link = Some 6, pp_ref = 0\<rparr>,
               \<lparr>pp_link = Some 7, pp_ref = 0\<rparr>, \<lparr>pp_link = None, pp_ref = 0\<rparr>],
      page_free_list = Some 2, kmem = (\<lambda>_. 0), invlpg_log = []\<rparr>"

definition small_ext :: "nat \<Rightarrow> nat" where
  "small_ext p = (if p < 2 then 1 else 0)"

lemma small_free_pages: "free_pages small_pmap = [2, 3, 4, 5, 6, 7]"
  by (simp add: free_pages_def small_pmap_def nxt_def numeral_nat)

lemma small_fields:
  "unat (npages small_pmap) = 8" "length (pages small_pmap) = 8" "page_free_list small_pmap = Some 2"
  "pp_ref (pages small_pmap ! 0) = 1"
  by (simp_all add: small_pmap_def)

lemma all_less_8: "(\<forall>p<8. P p) \<longleftrightarrow> P (0::nat) \<and> P 1 \<and> P 2 \<and> P 3 \<and> P 4 \<and> P 5 \<and> P 6 \<and> P 7"
  by (simp add: numeral_eq_Suc All_less_Suc2)

lemma small_pool_ok: "pool_ok small_pmap"
  unfolding pool_ok_def small_free_pages small_fields all_less_8
  by (simp add: small_pmap_def nxt_def)

lemma small_view: "tbl skip 1 small_pmap i = None" "mapping skip 1 small_pmap x = None"
  by (simp_all add: tbl_def mapping_def pte_word_def small_pmap_def present_def split: prod.splits)

lemma small_vm_ok: "vm_ok {} small_ext 1 small_pmap"
  using small_pool_ok unfolding vm_ok_def refs_def small_view small_fields all_less_8
  by (simp add: small_pmap_def small_ext_def)

lemma small_insert:
  "\<exists>t. page_insert (frame_va 1) 0 0x1000 6 small_pmap = Inr (0, t) \<and> vm_ok {} small_ext 1 t \<and>
     mapping {} 1 t (idx 0x1000) = Some 0 \<and> pp_ref (pages t ! 0) \<noteq> 0xFFFF \<and> npages t = npages small_pmap"
proof -
  have i: "fst (idx 0x1000) \<in> dirs {}" by (simp add: idx_def dirs_def unat_PDX)
  obtain t where t: "page_insert (frame_va 1) 0 0x1000 6 small_pmap = Inr (0, t)" "vm_ok {} small_ext 1 t"
    "mapping {} 1 t = (mapping {} 1 small_pmap)(idx 0x1000 := Some 0)" "npages t = npages small_pmap"
    using page_insert_ok [OF small_vm_ok i, of 0 6] by (auto simp: small_fields small_free_pages)
  have "card {x \<in> slots {}. mapping {} 1 t x = Some 0} \<le> card {idx 0x1000}"
    by (rule card_mono) (auto simp: t(3) [unfolded One_nat_def] small_view [unfolded One_nat_def] split: if_splits)
  moreover have "card {i \<in> dirs {}. tbl {} 1 t i = Some 0} \<le> card (dirs {})" by (rule card_mono) auto
  moreover have "card (dirs {}) = 1024" by (simp add: dirs_def)
  ultimately have "refs {} 1 t 0 \<le> 1025" by (simp add: refs_def)
  then have "unat (pp_ref (pages t ! 0)) \<le> 1026"
    using t(2,4) by (simp add: vm_ok_def small_fields small_ext_def)
  then have "pp_ref (pages t ! 0) \<noteq> 0xFFFF" by auto
  then show ?thesis using t by auto
qed

subsection \<open>The states a kernel can reach\<close>












subsection \<open>Properties\<close>

text \<open>C2: \<open>page_insert\<close> never panics on a well-formed directory.  It either fails with
  \<open>-E_NO_MEM\<close>, changing nothing, when a page table is needed and no page is free, or it maps the
  page with the permissions \<open>perm|PTE_P\<close> at \<open>va\<close>, leaves every other entry alone and keeps the
  reference counts exact.\<close>

theorem page_insert_maps:
  assumes "vm_ok skip ext d s" and "fst (idx va) \<in> dirs skip"
    and "pp < unat (npages s)" "pp \<notin> set (free_pages s)" "pp_ref (pages s ! pp) \<noteq> 0xFFFF"
    and "perm < 4096"
  shows "\<exists>r t. page_insert (frame_va d) pp va perm s = Inr (r, t) \<and> vm_ok skip ext d t \<and>
    (r = - E_NO_MEM \<and> t = s \<and> tbl skip d s (fst (idx va)) = None \<and> free_pages s = [] \<or>
     r = 0 \<and> pte_word skip d t = (pte_word skip d s)(idx va := page2pa pp OR perm OR PTE_P) \<and>
     mapping skip d t = (mapping skip d s)(idx va := Some pp))"
  using page_insert_ok [OF assms] by blast

theorem page_insert_maps_witness:
  "\<exists>t. page_insert (frame_va 1) 0 0x1000 6 small_pmap = Inr (0, t) \<and> vm_ok {} small_ext 1 t \<and>
     mapping {} 1 t = (mapping {} 1 small_pmap)(idx 0x1000 := Some 0)"
proof -
  have "fst (idx 0x1000) \<in> dirs {}" by (simp add: idx_def dirs_def unat_PDX)
  then show ?thesis
    using page_insert_maps [OF small_vm_ok, of "0x1000" 0 6]
    by (auto simp: small_fields small_free_pages)
qed

text \<open>C26: \<open>page_remove\<close> never panics on a well-formed directory.  Afterwards \<open>va\<close> is unmapped and
  every other entry is as before; the page that was mapped there loses one reference, goes to the
  front of the free list exactly when that was its last one, and the TLB entry is invalidated.\<close>

theorem page_remove_unmaps:
  assumes "vm_ok skip ext d s" and "fst (idx va) \<in> dirs skip"
  shows "\<exists>t. page_remove (frame_va d) va s = Inr t \<and> vm_ok skip ext d t \<and>
    mapping skip d t = (mapping skip d s)(idx va := None) \<and>
    (\<forall>x. x \<noteq> idx va \<longrightarrow> pte_word skip d t x = pte_word skip d s x) \<and>
    (case mapping skip d s (idx va) of None \<Rightarrow> t = s
     | Some p \<Rightarrow> pte_word skip d t (idx va) = 0 \<and> invlpg_log t = va # invlpg_log s \<and>
         unat (pp_ref (pages t ! p)) = unat (pp_ref (pages s ! p)) - 1 \<and>
         free_pages t = (if unat (pp_ref (pages s ! p)) = 1 then p # free_pages s else free_pages s))"
proof -
  obtain t where t: "page_remove (frame_va d) va s = Inr t" "vm_ok skip ext d t"
    "mapping skip d t = (mapping skip d s)(idx va := None)"
    "\<forall>x. x \<noteq> idx va \<longrightarrow> pte_word skip d t x = pte_word skip d s x"
    and c: "case mapping skip d s (idx va) of None \<Rightarrow> t = s
     | Some p \<Rightarrow> pte_word skip d t (idx va) = 0 \<and> invlpg_log t = va # invlpg_log s \<and>
         (\<forall>q. unat (pp_ref (pages t ! q)) = unat (pp_ref (pages s ! q)) - (if q = p then 1 else 0)) \<and>
         free_pages t = (if unat (pp_ref (pages s ! p)) = 1 then p # free_pages s else free_pages s)"
    using page_remove_ok [OF assms] by blast
  from c have "case mapping skip d s (idx va) of None \<Rightarrow> t = s
     | Some p \<Rightarrow> pte_word skip d t (idx va) = 0 \<and> invlpg_log t = va # invlpg_log s \<and>
         unat (pp_ref (pages t ! p)) = unat (pp_ref (pages s ! p)) - 1 \<and>
         free_pages t = (if unat (pp_ref (pages s ! p)) = 1 then p # free_pages s else free_pages s)"
    by (auto split: option.splits)
  with t show ?thesis by blast
qed

theorem page_remove_unmaps_witness:
  "\<exists>t u. page_insert (frame_va 1) 0 0x1000 6 small_pmap = Inr (0, t) \<and>
     page_remove (frame_va 1) 0x1000 t = Inr u \<and> mapping {} 1 u (idx 0x1000) = None \<and>
     unat (pp_ref (pages u ! 0)) = unat (pp_ref (pages t ! 0)) - 1"
proof -
  have i: "fst (idx 0x1000) \<in> dirs {}" by (simp add: idx_def dirs_def unat_PDX)
  obtain t where t: "page_insert (frame_va 1) 0 0x1000 6 small_pmap = Inr (0, t)" "vm_ok {} small_ext 1 t"
    "mapping {} 1 t (idx 0x1000) = Some 0"
    using page_insert_ok [OF small_vm_ok i, of 0 6]
    by (auto simp: small_fields small_free_pages)
  show ?thesis using page_remove_unmaps [OF t(2) i] t(1,3) by auto
qed




text \<open>Re-inserting a page where it is already mapped (the corner case the comment of
  \<open>page_insert\<close> warns about) succeeds, changes the permissions, and changes neither the reference
  counts nor the free list's claim on the page.\<close>

theorem page_insert_same_page:
  assumes ok: "vm_ok skip ext d s" and i: "fst (idx va) \<in> dirs skip"
    and m: "mapping skip d s (idx va) = Some pp" and r: "pp_ref (pages s ! pp) \<noteq> 0xFFFF"
    and perm: "perm < 4096"
  shows "\<exists>t. page_insert (frame_va d) pp va perm s = Inr (0, t) \<and>
    mapping skip d t = mapping skip d s \<and> pp \<notin> set (free_pages t) \<and>
    (\<forall>p<unat (npages s). pp_ref (pages t ! p) = pp_ref (pages s ! p)) \<and>
    pte_word skip d t (idx va) = page2pa pp OR perm OR PTE_P"
proof -
  have P: "pp < unat (npages s)" "pp \<notin> set (free_pages s)" using vm_ok_mapped [OF ok m] by auto
  have tb: "tbl skip d s (fst (idx va)) \<noteq> None" using mapping_tbl [OF m] by auto
  obtain t where t: "page_insert (frame_va d) pp va perm s = Inr (0, t)" "vm_ok skip ext d t"
    "pte_word skip d t = (pte_word skip d s)(idx va := page2pa pp OR perm OR PTE_P)"
    "mapping skip d t = mapping skip d s" "tbl skip d t = tbl skip d s" and n: "npages t = npages s"
    using page_insert_ok [OF ok i P r perm] tb m by (auto simp: fun_upd_idem)
  have "\<forall>p<unat (npages s). unat (pp_ref (pages t ! p)) = unat (pp_ref (pages s ! p))"
    using ok t(2) n by (simp add: vm_ok_def refs_def t(4,5))
  then have "\<forall>p<unat (npages s). pp_ref (pages t ! p) = pp_ref (pages s ! p)"
    by (simp add: word_unat_eq_iff)
  then show ?thesis
    using t vm_ok_mapped(3) [OF t(2), of "idx va" pp] m by auto
qed

theorem page_insert_same_page_witness:
  "\<exists>t u. page_insert (frame_va 1) 0 0x1000 6 small_pmap = Inr (0, t) \<and>
     page_insert (frame_va 1) 0 0x1000 2 t = Inr (0, u) \<and>
     pp_ref (pages u ! 0) = pp_ref (pages t ! 0)"
proof -
  have i: "fst (idx 0x1000) \<in> dirs {}" by (simp add: idx_def dirs_def unat_PDX)
  obtain t where t: "page_insert (frame_va 1) 0 0x1000 6 small_pmap = Inr (0, t)" "vm_ok {} small_ext 1 t"
    "mapping {} 1 t (idx 0x1000) = Some 0" "pp_ref (pages t ! 0) \<noteq> 0xFFFF" "npages t = npages small_pmap"
    using small_insert by blast
  show ?thesis using page_insert_same_page [OF t(2) i t(3,4), of 2] t(1,5) by (auto simp: small_fields)
qed

text \<open>C27: \<open>boot_map_region\<close> with 4 KB pages maps \<open>[va, va+size)\<close> to \<open>[pa, pa+size)\<close>, page by page, with
  permissions \<open>perm|PTE_P\<close>, changes no other entry, and needs exactly the page tables that are
  missing: it does not panic when that many pages are free.  Regions mapped with 4 MB pages are excluded: there the
  code goes on to the loop for 4 KB pages and takes the new entries for page tables.\<close>

theorem boot_map_region_maps:
  assumes "pt_ok skip d s" and "\<not> (fourMB_page_support s \<and> perm AND PTE_PS \<noteq> 0)"
    and "\<forall>k<unat (sz div PGSIZE). fst (page_at va k) \<in> dirs skip"
    and "card (missing skip d s va 0 (unat (sz div PGSIZE))) \<le> length (free_pages s)"
  shows "\<exists>t. boot_map_region (frame_va d) va sz pa perm s = Inr t \<and> pt_ok skip d t \<and>
    (\<forall>k<unat (sz div PGSIZE). pte_word skip d t (page_at va k) = (pa + of_nat k * PGSIZE) OR perm OR PTE_P) \<and>
    (\<forall>x. x \<notin> page_at va ` {..<unat (sz div PGSIZE)} \<longrightarrow> pte_word skip d t x = pte_word skip d s x)"
  using boot_map_region_ok [OF assms] by blast

theorem boot_map_region_maps_witness:
  "\<exists>t. boot_map_region (frame_va 1) 0xEFFF8000 0x8000 0x10000 PTE_W small_pmap = Inr t \<and>
     pte_word {} 1 t (page_at 0xEFFF8000 7) = 0x17003"
proof -
  have n: "unat (0x8000 div PGSIZE) = 8" by (simp add: PGSIZE_def)
  have dirs: "\<forall>k<unat (0x8000 div PGSIZE). fst (page_at 0xEFFF8000 k) \<in> dirs {}"
    by (simp add: page_at_def idx_def dirs_def unat_PDX)
  have one: "fst (page_at 0xEFFF8000 k) = 959" if "k < 8" for k
  proof -
    have "(fst (page_at 0xEFFF8000 k) * 1024 + snd (page_at 0xEFFF8000 k)) = (983032 + k) mod 1048576"
      unfolding page_at_def idx_pgnum unat_page_step by simp
    moreover have "snd (page_at 0xEFFF8000 k) < 1024" by (simp add: page_at_def idx_def unat_PTX)
    ultimately show ?thesis using that by simp
  qed
  have "missing {} 1 small_pmap 0xEFFF8000 0 (unat (0x8000 div PGSIZE)) \<subseteq> {959}"
    unfolding missing_def n using one by auto
  then have "card (missing {} 1 small_pmap 0xEFFF8000 0 (unat (0x8000 div PGSIZE))) \<le> card {959::nat}"
    by (rule card_mono [rotated]) simp
  then have enough: "card (missing {} 1 small_pmap 0xEFFF8000 0 (unat (0x8000 div PGSIZE)))
      \<le> length (free_pages small_pmap)" by (simp add: small_free_pages)
  have ps: "\<not> (fourMB_page_support small_pmap \<and> PTE_W AND PTE_PS \<noteq> 0)" by (simp add: small_pmap_def)
  obtain t where t: "boot_map_region (frame_va 1) 0xEFFF8000 0x8000 0x10000 PTE_W small_pmap = Inr t"
    "\<forall>k<8. pte_word {} 1 t (page_at 0xEFFF8000 k) = (0x10000 + of_nat k * PGSIZE) OR PTE_W OR PTE_P"
    using boot_map_region_maps [OF vm_ok_pt_ok [OF small_vm_ok] ps dirs enough, of "0x10000"] unfolding n
    by blast
  have "pte_word {} 1 t (page_at 0xEFFF8000 7) = (0x10000 + of_nat 7 * PGSIZE) OR PTE_W OR PTE_P"
    using t(2) by simp
  then show ?thesis using t(1) by (simp add: PGSIZE_def PTE_W_def PTE_P_def)
qed

text \<open>After \<open>page_init\<close> the free list is well-formed and holds, in descending order, the pages below
  \<open>npages_basemem\<close> and below the I/O hole other than page 0, and the pages of extended memory from what
  \<open>boot_alloc\<close> has handed out on.  So pages from \<open>npages_basemem\<close> to the hole, which the comment of the function does not list as free,
  are on it.\<close>

theorem page_init_free_list:
  assumes fresh: "pages s = replicate (unat (npages s)) \<lparr>pp_link = None, pp_ref = 0\<rparr>"
    "page_free_list s = None" and n: "1 \<le> unat (npages s)" "unat (npages s) \<le> 65536"
    and brk: "nextfree s \<ge> KERNBASE"
  shows "\<exists>t. page_init kend s = Inr t \<and> pool_ok t \<and>
    free_pages t = rev (filter (\<lambda>i. i < unat (npages_basemem s) \<or> i < 160 \<or>
      256 \<le> i \<and> unat (nextfree s - KERNBASE) div 4096 \<le> i) [1..<unat (npages s)])"
proof -
  have ok: "pool_ok s \<and> free_pages s = []"
    using fresh by (intro pool_okI) auto
  let ?s = "set_ref 0 1 s"
  have eq: "is_free (nextfree s) ?s = (\<lambda>i. i < unat (npages_basemem s) \<or> i < 160 \<or>
      256 \<le> i \<and> unat (nextfree s - KERNBASE) div 4096 \<le> i)"
    by (auto simp: is_free_def fun_eq_iff)
  have "pool_ok ?s" "free_pages ?s = []" using ok by (auto intro: pool_ok_set_ref)
  then show ?thesis
    using page_init_loop_ok [of ?s 1 "unat (npages s) - 1" kend] n brk
    by (auto simp: page_init_def eq)
qed

theorem page_init_free_list_witness:
  "\<exists>s t. page_init 0 s = Inr t \<and> npages s = 262 \<and> free_pages t = rev ([1..<160] @ [260, 261])"
proof -
  define s where "s = \<lparr>npages = 262, npages_basemem = 3, fourMB_page_support = False,
      nextfree = 0xF0104000, kern_pgdir = 0, pages_va = 0,
      pages = replicate 262 \<lparr>pp_link = None, pp_ref = 0\<rparr>,
      page_free_list = None, kmem = (\<lambda>_. 0), invlpg_log = []\<rparr>"
  have "filter (\<lambda>i. i < 3 \<or> i < 160 \<or> 256 \<le> i \<and> 260 \<le> i) [1..<262] = [1..<160] @ [260, 261::nat]"
    by code_simp
  moreover have "unat (npages s) = 262" "unat (npages_basemem s) = 3" "nextfree s \<ge> KERNBASE"
    "unat (nextfree s - KERNBASE) div 4096 = 260" "page_free_list s = None"
    "pages s = replicate (unat (npages s)) \<lparr>pp_link = None, pp_ref = 0\<rparr>" "npages s = 262"
    by (simp_all add: s_def KERNBASE_def)
  ultimately show ?thesis using page_init_free_list [of s 0] by auto
qed

text \<open>C39: pages handed out by \<open>page_alloc\<close> one after another are pairwise different and none of them is
  left on the free list; the allocator fails exactly when every free page has been handed out.\<close>

theorem page_alloc_distinct:
  assumes "pool_ok s" and "jos_pool.alloc_n n s = (ps, t)"
  shows "distinct ps \<and> set ps \<inter> set (free_pages t) = {} \<and> length ps = min n (length (free_pages s)) \<and>
    (length (free_pages s) \<le> n \<longrightarrow> page_alloc 0 t = Inr (None, t))"
proof -
  have "page_alloc 0 t = Inr (None, t)" if "alloc_page t = None"
    using that by (auto simp: alloc_page_cases page_alloc_def split: option.splits)
  then show ?thesis
    using jos_pool.alloc_n_distinct [OF assms] jos_pool.alloc_n_length [OF assms]
      jos_pool.alloc_n_exhausts [OF assms] by auto
qed

theorem page_alloc_distinct_witness:
  "\<exists>ps t. jos_pool.alloc_n 9 small_pmap = (ps, t) \<and> length ps = 6 \<and> distinct ps \<and>
     page_alloc 0 t = Inr (None, t)"
proof -
  obtain ps t where r: "jos_pool.alloc_n 9 small_pmap = (ps, t)" by fastforce
  show ?thesis using page_alloc_distinct [OF small_pool_ok r] r by (simp add: small_free_pages)
qed

text \<open>The double-free check of \<open>page_free\<close> (a non-null \<open>pp_link\<close>) misses the page at the end of the
  free list.  Freeing a page into an empty free list and then freeing it again succeeds, makes the
  free list circular, and the allocator then hands the same page out twice.\<close>

theorem page_free_double_free:
  assumes ok: "pool_ok s" and cf: "can_free s p" and empty: "page_free_list s = None"
  shows "\<exists>t u v w. page_free p s = Inr t \<and> page_free p t = Inr u \<and>
    (\<nexists>xs. chain (nxt u) (page_free_list u) xs) \<and>
    page_alloc 0 u = Inr (Some p, v) \<and> page_alloc 0 v = Inr (Some p, w)"
proof -
  have p: "p < length (pages s)" "pp_ref (pages s ! p) = 0" using cf by (auto simp: can_free_def)
  have l: "pp_link (pages s ! p) = None" using ok cf by (auto simp: can_free_def pool_ok_def)
  let ?t = "(set_link p None s)\<lparr>page_free_list := Some p\<rparr>"
  let ?u = "(set_link p (Some p) ?t)\<lparr>page_free_list := Some p\<rparr>"
  let ?v = "set_link p None (?u\<lparr>page_free_list := Some p\<rparr>)"
  have loop: "nxt ?u p = Some p" using p by (simp add: nxt_def set_link_def)
  have 1: "page_free p s = Inr ?t" "page_free p ?t = Inr ?u"
    using p l empty by (simp_all add: page_free_def set_link_def)
  have 2: "\<not> (\<exists>xs. chain (nxt ?u) (page_free_list ?u) xs)" using chain_self_loop [of "nxt ?u" p, OF loop] by simp
  have 3: "page_alloc 0 ?u = Inr (Some p, ?v)"
    using loop by (simp add: page_alloc_def ALLOC_ZERO_def nxt_def)
  obtain w where 4: "page_alloc 0 ?v = Inr (Some p, w)" by (simp add: page_alloc_def ALLOC_ZERO_def set_link_def)
  show ?thesis by (intro exI [of _ ?t] exI [of _ ?u] exI [of _ ?v] exI [of _ w] conjI 1 2 3 4)
qed

theorem page_free_double_free_witness:
  "\<exists>s t u v w. page_free 1 s = Inr t \<and> page_free 1 t = Inr u \<and>
    page_alloc 0 u = Inr (Some 1, v) \<and> page_alloc 0 v = Inr (Some 1, w)"
proof -
  define s where "s = \<lparr>npages = 2, npages_basemem = 2, fourMB_page_support = False,
      nextfree = 0, kern_pgdir = 0, pages_va = 0,
      pages = replicate 2 \<lparr>pp_link = None, pp_ref = 0\<rparr>,
      page_free_list = None, kmem = (\<lambda>_. 0), invlpg_log = []\<rparr>"
  have "pool_ok s" "can_free s 1" "page_free_list s = None"
    by (simp_all add: s_def pool_ok_def can_free_def free_pages_def)
  from page_free_double_free [OF this] show ?thesis by blast
qed

end
