(* ===== verification/XvSpinlock.thy ===== *)
theory XvSpinlock
  imports Prelude
begin

text \<open>
  The spin locks of \<^verbatim>\<open>lab-2/spinlock.c\<close> on a machine with several CPUs.

  A CPU is a number; its state is the nesting depth \<open>ncli\<close>, the saved interrupt flag \<open>intena\<close> and
  the interrupt flag \<open>IF\<close> of its \<open>eflags\<close>.  A lock is addressed by a number; \<open>stk\<close> is the memory
  that \<open>getcallerpcs\<close> walks.  The routines take the executing CPU as their first argument.
  \<open>acquire\<close> spins on an atomic exchange while the other CPUs run, so it is given twice: as a
  whole, with \<open>None\<close> for "the exchange finds the lock taken", and as the atomic steps of the
  interleaving relation \<open>lstep\<close>, in which any CPU may run between two memory accesses.
\<close>

subsection \<open>State\<close>

record spinlock =
  locked :: u32
  lk_name :: string
  lk_cpu :: "nat option"
  pcs :: "u32 list"

record cpu_st =
  ncli :: int
  intena :: bool
  IF :: bool

record smp =
  cpus :: "nat \<Rightarrow> cpu_st"
  locks :: "nat \<Rightarrow> spinlock"
  stk :: "u32 \<Rightarrow> u32"

definition upd_cpu :: "nat \<Rightarrow> (cpu_st \<Rightarrow> cpu_st) \<Rightarrow> smp \<Rightarrow> smp" where
  "upd_cpu c f s = s\<lparr>cpus := (cpus s)(c := f (cpus s c))\<rparr>"

definition upd_lock :: "nat \<Rightarrow> (spinlock \<Rightarrow> spinlock) \<Rightarrow> smp \<Rightarrow> smp" where
  "upd_lock l f s = s\<lparr>locks := (locks s)(l := f (locks s l))\<rparr>"

subsection \<open>Operations\<close>

definition initlock :: "nat \<Rightarrow> string \<Rightarrow> smp \<Rightarrow> smp" where
  "initlock l name = upd_lock l (\<lambda>lk. lk\<lparr>lk_name := name, locked := 0, lk_cpu := None\<rparr>)"

definition mycpu :: "nat \<Rightarrow> smp \<Rightarrow> nat res" where
  "mycpu c s = (if IF (cpus s c) then Inl ''mycpu called with interrupts enabled'' else Inr c)"

definition pushcli :: "nat \<Rightarrow> smp \<Rightarrow> smp res" where
  "pushcli c s =
     (let eflags_if = IF (cpus s c);
          s1 = upd_cpu c (\<lambda>u. u\<lparr>IF := False\<rparr>) s
      in rbind (mycpu c s1) (\<lambda>m.
           let s2 = (if ncli (cpus s1 m) = 0 then upd_cpu m (\<lambda>u. u\<lparr>intena := eflags_if\<rparr>) s1 else s1)
           in Inr (upd_cpu m (\<lambda>u. u\<lparr>ncli := ncli u + 1\<rparr>) s2)))"

definition popcli :: "nat \<Rightarrow> smp \<Rightarrow> smp res" where
  "popcli c s =
     (if IF (cpus s c) then Inl ''popcli - interruptible''
      else rbind (mycpu c s) (\<lambda>m.
        let s1 = upd_cpu m (\<lambda>u. u\<lparr>ncli := ncli u - 1\<rparr>) s
        in if ncli (cpus s1 m) < 0 then Inl ''popcli''
           else if ncli (cpus s1 m) = 0 \<and> intena (cpus s1 m)
           then Inr (upd_cpu c (\<lambda>u. u\<lparr>IF := True\<rparr>) s1)
           else Inr s1))"

definition holding :: "nat \<Rightarrow> nat \<Rightarrow> smp \<Rightarrow> (bool \<times> smp) res" where
  "holding c l s =
     rbind (pushcli c s) (\<lambda>s1.
     rbind (mycpu c s1) (\<lambda>m.
     let r = (locked (locks s1 l) \<noteq> 0 \<and> lk_cpu (locks s1 l) = Some m)
     in rbind (popcli c s1) (\<lambda>s2. Inr (r, s2))))"

text \<open>The last argument counts the entries of \<open>pcs\<close> still to fill.\<close>

fun getcallerpcs_loop :: "smp \<Rightarrow> u32 \<Rightarrow> nat \<Rightarrow> u32 list" where
  "getcallerpcs_loop s ebp 0 = []"
| "getcallerpcs_loop s ebp (Suc i) =
     (if ebp = 0 \<or> ebp < 0x80000000 \<or> ebp = 0xFFFFFFFF then replicate (Suc i) 0
      else stk s (ebp + 4) # getcallerpcs_loop s (stk s ebp) i)"

definition getcallerpcs :: "smp \<Rightarrow> u32 \<Rightarrow> u32 list" where
  "getcallerpcs s v = getcallerpcs_loop s (v - 8) 10"

definition xchg :: "nat \<Rightarrow> u32 \<Rightarrow> smp \<Rightarrow> u32 \<times> smp" where
  "xchg l v s = (locked (locks s l), upd_lock l (\<lambda>lk. lk\<lparr>locked := v\<rparr>) s)"

text \<open>The part of \<open>acquire\<close> before the spin loop, and the part after it (\<open>v\<close> is the address of
  the parameter \<open>lk\<close> on the stack).\<close>

definition acquire_enter :: "nat \<Rightarrow> nat \<Rightarrow> smp \<Rightarrow> smp res" where
  "acquire_enter c l s =
     rbind (pushcli c s) (\<lambda>s1.
     rbind (holding c l s1) (\<lambda>(r, s2). if r then Inl ''acquire'' else Inr s2))"

definition acquire_record :: "nat \<Rightarrow> nat \<Rightarrow> u32 \<Rightarrow> smp \<Rightarrow> smp res" where
  "acquire_record c l v s =
     rbind (mycpu c s) (\<lambda>m.
     let s1 = upd_lock l (\<lambda>lk. lk\<lparr>lk_cpu := Some m\<rparr>) s
     in Inr (upd_lock l (\<lambda>lk. lk\<lparr>pcs := getcallerpcs s1 v\<rparr>) s1))"

definition acquire :: "nat \<Rightarrow> nat \<Rightarrow> u32 \<Rightarrow> smp \<Rightarrow> smp option res" where
  "acquire c l v s =
     rbind (acquire_enter c l s) (\<lambda>s1.
     let (old, s2) = xchg l 1 s1
     in if old \<noteq> 0 then Inr None
        else rbind (acquire_record c l v s2) (\<lambda>s3. Inr (Some s3)))"

definition release_enter :: "nat \<Rightarrow> nat \<Rightarrow> smp \<Rightarrow> smp res" where
  "release_enter c l s =
     rbind (holding c l s) (\<lambda>(r, s1).
     if \<not> r then Inl ''release''
     else Inr (upd_lock l (\<lambda>lk. lk\<lparr>pcs := (pcs lk)[0 := 0], lk_cpu := None\<rparr>) s1))"

definition release_store :: "nat \<Rightarrow> smp \<Rightarrow> smp" where
  "release_store l = upd_lock l (\<lambda>lk. lk\<lparr>locked := 0\<rparr>)"

definition release :: "nat \<Rightarrow> nat \<Rightarrow> smp \<Rightarrow> smp res" where
  "release c l s = rbind (release_enter c l s) (\<lambda>s1. popcli c (release_store l s1))"

subsection \<open>Behaviour of the routines\<close>

lemma upd_cpu_simps [simp]:
  "cpus (upd_cpu c f s) = (cpus s)(c := f (cpus s c))" "locks (upd_cpu c f s) = locks s"
  "stk (upd_cpu c f s) = stk s"
  by (simp_all add: upd_cpu_def)

lemma upd_lock_simps [simp]:
  "locks (upd_lock l f s) = (locks s)(l := f (locks s l))" "cpus (upd_lock l f s) = cpus s"
  "stk (upd_lock l f s) = stk s"
  by (simp_all add: upd_lock_def)

lemma smp_eqI: "cpus s = cpus t \<Longrightarrow> locks s = locks t \<Longrightarrow> stk s = stk t \<Longrightarrow> s = (t::smp)"
  by (cases s; cases t) simp

definition push_cpu :: "cpu_st \<Rightarrow> cpu_st" where
  "push_cpu u = \<lparr>ncli = ncli u + 1, intena = (if ncli u = 0 then IF u else intena u), IF = False\<rparr>"

definition pop_cpu :: "cpu_st \<Rightarrow> cpu_st" where
  "pop_cpu u = \<lparr>ncli = ncli u - 1, intena = intena u, IF = (ncli u = 1 \<and> intena u)\<rparr>"

lemma pushcli_eq: "pushcli c s = Inr (upd_cpu c push_cpu s)"
  by (cases "cpus s c") (auto simp: pushcli_def push_cpu_def mycpu_def Let_def upd_cpu_def)

lemma popcli_eq: "\<not> IF (cpus s c) \<Longrightarrow> 1 \<le> ncli (cpus s c) \<Longrightarrow> popcli c s = Inr (upd_cpu c pop_cpu s)"
  by (cases "cpus s c") (auto simp: popcli_def pop_cpu_def mycpu_def Let_def upd_cpu_def)

lemma push_pop: "\<not> IF u \<Longrightarrow> 1 \<le> ncli u \<Longrightarrow> pop_cpu (push_cpu u) = u"
  by (cases u) (simp add: push_cpu_def pop_cpu_def)

text \<open>With interrupts off and at least one \<open>pushcli\<close> pending, \<open>holding\<close> only reads.\<close>

lemma holding_eq:
  assumes "\<not> IF (cpus s c)" and "1 \<le> ncli (cpus s c)"
  shows "holding c l s = Inr (locked (locks s l) \<noteq> 0 \<and> lk_cpu (locks s l) = Some c, s)"
proof -
  have "popcli c (upd_cpu c push_cpu s) = Inr (upd_cpu c pop_cpu (upd_cpu c push_cpu s))"
    using assms by (intro popcli_eq) (auto simp: push_cpu_def)
  moreover have "upd_cpu c pop_cpu (upd_cpu c push_cpu s) = s"
    by (rule smp_eqI) (use assms in \<open>auto simp: push_pop\<close>)
  ultimately show ?thesis by (simp add: holding_def pushcli_eq mycpu_def push_cpu_def Let_def)
qed

lemma holding_0:
  assumes "0 \<le> ncli (cpus s c)"
  shows "\<exists>t. holding c l s = Inr (locked (locks s l) \<noteq> 0 \<and> lk_cpu (locks s l) = Some c, t)"
  using assms by (simp add: holding_def pushcli_eq mycpu_def Let_def popcli_eq push_cpu_def)

lemma acquire_enter_eq:
  assumes "0 \<le> ncli (cpus s c)"
  shows "acquire_enter c l s =
    (if locked (locks s l) \<noteq> 0 \<and> lk_cpu (locks s l) = Some c then Inl ''acquire''
     else Inr (upd_cpu c push_cpu s))"
  using assms by (simp add: acquire_enter_def pushcli_eq holding_eq push_cpu_def)

lemma acquire_record_eq:
  "\<not> IF (cpus s c) \<Longrightarrow> acquire_record c l v s =
     Inr (upd_lock l (\<lambda>lk. lk\<lparr>lk_cpu := Some c, pcs := getcallerpcs s v\<rparr>) s)"
proof -
  assume "\<not> IF (cpus s c)"
  moreover have "getcallerpcs_loop (upd_lock l f s) e n = getcallerpcs_loop s e n" for f e n
    by (induction s e n rule: getcallerpcs_loop.induct) auto
  ultimately show ?thesis by (simp add: acquire_record_def mycpu_def Let_def getcallerpcs_def upd_lock_def)
qed

lemma release_enter_eq:
  assumes "\<not> IF (cpus s c)" "1 \<le> ncli (cpus s c)"
  shows "release_enter c l s =
    (if locked (locks s l) \<noteq> 0 \<and> lk_cpu (locks s l) = Some c
     then Inr (upd_lock l (\<lambda>lk. lk\<lparr>pcs := (pcs lk)[0 := 0], lk_cpu := None\<rparr>) s) else Inl ''release'')"
  using assms by (simp add: release_enter_def holding_eq)

subsection \<open>Interleaving of the CPUs\<close>

text \<open>
  The control point of a CPU: outside the lock routines, spinning in \<open>acquire\<close>, past the exchange
  but before the owner is recorded, before the store that frees the lock, before the final
  \<open>popcli\<close>.  \<open>held c\<close> are the locks whose critical section CPU \<open>c\<close> is in, \<open>extra c\<close> counts the
  \<open>pushcli\<close> calls its code made on its own account.
\<close>

datatype lpc = Run | Spin nat u32 | Record nat u32 | Unlock nat | Pop

record lconf =
  sm :: smp
  pc :: "nat \<Rightarrow> lpc"
  held :: "nat \<Rightarrow> nat set"
  extra :: "nat \<Rightarrow> nat"

definition goto :: "nat \<Rightarrow> lpc \<Rightarrow> smp \<Rightarrow> lconf \<Rightarrow> lconf" where
  "goto c p m g = g\<lparr>sm := m, pc := (pc g)(c := p)\<rparr>"

inductive lstep :: "lconf \<Rightarrow> lconf \<Rightarrow> bool" where
  enter: "pc g c = Run \<Longrightarrow> acquire_enter c l (sm g) = Inr m \<Longrightarrow> lstep g (goto c (Spin l v) m g)"
| spin: "pc g c = Spin l v \<Longrightarrow> xchg l 1 (sm g) = (old, m) \<Longrightarrow> old \<noteq> 0 \<Longrightarrow>
    lstep g (goto c (Spin l v) m g)"
| win: "pc g c = Spin l v \<Longrightarrow> xchg l 1 (sm g) = (old, m) \<Longrightarrow> old = 0 \<Longrightarrow>
    lstep g ((goto c (Record l v) m g)\<lparr>held := (held g)(c := insert l (held g c))\<rparr>)"
| own: "pc g c = Record l v \<Longrightarrow> acquire_record c l v (sm g) = Inr m \<Longrightarrow> lstep g (goto c Run m g)"
| leave: "pc g c = Run \<Longrightarrow> release_enter c l (sm g) = Inr m \<Longrightarrow> lstep g (goto c (Unlock l) m g)"
| unlock: "pc g c = Unlock l \<Longrightarrow>
    lstep g ((goto c Pop (release_store l (sm g)) g)\<lparr>held := (held g)(c := held g c - {l})\<rparr>)"
| pop: "pc g c = Pop \<Longrightarrow> popcli c (sm g) = Inr m \<Longrightarrow> lstep g (goto c Run m g)"
| push: "pc g c = Run \<Longrightarrow> pushcli c (sm g) = Inr m \<Longrightarrow>
    lstep g ((goto c Run m g)\<lparr>extra := (extra g)(c := Suc (extra g c))\<rparr>)"
| pull: "pc g c = Run \<Longrightarrow> extra g c = Suc k \<Longrightarrow> popcli c (sm g) = Inr m \<Longrightarrow>
    lstep g ((goto c Run m g)\<lparr>extra := (extra g)(c := k)\<rparr>)"
| sti: "pc g c = Run \<Longrightarrow> ncli (cpus (sm g) c) = 0 \<Longrightarrow>
    lstep g (goto c Run (upd_cpu c (\<lambda>u. u\<lparr>IF := b\<rparr>) (sm g)) g)"

inductive lreach :: "lconf \<Rightarrow> lconf \<Rightarrow> bool" for g0 where
  refl: "lreach g0 g0"
| step: "lreach g0 g \<Longrightarrow> lstep g g' \<Longrightarrow> lreach g0 g'"

definition boot :: "lconf \<Rightarrow> bool" where
  "boot g \<longleftrightarrow> (\<forall>c. pc g c = Run \<and> held g c = {} \<and> extra g c = 0 \<and> ncli (cpus (sm g) c) = 0) \<and>
     (\<forall>l. locked (locks (sm g) l) = 0 \<and> lk_cpu (locks (sm g) l) = None)"

text \<open>What a CPU's control point adds to its \<open>pushcli\<close> depth, and the lock whose owner field it
  is between updating.\<close>

definition depth :: "lpc \<Rightarrow> int" where
  "depth p = (case p of Spin _ _ \<Rightarrow> 1 | Pop \<Rightarrow> 1 | _ \<Rightarrow> 0)"

definition midway :: "lpc \<Rightarrow> nat set" where
  "midway p = (case p of Record l _ \<Rightarrow> {l} | Unlock l \<Rightarrow> {l} | _ \<Rightarrow> {})"

lemma lpc_simps [simp]:
  "depth Run = 0" "depth (Spin l v) = 1" "depth (Record l v) = 0" "depth (Unlock l) = 0" "depth Pop = 1"
  "midway Run = {}" "midway (Spin l v) = {}" "midway (Record l v) = {l}" "midway (Unlock l) = {l}"
  "midway Pop = {}"
  by (simp_all add: depth_def midway_def)

definition locks_ok :: "lconf \<Rightarrow> bool" where
  "locks_ok g \<longleftrightarrow>
     (\<forall>l. locked (locks (sm g) l) \<noteq> 0 \<longleftrightarrow> (\<exists>c. l \<in> held g c)) \<and>
     (\<forall>l c d. l \<in> held g c \<longrightarrow> l \<in> held g d \<longrightarrow> c = d) \<and>
     (\<forall>l c. lk_cpu (locks (sm g) l) = Some c \<longleftrightarrow> l \<in> held g c - midway (pc g c)) \<and>
     (\<forall>c. midway (pc g c) \<subseteq> held g c \<and> finite (held g c))"

definition cli_ok :: "lconf \<Rightarrow> bool" where
  "cli_ok g \<longleftrightarrow>
     (\<forall>c. ncli (cpus (sm g) c) = int (card (held g c)) + depth (pc g c) + int (extra g c)) \<and>
     (\<forall>c. IF (cpus (sm g) c) \<longrightarrow> ncli (cpus (sm g) c) = 0)"

lemma locks_okI:
  assumes "\<And>l. locked (locks (sm g) l) \<noteq> 0 \<longleftrightarrow> (\<exists>c. l \<in> held g c)"
    and "\<And>l c d. l \<in> held g c \<Longrightarrow> l \<in> held g d \<Longrightarrow> c = d"
    and "\<And>l c. lk_cpu (locks (sm g) l) = Some c \<longleftrightarrow> l \<in> held g c - midway (pc g c)"
    and "\<And>c. midway (pc g c) \<subseteq> held g c \<and> finite (held g c)"
  shows "locks_ok g"
  using assms unfolding locks_ok_def by blast

lemma locks_okD:
  assumes "locks_ok g"
  shows "locked (locks (sm g) l) \<noteq> 0 \<longleftrightarrow> (\<exists>c. l \<in> held g c)"
    and "l \<in> held g c \<Longrightarrow> l \<in> held g d \<Longrightarrow> c = d"
    and "lk_cpu (locks (sm g) l) = Some c \<longleftrightarrow> l \<in> held g c - midway (pc g c)"
    and "midway (pc g c) \<subseteq> held g c" "finite (held g c)"
  using assms unfolding locks_ok_def by blast+

lemma goto_simps [simp]:
  "sm (goto c p m g) = m" "pc (goto c p m g) = (pc g)(c := p)" "held (goto c p m g) = held g"
  "extra (goto c p m g) = extra g"
  by (simp_all add: goto_def)

lemma cli_ok_nonneg: "cli_ok g \<Longrightarrow> 0 \<le> ncli (cpus (sm g) c)"
  by (cases "pc g c") (auto simp: cli_ok_def)

lemma boot_ok: "boot g \<Longrightarrow> locks_ok g \<and> cli_ok g"
  by (simp add: boot_def locks_ok_def cli_ok_def)

text \<open>Steps that only move the \<open>pushcli\<close> depth of a CPU along with its control point.\<close>

lemma cli_step:
  assumes "locks_ok g" and "cli_ok g" and "midway (pc g c) = {}" "midway p = {}"
    and "\<not> IF (f (cpus (sm g) c)) \<or> ncli (f (cpus (sm g) c)) = 0"
    and "ncli (f (cpus (sm g) c)) = int (card (held g c)) + depth p + int k"
  shows "locks_ok ((goto c p (upd_cpu c f (sm g)) g)\<lparr>extra := (extra g)(c := k)\<rparr>) \<and>
    cli_ok ((goto c p (upd_cpu c f (sm g)) g)\<lparr>extra := (extra g)(c := k)\<rparr>)"
proof
  show "locks_ok ((goto c p (upd_cpu c f (sm g)) g)\<lparr>extra := (extra g)(c := k)\<rparr>)"
    using assms(1,3,4) by (auto simp: locks_ok_def)
  show "cli_ok ((goto c p (upd_cpu c f (sm g)) g)\<lparr>extra := (extra g)(c := k)\<rparr>)"
    using assms(2,5,6) by (auto simp: cli_ok_def)
qed

lemma cli_step_same:
  assumes "locks_ok g" and "cli_ok g" and "midway (pc g c) = {}" "midway p = {}"
    and "\<not> IF (f (cpus (sm g) c)) \<or> ncli (f (cpus (sm g) c)) = 0"
    and "ncli (f (cpus (sm g) c)) = int (card (held g c)) + depth p + int (extra g c)"
  shows "locks_ok (goto c p (upd_cpu c f (sm g)) g) \<and> cli_ok (goto c p (upd_cpu c f (sm g)) g)"
  using cli_step [of g c p f "extra g c"] assms by (simp add: goto_def)

lemma locks_ok_win:
  assumes "locks_ok g" and "pc g c = Spin l v" and "locked (locks (sm g) l) = 0"
  shows "locks_ok ((goto c (Record l v) (upd_lock l (\<lambda>lk. lk\<lparr>locked := 1\<rparr>) (sm g)) g)
           \<lparr>held := (held g)(c := insert l (held g c))\<rparr>)"
proof -
  have free: "l \<notin> held g d" for d using assms by (auto simp: locks_ok_def)
  then have own: "lk_cpu (locks (sm g) l) \<noteq> Some d" for d using assms(1) by (simp add: locks_ok_def)
  have "(\<exists>d. k \<in> ((held g)(c := insert l (held g c))) d) \<longleftrightarrow> k = l \<or> (\<exists>d. k \<in> held g d)" for k
    by (auto simp: fun_upd_def)
  then show ?thesis
    using locks_okD [OF assms(1)] assms(2) free own by (intro locks_okI) (auto split: if_splits)
qed

lemma cli_ok_win:
  assumes "locks_ok g" "cli_ok g" and "pc g c = Spin l v" and "locked (locks (sm g) l) = 0"
  shows "cli_ok ((goto c (Record l v) (upd_lock l f (sm g)) g)
           \<lparr>held := (held g)(c := insert l (held g c))\<rparr>)"
proof -
  have "l \<notin> held g c" "finite (held g c)" using assms by (auto simp: locks_ok_def)
  then show ?thesis using assms by (auto simp: cli_ok_def)
qed

lemma cli_ok_held: "locks_ok g \<Longrightarrow> cli_ok g \<Longrightarrow> l \<in> held g c \<Longrightarrow>
    \<not> IF (cpus (sm g) c) \<and> 1 \<le> ncli (cpus (sm g) c)"
proof -
  assume a: "locks_ok g" "cli_ok g" "l \<in> held g c"
  then have "1 \<le> int (card (held g c))" by (auto simp: locks_ok_def Suc_le_eq card_gt_0_iff)
  with a show ?thesis by (cases "pc g c") (auto simp: cli_ok_def)
qed

lemma locks_ok_unlock:
  assumes "locks_ok g" and "pc g c = Unlock l"
  shows "locks_ok ((goto c Pop (release_store l (sm g)) g)\<lparr>held := (held g)(c := held g c - {l})\<rparr>)"
proof -
  have own: "l \<in> held g c" using assms by (auto simp: locks_ok_def dest: spec [of _ c])
  then have only: "l \<in> held g d \<Longrightarrow> d = c" for d using assms by (auto simp: locks_ok_def)
  have "lk_cpu (locks (sm g) l) \<noteq> Some d" for d
    using locks_okD(3) [OF assms(1), of l d] only [of d] assms(2) by auto
  moreover have "(\<exists>d. k \<in> ((held g)(c := held g c - {l})) d) \<longleftrightarrow> k \<noteq> l \<and> (\<exists>d. k \<in> held g d)" for k
    using only by (auto simp: fun_upd_def) metis
  ultimately show ?thesis
    using locks_okD [OF assms(1)] assms(2) own
    by (intro locks_okI) (auto simp: release_store_def split: if_splits)
qed

lemma locks_ok_spin:
  assumes "locks_ok g" and "pc g c = Spin l v" and "locked (locks (sm g) l) \<noteq> 0"
  shows "locks_ok (goto c (Spin l v) (upd_lock l (\<lambda>lk. lk\<lparr>locked := 1\<rparr>) (sm g)) g)"
  using locks_okD [OF assms(1)] assms(2,3) by (intro locks_okI) (auto split: if_splits)

lemma locks_ok_own:
  assumes "locks_ok g" and "pc g c = Record l v"
  shows "locks_ok (goto c Run (upd_lock l (\<lambda>lk. lk\<lparr>lk_cpu := Some c, pcs := ps\<rparr>) (sm g)) g)"
proof -
  have l: "l \<in> held g c" using locks_okD(4) [OF assms(1), of c] assms(2) by simp
  have "d = c" if "l \<in> held g d" for d using locks_okD(2) [OF assms(1)] that l by blast
  then show ?thesis using locks_okD [OF assms(1)] assms(2) l by (intro locks_okI) (auto split: if_splits)
qed

lemma locks_ok_leave:
  assumes "locks_ok g" and "pc g c = Run" and "lk_cpu (locks (sm g) l) = Some c"
  shows "locks_ok (goto c (Unlock l) (upd_lock l (\<lambda>lk. lk\<lparr>pcs := (pcs lk)[0 := 0], lk_cpu := None\<rparr>) (sm g)) g)"
proof -
  have l: "l \<in> held g c" using locks_okD(3) [OF assms(1), of l c] assms(2,3) by simp
  have "d = c" if "l \<in> held g d" for d using locks_okD(2) [OF assms(1)] that l by blast
  then show ?thesis using locks_okD [OF assms(1)] assms(2) l by (intro locks_okI) (auto split: if_splits)
qed

lemma cli_ok_cong:
  "cli_ok g \<Longrightarrow> cpus (sm g') = cpus (sm g) \<Longrightarrow> held g' = held g \<Longrightarrow> extra g' = extra g \<Longrightarrow>
   (\<And>c. depth (pc g' c) = depth (pc g c)) \<Longrightarrow> cli_ok g'"
  unfolding cli_ok_def by auto

lemma lstep_ok:
  assumes "lstep g g'" and "locks_ok g" and "cli_ok g"
  shows "locks_ok g' \<and> cli_ok g'"
  using assms
proof (induction rule: lstep.induct)
  case (enter g c l m v)
  have m: "m = upd_cpu c push_cpu (sm g)"
    using enter by (auto simp: acquire_enter_eq cli_ok_nonneg split: if_splits)
  show ?case unfolding m
    by (rule cli_step_same) (use enter in \<open>auto simp: push_cpu_def cli_ok_def\<close>)
next
  case (spin g c l v old m)
  have "locked (locks (sm g) l) \<noteq> 0" "m = upd_lock l (\<lambda>lk. lk\<lparr>locked := 1\<rparr>) (sm g)"
    using spin by (auto simp: xchg_def)
  then show ?case using spin locks_ok_spin [of g c l v] by (auto intro: cli_ok_cong [of g])
next
  case (win g c l v old m)
  then show ?case using locks_ok_win cli_ok_win by (auto simp: xchg_def)
next
  case (own g c l v m)
  have "l \<in> held g c" using own locks_okD(4) [of g c] by simp
  then have m: "m = upd_lock l (\<lambda>lk. lk\<lparr>lk_cpu := Some c, pcs := getcallerpcs (sm g) v\<rparr>) (sm g)"
    using own cli_ok_held [of g l c] by (simp add: acquire_record_eq)
  then show ?case using own locks_ok_own [of g c l v] by (auto intro: cli_ok_cong [of g])
next
  case (leave g c l m)
  show ?case
  proof (cases "IF (cpus (sm g) c) \<or> ncli (cpus (sm g) c) < 1")
    case True
    then have "l \<notin> held g c" using leave cli_ok_held [of g l c] by auto
    then have "lk_cpu (locks (sm g) l) \<noteq> Some c" using leave locks_okD(3) [of g l c] by simp
    then show ?thesis using leave holding_0 [OF cli_ok_nonneg [OF leave(4)], of c l]
      by (auto simp: release_enter_def)
  next
    case False
    then have "lk_cpu (locks (sm g) l) = Some c"
      "m = upd_lock l (\<lambda>lk. lk\<lparr>pcs := (pcs lk)[0 := 0], lk_cpu := None\<rparr>) (sm g)"
      using leave by (auto simp: release_enter_eq split: if_splits)
    then show ?thesis using leave locks_ok_leave [of g c l] by (auto intro: cli_ok_cong [of g])
  qed
next
  case (unlock g c l)
  have l: "l \<in> held g c" "finite (held g c)" using unlock by (auto simp: locks_ok_def dest: spec [of _ c])
  then have "card (held g c) \<ge> 1" by (auto simp: Suc_le_eq card_gt_0_iff)
  then have "cli_ok ((goto c Pop (release_store l (sm g)) g)\<lparr>held := (held g)(c := held g c - {l})\<rparr>)"
    using unlock l by (auto simp: cli_ok_def release_store_def)
  then show ?case using locks_ok_unlock unlock by blast
next
  case (pop g c m)
  have "1 \<le> ncli (cpus (sm g) c)" "\<not> IF (cpus (sm g) c)"
    using pop by (auto simp: cli_ok_def dest: spec [of _ c])
  then have m: "m = upd_cpu c pop_cpu (sm g)" using pop by (simp add: popcli_eq)
  show ?case unfolding m
    by (rule cli_step_same) (use pop in \<open>auto simp: pop_cpu_def cli_ok_def\<close>)
next
  case (push g c m)
  then have m: "m = upd_cpu c push_cpu (sm g)" by (simp add: pushcli_eq)
  show ?case unfolding m by (rule cli_step) (use push in \<open>auto simp: push_cpu_def cli_ok_def\<close>)
next
  case (pull g c k m)
  have "1 \<le> ncli (cpus (sm g) c)" "\<not> IF (cpus (sm g) c)"
    using pull by (auto simp: cli_ok_def dest: spec [of _ c])
  then have m: "m = upd_cpu c pop_cpu (sm g)" using pull by (simp add: popcli_eq)
  show ?case unfolding m by (rule cli_step) (use pull in \<open>auto simp: pop_cpu_def cli_ok_def\<close>)
next
  case (sti g c b)
  show ?case
    by (rule cli_step_same) (use sti in \<open>auto simp: cli_ok_def dest: spec [of _ c]\<close>)
qed

lemma lreach_ok: "lreach g0 g \<Longrightarrow> boot g0 \<Longrightarrow> locks_ok g \<and> cli_ok g"
  by (induction rule: lreach.induct) (use boot_ok lstep_ok in blast)+

subsection \<open>Mutual exclusion\<close>

text \<open>C6: from a start with all locks free, whatever the interleaving of the CPUs: no two CPUs are in
  the critical section of the same lock, a CPU that holds a lock has its interrupts off, and the
  checks of \<open>acquire\<close> and \<open>release\<close> are exact: a CPU outside the lock routines panics in \<open>acquire\<close>
  precisely for the locks it holds, and \<open>release\<close> returns precisely for those.\<close>

theorem spinlock_mutual_exclusion:
  assumes "boot g0" and "lreach g0 g"
  shows "(c \<noteq> d \<longrightarrow> held g c \<inter> held g d = {}) \<and>
    (held g c \<noteq> {} \<longrightarrow> \<not> IF (cpus (sm g) c)) \<and>
    (pc g c = Run \<longrightarrow>
       (acquire_enter c l (sm g) = Inl ''acquire'' \<longleftrightarrow> l \<in> held g c) \<and>
       ((\<exists>m. release c l (sm g) = Inr m) \<longleftrightarrow> l \<in> held g c))"
proof (intro conjI impI)
  have ok: "locks_ok g" "cli_ok g" using lreach_ok assms by auto
  show "c \<noteq> d \<Longrightarrow> held g c \<inter> held g d = {}" using locks_okD(2) [OF ok(1)] by blast
  show "held g c \<noteq> {} \<Longrightarrow> \<not> IF (cpus (sm g) c)" using cli_ok_held [OF ok] by blast
  assume run: "pc g c = Run"
  have own: "lk_cpu (locks (sm g) l) = Some c \<longleftrightarrow> l \<in> held g c"
    using locks_okD(3) [OF ok(1), of l c] run by simp
  have lkd: "l \<in> held g c \<Longrightarrow> locked (locks (sm g) l) \<noteq> 0" using locks_okD(1) [OF ok(1), of l] by blast
  show "acquire_enter c l (sm g) = Inl ''acquire'' \<longleftrightarrow> l \<in> held g c"
    using own lkd by (auto simp: acquire_enter_eq [OF cli_ok_nonneg [OF ok(2)]])
  show "(\<exists>m. release c l (sm g) = Inr m) \<longleftrightarrow> l \<in> held g c"
  proof (cases "l \<in> held g c")
    case True
    with cli_ok_held [OF ok True] own lkd show ?thesis
      by (auto simp: release_def release_enter_eq release_store_def popcli_eq)
  next
    case False
    then have "lk_cpu (locks (sm g) l) \<noteq> Some c" using own by simp
    with False holding_0 [OF cli_ok_nonneg [OF ok(2)], of c l] show ?thesis
      by (auto simp: release_def release_enter_def)
  qed
qed

text \<open>CPU 0 takes lock 5 while CPU 1 spins on it.\<close>

theorem spinlock_mutual_exclusion_witness:
  "\<exists>g0 g. boot g0 \<and> lreach g0 g \<and> held g 0 = {5} \<and> pc g 1 = Spin 5 0 \<and> held g 0 \<inter> held g 1 = {}"
proof -
  define m0 where "m0 = \<lparr>cpus = (\<lambda>_. \<lparr>ncli = 0, intena = False, IF = True\<rparr>),
     locks = (\<lambda>_. \<lparr>locked = 0, lk_name = ''kmem'', lk_cpu = None, pcs = replicate 10 0\<rparr>), stk = (\<lambda>_. 0)\<rparr>"
  define g0 where "g0 = \<lparr>sm = m0, pc = (\<lambda>_. Run), held = (\<lambda>_. {}), extra = (\<lambda>_. 0)\<rparr>"
  define m1 where "m1 = upd_cpu 0 push_cpu m0"
  define g1 where "g1 = goto 0 (Spin 5 0) m1 g0"
  define m2 where "m2 = upd_cpu 1 push_cpu m1"
  define g2 where "g2 = goto 1 (Spin 5 0) m2 g1"
  define m3 where "m3 = snd (xchg 5 1 m2)"
  define g3 where "g3 = (goto 0 (Record 5 0) m3 g2)\<lparr>held := (held g2)(0 := insert 5 (held g2 0))\<rparr>"
  have b: "boot g0" by (simp add: boot_def g0_def m0_def)
  have "lstep g0 g1" unfolding g1_def
    by (rule lstep.enter) (simp_all add: g0_def m0_def m1_def acquire_enter_eq)
  moreover have "lstep g1 g2" unfolding g2_def
    by (rule lstep.enter) (simp_all add: g1_def m2_def g0_def m0_def m1_def acquire_enter_eq)
  moreover have "lstep g2 g3" unfolding g3_def
    by (rule lstep.win [where old = 0])
      (simp_all add: g2_def g1_def g0_def m0_def m1_def m2_def m3_def xchg_def)
  ultimately have r: "lreach g0 g3" by (blast intro: lreach.intros)
  have "held g3 0 = {5}" "pc g3 1 = Spin 5 0" by (simp_all add: g3_def g2_def g1_def g0_def)
  moreover have "held g3 0 \<inter> held g3 1 = {}"
    using spinlock_mutual_exclusion [OF b r, of 0 1] by simp
  ultimately show ?thesis using b r by blast
qed

subsection \<open>A lock as its owner sees it\<close>

text \<open>
  The components below run their critical sections on one CPU; for them a lock is the flag
  "held by this CPU", and the exactness of the checks of \<open>acquire\<close> and
  \<open>release\<close> proved above is why they test it in this way.
\<close>

definition lk_acquire :: "bool \<Rightarrow> bool res" where
  "lk_acquire h = (if h then Inl ''acquire'' else Inr True)"

definition lk_release :: "bool \<Rightarrow> bool res" where
  "lk_release h = (if h then Inr False else Inl ''release'')"

lemma lk_simps [simp]:
  "lk_acquire False = Inr True" "lk_acquire True = Inl ''acquire''"
  "lk_release True = Inr False" "lk_release False = Inl ''release''"
  by (simp_all add: lk_acquire_def lk_release_def)

end
