(* ===== verification/XvKalloc.thy ===== *)
theory XvKalloc
  imports Interfaces XvSpinlock
begin

text \<open>
  The physical page allocator of xv6, \<^verbatim>\<open>lab-2/kalloc.c\<close>: pages are kernel virtual addresses, and the
  free list is threaded through the first word of each free page.  \<open>pmem\<close> is memory by 32-bit
  words, \<open>kend\<close> the linker symbol \<open>end\<close>.  The allocator is the second provider of the page-pool
  interface; \<open>freerange\<close> is shown to terminate and to put exactly the pages of a range on the list.
\<close>

subsection \<open>Constants: memlayout.h, mmu.h\<close>

definition KERNBASE_xv :: u32 where "KERNBASE_xv = 0x80000000"
definition PHYSTOP :: u32 where "PHYSTOP = 0xE000000"
definition EXTMEM :: u32 where "EXTMEM = 0x100000"
definition DEVSPACE :: u32 where "DEVSPACE = 0xFE000000"
definition KERNLINK :: u32 where "KERNLINK = KERNBASE_xv + EXTMEM"
definition PGSIZE_xv :: u32 where "PGSIZE_xv = 4096"
definition V2P :: "u32 \<Rightarrow> u32" where "V2P a = a - KERNBASE_xv"
definition P2V :: "u32 \<Rightarrow> u32" where "P2V a = a + KERNBASE_xv"
definition PGROUNDUP :: "u32 \<Rightarrow> u32" where "PGROUNDUP sz = (sz + PGSIZE_xv - 1) AND NOT (PGSIZE_xv - 1)"
definition PGROUNDDOWN :: "u32 \<Rightarrow> u32" where "PGROUNDDOWN a = a AND NOT (PGSIZE_xv - 1)"

subsection \<open>State and operations\<close>

record kalloc_st =
  klock :: bool
  use_lock :: bool
  freelist :: u32
  pmem :: "u32 \<Rightarrow> u32"
  kend :: u32

definition kmem_acquire :: "kalloc_st \<Rightarrow> kalloc_st res" where
  "kmem_acquire s = (if use_lock s then rbind (lk_acquire (klock s)) (\<lambda>b. Inr (s\<lparr>klock := b\<rparr>)) else Inr s)"

definition kmem_release :: "kalloc_st \<Rightarrow> kalloc_st res" where
  "kmem_release s = (if use_lock s then rbind (lk_release (klock s)) (\<lambda>b. Inr (s\<lparr>klock := b\<rparr>)) else Inr s)"

definition kfree :: "u32 \<Rightarrow> kalloc_st \<Rightarrow> kalloc_st res" where
  "kfree v s =
     (if v mod PGSIZE_xv \<noteq> 0 \<or> v < kend s \<or> PHYSTOP \<le> V2P v then Inl ''kfree''
      else let s1 = s\<lparr>pmem := (\<lambda>a. if a - v < PGSIZE_xv then 0x01010101 else pmem s a)\<rparr>
           in rbind (kmem_acquire s1) (\<lambda>s2.
              let s3 = s2\<lparr>pmem := (pmem s2)(v := freelist s2)\<rparr>;
                  s4 = s3\<lparr>freelist := v\<rparr>
              in kmem_release s4))"

definition kalloc :: "kalloc_st \<Rightarrow> (u32 \<times> kalloc_st) res" where
  "kalloc s =
     rbind (kmem_acquire s) (\<lambda>s1.
     let r = freelist s1;
         s2 = (if r \<noteq> 0 then s1\<lparr>freelist := pmem s1 r\<rparr> else s1)
     in rbind (kmem_release s2) (\<lambda>s3. Inr (r, s3)))"

text \<open>\<open>kfree\<close> panics above \<open>PHYSTOP\<close>, so the pointer of the loop never wraps.\<close>

lemma kfree_no_wrap: "kfree p s = Inr t \<Longrightarrow> unat p < unat (p + PGSIZE_xv)"
proof -
  assume "kfree p s = Inr t"
  then have "p - 0x80000000 < 0xE000000"
    by (auto simp: kfree_def V2P_def KERNBASE_xv_def PHYSTOP_def not_le split: if_splits)
  then have "unat p < 0xFFFFF000" by (simp add: word_less_nat_alt unat_sub_if' split: if_splits)
  then have "unat (p + PGSIZE_xv) = unat p + 4096"
    by (simp add: PGSIZE_xv_def unat_word_ariths)
  then show ?thesis by simp
qed

function freerange_loop :: "u32 \<Rightarrow> u32 \<Rightarrow> kalloc_st \<Rightarrow> kalloc_st res" where
  "freerange_loop p vend s =
     (if p + PGSIZE_xv \<le> vend
      then (case kfree p s of Inl e \<Rightarrow> Inl e | Inr t \<Rightarrow> freerange_loop (p + PGSIZE_xv) vend t)
      else Inr s)"
  by pat_completeness auto
termination
proof (relation "measure (\<lambda>(p, vend, s). 2 ^ 32 - unat p)", goal_cases)
  case (2 p vend s t)
  then show ?case using kfree_no_wrap [of p s t] by (simp add: diff_less_mono2 unat_lt)
qed simp

declare freerange_loop.simps [simp del]

definition freerange :: "u32 \<Rightarrow> u32 \<Rightarrow> kalloc_st \<Rightarrow> kalloc_st res" where
  "freerange vstart vend s = freerange_loop (PGROUNDUP vstart) vend s"

definition kinit1 :: "u32 \<Rightarrow> u32 \<Rightarrow> kalloc_st \<Rightarrow> kalloc_st res" where
  "kinit1 vstart vend s = freerange vstart vend (s\<lparr>klock := False, use_lock := False\<rparr>)"

definition kinit2 :: "u32 \<Rightarrow> u32 \<Rightarrow> kalloc_st \<Rightarrow> kalloc_st res" where
  "kinit2 vstart vend s = rbind (freerange vstart vend s) (\<lambda>t. Inr (t\<lparr>use_lock := True\<rparr>))"

subsection \<open>The free list\<close>

definition ptr :: "u32 \<Rightarrow> u32 option" where
  "ptr v = (if v = 0 then None else Some v)"

definition run_next :: "kalloc_st \<Rightarrow> u32 \<Rightarrow> u32 option" where
  "run_next s v = ptr (pmem s v)"

text \<open>No chain of distinct pages has more than \<open>2 ^ 20\<close> of them.\<close>

definition kfree_pages :: "kalloc_st \<Rightarrow> u32 list" where
  "kfree_pages s = follow (2 ^ 20) (run_next s) (ptr (freelist s))"

definition kpage :: "kalloc_st \<Rightarrow> u32 \<Rightarrow> bool" where
  "kpage s v \<longleftrightarrow> v mod PGSIZE_xv = 0 \<and> kend s \<le> v \<and> V2P v < PHYSTOP"

definition kalloc_ok :: "kalloc_st \<Rightarrow> bool" where
  "kalloc_ok s \<longleftrightarrow> \<not> klock s \<and> 0 < kend s \<and>
     chain (run_next s) (ptr (freelist s)) (kfree_pages s) \<and> (\<forall>v\<in>set (kfree_pages s). kpage s v)"

definition kfreeable :: "kalloc_st \<Rightarrow> u32 \<Rightarrow> bool" where
  "kfreeable s v \<longleftrightarrow> kpage s v \<and> v \<notin> set (kfree_pages s)"

definition kalloc_page :: "kalloc_st \<Rightarrow> (u32 \<times> kalloc_st) option" where
  "kalloc_page s = (case kalloc s of Inl _ \<Rightarrow> None | Inr (r, t) \<Rightarrow> if r = 0 then None else Some (r, t))"

definition kfree_page :: "u32 \<Rightarrow> kalloc_st \<Rightarrow> kalloc_st" where
  "kfree_page v s = (case kfree v s of Inl _ \<Rightarrow> s | Inr t \<Rightarrow> t)"

lemma ptr_simps [simp]: "ptr 0 = None" "v \<noteq> 0 \<Longrightarrow> ptr v = Some v" "ptr v = None \<longleftrightarrow> v = 0"
  "ptr v = Some w \<longleftrightarrow> v = w \<and> w \<noteq> 0"
  by (auto simp: ptr_def)

lemma kfree_pages_eqI:
  assumes ch: "chain (run_next s) (ptr (freelist s)) xs" and pg: "\<forall>v\<in>set xs. kpage s v"
  shows "kfree_pages s = xs"
proof -
  have "inj_on (\<lambda>v::u32. unat v div 4096) (set xs)"
  proof (rule inj_onI)
    fix v w assume a: "v \<in> set xs" "w \<in> set xs" "unat v div 4096 = unat w div 4096"
    have "unat v mod 4096 = 0" "unat w mod 4096 = 0"
      using pg a by (auto simp: kpage_def PGSIZE_xv_def unat_eq_0 [symmetric] unat_mod)
    with a(3) have "unat v = unat w" by (metis div_mult_mod_eq)
    then show "v = w" by (simp add: unat_inj)
  qed
  then have "card (set xs) = card ((\<lambda>v::u32. unat v div 4096) ` set xs)" by (simp add: card_image)
  also have "\<dots> \<le> card {..<2 ^ 20::nat}"
  proof (rule card_mono)
    show "(\<lambda>v::u32. unat v div 4096) ` set xs \<subseteq> {..<2 ^ 20}"
      by (auto simp: less_mult_imp_div_less unat_lt)
  qed simp
  finally have "length xs \<le> 2 ^ 20" using chain_distinct [OF ch] by (simp add: distinct_card)
  then show ?thesis using ch by (simp add: kfree_pages_def follow_chain)
qed

lemma kalloc_okI:
  assumes "\<not> klock s" "0 < kend s" "chain (run_next s) (ptr (freelist s)) xs" "\<forall>v\<in>set xs. kpage s v"
  shows "kalloc_ok s \<and> kfree_pages s = xs"
  using assms kfree_pages_eqI by (simp add: kalloc_ok_def)

lemma kpage_nz: "kpage s v \<Longrightarrow> 0 < kend s \<Longrightarrow> v \<noteq> 0"
  by (auto simp: kpage_def)

lemma kalloc_eq:
  assumes "kalloc_ok s"
  shows "kalloc s = Inr (freelist s, if freelist s = 0 then s else s\<lparr>freelist := pmem s (freelist s)\<rparr>)"
  using assms by (cases s) (auto simp: kalloc_ok_def kalloc_def kmem_acquire_def kmem_release_def Let_def)

lemma kalloc_ok_alloc:
  assumes ok: "kalloc_ok s" and a: "kalloc_page s = Some (v, t)"
  shows "kfree_pages s = v # kfree_pages t \<and> kalloc_ok t \<and> kfreeable t v"
proof -
  have v: "v = freelist s" "v \<noteq> 0" and t: "t = s\<lparr>freelist := pmem s v\<rparr>"
    using a by (auto simp: kalloc_page_def kalloc_eq [OF ok] split: if_splits)
  obtain xs where xs: "kfree_pages s = v # xs" and ch: "chain (run_next s) (ptr (pmem s v)) xs"
    using ok v by (auto simp: kalloc_ok_def chain_Some run_next_def)
  have nx: "run_next t = run_next s" "kpage t = kpage s" by (auto simp: run_next_def t fun_eq_iff kpage_def)
  have "kalloc_ok t \<and> kfree_pages t = xs"
    by (rule kalloc_okI) (use ok ch xs in \<open>auto simp: t kalloc_ok_def nx [unfolded t]\<close>)
  moreover have "distinct (v # xs)" using ok xs chain_distinct by (metis kalloc_ok_def)
  moreover have "kpage s v" using ok xs by (simp add: kalloc_ok_def)
  ultimately show ?thesis using xs nx by (simp add: kfreeable_def)
qed

lemma kfree_ok:
  assumes ok: "kalloc_ok s" and f: "kfreeable s v"
  shows "\<exists>t. kfree v s = Inr t \<and> kalloc_ok t \<and> kfree_pages t = v # kfree_pages s \<and>
     use_lock t = use_lock s \<and> kend t = kend s \<and>
     (\<forall>a. a \<noteq> v \<longrightarrow> pmem t a = (if a - v < PGSIZE_xv then 0x01010101 else pmem s a))"
proof -
  define t where "t = s\<lparr>pmem := (\<lambda>a. if a - v < PGSIZE_xv then 0x01010101 else pmem s a)(v := freelist s),
    freelist := v\<rparr>"
  have pv: "kpage s v" "v \<notin> set (kfree_pages s)" using f by (auto simp: kfreeable_def)
  have v0: "v \<noteq> 0" using kpage_nz pv ok by (auto simp: kalloc_ok_def)
  have "kfree v s = Inr t"
    using ok pv by (cases s) (auto simp: kfree_def kpage_def kalloc_ok_def kmem_acquire_def kmem_release_def
      Let_def t_def not_le not_less)
  moreover have other: "run_next t w = run_next s w" if "w \<in> set (kfree_pages s)" for w
  proof -
    have "\<not> w - v < PGSIZE_xv"
    proof
      assume lt: "w - v < PGSIZE_xv"
      have "w mod 4096 = 0" "v mod 4096 = 0" using that ok pv by (auto simp: kalloc_ok_def kpage_def PGSIZE_xv_def)
      then have "(w - v) mod 4096 = 0" by (rule page_aligned_diff)
      with lt have "w - v = 0" by (simp add: PGSIZE_xv_def mod_word_less)
      with that pv show False by simp
    qed
    with that pv show ?thesis by (auto simp: run_next_def t_def)
  qed
  moreover have "kalloc_ok t \<and> kfree_pages t = v # kfree_pages s"
  proof (rule kalloc_okI)
    have "chain (run_next t) (ptr (freelist s)) (kfree_pages s)"
      using ok other by (subst chain_cong [of _ _ "run_next s"]) (auto simp: kalloc_ok_def)
    then show "chain (run_next t) (ptr (freelist t)) (v # kfree_pages s)"
      using v0 by (simp add: run_next_def t_def)
  qed (use ok pv in \<open>auto simp: t_def kalloc_ok_def kpage_def\<close>)
  ultimately show ?thesis by (intro exI [of _ t]) (simp add: t_def)
qed

interpretation xv_pool: page_pool kalloc_ok kfree_pages kalloc_page kfree_page kfreeable
proof
  fix s t :: kalloc_st and v :: u32
  assume ok: "kalloc_ok s"
  show "kalloc_page s = None \<longleftrightarrow> kfree_pages s = []"
  proof -
    have "chain (run_next s) (ptr (freelist s)) (kfree_pages s)" using ok by (simp add: kalloc_ok_def)
    then show ?thesis by (cases "freelist s = 0") (auto simp: kalloc_page_def kalloc_eq [OF ok] chain_Some)
  qed
  show "kfree_pages s = v # kfree_pages t" "kalloc_ok t" "kfreeable t v"
    if "kalloc_page s = Some (v, t)" using kalloc_ok_alloc [OF ok that] by auto
  show "kfree_pages (kfree_page v s) = v # kfree_pages s" "kalloc_ok (kfree_page v s)"
    if "kfreeable s v" using kfree_ok [OF ok that] by (auto simp: kfree_page_def)
  show "v \<notin> set (kfree_pages s)" if "kfreeable s v" using that by (simp add: kfreeable_def)
  show "distinct (kfree_pages s)" using ok chain_distinct by (metis kalloc_ok_def)
qed

subsection \<open>Ranges of pages\<close>

definition pages_in :: "nat \<Rightarrow> nat \<Rightarrow> u32 set" where
  "pages_in lo hi = {v. unat v mod 4096 = 0 \<and> lo \<le> unat v \<and> unat v + 4096 \<le> hi}"

lemma pages_in_step:
  assumes "unat p mod 4096 = 0" "unat p + 4096 \<le> hi"
  shows "pages_in (unat p) hi = insert p (pages_in (unat p + 4096) hi)"
proof -
  have "unat v + 4096 \<le> unat p \<or> v = p \<or> unat p + 4096 \<le> unat v" if v: "unat v mod 4096 = 0" for v
  proof -
    obtain i j where "unat p = 4096 * i" "unat v = 4096 * j"
      using assms(1) v by (auto elim!: dvdE simp: mod_eq_0_iff_dvd)
    then show ?thesis using unat_inj [of v p] by (cases "i = j") auto
  qed
  then show ?thesis using assms unfolding pages_in_def by (intro set_eqI) force
qed

lemma pages_in_empty: "hi < lo + 4096 \<Longrightarrow> pages_in lo hi = {}"
  by (auto simp: pages_in_def)

lemma kpage_range:
  assumes "unat p mod 4096 = 0" "kend s \<le> p" "0x80000000 \<le> unat p" "unat p + 4096 \<le> 0x8E000000"
  shows "kpage s p"
proof -
  have "unat (p - 0x80000000) = unat p - 0x80000000"
    using assms(3) by (simp add: unat_sub_if' )
  then show ?thesis using assms
    by (simp add: kpage_def V2P_def KERNBASE_xv_def PHYSTOP_def PGSIZE_xv_def word_less_nat_alt
        unat_eq_0 [symmetric] unat_mod)
qed

lemma unat_add_page: "unat (p::u32) + 4096 \<le> 0x8E001000 \<Longrightarrow> unat (p + PGSIZE_xv) = unat p + 4096"
  by (simp add: PGSIZE_xv_def unat_word_ariths)

lemma freerange_loop_ok:
  assumes "kalloc_ok s" "unat p mod 4096 = 0" "kend s \<le> p" "0x80000000 \<le> unat p"
    "unat p \<le> 0x8E000000" "unat vend \<le> 0x8E000000" "set (kfree_pages s) \<inter> pages_in (unat p) (unat vend) = {}"
  shows "\<exists>t. freerange_loop p vend s = Inr t \<and> kalloc_ok t \<and> use_lock t = use_lock s \<and>
     kend t = kend s \<and> set (kfree_pages t) = set (kfree_pages s) \<union> pages_in (unat p) (unat vend)"
  using assms
proof (induction p vend s rule: freerange_loop.induct)
  case (1 p vend s)
  have add: "unat (p + PGSIZE_xv) = unat p + 4096" using 1(6) by (intro unat_add_page) simp
  show ?case
  proof (cases "p + PGSIZE_xv \<le> vend")
    case True
    then have le: "unat p + 4096 \<le> unat vend" using add by (simp add: word_le_nat_alt)
    note split = pages_in_step [OF 1(3) le]
    have "kfreeable s p"
      using 1(3-8) le split by (auto simp: kfreeable_def intro: kpage_range)
    then obtain t where t: "kfree p s = Inr t" "kalloc_ok t" "kfree_pages t = p # kfree_pages s"
      "use_lock t = use_lock s" "kend t = kend s"
      using kfree_ok [OF 1(2)] by blast
    have "p \<notin> pages_in (unat p + 4096) (unat vend)" by (simp add: pages_in_def)
    then have "\<exists>u. freerange_loop (p + PGSIZE_xv) vend t = Inr u \<and> kalloc_ok u \<and> use_lock u = use_lock t \<and>
      kend u = kend t \<and> set (kfree_pages u) = set (kfree_pages t) \<union> pages_in (unat (p + PGSIZE_xv)) (unat vend)"
      using 1(3-8) t le split
      by (intro 1(1) [OF True t(1)]) (auto simp: add word_le_nat_alt)
    then show ?thesis using True t split
      by (subst freerange_loop.simps) (auto simp: add)
  next
    case False
    then have "unat vend < unat p + 4096" using add by (simp add: word_le_nat_alt)
    then show ?thesis using False 1(2) by (subst freerange_loop.simps) (simp add: pages_in_empty)
  qed
qed

lemma unat_PGROUNDUP: "unat v \<le> 0xFFFFF000 \<Longrightarrow> unat (PGROUNDUP v) = (unat v + 4095) div 4096 * 4096"
proof -
  assume v: "unat v \<le> 0xFFFFF000"
  have "unat (v + PGSIZE_xv - 1) = unat (v + 4095)" by (simp add: PGSIZE_xv_def add.commute)
  also have "\<dots> = unat v + 4095" using v by (simp add: unat_word_ariths)
  finally have "unat (v + PGSIZE_xv - 1) = unat v + 4095" .
  moreover have "PGROUNDUP v = (v + PGSIZE_xv - 1) AND NOT 0xFFF" by (simp add: PGROUNDUP_def PGSIZE_xv_def)
  ultimately show ?thesis by (simp only: unat_page_floor)
qed

text \<open>\<open>freerange\<close> on a kernel range below \<open>PHYSTOP\<close> terminates without panic and adds to the free list
  exactly the page-aligned pages that lie wholly inside the range (a partial page at either end is
  left out); the free list stays well-formed.\<close>

theorem freerange_pages:
  assumes "kalloc_ok s" and "kend s \<le> vstart" and "KERNBASE_xv \<le> vstart"
    and "vstart \<le> P2V PHYSTOP" and "vend \<le> P2V PHYSTOP"
    and "\<forall>v\<in>set (kfree_pages s). v + PGSIZE_xv \<le> vstart \<or> vend \<le> v"
  shows "\<exists>t. freerange vstart vend s = Inr t \<and> kalloc_ok t \<and>
    set (kfree_pages t) = set (kfree_pages s) \<union>
      {v. v mod PGSIZE_xv = 0 \<and> vstart \<le> v \<and> unat v + 4096 \<le> unat vend}"
proof -
  have top: "unat (P2V PHYSTOP) = 0x8E000000" by (simp add: P2V_def PHYSTOP_def KERNBASE_xv_def)
  let ?p = "PGROUNDUP vstart"
  have b: "0x80000000 \<le> unat vstart" "unat vstart \<le> 0x8E000000" "unat vend \<le> 0x8E000000"
    using assms(3-5) top by (auto simp: word_le_nat_alt KERNBASE_xv_def)
  have up: "unat ?p = (unat vstart + 4095) div 4096 * 4096" using b by (intro unat_PGROUNDUP) simp
  have up_le: "unat vstart \<le> unat ?p" "unat ?p \<le> 0x8E000000" unfolding up using b(2) by simp_all
  have up_least: "unat ?p \<le> unat v" if "unat v mod 4096 = 0" "unat vstart \<le> unat v" for v :: u32
  proof -
    have "(unat vstart + 4095) div 4096 \<le> (unat v + 4095) div 4096" using that by (intro div_le_mono) simp
    also have "\<dots> = unat v div 4096" using that(1) by (auto simp: mod_eq_0_iff_dvd)
    finally show ?thesis unfolding up using that(1) by (auto simp: mod_eq_0_iff_dvd)
  qed
  have range: "pages_in (unat ?p) (unat vend) =
      {v. v mod PGSIZE_xv = 0 \<and> vstart \<le> v \<and> unat v + 4096 \<le> unat vend}"
    using up_le(1) up_least
    by (auto simp: pages_in_def word_le_nat_alt PGSIZE_xv_def unat_eq_0 [symmetric] unat_mod)
  have "v \<notin> pages_in (unat ?p) (unat vend)" if "v \<in> set (kfree_pages s)" for v
  proof -
    have "unat v + 4096 \<le> 0x8E001000" if "unat v + 4096 \<le> unat vend" using that b(3) by simp
    then show ?thesis using assms(6) that up_le(1) unat_add_page [of v]
      by (auto simp: pages_in_def word_le_nat_alt)
  qed
  then have "\<exists>t. freerange_loop ?p vend s = Inr t \<and> kalloc_ok t \<and> use_lock t = use_lock s \<and>
     kend t = kend s \<and> set (kfree_pages t) = set (kfree_pages s) \<union> pages_in (unat ?p) (unat vend)"
    using assms(1,2) b up_le up by (intro freerange_loop_ok) (auto simp: word_le_nat_alt)
  then show ?thesis by (auto simp: freerange_def range)
qed

theorem freerange_pages_witness:
  "\<exists>s t. freerange 0x80100001 0x80103800 s = Inr t \<and> kalloc_ok t \<and> set (kfree_pages t) =
     {v. v mod PGSIZE_xv = 0 \<and> 0x80100001 \<le> v \<and> unat v + 4096 \<le> unat (0x80103800::u32)}"
proof -
  define s where "s = \<lparr>klock = False, use_lock = False, freelist = 0, pmem = (\<lambda>_. 0), kend = 0x80100000\<rparr>"
  have e: "kfree_pages s = []" by (simp add: s_def kfree_pages_def)
  have "kalloc_ok s" by (simp add: kalloc_ok_def e) (simp add: s_def)
  from freerange_pages [OF this, of "0x80100001" "0x80103800"] e show ?thesis
    by (auto simp: s_def KERNBASE_xv_def P2V_def PHYSTOP_def)
qed

text \<open>A page given to \<open>kfree\<close> is the next one \<open>kalloc\<close> returns, and between the two its contents
  past the link word are the junk pattern; \<open>kalloc\<close> then restores the free list as it was.\<close>

theorem kfree_kalloc:
  assumes "kalloc_ok s" and "kfreeable s v"
  shows "\<exists>t u. kfree v s = Inr t \<and> kalloc t = Inr (v, u) \<and> kalloc_ok u \<and> kfree_pages u = kfree_pages s \<and>
    (\<forall>a. a \<noteq> v \<longrightarrow> pmem u a = (if a - v < PGSIZE_xv then 0x01010101 else pmem s a))"
proof -
  obtain t where t: "kfree v s = Inr t" "kalloc_ok t"
    "\<forall>a. a \<noteq> v \<longrightarrow> pmem t a = (if a - v < PGSIZE_xv then 0x01010101 else pmem s a)"
    using kfree_ok [OF assms] by blast
  obtain u where u: "kalloc_page (kfree_page v s) = Some (v, u)" "kfree_pages u = kfree_pages s"
    using xv_pool.release_alloc [OF assms] by blast
  have tu: "kalloc_page t = Some (v, u)" using u(1) t(1) by (simp add: kfree_page_def)
  then have "kalloc t = Inr (v, u)" "pmem u = pmem t"
    by (auto simp: kalloc_page_def kalloc_eq [OF t(2)] split: if_splits)
  moreover have "kalloc_ok u" using xv_pool.alloc_invar [OF t(2) tu] .
  ultimately show ?thesis using t u(2) by auto
qed

theorem kfree_kalloc_witness:
  "\<exists>s t u. kfree 0x80100000 s = Inr t \<and> kalloc t = Inr (0x80100000, u) \<and>
     pmem u 0x80100004 = 0x01010101 \<and> pmem u 0x80101000 = 0"
proof -
  define s where "s = \<lparr>klock = False, use_lock = True, freelist = 0, pmem = (\<lambda>_. 0), kend = 0x80100000\<rparr>"
  have e: "kfree_pages s = []" by (simp add: s_def kfree_pages_def)
  have "kalloc_ok s" by (simp add: kalloc_ok_def e) (simp add: s_def)
  moreover have "kfreeable s 0x80100000"
    by (simp add: kfreeable_def e) (simp add: s_def kpage_def PGSIZE_xv_def V2P_def KERNBASE_xv_def PHYSTOP_def)
  ultimately obtain t u where tu: "kfree 0x80100000 s = Inr t" "kalloc t = Inr (0x80100000, u)"
    "\<forall>a. a \<noteq> 0x80100000 \<longrightarrow> pmem u a = (if a - 0x80100000 < PGSIZE_xv then 0x01010101 else pmem s a)"
    using kfree_kalloc by blast
  then have "pmem u 0x80100004 = 0x01010101" "pmem u 0x80101000 = 0"
    by (simp_all add: s_def PGSIZE_xv_def)
  with tu show ?thesis by blast
qed

end
