(* ===== verification/XvProc.thy ===== *)
theory XvProc
  imports XvSpinlock
begin

text \<open>
  The process table of xv6, \<^verbatim>\<open>lab-2/proc_original.c\<close>: process creation, exit, wait, sleep, wake-up and
  kill, with the round-robin scheduler.  The MLFQ and lottery variants of the repository extend
  this table in their own theories and reuse the operations that they leave unchanged.

  A \<open>struct proc *\<close> is an index into the table.  A switch between a process and the scheduler
  (\<open>swtch\<close>) ends one definition and starts the next: \<open>sleep\<close>, \<open>yield\<close> and \<open>wait\<close> are given by the
  part up to the switch and the part after it, and the scheduler takes what happens between its
  switch to a process and the switch back as a function \<open>run\<close> on the whole state.  The services
  of the memory and file components are the operations of a record \<open>svc\<close> on their state \<open>'k\<close>.
  \<open>myproc\<close> reads the current process; its matched \<open>pushcli\<close> and \<open>popcli\<close> leave no trace.
\<close>

subsection \<open>Data: proc.h, x86.h\<close>

definition NPROC :: nat where "NPROC = 64"
definition NOFILE :: nat where "NOFILE = 16"
definition KSTACKSIZE :: u32 where "KSTACKSIZE = 4096"
definition MAXPRIORITY :: int where "MAXPRIORITY = 2"
definition DEFAULT_BUDGET :: int where "DEFAULT_BUDGET = 5"
definition TICKS_TO_PROMOTE :: u32 where "TICKS_TO_PROMOTE = 20"
definition MAXTICKET :: int where "MAXTICKET = 15"

datatype procstate = UNUSED | EMBRYO | SLEEPING | RUNNABLE | RUNNING | ZOMBIE

text \<open>A sleep channel is a null pointer, a process, or another address.\<close>

datatype channel = NoChan | ProcChan nat | AddrChan u32

record trapframe =
  tf_edi :: u32
  tf_esi :: u32
  tf_ebp :: u32
  tf_oesp :: u32
  tf_ebx :: u32
  tf_edx :: u32
  tf_ecx :: u32
  tf_eax :: u32
  tf_gs :: u16
  tf_fs :: u16
  tf_es :: u16
  tf_ds :: u16
  tf_trapno :: u32
  tf_err :: u32
  tf_eip :: u32
  tf_cs :: u16
  tf_eflags :: u32
  tf_esp :: u32
  tf_ss :: u16

definition tf_zero :: trapframe where
  "tf_zero = \<lparr>tf_edi = 0, tf_esi = 0, tf_ebp = 0, tf_oesp = 0, tf_ebx = 0, tf_edx = 0, tf_ecx = 0, tf_eax = 0,
     tf_gs = 0, tf_fs = 0, tf_es = 0, tf_ds = 0, tf_trapno = 0, tf_err = 0, tf_eip = 0, tf_cs = 0,
     tf_eflags = 0, tf_esp = 0, tf_ss = 0\<rparr>"

record ctxt =
  ctx_edi :: u32
  ctx_esi :: u32
  ctx_ebx :: u32
  ctx_ebp :: u32
  ctx_eip :: u32

text \<open>The trap frame, the return address to \<open>trapret\<close> and the context live on the kernel stack; the
  fields ending in \<open>_va\<close> are their addresses.\<close>

record proc =
  sz :: u32
  pgdir :: u32
  kstack :: u32
  state :: procstate
  pid :: int
  parent :: "nat option"
  tf_va :: u32
  tf :: trapframe
  ret_addr :: u32
  context_va :: u32
  ctx :: ctxt
  chan :: channel
  killed :: bool
  ofile :: "nat option list"
  cwd :: "nat option"
  name :: string
  priority :: int
  budget :: int
  original_priority :: int
  tickets :: int
  inuse :: int
  pticks :: int

text \<open>The services of the other components, on their state \<open>'k\<close>.\<close>

record 'k svc =
  kalloc_op :: "'k \<Rightarrow> (u32 \<times> 'k) res"
  kfree_op :: "u32 \<Rightarrow> 'k \<Rightarrow> 'k res"
  setupkvm_op :: "'k \<Rightarrow> (u32 \<times> 'k) res"
  inituvm_op :: "u32 \<Rightarrow> 'k \<Rightarrow> 'k res"
  allocuvm_op :: "u32 \<Rightarrow> u32 \<Rightarrow> u32 \<Rightarrow> 'k \<Rightarrow> (u32 \<times> 'k) res"
  deallocuvm_op :: "u32 \<Rightarrow> u32 \<Rightarrow> u32 \<Rightarrow> 'k \<Rightarrow> (u32 \<times> 'k) res"
  copyuvm_op :: "u32 \<Rightarrow> u32 \<Rightarrow> 'k \<Rightarrow> (u32 \<times> 'k) res"
  freevm_op :: "u32 \<Rightarrow> 'k \<Rightarrow> 'k res"
  switchuvm_op :: "proc \<Rightarrow> 'k \<Rightarrow> 'k res"
  switchkvm_op :: "'k \<Rightarrow> 'k"
  filedup_op :: "nat \<Rightarrow> 'k \<Rightarrow> 'k res"
  fileclose_op :: "nat \<Rightarrow> 'k \<Rightarrow> 'k res"
  idup_op :: "nat option \<Rightarrow> 'k \<Rightarrow> nat option \<times> 'k"
  iput_op :: "nat option \<Rightarrow> 'k \<Rightarrow> 'k res"
  namei_root_op :: "'k \<Rightarrow> nat option \<times> 'k"
  begin_op_op :: "'k \<Rightarrow> 'k res"
  end_op_op :: "'k \<Rightarrow> 'k res"
  iinit_op :: "'k \<Rightarrow> 'k res"
  initlog_op :: "'k \<Rightarrow> 'k res"
  trapret_addr :: u32
  forkret_addr :: u32

record 'k ptable =
  pt_lock :: bool
  procs :: "proc list"
  initproc :: "nat option"
  nextpid :: int
  cpu :: cpu_st
  curproc :: "nat option"
  olocks :: "nat \<Rightarrow> bool"
  ticks :: u32
  forkret_first :: bool
  kst :: 'k

text \<open>A lock passed to \<open>sleep\<close>: the null pointer, \<open>ptable.lock\<close>, or another lock.\<close>

datatype lockref = NullLock | PtableLock | OtherLock nat

definition getp :: "('k, 'm) ptable_scheme \<Rightarrow> nat \<Rightarrow> proc" where
  "getp s p = procs s ! p"

definition setp :: "nat \<Rightarrow> (proc \<Rightarrow> proc) \<Rightarrow> ('k, 'm) ptable_scheme \<Rightarrow> ('k, 'm) ptable_scheme" where
  "setp p f s = s\<lparr>procs := (procs s)[p := f (procs s ! p)]\<rparr>"

definition chan_of :: "nat option \<Rightarrow> channel" where
  "chan_of p = (case p of None \<Rightarrow> NoChan | Some q \<Rightarrow> ProcChan q)"

subsection \<open>Locks\<close>

definition pt_acquire :: "('k, 'm) ptable_scheme \<Rightarrow> ('k, 'm) ptable_scheme res" where
  "pt_acquire s =
     rbind (lk_acquire (pt_lock s)) (\<lambda>b. Inr (s\<lparr>pt_lock := b, cpu := push_cpu (cpu s)\<rparr>))"

definition cpu_pop :: "cpu_st \<Rightarrow> cpu_st res" where
  "cpu_pop u = (if IF u then Inl ''popcli - interruptible'' else if ncli u < 1 then Inl ''popcli'' else Inr (pop_cpu u))"

definition pt_release :: "('k, 'm) ptable_scheme \<Rightarrow> ('k, 'm) ptable_scheme res" where
  "pt_release s =
     rbind (lk_release (pt_lock s)) (\<lambda>b.
     rbind (cpu_pop (cpu s)) (\<lambda>u. Inr (s\<lparr>pt_lock := b, cpu := u\<rparr>)))"

definition lock_acquire :: "nat \<Rightarrow> ('k, 'm) ptable_scheme \<Rightarrow> ('k, 'm) ptable_scheme res" where
  "lock_acquire l s =
     rbind (lk_acquire (olocks s l)) (\<lambda>b.
     Inr (s\<lparr>olocks := (olocks s)(l := b), cpu := push_cpu (cpu s)\<rparr>))"

definition lock_release :: "nat \<Rightarrow> ('k, 'm) ptable_scheme \<Rightarrow> ('k, 'm) ptable_scheme res" where
  "lock_release l s =
     rbind (lk_release (olocks s l)) (\<lambda>b.
     rbind (cpu_pop (cpu s)) (\<lambda>u. Inr (s\<lparr>olocks := (olocks s)(l := b), cpu := u\<rparr>)))"

definition with_k :: "('k \<Rightarrow> 'k res) \<Rightarrow> ('k, 'm) ptable_scheme \<Rightarrow> ('k, 'm) ptable_scheme res" where
  "with_k f s = rbind (f (kst s)) (\<lambda>k. Inr (s\<lparr>kst := k\<rparr>))"

subsection \<open>Creating processes\<close>

definition pinit :: "('k, 'm) ptable_scheme \<Rightarrow> ('k, 'm) ptable_scheme" where
  "pinit s = s\<lparr>pt_lock := False\<rparr>"

definition setup_stack :: "'k svc \<Rightarrow> u32 \<Rightarrow> proc \<Rightarrow> proc" where
  "setup_stack svc k p =
     (let sp1 = k + KSTACKSIZE - 76; sp2 = sp1 - 4; sp3 = sp2 - 20
      in p\<lparr>tf_va := sp1, ret_addr := trapret_addr svc, context_va := sp3,
           ctx := \<lparr>ctx_edi = 0, ctx_esi = 0, ctx_ebx = 0, ctx_ebp = 0, ctx_eip = forkret_addr svc\<rparr>\<rparr>)"

text \<open>\<open>nextpid\<close> is a C \<open>int\<close>: incrementing its largest value is undefined, and an error value here.\<close>

abbreviation INT_MAX :: int where
  "INT_MAX \<equiv> 2147483647"

definition allocproc ::
  "'k svc \<Rightarrow> ('k, 'm) ptable_scheme \<Rightarrow> (nat option \<times> ('k, 'm) ptable_scheme) res" where
  "allocproc svc s0 =
     rbind (pt_acquire s0) (\<lambda>s1.
     case find_idx (\<lambda>p. state p = UNUSED) (procs s1) of
       None \<Rightarrow> rbind (pt_release s1) (\<lambda>s2. Inr (None, s2))
     | Some p \<Rightarrow>
         if nextpid s1 = INT_MAX then Inl ''integer overflow'' else
         (let s2 = (setp p (\<lambda>x. x\<lparr>state := EMBRYO, pid := nextpid s1\<rparr>) s1)\<lparr>nextpid := nextpid s1 + 1\<rparr>
          in rbind (pt_release s2) (\<lambda>s3.
             rbind (kalloc_op svc (kst s3)) (\<lambda>(k, ks).
             let s4 = setp p (\<lambda>x. x\<lparr>kstack := k\<rparr>) (s3\<lparr>kst := ks\<rparr>)
             in if k = 0 then Inr (None, setp p (\<lambda>x. x\<lparr>state := UNUSED\<rparr>) s4)
                else Inr (Some p, setp p (setup_stack svc k) s4)))))"

definition userinit :: "'k svc \<Rightarrow> ('k, 'm) ptable_scheme \<Rightarrow> ('k, 'm) ptable_scheme res" where
  "userinit svc s0 =
     rbind (allocproc svc s0) (\<lambda>(np, s1).
     let s2 = s1\<lparr>initproc := np\<rparr>
     in case np of None \<Rightarrow> Inl ''null pointer''
     | Some p \<Rightarrow>
         rbind (setupkvm_op svc (kst s2)) (\<lambda>(pd, ks).
         let s3 = setp p (\<lambda>x. x\<lparr>pgdir := pd\<rparr>) (s2\<lparr>kst := ks\<rparr>)
         in if pd = 0 then Inl ''userinit: out of memory?''
            else rbind (with_k (inituvm_op svc pd) s3) (\<lambda>s4.
              let s5 = setp p (\<lambda>x. x\<lparr>sz := 4096, tf := tf_zero\<lparr>tf_cs := 27, tf_ds := 35, tf_es := 35, tf_ss := 35,
                                  tf_eflags := 0x200, tf_esp := 4096, tf_eip := 0\<rparr>, name := ''initcode''\<rparr>) s4;
                  (d, ks2) = namei_root_op svc (kst s5);
                  s6 = setp p (\<lambda>x. x\<lparr>cwd := d\<rparr>) (s5\<lparr>kst := ks2\<rparr>)
              in rbind (pt_acquire s6) (\<lambda>s7. pt_release (setp p (\<lambda>x. x\<lparr>state := RUNNABLE\<rparr>) s7)))))"

definition growproc :: "'k svc \<Rightarrow> int \<Rightarrow> ('k, 'm) ptable_scheme \<Rightarrow> (int \<times> ('k, 'm) ptable_scheme) res" where
  "growproc svc n s =
     (case curproc s of None \<Rightarrow> Inl ''null pointer''
      | Some cp \<Rightarrow>
          (let old = sz (getp s cp); pd = pgdir (getp s cp);
               fin = (\<lambda>newsz s1.
                 let s2 = setp cp (\<lambda>x. x\<lparr>sz := newsz\<rparr>) s1
                 in rbind (with_k (switchuvm_op svc (getp s2 cp)) s2) (\<lambda>s3. Inr (0, s3)))
           in if 0 < n
              then rbind (allocuvm_op svc pd old (old + word_of_int n) (kst s)) (\<lambda>(r, ks).
                     if r = 0 then Inr (-1, s\<lparr>kst := ks\<rparr>) else fin r (s\<lparr>kst := ks\<rparr>))
              else if n < 0
              then rbind (deallocuvm_op svc pd old (old + word_of_int n) (kst s)) (\<lambda>(r, ks).
                     if r = 0 then Inr (-1, s\<lparr>kst := ks\<rparr>) else fin r (s\<lparr>kst := ks\<rparr>))
              else fin old s))"

fun dup_files :: "'k svc \<Rightarrow> nat \<Rightarrow> nat \<Rightarrow> nat list \<Rightarrow> ('k, 'm) ptable_scheme \<Rightarrow> ('k, 'm) ptable_scheme res" where
  "dup_files svc cp np [] s = Inr s"
| "dup_files svc cp np (i # is) s =
     (case ofile (getp s cp) ! i of
        None \<Rightarrow> dup_files svc cp np is s
      | Some f \<Rightarrow> rbind (with_k (filedup_op svc f) s) (\<lambda>s1.
          dup_files svc cp np is (setp np (\<lambda>x. x\<lparr>ofile := (ofile x)[i := Some f]\<rparr>) s1)))"

text \<open>\<open>fork\<close> up to the point where the child is made runnable: the new process, or \<open>None\<close> when
  \<open>fork\<close> returns -1.\<close>

definition fork_child ::
  "'k svc \<Rightarrow> ('k, 'm) ptable_scheme \<Rightarrow> (nat option \<times> ('k, 'm) ptable_scheme) res" where
  "fork_child svc s0 =
     (case curproc s0 of None \<Rightarrow> Inl ''null pointer''
      | Some cp \<Rightarrow>
          rbind (allocproc svc s0) (\<lambda>(r, s1).
          case r of None \<Rightarrow> Inr (None, s1)
          | Some np \<Rightarrow>
              rbind (copyuvm_op svc (pgdir (getp s1 cp)) (sz (getp s1 cp)) (kst s1)) (\<lambda>(pd, ks).
              let s2 = setp np (\<lambda>x. x\<lparr>pgdir := pd\<rparr>) (s1\<lparr>kst := ks\<rparr>)
              in if pd = 0
                 then rbind (with_k (kfree_op svc (kstack (getp s2 np))) s2) (\<lambda>s3.
                        Inr (None, setp np (\<lambda>x. x\<lparr>kstack := 0, state := UNUSED\<rparr>) s3))
                 else let s3 = setp np (\<lambda>x. x\<lparr>sz := sz (getp s2 cp), parent := Some cp,
                                     tf := (tf (getp s2 cp))\<lparr>tf_eax := 0\<rparr>\<rparr>) s2
                      in rbind (dup_files svc cp np [0..<NOFILE] s3) (\<lambda>s4.
                         let (d, ks2) = idup_op svc (cwd (getp s4 cp)) (kst s4)
                         in Inr (Some np, setp np (\<lambda>x. x\<lparr>cwd := d, name := name (getp s4 cp)\<rparr>)
                              (s4\<lparr>kst := ks2\<rparr>))))))"

definition fork :: "'k svc \<Rightarrow> ('k, 'm) ptable_scheme \<Rightarrow> (int \<times> ('k, 'm) ptable_scheme) res" where
  "fork svc s0 =
     rbind (fork_child svc s0) (\<lambda>(r, s1).
     case r of None \<Rightarrow> Inr (-1, s1)
     | Some np \<Rightarrow>
         let pd = pid (getp s1 np)
         in rbind (pt_acquire s1) (\<lambda>s2.
            rbind (pt_release (setp np (\<lambda>x. x\<lparr>state := RUNNABLE\<rparr>) s2)) (\<lambda>s3. Inr (pd, s3))))"

subsection \<open>Sleeping, waking and switching\<close>

fun wakeup1_loop :: "channel \<Rightarrow> nat list \<Rightarrow> ('k, 'm) ptable_scheme \<Rightarrow> ('k, 'm) ptable_scheme" where
  "wakeup1_loop ch [] s = s"
| "wakeup1_loop ch (p # ps) s =
     wakeup1_loop ch ps
       (if state (getp s p) = SLEEPING \<and> chan (getp s p) = ch
        then setp p (\<lambda>x. x\<lparr>state := RUNNABLE\<rparr>) s else s)"

definition wakeup1 :: "channel \<Rightarrow> ('k, 'm) ptable_scheme \<Rightarrow> ('k, 'm) ptable_scheme res" where
  "wakeup1 ch s = Inr (wakeup1_loop ch [0..<NPROC] s)"

text \<open>\<open>wk\<close> is the \<open>wakeup1\<close> of the scheduler variant.\<close>

definition wakeup_with ::
  "(channel \<Rightarrow> ('k, 'm) ptable_scheme \<Rightarrow> ('k, 'm) ptable_scheme res) \<Rightarrow> channel \<Rightarrow>
     ('k, 'm) ptable_scheme \<Rightarrow> ('k, 'm) ptable_scheme res" where
  "wakeup_with wk ch s = rbind (pt_acquire s) (\<lambda>s1. rbind (wk ch s1) pt_release)"

definition sched :: "('k, 'm) ptable_scheme \<Rightarrow> ('k, 'm) ptable_scheme res" where
  "sched s =
     (case curproc s of None \<Rightarrow> Inl ''null pointer''
      | Some p \<Rightarrow>
          if \<not> pt_lock s then Inl ''sched ptable.lock''
          else if ncli (cpu s) \<noteq> 1 then Inl ''sched locks''
          else if state (getp s p) = RUNNING then Inl ''sched running''
          else if IF (cpu s) then Inl ''sched interruptible''
          else Inr s)"

text \<open>Back from the switch, \<open>sched\<close> restores the flag it saved.\<close>

definition sched_resume :: "bool \<Rightarrow> ('k, 'm) ptable_scheme \<Rightarrow> ('k, 'm) ptable_scheme" where
  "sched_resume saved s = s\<lparr>cpu := (cpu s)\<lparr>intena := saved\<rparr>\<rparr>"

definition yield :: "('k, 'm) ptable_scheme \<Rightarrow> ('k, 'm) ptable_scheme res" where
  "yield s =
     rbind (pt_acquire s) (\<lambda>s1.
     case curproc s1 of None \<Rightarrow> Inl ''null pointer''
     | Some p \<Rightarrow> sched (setp p (\<lambda>x. x\<lparr>state := RUNNABLE\<rparr>) s1))"

definition yield_resume :: "bool \<Rightarrow> ('k, 'm) ptable_scheme \<Rightarrow> ('k, 'm) ptable_scheme res" where
  "yield_resume saved s = pt_release (sched_resume saved s)"

definition forkret :: "'k svc \<Rightarrow> ('k, 'm) ptable_scheme \<Rightarrow> ('k, 'm) ptable_scheme res" where
  "forkret svc s =
     rbind (pt_release s) (\<lambda>s1.
     if forkret_first s1
     then rbind (with_k (iinit_op svc) (s1\<lparr>forkret_first := False\<rparr>)) (with_k (initlog_op svc))
     else Inr s1)"

definition sleep :: "channel \<Rightarrow> lockref \<Rightarrow> ('k, 'm) ptable_scheme \<Rightarrow> ('k, 'm) ptable_scheme res" where
  "sleep ch lk s =
     (case curproc s of None \<Rightarrow> Inl ''sleep''
      | Some p \<Rightarrow>
          (if lk = NullLock then Inl ''sleep without lk''
           else rbind (case lk of OtherLock l \<Rightarrow> rbind (pt_acquire s) (lock_release l) | _ \<Rightarrow> Inr s) (\<lambda>s1.
                sched (setp p (\<lambda>x. x\<lparr>chan := ch, state := SLEEPING\<rparr>) s1))))"

definition sleep_resume :: "bool \<Rightarrow> lockref \<Rightarrow> ('k, 'm) ptable_scheme \<Rightarrow> ('k, 'm) ptable_scheme res" where
  "sleep_resume saved lk s =
     (let s1 = sched_resume saved s
      in case curproc s1 of None \<Rightarrow> Inl ''null pointer''
         | Some p \<Rightarrow>
             (let s2 = setp p (\<lambda>x. x\<lparr>chan := NoChan\<rparr>) s1
              in case lk of OtherLock l \<Rightarrow> rbind (pt_release s2) (lock_acquire l) | _ \<Rightarrow> Inr s2))"

subsection \<open>Exit, wait and kill\<close>

fun close_files :: "'k svc \<Rightarrow> nat \<Rightarrow> nat list \<Rightarrow> ('k, 'm) ptable_scheme \<Rightarrow> ('k, 'm) ptable_scheme res" where
  "close_files svc cp [] s = Inr s"
| "close_files svc cp (i # is) s =
     (case ofile (getp s cp) ! i of
        None \<Rightarrow> close_files svc cp is s
      | Some f \<Rightarrow> rbind (with_k (fileclose_op svc f) s) (\<lambda>s1.
          close_files svc cp is (setp cp (\<lambda>x. x\<lparr>ofile := (ofile x)[i := None]\<rparr>) s1)))"

fun reparent ::
  "(channel \<Rightarrow> ('k, 'm) ptable_scheme \<Rightarrow> ('k, 'm) ptable_scheme res) \<Rightarrow> nat \<Rightarrow> nat list \<Rightarrow>
     ('k, 'm) ptable_scheme \<Rightarrow> ('k, 'm) ptable_scheme res" where
  "reparent wk cp [] s = Inr s"
| "reparent wk cp (p # ps) s =
     (if parent (getp s p) = Some cp
      then let s1 = setp p (\<lambda>x. x\<lparr>parent := initproc s\<rparr>) s
           in rbind (if state (getp s1 p) = ZOMBIE then wk (chan_of (initproc s1)) s1 else Inr s1)
                (reparent wk cp ps)
      else reparent wk cp ps s)"

definition exit_with ::
  "(channel \<Rightarrow> ('k, 'm) ptable_scheme \<Rightarrow> ('k, 'm) ptable_scheme res) \<Rightarrow> 'k svc \<Rightarrow>
     ('k, 'm) ptable_scheme \<Rightarrow> ('k, 'm) ptable_scheme res" where
  "exit_with wk svc s0 =
     (case curproc s0 of None \<Rightarrow> Inl ''null pointer''
      | Some cp \<Rightarrow>
          if Some cp = initproc s0 then Inl ''init exiting''
          else rbind (close_files svc cp [0..<NOFILE] s0) (\<lambda>s1.
               rbind (with_k (begin_op_op svc) s1) (\<lambda>s2.
               rbind (with_k (iput_op svc (cwd (getp s2 cp))) s2) (\<lambda>s3.
               rbind (with_k (end_op_op svc) s3) (\<lambda>s4.
               rbind (pt_acquire (setp cp (\<lambda>x. x\<lparr>cwd := None\<rparr>) s4)) (\<lambda>s5.
               rbind (wk (chan_of (parent (getp s5 cp))) s5) (\<lambda>s6.
               rbind (reparent wk cp [0..<NPROC] s6) (\<lambda>s7.
               sched (setp cp (\<lambda>x. x\<lparr>state := ZOMBIE\<rparr>) s7)))))))))"

text \<open>One pass of the loop of \<open>wait\<close>, with the lock held: a return value, or \<open>None\<close> when the process
  goes to sleep on itself.\<close>

definition wait_pass :: "'k svc \<Rightarrow> ('k, 'm) ptable_scheme \<Rightarrow> (int option \<times> ('k, 'm) ptable_scheme) res" where
  "wait_pass svc s =
     (case curproc s of None \<Rightarrow> Inl ''null pointer''
      | Some cp \<Rightarrow>
          (case find_idx (\<lambda>p. parent p = Some cp \<and> state p = ZOMBIE) (procs s) of
             Some p \<Rightarrow>
               (let pd = pid (getp s p)
                in rbind (with_k (kfree_op svc (kstack (getp s p))) s) (\<lambda>s1.
                   let s2 = setp p (\<lambda>x. x\<lparr>kstack := 0\<rparr>) s1
                   in rbind (with_k (freevm_op svc (pgdir (getp s2 p))) s2) (\<lambda>s3.
                      rbind (pt_release (setp p (\<lambda>x. x\<lparr>pid := 0, parent := None, name := [], killed := False,
                                state := UNUSED\<rparr>) s3)) (\<lambda>s4. Inr (Some pd, s4)))))
           | None \<Rightarrow>
               if find_idx (\<lambda>p. parent p = Some cp) (procs s) = None \<or> killed (getp s cp)
               then rbind (pt_release s) (\<lambda>s1. Inr (Some (-1), s1))
               else rbind (sleep (ProcChan cp) PtableLock s) (\<lambda>s1. Inr (None, s1))))"

definition wait :: "'k svc \<Rightarrow> ('k, 'm) ptable_scheme \<Rightarrow> (int option \<times> ('k, 'm) ptable_scheme) res" where
  "wait svc s = rbind (pt_acquire s) (wait_pass svc)"

definition wait_resume ::
  "'k svc \<Rightarrow> bool \<Rightarrow> ('k, 'm) ptable_scheme \<Rightarrow> (int option \<times> ('k, 'm) ptable_scheme) res" where
  "wait_resume svc saved s = rbind (sleep_resume saved PtableLock s) (wait_pass svc)"

definition kill :: "int \<Rightarrow> ('k, 'm) ptable_scheme \<Rightarrow> (int \<times> ('k, 'm) ptable_scheme) res" where
  "kill pd s =
     rbind (pt_acquire s) (\<lambda>s1.
     case find_idx (\<lambda>p. pid p = pd) (procs s1) of
       Some p \<Rightarrow>
         (let s2 = setp p (\<lambda>x. x\<lparr>killed := True\<rparr>) s1;
              s3 = (if state (getp s2 p) = SLEEPING then setp p (\<lambda>x. x\<lparr>state := RUNNABLE\<rparr>) s2 else s2)
          in rbind (pt_release s3) (\<lambda>s4. Inr (0, s4)))
     | None \<Rightarrow> rbind (pt_release s1) (\<lambda>s2. Inr (-1, s2)))"

subsection \<open>The round-robin scheduler\<close>

text \<open>The switch to a chosen process and back, as all the schedulers do it.\<close>

definition switch_to ::
  "(nat \<Rightarrow> ('k, 'm) ptable_scheme \<Rightarrow> ('k, 'm) ptable_scheme) \<Rightarrow> 'k svc \<Rightarrow> nat \<Rightarrow>
     ('k, 'm) ptable_scheme \<Rightarrow> ('k, 'm) ptable_scheme res" where
  "switch_to run svc p s =
     (let s1 = s\<lparr>curproc := Some p\<rparr>
      in rbind (with_k (switchuvm_op svc (getp s1 p)) s1) (\<lambda>s2.
         let s3 = run p (setp p (\<lambda>x. x\<lparr>state := RUNNING\<rparr>) s2)
         in Inr (s3\<lparr>kst := switchkvm_op svc (kst s3)\<rparr>)))"

fun round_robin ::
  "(nat \<Rightarrow> ('k, 'm) ptable_scheme \<Rightarrow> ('k, 'm) ptable_scheme) \<Rightarrow> 'k svc \<Rightarrow> nat list \<Rightarrow>
     ('k, 'm) ptable_scheme \<Rightarrow> ('k, 'm) ptable_scheme res" where
  "round_robin run svc [] s = Inr s"
| "round_robin run svc (p # ps) s =
     (if state (getp s p) \<noteq> RUNNABLE then round_robin run svc ps s
      else rbind (switch_to run svc p s) (\<lambda>s1. round_robin run svc ps (s1\<lparr>curproc := None\<rparr>)))"

definition scheduler ::
  "(nat \<Rightarrow> ('k, 'm) ptable_scheme \<Rightarrow> ('k, 'm) ptable_scheme) \<Rightarrow> 'k svc \<Rightarrow>
     ('k, 'm) ptable_scheme \<Rightarrow> ('k, 'm) ptable_scheme res" where
  "scheduler run svc s =
     rbind (pt_acquire (s\<lparr>cpu := (cpu s)\<lparr>IF := True\<rparr>\<rparr>)) (\<lambda>s1.
     rbind (round_robin run svc [0..<NPROC] s1) pt_release)"

subsection \<open>Priorities, tickets and process information\<close>

definition setpriority :: "int \<Rightarrow> int \<Rightarrow> ('k, 'm) ptable_scheme \<Rightarrow> int \<times> ('k, 'm) ptable_scheme" where
  "setpriority pd pr s =
     (if pr < 0 \<or> MAXPRIORITY < pr then (-1, s)
      else case find_idx (\<lambda>p. pid p = pd) (procs s) of
             None \<Rightarrow> (-1, s)
           | Some p \<Rightarrow> (0, setp p (\<lambda>x. x\<lparr>priority := pr, budget := DEFAULT_BUDGET\<rparr>) s))"

definition getpriority :: "int \<Rightarrow> ('k, 'm) ptable_scheme \<Rightarrow> int" where
  "getpriority pd s =
     (case find_idx (\<lambda>p. pid p = pd) (procs s) of
        None \<Rightarrow> -1
      | Some p \<Rightarrow> if state (getp s p) = UNUSED then -1 else priority (getp s p))"

definition settickets :: "int \<Rightarrow> ('k, 'm) ptable_scheme \<Rightarrow> (int \<times> ('k, 'm) ptable_scheme) res" where
  "settickets n s =
     (if n < 0 then Inr (-1, s)
      else rbind (pt_acquire s) (\<lambda>s1.
           case curproc s1 of None \<Rightarrow> Inl ''null pointer''
           | Some p \<Rightarrow> rbind (pt_release (setp p (\<lambda>x. x\<lparr>tickets := n\<rparr>) s1)) (\<lambda>s2. Inr (0, s2))))"

record pstat =
  st_inuse :: "int list"
  st_tickets :: "int list"
  st_pid :: "int list"
  st_ticks :: "int list"

fun getpinfo_loop :: "proc list \<Rightarrow> nat \<Rightarrow> pstat \<Rightarrow> pstat" where
  "getpinfo_loop [] i ps = ps"
| "getpinfo_loop (p # rest) i ps =
     (if state p \<noteq> UNUSED
      then getpinfo_loop rest (i + 1)
             \<lparr>st_inuse = (st_inuse ps)[i := inuse p], st_tickets = (st_tickets ps)[i := tickets p],
              st_pid = (st_pid ps)[i := pid p], st_ticks = (st_ticks ps)[i := pticks p]\<rparr>
      else getpinfo_loop rest i ps)"

text \<open>The argument is the user's \<open>struct pstat\<close>, or \<open>None\<close> for a null pointer.\<close>

definition getpinfo ::
  "pstat option \<Rightarrow> ('k, 'm) ptable_scheme \<Rightarrow> (int \<times> pstat option \<times> ('k, 'm) ptable_scheme) res" where
  "getpinfo ps s =
     rbind (pt_acquire s) (\<lambda>s1.
     case ps of None \<Rightarrow> Inr (-1, None, s1)
     | Some q \<Rightarrow> rbind (pt_release s1) (\<lambda>s2. Inr (0, Some (getpinfo_loop (procs s1) 0 q), s2)))"

end
