(* ===== verification/XvProcInv.thy ===== *)
theory XvProcInv
  imports XvProc
begin

text \<open>
  The invariant of the process table and its preservation by every operation of
  \<^verbatim>\<open>lab-2/proc_original.c\<close>, over all interleavings of processes and scheduler.  The invariant only
  reads the state, pid and parent of each slot (its key), so that operations which leave the keys
  alone preserve it by congruence.
\<close>

subsection \<open>The invariant\<close>

definition key :: "proc \<Rightarrow> procstate \<times> int \<times> nat option" where
  "key p = (state p, pid p, parent p)"

definition same_keys :: "('k, 'm) ptable_scheme \<Rightarrow> ('k, 'm) ptable_scheme \<Rightarrow> bool" where
  "same_keys s t \<longleftrightarrow> map key (procs s) = map key (procs t) \<and> nextpid s = nextpid t \<and>
     initproc s = initproc t \<and> curproc s = curproc t"

definition alive :: "procstate \<Rightarrow> bool" where
  "alive st \<longleftrightarrow> st \<noteq> UNUSED \<and> st \<noteq> ZOMBIE"

text \<open>Pids: below \<open>nextpid\<close>, which is a C \<open>int\<close>, positive for used slots, and different where not zero.\<close>

definition pids_ok :: "('k, 'm) ptable_scheme \<Rightarrow> bool" where
  "pids_ok s \<longleftrightarrow> 0 < nextpid s \<and> nextpid s \<le> INT_MAX \<and>
     (\<forall>p<NPROC. 0 \<le> pid (getp s p) \<and> pid (getp s p) < nextpid s) \<and>
     (\<forall>p<NPROC. state (getp s p) \<noteq> UNUSED \<longrightarrow> 0 < pid (getp s p)) \<and>
     (\<forall>p<NPROC. \<forall>q<NPROC. p \<noteq> q \<longrightarrow> pid (getp s p) = pid (getp s q) \<longrightarrow> pid (getp s p) = 0)"

text \<open>Parents are live processes, free slots have none, and the first process lives.\<close>

definition parents_ok :: "('k, 'm) ptable_scheme \<Rightarrow> bool" where
  "parents_ok s \<longleftrightarrow>
     (\<forall>p<NPROC. state (getp s p) = UNUSED \<longrightarrow> parent (getp s p) = None) \<and>
     (\<forall>p<NPROC. \<forall>q. parent (getp s p) = Some q \<longrightarrow> q < NPROC \<and> alive (state (getp s q))) \<and>
     (\<exists>i<NPROC. initproc s = Some i \<and> alive (state (getp s i)))"

text \<open>The running process is the current one.\<close>

definition running_ok :: "('k, 'm) ptable_scheme \<Rightarrow> bool" where
  "running_ok s \<longleftrightarrow> (\<forall>p<NPROC. state (getp s p) = RUNNING \<longleftrightarrow> curproc s = Some p) \<and>
     (\<forall>p. curproc s = Some p \<longrightarrow> p < NPROC)"

definition table_ok :: "('k, 'm) ptable_scheme \<Rightarrow> bool" where
  "table_ok s \<longleftrightarrow> length (procs s) = NPROC \<and> pids_ok s \<and> parents_ok s \<and> running_ok s"

lemma same_keys_sym: "same_keys s t \<Longrightarrow> same_keys t s"
  by (simp add: same_keys_def)

lemma same_keys_trans: "same_keys s t \<Longrightarrow> same_keys t u \<Longrightarrow> same_keys s u"
  by (simp add: same_keys_def)

lemma same_keysD:
  assumes "same_keys s t"
  shows "length (procs s) = length (procs t)" "nextpid s = nextpid t" "initproc s = initproc t"
    "curproc s = curproc t"
    "p < length (procs s) \<Longrightarrow> state (getp s p) = state (getp t p) \<and> pid (getp s p) = pid (getp t p) \<and>
       parent (getp s p) = parent (getp t p)"
proof -
  show len: "length (procs s) = length (procs t)" using assms map_eq_imp_length_eq by (auto simp: same_keys_def)
  show "nextpid s = nextpid t" "initproc s = initproc t" "curproc s = curproc t"
    using assms by (auto simp: same_keys_def)
  assume p: "p < length (procs s)"
  have "map key (procs s) ! p = map key (procs t) ! p" using assms by (simp add: same_keys_def)
  then show "state (getp s p) = state (getp t p) \<and> pid (getp s p) = pid (getp t p) \<and>
       parent (getp s p) = parent (getp t p)"
    using p len by (simp add: key_def getp_def)
qed

lemma table_ok_same_keys:
  assumes "same_keys s t" and "table_ok s"
  shows "table_ok t"
proof -
  note k = same_keysD [OF assms(1)]
  have len: "length (procs s) = NPROC" using assms(2) by (simp add: table_ok_def)
  have eq: "state (getp t p) = state (getp s p)" "pid (getp t p) = pid (getp s p)"
    "parent (getp t p) = parent (getp s p)" if "p < NPROC" for p
    using k(5) [of p] that len by auto
  have "pids_ok t" using assms(2) k(2) by (simp add: table_ok_def pids_ok_def eq)
  moreover have "parents_ok t"
    unfolding parents_ok_def
  proof (intro conjI allI impI)
    have ok: "parents_ok s" using assms(2) by (simp add: table_ok_def)
    fix p q
    assume p: "p < NPROC"
    show "state (getp t p) = UNUSED \<Longrightarrow> parent (getp t p) = None" using ok p eq by (simp add: parents_ok_def)
    assume "parent (getp t p) = Some q"
    then have "q < NPROC \<and> alive (state (getp s q))" using ok p eq by (simp add: parents_ok_def)
    then show "q < NPROC" "alive (state (getp t q))" using eq by auto
  next
    show "\<exists>i<NPROC. initproc t = Some i \<and> alive (state (getp t i))"
      using assms(2) k(3) eq(1) by (auto simp: table_ok_def parents_ok_def)
  qed
  moreover have "running_ok t" using assms(2) k(4) by (simp add: table_ok_def running_ok_def eq)
  ultimately show ?thesis using len k(1) by (simp add: table_ok_def)
qed

subsection \<open>Operations that keep the keys\<close>

lemma getp_setp:
  "getp (setp p f s) q = (if p = q \<and> p < length (procs s) then f (getp s p) else getp s q)"
  by (auto simp: getp_def setp_def nth_list_update_if)

lemma setp_fields [simp]:
  "length (procs (setp p f s)) = length (procs s)" "nextpid (setp p f s) = nextpid s"
  "initproc (setp p f s) = initproc s" "curproc (setp p f s) = curproc s" "pt_lock (setp p f s) = pt_lock s"
  "cpu (setp p f s) = cpu s" "kst (setp p f s) = kst s"
  by (simp_all add: setp_def)

lemma map_key_setp:
  "map key (procs (setp p f s)) =
     (if p < length (procs s) then (map key (procs s))[p := key (f (getp s p))] else map key (procs s))"
  by (simp add: setp_def getp_def map_update list_update_beyond)

lemma same_keys_setp: "(\<And>x. key (f x) = key x) \<Longrightarrow> same_keys s (setp p f s)"
  by (simp add: same_keys_def map_key_setp getp_def)
     (metis length_map list_update_id map_update nth_map)

lemma same_keys_refl [simp]: "same_keys s s"
  by (simp add: same_keys_def)

lemma same_keys_pt_acquire: "pt_acquire s = Inr t \<Longrightarrow> same_keys s t"
  by (auto simp: pt_acquire_def res_simps same_keys_def)

lemma same_keys_pt_release: "pt_release s = Inr t \<Longrightarrow> same_keys s t"
  by (auto simp: pt_release_def res_simps same_keys_def)

lemma same_keys_lock: "lock_acquire l s = Inr t \<Longrightarrow> same_keys s t" "lock_release l s = Inr t \<Longrightarrow> same_keys s t"
  by (auto simp: lock_acquire_def lock_release_def res_simps same_keys_def)

lemma same_keys_with_k: "with_k f s = Inr t \<Longrightarrow> same_keys s t"
  by (auto simp: with_k_def res_simps same_keys_def)

lemma same_keys_kst [simp]: "same_keys s (s\<lparr>kst := k\<rparr>)" "same_keys s (sched_resume b s)"
  by (simp_all add: same_keys_def sched_resume_def)

lemma same_keys_close_files: "close_files svc cp is s = Inr t \<Longrightarrow> same_keys s t"
proof (induction svc cp "is" s rule: close_files.induct)
  case (2 svc cp i "is" s)
  show ?case
  proof (cases "ofile (getp s cp) ! i")
    case None
    then show ?thesis using 2 by simp
  next
    case (Some f)
    with 2(3) obtain s1 where s1: "with_k (fileclose_op svc f) s = Inr s1"
      and t: "close_files svc cp is (setp cp (\<lambda>x. x\<lparr>ofile := (ofile x)[i := None]\<rparr>) s1) = Inr t"
      by (auto simp: res_simps)
    have "same_keys s1 (setp cp (\<lambda>x. x\<lparr>ofile := (ofile x)[i := None]\<rparr>) s1)"
      by (rule same_keys_setp) (simp add: key_def)
    with 2(2) [OF Some t] same_keys_with_k [OF s1] show ?thesis by (blast intro: same_keys_trans)
  qed
qed simp

lemma same_keys_dup_files: "dup_files svc cp np is s = Inr t \<Longrightarrow> same_keys s t"
proof (induction svc cp np "is" s rule: dup_files.induct)
  case (2 svc cp np i "is" s)
  show ?case
  proof (cases "ofile (getp s cp) ! i")
    case None
    then show ?thesis using 2 by simp
  next
    case (Some f)
    with 2(3) obtain s1 where s1: "with_k (filedup_op svc f) s = Inr s1"
      and t: "dup_files svc cp np is (setp np (\<lambda>x. x\<lparr>ofile := (ofile x)[i := Some f]\<rparr>) s1) = Inr t"
      by (auto simp: res_simps)
    have "same_keys s1 (setp np (\<lambda>x. x\<lparr>ofile := (ofile x)[i := Some f]\<rparr>) s1)"
      by (rule same_keys_setp) (simp add: key_def)
    with 2(2) [OF Some t] same_keys_with_k [OF s1] show ?thesis by (blast intro: same_keys_trans)
  qed
qed simp

subsection \<open>Changing one key\<close>

lemma getp_upd [simp]:
  "getp (s\<lparr>curproc := c\<rparr>) q = getp s q" "getp (s\<lparr>nextpid := n\<rparr>) q = getp s q" "getp (s\<lparr>kst := k\<rparr>) q = getp s q"
  by (simp_all add: getp_def)

text \<open>Changing only the state of a used slot.\<close>

lemma pids_ok_state:
  "pids_ok s \<Longrightarrow> length (procs s) = NPROC \<Longrightarrow> state (getp s p) \<noteq> UNUSED \<Longrightarrow>
     pids_ok (setp p (\<lambda>x. x\<lparr>state := st\<rparr>) s)"
  unfolding pids_ok_def by (auto simp: getp_setp)

lemma pids_ok_curproc [simp]: "pids_ok (s\<lparr>curproc := c\<rparr>) = pids_ok s"
  by (simp add: pids_ok_def)

lemma parents_ok_curproc [simp]: "parents_ok (s\<lparr>curproc := c\<rparr>) = parents_ok s"
  by (simp add: parents_ok_def)

lemma parents_ok_state:
  assumes "parents_ok s" "length (procs s) = NPROC" "state (getp s p) \<noteq> UNUSED" "st \<noteq> UNUSED"
    and z: "alive st \<or> (\<forall>q<NPROC. parent (getp s q) \<noteq> Some p) \<and> initproc s \<noteq> Some p"
  shows "parents_ok (setp p (\<lambda>x. x\<lparr>state := st\<rparr>) s)"
proof -
  have par: "parent (getp (setp p (\<lambda>x. x\<lparr>state := st\<rparr>) s) q) = parent (getp s q)" for q
    by (simp add: getp_setp)
  have st: "q \<noteq> p \<Longrightarrow> state (getp (setp p (\<lambda>x. x\<lparr>state := st\<rparr>) s) q) = state (getp s q)" for q
    by (simp add: getp_setp)
  have stp: "p < NPROC \<Longrightarrow> state (getp (setp p (\<lambda>x. x\<lparr>state := st\<rparr>) s) p) = st"
    using assms(2) by (simp add: getp_setp)
  show ?thesis
    unfolding parents_ok_def par
  proof (intro conjI allI impI)
    fix q assume "q < NPROC"
    then show "state (getp (setp p (\<lambda>x. x\<lparr>state := st\<rparr>) s) q) = UNUSED \<Longrightarrow> parent (getp s q) = None"
      using assms(1,4) st [of q] stp by (cases "q = p") (auto simp: parents_ok_def)
  next
    fix q r assume q: "q < NPROC" "parent (getp s q) = Some r"
    then have r: "r < NPROC" "alive (state (getp s r))" using assms(1) by (auto simp: parents_ok_def)
    show "r < NPROC" by (rule r(1))
    show "alive (state (getp (setp p (\<lambda>x. x\<lparr>state := st\<rparr>) s) r))"
      using q r z st [of r] stp by (cases "r = p") auto
  next
    obtain i where i: "i < NPROC" "initproc s = Some i" "alive (state (getp s i))"
      using assms(1) by (auto simp: parents_ok_def)
    have "alive (state (getp (setp p (\<lambda>x. x\<lparr>state := st\<rparr>) s) i))"
      using i z st [of i] stp by (cases "i = p") auto
    then show "\<exists>i<NPROC. initproc (setp p (\<lambda>x. x\<lparr>state := st\<rparr>) s) = Some i \<and>
        alive (state (getp (setp p (\<lambda>x. x\<lparr>state := st\<rparr>) s) i))" using i by auto
  qed
qed

lemma running_ok_state:
  "running_ok s \<Longrightarrow> length (procs s) = NPROC \<Longrightarrow> state (getp s p) \<noteq> RUNNING \<Longrightarrow> st \<noteq> RUNNING \<Longrightarrow>
     running_ok (setp p (\<lambda>x. x\<lparr>state := st\<rparr>) s)"
  unfolding running_ok_def by (auto simp: getp_setp)

text \<open>A state change between live states that does not touch the running process.\<close>

lemma table_ok_state:
  assumes ok: "table_ok s" and old: "state (getp s p) \<noteq> UNUSED" "state (getp s p) \<noteq> RUNNING"
    and new: "alive st" "st \<noteq> RUNNING"
  shows "table_ok (setp p (\<lambda>x. x\<lparr>state := st\<rparr>) s)"
  using assms pids_ok_state [of s p st] parents_ok_state [of s p st] running_ok_state [of s p st]
  by (simp add: table_ok_def alive_def)

text \<open>The running process leaves the CPU.\<close>

lemma table_ok_switch_out:
  assumes ok: "table_ok s" and p: "curproc s = Some p" and new: "st \<noteq> RUNNING" "st \<noteq> UNUSED"
    and z: "alive st \<or> (\<forall>q<NPROC. parent (getp s q) \<noteq> Some p) \<and> initproc s \<noteq> Some p"
  shows "table_ok ((setp p (\<lambda>x. x\<lparr>state := st\<rparr>) s)\<lparr>curproc := None\<rparr>)"
proof -
  have p': "p < NPROC" "state (getp s p) = RUNNING" using ok p by (auto simp: table_ok_def running_ok_def)
  have "running_ok ((setp p (\<lambda>x. x\<lparr>state := st\<rparr>) s)\<lparr>curproc := None\<rparr>)"
    using ok p p' new by (auto simp: table_ok_def running_ok_def getp_setp)
  then show ?thesis
    using ok p' new z pids_ok_state [of s p st] parents_ok_state [of s p st] by (simp add: table_ok_def)
qed

text \<open>The scheduler puts a runnable process on the CPU.\<close>

lemma table_ok_switch_in:
  assumes ok: "table_ok s" and c: "curproc s = None" and p: "p < NPROC" "state (getp s p) = RUNNABLE"
  shows "table_ok ((setp p (\<lambda>x. x\<lparr>state := RUNNING\<rparr>) s)\<lparr>curproc := Some p\<rparr>)"
proof -
  have "running_ok ((setp p (\<lambda>x. x\<lparr>state := RUNNING\<rparr>) s)\<lparr>curproc := Some p\<rparr>)"
    using ok c p by (auto simp: table_ok_def running_ok_def getp_setp)
  then show ?thesis
    using ok p pids_ok_state [of s p RUNNING] parents_ok_state [of s p RUNNING]
    by (simp add: table_ok_def alive_def)
qed

text \<open>A free slot becomes a process with a fresh pid.\<close>

lemma table_ok_new:
  assumes ok: "table_ok s" and p: "p < NPROC" "state (getp s p) = UNUSED"
    and st: "st \<noteq> RUNNING" "alive st" and np: "nextpid s \<noteq> INT_MAX"
  shows "table_ok ((setp p (\<lambda>x. x\<lparr>state := st, pid := nextpid s\<rparr>) s)\<lparr>nextpid := nextpid s + 1\<rparr>)"
proof -
  define t where "t = (setp p (\<lambda>x. x\<lparr>state := st, pid := nextpid s\<rparr>) s)\<lparr>nextpid := nextpid s + 1\<rparr>"
  have t: "nextpid t = nextpid s + 1" "initproc t = initproc s" "curproc t = curproc s"
    "length (procs t) = length (procs s)" by (simp_all add: t_def)
  have len: "length (procs s) = NPROC" "0 < nextpid s" "nextpid s + 1 \<le> INT_MAX" using np ok by (auto simp: table_ok_def pids_ok_def)
  have lt: "q < NPROC \<Longrightarrow> pid (getp s q) < nextpid s" for q using ok by (simp add: table_ok_def pids_ok_def)
  have gp: "getp t q = (if q = p then (getp s p)\<lparr>state := st, pid := nextpid s\<rparr> else getp s q)" for q
    using len p by (simp add: t_def getp_setp)
  have ge: "0 \<le> pid (getp s q)" if "q < NPROC" for q using ok that by (simp add: table_ok_def pids_ok_def)
  have pids: "pids_ok s" and pars: "parents_ok s" using ok by (auto simp: table_ok_def)
  have "pids_ok t"
    unfolding pids_ok_def
  proof (intro conjI allI impI)
    fix q assume q: "q < NPROC"
    show "0 \<le> pid (getp t q)" "pid (getp t q) < nextpid t"
      using lt [OF q] ge [OF q] len by (auto simp: gp t)
    show "state (getp t q) \<noteq> UNUSED \<Longrightarrow> 0 < pid (getp t q)"
      using pids q len by (auto simp: gp pids_ok_def)
    fix r assume r: "r < NPROC" "q \<noteq> r" "pid (getp t q) = pid (getp t r)"
    have "q \<noteq> p" "r \<noteq> p" using r lt [OF q] lt [OF r(1)] by (auto simp: gp split: if_splits)
    then show "pid (getp t q) = 0" using pids q r by (simp add: gp pids_ok_def)
  qed (use len t in simp_all)
  moreover have "parents_ok t"
    unfolding parents_ok_def
  proof (intro conjI allI impI)
    fix q assume q: "q < NPROC"
    have "state (getp s q) = UNUSED \<Longrightarrow> parent (getp s q) = None" using pars q by (simp add: parents_ok_def)
    then show "state (getp t q) = UNUSED \<Longrightarrow> parent (getp t q) = None"
      using st by (cases "q = p") (simp_all add: gp alive_def)
    fix r assume "parent (getp t q) = Some r"
    then have "parent (getp s q) = Some r" by (simp add: gp split: if_splits)
    then have "r < NPROC \<and> alive (state (getp s r))" using pars q by (simp add: parents_ok_def)
    then show "r < NPROC" "alive (state (getp t r))" using st by (auto simp: gp)
  next
    show "\<exists>i<NPROC. initproc t = Some i \<and> alive (state (getp t i))"
      using pars st by (auto simp: parents_ok_def gp t)
  qed
  moreover have "running_ok t"
  proof -
    have "running_ok s" using ok by (simp add: table_ok_def)
    then have "curproc s \<noteq> Some p" using p by (auto simp: running_ok_def)
    with \<open>running_ok s\<close> show ?thesis using st by (auto simp: running_ok_def gp t)
  qed
  ultimately have "table_ok t" using len t by (simp add: table_ok_def)
  then show ?thesis by (simp add: t_def)
qed

definition nochild :: "('k, 'm) ptable_scheme \<Rightarrow> nat \<Rightarrow> bool" where
  "nochild s p \<longleftrightarrow> (\<forall>q<NPROC. parent (getp s q) \<noteq> Some p)"

lemma nochild_same_keys: "same_keys s t \<Longrightarrow> length (procs s) = NPROC \<Longrightarrow> nochild s p \<Longrightarrow> nochild t p"
  unfolding nochild_def using same_keysD(5) [of s t] by auto

lemma table_okD:
  assumes "table_ok s"
  shows "length (procs s) = NPROC"
    and "p < NPROC \<Longrightarrow> parent (getp s p) = Some q \<Longrightarrow> q < NPROC \<and> alive (state (getp s q))"
    and "\<exists>i<NPROC. initproc s = Some i \<and> alive (state (getp s i))"
    and "curproc s = Some p \<Longrightarrow> p < NPROC \<and> state (getp s p) = RUNNING"
    and "p < NPROC \<Longrightarrow> state (getp s p) = RUNNING \<Longrightarrow> curproc s = Some p"
    and "p < NPROC \<Longrightarrow> state (getp s p) = UNUSED \<Longrightarrow> parent (getp s p) = None"
  using assms by (auto simp: table_ok_def parents_ok_def running_ok_def)

lemma nochild_dead: "table_ok s \<Longrightarrow> \<not> alive (state (getp s p)) \<Longrightarrow> nochild s p"
  using table_okD(2) by (fastforce simp: nochild_def)

text \<open>A slot is given back, with its pid cleared or left as it is.\<close>

lemma table_ok_free:
  assumes ok: "table_ok s" and p: "p < NPROC" and nc: "nochild s p"
    and old: "state (getp s p) \<noteq> RUNNING" "initproc s \<noteq> Some p"
    and f: "state (f (getp s p)) = UNUSED" "parent (f (getp s p)) = None"
      "pid (f (getp s p)) = 0 \<or> pid (f (getp s p)) = pid (getp s p)"
  shows "table_ok (setp p f s)"
proof -
  define t where "t = setp p f s"
  have len: "length (procs s) = NPROC" using ok by (simp add: table_ok_def)
  have t: "nextpid t = nextpid s" "initproc t = initproc s" "curproc t = curproc s"
    "length (procs t) = NPROC" by (simp_all add: t_def len)
  have gp: "getp t q = (if q = p then f (getp s p) else getp s q)" for q
    using len p by (simp add: t_def getp_setp)
  have pids: "pids_ok s" and pars: "parents_ok s" and run: "running_ok s" using ok by (auto simp: table_ok_def)
  have pid_q: "0 \<le> pid (getp s q)" "pid (getp s q) < nextpid s" if "q < NPROC" for q
    using pids that by (auto simp: pids_ok_def)
  have "pids_ok t"
    unfolding pids_ok_def t
  proof (intro conjI allI impI)
    show "0 < nextpid s" "nextpid s \<le> INT_MAX" using pids by (simp_all add: pids_ok_def)
    fix q assume q: "q < NPROC"
    show "0 \<le> pid (getp t q)" "pid (getp t q) < nextpid s"
      using pid_q [OF q] pid_q [OF p] f(3) by (auto simp: gp)
    have "state (getp s q) \<noteq> UNUSED \<Longrightarrow> 0 < pid (getp s q)" using pids q by (simp add: pids_ok_def)
    then show "state (getp t q) \<noteq> UNUSED \<Longrightarrow> 0 < pid (getp t q)" using f(1) by (cases "q = p") (simp_all add: gp)
    fix r assume r: "r < NPROC" "q \<noteq> r" "pid (getp t q) = pid (getp t r)"
    have "pid (getp s q) = pid (getp s r) \<Longrightarrow> pid (getp s q) = 0" using pids q r by (simp add: pids_ok_def)
    then show "pid (getp t q) = 0" using r f(3) by (auto simp: gp split: if_splits)
  qed
  moreover have "parents_ok t"
    unfolding parents_ok_def t
  proof (intro conjI allI impI)
    fix q assume q: "q < NPROC"
    show "state (getp t q) = UNUSED \<Longrightarrow> parent (getp t q) = None"
      using table_okD(6) [OF ok q] f by (cases "q = p") (simp_all add: gp)
    fix r assume "parent (getp t q) = Some r"
    then have "parent (getp s q) = Some r" using f by (simp add: gp split: if_splits)
    then show "r < NPROC" "alive (state (getp t r))"
      using table_okD(2) [OF ok q] nc q by (auto simp: gp nochild_def)
  next
    show "\<exists>i<NPROC. initproc s = Some i \<and> alive (state (getp t i))"
      using table_okD(3) [OF ok] old by (auto simp: gp)
  qed
  moreover have "running_ok t"
  proof -
    have "curproc s \<noteq> Some p" using table_okD(4) [OF ok] old by blast
    then show ?thesis using run f(1) by (auto simp: running_ok_def gp t)
  qed
  ultimately show ?thesis using t by (simp add: table_ok_def t_def)
qed

text \<open>A used slot gets a live parent.\<close>

lemma table_ok_parent:
  assumes ok: "table_ok s" and p: "p < NPROC" "state (getp s p) \<noteq> UNUSED"
    and q: "q < NPROC" "alive (state (getp s q))"
    and f: "state (f (getp s p)) = state (getp s p)" "pid (f (getp s p)) = pid (getp s p)"
      "parent (f (getp s p)) = Some q"
  shows "table_ok (setp p f s)"
proof -
  have len: "length (procs s) = NPROC" using ok by (simp add: table_ok_def)
  have gp: "state (getp (setp p f s) r) = state (getp s r)" "pid (getp (setp p f s) r) = pid (getp s r)"
    "parent (getp (setp p f s) r) = (if r = p then Some q else parent (getp s r))" for r
    using len p f by (auto simp: getp_setp)
  have "parents_ok (setp p f s)"
    unfolding parents_ok_def gp
  proof (intro conjI allI impI)
    fix r assume r: "r < NPROC"
    show "state (getp s r) = UNUSED \<Longrightarrow> (if r = p then Some q else parent (getp s r)) = None"
      using table_okD(6) [OF ok r] p by auto
    fix u assume "(if r = p then Some q else parent (getp s r)) = Some u"
    then show "u < NPROC" "alive (state (getp s u))" using q table_okD(2) [OF ok r] by (auto split: if_splits)
  qed (use table_okD(3) [OF ok] in simp)
  then show ?thesis using ok by (simp add: table_ok_def pids_ok_def running_ok_def gp)
qed

subsection \<open>Every operation keeps the invariant\<close>

lemma same_keys_setp_field:
  "same_keys s (setp p (\<lambda>x. x\<lparr>kstack := k\<rparr>) s)" "same_keys s (setp p (\<lambda>x. x\<lparr>pgdir := k\<rparr>) s)"
  "same_keys s (setp p (\<lambda>x. x\<lparr>chan := ch\<rparr>) s)" "same_keys s (setp p (\<lambda>x. x\<lparr>killed := b\<rparr>) s)"
  "same_keys s (setp p (\<lambda>x. x\<lparr>cwd := d, name := nm\<rparr>) s)" "same_keys s (setp p (\<lambda>x. x\<lparr>cwd := d\<rparr>) s)"
  "same_keys s (setp p (setup_stack svc k) s)" "same_keys s (setp p (\<lambda>x. x\<lparr>tickets := n\<rparr>) s)"
  by (rule same_keys_setp, simp add: key_def setup_stack_def Let_def)+

lemma allocproc_ok:
  assumes ok: "table_ok s0" and a: "allocproc svc s0 = Inr (r, t)"
  shows "table_ok t \<and> curproc t = curproc s0 \<and>
    (\<forall>p. r = Some p \<longrightarrow> p < NPROC \<and> state (getp t p) = EMBRYO \<and> parent (getp t p) = None \<and>
       nochild t p \<and> initproc t \<noteq> Some p)"
proof -
  obtain s1 where s1: "pt_acquire s0 = Inr s1" using a by (auto simp: allocproc_def res_simps)
  have ok1: "table_ok s1" and c1: "curproc s1 = curproc s0"
    using table_ok_same_keys same_keys_pt_acquire [OF s1] ok by (auto simp: same_keys_def)
  show ?thesis
  proof (cases "find_idx (\<lambda>p. state p = UNUSED) (procs s1)")
    case None
    then obtain s2 where "pt_release s1 = Inr s2" "r = None" "t = s2"
      using a s1 by (auto simp: allocproc_def res_simps)
    with ok1 c1 table_ok_same_keys [of s1 s2] same_keys_pt_release [of s1 s2] show ?thesis
      by (auto simp: same_keys_def)
  next
    case (Some p)
    then have p: "p < NPROC" "state (getp s1 p) = UNUSED"
      using ok1 by (auto simp: find_idx_Some getp_def table_ok_def)
    define s2 where "s2 = (setp p (\<lambda>x. x\<lparr>state := EMBRYO, pid := nextpid s1\<rparr>) s1)\<lparr>nextpid := nextpid s1 + 1\<rparr>"
    obtain s3 k ks where s3: "pt_release s2 = Inr s3" and k: "kalloc_op svc (kst s3) = Inr (k, ks)"
      and rt: "(r, t) = (let s4 = setp p (\<lambda>x. x\<lparr>kstack := k\<rparr>) (s3\<lparr>kst := ks\<rparr>)
        in if k = 0 then (None, setp p (\<lambda>x. x\<lparr>state := UNUSED\<rparr>) s4) else (Some p, setp p (setup_stack svc k) s4))"
      using a s1 Some unfolding allocproc_def s2_def by (fastforce simp: res_simps Let_def split: if_splits)
    define s4 where "s4 = setp p (\<lambda>x. x\<lparr>kstack := k\<rparr>) (s3\<lparr>kst := ks\<rparr>)"
    have np: "nextpid s1 \<noteq> INT_MAX" using a s1 Some by (auto simp: allocproc_def)
    have len1: "length (procs s1) = NPROC" using ok1 by (rule table_okD)
    have ok2: "table_ok s2" unfolding s2_def by (rule table_ok_new) (use ok1 p np in \<open>auto simp: alive_def\<close>)
    have emb: "state (getp s2 p) = EMBRYO" "parent (getp s2 p) = None" "initproc s2 \<noteq> Some p"
      using p len1 table_okD(6) [OF ok1] table_okD(3) [OF ok1] by (auto simp: s2_def getp_setp alive_def)
    have nc2: "nochild s2 p"
      using nochild_dead [OF ok1, of p] p emb(2) len1 by (auto simp: nochild_def s2_def getp_setp alive_def)
    have k24: "same_keys s2 s4"
      unfolding s4_def by (rule same_keys_trans [OF same_keys_trans [OF same_keys_pt_release [OF s3] same_keys_kst(1)]])
        (rule same_keys_setp_field)
    have len2: "length (procs s2) = NPROC" using ok2 by (rule table_okD)
    have ok4: "table_ok s4" and nc4: "nochild s4 p" and i4: "initproc s4 \<noteq> Some p"
      and emb4: "state (getp s4 p) = EMBRYO" "parent (getp s4 p) = None" and c4: "curproc s4 = curproc s0"
      using table_ok_same_keys [OF k24 ok2] nochild_same_keys [OF k24 len2 nc2] same_keysD [OF k24] emb
        len2 p c1 by (auto simp: s2_def)
    show ?thesis
    proof (cases "k = 0")
      case True
      then have "r = None" "t = setp p (\<lambda>x. x\<lparr>state := UNUSED\<rparr>) s4" using rt by (auto simp: s4_def Let_def)
      moreover have "table_ok (setp p (\<lambda>x. x\<lparr>state := UNUSED\<rparr>) s4)"
        by (rule table_ok_free) (use ok4 nc4 i4 emb4 p in auto)
      ultimately show ?thesis using c4 by simp
    next
      case False
      then have rt: "r = Some p" "t = setp p (setup_stack svc k) s4" using rt by (auto simp: s4_def Let_def)
      have k4: "same_keys s4 t" unfolding rt by (rule same_keys_setp_field)
      show ?thesis using table_ok_same_keys [OF k4 ok4] nochild_same_keys [OF k4 _ nc4] same_keysD [OF k4]
        emb4 i4 c4 p rt(1) table_okD(1) [OF ok4] by auto
    qed
  qed
qed

lemma fork_child_ok:
  assumes ok: "table_ok s0" and a: "fork_child svc s0 = Inr (r, t)"
  shows "table_ok t \<and> curproc t = curproc s0 \<and>
    (\<forall>p. r = Some p \<longrightarrow> p < NPROC \<and> state (getp t p) = EMBRYO \<and> parent (getp t p) = curproc s0)"
proof -
  obtain cp where cp: "curproc s0 = Some cp" using a by (cases "curproc s0") (auto simp: fork_child_def)
  obtain r1 s1 where al: "allocproc svc s0 = Inr (r1, s1)"
    using a cp by (auto simp: fork_child_def res_simps)
  note ok1 = allocproc_ok [OF ok al]
  show ?thesis
  proof (cases r1)
    case None
    then show ?thesis using a cp al ok1 by (simp add: fork_child_def)
  next
    case (Some np)
    obtain pd ks where cu: "copyuvm_op svc (pgdir (getp s1 cp)) (sz (getp s1 cp)) (kst s1) = Inr (pd, ks)"
      using a cp al Some by (auto simp: fork_child_def res_simps)
    define s2 where "s2 = setp np (\<lambda>x. x\<lparr>pgdir := pd\<rparr>) (s1\<lparr>kst := ks\<rparr>)"
    have k12: "same_keys s1 s2" unfolding s2_def
      by (rule same_keys_trans [OF same_keys_kst(1)]) (rule same_keys_setp_field)
    have np: "np < NPROC" "state (getp s1 np) = EMBRYO" "nochild s1 np" "initproc s1 \<noteq> Some np"
      "parent (getp s1 np) = None"
      using ok1 Some by auto
    have len1: "length (procs s1) = NPROC" using ok1 by (simp add: table_ok_def)
    have ok2: "table_ok s2" and np2: "state (getp s2 np) = EMBRYO" "nochild s2 np" "initproc s2 \<noteq> Some np"
      "parent (getp s2 np) = None" and c2: "curproc s2 = Some cp"
      using table_ok_same_keys [OF k12] ok1 nochild_same_keys [OF k12 len1] np same_keysD [OF k12] len1 cp
      by auto
    have len2: "length (procs s2) = NPROC" using ok2 by (rule table_okD)
    show ?thesis
    proof (cases "pd = 0")
      case True
      then obtain s3 where s3: "with_k (kfree_op svc (kstack (getp s2 np))) s2 = Inr s3"
        and rt: "r = None" "t = setp np (\<lambda>x. x\<lparr>kstack := 0, state := UNUSED\<rparr>) s3"
        using a cp al Some cu unfolding s2_def by (auto simp: fork_child_def res_simps Let_def)
      have k23: "same_keys s2 s3" using s3 by (rule same_keys_with_k)
      have ok3: "table_ok s3" using table_ok_same_keys [OF k23 ok2] .
      have np3: "state (getp s3 np) = EMBRYO" "nochild s3 np" "initproc s3 \<noteq> Some np" "curproc s3 = Some cp"
        "parent (getp s3 np) = None"
        using nochild_same_keys [OF k23 len2] np2 same_keysD [OF k23] len2 np(1) c2 by auto
      have "table_ok t" unfolding rt by (rule table_ok_free) (use ok3 np3 np(1) in auto)
      then show ?thesis using rt cp np3(4) by simp
    next
      case False
      define s3 where "s3 = setp np (\<lambda>x. x\<lparr>sz := sz (getp s2 cp), parent := Some cp,
                                     tf := (tf (getp s2 cp))\<lparr>tf_eax := 0\<rparr>\<rparr>) s2"
      have ok3: "table_ok s3" unfolding s3_def
        by (rule table_ok_parent [where q = cp])
           (use ok2 np2 np(1) table_okD(4) [OF ok2 c2] in \<open>auto simp: alive_def\<close>)
      have np3: "state (getp s3 np) = EMBRYO" "parent (getp s3 np) = Some cp" "curproc s3 = Some cp"
        using np2 np(1) len2 c2 by (auto simp: s3_def getp_setp)
      obtain s4 d ks2 where s4: "dup_files svc cp np [0..<NOFILE] s3 = Inr s4"
        and rt: "r = Some np" "t = setp np (\<lambda>x. x\<lparr>cwd := d, name := name (getp s4 cp)\<rparr>) (s4\<lparr>kst := ks2\<rparr>)"
        using a cp al Some cu False unfolding s2_def s3_def
        by (auto simp: fork_child_def res_simps Let_def split_beta)
      have k3t: "same_keys s3 t" unfolding rt
        by (rule same_keys_trans [OF same_keys_trans [OF same_keys_dup_files [OF s4] same_keys_kst(1)]])
          (rule same_keys_setp_field)
      show ?thesis using table_ok_same_keys [OF k3t ok3] same_keysD [OF k3t] np3 np(1) cp rt(1)
          table_okD(1) [OF ok3] by auto
    qed
  qed
qed

lemma fork_ok:
  assumes ok: "table_ok s" and f: "fork svc s = Inr (r, t)"
  shows "table_ok t \<and> curproc t = curproc s"
proof -
  obtain c s1 where c: "fork_child svc s = Inr (c, s1)" using f by (auto simp: fork_def res_simps)
  note ok1 = fork_child_ok [OF ok c]
  show ?thesis
  proof (cases c)
    case None
    then show ?thesis using f c ok1 by (simp add: fork_def)
  next
    case (Some np)
    obtain s2 s3 where s2: "pt_acquire s1 = Inr s2"
      and s3: "pt_release (setp np (\<lambda>x. x\<lparr>state := RUNNABLE\<rparr>) s2) = Inr s3" and t: "t = s3"
      using f c Some by (auto simp: fork_def res_simps Let_def)
    have ok2: "table_ok s2" using table_ok_same_keys [OF same_keys_pt_acquire [OF s2]] ok1 by blast
    have np2: "state (getp s2 np) = EMBRYO"
      using ok1 Some same_keysD(5) [OF same_keys_pt_acquire [OF s2], of np] table_okD(1) [of s1] by auto
    have "table_ok (setp np (\<lambda>x. x\<lparr>state := RUNNABLE\<rparr>) s2)"
      by (rule table_ok_state) (use ok2 np2 in \<open>auto simp: alive_def\<close>)
    then show ?thesis
      using table_ok_same_keys [OF same_keys_pt_release [OF s3]] same_keysD(4) [OF same_keys_pt_release [OF s3]]
        same_keysD(4) [OF same_keys_pt_acquire [OF s2]] ok1 t by simp
  qed
qed

lemma wakeup1_loop_ok: "table_ok s \<Longrightarrow> table_ok (wakeup1_loop ch ps s) \<and> curproc (wakeup1_loop ch ps s) = curproc s"
proof (induction ch ps s rule: wakeup1_loop.induct)
  case (2 ch p ps s)
  show ?case
  proof (cases "state (getp s p) = SLEEPING \<and> chan (getp s p) = ch")
    case True
    then have "table_ok (setp p (\<lambda>x. x\<lparr>state := RUNNABLE\<rparr>) s)"
      using 2(2) by (intro table_ok_state) (auto simp: alive_def)
    then show ?thesis using 2(1) True by simp
  next
    case False
    then show ?thesis using 2 by (simp only: wakeup1_loop.simps False if_False)
  qed
qed simp

lemma rbind_wakeup1: "rbind (wakeup1 ch s) f = f (wakeup1_loop ch [0..<NPROC] s)"
  by (simp add: wakeup1_def)

text \<open>\<open>wakeup1\<close> changes no parent and no initial process, so the children of a process stay its children.\<close>

lemma wakeup1_loop_parent:
  "parent (getp (wakeup1_loop ch ps s) q) = parent (getp s q) \<and> initproc (wakeup1_loop ch ps s) = initproc s"
  by (induction ch ps s rule: wakeup1_loop.induct) (auto simp: getp_setp)

lemma reparent_ok:
  assumes "reparent wakeup1 cp ps s = Inr t" "table_ok s" "curproc s = Some cp" "initproc s \<noteq> Some cp"
    "set ps \<subseteq> {..<NPROC}"
  shows "table_ok t \<and> curproc t = Some cp \<and> initproc t = initproc s \<and>
    (\<forall>q<NPROC. parent (getp t q) = Some cp \<longrightarrow> q \<notin> set ps \<and> parent (getp s q) = Some cp)"
  using assms
proof (induction ps arbitrary: s)
  case (Cons p ps)
  show ?case
  proof (cases "parent (getp s p) = Some cp")
    case False
    then show ?thesis using Cons.IH [of s] Cons.prems by auto
  next
    case True
    define s1 where "s1 = setp p (\<lambda>x. x\<lparr>parent := initproc s\<rparr>) s"
    define s2 where "s2 = (if state (getp s1 p) = ZOMBIE then wakeup1_loop (chan_of (initproc s1)) [0..<NPROC] s1 else s1)"
    have t: "reparent wakeup1 cp ps s2 = Inr t"
      using Cons.prems(1) True by (auto simp: s1_def s2_def Let_def rbind_wakeup1 split: if_splits)
    obtain i where i: "i < NPROC" "initproc s = Some i" "alive (state (getp s i))"
      using table_okD(3) [OF Cons.prems(2)] by blast
    have p: "p < NPROC" using Cons.prems(5) by simp
    have up: "state (getp s p) \<noteq> UNUSED" using table_okD(6) [OF Cons.prems(2) p] True by auto
    have ok1: "table_ok s1" unfolding s1_def
      by (rule table_ok_parent [where q = i]) (use Cons.prems(2) p up i in auto)
    have ok2: "table_ok s2" "curproc s2 = Some cp" "initproc s2 = initproc s"
      using ok1 wakeup1_loop_ok [OF ok1] Cons.prems(3) wakeup1_loop_parent [of _ _ s1]
      by (auto simp: s2_def s1_def)
    have par2: "parent (getp s2 q) = (if q = p then initproc s else parent (getp s q))" for q
      using wakeup1_loop_parent [of _ _ s1 q] table_okD(1) [OF Cons.prems(2)] p
      by (auto simp: s2_def s1_def getp_setp)
    have h: "table_ok t \<and> curproc t = Some cp \<and> initproc t = initproc s2 \<and>
        (\<forall>q<NPROC. parent (getp t q) = Some cp \<longrightarrow> q \<notin> set ps \<and> parent (getp s2 q) = Some cp)"
      using Cons.IH [OF t ok2(1,2)] ok2(3) Cons.prems(4,5) by simp
    have "q \<noteq> p \<and> parent (getp s q) = Some cp" if "parent (getp s2 q) = Some cp" for q
      using that Cons.prems(4) par2 [of q] by (auto split: if_splits)
    then show ?thesis using h ok2(3) by auto
  qed
qed simp

lemma sched_eq: "sched s = Inr t \<Longrightarrow> t = s"
  by (auto simp: sched_def split: option.splits if_splits)

lemma exit_ok:
  assumes ok: "table_ok s" and e: "exit_with wakeup1 svc s = Inr t"
  shows "table_ok (t\<lparr>curproc := None\<rparr>) \<and> (\<exists>cp. curproc s = Some cp \<and> state (getp t cp) = ZOMBIE)"
proof -
  obtain cp where cp: "curproc s = Some cp" "initproc s \<noteq> Some cp"
    using e by (cases "curproc s") (auto simp: exit_with_def split: if_splits)
  obtain s1 s2 s3 s4 s5 s7 where 1: "close_files svc cp [0..<NOFILE] s = Inr s1"
      "with_k (begin_op_op svc) s1 = Inr s2" "with_k (iput_op svc (cwd (getp s2 cp))) s2 = Inr s3"
      "with_k (end_op_op svc) s3 = Inr s4"
      "pt_acquire (setp cp (\<lambda>x. x\<lparr>cwd := None\<rparr>) s4) = Inr s5"
    and 7: "reparent wakeup1 cp [0..<NPROC] (wakeup1_loop (chan_of (parent (getp s5 cp))) [0..<NPROC] s5) = Inr s7"
    and t: "sched (setp cp (\<lambda>x. x\<lparr>state := ZOMBIE\<rparr>) s7) = Inr t"
    using e cp by (auto simp: exit_with_def res_simps wakeup1_def)
  have "same_keys s s5"
    by (rule same_keys_trans [OF same_keys_close_files [OF 1(1)]], rule same_keys_trans [OF same_keys_with_k [OF 1(2)]],
        rule same_keys_trans [OF same_keys_with_k [OF 1(3)]], rule same_keys_trans [OF same_keys_with_k [OF 1(4)]],
        rule same_keys_trans [OF same_keys_setp_field(6) same_keys_pt_acquire [OF 1(5)]])
  note k = table_ok_same_keys [OF this ok] same_keysD(3,4) [OF this]
  define s6 where "s6 = wakeup1_loop (chan_of (parent (getp s5 cp))) [0..<NPROC] s5"
  have ok6: "table_ok s6" "curproc s6 = Some cp" "initproc s6 \<noteq> Some cp"
    using wakeup1_loop_ok [OF k(1)] wakeup1_loop_parent [of _ _ s5] k cp by (auto simp: s6_def)
  have r: "table_ok s7 \<and> curproc s7 = Some cp \<and> initproc s7 = initproc s6 \<and>
    (\<forall>q<NPROC. parent (getp s7 q) = Some cp \<longrightarrow> q \<notin> set [0..<NPROC] \<and> parent (getp s6 q) = Some cp)"
    by (rule reparent_ok [OF 7 [folded s6_def] ok6]) auto
  have "table_ok ((setp cp (\<lambda>x. x\<lparr>state := ZOMBIE\<rparr>) s7)\<lparr>curproc := None\<rparr>)"
    by (rule table_ok_switch_out) (use r ok6 in auto)
  moreover have "state (getp (setp cp (\<lambda>x. x\<lparr>state := ZOMBIE\<rparr>) s7) cp) = ZOMBIE"
    using r table_okD(1,4) [of s7] by (auto simp: getp_setp)
  ultimately show ?thesis using sched_eq [OF t] cp by auto
qed

lemma wait_pass_ok:
  assumes ok: "table_ok s" and w: "wait_pass svc s = Inr (r, t)"
  shows "if r = None then table_ok (t\<lparr>curproc := None\<rparr>) else table_ok t \<and> curproc t = curproc s"
proof -
  obtain cp where cp: "curproc s = Some cp" using w by (cases "curproc s") (auto simp: wait_pass_def)
  show ?thesis
  proof (cases "find_idx (\<lambda>p. parent p = Some cp \<and> state p = ZOMBIE) (procs s)")
    case (Some p)
    then have p: "p < NPROC" "state (getp s p) = ZOMBIE"
      using table_okD(1) [OF ok] by (auto simp: find_idx_Some getp_def)
    define s2 where "s2 s1 = setp p (\<lambda>x. x\<lparr>kstack := 0\<rparr>) s1" for s1 :: "('a, 'b) ptable_scheme"
    define f where "f = (\<lambda>x. x\<lparr>pid := 0, parent := None, name := [], killed := False, state := UNUSED\<rparr> :: proc)"
    obtain s1 s3 s4 where s: "with_k (kfree_op svc (kstack (getp s p))) s = Inr s1"
      "with_k (freevm_op svc (pgdir (getp (s2 s1) p))) (s2 s1) = Inr s3" "pt_release (setp p f s3) = Inr s4"
      "t = s4" "r = Some (pid (getp s p))"
      using w cp Some by (auto simp: wait_pass_def res_simps Let_def s2_def f_def)
    have k: "same_keys s s3"
      by (rule same_keys_trans [OF same_keys_with_k [OF s(1)]],
          rule same_keys_trans [OF same_keys_setp_field(1) same_keys_with_k [OF s(2) [unfolded s2_def]]])
    have ok3: "table_ok s3" using table_ok_same_keys [OF k ok] .
    have p3: "state (getp s3 p) = ZOMBIE" using same_keysD(5) [OF k] p table_okD(1) [OF ok] by auto
    have "table_ok (setp p f s3)"
      by (rule table_ok_free)
        (use ok3 p(1) p3 nochild_dead [OF ok3, of p] table_okD(3) [OF ok3] in \<open>auto simp: f_def alive_def\<close>)
    then show ?thesis
      using table_ok_same_keys [OF same_keys_pt_release [OF s(3)]] same_keysD(4) [OF same_keys_pt_release [OF s(3)]]
        same_keysD(4) [OF k] s(4,5) by simp
  next
    case None
    show ?thesis
    proof (cases "find_idx (\<lambda>p. parent p = Some cp) (procs s) = None \<or> killed (getp s cp)")
      case True
      then obtain s1 where "pt_release s = Inr s1" "r = Some (-1)" "t = s1"
        using w cp None by (auto simp: wait_pass_def res_simps)
      then show ?thesis using table_ok_same_keys [of s s1] same_keys_pt_release [of s s1] ok
        by (auto simp: same_keys_def)
    next
      case False
      then have r: "r = None" and sl: "sched (setp cp (\<lambda>x. x\<lparr>chan := ProcChan cp, state := SLEEPING\<rparr>) s) = Inr t"
        using w cp None by (auto simp: wait_pass_def res_simps sleep_def)
      have eq: "setp cp (\<lambda>x. x\<lparr>chan := ProcChan cp, state := SLEEPING\<rparr>) s =
          setp cp (\<lambda>x. x\<lparr>state := SLEEPING\<rparr>) (setp cp (\<lambda>x. x\<lparr>chan := ProcChan cp\<rparr>) s)"
        using table_okD(1,4) [OF ok] cp by (simp add: setp_def)
      have "table_ok (setp cp (\<lambda>x. x\<lparr>chan := ProcChan cp\<rparr>) s)"
        using table_ok_same_keys [OF same_keys_setp_field(3) ok] .
      then have "table_ok ((setp cp (\<lambda>x. x\<lparr>state := SLEEPING\<rparr>) (setp cp (\<lambda>x. x\<lparr>chan := ProcChan cp\<rparr>) s))\<lparr>curproc := None\<rparr>)"
        by (rule table_ok_switch_out) (use cp in \<open>auto simp: alive_def\<close>)
      then show ?thesis using r sched_eq [OF sl] eq by simp
    qed
  qed
qed

subsection \<open>Reachable tables\<close>

text \<open>
  The steps of the machine: the kernel operations of the current process up to their next switch or
  return, and, with no current process, the scheduler choosing a runnable one.  A process that is
  switched to continues after the switch it made before, which may be any of the resumption points.
\<close>

inductive pstep :: "'k svc \<Rightarrow> 'k ptable \<Rightarrow> 'k ptable \<Rightarrow> bool" for svc where
  fork: "XvProc.fork svc s = Inr (r, t) \<Longrightarrow> pstep svc s t"
| wait_return: "XvProc.wait svc s = Inr (Some r, t) \<Longrightarrow> pstep svc s t"
| wait_block: "XvProc.wait svc s = Inr (None, t) \<Longrightarrow> pstep svc s (t\<lparr>curproc := None\<rparr>)"
| exit: "exit_with wakeup1 svc s = Inr t \<Longrightarrow> pstep svc s (t\<lparr>curproc := None\<rparr>)"
| yield: "XvProc.yield s = Inr t \<Longrightarrow> pstep svc s (t\<lparr>curproc := None\<rparr>)"
| sleep: "XvProc.sleep ch lk s = Inr t \<Longrightarrow> pstep svc s (t\<lparr>curproc := None\<rparr>)"
| wakeup: "wakeup_with wakeup1 ch s = Inr t \<Longrightarrow> pstep svc s t"
| kill: "XvProc.kill pd s = Inr (r, t) \<Longrightarrow> pstep svc s t"
| grow: "growproc svc n s = Inr (r, t) \<Longrightarrow> pstep svc s t"
| settickets: "XvProc.settickets n s = Inr (r, t) \<Longrightarrow> pstep svc s t"
| setpriority: "XvProc.setpriority pd pr s = (r, t) \<Longrightarrow> pstep svc s t"
| acquire: "pt_acquire s = Inr t \<Longrightarrow> pstep svc s t"
| release: "pt_release s = Inr t \<Longrightarrow> pstep svc s t"
| pick: "curproc s = None \<Longrightarrow> p < NPROC \<Longrightarrow> XvProc.state (getp s p) = RUNNABLE \<Longrightarrow>
    with_k (switchuvm_op svc (getp s p)) (s\<lparr>curproc := Some p\<rparr>) = Inr t \<Longrightarrow>
    pstep svc s (setp p (\<lambda>x. x\<lparr>state := RUNNING\<rparr>) t)"
| resume_yield: "yield_resume b s = Inr t \<Longrightarrow> pstep svc s t"
| resume_sleep: "sleep_resume b lk s = Inr t \<Longrightarrow> pstep svc s t"
| resume_wait_return: "wait_resume svc b s = Inr (Some r, t) \<Longrightarrow> pstep svc s t"
| resume_wait_block: "wait_resume svc b s = Inr (None, t) \<Longrightarrow> pstep svc s (t\<lparr>curproc := None\<rparr>)"
| resume_fork: "forkret svc s = Inr t \<Longrightarrow> pstep svc s t"

inductive preach :: "'k svc \<Rightarrow> 'k ptable \<Rightarrow> 'k ptable \<Rightarrow> bool" for svc s0 where
  refl: "preach svc s0 s0"
| step: "preach svc s0 s \<Longrightarrow> pstep svc s t \<Longrightarrow> preach svc s0 t"

lemma setp_setp: "setp p f (setp p g s) = setp p (\<lambda>x. f (g x)) s"
  by (cases "p < length (procs s)") (simp_all add: setp_def list_update_beyond)

lemma switch_out_ok:
  assumes "table_ok s" "curproc s = Some p" "sched (setp p (\<lambda>x. (g x)\<lparr>state := st\<rparr>) s) = Inr t"
    "\<And>x. key (g x) = key x" "alive st" "st \<noteq> RUNNING"
  shows "table_ok (t\<lparr>curproc := None\<rparr>)"
proof -
  have "table_ok (setp p g s)" using table_ok_same_keys [OF same_keys_setp [of g]] assms(1,4) by blast
  then have "table_ok ((setp p (\<lambda>x. x\<lparr>state := st\<rparr>) (setp p g s))\<lparr>curproc := None\<rparr>)"
    by (rule table_ok_switch_out) (use assms in \<open>auto simp: alive_def\<close>)
  then show ?thesis using sched_eq [OF assms(3)] by (simp add: setp_setp)
qed

lemma sleep_ok: "table_ok s \<Longrightarrow> sleep ch lk s = Inr t \<Longrightarrow> table_ok (t\<lparr>curproc := None\<rparr>)"
proof -
  assume ok: "table_ok s" and s: "sleep ch lk s = Inr t"
  obtain p s1 where p: "curproc s = Some p" and
    s1: "(case lk of OtherLock l \<Rightarrow> rbind (pt_acquire s) (lock_release l) | _ \<Rightarrow> Inr s) = Inr s1" and
    t: "sched (setp p (\<lambda>x. (x\<lparr>chan := ch\<rparr>)\<lparr>state := SLEEPING\<rparr>) s1) = Inr t"
    using s by (auto simp: sleep_def res_simps split: option.splits if_splits)
  have k: "same_keys s s1"
    using s1 same_keys_trans [OF same_keys_pt_acquire same_keys_lock(2)] by (auto simp: res_simps split: lockref.splits)
  show ?thesis
    by (rule switch_out_ok [OF table_ok_same_keys [OF k ok] _ t]) (use p same_keysD(4) [OF k] in \<open>auto simp: key_def alive_def\<close>)
qed

lemma yield_ok: "table_ok s \<Longrightarrow> yield s = Inr t \<Longrightarrow> table_ok (t\<lparr>curproc := None\<rparr>)"
proof -
  assume ok: "table_ok s" and y: "yield s = Inr t"
  obtain s1 p where s1: "pt_acquire s = Inr s1" and p: "curproc s1 = Some p"
    and t: "sched (setp p (\<lambda>x. ((\<lambda>x. x) x)\<lparr>state := RUNNABLE\<rparr>) s1) = Inr t"
    using y by (auto simp: yield_def res_simps split: option.splits)
  show ?thesis
    by (rule switch_out_ok [OF table_ok_same_keys [OF same_keys_pt_acquire [OF s1] ok] p t])
      (auto simp: alive_def)
qed

lemma sleep_resume_keys: "sleep_resume b lk s = Inr t \<Longrightarrow> same_keys s t"
proof -
  assume r: "sleep_resume b lk s = Inr t"
  then obtain p where p: "curproc (sched_resume b s) = Some p" by (auto simp: sleep_resume_def Let_def split: option.splits)
  define s2 where "s2 = setp p (\<lambda>x. x\<lparr>chan := NoChan\<rparr>) (sched_resume b s)"
  have k: "same_keys s s2" unfolding s2_def by (rule same_keys_trans [OF same_keys_kst(2) same_keys_setp_field(3)])
  have "same_keys s2 t"
    using r p same_keys_trans [OF same_keys_pt_release same_keys_lock(1)]
    by (auto simp: sleep_resume_def Let_def s2_def res_simps split: lockref.splits)
  with k show ?thesis by (rule same_keys_trans)
qed

lemma kill_ok: "table_ok s \<Longrightarrow> kill pd s = Inr (r, t) \<Longrightarrow> table_ok t"
proof -
  assume ok: "table_ok s" and k: "kill pd s = Inr (r, t)"
  obtain s1 where s1: "pt_acquire s = Inr s1" using k by (auto simp: kill_def res_simps)
  have ok1: "table_ok s1" using table_ok_same_keys [OF same_keys_pt_acquire [OF s1] ok] .
  show ?thesis
  proof (cases "find_idx (\<lambda>p. pid p = pd) (procs s1)")
    case None
    then show ?thesis using k s1 ok1 table_ok_same_keys same_keys_pt_release
      by (auto simp: kill_def res_simps)
  next
    case (Some p)
    define s2 where "s2 = setp p (\<lambda>x. x\<lparr>killed := True\<rparr>) s1"
    define s3 where "s3 = (if state (getp s2 p) = SLEEPING then setp p (\<lambda>x. x\<lparr>state := RUNNABLE\<rparr>) s2 else s2)"
    have rel: "pt_release s3 = Inr t" using k s1 Some by (auto simp: kill_def res_simps s2_def s3_def Let_def)
    have ok2: "table_ok s2" unfolding s2_def using table_ok_same_keys [OF same_keys_setp_field(4) ok1] .
    have "table_ok s3" using ok2 table_ok_state [of s2 p RUNNABLE] by (auto simp: s3_def alive_def)
    then show ?thesis using table_ok_same_keys [OF same_keys_pt_release [OF rel]] by blast
  qed
qed

lemma grow_keys:
  "with_k f (setp cp (\<lambda>x. x\<lparr>sz := z\<rparr>) s) = Inr t \<Longrightarrow> same_keys s t"
  "with_k f (setp cp (\<lambda>x. x\<lparr>sz := z\<rparr>) (s\<lparr>kst := k\<rparr>)) = Inr t \<Longrightarrow> same_keys s t"
proof -
  have 1: "same_keys u (setp cp (\<lambda>x. x\<lparr>sz := z\<rparr>) u)" for u :: "('a, 'b) ptable_scheme"
    by (rule same_keys_setp) (simp add: key_def)
  show "with_k f (setp cp (\<lambda>x. x\<lparr>sz := z\<rparr>) s) = Inr t \<Longrightarrow> same_keys s t"
    using same_keys_trans [OF 1 same_keys_with_k] .
  show "with_k f (setp cp (\<lambda>x. x\<lparr>sz := z\<rparr>) (s\<lparr>kst := k\<rparr>)) = Inr t \<Longrightarrow> same_keys s t"
    using same_keys_trans [OF same_keys_trans [OF same_keys_kst(1) 1] same_keys_with_k] .
qed

lemma growproc_keys: "growproc svc n s = Inr (r, t) \<Longrightarrow> same_keys s t"
  using grow_keys
  by (auto simp: growproc_def Let_def res_simps split: option.splits if_splits prod.splits)

lemma setpriority_keys: "setpriority pd pr s = (r, t) \<Longrightarrow> same_keys s t"
  using same_keys_setp [of "\<lambda>x. x\<lparr>priority := pr, budget := DEFAULT_BUDGET\<rparr>" s]
  by (auto simp: setpriority_def key_def split: if_splits option.splits)

lemma pick_ok:
  assumes "table_ok s" "curproc s = None" "p < NPROC" "state (getp s p) = RUNNABLE"
    "with_k f (s\<lparr>curproc := Some p\<rparr>) = Inr t"
  shows "table_ok (setp p (\<lambda>x. x\<lparr>state := RUNNING\<rparr>) t)"
proof -
  obtain k where t: "t = (s\<lparr>curproc := Some p\<rparr>)\<lparr>kst := k\<rparr>" using assms(5) by (auto simp: with_k_def res_simps)
  have "same_keys ((setp p (\<lambda>x. x\<lparr>state := RUNNING\<rparr>) s)\<lparr>curproc := Some p\<rparr>) (setp p (\<lambda>x. x\<lparr>state := RUNNING\<rparr>) t)"
    by (simp add: same_keys_def t setp_def)
  then show ?thesis by (rule table_ok_same_keys) (rule table_ok_switch_in [OF assms(1-4)])
qed

lemma pstep_ok:
  assumes "pstep svc s t" and ok: "table_ok s"
  shows "table_ok t"
  using assms(1)
proof (cases rule: pstep.cases)
  case (fork r)
  then show ?thesis using fork_ok [OF ok] by blast
next
  case (wait_return r)
  then obtain s1 where "pt_acquire s = Inr s1" "wait_pass svc s1 = Inr (Some r, t)" by (auto simp: wait_def res_simps)
  then show ?thesis using wait_pass_ok [of s1] table_ok_same_keys [OF same_keys_pt_acquire ok] by fastforce
next
  case (wait_block t')
  then obtain s1 where "pt_acquire s = Inr s1" "wait_pass svc s1 = Inr (None, t')" by (auto simp: wait_def res_simps)
  then show ?thesis using wait_block(1) wait_pass_ok [of s1] table_ok_same_keys [OF same_keys_pt_acquire ok] by fastforce
next
  case (exit t')
  then show ?thesis using exit_ok [OF ok] by blast
next
  case (yield t')
  then show ?thesis using yield_ok [OF ok] by blast
next
  case (sleep ch lk t')
  then show ?thesis using sleep_ok [OF ok] by blast
next
  case (wakeup ch)
  then obtain s1 where s1: "pt_acquire s = Inr s1" "pt_release (wakeup1_loop ch [0..<NPROC] s1) = Inr t"
    by (auto simp: wakeup_with_def res_simps wakeup1_def)
  have "table_ok s1" using table_ok_same_keys [OF same_keys_pt_acquire [OF s1(1)] ok] .
  then show ?thesis using wakeup1_loop_ok table_ok_same_keys [OF same_keys_pt_release [OF s1(2)]] by blast
next
  case (kill pd r)
  then show ?thesis using kill_ok [OF ok] by blast
next
  case (grow n r)
  then show ?thesis using table_ok_same_keys [OF growproc_keys ok] by blast
next
  case (settickets n r)
  then show ?thesis
    using ok by (auto simp: settickets_def res_simps split: if_splits option.splits
      dest!: same_keys_pt_acquire same_keys_pt_release intro: table_ok_same_keys [OF same_keys_trans [OF same_keys_trans
        [OF _ same_keys_setp_field(8)]]])
next
  case (setpriority pd pr r)
  then show ?thesis using table_ok_same_keys [OF setpriority_keys ok] by blast
next
  case acquire
  then show ?thesis using table_ok_same_keys [OF same_keys_pt_acquire ok] by blast
next
  case release
  then show ?thesis using table_ok_same_keys [OF same_keys_pt_release ok] by blast
next
  case (pick p t')
  then show ?thesis using pick_ok [OF ok] by blast
next
  case (resume_yield b)
  then show ?thesis using table_ok_same_keys [OF same_keys_trans [OF same_keys_kst(2) same_keys_pt_release] ok]
    by (auto simp: yield_resume_def)
next
  case (resume_sleep b lk)
  then show ?thesis using table_ok_same_keys [OF sleep_resume_keys ok] by blast
next
  case (resume_wait_return b r)
  then obtain s1 where "sleep_resume b PtableLock s = Inr s1" "wait_pass svc s1 = Inr (Some r, t)"
    by (auto simp: wait_resume_def res_simps)
  then show ?thesis using wait_pass_ok [of s1] table_ok_same_keys [OF sleep_resume_keys ok] by fastforce
next
  case (resume_wait_block b t')
  then obtain s1 where "sleep_resume b PtableLock s = Inr s1" "wait_pass svc s1 = Inr (None, t')"
    by (auto simp: wait_resume_def res_simps)
  then show ?thesis using resume_wait_block(1) wait_pass_ok [of s1] table_ok_same_keys [OF sleep_resume_keys ok] by fastforce
next
  case resume_fork
  then obtain s1 where s1: "pt_release s = Inr s1"
    and t: "(if forkret_first s1 then rbind (with_k (iinit_op svc) (s1\<lparr>forkret_first := False\<rparr>)) (with_k (initlog_op svc))
       else Inr s1) = Inr t" by (auto simp: forkret_def res_simps)
  have "same_keys s1 (s1\<lparr>forkret_first := False\<rparr>)" by (simp add: same_keys_def)
  then have "same_keys s1 t" using t same_keys_trans [OF _ same_keys_trans [OF same_keys_with_k same_keys_with_k]]
    by (auto simp: res_simps split: if_splits)
  then show ?thesis using table_ok_same_keys [OF same_keys_trans [OF same_keys_pt_release [OF s1]] ok] by blast
qed

lemma preach_ok: "preach svc s0 s \<Longrightarrow> table_ok s0 \<Longrightarrow> table_ok s"
  by (induction rule: preach.induct) (auto intro: pstep_ok)

end
