(* ===== verification/XvProcProps.thy ===== *)
theory XvProcProps
  imports XvProcInv
begin

text \<open>
  The properties of the process table: what holds in every reachable table, what \<open>fork\<close>, \<open>wait\<close> and
  \<open>exit\<close> do, and two places where the checks of the code fall short.
\<close>

subsection \<open>The table after boot\<close>

definition boot_table :: "'k ptable \<Rightarrow> bool" where
  "boot_table s \<longleftrightarrow> map key (procs s) = replicate NPROC (UNUSED, 0, None) \<and> nextpid s = 1 \<and> curproc s = None"

lemma table_ok_first:
  assumes k: "map key (procs s) = (replicate NPROC (UNUSED, 0, None))[0 := (RUNNABLE, 1, None)]"
    and "nextpid s = 2" "curproc s = None" "initproc s = Some 0"
  shows "table_ok s"
proof -
  have len: "length (procs s) = NPROC" using arg_cong [OF k, of length] by simp
  have kp: "key (getp s p) = (if p = 0 then (RUNNABLE, 1, None) else (UNUSED, 0, None))" if "p < NPROC" for p
    using arg_cong [OF k, of "\<lambda>l. l ! p"] that len by (simp add: getp_def nth_list_update_if NPROC_def)
  have g: "state (getp s p) = (if p = 0 then RUNNABLE else UNUSED)" "pid (getp s p) = (if p = 0 then 1 else 0)"
    "parent (getp s p) = None" if "p < NPROC" for p
    using kp [OF that] by (auto simp: key_def split: if_splits)
  have "pids_ok s" "parents_ok s" "running_ok s"
    using assms(2-4) by (auto simp: pids_ok_def parents_ok_def running_ok_def g NPROC_def alive_def)
  then show ?thesis using len by (simp add: table_ok_def)
qed

lemma userinit_ok:
  assumes b: "boot_table s" and u: "userinit svc s = Inr t"
  shows "table_ok t"
proof -
  obtain r s1 where a: "allocproc svc s = Inr (r, s1)" using u by (auto simp: userinit_def res_simps)
  obtain p where r: "r = Some p" using u a by (cases r) (auto simp: userinit_def)
  obtain a1 where a1: "pt_acquire s = Inr a1" using a by (auto simp: allocproc_def res_simps)
  have ka1: "map key (procs a1) = replicate NPROC (UNUSED, 0, None)" "nextpid a1 = 1" "curproc a1 = None"
    using same_keys_pt_acquire [OF a1] b by (auto simp: boot_table_def same_keys_def)
  have len: "length (procs a1) = NPROC" using arg_cong [OF ka1(1), of length] by simp
  have "key (procs a1 ! 0) = (UNUSED, 0, None)"
    using arg_cong [OF ka1(1), of "\<lambda>l. l ! 0"] len by (simp add: NPROC_def)
  then have f: "find_idx (\<lambda>p. state p = UNUSED) (procs a1) = Some 0"
    using len by (simp add: find_idx_Some key_def NPROC_def)
  define a2 where "a2 = (setp 0 (\<lambda>x. x\<lparr>state := EMBRYO, pid := nextpid a1\<rparr>) a1)\<lparr>nextpid := nextpid a1 + 1\<rparr>"
  obtain a3 k ks where a3: "pt_release a2 = Inr a3" and s1: "p = 0"
    "s1 = setp 0 (setup_stack svc k) (setp 0 (\<lambda>x. x\<lparr>kstack := k\<rparr>) (a3\<lparr>kst := ks\<rparr>))"
    using a a1 f r unfolding allocproc_def a2_def by (auto simp: res_simps Let_def split: if_splits)
  have "same_keys a2 s1" unfolding s1
    by (rule same_keys_trans [OF same_keys_trans [OF same_keys_trans [OF same_keys_pt_release [OF a3] same_keys_kst(1)]
        same_keys_setp_field(1)] same_keys_setp_field(7)])
  moreover have "map key (procs a2) = (replicate NPROC (UNUSED, 0, None))[0 := (EMBRYO, 1, None)]"
    using ka1 len \<open>key (procs a1 ! 0) = _\<close> by (simp add: a2_def setp_def map_update key_def)
  ultimately have ks1: "map key (procs s1) = (replicate NPROC (UNUSED, 0, None))[0 := (EMBRYO, 1, None)]"
    "nextpid s1 = 2" "curproc s1 = None" using ka1 by (auto simp: same_keys_def a2_def)
  define s2 where "s2 = s1\<lparr>initproc := Some 0\<rparr>"
  obtain pd ks2 s4 d ks3 s7 where
    s4: "with_k (inituvm_op svc pd) (setp 0 (\<lambda>x. x\<lparr>pgdir := pd\<rparr>) (s2\<lparr>kst := ks2\<rparr>)) = Inr s4" and
    s7: "pt_acquire (setp 0 (\<lambda>x. x\<lparr>cwd := d\<rparr>) ((setp 0 (\<lambda>x. x\<lparr>sz := 4096, tf := tf_zero\<lparr>tf_cs := 27, tf_ds := 35,
      tf_es := 35, tf_ss := 35, tf_eflags := 0x200, tf_esp := 4096, tf_eip := 0\<rparr>, name := ''initcode''\<rparr>) s4)\<lparr>kst := ks3\<rparr>)) = Inr s7" and
    t: "pt_release (setp 0 (\<lambda>x. x\<lparr>state := RUNNABLE\<rparr>) s7) = Inr t"
    using u a r s1(1) unfolding s2_def by (auto simp: userinit_def res_simps Let_def split_beta split: if_splits)
  have "same_keys s2 s4"
    by (rule same_keys_trans [OF same_keys_trans [OF same_keys_kst(1) same_keys_setp_field(2)] same_keys_with_k [OF s4]])
  moreover have "same_keys s4 (setp 0 (\<lambda>x. x\<lparr>sz := 4096, tf := tf_zero\<lparr>tf_cs := 27, tf_ds := 35,
      tf_es := 35, tf_ss := 35, tf_eflags := 0x200, tf_esp := 4096, tf_eip := 0\<rparr>, name := ''initcode''\<rparr>) s4)"
    by (rule same_keys_setp) (simp add: key_def)
  moreover have "same_keys u s7" if "pt_acquire (setp 0 (\<lambda>x. x\<lparr>cwd := d\<rparr>) (u\<lparr>kst := ks3\<rparr>)) = Inr s7" for u
    by (rule same_keys_trans [OF same_keys_trans [OF same_keys_kst(1) same_keys_setp_field(6)] same_keys_pt_acquire [OF that]])
  ultimately have "same_keys s2 s7" using s7 by (blast intro: same_keys_trans)
  then have k7: "map key (procs s7) = (replicate NPROC (UNUSED, 0, None))[0 := (EMBRYO, 1, None)]"
    "nextpid s7 = 2" "curproc s7 = None" "initproc s7 = Some 0" using ks1 by (auto simp: same_keys_def s2_def)
  have len7: "length (procs s7) = NPROC" using arg_cong [OF k7(1), of length] by simp
  have "key (procs s7 ! 0) = (EMBRYO, 1, None)"
    using arg_cong [OF k7(1), of "\<lambda>l. l ! 0"] len7 by (simp add: NPROC_def)
  then have "table_ok (setp 0 (\<lambda>x. x\<lparr>state := RUNNABLE\<rparr>) s7)"
    by (intro table_ok_first) (use k7 len7 in \<open>auto simp: setp_def map_update key_def\<close>)
  then show ?thesis using table_ok_same_keys [OF same_keys_pt_release [OF t]] by blast
qed

text \<open>C8: in every process table reached from boot on one processor by any sequence of the kernel's process operations
  and the scheduler: used slots have pairwise different positive pids below \<open>INT_MAX\<close>, every parent is a live
  process, the first process never dies, and exactly the current process is running.  The pid counter is a C
  \<open>int\<close> that the code never reuses: the operation that would run it over is undefined and has no next state, so the
  pids differ for as long as the counter lasts.\<close>

theorem proc_table_invariant:
  assumes "boot_table s0" and "userinit svc s0 = Inr s1" and "preach svc s1 s"
  shows "(\<forall>p<NPROC. \<forall>q<NPROC. p \<noteq> q \<longrightarrow> state (getp s p) \<noteq> UNUSED \<longrightarrow> pid (getp s p) \<noteq> pid (getp s q)) \<and>
    (\<forall>p<NPROC. state (getp s p) \<noteq> UNUSED \<longrightarrow> 0 < pid (getp s p) \<and> pid (getp s p) < INT_MAX) \<and>
    (\<forall>p<NPROC. \<forall>q. parent (getp s p) = Some q \<longrightarrow>
       q < NPROC \<and> state (getp s q) \<noteq> UNUSED \<and> state (getp s q) \<noteq> ZOMBIE) \<and>
    (\<exists>i<NPROC. initproc s = Some i \<and> state (getp s i) \<noteq> UNUSED \<and> state (getp s i) \<noteq> ZOMBIE) \<and>
    (\<forall>p<NPROC. state (getp s p) = RUNNING \<longleftrightarrow> curproc s = Some p)"
proof -
  have ok: "table_ok s" using preach_ok [OF assms(3)] userinit_ok [OF assms(1,2)] by blast
  have "pid (getp s p) \<noteq> pid (getp s q)" if "p < NPROC" "q < NPROC" "p \<noteq> q" "state (getp s p) \<noteq> UNUSED" for p q
  proof
    assume "pid (getp s p) = pid (getp s q)"
    then have "pid (getp s p) = 0" using ok that by (simp add: table_ok_def pids_ok_def)
    moreover have "0 < pid (getp s p)" using ok that by (simp add: table_ok_def pids_ok_def)
    ultimately show False by simp
  qed
  moreover have "0 < pid (getp s p) \<and> pid (getp s p) < INT_MAX" if "p < NPROC" "state (getp s p) \<noteq> UNUSED" for p
  proof -
    have "pid (getp s p) < nextpid s" "nextpid s \<le> INT_MAX" "0 < pid (getp s p)"
      using ok that by (simp_all add: table_ok_def pids_ok_def)
    then show ?thesis by linarith
  qed
  moreover have "running_ok s" using ok by (simp add: table_ok_def)
  ultimately show ?thesis using table_okD(2,3) [OF ok] by (auto simp: alive_def running_ok_def)
qed

definition unit_svc :: "unit svc" where
  "unit_svc = \<lparr>kalloc_op = (\<lambda>k. Inr (4096, k)), kfree_op = (\<lambda>_ k. Inr k), setupkvm_op = (\<lambda>k. Inr (4096, k)),
     inituvm_op = (\<lambda>_ k. Inr k), allocuvm_op = (\<lambda>_ _ n k. Inr (n, k)), deallocuvm_op = (\<lambda>_ _ n k. Inr (n, k)),
     copyuvm_op = (\<lambda>_ _ k. Inr (8192, k)), freevm_op = (\<lambda>_ k. Inr k), switchuvm_op = (\<lambda>_ k. Inr k),
     switchkvm_op = (\<lambda>k. k), filedup_op = (\<lambda>_ k. Inr k), fileclose_op = (\<lambda>_ k. Inr k), idup_op = (\<lambda>d k. (d, k)),
     iput_op = (\<lambda>_ k. Inr k), namei_root_op = (\<lambda>k. (Some 0, k)), begin_op_op = Inr, end_op_op = Inr,
     iinit_op = Inr, initlog_op = Inr, trapret_addr = 0, forkret_addr = 0\<rparr>"

definition proc0 :: proc where
  "proc0 = \<lparr>sz = 0, pgdir = 0, kstack = 0, state = UNUSED, pid = 0, parent = None, tf_va = 0, tf = tf_zero,
     ret_addr = 0, context_va = 0, ctx = \<lparr>ctx_edi = 0, ctx_esi = 0, ctx_ebx = 0, ctx_ebp = 0, ctx_eip = 0\<rparr>,
     chan = NoChan, killed = False, ofile = replicate 16 None, cwd = None, name = [], priority = 0, budget = 0,
     original_priority = 0, tickets = 0, inuse = 0, pticks = 0\<rparr>"

definition unit_boot :: "unit ptable" where
  "unit_boot = \<lparr>pt_lock = False, procs = replicate 64 proc0, initproc = None, nextpid = 1,
     cpu = \<lparr>ncli = 0, intena = False, IF = False\<rparr>, curproc = None, olocks = (\<lambda>_. False), ticks = 0,
     forkret_first = True, kst = ()\<rparr>"

lemma unit_boot_table: "boot_table unit_boot"
  by (simp add: boot_table_def unit_boot_def key_def proc0_def NPROC_def)

lemma find_idx_replicate: "0 < n \<Longrightarrow> P x \<Longrightarrow> find_idx P (replicate n x) = Some 0"
  by (cases n) (simp_all add: find_idx_def)

lemma unit_userinit: "\<exists>s1. userinit unit_svc unit_boot = Inr s1 \<and> \<not> pt_lock s1 \<and> state (getp s1 0) = RUNNABLE \<and>
    length (procs s1) = 64 \<and> curproc s1 = None"
proof -
  have "find_idx (\<lambda>p. state p = UNUSED) (replicate 64 proc0) = Some 0"
    by (rule find_idx_replicate) (simp_all add: proc0_def)
  then show ?thesis
    by (simp add: userinit_def allocproc_def unit_svc_def unit_boot_def pt_acquire_def pt_release_def cpu_pop_def
        push_cpu_def pop_cpu_def Let_def setup_stack_def with_k_def setp_def getp_def nth_list_update_if)
qed

theorem proc_table_invariant_witness:
  "\<exists>s1 s. userinit unit_svc unit_boot = Inr s1 \<and> preach unit_svc s1 s \<and> state (getp s 0) = RUNNING \<and> curproc s = Some 0"
proof -
  obtain s1 where s1: "userinit unit_svc unit_boot = Inr s1" "state (getp s1 0) = RUNNABLE"
    "length (procs s1) = 64" "curproc s1 = None"
    using unit_userinit by blast
  define s where "s = setp 0 (\<lambda>x. x\<lparr>state := RUNNING\<rparr>) (s1\<lparr>curproc := Some 0\<rparr>)"
  have "pstep unit_svc s1 s" unfolding s_def
    by (rule pstep.pick) (use s1 in \<open>auto simp: NPROC_def unit_svc_def with_k_def\<close>)
  then have r: "preach unit_svc s1 s" by (blast intro: preach.intros)
  have st: "state (getp s 0) = RUNNING" using s1(3) by (simp add: s_def setp_def getp_def)
  have "curproc s = Some 0"
    using proc_table_invariant [OF unit_boot_table s1(1) r] st by (auto simp: NPROC_def)
  then show ?thesis using s1(1) r st by blast
qed

subsection \<open>What fork does\<close>

text \<open>\<open>frame p s t\<close>: the table differs at most in slot \<open>p\<close>.\<close>

definition frame :: "nat \<Rightarrow> ('k, 'm) ptable_scheme \<Rightarrow> ('k, 'm) ptable_scheme \<Rightarrow> bool" where
  "frame p s t \<longleftrightarrow> length (procs t) = length (procs s) \<and> (\<forall>q. q \<noteq> p \<longrightarrow> getp t q = getp s q)"

lemma frame_trans: "frame p s t \<Longrightarrow> frame p t u \<Longrightarrow> frame p s u"
  by (simp add: frame_def)

lemma frame_setp [simp]: "frame p s (setp p f s)"
  by (simp add: frame_def getp_setp)

lemma frame_kst [simp]: "frame p s (s\<lparr>kst := k\<rparr>)" "frame p s (s\<lparr>nextpid := n\<rparr>)"
  by (simp_all add: frame_def)

text \<open>Locks and services leave the whole table alone.\<close>

lemma procs_same:
  "pt_acquire s = Inr t \<Longrightarrow> procs t = procs s" "pt_release s = Inr t \<Longrightarrow> procs t = procs s"
  "with_k f s = Inr t \<Longrightarrow> procs t = procs s"
  by (auto simp: pt_acquire_def pt_release_def with_k_def res_simps)

lemma nextpid_same:
  "pt_acquire s = Inr t \<Longrightarrow> nextpid t = nextpid s" "pt_release s = Inr t \<Longrightarrow> nextpid t = nextpid s"
  by (auto simp: pt_acquire_def pt_release_def res_simps)

lemma getp_procs: "procs t = procs s \<Longrightarrow> getp t q = getp s q"
  by (simp add: getp_def)

lemma allocproc_spec:
  assumes len: "length (procs s) = NPROC" and a: "allocproc svc s = Inr (r, t)"
  shows "case r of
     None \<Rightarrow> \<exists>p. frame p s t \<and> (p < NPROC \<longrightarrow> state (getp s p) = UNUSED \<and> state (getp t p) = UNUSED)
   | Some p \<Rightarrow> p < NPROC \<and> state (getp s p) = UNUSED \<and> (\<forall>q<p. state (getp s q) \<noteq> UNUSED) \<and> frame p s t \<and> nextpid t = nextpid s + 1 \<and>
       (\<exists>k. k \<noteq> 0 \<and> getp t p = setup_stack svc k ((getp s p)\<lparr>state := EMBRYO, pid := nextpid s, kstack := k\<rparr>))"
proof -
  obtain s1 where s1: "pt_acquire s = Inr s1" using a by (auto simp: allocproc_def res_simps)
  note p1 = procs_same(1) [OF s1] nextpid_same(1) [OF s1]
  show ?thesis
  proof (cases "find_idx (\<lambda>p. state p = UNUSED) (procs s1)")
    case None
    then have "pt_release s1 = Inr t" "r = None" using a s1 by (auto simp: allocproc_def res_simps)
    then have "frame NPROC s t" using procs_same(2) [of s1 t] p1 by (auto simp: frame_def getp_def)
    then show ?thesis using \<open>r = None\<close> by auto
  next
    case (Some p)
    then have p: "p < NPROC" "state (getp s p) = UNUSED" "\<forall>q<p. state (getp s q) \<noteq> UNUSED"
      using len p1 by (auto simp: find_idx_Some getp_def)
    define s2 where "s2 = (setp p (\<lambda>x. x\<lparr>state := EMBRYO, pid := nextpid s1\<rparr>) s1)\<lparr>nextpid := nextpid s1 + 1\<rparr>"
    obtain s3 k ks where s3: "pt_release s2 = Inr s3"
      and rt: "(r, t) = (let s4 = setp p (\<lambda>x. x\<lparr>kstack := k\<rparr>) (s3\<lparr>kst := ks\<rparr>)
        in if k = 0 then (None, setp p (\<lambda>x. x\<lparr>state := UNUSED\<rparr>) s4) else (Some p, setp p (setup_stack svc k) s4))"
      using a s1 Some unfolding allocproc_def s2_def by (fastforce simp: res_simps Let_def split: if_splits)
    have g3: "getp s3 q = (if q = p then (getp s p)\<lparr>state := EMBRYO, pid := nextpid s\<rparr> else getp s q)"
      "length (procs s3) = NPROC" "nextpid s3 = nextpid s + 1" for q
      using procs_same(2) [OF s3] nextpid_same(2) [OF s3] p1 len p(1) by (auto simp: s2_def getp_def setp_def nth_list_update_if)
    have fr: "frame p s t" using rt g3 len by (auto simp: frame_def Let_def getp_setp split: if_splits)
    show ?thesis
    proof (cases "k = 0")
      case True
      then have "r = None" "state (getp t p) = UNUSED" using rt g3 p(1) by (auto simp: Let_def getp_setp)
      then show ?thesis using fr p by auto
    next
      case False
      then have "r = Some p" "nextpid t = nextpid s + 1"
        "getp t p = setup_stack svc k ((getp s p)\<lparr>state := EMBRYO, pid := nextpid s, kstack := k\<rparr>)"
        using rt g3 p(1) by (auto simp: Let_def getp_setp)
      then show ?thesis using fr p False by auto
    qed
  qed
qed

lemma dup_files_spec:
  assumes "dup_files svc cp np is s = Inr t" "np < length (procs s)" "cp \<noteq> np"
  shows "frame np s t \<and> nextpid t = nextpid s \<and> getp t np = (getp s np)\<lparr>ofile := ofile (getp t np)\<rparr> \<and>
    length (ofile (getp t np)) = length (ofile (getp s np)) \<and>
    (\<forall>i<length (ofile (getp s np)). ofile (getp t np) ! i =
       (if i \<in> set is \<and> ofile (getp s cp) ! i \<noteq> None then ofile (getp s cp) ! i else ofile (getp s np) ! i))"
  using assms
proof (induction svc cp np "is" s rule: dup_files.induct)
  case (1 svc cp np s)
  then show ?case by (simp add: frame_def)
next
  case (2 svc cp np i "is" s)
  show ?case
  proof (cases "ofile (getp s cp) ! i")
    case None
    then show ?thesis using 2(1) [OF None] 2(3-5) by auto
  next
    case (Some f)
    with 2(3) obtain s1 where s1: "with_k (filedup_op svc f) s = Inr s1"
      and t: "dup_files svc cp np is (setp np (\<lambda>x. x\<lparr>ofile := (ofile x)[i := Some f]\<rparr>) s1) = Inr t"
      by (auto simp: res_simps)
    have g1: "getp s1 q = getp s q" "length (procs s1) = length (procs s)" "nextpid s1 = nextpid s" for q
      using s1 by (auto simp: with_k_def res_simps getp_def)
    show ?thesis using 2(2) [OF Some t] 2(4,5) g1 Some
      by (auto simp: frame_def getp_setp nth_list_update_if)
  qed
qed

lemma fork_effect:
  assumes "table_ok s" and "curproc s = Some cp" and "fork svc s = Inr (r, t)"
  shows "(r = -1 \<and> (\<forall>q<NPROC. state (getp s q) \<noteq> UNUSED \<longrightarrow> getp t q = getp s q)) \<or>
    (\<exists>p<NPROC. state (getp s p) = UNUSED \<and> (\<forall>q<p. state (getp s q) \<noteq> UNUSED) \<and>
       r = nextpid s \<and> nextpid t = nextpid s + 1 \<and>
       (\<forall>q. q \<noteq> p \<longrightarrow> getp t q = getp s q) \<and>
       state (getp t p) = RUNNABLE \<and> pid (getp t p) = r \<and> parent (getp t p) = Some cp \<and>
       kstack (getp t p) \<noteq> 0 \<and> pgdir (getp t p) \<noteq> 0 \<and> sz (getp t p) = sz (getp s cp) \<and>
       killed (getp t p) = killed (getp s p) \<and>
       name (getp t p) = name (getp s cp) \<and> tf (getp t p) = (tf (getp s cp))\<lparr>tf_eax := 0\<rparr> \<and>
       (\<forall>i<NOFILE. i < length (ofile (getp s p)) \<longrightarrow> ofile (getp s cp) ! i \<noteq> None \<longrightarrow>
          ofile (getp t p) ! i = ofile (getp s cp) ! i))"
proof -
  have len: "length (procs s) = NPROC" using assms(1) by (rule table_okD)
  have cp: "state (getp s cp) = RUNNING" using table_okD(4) [OF assms(1,2)] by simp
  obtain c s1 where c: "fork_child svc s = Inr (c, s1)" using assms(3) by (auto simp: fork_def res_simps)
  obtain a s2 where a: "allocproc svc s = Inr (a, s2)" using c assms(2) by (auto simp: fork_child_def res_simps)
  note al = allocproc_spec [OF len a]
  show ?thesis
  proof (cases a)
    case None
    then have "c = None" "s1 = s2" using c a assms(2) by (auto simp: fork_child_def)
    then have "r = -1" "t = s2" using assms(3) c by (auto simp: fork_def)
    moreover obtain p where "frame p s s2" "p < NPROC \<longrightarrow> state (getp s p) = UNUSED" using al None by auto
    ultimately have "r = -1" "\<forall>q<NPROC. state (getp s q) \<noteq> UNUSED \<longrightarrow> getp t q = getp s q"
      by (auto simp: frame_def)
    then show ?thesis by blast
  next
    case (Some p)
    then obtain k where p: "p < NPROC" "state (getp s p) = UNUSED" "\<forall>q<p. state (getp s q) \<noteq> UNUSED" and fr: "frame p s s2" "nextpid s2 = nextpid s + 1"
      and k: "k \<noteq> 0" "getp s2 p = setup_stack svc k ((getp s p)\<lparr>state := EMBRYO, pid := nextpid s, kstack := k\<rparr>)"
      using al by auto
    have cpp: "cp \<noteq> p" using cp p by auto
    have cp2: "getp s2 cp = getp s cp" using fr cpp by (simp add: frame_def)
    have len2: "length (procs s2) = NPROC" using fr len by (simp add: frame_def)
    obtain pd ks where cu: "copyuvm_op svc (pgdir (getp s2 cp)) (sz (getp s2 cp)) (kst s2) = Inr (pd, ks)"
      using c a Some assms(2) by (auto simp: fork_child_def res_simps)
    define s3 where "s3 = setp p (\<lambda>x. x\<lparr>pgdir := pd\<rparr>) (s2\<lparr>kst := ks\<rparr>)"
    show ?thesis
    proof (cases "pd = 0")
      case True
      then obtain s4 where s4: "with_k (kfree_op svc (kstack (getp s3 p))) s3 = Inr s4"
        and rt: "c = None" "s1 = setp p (\<lambda>x. x\<lparr>kstack := 0, state := UNUSED\<rparr>) s4"
        using c a Some assms(2) cu unfolding s3_def by (auto simp: fork_child_def res_simps Let_def)
      have "r = -1" "t = s1" using assms(3) c rt by (auto simp: fork_def)
      moreover have "getp s1 q = getp s q" if "state (getp s q) \<noteq> UNUSED" for q
        using that p fr procs_same(3) [OF s4] by (simp add: rt getp_setp getp_procs [OF procs_same(3) [OF s4]] s3_def frame_def)
           (cases "q = p"; auto)
      ultimately have "r = -1" "\<forall>q<NPROC. state (getp s q) \<noteq> UNUSED \<longrightarrow> getp t q = getp s q" by auto
      then show ?thesis by blast
    next
      case False
      define s4 where "s4 = setp p (\<lambda>x. x\<lparr>sz := sz (getp s3 cp), parent := Some cp,
                                     tf := (tf (getp s3 cp))\<lparr>tf_eax := 0\<rparr>\<rparr>) s3"
      obtain s5 d ks2 where s5: "dup_files svc cp p [0..<NOFILE] s4 = Inr s5"
        and rt: "c = Some p" "s1 = setp p (\<lambda>x. x\<lparr>cwd := d, name := name (getp s5 cp)\<rparr>) (s5\<lparr>kst := ks2\<rparr>)"
        using c a Some assms(2) cu False unfolding s3_def s4_def
        by (auto simp: fork_child_def res_simps Let_def split_beta)
      obtain s6 s7 where s6: "pt_acquire s1 = Inr s6" and s7: "pt_release (setp p (\<lambda>x. x\<lparr>state := RUNNABLE\<rparr>) s6) = Inr s7"
        and r: "r = pid (getp s1 p)" "t = s7"
        using assms(3) c rt by (auto simp: fork_def res_simps Let_def)
      have g4: "length (procs s4) = NPROC" "getp s4 cp = getp s cp" "\<And>q. q \<noteq> p \<Longrightarrow> getp s4 q = getp s q"
        "nextpid s4 = nextpid s + 1"
        "getp s4 p = (getp s2 p)\<lparr>pgdir := pd, sz := sz (getp s cp), parent := Some cp, tf := (tf (getp s cp))\<lparr>tf_eax := 0\<rparr>\<rparr>"
        using fr len2 cpp p(1) cp2 by (auto simp: s4_def s3_def getp_setp frame_def)
      have ds: "frame p s4 s5 \<and> nextpid s5 = nextpid s4 \<and> getp s5 p = (getp s4 p)\<lparr>ofile := ofile (getp s5 p)\<rparr> \<and>
        length (ofile (getp s5 p)) = length (ofile (getp s4 p)) \<and>
        (\<forall>i<length (ofile (getp s4 p)). ofile (getp s5 p) ! i =
         (if i \<in> set [0..<NOFILE] \<and> ofile (getp s4 cp) ! i \<noteq> None then ofile (getp s4 cp) ! i else ofile (getp s4 p) ! i))"
        by (rule dup_files_spec [OF s5]) (use g4 p cpp in auto)
      have o4: "ofile (getp s4 p) = ofile (getp s p)" using g4(5) k(2) by (simp add: setup_stack_def Let_def)
      have g5: "getp s5 q = getp s q" if "q \<noteq> p" for q using ds g4(3) that by (simp add: frame_def)
      have len5: "length (procs s5) = NPROC" using ds g4(1) by (simp add: frame_def)
      have gt: "getp t q = (if q = p then (getp s5 p)\<lparr>cwd := d, name := name (getp s cp), state := RUNNABLE\<rparr> else getp s q)" for q
        using procs_same(2) [OF s7] procs_same(1) [OF s6] rt(2) r(2) len5 p(1) g5 cpp
        by (auto simp: getp_def setp_def nth_list_update_if)
      have nt: "nextpid t = nextpid s + 1"
        using nextpid_same(2) [OF s7] nextpid_same(1) [OF s6] rt(2) r(2) ds g4(4) by simp
      obtain X where e5: "getp s5 p = (getp s4 p)\<lparr>ofile := X\<rparr>" using ds by blast
      have fields: "pid (getp s5 p) = nextpid s" "parent (getp s5 p) = Some cp" "kstack (getp s5 p) = k"
        "pgdir (getp s5 p) = pd" "sz (getp s5 p) = sz (getp s cp)" "tf (getp s5 p) = (tf (getp s cp))\<lparr>tf_eax := 0\<rparr>"
        "killed (getp s5 p) = killed (getp s p)"
        by (simp_all add: e5 g4(5) k(2) setup_stack_def Let_def)
      have rp: "r = nextpid s" using r(1) rt(2) fields(1) len5 p(1) by (simp add: getp_setp)
      have "ofile (getp t p) ! i = ofile (getp s cp) ! i"
        if "i < NOFILE" "i < length (ofile (getp s p))" "ofile (getp s cp) ! i \<noteq> None" for i
        using ds that o4 g4(2) gt [of p] by simp
      then show ?thesis
        by (intro disjI2 exI [of _ p] conjI) (simp_all add: p rp nt gt fields k(1) False)
    qed
  qed
qed

text \<open>C17: \<open>fork\<close> either returns -1 and leaves every used slot as it was, or returns the next pid, and then
  one free slot holds the child: runnable, with the caller as parent, a fresh kernel stack, the
  caller's size, name, open files and trap frame except that \<open>eax\<close> is 0; no other slot changes.\<close>

theorem fork_spec:
  assumes "table_ok s" and "curproc s = Some cp" and "fork svc s = Inr (r, t)"
  shows "(r = -1 \<and> (\<forall>q<NPROC. state (getp s q) \<noteq> UNUSED \<longrightarrow> getp t q = getp s q)) \<or>
    (\<exists>p<NPROC. state (getp s p) = UNUSED \<and> r = nextpid s \<and> nextpid t = nextpid s + 1 \<and>
       (\<forall>q. q \<noteq> p \<longrightarrow> getp t q = getp s q) \<and>
       state (getp t p) = RUNNABLE \<and> pid (getp t p) = r \<and> parent (getp t p) = Some cp \<and>
       kstack (getp t p) \<noteq> 0 \<and> pgdir (getp t p) \<noteq> 0 \<and> sz (getp t p) = sz (getp s cp) \<and>
       name (getp t p) = name (getp s cp) \<and> tf (getp t p) = (tf (getp s cp))\<lparr>tf_eax := 0\<rparr> \<and>
       (\<forall>i<NOFILE. i < length (ofile (getp s p)) \<longrightarrow> ofile (getp s cp) ! i \<noteq> None \<longrightarrow>
          ofile (getp t p) ! i = ofile (getp s cp) ! i))"
  using fork_effect [OF assms] by blast

text \<open>One running process, all other slots free.\<close>

definition unit_run_with :: "proc \<Rightarrow> unit ptable" where
  "unit_run_with x = unit_boot\<lparr>procs := (proc0\<lparr>state := RUNNING, pid := 1, sz := 4096\<rparr>) # x # replicate 62 proc0,
     nextpid := 2, curproc := Some 0, initproc := Some 0\<rparr>"

definition unit_run :: "unit ptable" where
  "unit_run = unit_run_with proc0"

lemma unit_run_ok: "table_ok unit_run"
proof -
  have g: "getp unit_run p = (if p = 0 then proc0\<lparr>state := RUNNING, pid := 1, sz := 4096\<rparr> else proc0)" if "p < NPROC" for p
    using that by (auto simp: unit_run_def unit_run_with_def getp_def NPROC_def nth_Cons')
  have f: "nextpid unit_run = 2" "curproc unit_run = Some 0" "initproc unit_run = Some 0"
    by (simp_all add: unit_run_def unit_run_with_def)
  have "pids_ok unit_run" "parents_ok unit_run" "running_ok unit_run"
    by (auto simp: pids_ok_def parents_ok_def running_ok_def g f NPROC_def alive_def proc0_def)
  then show ?thesis by (simp add: table_ok_def unit_run_def unit_run_with_def NPROC_def)
qed

lemma dup_files_none: "(\<forall>i\<in>set is. ofile (getp s cp) ! i = None) \<Longrightarrow> dup_files svc cp np is s = Inr s"
  by (induction "is") auto

lemma unit_fork:
  assumes x: "state x = UNUSED"
  shows "\<exists>t. fork unit_svc (unit_run_with x) = Inr (2, t)"
proof -
  let ?p1 = "proc0\<lparr>state := RUNNING, pid := 1, sz := 4096\<rparr>"
  have f: "find_idx (\<lambda>p. state p = UNUSED) (?p1 # x # replicate 62 proc0) = Some (Suc 0)"
    by (subst find_idx_Some) (simp add: x)
  have "\<exists>s. allocproc unit_svc (unit_run_with x) = Inr (Some 1, s) \<and> getp s 0 = ?p1 \<and> \<not> pt_lock s \<and> \<not> IF (cpu s) \<and>
      ncli (cpu s) = 0 \<and> length (procs s) = 64 \<and> pid (getp s 1) = 2"
    by (simp add: allocproc_def unit_run_with_def unit_boot_def unit_svc_def pt_acquire_def pt_release_def cpu_pop_def
        push_cpu_def pop_cpu_def Let_def setup_stack_def setp_def getp_def f nth_list_update_if)
  then obtain s where al: "allocproc unit_svc (unit_run_with x) = Inr (Some 1, s)" and s: "getp s 0 = ?p1" "\<not> pt_lock s"
     "\<not> IF (cpu s)" "ncli (cpu s) = 0" "length (procs s) = 64" "pid (getp s 1) = 2" by blast
  have d: "dup_files unit_svc 0 (Suc 0) [0..<NOFILE] s' = Inr s'" if "getp s' 0 = ?p1" for s' :: "unit ptable"
    by (rule dup_files_none) (simp add: that proc0_def NOFILE_def)
  have c: "curproc (unit_run_with x) = Some 0" by (simp add: unit_run_with_def)
  have "\<exists>u. fork_child unit_svc (unit_run_with x) = Inr (Some 1, u) \<and> \<not> pt_lock u \<and> \<not> IF (cpu u) \<and> ncli (cpu u) = 0 \<and> pid (getp u 1) = 2"
    using s by (simp add: fork_child_def c al unit_svc_def [THEN arg_cong, of copyuvm_op] unit_svc_def [THEN arg_cong, of idup_op]
        Let_def d getp_setp split_beta)
  then show ?thesis
    by (auto simp: fork_def pt_acquire_def pt_release_def cpu_pop_def push_cpu_def pop_cpu_def Let_def)
qed

theorem fork_spec_witness:
  "\<exists>t. fork unit_svc unit_run = Inr (2, t) \<and> (\<exists>p<NPROC. state (getp t p) = RUNNABLE \<and> parent (getp t p) = Some 0)"
proof -
  obtain t where t: "fork unit_svc unit_run = Inr (2, t)"
    using unit_fork [of proc0] by (auto simp: unit_run_def proc0_def)
  have c: "curproc unit_run = Some 0" by (simp add: unit_run_def unit_run_with_def)
  show ?thesis using fork_spec [OF unit_run_ok c t] t by auto
qed

subsection \<open>Two gaps\<close>

text \<open>\<open>kill(0)\<close> succeeds although no process has pid 0: it marks the first slot whose pid is 0, a free
  one, as killed.  Neither \<open>allocproc\<close> nor \<open>fork\<close> clears the mark, so the next child placed in
  that slot is born killed.\<close>

theorem kill_zero_kills_next_child:
  assumes "table_ok s" and "curproc s = Some cp" and "find_idx (\<lambda>p. state p = UNUSED) (procs s) = Some p"
    and "find_idx (\<lambda>p. pid p = 0) (procs s) = Some p"
    and "kill 0 s = Inr (r, t)" and "fork svc t = Inr (c, u)" and "c \<noteq> -1"
  shows "r = 0 \<and> pid (getp u p) = c \<and> killed (getp u p)"
proof -
  have p: "p < NPROC" "state (getp s p) = UNUSED" "\<forall>q<p. state (getp s q) \<noteq> UNUSED"
    using assms(3) table_okD(1) [OF assms(1)] by (auto simp: find_idx_Some getp_def)
  obtain s1 where s1: "pt_acquire s = Inr s1" using assms(5) by (auto simp: kill_def res_simps)
  have f1: "find_idx (\<lambda>p. pid p = 0) (procs s1) = Some p" "state (getp s1 p) = UNUSED"
    using assms(4) p(2) procs_same(1) [OF s1] by (simp_all add: getp_def)
  define s3 where "s3 = setp p (\<lambda>x. x\<lparr>killed := True\<rparr>) s1"
  have "state (getp s3 p) = UNUSED" using f1 by (simp add: s3_def getp_setp)
  then have r: "r = 0" and rel: "pt_release s3 = Inr t"
    using assms(5) by (auto simp: kill_def s1 f1 Let_def res_simps s3_def [symmetric])
  note s3 = s3_def
  have gt: "getp t q = (if q = p then (getp s p)\<lparr>killed := True\<rparr> else getp s q)" for q
    using procs_same(2) [OF rel] procs_same(1) [OF s1] table_okD(1) [OF assms(1)] p(1)
    by (auto simp: s3 getp_def setp_def nth_list_update_if)
  have ok: "table_ok t" using kill_ok [OF assms(1,5)] .
  have ct: "curproc t = Some cp"
    using assms(2) same_keysD(4) [OF same_keys_pt_acquire [OF s1]] same_keysD(4) [OF same_keys_pt_release [OF rel]]
    by (simp add: s3)
  obtain q where q: "q < NPROC" "state (getp t q) = UNUSED" "\<forall>q'<q. state (getp t q') \<noteq> UNUSED"
    "pid (getp u q) = c" "killed (getp u q) = killed (getp t q)"
    using fork_effect [OF ok ct assms(6)] assms(7) by blast
  have "\<not> q < p" using q(2) p(3) gt [of q] by auto
  moreover have "\<not> p < q" using q(3) p(2) gt [of p] by auto
  ultimately have "q = p" by simp
  then show ?thesis using q r gt by simp
qed

theorem kill_zero_kills_next_child_witness:
  "\<exists>t c u. kill 0 unit_run = Inr (0, t) \<and> fork unit_svc t = Inr (c, u) \<and> pid (getp u 1) = c \<and> killed (getp u 1)"
proof -
  let ?t = "unit_run_with (proc0\<lparr>killed := True\<rparr>)"
  have pr: "procs unit_run = (proc0\<lparr>state := RUNNING, pid := 1, sz := 4096\<rparr>) # proc0 # replicate 62 proc0"
    and c: "curproc unit_run = Some 0" by (simp_all add: unit_run_def unit_run_with_def)
  have f: "find_idx (\<lambda>p. state p = UNUSED) (procs unit_run) = Some 1" "find_idx (\<lambda>p. pid p = 0) (procs unit_run) = Some 1"
    by (simp_all add: pr find_idx_Some proc0_def)
  have k: "kill 0 unit_run = Inr (0, ?t)"
    using f(2) by (simp add: kill_def unit_run_def unit_run_with_def unit_boot_def pt_acquire_def pt_release_def
        cpu_pop_def push_cpu_def pop_cpu_def setp_def getp_def Let_def proc0_def)
  obtain u where u: "fork unit_svc ?t = Inr (2, u)" using unit_fork [of "proc0\<lparr>killed := True\<rparr>"] by (auto simp: proc0_def)
  show ?thesis using kill_zero_kills_next_child [OF unit_run_ok c f k u] k u by auto
qed

lemma getpinfo_loop_lists:
  fixes xs i r
  defines "used \<equiv> filter (\<lambda>p. state p \<noteq> UNUSED) xs"
  assumes "length used + i \<le> NPROC" "length (st_pid r) = NPROC" "length (st_tickets r) = NPROC" "length (st_ticks r) = NPROC"
  shows "st_pid (getpinfo_loop xs i r) = take i (st_pid r) @ map pid used @ drop (i + length used) (st_pid r) \<and>
    st_tickets (getpinfo_loop xs i r) = take i (st_tickets r) @ map tickets used @ drop (i + length used) (st_tickets r) \<and>
    st_ticks (getpinfo_loop xs i r) = take i (st_ticks r) @ map pticks used @ drop (i + length used) (st_ticks r)"
  using assms(2-5) unfolding used_def
  by (induction xs i r rule: getpinfo_loop.induct) (auto simp: take_Suc_update)

text \<open>\<open>getpinfo\<close> with a non-null pointer writes the pid, tickets and ticks of the used slots, in table
  order, to the first positions of the arrays, and releases the table lock.  With a null pointer it
  returns -1 while still holding the lock, so that the next acquisition on that CPU panics.\<close>

theorem getpinfo_spec:
  assumes "\<not> pt_lock s" and "0 \<le> ncli (cpu s)" and "length (procs s) = NPROC"
    and "length (st_pid ps) = NPROC" "length (st_tickets ps) = NPROC" "length (st_ticks ps) = NPROC"
  shows "(\<exists>t q. getpinfo (Some ps) s = Inr (0, Some q, t) \<and> \<not> pt_lock t \<and> procs t = procs s \<and>
      (let used = filter (\<lambda>p. state p \<noteq> UNUSED) (procs s); n = length used in
       take n (st_pid q) = map pid used \<and> take n (st_tickets q) = map tickets used \<and>
       take n (st_ticks q) = map pticks used \<and> drop n (st_pid q) = drop n (st_pid ps))) \<and>
    (\<exists>t. getpinfo None s = Inr (-1, None, t) \<and> pt_lock t \<and> yield t = Inl ''acquire'' \<and>
      (\<forall>pd. kill pd t = Inl ''acquire''))"
proof -
  have "length (filter (\<lambda>p. state p \<noteq> UNUSED) (procs s)) \<le> NPROC"
    using length_filter_le [of _ "procs s"] assms(3) by metis
  with getpinfo_loop_lists [of "procs s" 0 ps] assms show ?thesis
    by (auto simp: getpinfo_def pt_acquire_def pt_release_def cpu_pop_def push_cpu_def yield_def kill_def Let_def)
qed

theorem getpinfo_spec_witness:
  "\<exists>t q. getpinfo (Some \<lparr>st_inuse = replicate 64 0, st_tickets = replicate 64 0, st_pid = replicate 64 0,
      st_ticks = replicate 64 0\<rparr>) unit_run = Inr (0, Some q, t) \<and> take 1 (st_pid q) = [1] \<and> \<not> pt_lock t"
proof -
  have "filter (\<lambda>p. state p \<noteq> UNUSED) (procs unit_run) = [proc0\<lparr>state := RUNNING, pid := 1, sz := 4096\<rparr>]"
    by (simp add: unit_run_def unit_run_with_def proc0_def)
  moreover have "\<not> pt_lock unit_run" "0 \<le> ncli (cpu unit_run)" "length (procs unit_run) = NPROC"
    by (simp_all add: unit_run_def unit_run_with_def unit_boot_def NPROC_def)
  ultimately show ?thesis
    using getpinfo_spec [of unit_run "\<lparr>st_inuse = replicate 64 0, st_tickets = replicate 64 0, st_pid = replicate 64 0,
      st_ticks = replicate 64 0\<rparr>"] by (auto simp: Let_def NPROC_def)
qed

end
