(* ===== verification/XvMlfq.thy ===== *)
theory XvMlfq
  imports XvProcProps
begin

text \<open>
  The multi-level feedback queue scheduler of \<^verbatim>\<open>lab-2/proc_mlfq_v02.c\<close>.  The table of \<open>XvProc\<close> gets the
  three arrays \<open>mlfq_queue\<close> of process pointers, with \<open>mlfq_queue_size\<close> the index of the last entry
  of each (-1 for an empty queue), and the time of the next promotion.  An access outside an array
  is an error, as are reads of an entry that was never written.  \<open>exit\<close> and \<open>wakeup\<close> are
  \<open>exit_with\<close> and \<open>wakeup_with\<close> on this file's \<open>wakeup1\<close>.
\<close>

subsection \<open>State\<close>

record 'k mlfq = "'k ptable" +
  PromoteAtTime :: u32
  mlfq_queue :: "nat option list list"
  mlfq_queue_size :: "int list"

definition qsize :: "'k mlfq \<Rightarrow> nat \<Rightarrow> int" where
  "qsize s i = mlfq_queue_size s ! i"

definition qarr :: "'k mlfq \<Rightarrow> nat \<Rightarrow> nat option list" where
  "qarr s i = mlfq_queue s ! i"

definition set_queue :: "nat \<Rightarrow> nat option list \<Rightarrow> int \<Rightarrow> 'k mlfq \<Rightarrow> 'k mlfq" where
  "set_queue i q n s = s\<lparr>mlfq_queue := (mlfq_queue s)[i := q], mlfq_queue_size := (mlfq_queue_size s)[i := n]\<rparr>"

text \<open>\<open>mlfq_queue_size[pr]++; mlfq_queue[pr][mlfq_queue_size[pr]] = p\<close>.\<close>

definition enqueue :: "int \<Rightarrow> nat \<Rightarrow> 'k mlfq \<Rightarrow> 'k mlfq res" where
  "enqueue pr p s =
     (if pr < 0 \<or> MAXPRIORITY < pr then Inl ''mlfq_queue: level out of bounds''
      else let i = nat pr; n = qsize s i + 1
           in if n < 0 \<or> 2 * int NPROC \<le> n then Inl ''mlfq_queue: index out of bounds''
              else Inr (set_queue i ((qarr s i)[nat n := Some p]) n s))"

text \<open>The removal of the entry at index \<open>k\<close>: the later entries move down by one.\<close>

definition shift_down :: "nat \<Rightarrow> nat \<Rightarrow> nat option list \<Rightarrow> nat option list" where
  "shift_down k n q = fold (\<lambda>t q. q[t := q ! (t + 1)]) [k..<n] q"

definition remove_at :: "nat \<Rightarrow> nat \<Rightarrow> 'k mlfq \<Rightarrow> 'k mlfq" where
  "remove_at i k s = set_queue i (shift_down k (nat (qsize s i)) (qarr s i)) (qsize s i - 1) s"

subsection \<open>Creating and waking processes\<close>

definition userinit_mlfq :: "'k svc \<Rightarrow> 'k mlfq \<Rightarrow> 'k mlfq res" where
  "userinit_mlfq svc s =
     rbind (userinit svc s) (\<lambda>s1. Inr (s1\<lparr>PromoteAtTime := ticks s1 + TICKS_TO_PROMOTE\<rparr>))"

definition fork_mlfq :: "'k svc \<Rightarrow> 'k mlfq \<Rightarrow> (int \<times> 'k mlfq) res" where
  "fork_mlfq svc s0 =
     rbind (fork_child svc s0) (\<lambda>(r, s1).
     case r of None \<Rightarrow> Inr (-1, s1)
     | Some np \<Rightarrow>
         let pd = pid (getp s1 np)
         in rbind (pt_acquire s1) (\<lambda>s2.
            rbind (enqueue MAXPRIORITY np (setp np (\<lambda>x. x\<lparr>state := RUNNABLE, priority := MAXPRIORITY,
                     original_priority := MAXPRIORITY, budget := DEFAULT_BUDGET\<rparr>) s2)) (\<lambda>s3.
            rbind (pt_release s3) (\<lambda>s4. Inr (pd, s4)))))"

text \<open>The search of \<open>wakeup1\<close> stops before the last entry (\<open>i < mlfq_queue_size\<close>).\<close>

definition queued_before_last :: "nat \<Rightarrow> 'k mlfq \<Rightarrow> bool" where
  "queued_before_last p s =
     (let i = nat (priority (getp s p)) in Some p \<in> set (take (nat (qsize s i)) (qarr s i)))"

fun wakeup1_mlfq_loop :: "channel \<Rightarrow> nat list \<Rightarrow> 'k mlfq \<Rightarrow> 'k mlfq res" where
  "wakeup1_mlfq_loop ch [] s = Inr s"
| "wakeup1_mlfq_loop ch (p # ps) s =
     (if state (getp s p) = SLEEPING \<and> chan (getp s p) = ch
      then let s1 = setp p (\<lambda>x. x\<lparr>state := RUNNABLE\<rparr>) s
           in rbind (if queued_before_last p s1 then Inr s1 else enqueue (priority (getp s1 p)) p s1)
                (wakeup1_mlfq_loop ch ps)
      else wakeup1_mlfq_loop ch ps s)"

definition wakeup1_mlfq :: "channel \<Rightarrow> 'k mlfq \<Rightarrow> 'k mlfq res" where
  "wakeup1_mlfq ch s = wakeup1_mlfq_loop ch [0..<NPROC] s"

definition exit_mlfq :: "'k svc \<Rightarrow> 'k mlfq \<Rightarrow> 'k mlfq res" where
  "exit_mlfq = exit_with wakeup1_mlfq"

definition wakeup_mlfq :: "channel \<Rightarrow> 'k mlfq \<Rightarrow> 'k mlfq res" where
  "wakeup_mlfq = wakeup_with wakeup1_mlfq"

subsection \<open>The scheduler\<close>

definition delete_proc :: "nat \<Rightarrow> nat \<Rightarrow> 'k mlfq \<Rightarrow> 'k mlfq" where
  "delete_proc i p s =
     (case find_idx (\<lambda>x. x = Some p) (take (nat (qsize s i + 1)) (qarr s i)) of
        None \<Rightarrow> s
      | Some k \<Rightarrow> remove_at i k s)"

definition promote_one :: "nat \<Rightarrow> 'k mlfq \<Rightarrow> 'k mlfq res" where
  "promote_one p s =
     (if state (getp s p) \<noteq> ZOMBIE \<and> priority (getp s p) < MAXPRIORITY
      then if priority (getp s p) < 0 then Inl ''mlfq_queue: level out of bounds''
           else let s1 = delete_proc (nat (priority (getp s p))) p s;
                    s2 = snd (setpriority (pid (getp s1 p)) (priority (getp s1 p) + 1) s1);
                    s3 = setp p (\<lambda>x. x\<lparr>budget := DEFAULT_BUDGET\<rparr>) s2
                in enqueue (priority (getp s3 p)) p s3
      else Inr s)"

fun promote_loop :: "nat list \<Rightarrow> 'k mlfq \<Rightarrow> 'k mlfq res" where
  "promote_loop [] s = Inr s"
| "promote_loop (p # ps) s = rbind (promote_one p s) (promote_loop ps)"

definition promote :: "'k mlfq \<Rightarrow> 'k mlfq res" where
  "promote s =
     (if PromoteAtTime s \<le> ticks s
      then rbind (promote_loop [0..<NPROC] s) (\<lambda>s1. Inr (s1\<lparr>PromoteAtTime := ticks s1 + TICKS_TO_PROMOTE\<rparr>))
      else Inr s)"

text \<open>Running the process at index \<open>k\<close> of level \<open>i\<close>: up to the switch, and after the switch back.\<close>

definition dispatch_in :: "'k svc \<Rightarrow> nat \<Rightarrow> nat \<Rightarrow> nat \<Rightarrow> 'k mlfq \<Rightarrow> 'k mlfq res" where
  "dispatch_in svc i k p s =
     (let s1 = (remove_at i k s)\<lparr>curproc := Some p\<rparr>
      in rbind (with_k (switchuvm_op svc (getp s1 p)) s1) (\<lambda>s2.
         Inr (setp p (\<lambda>x. x\<lparr>state := RUNNING\<rparr>) s2)))"

definition dispatch_out :: "'k svc \<Rightarrow> nat \<Rightarrow> u32 \<Rightarrow> 'k mlfq \<Rightarrow> 'k mlfq res" where
  "dispatch_out svc p start_time s =
     (let s1 = s\<lparr>kst := switchkvm_op svc (kst s), curproc := None\<rparr>;
          s2 = setp p (\<lambda>x. x\<lparr>budget := budget x - (sint (ticks s1) - sint start_time)\<rparr>) s1
      in if budget (getp s2 p) \<le> 0
         then if 0 < priority (getp s2 p)
              then let s3 = snd (setpriority (pid (getp s2 p)) (priority (getp s2 p) - 1) s2);
                       s4 = setp p (\<lambda>x. x\<lparr>original_priority := priority x\<rparr>) s3
                   in enqueue (priority (getp s4 p)) p s4
              else enqueue (priority (getp s2 p)) p s2
         else enqueue (priority (getp s2 p)) p s2)"

definition dispatch ::
  "(nat \<Rightarrow> 'k mlfq \<Rightarrow> 'k mlfq) \<Rightarrow> 'k svc \<Rightarrow> nat \<Rightarrow> nat \<Rightarrow> 'k mlfq \<Rightarrow> 'k mlfq res" where
  "dispatch run svc i k s =
     (case qarr s i ! k of
        None \<Rightarrow> Inl ''null pointer''
      | Some p \<Rightarrow> rbind (dispatch_in svc i k p s) (\<lambda>s1. dispatch_out svc p (ticks s) (run p s1)))"

text \<open>
  The loops over one level: \<open>k\<close> scans the queue, whose size is read anew at each step, and \<open>check\<close>
  remembers that a process ran; after the scan the \<open>while\<close> loop starts over if one did.  The loop
  need not end, so its result is an \<open>option\<close>.
\<close>

partial_function (option) level_loop ::
  "(nat \<Rightarrow> 'k mlfq \<Rightarrow> 'k mlfq) \<Rightarrow> 'k svc \<Rightarrow> nat \<Rightarrow> nat \<Rightarrow> bool \<Rightarrow> 'k mlfq \<Rightarrow> 'k mlfq res option" where
  "level_loop run svc i k check s =
     (if int k \<le> qsize s i
      then case qarr s i ! k of
             None \<Rightarrow> Some (Inl ''null pointer'')
           | Some p \<Rightarrow>
               if state (getp s p) \<noteq> RUNNABLE
               then if int k = qsize s i
                    then if check then level_loop run svc i 0 False s else Some (Inr s)
                    else level_loop run svc i (k + 1) check s
               else case dispatch run svc i k s of
                      Inl e \<Rightarrow> Some (Inl e)
                    | Inr t \<Rightarrow> level_loop run svc i (k + 1) True t
      else if check \<and> 0 \<le> qsize s i then level_loop run svc i 0 False s else Some (Inr s))"

fun levels :: "(nat \<Rightarrow> 'k mlfq \<Rightarrow> 'k mlfq) \<Rightarrow> 'k svc \<Rightarrow> nat list \<Rightarrow> 'k mlfq \<Rightarrow> 'k mlfq res option" where
  "levels run svc [] s = Some (Inr s)"
| "levels run svc (i # is) s =
     (if qsize s i < 0 then levels run svc is s
      else case level_loop run svc i 0 False s of
             None \<Rightarrow> None
           | Some (Inl e) \<Rightarrow> Some (Inl e)
           | Some (Inr t) \<Rightarrow> levels run svc is t)"

text \<open>One round of the endless loop of the scheduler.  When the lock is held, the \<open>pushcli\<close> and \<open>popcli\<close> of
  \<open>holding\<close> leave interrupts off, which is why the \<open>release\<close> that follows does not panic.\<close>

definition scheduler_mlfq :: "(nat \<Rightarrow> 'k mlfq \<Rightarrow> 'k mlfq) \<Rightarrow> 'k svc \<Rightarrow> 'k mlfq \<Rightarrow> 'k mlfq res option" where
  "scheduler_mlfq run svc s =
     (let s1 = s\<lparr>cpu := (cpu s)\<lparr>IF := True\<rparr>\<rparr>
      in case rbind (if pt_lock s1 then pt_release (s1\<lparr>cpu := (cpu s1)\<lparr>IF := False\<rparr>\<rparr>) else Inr s1)
                (\<lambda>s2. rbind (pt_acquire s2) promote) of
           Inl e \<Rightarrow> Some (Inl e)
         | Inr s3 \<Rightarrow> map_option (\<lambda>r. rbind r pt_release) (levels run svc [2, 1, 0] s3))"

subsection \<open>Queues as lists\<close>

definition queue :: "'k mlfq \<Rightarrow> nat \<Rightarrow> nat list" where
  "queue s i = map the (take (nat (qsize s i + 1)) (qarr s i))"

definition queues_ok :: "'k mlfq \<Rightarrow> bool" where
  "queues_ok s \<longleftrightarrow> length (mlfq_queue s) = 3 \<and> length (mlfq_queue_size s) = 3 \<and>
     (\<forall>i<3. length (qarr s i) = 2 * NPROC \<and> -1 \<le> qsize s i \<and> qsize s i < 2 * int NPROC \<and>
        (\<forall>k. int k \<le> qsize s i \<longrightarrow> qarr s i ! k \<noteq> None))"

lemma queue_setp [simp]:
  "queue (setp p f s) = queue s" "qsize (setp p f s) = qsize s" "qarr (setp p f s) = qarr s"
  "queues_ok (setp p f s) = queues_ok s"
  by (simp_all add: queue_def qsize_def qarr_def setp_def queues_ok_def fun_eq_iff)

lemma queue_upd [simp]:
  "queue (s\<lparr>curproc := c\<rparr>) = queue s" "queue (s\<lparr>kst := k\<rparr>) = queue s" "queue (s\<lparr>PromoteAtTime := n\<rparr>) = queue s"
  "queues_ok (s\<lparr>curproc := c\<rparr>) = queues_ok s" "queues_ok (s\<lparr>kst := k\<rparr>) = queues_ok s"
  "queues_ok (s\<lparr>PromoteAtTime := n\<rparr>) = queues_ok s"
  by (simp_all add: queue_def qsize_def qarr_def queues_ok_def fun_eq_iff)

lemma set_queue_sel:
  assumes "queues_ok s" "i < 3"
  shows "qarr (set_queue i q n s) j = (if j = i then q else qarr s j)"
    "qsize (set_queue i q n s) j = (if j = i then n else qsize s j)"
  using assms by (auto simp: set_queue_def qarr_def qsize_def queues_ok_def nth_list_update_if)

lemma set_queue_fields [simp]:
  "procs (set_queue i q n s) = procs s" "getp (set_queue i q n s) = getp s" "curproc (set_queue i q n s) = curproc s"
  "ticks (set_queue i q n s) = ticks s" "kst (set_queue i q n s) = kst s" "pt_lock (set_queue i q n s) = pt_lock s"
  by (simp_all add: set_queue_def getp_def fun_eq_iff)

lemma queues_ok_set_queue:
  assumes "queues_ok s" "i < 3" "length q = 2 * NPROC" "-1 \<le> n" "n < 2 * int NPROC"
    "\<And>k. int k \<le> n \<Longrightarrow> q ! k \<noteq> None"
  shows "queues_ok (set_queue i q n s)"
  using assms unfolding queues_ok_def
  by (auto simp: set_queue_sel [OF assms(1,2)]) (auto simp: set_queue_def)

lemma length_queue: "queues_ok s \<Longrightarrow> i < 3 \<Longrightarrow> int (length (queue s i)) = qsize s i + 1"
  by (auto simp: queue_def queues_ok_def min_def)

lemma queue_nth: "queues_ok s \<Longrightarrow> i < 3 \<Longrightarrow> k < length (queue s i) \<Longrightarrow> qarr s i ! k = Some (queue s i ! k)"
proof -
  assume a: "queues_ok s" "i < 3" "k < length (queue s i)"
  then have "int k \<le> qsize s i" using length_queue [of s i] by linarith
  then have "qarr s i ! k \<noteq> None" using a by (simp add: queues_ok_def)
  then show ?thesis using a by (auto simp: queue_def)
qed

text \<open>Enqueueing appends, and fails exactly on a full queue.\<close>

lemma enqueue_ok:
  assumes ok: "queues_ok s" and pr: "0 \<le> pr" "pr \<le> MAXPRIORITY"
  shows "case enqueue pr p s of
      Inl _ \<Rightarrow> length (queue s (nat pr)) = 2 * NPROC
    | Inr t \<Rightarrow> queues_ok t \<and> length (queue s (nat pr)) < 2 * NPROC \<and>
        (\<forall>j<3. queue t j = (if j = nat pr then queue s j @ [p] else queue s j)) \<and>
        procs t = procs s \<and> curproc t = curproc s \<and> ticks t = ticks s"
proof -
  define i where "i = nat pr"
  have i: "i < 3" using pr by (auto simp: i_def MAXPRIORITY_def)
  define n where "n = qsize s i + 1"
  have b: "length (qarr s i) = 2 * NPROC" "0 \<le> n" "n \<le> 2 * int NPROC" "\<And>k. int k \<le> n - 1 \<Longrightarrow> qarr s i ! k \<noteq> None"
    using ok i by (auto simp: queues_ok_def n_def)
  have len: "int (length (queue s i)) = n" using length_queue [OF ok i] by (simp add: n_def)
  show ?thesis
  proof (cases "2 * int NPROC \<le> n")
    case True
    then have "length (queue s i) = 2 * NPROC" using b(3) len by linarith
    then show ?thesis using True pr by (simp add: enqueue_def Let_def i_def [symmetric] n_def [symmetric])
  next
    case False
    define t where "t = set_queue i ((qarr s i)[nat n := Some p]) n s"
    have e: "enqueue pr p s = Inr t" using False pr b(2) by (simp add: enqueue_def Let_def i_def n_def t_def)
    have "queues_ok t" unfolding t_def
      by (rule queues_ok_set_queue) (use ok i b False in \<open>auto simp: nth_list_update_if\<close>)
    moreover have "queue t j = (if j = i then queue s j @ [p] else queue s j)" for j
    proof (cases "j = i")
      case True
      have "nat (n + 1) = Suc (nat n)" "nat n < length (qarr s i)" using b False by auto
      then show ?thesis using True
        by (simp add: queue_def t_def set_queue_sel [OF ok i] take_Suc_update n_def)
    qed (simp add: queue_def t_def set_queue_sel [OF ok i])
    moreover have "length (queue s i) < 2 * NPROC" using False len by linarith
    ultimately show ?thesis by (simp add: e i_def) (simp add: t_def)
  qed
qed

lemma shift_down_Suc:
  "shift_down k (Suc m) q = (if k \<le> m then (shift_down k m q)[m := shift_down k m q ! Suc m] else shift_down k m q)"
  by (simp add: shift_down_def)

lemma shift_down_keep: "m \<le> j \<Longrightarrow> shift_down k m q ! j = q ! j"
  by (induction m) (simp add: shift_down_def, simp add: shift_down_Suc)

lemma take_shift_down:
  assumes "k \<le> n" "n < length q"
  shows "take n (shift_down k n q) = take k q @ take (n - k) (drop (k + 1) q) \<and> length (shift_down k n q) = length q"
  using assms
proof (induction n)
  case 0
  then show ?case by (simp add: shift_down_def)
next
  case (Suc n)
  show ?case
  proof (cases "k = Suc n")
    case True
    then show ?thesis by (simp add: shift_down_def)
  next
    case False
    then have k: "k \<le> n" using Suc.prems by simp
    define r where "r = shift_down k n q"
    have ih: "take n r = take k q @ take (n - k) (drop (k + 1) q)" "length r = length q"
      using Suc.IH k Suc.prems by (auto simp: r_def)
    have "shift_down k (Suc n) q = r[n := q ! Suc n]"
      using k by (simp add: shift_down_Suc shift_down_keep r_def)
    moreover have "take (Suc n - k) (drop (k + 1) q) = take (n - k) (drop (k + 1) q) @ [q ! Suc n]"
      using k Suc.prems by (simp add: Suc_diff_le take_Suc_conv_app_nth)
    ultimately show ?thesis using ih Suc.prems by (simp add: take_Suc_update)
  qed
qed

lemma remove_at_ok:
  assumes ok: "queues_ok s" and i: "i < 3" and k: "k < length (queue s i)"
  shows "queues_ok (remove_at i k s) \<and>
    (\<forall>j. queue (remove_at i k s) j = (if j = i then take k (queue s j) @ drop (Suc k) (queue s j) else queue s j)) \<and>
    procs (remove_at i k s) = procs s \<and> curproc (remove_at i k s) = curproc s \<and> ticks (remove_at i k s) = ticks s"
proof -
  define n where "n = nat (qsize s i)"
  have len: "int (length (queue s i)) = qsize s i + 1" by (rule length_queue [OF ok i])
  then have n: "int n = qsize s i" "length (queue s i) = Suc n" "k \<le> n" using k by (auto simp: n_def)
  have b: "length (qarr s i) = 2 * NPROC" "n < 2 * NPROC" "\<And>j. j \<le> n \<Longrightarrow> qarr s i ! j \<noteq> None"
    using ok i n by (auto simp: queues_ok_def)
  define q where "q = shift_down k n (qarr s i)"
  have q: "take n q = take k (qarr s i) @ take (n - k) (drop (k + 1) (qarr s i))" "length q = 2 * NPROC"
    using take_shift_down [of k n "qarr s i"] n b by (auto simp: q_def)
  have r: "remove_at i k s = set_queue i q (int n - 1) s" by (simp add: remove_at_def q_def n(1) [symmetric])
  have ne: "q ! j \<noteq> None" if "j < n" for j
  proof -
    have "q ! j = take n q ! j" using that by simp
    also have "\<dots> = qarr s i ! (if j < k then j else Suc j)"
      using q(1) that n b by (auto simp: nth_append min_def)
    finally show ?thesis using b(3) that n by (auto split: if_splits)
  qed
  have "queues_ok (remove_at i k s)" unfolding r
    by (rule queues_ok_set_queue) (use ok i q b ne in auto)
  moreover have "queue (remove_at i k s) j = (if j = i then take k (queue s j) @ drop (Suc k) (queue s j) else queue s j)" for j
  proof (cases "j = i")
    case True
    have "queue s i = map the (take (Suc n) (qarr s i))" by (simp add: queue_def n(1) [symmetric] nat_add_distrib)
    then have "take k (queue s i) @ drop (Suc k) (queue s i) = map the (take n q)"
      using n b q(1) by (simp add: take_map drop_map drop_take min_def)
    then show ?thesis using True by (simp add: r queue_def set_queue_sel [OF ok i])
  qed (simp add: r queue_def set_queue_sel [OF ok i])
  ultimately show ?thesis by (simp add: r)
qed

end
