(* ===== verification/XvMlfqBound.thy ===== *)
theory XvMlfqBound
  imports XvMlfqProps
begin

text \<open>
  The queues of the MLFQ scheduler never lose an entry for good: exiting and reaping a process leave
  its entries in place, and a dispatch or a promotion takes out at most the one entry it puts back.
  Since every fork adds one, the number of forks in any execution is bounded by the capacity of the
  three arrays.
\<close>

subsection \<open>Operations that leave queues and priorities alone\<close>

definition same_q :: "'k mlfq \<Rightarrow> 'k mlfq \<Rightarrow> bool" where
  "same_q s t \<longleftrightarrow> mlfq_queue t = mlfq_queue s \<and> mlfq_queue_size t = mlfq_queue_size s \<and> curproc t = curproc s \<and>
     map priority (procs t) = map priority (procs s)"

lemma same_q_refl [simp]: "same_q s s"
  by (simp add: same_q_def)

lemma same_q_trans [trans]: "same_q s t \<Longrightarrow> same_q t u \<Longrightarrow> same_q s u"
  by (simp add: same_q_def)

lemma same_q_setp: "(\<And>x. priority (f x) = priority x) \<Longrightarrow> same_q s (setp p f s)"
proof -
  assume "\<And>x. priority (f x) = priority x"
  then have "map priority ((procs s)[p := f (procs s ! p)]) = map priority (procs s)"
    by (metis list_update_id map_update)
  then show ?thesis by (simp add: same_q_def setp_def)
qed

lemma same_q_upd [simp]:
  "same_q s (s\<lparr>kst := k\<rparr>)" "same_q s (s\<lparr>nextpid := n\<rparr>)" "same_q s (sched_resume b s)"
  "same_q s (s\<lparr>forkret_first := c\<rparr>)" "same_q s (s\<lparr>PromoteAtTime := m\<rparr>)" "same_q s (s\<lparr>ticks := tk\<rparr>)"
  by (simp_all add: same_q_def sched_resume_def)

lemma same_q_locks:
  "pt_acquire s = Inr t \<Longrightarrow> same_q s t" "pt_release s = Inr t \<Longrightarrow> same_q s t"
  "lock_acquire l s = Inr t \<Longrightarrow> same_q s t" "lock_release l s = Inr t \<Longrightarrow> same_q s t"
  "with_k f s = Inr t \<Longrightarrow> same_q s t"
  by (auto simp: pt_acquire_def pt_release_def lock_acquire_def lock_release_def with_k_def res_simps same_q_def)

lemma same_q_allocproc: "allocproc svc s = Inr (r, t) \<Longrightarrow> same_q s t"
proof -
  assume a: "allocproc svc s = Inr (r, t)"
  obtain s1 where s1: "pt_acquire s = Inr s1" using a by (auto simp: allocproc_def res_simps)
  show ?thesis
  proof (cases "find_idx (\<lambda>p. state p = UNUSED) (procs s1)")
    case None
    then show ?thesis using a s1 same_q_trans [OF same_q_locks(1) same_q_locks(2)] by (auto simp: allocproc_def res_simps)
  next
    case (Some p)
    define s2 where "s2 = (setp p (\<lambda>x. x\<lparr>state := EMBRYO, pid := nextpid s1\<rparr>) s1)\<lparr>nextpid := nextpid s1 + 1\<rparr>"
    obtain s3 k ks where s3: "pt_release s2 = Inr s3"
      and rt: "(r, t) = (let s4 = setp p (\<lambda>x. x\<lparr>kstack := k\<rparr>) (s3\<lparr>kst := ks\<rparr>)
        in if k = 0 then (None, setp p (\<lambda>x. x\<lparr>state := UNUSED\<rparr>) s4) else (Some p, setp p (setup_stack svc k) s4))"
      using a s1 Some unfolding allocproc_def s2_def by (fastforce simp: res_simps Let_def split: if_splits)
    define s4 where "s4 = setp p (\<lambda>x. x\<lparr>kstack := k\<rparr>) (s3\<lparr>kst := ks\<rparr>)"
    note same_q_locks(1) [OF s1]
    also have "same_q s1 s2" unfolding s2_def by (rule same_q_trans [OF same_q_setp same_q_upd(2)]) simp
    also note same_q_locks(2) [OF s3]
    also have "same_q s3 s4" unfolding s4_def by (rule same_q_trans [OF same_q_upd(1) same_q_setp]) simp
    also have "same_q s4 t" using rt by (auto simp: s4_def [symmetric] Let_def setup_stack_def intro!: same_q_setp split: if_splits)
    finally show ?thesis .
  qed
qed

lemma same_q_file_step:
  assumes "with_k f s = Inr s1" and "same_q (setp p (\<lambda>x. x\<lparr>ofile := g x\<rparr>) s1) t"
  shows "same_q s t"
proof -
  note same_q_locks(5) [OF assms(1)]
  also have "same_q s1 (setp p (\<lambda>x. x\<lparr>ofile := g x\<rparr>) s1)" by (rule same_q_setp) simp
  also note assms(2)
  finally show ?thesis .
qed

lemma same_q_dup_files: "dup_files svc cp np is s = Inr t \<Longrightarrow> same_q s t"
proof (induction "is" arbitrary: s)
  case (Cons i "is")
  show ?case
  proof (cases "ofile (getp s cp) ! i")
    case None
    then show ?thesis using Cons by simp
  next
    case (Some f)
    then obtain s1 where s1: "with_k (filedup_op svc f) s = Inr s1" and t: "dup_files svc cp np is (setp np (\<lambda>x. x\<lparr>ofile := (ofile x)[i := Some f]\<rparr>) s1) = Inr t"
      using Cons.prems by (auto simp: res_simps)
    show ?thesis by (rule same_q_file_step [OF s1 Cons.IH [OF t]])
  qed
qed simp

lemma same_q_close_files: "close_files svc cp is s = Inr t \<Longrightarrow> same_q s t"
proof (induction "is" arbitrary: s)
  case (Cons i "is")
  show ?case
  proof (cases "ofile (getp s cp) ! i")
    case None
    then show ?thesis using Cons by simp
  next
    case (Some f)
    then obtain s1 where s1: "with_k (fileclose_op svc f) s = Inr s1" and t: "close_files svc cp is (setp cp (\<lambda>x. x\<lparr>ofile := (ofile x)[i := None]\<rparr>) s1) = Inr t"
      using Cons.prems by (auto simp: res_simps)
    show ?thesis by (rule same_q_file_step [OF s1 Cons.IH [OF t]])
  qed
qed simp

lemma same_q_fork_child: "fork_child svc s = Inr (r, t) \<Longrightarrow> same_q s t"
proof -
  assume a: "fork_child svc s = Inr (r, t)"
  obtain cp where cp: "curproc s = Some cp" using a by (cases "curproc s") (auto simp: fork_child_def)
  obtain r1 s1 where al: "allocproc svc s = Inr (r1, s1)" using a cp by (auto simp: fork_child_def res_simps)
  show ?thesis
  proof (cases r1)
    case None
    then show ?thesis using a cp al same_q_allocproc by (auto simp: fork_child_def)
  next
    case (Some np)
    obtain pd ks where cu: "copyuvm_op svc (pgdir (getp s1 cp)) (sz (getp s1 cp)) (kst s1) = Inr (pd, ks)"
      using a cp al Some by (auto simp: fork_child_def res_simps)
    define s2 where "s2 = setp np (\<lambda>x. x\<lparr>pgdir := pd\<rparr>) (s1\<lparr>kst := ks\<rparr>)"
    have "same_q s s2" unfolding s2_def
      by (rule same_q_trans [OF same_q_trans [OF same_q_allocproc [OF al] same_q_upd(1)] same_q_setp]) simp
    also have "same_q s2 t"
    proof (cases "pd = 0")
      case True
      then show ?thesis using a cp al Some cu unfolding s2_def
        by (auto simp: fork_child_def res_simps Let_def intro: same_q_trans [OF same_q_locks(5) same_q_setp])
    next
      case False
      define s3 where "s3 = setp np (\<lambda>x. x\<lparr>sz := sz (getp s2 cp), parent := Some cp,
                                     tf := (tf (getp s2 cp))\<lparr>tf_eax := 0\<rparr>\<rparr>) s2"
      obtain s4 d ks2 where s4: "dup_files svc cp np [0..<NOFILE] s3 = Inr s4"
        and t: "t = setp np (\<lambda>x. x\<lparr>cwd := d, name := name (getp s4 cp)\<rparr>) (s4\<lparr>kst := ks2\<rparr>)"
        using a cp al Some cu False unfolding s2_def s3_def
        by (auto simp: fork_child_def res_simps Let_def split_beta)
      have "same_q s2 s3" unfolding s3_def by (rule same_q_setp) simp
      also note same_q_dup_files [OF s4]
      also have "same_q s4 t" unfolding t by (rule same_q_trans [OF same_q_upd(1) same_q_setp]) simp
      finally show ?thesis .
    qed
    finally show ?thesis .
  qed
qed

lemma same_q_sched: "sched s = Inr t \<Longrightarrow> same_q s t"
  using sched_eq [of s t] by simp

lemma same_q_sleep: "sleep ch lk s = Inr t \<Longrightarrow> same_q s t"
proof -
  assume s: "sleep ch lk s = Inr t"
  obtain p s1 where
    s1: "(case lk of OtherLock l \<Rightarrow> rbind (pt_acquire s) (lock_release l) | _ \<Rightarrow> Inr s) = Inr s1" and
    t: "sched (setp p (\<lambda>x. x\<lparr>chan := ch, state := SLEEPING\<rparr>) s1) = Inr t"
    using s by (auto simp: sleep_def res_simps split: option.splits if_splits)
  have "same_q s s1"
    using s1 same_q_trans [OF same_q_locks(1) same_q_locks(4)] by (auto simp: res_simps split: lockref.splits)
  also have "same_q s1 (setp p (\<lambda>x. x\<lparr>chan := ch, state := SLEEPING\<rparr>) s1)" by (rule same_q_setp) simp
  also note same_q_sched [OF t]
  finally show ?thesis .
qed

lemma same_q_sleep_resume: "sleep_resume b lk s = Inr t \<Longrightarrow> same_q s t"
proof -
  assume r: "sleep_resume b lk s = Inr t"
  then obtain p where p: "curproc (sched_resume b s) = Some p" by (auto simp: sleep_resume_def Let_def split: option.splits)
  define s2 where "s2 = setp p (\<lambda>x. x\<lparr>chan := NoChan\<rparr>) (sched_resume b s)"
  have "same_q s s2" unfolding s2_def by (rule same_q_trans [OF same_q_upd(3) same_q_setp]) simp
  also have "same_q s2 t"
    using r p same_q_trans [OF same_q_locks(2) same_q_locks(3)]
    by (auto simp: sleep_resume_def Let_def s2_def res_simps split: lockref.splits)
  finally show ?thesis .
qed

lemma same_q_yield: "yield s = Inr t \<Longrightarrow> same_q s t"
proof -
  assume y: "yield s = Inr t"
  obtain s1 p where s1: "pt_acquire s = Inr s1" and t: "sched (setp p (\<lambda>x. x\<lparr>state := RUNNABLE\<rparr>) s1) = Inr t"
    using y by (auto simp: yield_def res_simps split: option.splits)
  note same_q_locks(1) [OF s1]
  also have "same_q s1 (setp p (\<lambda>x. x\<lparr>state := RUNNABLE\<rparr>) s1)" by (rule same_q_setp) simp
  also note same_q_sched [OF t]
  finally show ?thesis .
qed

lemma same_q_yield_resume: "yield_resume b s = Inr t \<Longrightarrow> same_q s t"
  unfolding yield_resume_def by (rule same_q_trans [OF same_q_upd(3) same_q_locks(2)])

lemma same_q_kill: "kill pd s = Inr (r, t) \<Longrightarrow> same_q s t"
proof -
  assume k: "kill pd s = Inr (r, t)"
  obtain s1 where s1: "pt_acquire s = Inr s1" using k by (auto simp: kill_def res_simps)
  note same_q_locks(1) [OF s1]
  also have "same_q s1 t"
  proof (cases "find_idx (\<lambda>p. pid p = pd) (procs s1)")
    case None
    then show ?thesis using k s1 same_q_locks(2) by (auto simp: kill_def res_simps)
  next
    case (Some p)
    define s2 where "s2 = setp p (\<lambda>x. x\<lparr>killed := True\<rparr>) s1"
    define s3 where "s3 = (if state (getp s2 p) = SLEEPING then setp p (\<lambda>x. x\<lparr>state := RUNNABLE\<rparr>) s2 else s2)"
    have "same_q s1 s2" unfolding s2_def by (rule same_q_setp) simp
    also have "same_q s2 s3" by (auto simp: s3_def intro!: same_q_setp)
    also have "same_q s3 t"
      by (rule same_q_locks(2)) (use k s1 Some in \<open>auto simp: kill_def res_simps s2_def s3_def Let_def\<close>)
    finally show ?thesis .
  qed
  finally show ?thesis .
qed

lemma same_q_wait_pass: "wait_pass svc s = Inr (r, t) \<Longrightarrow> same_q s t"
proof -
  assume w: "wait_pass svc s = Inr (r, t)"
  obtain cp where cp: "curproc s = Some cp" using w by (cases "curproc s") (auto simp: wait_pass_def)
  show ?thesis
  proof (cases "find_idx (\<lambda>p. parent p = Some cp \<and> state p = ZOMBIE) (procs s)")
    case (Some p)
    define s2 where "s2 s1 = setp p (\<lambda>x. x\<lparr>kstack := 0\<rparr>) s1" for s1 :: "'a mlfq"
    define f where "f = (\<lambda>x. x\<lparr>pid := 0, parent := None, name := [], killed := False, state := UNUSED\<rparr> :: proc)"
    obtain s1 s3 s4 where s: "with_k (kfree_op svc (kstack (getp s p))) s = Inr s1"
      "with_k (freevm_op svc (pgdir (getp (s2 s1) p))) (s2 s1) = Inr s3" "pt_release (setp p f s3) = Inr s4" "t = s4"
      using w cp Some by (auto simp: wait_pass_def res_simps Let_def s2_def f_def)
    note same_q_locks(5) [OF s(1)]
    also have "same_q s1 (s2 s1)" unfolding s2_def by (rule same_q_setp) simp
    also note same_q_locks(5) [OF s(2)]
    also have "same_q s3 (setp p f s3)" by (rule same_q_setp) (simp add: f_def)
    also note same_q_locks(2) [OF s(3)]
    finally show ?thesis using s(4) by simp
  next
    case None
    then show ?thesis using w cp same_q_locks(2) same_q_sleep
      by (auto simp: wait_pass_def res_simps split: if_splits)
  qed
qed

lemma same_q_wait: "wait svc s = Inr (r, t) \<Longrightarrow> same_q s t" "wait_resume svc b s = Inr (r, t) \<Longrightarrow> same_q s t"
  by (auto simp: wait_def wait_resume_def res_simps
      dest!: same_q_wait_pass same_q_locks(1) same_q_sleep_resume intro: same_q_trans)

lemma same_q_settickets: "settickets n s = Inr (r, t) \<Longrightarrow> same_q s t"
proof (cases "n < 0")
  case False
  assume a: "settickets n s = Inr (r, t)"
  then obtain s1 p where s1: "pt_acquire s = Inr s1" "pt_release (setp p (\<lambda>x. x\<lparr>tickets := n\<rparr>) s1) = Inr t"
    using False by (auto simp: settickets_def res_simps split: option.splits)
  have "same_q s1 (setp p (\<lambda>x. x\<lparr>tickets := n\<rparr>) s1)" by (rule same_q_setp) simp
  then show ?thesis using same_q_trans same_q_locks(1) [OF s1(1)] same_q_locks(2) [OF s1(2)] by blast
qed (simp add: settickets_def)

subsection \<open>Counting entries\<close>

definition entries :: "'k mlfq \<Rightarrow> nat" where
  "entries s = length (queue s 0) + length (queue s 1) + length (queue s 2)"

definition on_cpu :: "'k mlfq \<Rightarrow> nat" where
  "on_cpu s = (if curproc s = None then 0 else 1)"

definition wf_mlfq :: "'k mlfq \<Rightarrow> bool" where
  "wf_mlfq s \<longleftrightarrow> queues_ok s \<and> (\<forall>x\<in>set (procs s). 0 \<le> priority x \<and> priority x \<le> MAXPRIORITY)"

lemma wf_same_q:
  assumes "same_q s t" "wf_mlfq s"
  shows "wf_mlfq t" "entries t = entries s" "on_cpu t = on_cpu s"
proof -
  have q: "queue t = queue s" "queues_ok t = queues_ok s" "qsize t = qsize s" "qarr t = qarr s"
    using assms(1) by (auto simp: same_q_def queue_def qsize_def qarr_def queues_ok_def fun_eq_iff)
  have "priority ` set (procs t) = priority ` set (procs s)" using assms(1) unfolding same_q_def by (metis list.set_map)
  then have "\<forall>x\<in>set (procs t). 0 \<le> priority x \<and> priority x \<le> MAXPRIORITY"
    using assms(2) unfolding wf_mlfq_def by (metis (no_types, lifting) image_iff)
  then show "wf_mlfq t" using assms(2) q(2) by (simp add: wf_mlfq_def)
  show "entries t = entries s" "on_cpu t = on_cpu s" using assms(1) q(1) by (simp_all add: entries_def on_cpu_def same_q_def)
qed

lemma wf_setp:
  assumes "wf_mlfq s" "\<And>x. 0 \<le> priority x \<Longrightarrow> priority x \<le> MAXPRIORITY \<Longrightarrow> 0 \<le> priority (f x) \<and> priority (f x) \<le> MAXPRIORITY"
  shows "wf_mlfq (setp p f s)" "entries (setp p f s) = entries s" "on_cpu (setp p f s) = on_cpu s"
proof -
  show "wf_mlfq (setp p f s)"
  proof (cases "p < length (procs s)")
    case True
    then have "procs s ! p \<in> set (procs s)" by simp
    then show ?thesis using assms set_update_subset_insert [of "procs s" p "f (procs s ! p)"]
      by (auto simp: wf_mlfq_def setp_def queues_ok_def qsize_def qarr_def)
  next
    case False
    then show ?thesis using assms(1) by (simp add: setp_def list_update_beyond wf_mlfq_def queues_ok_def qsize_def qarr_def)
  qed
  show "entries (setp p f s) = entries s" "on_cpu (setp p f s) = on_cpu s"
    by (simp_all add: entries_def on_cpu_def)
qed

lemma wf_curproc: "wf_mlfq (s\<lparr>curproc := c\<rparr>) = wf_mlfq s" "entries (s\<lparr>curproc := c\<rparr>) = entries s"
  by (simp_all add: wf_mlfq_def entries_def)

lemma wf_enqueue:
  assumes "wf_mlfq s" "enqueue pr p s = Inr t"
  shows "wf_mlfq t" "entries t = Suc (entries s)" "on_cpu t = on_cpu s" "\<And>q. getp t q = getp s q"
proof -
  have pr: "0 \<le> pr" "pr \<le> MAXPRIORITY" using assms(2) by (auto simp: enqueue_def split: if_splits)
  have "queues_ok s" using assms(1) by (simp add: wf_mlfq_def)
  note e = enqueue_ok [OF this pr, of p]
  show "wf_mlfq t" using e assms by (simp add: wf_mlfq_def)
  have "nat pr = 0 \<or> nat pr = 1 \<or> nat pr = 2" using pr by (auto simp: MAXPRIORITY_def)
  then show "entries t = Suc (entries s)" using e assms(2) by (auto simp: entries_def)
  show "on_cpu t = on_cpu s" using e assms(2) by (simp add: on_cpu_def)
  show "getp t q = getp s q" for q using e assms(2) by (simp add: getp_def)
qed

lemma wf_remove_at:
  assumes "wf_mlfq s" "i < 3" "k < length (queue s i)"
  shows "wf_mlfq (remove_at i k s)" "Suc (entries (remove_at i k s)) = entries s" "on_cpu (remove_at i k s) = on_cpu s"
proof -
  have "queues_ok s" using assms(1) by (simp add: wf_mlfq_def)
  note r = remove_at_ok [OF this assms(2,3)]
  show "wf_mlfq (remove_at i k s)" using r assms(1) by (simp add: wf_mlfq_def)
  have "i = 0 \<or> i = 1 \<or> i = 2" using assms(2) by auto
  then show "Suc (entries (remove_at i k s)) = entries s" using r assms(3) by (auto simp: entries_def)
  show "on_cpu (remove_at i k s) = on_cpu s" using r by (simp add: on_cpu_def)
qed

lemma wf_wakeup1:
  "wakeup1_mlfq_loop ch ps s = Inr t \<Longrightarrow> wf_mlfq s \<Longrightarrow> wf_mlfq t \<and> entries s \<le> entries t \<and> on_cpu t = on_cpu s"
proof (induction ps arbitrary: s)
  case (Cons p ps)
  show ?case
  proof (cases "state (getp s p) = SLEEPING \<and> chan (getp s p) = ch")
    case False
    then show ?thesis using Cons by (simp split: if_splits)
  next
    case True
    define s1 where "s1 = setp p (\<lambda>x. x\<lparr>state := RUNNABLE\<rparr>) s"
    obtain s2 where s2: "(if queued_before_last p s1 then Inr s1 else enqueue (priority (getp s1 p)) p s1) = Inr s2"
      and t: "wakeup1_mlfq_loop ch ps s2 = Inr t"
      using Cons.prems(1) True unfolding s1_def by (auto simp: Let_def res_simps)
    have 1: "wf_mlfq s1" "entries s1 = entries s" "on_cpu s1 = on_cpu s"
      using wf_setp [OF Cons.prems(2), of "\<lambda>x. x\<lparr>state := RUNNABLE\<rparr>" p] by (simp_all add: s1_def)
    have "wf_mlfq s2 \<and> entries s \<le> entries s2 \<and> on_cpu s2 = on_cpu s"
      using s2 1 wf_enqueue [OF 1(1)] by (auto split: if_splits)
    then show ?thesis using Cons.IH [OF t] by auto
  qed
qed simp

lemma wf_reparent:
  "reparent wakeup1_mlfq cp ps s = Inr t \<Longrightarrow> wf_mlfq s \<Longrightarrow> wf_mlfq t \<and> entries s \<le> entries t \<and> on_cpu t = on_cpu s"
proof (induction ps arbitrary: s)
  case (Cons p ps)
  show ?case
  proof (cases "parent (getp s p) = Some cp")
    case False
    then show ?thesis using Cons by simp
  next
    case True
    define s1 where "s1 = setp p (\<lambda>x. x\<lparr>parent := initproc s\<rparr>) s"
    obtain s2 where s2: "(if state (getp s1 p) = ZOMBIE then wakeup1_mlfq (chan_of (initproc s1)) s1 else Inr s1) = Inr s2"
      and t: "reparent wakeup1_mlfq cp ps s2 = Inr t"
      using Cons.prems(1) True unfolding s1_def by (auto simp: Let_def res_simps)
    have 1: "wf_mlfq s1" "entries s1 = entries s" "on_cpu s1 = on_cpu s"
      using wf_setp [OF Cons.prems(2), of "\<lambda>x. x\<lparr>parent := initproc s\<rparr>" p] by (simp_all add: s1_def)
    have "wf_mlfq s2 \<and> entries s \<le> entries s2 \<and> on_cpu s2 = on_cpu s"
      using s2 1 wf_wakeup1 [of _ _ s1 s2] by (auto simp: wakeup1_mlfq_def split: if_splits)
    then show ?thesis using Cons.IH [OF t] by auto
  qed
qed simp

subsection \<open>Every step keeps the count\<close>

definition counts :: "nat \<Rightarrow> 'k mlfq \<Rightarrow> bool" where
  "counts n s \<longleftrightarrow> wf_mlfq s \<and> n \<le> entries s + on_cpu s"

lemma counts_same_q: "same_q s t \<Longrightarrow> counts n s \<Longrightarrow> counts n t"
  using wf_same_q [of s t] by (simp add: counts_def)

lemma counts_fork:
  assumes c: "counts n s" and f: "fork_mlfq svc s = Inr (r, t)"
  shows "counts (if r = -1 then n else Suc n) t"
proof -
  obtain a s1 where a: "fork_child svc s = Inr (a, s1)" using f by (auto simp: fork_mlfq_def res_simps)
  have c1: "counts n s1" using counts_same_q [OF same_q_fork_child [OF a] c] .
  show ?thesis
  proof (cases a)
    case None
    then show ?thesis using f a c1 by (simp add: fork_mlfq_def)
  next
    case (Some np)
    define g where "g = (\<lambda>x. x\<lparr>state := RUNNABLE, priority := MAXPRIORITY,
                     original_priority := MAXPRIORITY, budget := DEFAULT_BUDGET\<rparr> :: proc)"
    obtain s2 s3 where s: "pt_acquire s1 = Inr s2" "enqueue MAXPRIORITY np (setp np g s2) = Inr s3" "pt_release s3 = Inr t"
      using f a Some by (auto simp: fork_mlfq_def res_simps Let_def g_def)
    have c2: "counts n s2" using counts_same_q [OF same_q_locks(1) [OF s(1)] c1] .
    have 1: "wf_mlfq (setp np g s2)" "entries (setp np g s2) = entries s2" "on_cpu (setp np g s2) = on_cpu s2"
      using wf_setp [of s2 g np] c2 by (auto simp: counts_def g_def MAXPRIORITY_def)
    have "counts (Suc n) s3" using wf_enqueue [OF 1(1) s(2)] 1 c2 by (simp add: counts_def)
    then have "counts (Suc n) t" using counts_same_q [OF same_q_locks(2) [OF s(3)]] by blast
    then show ?thesis by (simp add: counts_def)
  qed
qed

lemma counts_exit:
  assumes c: "counts n s" and e: "exit_mlfq svc s = Inr t"
  shows "counts n t"
proof -
  obtain cp s1 s2 s3 s4 s5 s6 s7 where 1: "close_files svc cp [0..<NOFILE] s = Inr s1"
      "with_k (begin_op_op svc) s1 = Inr s2" "with_k (iput_op svc (cwd (getp s2 cp))) s2 = Inr s3"
      "with_k (end_op_op svc) s3 = Inr s4"
      "pt_acquire (setp cp (\<lambda>x. x\<lparr>cwd := None\<rparr>) s4) = Inr s5"
    and 6: "wakeup1_mlfq (chan_of (parent (getp s5 cp))) s5 = Inr s6"
    and 7: "reparent wakeup1_mlfq cp [0..<NPROC] s6 = Inr s7"
    and t: "sched (setp cp (\<lambda>x. x\<lparr>state := ZOMBIE\<rparr>) s7) = Inr t"
    using e by (auto simp: exit_mlfq_def exit_with_def res_simps split: option.splits if_splits)
  have "same_q s4 (setp cp (\<lambda>x. x\<lparr>cwd := None\<rparr>) s4)" by (rule same_q_setp) simp
  then have "same_q s s5" using same_q_close_files [OF 1(1)] same_q_locks(5) [OF 1(2)] same_q_locks(5) [OF 1(3)]
      same_q_locks(5) [OF 1(4)] same_q_locks(1) [OF 1(5)] by (meson same_q_trans)
  then have "counts n s5" using c by (rule counts_same_q)
  then have "counts n s6" using wf_wakeup1 [OF 6 [unfolded wakeup1_mlfq_def]] by (auto simp: counts_def)
  then have c7: "counts n s7" using wf_reparent [OF 7] by (auto simp: counts_def)
  have "same_q s7 (setp cp (\<lambda>x. x\<lparr>state := ZOMBIE\<rparr>) s7)" by (rule same_q_setp) simp
  then show ?thesis using counts_same_q [OF same_q_trans [OF _ same_q_sched [OF t]] c7] by blast
qed

lemma counts_wakeup: "counts n s \<Longrightarrow> wakeup_mlfq ch s = Inr t \<Longrightarrow> counts n t"
proof -
  assume c: "counts n s" and w: "wakeup_mlfq ch s = Inr t"
  obtain s1 s2 where s: "pt_acquire s = Inr s1" "wakeup1_mlfq ch s1 = Inr s2" "pt_release s2 = Inr t"
    using w by (auto simp: wakeup_mlfq_def wakeup_with_def res_simps)
  have "counts n s1" using counts_same_q [OF same_q_locks(1) [OF s(1)] c] .
  then have "counts n s2" using wf_wakeup1 [OF s(2) [unfolded wakeup1_mlfq_def]] by (auto simp: counts_def)
  then show ?thesis using counts_same_q [OF same_q_locks(2) [OF s(3)]] by blast
qed

lemma wf_setpriority:
  assumes "wf_mlfq s" "setpriority pd pr s = (r, t)"
  shows "wf_mlfq t" "entries t = entries s" "on_cpu t = on_cpu s" "length (procs t) = length (procs s)"
  using assms wf_setp [OF assms(1), of "\<lambda>x. x\<lparr>priority := pr, budget := DEFAULT_BUDGET\<rparr>"]
  by (auto simp: setpriority_def split: if_splits option.splits)

lemma wf_delete:
  assumes "wf_mlfq s" "i < 3"
  shows "wf_mlfq (delete_proc i p s)" "entries s \<le> Suc (entries (delete_proc i p s))" "on_cpu (delete_proc i p s) = on_cpu s"
proof -
  have "k < length (queue s i)" if "find_idx (\<lambda>x. x = Some p) (take (nat (qsize s i + 1)) (qarr s i)) = Some k" for k
    using that by (auto simp: find_idx_Some queue_def)
  then show "wf_mlfq (delete_proc i p s)" "entries s \<le> Suc (entries (delete_proc i p s))" "on_cpu (delete_proc i p s) = on_cpu s"
    using wf_remove_at [OF assms] assms(1) by (auto simp: delete_proc_def split: option.splits)
qed

lemma counts_promote_one: "counts n s \<Longrightarrow> promote_one p s = Inr t \<Longrightarrow> counts n t"
proof (cases "state (getp s p) \<noteq> ZOMBIE \<and> priority (getp s p) < MAXPRIORITY")
  case True
  assume c: "counts n s" and pr: "promote_one p s = Inr t"
  define s1 where "s1 = delete_proc (nat (priority (getp s p))) p s"
  define s2 where "s2 = snd (setpriority (pid (getp s1 p)) (priority (getp s1 p) + 1) s1)"
  define s3 where "s3 = setp p (\<lambda>x. x\<lparr>budget := DEFAULT_BUDGET\<rparr>) s2"
  have i: "nat (priority (getp s p)) < 3" and e: "enqueue (priority (getp s3 p)) p s3 = Inr t"
    using pr True by (auto simp: promote_one_def s1_def s2_def s3_def Let_def MAXPRIORITY_def split: if_splits)
  have wf: "wf_mlfq s" using c by (simp add: counts_def)
  note 1 = wf_delete [OF wf i, of p, folded s1_def]
  obtain r where "setpriority (pid (getp s1 p)) (priority (getp s1 p) + 1) s1 = (r, s2)"
    by (cases "setpriority (pid (getp s1 p)) (priority (getp s1 p) + 1) s1") (simp add: s2_def)
  note 2 = wf_setpriority [OF 1(1) this]
  note 3 = wf_setp [OF 2(1), of "\<lambda>x. x\<lparr>budget := DEFAULT_BUDGET\<rparr>" p, simplified, folded s3_def]
  show ?thesis using wf_enqueue [OF 3(1) e] 1 2 3 c by (simp add: counts_def)
qed (auto simp: promote_one_def)

lemma counts_promote_loop: "counts n s \<Longrightarrow> promote_loop ps s = Inr t \<Longrightarrow> counts n t"
  by (induction ps arbitrary: s) (auto simp: res_simps dest: counts_promote_one)

lemma counts_promote: "counts n s \<Longrightarrow> promote s = Inr t \<Longrightarrow> counts n t"
proof (cases "PromoteAtTime s \<le> ticks s")
  case True
  assume c: "counts n s" and p: "promote s = Inr t"
  obtain u where "promote_loop [0..<NPROC] s = Inr u" "t = u\<lparr>PromoteAtTime := ticks u + TICKS_TO_PROMOTE\<rparr>"
    using p True by (auto simp: promote_def res_simps)
  then show ?thesis using counts_promote_loop [OF c] counts_same_q [OF same_q_upd(5)] by blast
qed (simp add: promote_def)

lemma counts_dispatch_in:
  assumes c: "counts n s" and cur: "curproc s = None" and i: "i < 3" and k: "k < length (queue s i)"
    and d: "dispatch_in svc i k p s = Inr t"
  shows "counts n t"
proof -
  have wf: "wf_mlfq s" using c by (simp add: counts_def)
  define s0 where "s0 = (remove_at i k s)\<lparr>curproc := Some p\<rparr>"
  obtain s2 where s2: "with_k (switchuvm_op svc (getp s0 p)) s0 = Inr s2" and t: "t = setp p (\<lambda>x. x\<lparr>state := RUNNING\<rparr>) s2"
    using d by (auto simp: dispatch_in_def s0_def Let_def res_simps)
  have "counts n s0" using wf_remove_at [OF wf i k] c cur by (simp add: counts_def s0_def wf_curproc on_cpu_def)
  then have "counts n s2" using counts_same_q [OF same_q_locks(5) [OF s2]] by blast
  moreover have "same_q s2 t" unfolding t by (rule same_q_setp) simp
  ultimately show ?thesis using counts_same_q by blast
qed

lemma counts_dispatch_out:
  assumes c: "counts n s" and d: "dispatch_out svc p start s = Inr t"
  shows "counts n t"
proof -
  define s1 where "s1 = s\<lparr>kst := switchkvm_op svc (kst s), curproc := None\<rparr>"
  define s2 where "s2 = setp p (\<lambda>x. x\<lparr>budget := budget x - (sint (ticks s1) - sint start)\<rparr>) s1"
  have wf: "wf_mlfq s" "n \<le> Suc (entries s)" using c by (auto simp: counts_def on_cpu_def split: if_splits)
  have 1: "wf_mlfq s1" "entries s1 = entries s" using wf(1) by (auto simp: s1_def wf_mlfq_def entries_def)
  have 2: "wf_mlfq s2" "entries s2 = entries s"
    using wf_setp [OF 1(1), of "\<lambda>x. x\<lparr>budget := budget x - (sint (ticks s1) - sint start)\<rparr>" p] 1(2)
    by (simp_all add: s2_def)
  obtain s4 where 4: "wf_mlfq s4" "entries s4 = entries s" "enqueue (priority (getp s4 p)) p s4 = Inr t"
  proof (cases "budget (getp s2 p) \<le> 0 \<and> 0 < priority (getp s2 p)")
    case True
    obtain r s3 where s3: "setpriority (pid (getp s2 p)) (priority (getp s2 p) - 1) s2 = (r, s3)" by fastforce
    note 3 = wf_setpriority [OF 2(1) s3]
    show thesis
    proof (rule that)
      show "enqueue (priority (getp (setp p (\<lambda>x. x\<lparr>original_priority := priority x\<rparr>) s3) p)) p
          (setp p (\<lambda>x. x\<lparr>original_priority := priority x\<rparr>) s3) = Inr t"
        using d True s3 unfolding dispatch_out_def Let_def s1_def [symmetric] s2_def [symmetric] by simp
    qed (use wf_setp [OF 3(1), of "\<lambda>x. x\<lparr>original_priority := priority x\<rparr>" p] 3 2 in auto)
  next
    case False
    then have "enqueue (priority (getp s2 p)) p s2 = Inr t"
      using d unfolding dispatch_out_def Let_def s1_def [symmetric] s2_def [symmetric] by (auto split: if_splits)
    then show thesis using that 2 by blast
  qed
  show ?thesis using wf_enqueue [OF 4(1,3)] 4(2) wf(2) by (simp add: counts_def)
qed

subsection \<open>Executions\<close>

text \<open>\<open>mreach svc s0 n s\<close>: the scheduler and the processes can get from \<open>s0\<close> to \<open>s\<close> with \<open>n\<close> successful forks.\<close>

inductive mreach :: "'k svc \<Rightarrow> 'k mlfq \<Rightarrow> nat \<Rightarrow> 'k mlfq \<Rightarrow> bool" for svc s0 where
  start: "mreach svc s0 0 s0"
| fork: "mreach svc s0 n s \<Longrightarrow> fork_mlfq svc s = Inr (r, t) \<Longrightarrow> mreach svc s0 (if r = -1 then n else Suc n) t"
| exit: "mreach svc s0 n s \<Longrightarrow> exit_mlfq svc s = Inr t \<Longrightarrow> mreach svc s0 n t"
| wait: "mreach svc s0 n s \<Longrightarrow> XvProc.wait svc s = Inr (w, t) \<or> wait_resume svc b s = Inr (w, t) \<Longrightarrow> mreach svc s0 n t"
| sleep: "mreach svc s0 n s \<Longrightarrow> XvProc.sleep ch lk s = Inr t \<or> sleep_resume b lk s = Inr t \<Longrightarrow> mreach svc s0 n t"
| yield: "mreach svc s0 n s \<Longrightarrow> XvProc.yield s = Inr t \<or> yield_resume b s = Inr t \<Longrightarrow> mreach svc s0 n t"
| wakeup: "mreach svc s0 n s \<Longrightarrow> wakeup_mlfq ch s = Inr t \<Longrightarrow> mreach svc s0 n t"
| kill: "mreach svc s0 n s \<Longrightarrow> XvProc.kill pd s = Inr (r, t) \<Longrightarrow> mreach svc s0 n t"
| setpriority: "mreach svc s0 n s \<Longrightarrow> XvProc.setpriority pd pr s = (r, t) \<Longrightarrow> mreach svc s0 n t"
| settickets: "mreach svc s0 n s \<Longrightarrow> XvProc.settickets tk s = Inr (r, t) \<Longrightarrow> mreach svc s0 n t"
| lock: "mreach svc s0 n s \<Longrightarrow> pt_acquire s = Inr t \<or> pt_release s = Inr t \<Longrightarrow> mreach svc s0 n t"
| tick: "mreach svc s0 n s \<Longrightarrow> mreach svc s0 n (s\<lparr>ticks := ticks s + 1\<rparr>)"
| promote: "mreach svc s0 n s \<Longrightarrow> XvMlfq.promote s = Inr t \<Longrightarrow> mreach svc s0 n t"
| dispatch_in: "mreach svc s0 n s \<Longrightarrow> curproc s = None \<Longrightarrow> i < 3 \<Longrightarrow> k < length (queue s i) \<Longrightarrow>
    XvMlfq.dispatch_in svc i k (queue s i ! k) s = Inr t \<Longrightarrow> mreach svc s0 n t"
| dispatch_out: "mreach svc s0 n s \<Longrightarrow> curproc s = Some p \<Longrightarrow> XvMlfq.dispatch_out svc p start s = Inr t \<Longrightarrow>
    mreach svc s0 n t"

lemma mreach_counts: "mreach svc s0 n s \<Longrightarrow> wf_mlfq s0 \<Longrightarrow> counts n s"
proof (induction rule: mreach.induct)
  case start
  then show ?case by (simp add: counts_def)
next
  case (setpriority n s pd pr r t)
  then show ?case using wf_setpriority [of s pd pr r t] by (simp add: counts_def)
qed (blast intro: counts_fork counts_exit counts_wakeup counts_promote counts_dispatch_in counts_dispatch_out
    counts_same_q same_q_wait same_q_sleep same_q_sleep_resume same_q_yield same_q_yield_resume same_q_kill
    same_q_settickets same_q_locks same_q_upd)+

lemma wf_capacity: "wf_mlfq s \<Longrightarrow> entries s \<le> 6 * NPROC"
proof -
  assume wf: "wf_mlfq s"
  have "length (queue s i) \<le> 2 * NPROC" if "i < 3" for i
  proof -
    have ok: "queues_ok s" using wf by (simp add: wf_mlfq_def)
    then have "qsize s i < 2 * int NPROC" using that by (simp add: queues_ok_def)
    then show ?thesis using length_queue [OF ok that] by linarith
  qed
  from this [of 0] this [of 1] this [of 2] show ?thesis by (simp add: entries_def)
qed

text \<open>C19: no operation of the MLFQ kernel removes the queue entries of processes that are gone, and every
  successful fork adds one.  Hence no execution, however many processes exit and are reaped in
  between, contains more than \<open>6 * NPROC + 1\<close> successful forks: by then a store has gone past the end
  of \<open>mlfq_queue\<close>.\<close>

theorem mlfq_forks_bounded:
  assumes "queues_ok s0" and "\<forall>x\<in>set (procs s0). 0 \<le> priority x \<and> priority x \<le> MAXPRIORITY"
    and "mreach svc s0 n s"
  shows "n \<le> entries s + on_cpu s \<and> n \<le> 6 * NPROC + 1"
proof -
  have c: "counts n s" using mreach_counts [OF assms(3)] assms(1,2) by (simp add: wf_mlfq_def)
  then have "entries s \<le> 6 * NPROC" using wf_capacity [of s] by (simp add: counts_def)
  then show ?thesis using c by (auto simp: counts_def on_cpu_def split: if_splits)
qed

text \<open>One process running, nothing queued: it forks.\<close>

definition mlfq_one :: "unit mlfq" where
  "mlfq_one = ptable.extend (unit_run_with proc0) (mlfq.fields 20 (replicate 3 (replicate 128 None)) [-1, -1, -1])"

lemma mlfq_one_simps:
  "pt_lock mlfq_one = False" "nextpid mlfq_one = 2" "cpu mlfq_one = \<lparr>ncli = 0, intena = False, IF = False\<rparr>" "curproc mlfq_one = Some 0" "kst mlfq_one = ()"
  "procs mlfq_one = (proc0\<lparr>state := RUNNING, pid := 1, sz := 4096\<rparr>) # replicate 63 proc0" "mlfq_queue mlfq_one = replicate 3 (replicate 128 None)" "mlfq_queue_size mlfq_one = [-1, -1, -1]"
  by (simp_all add: mlfq_one_def ptable.defs mlfq.defs unit_run_with_def unit_boot_def replicate_Suc [symmetric] del: replicate_Suc)

lemma mlfq_one_fork: "\<exists>t. fork_mlfq unit_svc mlfq_one = Inr (2, t)"
proof -
  let ?p1 = "proc0\<lparr>state := RUNNING, pid := 1, sz := 4096\<rparr>"
  have f: "find_idx (\<lambda>p. state p = UNUSED) (?p1 # replicate 63 proc0) = Some (Suc 0)"
    by (subst find_idx_Some) (simp add: proc0_def)
  have "\<exists>s. allocproc unit_svc mlfq_one = Inr (Some 1, s) \<and> getp s 0 = ?p1 \<and> \<not> pt_lock s \<and> \<not> IF (cpu s) \<and>
      ncli (cpu s) = 0 \<and> length (procs s) = 64 \<and> pid (getp s 1) = 2 \<and> mlfq_queue_size s = [-1, -1, -1]"
    by (simp add: allocproc_def mlfq_one_simps unit_svc_def pt_acquire_def pt_release_def cpu_pop_def
        push_cpu_def pop_cpu_def Let_def setup_stack_def setp_def getp_def f nth_list_update_if)
  then obtain s where al: "allocproc unit_svc mlfq_one = Inr (Some 1, s)" and s: "getp s 0 = ?p1" "\<not> pt_lock s"
     "\<not> IF (cpu s)" "ncli (cpu s) = 0" "length (procs s) = 64" "pid (getp s 1) = 2" "mlfq_queue_size s = [-1, -1, -1]" by blast
  have d: "dup_files unit_svc 0 (Suc 0) [0..<NOFILE] s' = Inr s'" if "getp s' 0 = ?p1" for s' :: "unit mlfq"
    by (rule dup_files_none) (simp add: that proc0_def NOFILE_def)
  have "\<exists>u. fork_child unit_svc mlfq_one = Inr (Some 1, u) \<and> \<not> pt_lock u \<and> \<not> IF (cpu u) \<and> ncli (cpu u) = 0 \<and> pid (getp u 1) = 2 \<and>
      mlfq_queue_size u = [-1, -1, -1]"
    using s by (simp add: fork_child_def mlfq_one_simps al unit_svc_def [THEN arg_cong, of copyuvm_op] unit_svc_def [THEN arg_cong, of idup_op]
        Let_def d getp_setp split_beta) (simp add: setp_def)
  then show ?thesis
    by (auto simp: fork_mlfq_def pt_acquire_def pt_release_def cpu_pop_def push_cpu_def pop_cpu_def Let_def enqueue_def MAXPRIORITY_def
        qsize_def setp_def set_queue_def NPROC_def)
qed

theorem mlfq_forks_bounded_witness:
  "\<exists>t. mreach unit_svc mlfq_one 1 t \<and> 1 \<le> entries t + on_cpu t \<and> (1 :: nat) \<le> 6 * NPROC + 1"
proof -
  obtain t where t: "fork_mlfq unit_svc mlfq_one = Inr (2, t)" using mlfq_one_fork by blast
  have r: "mreach unit_svc mlfq_one 1 t" using mreach.fork [OF mreach.start t] by simp
  have q: "queues_ok mlfq_one"
    by (auto simp: queues_ok_def mlfq_one_simps queue_def qsize_def qarr_def NPROC_def less_Suc_eq numeral_3_eq_3)
  have "\<forall>x\<in>set (procs mlfq_one). 0 \<le> priority x \<and> priority x \<le> MAXPRIORITY"
    by (auto simp: mlfq_one_simps proc0_def MAXPRIORITY_def)
  then show ?thesis using mlfq_forks_bounded [OF q _ r] r by blast
qed

subsection \<open>Waking the last process of a queue\<close>

lemma queued_before_last_iff:
  assumes "queues_ok s" "i = nat (priority (getp s p))" "i < 3" "queue s i = xs @ [q]"
  shows "queued_before_last p s \<longleftrightarrow> p \<in> set xs"
proof -
  have n: "nat (qsize s i) = length xs" "nat (qsize s i + 1) = Suc (length xs)"
    using length_queue [OF assms(1,3)] assms(4) by simp_all
  have "take (length xs) (queue s i) = map the (take (length xs) (qarr s i))"
    by (simp add: queue_def n take_map min_def)
  then have xs: "xs = map the (take (length xs) (qarr s i))" using assms(4) by simp
  have "x = Some (the x)" if x: "x \<in> set (take (length xs) (qarr s i))" for x
  proof -
    obtain j where j: "j < length xs" "x = qarr s i ! j" using x by (auto simp: in_set_conv_nth)
    then have "int j \<le> qsize s i" using n by linarith
    then show ?thesis using assms(1,3) j by (simp add: queues_ok_def)
  qed
  then have "Some p \<in> set (take (length xs) (qarr s i)) \<longleftrightarrow> p \<in> the ` set (take (length xs) (qarr s i))"
    by force
  moreover have "set xs = the ` set (take (length xs) (qarr s i))" using arg_cong [OF xs, of set] by simp
  ultimately show ?thesis by (simp add: queued_before_last_def assms(2) [symmetric] Let_def n(1))
qed

lemma wakeup1_mlfq_skip:
  "\<forall>q\<in>set ps. \<not> (state (getp s q) = SLEEPING \<and> chan (getp s q) = ch) \<Longrightarrow> wakeup1_mlfq_loop ch ps s = Inr s"
  by (induction ps) auto

lemma wakeup1_mlfq_append:
  "wakeup1_mlfq_loop ch (ps @ qs) s = rbind (wakeup1_mlfq_loop ch ps s) (wakeup1_mlfq_loop ch qs)"
  by (induction ps arbitrary: s) (auto simp: rbind_def Let_def split: sum.splits)

lemma upt_split: "p < n \<Longrightarrow> [0..<n] = [0..<p] @ p # [Suc p..<n]"
  by (metis append_Cons append_Nil le_add_diff_inverse less_imp_le_nat upt_add_eq_append upt_conv_Cons zero_le)

text \<open>\<open>wakeup1\<close> looks for the woken process in its queue but stops before the last entry: a process that
  is the last of its queue when it is woken is queued a second time.\<close>

theorem mlfq_wakeup_duplicates:
  assumes "queues_ok s" and "p < NPROC" "length (procs s) = NPROC" and "state (getp s p) = SLEEPING" "chan (getp s p) = ch"
    and "\<forall>q<NPROC. q \<noteq> p \<longrightarrow> \<not> (state (getp s q) = SLEEPING \<and> chan (getp s q) = ch)"
    and "0 \<le> priority (getp s p)" "priority (getp s p) \<le> MAXPRIORITY"
    and "queue s (nat (priority (getp s p))) = xs @ [p]" "p \<notin> set xs" "length xs + 1 < 2 * NPROC"
  shows "\<exists>t. wakeup1_mlfq ch s = Inr t \<and> queue t (nat (priority (getp s p))) = xs @ [p, p] \<and> state (getp t p) = RUNNABLE"
proof -
  define i where "i = nat (priority (getp s p))"
  define s1 where "s1 = setp p (\<lambda>x. x\<lparr>state := RUNNABLE\<rparr>) s"
  have i: "i < 3" using assms(7,8) by (auto simp: i_def MAXPRIORITY_def)
  have g1: "getp s1 q = (if q = p then (getp s p)\<lparr>state := RUNNABLE\<rparr> else getp s q)" for q
    using assms(2,3) by (simp add: s1_def getp_setp)
  have ok1: "queues_ok s1" "queue s1 = queue s" using assms(1) by (simp_all add: s1_def)
  have nb: "\<not> queued_before_last p s1"
    using queued_before_last_iff [OF ok1(1), of i p xs p] assms(9,10) i by (simp add: g1 i_def ok1(2))
  obtain t where e: "enqueue (priority (getp s1 p)) p s1 = Inr t" and t: "queue t i = xs @ [p, p]" "procs t = procs s1"
  proof (cases "enqueue (priority (getp s p)) p s1")
    case (Inl m)
    then have "length (queue s i) = 2 * NPROC" using enqueue_ok [OF ok1(1) assms(7,8), of p] by (simp add: ok1(2) i_def)
    then show thesis using assms(9,11) by (simp add: i_def)
  next
    case (Inr t)
    then show thesis using enqueue_ok [OF ok1(1) assms(7,8), of p] assms(9) i that [of t] by (simp add: ok1(2) i_def g1)
  qed
  have gt: "getp t q = getp s1 q" for q using t(2) by (rule getp_procs)
  have "wakeup1_mlfq ch s = wakeup1_mlfq_loop ch [Suc p..<NPROC] t"
    using wakeup1_mlfq_skip [of "[0..<p]" s ch] assms(2,4-6) nb e
    by (simp add: wakeup1_mlfq_def upt_split [OF assms(2)] wakeup1_mlfq_append Let_def s1_def [symmetric])
  also have "\<dots> = Inr t" using assms(6) by (intro wakeup1_mlfq_skip) (auto simp: gt g1)
  finally show ?thesis using t(1) gt g1 by (auto simp: i_def)
qed

theorem mlfq_wakeup_duplicates_witness:
  "\<exists>s t. wakeup1_mlfq (AddrChan 4) s = Inr t \<and> queue (s::unit mlfq) 0 = [0] \<and> queue t 0 = [0, 0]"
proof -
  define s :: "unit mlfq" where "s = ptable.extend (unit_boot\<lparr>procs := proc0\<lparr>state := SLEEPING, chan := AddrChan 4\<rparr> # replicate 63 proc0\<rparr>)
     (mlfq.fields 0 [Some 0 # replicate 127 None, replicate 128 None, replicate 128 None] [0, -1, -1])"
  have q: "queue s 0 = [0]" "queues_ok s"
    by (auto simp: s_def ptable.defs mlfq.defs queue_def qsize_def qarr_def queues_ok_def unit_boot_def
      NPROC_def less_Suc_eq numeral_3_eq_3 nth_append nth_Cons')
  have g: "getp s q = (if q = 0 then proc0\<lparr>state := SLEEPING, chan := AddrChan 4\<rparr> else proc0)" if "q < NPROC" for q
    using that by (auto simp: s_def ptable.defs mlfq.defs unit_boot_def getp_def NPROC_def nth_Cons')
  have len: "length (procs s) = NPROC" by (simp add: s_def ptable.defs mlfq.defs unit_boot_def NPROC_def)
  have "\<exists>t. wakeup1_mlfq (AddrChan 4) s = Inr t \<and> queue t (nat (priority (getp s 0))) = [] @ [0, 0] \<and> state (getp t 0) = RUNNABLE"
    by (rule mlfq_wakeup_duplicates) (use q g len in \<open>auto simp: proc0_def NPROC_def MAXPRIORITY_def\<close>)
  then show ?thesis using q(1) g by (auto simp: NPROC_def proc0_def)
qed

end
