(* ===== verification/XvRand.thy ===== *)
theory XvRand
  imports Prelude
begin

text \<open>
  The pseudo random numbers of the lottery scheduler, \<^verbatim>\<open>lab-2/rand.c\<close>: the MT19937 generator and
  \<open>random_at_most\<close>, which draws until a number falls below a cut-off and then divides it into bins.
  \<open>unsigned long\<close> has 32 bits.  The rejection loop is a partial function into \<open>option\<close>
  (\<open>None\<close> when no draw is ever accepted); the lemmas characterise when it returns and what.
\<close>

definition MT_N :: nat where "MT_N = 624"
definition MT_M :: nat where "MT_M = 397"
definition MATRIX_A :: u32 where "MATRIX_A = 0x9908b0df"
definition UPPER_MASK :: u32 where "UPPER_MASK = 0x80000000"
definition LOWER_MASK :: u32 where "LOWER_MASK = 0x7fffffff"
definition TEMPERING_MASK_B :: u32 where "TEMPERING_MASK_B = 0x9d2c5680"
definition TEMPERING_MASK_C :: u32 where "TEMPERING_MASK_C = 0xefc60000"
definition RAND_MAX :: u32 where "RAND_MAX = 0x7fffffff"

record mt_st =
  mt :: "u32 list"
  mti :: nat

fun sgenrand_loop :: "nat \<Rightarrow> mt_st \<Rightarrow> mt_st" where
  "sgenrand_loop 0 s = s"
| "sgenrand_loop (Suc n) s =
     sgenrand_loop n (s\<lparr>mt := (mt s)[mti s := 69069 * (mt s ! (mti s - 1))], mti := mti s + 1\<rparr>)"

definition sgenrand :: "u32 \<Rightarrow> mt_st \<Rightarrow> mt_st" where
  "sgenrand seed s =
     (let s1 = s\<lparr>mt := (mt s)[0 := seed], mti := 1\<rparr> in sgenrand_loop (MT_N - 1) s1)"

definition mag01 :: "u32 \<Rightarrow> u32" where
  "mag01 y = (if y AND 1 = 0 then 0 else MATRIX_A)"

definition mix :: "u32 \<Rightarrow> u32 \<Rightarrow> u32 \<Rightarrow> u32" where
  "mix cur nxt far =
     (let y = (cur AND UPPER_MASK) OR (nxt AND LOWER_MASK) in far XOR drop_bit 1 y XOR mag01 y)"

text \<open>The three parts of the regeneration: \<open>kk\<close> below \<open>N - M\<close>, below \<open>N - 1\<close>, and the last word.\<close>

definition reload1 :: "nat \<Rightarrow> u32 list \<Rightarrow> u32 list" where
  "reload1 kk m = m[kk := mix (m ! kk) (m ! (kk + 1)) (m ! (kk + MT_M))]"

definition reload2 :: "nat \<Rightarrow> u32 list \<Rightarrow> u32 list" where
  "reload2 kk m = m[kk := mix (m ! kk) (m ! (kk + 1)) (m ! (kk + MT_M - MT_N))]"

definition reload :: "u32 list \<Rightarrow> u32 list" where
  "reload m =
     (let m1 = fold reload1 [0..<MT_N - MT_M] m;
          m2 = fold reload2 [MT_N - MT_M..<MT_N - 1] m1
      in m2[MT_N - 1 := mix (m2 ! (MT_N - 1)) (m2 ! 0) (m2 ! (MT_M - 1))])"

definition temper :: "u32 \<Rightarrow> u32" where
  "temper y0 =
     (let y1 = y0 XOR drop_bit 11 y0;
          y2 = y1 XOR (push_bit 7 y1 AND TEMPERING_MASK_B);
          y3 = y2 XOR (push_bit 15 y2 AND TEMPERING_MASK_C)
      in y3 XOR drop_bit 18 y3)"

definition genrand :: "mt_st \<Rightarrow> u32 \<times> mt_st" where
  "genrand s =
     (let s1 = (if MT_N \<le> mti s
                then let s' = (if mti s = MT_N + 1 then sgenrand 4357 s else s)
                     in s'\<lparr>mt := reload (mt s'), mti := 0\<rparr>
                else s);
          y = mt s1 ! mti s1;
          s2 = s1\<lparr>mti := mti s1 + 1\<rparr>
      in (temper y AND RAND_MAX, s2))"

partial_function (option) draw_loop :: "u32 \<Rightarrow> mt_st \<Rightarrow> (u32 \<times> mt_st) option" where
  "draw_loop cutoff s =
     (let (x, s1) = genrand s in if cutoff \<le> x then draw_loop cutoff s1 else Some (x, s1))"

definition random_at_most :: "u32 \<Rightarrow> mt_st \<Rightarrow> (u32 \<times> mt_st) option res" where
  "random_at_most mx s =
     (let num_bins = mx + 1; num_rand = RAND_MAX + 1
      in if num_bins = 0 then Inl ''divide error''
         else let bin_size = num_rand div num_bins; defect = num_rand mod num_bins
              in Inr (map_option (\<lambda>(x, s1). (x div bin_size, s1)) (draw_loop (num_rand - defect) s)))"

subsection \<open>The generator\<close>





lemma length_fold_upd: "(\<And>k m. length (f k m) = length m) \<Longrightarrow> length (fold f ks m) = length m"
  by (induction ks arbitrary: m) auto

lemma length_reload [simp]: "length (reload m) = length m"
  by (simp add: reload_def Let_def length_fold_upd reload1_def reload2_def)





subsection \<open>Bounded numbers\<close>

text \<open>The \<open>n\<close>-th draw from a state and the state after it.\<close>

definition after :: "nat \<Rightarrow> mt_st \<Rightarrow> mt_st" where
  "after n s = ((snd \<circ> genrand) ^^ n) s"

definition draw :: "nat \<Rightarrow> mt_st \<Rightarrow> u32" where
  "draw n s = fst (genrand (after n s))"

lemma draw_Suc: "draw (Suc n) s = draw n (snd (genrand s))"
  by (simp add: draw_def after_def funpow_Suc_right del: funpow.simps)

lemma draw_0: "draw 0 s = fst (genrand s)"
  by (simp add: draw_def after_def)

lemma after_Suc: "after (Suc n) s = after n (snd (genrand s))"
  by (simp add: after_def funpow_Suc_right del: funpow.simps)

lemma draw_loop_returns:
  assumes "draw n s < cutoff" and "\<forall>i<n. cutoff \<le> draw i s"
  shows "draw_loop cutoff s = Some (draw n s, after (Suc n) s)"
  using assms
proof (induction n arbitrary: s)
  case 0
  then show ?case
    by (subst draw_loop.simps) (auto simp: draw_def after_def split_beta Let_def)
next
  case (Suc n)
  have "cutoff \<le> fst (genrand s)" using Suc.prems(2) [rule_format, of 0] by (simp add: draw_def after_def)
  moreover have "draw_loop cutoff (snd (genrand s)) = Some (draw n (snd (genrand s)), after (Suc n) (snd (genrand s)))"
    using Suc.prems by (intro Suc.IH) (auto simp: draw_Suc)
  ultimately show ?case
    by (subst draw_loop.simps) (simp add: split_beta Let_def draw_Suc after_Suc)
qed

lemma draw_loop_Some:
  "draw_loop cutoff s = Some r \<Longrightarrow>
     \<exists>n. r = (draw n s, after (Suc n) s) \<and> draw n s < cutoff \<and> (\<forall>i<n. cutoff \<le> draw i s)"
proof (induction rule: draw_loop.raw_induct [rotated, consumes 1, case_names 1])
  case (1 rec cutoff s r)
  obtain y u where g: "genrand s = (y, u)" by fastforce
  show ?case
  proof (cases "cutoff \<le> y")
    case True
    with 1 g obtain n where "r = (draw n u, after (Suc n) u)" "draw n u < cutoff" "\<forall>i<n. cutoff \<le> draw i u"
      by fastforce
    then show ?thesis using True g
      by (intro exI [of _ "Suc n"]) (auto simp: draw_Suc after_Suc less_Suc_eq_0_disj draw_0)
  next
    case False
    then show ?thesis using 1(2) g
      by (intro exI [of _ 0]) (auto simp: draw_def after_def not_le split: if_splits)
  qed
qed

text \<open>The bins: \<open>bin_size\<close> draws for each of the \<open>num_bins\<close> results.\<close>

lemma bins:
  fixes mx :: u32
  assumes "mx \<le> RAND_MAX" and "B = (RAND_MAX + 1) div (mx + 1)"
  shows "mx + 1 \<noteq> 0" "(RAND_MAX + 1) - (RAND_MAX + 1) mod (mx + 1) = (mx + 1) * B"
    "unat ((mx + 1) * B) = (unat mx + 1) * unat B" "0 < unat B"
proof -
  have mx: "unat mx \<le> 0x7fffffff" using assms(1) by (simp add: RAND_MAX_def word_le_nat_alt)
  then have u1: "unat (mx + 1) = unat mx + 1" by (simp add: unat_word_ariths)
  then show "mx + 1 \<noteq> 0" by (metis Suc_eq_plus1 nat.distinct(1) unat_0)
  show "(RAND_MAX + 1) - (RAND_MAX + 1) mod (mx + 1) = (mx + 1) * B"
    unfolding assms(2) by (rule minus_mod_eq_mult_div)
  have b: "unat B = 0x80000000 div (unat mx + 1)"
    by (simp add: assms(2) RAND_MAX_def unat_div u1)
  then have "(unat mx + 1) * unat B \<le> 0x80000000"
    unfolding b by (metis div_times_less_eq_dividend mult.commute)
  then show "unat ((mx + 1) * B) = (unat mx + 1) * unat B"
    by (simp add: unat_word_ariths(2) u1)
  show "0 < unat B" using mx unfolding b by (simp add: div_greater_zero_iff)
qed

lemma card_bin:
  fixes B :: u32
  assumes "unat c = (m + 1) * unat B" "0 < unat B" "unat v \<le> m"
  shows "card {x::u32. x < c \<and> x div B = v} = unat B"
proof -
  have lt: "unat v * unat B + unat B \<le> unat c"
    using assms(1,3) by (metis add.commute add_mult_distrib mult_le_mono1 nat_mult_1 add_le_mono le_refl)
  have iff: "x < c \<and> x div B = v \<longleftrightarrow> unat v * unat B \<le> unat x \<and> unat x < unat v * unat B + unat B" for x
  proof -
    have "x div B = v \<longleftrightarrow> unat x div unat B = unat v" by (simp add: unat_div flip: unat_inj)
    also have "\<dots> \<longleftrightarrow> unat v * unat B \<le> unat x \<and> unat x < unat v * unat B + unat B"
      using assms(2) div_nat_eqI [of "unat B" "unat v" "unat x"]
      by (metis add.commute dividend_less_div_times div_times_less_eq_dividend mult.commute mult_Suc)
    finally show ?thesis using lt by (auto simp: word_less_nat_alt)
  qed
  have "unat c \<le> 4294967296" using unat_lt [of c] by linarith
  then show ?thesis unfolding iff using lt card_word_range [of "unat v * unat B + unat B" "unat v * unat B"] by simp
qed

text \<open>C29: \<open>random_at_most\<close> for a bound up to \<open>RAND_MAX\<close> returns exactly when some draw falls below the
  cut-off, and then returns the bin of the first such draw.  The result is at most the bound, and
  every value up to the bound is the bin of equally many draws.\<close>

theorem random_at_most_spec:
  assumes "mx \<le> RAND_MAX" and "B = (RAND_MAX + 1) div (mx + 1)"
  shows "(random_at_most mx s = Inr (Some (r, t)) \<longleftrightarrow>
      (\<exists>n. draw n s < (mx + 1) * B \<and> (\<forall>i<n. (mx + 1) * B \<le> draw i s) \<and>
         r = draw n s div B \<and> t = after (Suc n) s)) \<and>
    ((\<exists>n. draw n s < (mx + 1) * B) \<longrightarrow> (\<exists>r t. random_at_most mx s = Inr (Some (r, t)) \<and> r \<le> mx)) \<and>
    (v \<le> mx \<longrightarrow> card {x. x < (mx + 1) * B \<and> x div B = v} = unat B)"
proof -
  note b = bins [OF assms]
  have r: "random_at_most mx s = Inr (map_option (\<lambda>(x, s1). (x div B, s1)) (draw_loop ((mx + 1) * B) s))"
    using b(1,2) by (simp add: random_at_most_def Let_def assms(2))
  have 1: "random_at_most mx s = Inr (Some (r, t)) \<longleftrightarrow>
      (\<exists>n. draw n s < (mx + 1) * B \<and> (\<forall>i<n. (mx + 1) * B \<le> draw i s) \<and>
         r = draw n s div B \<and> t = after (Suc n) s)" for r t
    unfolding r using draw_loop_returns draw_loop_Some by fastforce
  have "\<exists>r t. random_at_most mx s = Inr (Some (r, t)) \<and> r \<le> mx" if ex: "draw n s < (mx + 1) * B" for n
  proof -
    define k where "k = (LEAST n. draw n s < (mx + 1) * B)"
    have k: "draw k s < (mx + 1) * B" unfolding k_def using ex by (rule LeastI)
    have "\<forall>i<k. (mx + 1) * B \<le> draw i s" unfolding k_def by (meson not_less_Least not_le)
    then have ret: "random_at_most mx s = Inr (Some (draw k s div B, after (Suc k) s))"
      using 1 k by blast
    have "unat (draw k s) < (unat mx + 1) * unat B" using k b(3) by (simp add: word_less_nat_alt)
    then have "draw k s div B \<le> mx"
      by (simp add: word_le_nat_alt unat_div less_mult_imp_div_less flip: less_Suc_eq_le)
    then show ?thesis using ret by blast
  qed
  moreover have "card {x. x < (mx + 1) * B \<and> x div B = v} = unat B" if "v \<le> mx"
    using card_bin [OF b(3,4), of v] that by (simp add: word_le_nat_alt)
  ultimately show ?thesis using 1 by blast
qed

text \<open>From the all-zero state (seed 0) the first draw is 0.\<close>

theorem random_at_most_spec_witness:
  "\<exists>s r t. random_at_most 9 s = Inr (Some (r, t)) \<and> r \<le> 9"
proof -
  define s where "s = \<lparr>mt = replicate 624 0, mti = 0\<rparr>"
  have "genrand s = (0, s\<lparr>mti := 1\<rparr>)"
    by (simp add: s_def genrand_def MT_N_def temper_def Let_def)
  then have "draw 0 s < (9 + 1) * 214748364" by (simp add: draw_def after_def)
  moreover have "214748364 = (RAND_MAX + 1) div (9 + 1)" "9 \<le> RAND_MAX"
    by (simp_all add: RAND_MAX_def)
  ultimately show ?thesis using random_at_most_spec [of 9 214748364 s] by blast
qed



end
