(* ===== verification/XvLottery.thy ===== *)
theory XvLottery
  imports XvProcProps XvRand
begin

text \<open>
  The lottery scheduler of \<^verbatim>\<open>lab-2/proc_lottery_v02.c\<close>, on the table of \<open>XvProc\<close> extended by the kernel's
  \<open>pstat\<close>, the seed and the state of the random number generator of \<open>XvRand\<close>.  One round draws a
  number with \<open>random_at_most\<close>, which may not return, so a round is an \<open>option\<close>.
\<close>

subsection \<open>The scheduler\<close>

record 'k lottery = "'k ptable" +
  pstat_tab :: pstat
  seed :: u32
  rng :: mt_st

definition allocproc_lottery :: "'k svc \<Rightarrow> 'k lottery \<Rightarrow> (nat option \<times> 'k lottery) res" where
  "allocproc_lottery svc s0 =
     rbind (pt_acquire s0) (\<lambda>s1.
     case find_idx (\<lambda>p. state p = UNUSED) (procs s1) of
       None \<Rightarrow> rbind (pt_release s1) (\<lambda>s2. Inr (None, s2))
     | Some p \<Rightarrow>
         if nextpid s1 = INT_MAX then Inl ''integer overflow'' else
         (let s2 = (setp p (\<lambda>x. x\<lparr>state := EMBRYO, pid := nextpid s1, tickets := 1, pticks := 0\<rparr>) s1)
                     \<lparr>nextpid := nextpid s1 + 1\<rparr>
          in rbind (pt_release s2) (\<lambda>s3.
             rbind (kalloc_op svc (kst s3)) (\<lambda>(k, ks).
             let s4 = setp p (\<lambda>x. x\<lparr>kstack := k\<rparr>) (s3\<lparr>kst := ks\<rparr>)
             in if k = 0 then Inr (None, setp p (\<lambda>x. x\<lparr>state := UNUSED\<rparr>) s4)
                else Inr (Some p, setp p (setup_stack svc k) s4)))))"

definition fork_lottery :: "'k svc \<Rightarrow> 'k lottery \<Rightarrow> (int \<times> 'k lottery) res" where
  "fork_lottery svc s0 =
     (case curproc s0 of None \<Rightarrow> Inl ''null pointer''
      | Some cp \<Rightarrow>
          rbind (allocproc_lottery svc s0) (\<lambda>(r, s1).
          case r of None \<Rightarrow> Inr (-1, s1)
          | Some np \<Rightarrow>
              rbind (copyuvm_op svc (pgdir (getp s1 cp)) (sz (getp s1 cp)) (kst s1)) (\<lambda>(pd, ks).
              let s2 = setp np (\<lambda>x. x\<lparr>pgdir := pd\<rparr>) (s1\<lparr>kst := ks\<rparr>)
              in if pd = 0
                 then rbind (with_k (kfree_op svc (kstack (getp s2 np))) s2) (\<lambda>s3.
                        Inr (-1, setp np (\<lambda>x. x\<lparr>kstack := 0, state := UNUSED\<rparr>) s3))
                 else let s3 = setp np (\<lambda>x. x\<lparr>sz := sz (getp s2 cp), parent := Some cp,
                                     tf := (tf (getp s2 cp))\<lparr>tf_eax := 0\<rparr>, tickets := tickets (getp s2 cp)\<rparr>) s2
                      in rbind (dup_files svc cp np [0..<NOFILE] s3) (\<lambda>s4.
                         let (d, ks2) = idup_op svc (cwd (getp s4 cp)) (kst s4);
                             s5 = setp np (\<lambda>x. x\<lparr>cwd := d, name := name (getp s4 cp)\<rparr>) (s4\<lparr>kst := ks2\<rparr>);
                             child = pid (getp s5 np)
                         in rbind (pt_acquire s5) (\<lambda>s6.
                            rbind (pt_release (setp np (\<lambda>x. x\<lparr>state := RUNNABLE\<rparr>) s6)) (\<lambda>s7. Inr (child, s7)))))))"

definition settickets_lottery :: "int \<Rightarrow> ('k, 'm) ptable_scheme \<Rightarrow> (int \<times> ('k, 'm) ptable_scheme) res" where
  "settickets_lottery n s =
     (if n < 0 \<or> MAXTICKET < n then Inr (-1, s)
      else rbind (pt_acquire s) (\<lambda>s1.
           case curproc s1 of None \<Rightarrow> Inl ''null pointer''
           | Some p \<Rightarrow> rbind (pt_release (setp p (\<lambda>x. x\<lparr>tickets := n\<rparr>) s1)) (\<lambda>s2. Inr (0, s2))))"

text \<open>The loop that fills \<open>pstat\<close>; its index \<open>i\<close> stays 0.\<close>

fun fill_pstat :: "proc list \<Rightarrow> pstat \<Rightarrow> pstat" where
  "fill_pstat [] ps = ps"
| "fill_pstat (p # rest) ps =
     fill_pstat rest
       \<lparr>st_inuse = (st_inuse ps)[0 := (if state p = UNUSED then 0 else 1)], st_tickets = (st_tickets ps)[0 := tickets p],
        st_pid = (st_pid ps)[0 := pid p], st_ticks = (st_ticks ps)[0 := pticks p]\<rparr>"

fun ticket_sum :: "proc list \<Rightarrow> u32 \<Rightarrow> u32" where
  "ticket_sum [] acc = acc"
| "ticket_sum (p # rest) acc =
     (if state p \<noteq> RUNNABLE then ticket_sum rest acc else ticket_sum rest (acc + word_of_int (tickets p)))"

text \<open>The search for the winner: \<open>count\<close> adds up the tickets seen so far.\<close>

fun pick :: "u32 \<Rightarrow> u32 \<Rightarrow> nat \<Rightarrow> proc list \<Rightarrow> nat option" where
  "pick lotteryNumber count i [] = None"
| "pick lotteryNumber count i (p # rest) =
     (if state p \<noteq> RUNNABLE then pick lotteryNumber count (i + 1) rest
      else let count' = count + word_of_int (tickets p)
           in if count' < lotteryNumber then pick lotteryNumber count' (i + 1) rest else Some i)"

definition run_winner ::
  "(nat \<Rightarrow> 'k lottery \<Rightarrow> 'k lottery) \<Rightarrow> 'k svc \<Rightarrow> nat \<Rightarrow> 'k lottery \<Rightarrow> 'k lottery res" where
  "run_winner run svc p s =
     rbind (switch_to run svc p s) (\<lambda>s1.
     let s2 = (if state (getp s1 p) = RUNNABLE \<and> tickets (getp s1 p) < MAXTICKET
               then setp p (\<lambda>x. x\<lparr>tickets := tickets x + 1\<rparr>) s1 else s1)
     in Inr (s2\<lparr>curproc := None\<rparr>))"

definition scheduler_lottery ::
  "(nat \<Rightarrow> 'k lottery \<Rightarrow> 'k lottery) \<Rightarrow> 'k svc \<Rightarrow> 'k lottery \<Rightarrow> 'k lottery res option" where
  "scheduler_lottery run svc s =
     (case pt_acquire (s\<lparr>cpu := (cpu s)\<lparr>IF := True\<rparr>\<rparr>) of
        Inl e \<Rightarrow> Some (Inl e)
      | Inr s1 \<Rightarrow>
          (let s2 = s1\<lparr>pstat_tab := fill_pstat (procs s1) (pstat_tab s1)\<rparr>;
               ticketSum = ticket_sum (procs s2) 0;
               s3 = s2\<lparr>rng := sgenrand (seed s2) (rng s2), seed := seed s2 + 1\<rparr>
           in case random_at_most ticketSum (rng s3) of
                Inl e \<Rightarrow> Some (Inl e)
              | Inr None \<Rightarrow> None
              | Inr (Some (lotteryNumber, g)) \<Rightarrow>
                  (let s4 = s3\<lparr>rng := g\<rparr>
                   in Some (case pick lotteryNumber 0 0 (procs s4) of
                              None \<Rightarrow> pt_release s4
                            | Some p \<Rightarrow> rbind (run_winner run svc p s4) pt_release))))"

subsection \<open>Tickets counted\<close>

definition share :: "proc \<Rightarrow> nat" where
  "share p = (if state p = RUNNABLE then nat (tickets p) else 0)"

definition cum :: "proc list \<Rightarrow> nat \<Rightarrow> nat" where
  "cum ps j = (\<Sum>p\<leftarrow>take j ps. share p)"

definition tickets_ok :: "proc list \<Rightarrow> bool" where
  "tickets_ok ps \<longleftrightarrow> (\<forall>p\<in>set ps. 0 \<le> tickets p) \<and> cum ps (length ps) < 2 ^ 32"

lemma cum_0 [simp]: "cum ps 0 = 0" by (simp add: cum_def)

lemma cum_Cons_Suc [simp]: "cum (p # ps) (Suc j) = share p + cum ps j" by (simp add: cum_def)

lemma cum_mono: "i \<le> j \<Longrightarrow> cum ps i \<le> cum ps j"
proof -
  assume "i \<le> j"
  then have "take j ps = take i ps @ take (j - i) (drop i ps)" by (metis take_add le_add_diff_inverse)
  then show ?thesis by (simp add: cum_def)
qed

lemma cum_Suc: "j < length ps \<Longrightarrow> cum ps (Suc j) = cum ps j + share (ps ! j)"
  by (simp add: cum_def take_Suc_conv_app_nth)

lemma unat_add_tickets:
  "0 \<le> t \<Longrightarrow> unat c + nat t < 2 ^ 32 \<Longrightarrow> unat (c + word_of_int t :: u32) = unat c + nat t"
proof -
  assume a: "0 \<le> t" "unat c + nat t < 2 ^ 32"
  have "word_of_int t = (of_nat (nat t) :: u32)" using a(1) by simp
  moreover have "unat (of_nat (nat t) :: u32) = nat t" using a(2) by (simp add: unat_of_nat take_bit_nat_eq_self)
  ultimately show ?thesis using a(2) by (simp add: unat_word_ariths)
qed

lemma ticket_sum_eq:
  "\<forall>p\<in>set ps. 0 \<le> tickets p \<Longrightarrow> unat c + cum ps (length ps) < 2 ^ 32 \<Longrightarrow>
     unat (ticket_sum ps c) = unat c + cum ps (length ps)"
proof (induction ps arbitrary: c)
  case (Cons p ps)
  then show ?case
    using unat_add_tickets [of "tickets p" c] Cons.IH [of "c + word_of_int (tickets p)"] Cons.IH [of c]
    by (auto simp: share_def)
qed simp

lemma all_less_Suc_shift: "(\<forall>i<Suc n. P i) \<longleftrightarrow> P 0 \<and> (\<forall>i<n. P (Suc i))"
  by (auto simp: less_Suc_eq_0_disj)

lemma pick_iff:
  assumes "\<forall>p\<in>set ps. 0 \<le> tickets p" "unat c + cum ps (length ps) < 2 ^ 32"
  shows "pick n c i ps = Some k \<longleftrightarrow>
    (\<exists>j<length ps. k = i + j \<and> state (ps ! j) = RUNNABLE \<and> unat n \<le> unat c + cum ps (Suc j) \<and>
       (\<forall>j'<j. state (ps ! j') = RUNNABLE \<longrightarrow> unat c + cum ps (Suc j') < unat n))"
  using assms
proof (induction ps arbitrary: c i)
  case (Cons p ps)
  have shift: "(\<exists>j<length (p # ps). k = i + j \<and> P j) \<longleftrightarrow> k = i \<and> P 0 \<or> (\<exists>j<length ps. k = Suc i + j \<and> P (Suc j))"
    for P :: "nat \<Rightarrow> bool" by (auto simp: less_Suc_eq_0_disj)
  show ?case
  proof (cases "state p = RUNNABLE")
    case False
    then have s: "share p = 0" by (simp add: share_def)
    have "pick n c i (p # ps) = pick n c (Suc i) ps" using False by simp
    also note Cons.IH [of c "Suc i"]
    finally show ?thesis
      unfolding shift using Cons.prems False s by (auto simp: less_Suc_eq_0_disj)
  next
    case True
    then have s: "share p = nat (tickets p)" by (simp add: share_def)
    define c' where "c' = c + word_of_int (tickets p)"
    have c': "unat c' = unat c + share p" unfolding c'_def s
      by (rule unat_add_tickets) (use Cons.prems s in auto)
    show ?thesis
    proof (cases "c' < n")
      case lt: True
      have "pick n c i (p # ps) = pick n c' (Suc i) ps" using True lt by (simp add: c'_def Let_def)
      also note Cons.IH [of c' "Suc i"]
      finally have "pick n c i (p # ps) = Some k \<longleftrightarrow> (\<exists>j<length ps. k = Suc i + j \<and> state (ps ! j) = RUNNABLE \<and>
          unat n \<le> unat c' + cum ps (Suc j) \<and> (\<forall>j'<j. state (ps ! j') = RUNNABLE \<longrightarrow> unat c' + cum ps (Suc j') < unat n))"
        using Cons.prems c' by simp
      moreover have "unat c' < unat n" using lt by (simp add: word_less_nat_alt)
      ultimately show ?thesis
        unfolding shift c' using True by (simp add: all_less_Suc_shift add.assoc)
    next
      case ge: False
      then have "pick n c i (p # ps) = Some i" using True by (simp add: c'_def Let_def)
      then show ?thesis unfolding shift using ge True c' by (auto simp: word_less_nat_alt)
    qed
  qed
qed simp

lemma cum_runnable_before:
  assumes "j \<le> length ps" "\<exists>i<j. state (ps ! i) = RUNNABLE"
  shows "(\<forall>i<j. state (ps ! i) = RUNNABLE \<longrightarrow> cum ps (Suc i) < n) \<longleftrightarrow> cum ps j < n"
  using assms
proof (induction j)
  case (Suc j)
  show ?case
  proof (cases "state (ps ! j) = RUNNABLE")
    case True
    have "cum ps (Suc i) < n" if "i < Suc j" "cum ps (Suc j) < n" for i
      using that cum_mono [of "Suc i" "Suc j" ps] by simp
    then show ?thesis using True by blast
  next
    case False
    then have "\<exists>i<j. state (ps ! i) = RUNNABLE" "cum ps (Suc j) = cum ps j"
      using Suc.prems by (auto simp: less_Suc_eq cum_Suc share_def)
    then show ?thesis using Suc.IH Suc.prems False by (auto simp: less_Suc_eq)
  qed
qed simp

lemma cum_none_before:
  "j \<le> length ps \<Longrightarrow> \<forall>i<j. state (ps ! i) \<noteq> RUNNABLE \<Longrightarrow> cum ps j = 0"
  by (induction j) (auto simp: cum_Suc share_def)

text \<open>The numbers that make process \<open>j\<close> win form an interval.\<close>

lemma pick_interval:
  assumes "tickets_ok ps" "j < length ps" "state (ps ! j) = RUNNABLE"
  shows "pick n 0 0 ps = Some j \<longleftrightarrow>
    (if \<exists>i<j. state (ps ! i) = RUNNABLE then cum ps j + 1 else 0) \<le> unat n \<and> unat n < cum ps (Suc j) + 1"
proof -
  have "pick n 0 0 ps = Some j \<longleftrightarrow> unat n \<le> cum ps (Suc j) \<and>
      (\<forall>j'<j. state (ps ! j') = RUNNABLE \<longrightarrow> cum ps (Suc j') < unat n)"
    using assms by (subst pick_iff) (auto simp: tickets_ok_def)
  then show ?thesis using cum_runnable_before [of j ps "unat n"] assms(2) by auto
qed

lemma pick_exists:
  assumes "\<forall>p\<in>set ps. 0 \<le> tickets p" "unat c + cum ps (length ps) < 2 ^ 32"
    and "\<exists>p\<in>set ps. state p = RUNNABLE" "unat n \<le> unat c + cum ps (length ps)"
  shows "\<exists>j<length ps. pick n c i ps = Some (i + j) \<and> state (ps ! j) = RUNNABLE"
  using assms
proof (induction ps arbitrary: c i)
  case (Cons p ps)
  show ?case
  proof (cases "state p = RUNNABLE \<and> \<not> c + word_of_int (tickets p) < n")
    case True
    then show ?thesis by (intro exI [of _ 0]) (simp add: Let_def)
  next
    case False
    define c' where "c' = (if state p = RUNNABLE then c + word_of_int (tickets p) else c)"
    have c': "unat c' = unat c + share p"
      unfolding c'_def share_def using Cons.prems(1,2) by (auto simp: share_def intro!: unat_add_tickets)
    have pk: "pick n c i (p # ps) = pick n c' (Suc i) ps" using False by (auto simp: c'_def Let_def)
    have "\<exists>p\<in>set ps. state p = RUNNABLE"
    proof (rule ccontr)
      assume "\<not> (\<exists>p\<in>set ps. state p = RUNNABLE)"
      then have "cum ps (length ps) = 0" "state p = RUNNABLE" using Cons.prems(3) by (auto simp: cum_def share_def)
      then show False using False Cons.prems(4) c' by (simp add: c'_def word_less_nat_alt)
    qed
    then obtain j where "j < length ps" "pick n c' (Suc i) ps = Some (Suc i + j)" "state (ps ! j) = RUNNABLE"
      using Cons.IH [of c' "Suc i"] Cons.prems c' by auto
    then show ?thesis using pk by (intro exI [of _ "Suc j"]) simp
  qed
qed simp

lemma pick_some:
  assumes "tickets_ok ps" "\<exists>p\<in>set ps. state p = RUNNABLE" "n \<le> ticket_sum ps 0"
  shows "\<exists>j<length ps. pick n 0 0 ps = Some j \<and> state (ps ! j) = RUNNABLE"
  using assms ticket_sum_eq [of ps 0] pick_exists [of ps 0 n 0]
  by (simp add: tickets_ok_def word_le_nat_alt)

text \<open>C21: the odds of the lottery.  Every number up to the ticket sum draws a runnable process when there
  is one, and the processes win with as many of the \<open>ticketSum + 1\<close> numbers as they have tickets,
  except the first runnable one, which wins with one more: number 0 is its extra ticket.\<close>

theorem lottery_odds:
  assumes "tickets_ok ps" and "\<exists>p\<in>set ps. state p = RUNNABLE"
  shows "(\<forall>n\<le>ticket_sum ps 0. \<exists>j<length ps. pick n 0 0 ps = Some j \<and> state (ps ! j) = RUNNABLE) \<and>
    (\<forall>j<length ps. state (ps ! j) = RUNNABLE \<longrightarrow>
       card {n. n \<le> ticket_sum ps 0 \<and> pick n 0 0 ps = Some j} =
         nat (tickets (ps ! j)) + (if \<exists>i<j. state (ps ! i) = RUNNABLE then 0 else 1))"
proof (intro conjI allI impI)
  fix n assume "n \<le> ticket_sum ps 0"
  then show "\<exists>j<length ps. pick n 0 0 ps = Some j \<and> state (ps ! j) = RUNNABLE" by (rule pick_some [OF assms])
next
  fix j assume j: "j < length ps" "state (ps ! j) = RUNNABLE"
  let ?lo = "if \<exists>i<j. state (ps ! i) = RUNNABLE then cum ps j + 1 else 0"
  have le: "cum ps (Suc j) \<le> cum ps (length ps)" using j(1) cum_mono [of "Suc j" "length ps" ps] by simp
  have "n \<le> ticket_sum ps 0 \<and> pick n 0 0 ps = Some j \<longleftrightarrow> ?lo \<le> unat n \<and> unat n < cum ps (Suc j) + 1" for n
    using pick_interval [OF assms(1) j] le ticket_sum_eq [of ps 0] assms(1)
    by (auto simp: tickets_ok_def word_le_nat_alt)
  then have "{n. n \<le> ticket_sum ps 0 \<and> pick n 0 0 ps = Some j} = {n. ?lo \<le> unat n \<and> unat n < cum ps (Suc j) + 1}"
    by blast
  also have "card \<dots> = cum ps (Suc j) + 1 - ?lo"
    using le assms(1) by (intro card_word_range) (simp add: tickets_ok_def)
  finally show "card {n. n \<le> ticket_sum ps 0 \<and> pick n 0 0 ps = Some j} =
      nat (tickets (ps ! j)) + (if \<exists>i<j. state (ps ! i) = RUNNABLE then 0 else 1)"
    using cum_none_before [of j ps] cum_Suc [OF j(1)] j by (auto simp: share_def)
qed

definition two_jobs :: "proc list" where
  "two_jobs = [proc0\<lparr>state := RUNNABLE, tickets := 1\<rparr>, proc0\<lparr>state := RUNNABLE, tickets := 1\<rparr>]"

theorem lottery_odds_witness:
  "card {n. n \<le> ticket_sum two_jobs 0 \<and> pick n 0 0 two_jobs = Some 0} = 2 \<and>
   card {n. n \<le> ticket_sum two_jobs 0 \<and> pick n 0 0 two_jobs = Some 1} = 1"
proof -
  have ok: "tickets_ok two_jobs" by (simp add: tickets_ok_def two_jobs_def cum_def share_def)
  have r: "\<exists>p\<in>set two_jobs. state p = RUNNABLE" by (simp add: two_jobs_def)
  have "length two_jobs = 2" by (simp add: two_jobs_def)
  then show ?thesis
    using conjunct2 [OF lottery_odds [OF ok r], rule_format, of 0] conjunct2 [OF lottery_odds [OF ok r], rule_format, of 1]
    by (simp add: two_jobs_def)
qed

text \<open>After the first loop of a round only entry 0 of \<open>pstat\<close> is written, and it describes the last
  slot of the process table: the index \<open>i\<close> is never advanced.\<close>

theorem fill_pstat_last:
  "ps \<noteq> [] \<Longrightarrow> fill_pstat ps st =
     \<lparr>st_inuse = (st_inuse st)[0 := (if state (last ps) = UNUSED then 0 else 1)],
      st_tickets = (st_tickets st)[0 := tickets (last ps)], st_pid = (st_pid st)[0 := pid (last ps)],
      st_ticks = (st_ticks st)[0 := pticks (last ps)]\<rparr>"
  by (induction ps st rule: fill_pstat.induct) auto

theorem fill_pstat_last_witness:
  "\<exists>st. st_pid (fill_pstat [proc0\<lparr>pid := 1\<rparr>, proc0\<lparr>pid := 2\<rparr>] st) = [2, 0]"
  by (rule exI [of _ "\<lparr>st_inuse = [0, 0], st_tickets = [0, 0], st_pid = [0, 0], st_ticks = [0, 0]\<rparr>"])
    (subst fill_pstat_last, simp_all)

end
