(* ===== verification/XvString.thy ===== *)
theory XvString
  imports Prelude
begin

text \<open>
  The byte-string routines of \<^verbatim>\<open>lab-2/string.c\<close> on a byte-addressed memory, a function from
  32-bit addresses (which wrap around) to bytes.  Every routine returns the memory it leaves; the
  loops are recursions on the remaining count.
\<close>

type_synonym bytes = "u32 \<Rightarrow> u8"

subsection \<open>The routines\<close>

fun stosb :: "u32 \<Rightarrow> u8 \<Rightarrow> nat \<Rightarrow> bytes \<Rightarrow> bytes" where
  "stosb addr c 0 m = m"
| "stosb addr c (Suc cnt) m = stosb (addr + 1) c cnt (m(addr := c))"

definition store32 :: "u32 \<Rightarrow> u32 \<Rightarrow> bytes \<Rightarrow> bytes" where
  "store32 a w m = m(a := ucast w, a + 1 := ucast (drop_bit 8 w), a + 2 := ucast (drop_bit 16 w),
     a + 3 := ucast (drop_bit 24 w))"

fun stosl :: "u32 \<Rightarrow> u32 \<Rightarrow> nat \<Rightarrow> bytes \<Rightarrow> bytes" where
  "stosl addr w 0 m = m"
| "stosl addr w (Suc cnt) m = stosl (addr + 4) w cnt (store32 addr w m)"

definition memset :: "u32 \<Rightarrow> u32 \<Rightarrow> u32 \<Rightarrow> bytes \<Rightarrow> bytes" where
  "memset dst c n m =
     (if dst mod 4 = 0 \<and> n mod 4 = 0
      then (let c = c AND 0xFF
            in stosl dst (push_bit 24 c OR push_bit 16 c OR push_bit 8 c OR c) (unat (n div 4)) m)
      else stosb dst (ucast c) (unat n) m)"

fun memcmp_loop :: "u32 \<Rightarrow> u32 \<Rightarrow> nat \<Rightarrow> bytes \<Rightarrow> int" where
  "memcmp_loop s1 s2 0 m = 0"
| "memcmp_loop s1 s2 (Suc n) m =
     (if m s1 \<noteq> m s2 then uint (m s1) - uint (m s2) else memcmp_loop (s1 + 1) (s2 + 1) n m)"

definition memcmp :: "u32 \<Rightarrow> u32 \<Rightarrow> u32 \<Rightarrow> bytes \<Rightarrow> int" where
  "memcmp v1 v2 n m = memcmp_loop v1 v2 (unat n) m"

fun copy_down :: "u32 \<Rightarrow> u32 \<Rightarrow> nat \<Rightarrow> bytes \<Rightarrow> bytes" where
  "copy_down d s 0 m = m"
| "copy_down d s (Suc n) m = copy_down (d - 1) (s - 1) n (m(d - 1 := m (s - 1)))"

fun copy_up :: "u32 \<Rightarrow> u32 \<Rightarrow> nat \<Rightarrow> bytes \<Rightarrow> bytes" where
  "copy_up d s 0 m = m"
| "copy_up d s (Suc n) m = copy_up (d + 1) (s + 1) n (m(d := m s))"

definition memmove :: "u32 \<Rightarrow> u32 \<Rightarrow> u32 \<Rightarrow> bytes \<Rightarrow> bytes" where
  "memmove dst src n m =
     (if src < dst \<and> dst < src + n then copy_down (dst + n) (src + n) (unat n) m
      else copy_up dst src (unat n) m)"

definition memcpy :: "u32 \<Rightarrow> u32 \<Rightarrow> u32 \<Rightarrow> bytes \<Rightarrow> bytes" where
  "memcpy dst src n m = memmove dst src n m"

fun strncmp_loop :: "u32 \<Rightarrow> u32 \<Rightarrow> nat \<Rightarrow> bytes \<Rightarrow> int" where
  "strncmp_loop p q 0 m = 0"
| "strncmp_loop p q (Suc n) m =
     (if m p \<noteq> 0 \<and> m p = m q then strncmp_loop (p + 1) (q + 1) n m else uint (m p) - uint (m q))"

definition strncmp :: "u32 \<Rightarrow> u32 \<Rightarrow> u32 \<Rightarrow> bytes \<Rightarrow> int" where
  "strncmp p q n m = strncmp_loop p q (unat n) m"

fun pad_loop :: "u32 \<Rightarrow> nat \<Rightarrow> bytes \<Rightarrow> bytes" where
  "pad_loop s 0 m = m"
| "pad_loop s (Suc n) m = pad_loop (s + 1) n (m(s := 0))"

fun strncpy_loop :: "u32 \<Rightarrow> u32 \<Rightarrow> nat \<Rightarrow> bytes \<Rightarrow> bytes" where
  "strncpy_loop s t 0 m = m"
| "strncpy_loop s t (Suc n) m =
     (let m' = m(s := m t) in if m t \<noteq> 0 then strncpy_loop (s + 1) (t + 1) n m' else pad_loop (s + 1) n m')"

definition strncpy :: "u32 \<Rightarrow> u32 \<Rightarrow> int \<Rightarrow> bytes \<Rightarrow> bytes" where
  "strncpy s t n m = strncpy_loop s t (nat n) m"

text \<open>The argument of the loop is the value the test \<^verbatim>\<open>--n > 0\<close> sees.\<close>

fun safestrcpy_loop :: "u32 \<Rightarrow> u32 \<Rightarrow> nat \<Rightarrow> bytes \<Rightarrow> bytes" where
  "safestrcpy_loop s t 0 m = m(s := 0)"
| "safestrcpy_loop s t (Suc n) m =
     (let m' = m(s := m t) in if m t \<noteq> 0 then safestrcpy_loop (s + 1) (t + 1) n m' else m'(s + 1 := 0))"

definition safestrcpy :: "u32 \<Rightarrow> u32 \<Rightarrow> int \<Rightarrow> bytes \<Rightarrow> bytes" where
  "safestrcpy s t n m = (if n \<le> 0 then m else safestrcpy_loop s t (nat (n - 1)) m)"

partial_function (option) strlen_loop :: "u32 \<Rightarrow> nat \<Rightarrow> bytes \<Rightarrow> nat option" where
  "strlen_loop s n m = (if m (s + of_nat n) \<noteq> 0 then strlen_loop s (n + 1) m else Some n)"

definition strlen :: "u32 \<Rightarrow> bytes \<Rightarrow> nat option" where
  "strlen s m = strlen_loop s 0 m"

subsection \<open>Ranges of addresses\<close>

text \<open>The offset of \<open>a\<close> from \<open>s\<close>, as a number below \<open>2 ^ 32\<close>.\<close>

definition off :: "u32 \<Rightarrow> u32 \<Rightarrow> nat" where
  "off s a = unat (a - s)"

lemma off_less: "off s a < 4294967296" by (simp add: off_def unat_lt)

lemma off_self [simp]: "off s s = 0" by (simp add: off_def)

lemma off_0_iff: "off s a = 0 \<longleftrightarrow> a = s"
  by (simp add: off_def unat_eq_0)

lemma off_Suc: "a \<noteq> s \<Longrightarrow> off s a = Suc (off (s + 1) a)"
proof -
  assume "a \<noteq> s"
  then have "a - s \<noteq> 0" by simp
  then have "unat (a - s) = Suc (unat (a - s - 1))" by (metis Suc_pred' unat_gt_0 unat_minus_one)
  then show ?thesis by (simp add: off_def diff_diff_eq)
qed

lemma off_add: "k < 4294967296 \<Longrightarrow> off s (s + of_nat k) = k"
  by (simp add: off_def unat_of_nat take_bit_nat_eq_self)

lemma off_add_diff: "s + of_nat (off s a) = a"
  by (simp add: off_def)

lemma off_less_Suc: "off s a < Suc n \<longleftrightarrow> a = s \<or> off (s + 1) a < n" if "n < 4294967296"
proof (cases "a = s")
  case False
  then show ?thesis using off_Suc by simp
qed simp

lemma add_of_nat_Suc: "(s::u32) + 1 + of_nat i = s + of_nat (Suc i)" by simp

lemma off_next_self: "off (s + 1) s = 4294967295"
  by (simp add: off_def unsigned_minus_1_eq_mask mask_eq_exp_minus_1)

subsection \<open>Filling and copying\<close>

lemma stosb_apply:
  "n \<le> 4294967296 \<Longrightarrow> stosb s c n m a = (if off s a < n then c else m a)"
proof (induction n arbitrary: s m)
  case (Suc n)
  then show ?case using off_less_Suc [of n s a] by auto
qed simp

lemma pad_loop_stosb: "pad_loop s n m = stosb s 0 n m"
  by (induction n arbitrary: s m) auto

lemma copy_up_apply:
  assumes "n \<le> 4294967296" "\<forall>i j. i < j \<longrightarrow> j < n \<longrightarrow> d + of_nat i \<noteq> s + of_nat j"
  shows "copy_up d s n m a = (if off d a < n then m (s + of_nat (off d a)) else m a)"
  using assms
proof (induction n arbitrary: d s m)
  case (Suc n)
  have "\<forall>i j. i < j \<longrightarrow> j < n \<longrightarrow> d + 1 + of_nat i \<noteq> s + 1 + of_nat j"
    using Suc.prems(2) by (metis Suc_less_eq add_of_nat_Suc)
  then have IH: "copy_up (d + 1) (s + 1) n (m(d := m s)) a =
      (if off (d + 1) a < n then (m(d := m s)) (s + 1 + of_nat (off (d + 1) a)) else (m(d := m s)) a)"
    using Suc by simp
  show ?case
  proof (cases "a = d")
    case True
    then show ?thesis using IH off_next_self Suc.prems(1) by simp
  next
    case False
    then have o: "off d a = Suc (off (d + 1) a)" by (rule off_Suc)
    then have "d \<noteq> s + of_nat (off d a)" if "off d a < Suc n"
      using Suc.prems(2) [rule_format, of 0 "off d a"] that by simp
    then show ?thesis using IH False o by (auto simp: ac_simps)
  qed
qed simp

lemma copy_down_apply:
  assumes "n \<le> 4294967296" "\<forall>i j. j < i \<longrightarrow> i < n \<longrightarrow> d + of_nat i \<noteq> s + of_nat j"
  shows "copy_down (d + of_nat n) (s + of_nat n) n m a = (if off d a < n then m (s + of_nat (off d a)) else m a)"
  using assms
proof (induction n arbitrary: m)
  case (Suc n)
  have e: "d + of_nat (Suc n) - 1 = d + of_nat n" "s + of_nat (Suc n) - 1 = s + of_nat n" by simp_all
  have o: "off d (d + of_nat n) = n" using Suc.prems(1) by (simp add: off_add)
  have lt: "off d a < Suc n \<longleftrightarrow> off d a < n \<or> a = d + of_nat n"
    using o off_add_diff [of d a] by (auto simp: less_Suc_eq)
  have ne: "d + of_nat n \<noteq> s + of_nat (off d a)" if "off d a < n"
    using Suc.prems(2) that by blast
  have "copy_down (d + of_nat n) (s + of_nat n) n (m(d + of_nat n := m (s + of_nat n))) a =
      (if off d a < n then (m(d + of_nat n := m (s + of_nat n))) (s + of_nat (off d a))
       else (m(d + of_nat n := m (s + of_nat n))) a)"
    using Suc by simp
  then show ?case unfolding copy_down.simps e lt using o ne by (cases "off d a < n") auto
qed simp

text \<open>Without wrap-around the sum of an address and an offset is the sum of the numbers.\<close>

lemma unat_add_off: "unat (s::u32) + i < 4294967296 \<Longrightarrow> unat (s + of_nat i) = unat s + i"
  by (simp add: unat_word_ariths unat_of_nat take_bit_nat_def)

text \<open>C18: \<open>memmove\<close> copies the \<open>n\<close> bytes of the source as they were before the call, also when the two
  regions overlap in either direction, and changes no other byte.\<close>

theorem memmove_copies:
  assumes "unat src + unat n < 2 ^ 32" and "unat dst + unat n \<le> 2 ^ 32"
  shows "memmove dst src n m = (\<lambda>a. if unat (a - dst) < unat n then m (src + (a - dst)) else m a)"
proof -
  have b: "unat src + unat n < 4294967296" "unat dst + unat n \<le> 4294967296" using assms by simp_all
  have d: "unat (dst + of_nat i) = unat dst + i" and s: "unat (src + of_nat i) = unat src + i" if "i < unat n" for i
    using that b by (simp_all add: unat_add_off)
  have sn: "unat (src + n) = unat src + unat n" using b by (simp add: unat_word_ariths)
  have n: "unat n \<le> 4294967296" using b by simp
  show ?thesis
  proof (rule ext, cases "src < dst \<and> dst < src + n")
    fix a
    case True
    have "dst + of_nat i \<noteq> src + of_nat j" if "j < i" "i < unat n" for i j
      using d [of i] s [of j] that True by (auto simp: word_less_nat_alt)
    then have "copy_down (dst + of_nat (unat n)) (src + of_nat (unat n)) (unat n) m a =
        (if off dst a < unat n then m (src + of_nat (off dst a)) else m a)"
      by (intro copy_down_apply n) blast
    then show "memmove dst src n m a = (if unat (a - dst) < unat n then m (src + (a - dst)) else m a)"
      using True by (simp add: memmove_def off_def)
  next
    fix a
    case False
    have "dst + of_nat i \<noteq> src + of_nat j" if "i < j" "j < unat n" for i j
      using d [of i] s [of j] that False sn by (auto simp: word_less_nat_alt)
    then have "copy_up dst src (unat n) m a = (if off dst a < unat n then m (src + of_nat (off dst a)) else m a)"
      by (intro copy_up_apply n) blast
    then show "memmove dst src n m a = (if unat (a - dst) < unat n then m (src + (a - dst)) else m a)"
      unfolding memmove_def if_not_P [OF False] by (simp add: off_def)
  qed
qed

theorem memmove_copies_witness:
  "memmove 101 100 3 (\<lambda>a. ucast a) 103 = 102 \<and> memmove 100 101 3 (\<lambda>a. ucast a) 102 = 103"
proof -
  have "(\<lambda>a::u32. ucast a :: u8) 102 = 102" "(\<lambda>a::u32. ucast a :: u8) 103 = 103" by simp_all
  then show ?thesis
    using memmove_copies [of 100 3 101 "\<lambda>a. ucast a"] memmove_copies [of 101 3 100 "\<lambda>a. ucast a"] by simp
qed

subsection \<open>Null-terminated strings\<close>

definition cstr :: "bytes \<Rightarrow> u32 \<Rightarrow> u8 list \<Rightarrow> bool" where
  "cstr m a xs \<longleftrightarrow> (\<forall>i<length xs. m (a + of_nat i) = xs ! i \<and> xs ! i \<noteq> 0) \<and> m (a + of_nat (length xs)) = 0"

lemma cstr_Nil: "cstr m a [] \<longleftrightarrow> m a = 0" by (simp add: cstr_def)

lemma cstr_Cons: "cstr m a (x # xs) \<longleftrightarrow> m a = x \<and> x \<noteq> 0 \<and> cstr m (a + 1) xs"
proof -
  have "(\<forall>i<Suc (length xs). P i) \<longleftrightarrow> P 0 \<and> (\<forall>i<length xs. P (Suc i))" for P :: "nat \<Rightarrow> bool"
    by (auto simp: less_Suc_eq_0_disj)
  then show ?thesis by (simp add: cstr_def ac_simps conj_commute)
qed

lemma cstr_frame: "cstr m a xs \<Longrightarrow> \<forall>i\<le>length xs. m' (a + of_nat i) = m (a + of_nat i) \<Longrightarrow> cstr m' a xs"
  by (simp add: cstr_def)

lemma strlen_loop_cstr: "cstr m (s + of_nat n) xs \<Longrightarrow> strlen_loop s n m = Some (n + length xs)"
proof (induction xs arbitrary: n)
  case Nil
  then show ?case by (subst strlen_loop.simps) (simp add: cstr_Nil)
next
  case (Cons x xs)
  then show ?case using Cons.IH [of "Suc n"]
    by (subst strlen_loop.simps) (auto simp: cstr_Cons ac_simps)
qed

lemma strlen_cstr: "cstr m s xs \<Longrightarrow> strlen s m = Some (length xs)"
  using strlen_loop_cstr [of m s 0 xs] by (simp add: strlen_def)

lemma strncmp_loop_eq:
  "cstr m p xs \<Longrightarrow> cstr m q ys \<Longrightarrow> strncmp_loop p q n m = 0 \<longleftrightarrow> take n xs = take n ys"
proof (induction n arbitrary: p q xs ys)
  case (Suc n)
  show ?case
  proof (cases xs; cases ys)
    fix x xs' y ys' assume [simp]: "xs = x # xs'" "ys = y # ys'"
    show ?thesis using Suc.IH [of "p + 1" xs' "q + 1" ys'] Suc.prems by (auto simp: cstr_Cons dest: unsigned_word_eqI)
  qed (use Suc.prems in \<open>auto simp: cstr_Cons cstr_Nil uint_0_iff\<close>)
qed simp

definition apart :: "u32 \<Rightarrow> nat \<Rightarrow> u32 \<Rightarrow> nat \<Rightarrow> bool" where
  "apart s k t l \<longleftrightarrow> (\<forall>i\<le>k. \<forall>j\<le>l. s + of_nat i \<noteq> t + of_nat j)"

lemma apart_Suc: "apart s (Suc k) t (Suc l) \<Longrightarrow> apart (s + 1) k (t + 1) l"
  unfolding apart_def by (metis Suc_le_mono add_of_nat_Suc)

lemma apartD: "apart s k t l \<Longrightarrow> i \<le> k \<Longrightarrow> j \<le> l \<Longrightarrow> s + of_nat i \<noteq> t + of_nat j"
  by (simp add: apart_def)

lemma safestrcpy_loop_frame:
  "k < 4294967296 \<Longrightarrow> k < off s a \<Longrightarrow> safestrcpy_loop s t k m a = m a"
proof (induction k arbitrary: s t m)
  case (Suc k)
  then have "a \<noteq> s" by auto
  moreover from this have "off s a = Suc (off (s + 1) a)" by (rule off_Suc)
  moreover from this have "a \<noteq> s + 1" using Suc.prems by auto
  ultimately show ?case using Suc by (auto simp: Let_def)
qed auto

lemma safestrcpy_loop_cstr:
  "k < 4294967295 \<Longrightarrow> cstr m t xs \<Longrightarrow> apart s k t (length xs) \<Longrightarrow> cstr (safestrcpy_loop s t k m) s (take k xs)"
proof (induction k arbitrary: s t m xs)
  case 0
  then show ?case by (simp add: cstr_Nil)
next
  case (Suc k)
  show ?case
  proof (cases xs)
    case Nil
    then show ?thesis using Suc.prems by (simp add: cstr_Nil)
  next
    case (Cons x xs')
    let ?m = "m(s := m t)"
    have mt: "m t = x" "x \<noteq> 0" using Suc.prems Cons by (auto simp: cstr_Cons)
    have "cstr ?m (t + 1) xs'"
    proof (rule cstr_frame)
      show "cstr m (t + 1) xs'" using Suc.prems Cons by (simp add: cstr_Cons)
      show "\<forall>i\<le>length xs'. ?m (t + 1 + of_nat i) = m (t + 1 + of_nat i)"
      proof (intro allI impI)
        fix i assume "i \<le> length xs'"
        then have "s \<noteq> t + of_nat (Suc i)" using apartD [OF Suc.prems(3), of 0 "Suc i"] Cons by simp
        then show "?m (t + 1 + of_nat i) = m (t + 1 + of_nat i)" by (simp only: add_of_nat_Suc fun_upd_other not_sym)
      qed
    qed
    moreover have "apart (s + 1) k (t + 1) (length xs')" using Suc.prems(3) Cons by (simp add: apart_Suc)
    ultimately have "cstr (safestrcpy_loop (s + 1) (t + 1) k ?m) (s + 1) (take k xs')" using Suc by simp
    moreover have "safestrcpy_loop (s + 1) (t + 1) k ?m s = x"
      using safestrcpy_loop_frame [of k "s + 1" s] Suc.prems(1) mt by (simp add: off_next_self)
    ultimately show ?thesis using mt Cons by (simp add: Let_def cstr_Cons)
  qed
qed

text \<open>\<open>safestrcpy\<close> into a buffer of \<open>n\<close> bytes always leaves a null-terminated string there, the first
  \<open>n - 1\<close> characters of the source, and writes no byte outside the buffer; with \<open>n \<le> 0\<close> it writes nothing.\<close>

theorem safestrcpy_terminated:
  assumes "cstr m t xs" and "apart s (nat (n - 1)) t (length xs)" and "n < 2 ^ 31"
  shows "(n \<le> 0 \<longrightarrow> safestrcpy s t n m = m) \<and>
    (0 < n \<longrightarrow> cstr (safestrcpy s t n m) s (take (nat (n - 1)) xs) \<and>
       (\<forall>a. nat n \<le> unat (a - s) \<longrightarrow> safestrcpy s t n m a = m a))"
  using assms safestrcpy_loop_cstr [of "nat (n - 1)" m t xs s] safestrcpy_loop_frame [of "nat (n - 1)" s _ t m]
  by (auto simp: safestrcpy_def off_def)

theorem safestrcpy_terminated_witness:
  "\<exists>m. cstr m 100 [104, 105, 106] \<and> cstr (safestrcpy 200 100 3 m) 200 [104, 105]"
proof (intro exI conjI)
  let ?m = "((\<lambda>_. 0)(100 := 104, 101 := 105, 102 := 106)) :: bytes"
  show c: "cstr ?m 100 [104, 105, 106]" by (simp add: cstr_Cons cstr_Nil)
  have "apart 200 (nat (3 - 1)) 100 (length [104, 105, 106::u8])"
  proof -
    have "(200::u32) + of_nat i \<noteq> 100 + of_nat j" if "i \<le> 2" "j \<le> 3" for i j
    proof
      assume e: "(200::u32) + of_nat i = 100 + of_nat j"
      have "200 + i = 100 + j" using unat_add_off [of 200 i] unat_add_off [of 100 j] that unfolding e by simp
      then show False using that by simp
    qed
    then show ?thesis by (simp add: apart_def)
  qed
  from safestrcpy_terminated [OF c this] show "cstr (safestrcpy 200 100 3 ?m) 200 [104, 105]" by simp
qed

end
