(* ===== verification/XvPipe.thy ===== *)
theory XvPipe
  imports XvProc Interfaces
begin

text \<open>
  Pipes, \<^verbatim>\<open>lab-2/pipe.c\<close>, on the process table of \<open>XvProc\<close> extended by the pipes of the system.  A pipe is
  named by the address of its page; its spinlock is the lock of that number, and the two channels are
  the addresses of its counters.  \<open>pipewrite\<close> and \<open>piperead\<close> run until they return or go to sleep; the
  \<open>_resume\<close> versions continue after the sleep.  The counters are 32-bit words and wrap around.
\<close>

definition PIPESIZE :: nat where "PIPESIZE = 512"

record pipe =
  pdata :: "u8 list"
  nread :: u32
  nwrite :: u32
  readopen :: bool
  writeopen :: bool

record 'k pipe_st = "'k ptable" +
  pipes :: "u32 \<Rightarrow> pipe"

definition pipe_lock :: "u32 \<Rightarrow> nat" where "pipe_lock p = unat p"

text \<open>The channels are the addresses of \<open>nread\<close> and \<open>nwrite\<close>, after the lock (52 bytes) and the data.\<close>

definition nread_chan :: "u32 \<Rightarrow> channel" where "nread_chan p = AddrChan (p + 564)"

definition nwrite_chan :: "u32 \<Rightarrow> channel" where "nwrite_chan p = AddrChan (p + 568)"

definition set_pipe :: "u32 \<Rightarrow> (pipe \<Rightarrow> pipe) \<Rightarrow> 'k pipe_st \<Rightarrow> 'k pipe_st" where
  "set_pipe p f s = s\<lparr>pipes := (pipes s)(p := f (pipes s p))\<rparr>"

definition wakeup_pipe :: "channel \<Rightarrow> 'k pipe_st \<Rightarrow> 'k pipe_st res" where
  "wakeup_pipe = wakeup_with wakeup1"

definition my_killed :: "'k pipe_st \<Rightarrow> bool res" where
  "my_killed s = (case curproc s of None \<Rightarrow> Inl ''null pointer'' | Some q \<Rightarrow> Inr (killed (getp s q)))"

text \<open>The part of \<open>pipealloc\<close> that sets up the pipe itself.\<close>

definition pipe_init :: "u32 \<Rightarrow> 'k pipe_st \<Rightarrow> 'k pipe_st" where
  "pipe_init p s =
     (set_pipe p (\<lambda>x. x\<lparr>readopen := True, writeopen := True, nwrite := 0, nread := 0\<rparr>) s)
       \<lparr>olocks := (olocks s)(pipe_lock p := False)\<rparr>"

definition pipeclose :: "'k svc \<Rightarrow> u32 \<Rightarrow> bool \<Rightarrow> 'k pipe_st \<Rightarrow> 'k pipe_st res" where
  "pipeclose svc p writable s =
     rbind (lock_acquire (pipe_lock p) s) (\<lambda>s1.
     rbind (if writable then wakeup_pipe (nread_chan p) (set_pipe p (\<lambda>x. x\<lparr>writeopen := False\<rparr>) s1)
            else wakeup_pipe (nwrite_chan p) (set_pipe p (\<lambda>x. x\<lparr>readopen := False\<rparr>) s1)) (\<lambda>s2.
     rbind (lock_release (pipe_lock p) s2) (\<lambda>s3.
     if \<not> readopen (pipes s2 p) \<and> \<not> writeopen (pipes s2 p) then with_k (kfree_op svc p) s3 else Inr s3)))"

text \<open>How a call ends: it returned a value, or it sleeps; in both cases with the index it has reached.\<close>

datatype pipe_out = Returned int nat | Asleep nat

function pipewrite_loop :: "u32 \<Rightarrow> (nat \<Rightarrow> u8) \<Rightarrow> int \<Rightarrow> nat \<Rightarrow> 'k pipe_st \<Rightarrow> (pipe_out \<times> 'k pipe_st) res" where
  "pipewrite_loop p addr n i s =
     (if int i < n
      then if nwrite (pipes s p) = nread (pipes s p) + of_nat PIPESIZE
           then rbind (if \<not> readopen (pipes s p) then Inr True else my_killed s) (\<lambda>stop.
                if stop then rbind (lock_release (pipe_lock p) s) (\<lambda>s1. Inr (Returned (-1) i, s1))
                else rbind (wakeup_pipe (nread_chan p) s) (\<lambda>s1.
                     rbind (sleep (nwrite_chan p) (OtherLock (pipe_lock p)) s1) (\<lambda>s2. Inr (Asleep i, s2))))
           else pipewrite_loop p addr n (i + 1)
                  (set_pipe p (\<lambda>x. x\<lparr>pdata := (pdata x)[unat (nwrite x) mod PIPESIZE := addr i], nwrite := nwrite x + 1\<rparr>) s)
      else rbind (wakeup_pipe (nread_chan p) s) (\<lambda>s1.
           rbind (lock_release (pipe_lock p) s1) (\<lambda>s2. Inr (Returned n i, s2))))"
  by pat_completeness auto
termination by (relation "measure (\<lambda>(p, addr, n, i, s). nat (n - int i))") auto

definition pipewrite :: "u32 \<Rightarrow> (nat \<Rightarrow> u8) \<Rightarrow> int \<Rightarrow> 'k pipe_st \<Rightarrow> (pipe_out \<times> 'k pipe_st) res" where
  "pipewrite p addr n s = rbind (lock_acquire (pipe_lock p) s) (pipewrite_loop p addr n 0)"

definition pipewrite_resume ::
  "bool \<Rightarrow> u32 \<Rightarrow> (nat \<Rightarrow> u8) \<Rightarrow> int \<Rightarrow> nat \<Rightarrow> 'k pipe_st \<Rightarrow> (pipe_out \<times> 'k pipe_st) res" where
  "pipewrite_resume saved p addr n i s =
     rbind (sleep_resume saved (OtherLock (pipe_lock p)) s) (pipewrite_loop p addr n i)"

text \<open>The copy loop of \<open>piperead\<close>, with the bytes it stores at \<open>addr\<close>.\<close>

function read_loop :: "u32 \<Rightarrow> int \<Rightarrow> nat \<Rightarrow> u8 list \<Rightarrow> 'k pipe_st \<Rightarrow> nat \<times> u8 list \<times> 'k pipe_st" where
  "read_loop p n i out s =
     (if int i < n \<and> nread (pipes s p) \<noteq> nwrite (pipes s p)
      then read_loop p n (i + 1) (out @ [pdata (pipes s p) ! (unat (nread (pipes s p)) mod PIPESIZE)])
             (set_pipe p (\<lambda>x. x\<lparr>nread := nread x + 1\<rparr>) s)
      else (i, out, s))"
  by pat_completeness auto
termination by (relation "measure (\<lambda>(p, n, i, out, s). nat (n - int i))") auto

definition piperead_loop :: "u32 \<Rightarrow> int \<Rightarrow> 'k pipe_st \<Rightarrow> (pipe_out \<times> u8 list \<times> 'k pipe_st) res" where
  "piperead_loop p n s =
     (if nread (pipes s p) = nwrite (pipes s p) \<and> writeopen (pipes s p)
      then rbind (my_killed s) (\<lambda>k.
           if k then rbind (lock_release (pipe_lock p) s) (\<lambda>s1. Inr (Returned (-1) 0, [], s1))
           else rbind (sleep (nread_chan p) (OtherLock (pipe_lock p)) s) (\<lambda>s1. Inr (Asleep 0, [], s1)))
      else (case read_loop p n 0 [] s of (i, out, s1) \<Rightarrow>
            rbind (wakeup_pipe (nwrite_chan p) s1) (\<lambda>s2.
            rbind (lock_release (pipe_lock p) s2) (\<lambda>s3. Inr (Returned (int i) i, out, s3)))))"

definition piperead :: "u32 \<Rightarrow> int \<Rightarrow> 'k pipe_st \<Rightarrow> (pipe_out \<times> u8 list \<times> 'k pipe_st) res" where
  "piperead p n s = rbind (lock_acquire (pipe_lock p) s) (piperead_loop p n)"

definition piperead_resume :: "bool \<Rightarrow> u32 \<Rightarrow> int \<Rightarrow> 'k pipe_st \<Rightarrow> (pipe_out \<times> u8 list \<times> 'k pipe_st) res" where
  "piperead_resume saved p n s = rbind (sleep_resume saved (OtherLock (pipe_lock p)) s) (piperead_loop p n)"

declare pipewrite_loop.simps [simp del] read_loop.simps [simp del]

subsection \<open>The contents of a pipe\<close>

definition pcount :: "pipe \<Rightarrow> nat" where
  "pcount x = unat (nwrite x - nread x)"

definition pipe_ok :: "pipe \<Rightarrow> bool" where
  "pipe_ok x \<longleftrightarrow> length (pdata x) = PIPESIZE \<and> pcount x \<le> PIPESIZE"

definition contents :: "pipe \<Rightarrow> u8 list" where
  "contents x = map (\<lambda>k. pdata x ! ((unat (nread x) + k) mod PIPESIZE)) [0..<pcount x]"

lemma unat_mod_PIPESIZE:
  "unat (a + of_nat k :: u32) mod PIPESIZE = (unat a + k) mod PIPESIZE"
proof -
  have "unat (a + of_nat k :: u32) = (unat a + k) mod 4294967296"
    by (simp add: unat_word_ariths unat_of_nat take_bit_nat_def mod_simps)
  then show ?thesis by (simp add: PIPESIZE_def mod_mod_cancel)
qed

lemma nwrite_eq: "nwrite x = nread x + of_nat (pcount x)"
  by (simp add: pcount_def)

lemma pipe_full: "pipe_ok x \<Longrightarrow> nwrite x = nread x + of_nat PIPESIZE \<longleftrightarrow> pcount x = PIPESIZE"
proof
  assume "nwrite x = nread x + of_nat PIPESIZE"
  then have "nwrite x - nread x = of_nat PIPESIZE" by simp
  then show "pcount x = PIPESIZE" by (simp add: pcount_def PIPESIZE_def)
qed (simp add: nwrite_eq)

lemma pipe_empty: "nread x = nwrite x \<longleftrightarrow> contents x = []"
  by (auto simp: contents_def pcount_def unat_eq_0)

lemma length_contents [simp]: "length (contents x) = pcount x"
  by (simp add: contents_def)

definition pushed :: "u8 \<Rightarrow> pipe \<Rightarrow> pipe" where
  "pushed c x = x\<lparr>pdata := (pdata x)[unat (nwrite x) mod PIPESIZE := c], nwrite := nwrite x + 1\<rparr>"

lemma pushed_ok:
  assumes "pipe_ok x" "pcount x < PIPESIZE"
  shows "pipe_ok (pushed c x)" "contents (pushed c x) = contents x @ [c]"
proof -
  have n1: "nwrite (pushed c x) - nread (pushed c x) = of_nat (Suc (pcount x))"
    by (simp add: pushed_def pcount_def ac_simps diff_diff_eq)
  then have cnt: "pcount (pushed c x) = Suc (pcount x)"
    unfolding pcount_def n1 using assms(2)
    by (simp add: unat_of_nat take_bit_nat_eq_self PIPESIZE_def pcount_def del: of_nat_Suc)
  show "pipe_ok (pushed c x)" using assms cnt by (simp add: pipe_ok_def pushed_def)
  have w: "unat (nwrite x) mod PIPESIZE = (unat (nread x) + pcount x) mod PIPESIZE"
    by (subst nwrite_eq) (rule unat_mod_PIPESIZE)
  have "(unat (nread x) + pcount x) mod PIPESIZE \<noteq> (unat (nread x) + k) mod PIPESIZE" if "k < pcount x" for k
    using that assms(2) mod_add_inj less_trans nat_neq_iff by metis
  moreover have "(unat (nread x) + pcount x) mod PIPESIZE < PIPESIZE" by (simp add: PIPESIZE_def)
  ultimately show "contents (pushed c x) = contents x @ [c]"
    using assms by (simp add: contents_def cnt) (simp add: pushed_def w pipe_ok_def)
qed

definition popped :: "pipe \<Rightarrow> pipe" where
  "popped x = x\<lparr>nread := nread x + 1\<rparr>"

lemma popped_ok:
  assumes "pipe_ok x" "nread x \<noteq> nwrite x"
  shows "pipe_ok (popped x)" "contents x = pdata x ! (unat (nread x) mod PIPESIZE) # contents (popped x)"
proof -
  have "nwrite x - nread x \<noteq> 0" using assms(2) by simp
  then have "unat (nwrite x - nread x - 1) = unat (nwrite x - nread x) - 1" "0 < unat (nwrite x - nread x)"
    by (simp_all add: unat_minus_1 unat_gt_0)
  then have cnt: "pcount x = Suc (pcount (popped x))"
    by (simp add: pcount_def popped_def diff_diff_eq [symmetric])
  show "pipe_ok (popped x)" using assms cnt by (simp add: pipe_ok_def popped_def)
  have "unat (nread (popped x)) mod PIPESIZE = (unat (nread x) + 1) mod PIPESIZE"
    using unat_mod_PIPESIZE [of "nread x" 1] by (simp add: popped_def)
  then have "(unat (nread (popped x)) + k) mod PIPESIZE = (unat (nread x) + Suc k) mod PIPESIZE" for k
    using mod_add_left_eq [of "unat (nread (popped x))" PIPESIZE k] mod_add_left_eq [of "unat (nread x) + 1" PIPESIZE k]
    by simp
  then show "contents x = pdata x ! (unat (nread x) mod PIPESIZE) # contents (popped x)"
    by (intro nth_equalityI) (auto simp: cnt contents_def nth_Cons popped_def simp del: upt_Suc split: nat.splits)
qed

subsection \<open>Locks, wakeups and sleeps leave the pipes alone\<close>

lemma pipes_more: "ptable.more t = ptable.more s \<Longrightarrow> pipes t = pipes s"
  by (cases s, cases t) simp

lemma more_setp [simp]: "ptable.more (setp p f s) = ptable.more s"
  by (simp add: setp_def)

lemma more_pt_acquire: "pt_acquire s = Inr t \<Longrightarrow> ptable.more t = ptable.more s"
  by (auto simp: pt_acquire_def res_simps)

lemma more_pt_release: "pt_release s = Inr t \<Longrightarrow> ptable.more t = ptable.more s"
  by (auto simp: pt_release_def res_simps)

lemma more_lock_acquire: "lock_acquire l s = Inr t \<Longrightarrow> ptable.more t = ptable.more s"
  by (auto simp: lock_acquire_def res_simps)

lemma more_lock_release: "lock_release l s = Inr t \<Longrightarrow> ptable.more t = ptable.more s"
  by (auto simp: lock_release_def res_simps)

lemma more_wakeup1_loop: "ptable.more (wakeup1_loop ch ps s) = ptable.more s"
  by (induction ch ps s rule: wakeup1_loop.induct) auto

lemma more_wakeup: "wakeup_with wakeup1 ch s = Inr t \<Longrightarrow> ptable.more t = ptable.more s"
  by (auto simp: wakeup_with_def wakeup1_def res_simps more_wakeup1_loop dest!: more_pt_acquire more_pt_release)

lemma sched_same: "sched s = Inr t \<Longrightarrow> t = s"
  by (auto simp: sched_def split: option.splits if_splits)

lemma more_sleep: "sleep ch lk s = Inr t \<Longrightarrow> ptable.more t = ptable.more s"
  by (auto simp: sleep_def res_simps split: option.splits if_splits lockref.splits
      dest!: sched_same more_pt_acquire more_lock_release)

lemma more_sleep_resume: "sleep_resume b lk s = Inr t \<Longrightarrow> ptable.more t = ptable.more s"
  by (auto simp: sleep_resume_def sched_resume_def Let_def res_simps split: option.splits lockref.splits
      dest!: more_pt_release more_lock_acquire)

lemma more_with_k: "with_k f s = Inr t \<Longrightarrow> ptable.more t = ptable.more s"
  by (auto simp: with_k_def res_simps)

lemmas pipes_frame =
  more_lock_acquire [THEN pipes_more] more_lock_release [THEN pipes_more] more_wakeup [THEN pipes_more]
  more_sleep [THEN pipes_more] more_sleep_resume [THEN pipes_more] more_with_k [THEN pipes_more]

lemma pipes_set_pipe [simp]: "pipes (set_pipe p f s) q = (if q = p then f (pipes s p) else pipes s q)"
  by (simp add: set_pipe_def)

subsection \<open>Every byte goes through once, in order\<close>

fun reached :: "pipe_out \<Rightarrow> nat" where
  "reached (Returned r i) = i"
| "reached (Asleep i) = i"

lemma pipewrite_loop_contents:
  "pipewrite_loop p addr n i s = Inr (r, t) \<Longrightarrow> pipe_ok (pipes s p) \<Longrightarrow>
     pipe_ok (pipes t p) \<and> i \<le> reached r \<and> contents (pipes t p) = contents (pipes s p) @ map addr [i..<reached r]"
proof (induction p addr n i s rule: pipewrite_loop.induct)
  case (1 p addr n i s)
  show ?case
  proof (cases "int i < n \<and> nwrite (pipes s p) \<noteq> nread (pipes s p) + of_nat PIPESIZE")
    case True
    let ?s = "set_pipe p (\<lambda>x. x\<lparr>pdata := (pdata x)[unat (nwrite x) mod PIPESIZE := addr i], nwrite := nwrite x + 1\<rparr>) s"
    have "pcount (pipes s p) < PIPESIZE"
      using True 1(3) pipe_full [OF 1(3)] by (simp add: pipe_ok_def)
    note po = pushed_ok [OF 1(3) this, of "addr i"]
    have ps: "pipes ?s p = pushed (addr i) (pipes s p)" by (simp add: pushed_def)
    have "pipewrite_loop p addr n (i + 1) ?s = Inr (r, t)" using 1(2) True by (simp only: pipewrite_loop.simps [of p addr n i s]) simp
    then have "pipe_ok (pipes t p) \<and> i + 1 \<le> reached r \<and>
        contents (pipes t p) = contents (pipes ?s p) @ map addr [i + 1..<reached r]"
      using True po(1) ps by (intro 1(1)) auto
    then show ?thesis using po(2) ps by (simp add: upt_conv_Cons)
  next
    case False
    then have "pipes t = pipes s \<and> reached r = i"
      using 1(2) by (subst (asm) pipewrite_loop.simps)
        (auto simp: res_simps wakeup_pipe_def split: if_splits dest!: pipes_frame)
    then show ?thesis using 1(3) by simp
  qed
qed

lemma read_loop_contents:
  "read_loop p n i out s = (j, out', t) \<Longrightarrow> pipe_ok (pipes s p) \<Longrightarrow>
     \<exists>xs. out' = out @ xs \<and> pipe_ok (pipes t p) \<and> contents (pipes s p) = xs @ contents (pipes t p) \<and>
       j = i + length xs \<and> (contents (pipes t p) = [] \<or> n \<le> int j)"
proof (induction p n i out s rule: read_loop.induct)
  case (1 p n i out s)
  show ?case
  proof (cases "int i < n \<and> nread (pipes s p) \<noteq> nwrite (pipes s p)")
    case True
    let ?c = "pdata (pipes s p) ! (unat (nread (pipes s p)) mod PIPESIZE)"
    let ?s = "set_pipe p (\<lambda>x. x\<lparr>nread := nread x + 1\<rparr>) s"
    note po = popped_ok [OF 1(3) conjunct2 [OF True]]
    have ps: "pipes ?s p = popped (pipes s p)" by (simp add: popped_def)
    have "read_loop p n (i + 1) (out @ [?c]) ?s = (j, out', t)" using 1(2) True by (simp only: read_loop.simps [of p n i out s]) simp
    then obtain xs where "out' = (out @ [?c]) @ xs" "pipe_ok (pipes t p)" "contents (pipes ?s p) = xs @ contents (pipes t p)"
        "j = i + 1 + length xs" "contents (pipes t p) = [] \<or> n \<le> int j"
      using 1(1) [OF True] po(1) ps by auto
    then show ?thesis using po(2) ps by (intro exI [of _ "?c # xs"]) simp
  next
    case False
    then have "j = i \<and> out' = out \<and> t = s" using 1(2) by (subst (asm) read_loop.simps) (auto split: if_splits)
    then show ?thesis using False 1(3) pipe_empty [of "pipes s p"] by auto
  qed
qed

lemma piperead_loop_contents:
  assumes "piperead_loop p n s = Inr (r, out, t)" and "pipe_ok (pipes s p)"
  shows "pipe_ok (pipes t p) \<and> contents (pipes s p) = out @ contents (pipes t p)"
proof (cases "nread (pipes s p) = nwrite (pipes s p) \<and> writeopen (pipes s p)")
  case True
  then have "pipes t = pipes s \<and> out = []"
    using assms(1) by (auto simp: piperead_loop_def res_simps split: if_splits dest!: pipes_frame)
  then show ?thesis using assms(2) by simp
next
  case False
  then obtain i s1 where l: "read_loop p n 0 [] s = (i, out, s1)" and "pipes t = pipes s1"
    using assms(1) unfolding piperead_loop_def if_not_P [OF False]
    by (auto simp: res_simps wakeup_pipe_def split: prod.splits dest!: pipes_frame)
  then show ?thesis using read_loop_contents [OF l assms(2)] by auto
qed

lemma pipeclose_contents:
  assumes "pipeclose svc p w s = Inr t" and "pipe_ok (pipes s p)"
  shows "pipe_ok (pipes t p) \<and> contents (pipes t p) = contents (pipes s p)"
proof -
  obtain f where "pipes t = (pipes s)(p := f (pipes s p))" "f = readopen_update (\<lambda>_. False) \<or> f = writeopen_update (\<lambda>_. False)"
    using assms(1) unfolding pipeclose_def
    by (auto simp: res_simps wakeup_pipe_def set_pipe_def split: if_splits dest!: pipes_frame)
  then show ?thesis using assms(2) by (auto simp: pipe_ok_def contents_def pcount_def)
qed

text \<open>What counts as a send on pipe \<open>p\<close>: a write, started or resumed, with the bytes it stored; and every
  step that puts in nothing, closing an end and any other kernel step that does not touch the pipe.\<close>

definition pipe_send :: "u32 \<Rightarrow> 'k pipe_st \<Rightarrow> u8 list \<Rightarrow> 'k pipe_st \<Rightarrow> bool" where
  "pipe_send p s xs t \<longleftrightarrow>
     (\<exists>addr n r. pipewrite p addr n s = Inr (r, t) \<and> xs = map addr [0..<reached r]) \<or>
     (\<exists>b addr n i r. pipewrite_resume b p addr n i s = Inr (r, t) \<and> xs = map addr [i..<reached r]) \<or>
     (\<exists>svc w. pipeclose svc p w s = Inr t \<and> xs = []) \<or> pipes t p = pipes s p \<and> xs = []"

definition pipe_recv :: "u32 \<Rightarrow> 'k pipe_st \<Rightarrow> u8 list \<Rightarrow> 'k pipe_st \<Rightarrow> bool" where
  "pipe_recv p s xs t \<longleftrightarrow>
     (\<exists>n r. piperead p n s = Inr (r, xs, t)) \<or> (\<exists>b n r. piperead_resume b p n s = Inr (r, xs, t))"

interpretation pipe: byte_stream "\<lambda>s. pipe_ok (pipes s p)" "\<lambda>s. contents (pipes s p)" "pipe_send p" "pipe_recv p"
proof unfold_locales
  fix s t :: "'a pipe_st" and xs
  assume ok: "pipe_ok (pipes s p)"
  show "pipe_ok (pipes t p) \<and> contents (pipes t p) = contents (pipes s p) @ xs" if "pipe_send p s xs t"
    using that ok unfolding pipe_send_def pipewrite_def pipewrite_resume_def
    by (elim disjE exE conjE)
      (auto simp: res_simps pipeclose_contents dest!: pipewrite_loop_contents pipes_frame)
  show "pipe_ok (pipes t p) \<and> contents (pipes s p) = xs @ contents (pipes t p)" if "pipe_recv p s xs t"
    using that ok unfolding pipe_recv_def piperead_def piperead_resume_def
    by (auto simp: res_simps dest!: piperead_loop_contents pipes_frame)
qed

text \<open>C9: whatever the order in which writers and readers of a pipe run, sleep and resume, and although the
  counters wrap around, the bytes the readers got followed by the bytes in the buffer are the bytes
  the writers stored, in order; the buffer never holds more than 512 bytes.\<close>

theorem pipe_fifo:
  assumes "pipe_ok (pipes s p)" and "contents (pipes s p) = []"
    and "stream (pipe_send p) (pipe_recv p) s w r t"
  shows "r @ contents (pipes t p) = w \<and> length (contents (pipes t p)) \<le> PIPESIZE"
  using pipe.stream_order [OF assms(3)] assms(1,2) by (simp add: pipe_ok_def)

subsection \<open>Reads that do not block\<close>

text \<open>A kernel state in which the locks a pipe call takes are free and the interrupt nesting is sound.\<close>

definition locks_free :: "u32 \<Rightarrow> 'k pipe_st \<Rightarrow> bool" where
  "locks_free p s \<longleftrightarrow> \<not> olocks s (pipe_lock p) \<and> \<not> pt_lock s \<and> 0 \<le> ncli (cpu s)"

lemma wakeup1_loop_fields:
  "pt_lock (wakeup1_loop ch ps s) = pt_lock s \<and> cpu (wakeup1_loop ch ps s) = cpu s \<and> olocks (wakeup1_loop ch ps s) = olocks s"
  by (induction ch ps s rule: wakeup1_loop.induct) (auto simp: setp_def)

lemma wakeup_returns:
  assumes "\<not> pt_lock s" "1 \<le> ncli (cpu s)"
  shows "\<exists>t. wakeup_pipe ch s = Inr t \<and> pipes t = pipes s \<and> \<not> pt_lock t \<and> olocks t = olocks s \<and>
    (\<not> IF (cpu s) \<longrightarrow> \<not> IF (cpu t)) \<and> ncli (cpu t) = ncli (cpu s)"
proof -
  let ?s = "s\<lparr>pt_lock := True, cpu := push_cpu (cpu s)\<rparr>"
  let ?t = "wakeup1_loop ch [0..<NPROC] ?s"
  let ?u = "?t\<lparr>pt_lock := False, cpu := pop_cpu (cpu ?t)\<rparr>"
  have c: "cpu ?t = push_cpu (cpu s)" "pt_lock ?t" using wakeup1_loop_fields [of ch "[0..<NPROC]" ?s] by simp_all
  have w: "wakeup_pipe ch s = Inr ?u"
    using assms c by (simp add: wakeup_pipe_def wakeup_with_def pt_acquire_def wakeup1_def pt_release_def cpu_pop_def push_cpu_def)
  moreover have "pipes ?u = pipes s" using w by (auto simp: wakeup_pipe_def dest: pipes_frame)
  moreover have "(\<not> IF (cpu s) \<longrightarrow> \<not> IF (cpu ?u)) \<and> ncli (cpu ?u) = ncli (cpu s)"
    using assms c by (simp add: push_cpu_def pop_cpu_def)
  ultimately show ?thesis using wakeup1_loop_fields [of ch "[0..<NPROC]" ?s] by auto
qed

text \<open>C38: a \<open>piperead\<close> from a pipe that holds data, or whose write end is closed, does not block or panic: it
  returns the first \<open>n\<close> bytes of the buffer (all of them when there are fewer), removes exactly these
  and releases the lock.  So the result 0 for \<open>n > 0\<close> means that the pipe is empty and closed.\<close>

theorem piperead_returns:
  assumes "pipe_ok (pipes s p)" and "locks_free p s"
    and "contents (pipes s p) \<noteq> [] \<or> \<not> writeopen (pipes s p)"
  shows "\<exists>t. let k = min (nat n) (length (contents (pipes s p)))
     in piperead p n s = Inr (Returned (int k) k, take k (contents (pipes s p)), t) \<and>
        contents (pipes t p) = drop k (contents (pipes s p)) \<and> locks_free p t"
proof -
  let ?c = "contents (pipes s p)"
  define s1 where "s1 = s\<lparr>olocks := (olocks s)(pipe_lock p := True), cpu := push_cpu (cpu s)\<rparr>"
  have a: "lock_acquire (pipe_lock p) s = Inr s1"
    using assms(2) by (simp add: locks_free_def lock_acquire_def s1_def)
  have p1: "pipes s1 = pipes s" by (simp add: s1_def)
  obtain i out s2 where l: "read_loop p n 0 [] s1 = (i, out, s2)" by (metis prod_cases3)
  have c: "?c = out @ contents (pipes s2 p)" "i = length out" "contents (pipes s2 p) = [] \<or> n \<le> int i"
    using read_loop_contents [OF l] assms(1) p1 by auto
  have le: "int i \<le> n \<or> i = 0" and same: "pt_lock s2 = pt_lock s1 \<and> cpu s2 = cpu s1 \<and> olocks s2 = olocks s1"
  proof -
    have "(int i \<le> n \<or> i = j) \<and> pt_lock s2 = pt_lock v \<and> cpu s2 = cpu v \<and> olocks s2 = olocks v"
      if "read_loop p n j acc v = (i, out, s2)" for j acc v
      using that
    proof (induction p n j acc v rule: read_loop.induct)
      case (1 p n j acc v)
      then show ?case using read_loop.simps [of p n j acc v] by (auto simp: set_pipe_def split: if_splits)
    qed
    from this [OF l] show "int i \<le> n \<or> i = 0" "pt_lock s2 = pt_lock s1 \<and> cpu s2 = cpu s1 \<and> olocks s2 = olocks s1"
      by auto
  qed
  have "length ?c = i + length (contents (pipes s2 p))" using c(1,2) by (metis length_append)
  then have k: "i = min (nat n) (length ?c)" using c(3) le by (auto simp del: length_contents)
  have "\<not> pt_lock s2" "1 \<le> ncli (cpu s2)" "\<not> IF (cpu s2)"
    using same assms(2) by (simp_all add: s1_def locks_free_def push_cpu_def)
  then obtain s3 where w: "wakeup_pipe (nwrite_chan p) s2 = Inr s3" "pipes s3 = pipes s2" "\<not> pt_lock s3"
      "olocks s3 = olocks s2" "\<not> IF (cpu s3)" "ncli (cpu s3) = ncli (cpu s2)"
    using wakeup_returns by blast
  define t where "t = s3\<lparr>olocks := (olocks s3)(pipe_lock p := False), cpu := pop_cpu (cpu s3)\<rparr>"
  have r: "lock_release (pipe_lock p) s3 = Inr t"
    using w same assms(2) by (simp add: lock_release_def cpu_pop_def t_def s1_def locks_free_def push_cpu_def)
  have "piperead p n s = Inr (Returned (int i) i, out, t)"
    using assms(3) pipe_empty [of "pipes s p"] l w(1) r p1 by (auto simp: piperead_def a piperead_loop_def)
  moreover have "contents (pipes t p) = contents (pipes s2 p)" using w(2) by (simp add: t_def)
  moreover have "locks_free p t"
    using w same assms(2) by (simp add: t_def locks_free_def pop_cpu_def s1_def push_cpu_def)
  moreover have "out = take i ?c" "contents (pipes s2 p) = drop i ?c" using c by simp_all
  ultimately show ?thesis unfolding k [symmetric] Let_def by (intro exI [of _ t]) simp
qed

definition pipe_example :: "unit pipe_st" where
  "pipe_example = \<lparr>pt_lock = False, procs = [], initproc = None, nextpid = 1, cpu = \<lparr>ncli = 0, intena = False, IF = True\<rparr>,
     curproc = None, olocks = (\<lambda>_. False), ticks = 0, forkret_first = False, kst = (),
     pipes = (\<lambda>_. \<lparr>pdata = replicate 511 7 @ [9], nread = 0xFFFFFFFF, nwrite = 1, readopen = True, writeopen = True\<rparr>)\<rparr>"

theorem piperead_returns_witness:
  "\<exists>t. piperead 4096 8 pipe_example = Inr (Returned 2 2, [9, 7], t)"
proof -
  have "pipe_ok (pipes pipe_example 4096)" "locks_free 4096 pipe_example"
    and c: "contents (pipes pipe_example 4096) = [9, 7]"
    by (simp_all add: pipe_example_def pipe_ok_def locks_free_def contents_def pcount_def PIPESIZE_def
        upt_conv_Cons nth_append unsigned_minus_1_eq_mask mask_eq_exp_minus_1)
  then show ?thesis using piperead_returns [of pipe_example 4096 8] by (auto simp: Let_def)
qed

theorem pipe_fifo_witness:
  "\<exists>w t. stream (pipe_send 4096) (pipe_recv 4096) (pipe_init 4096 pipe_example) w [] t \<and> contents (pipes t 4096) = [5]"
proof -
  let ?s = "pipe_init 4096 pipe_example" and ?l = "pipe_lock 4096"
  let ?s1 = "?s\<lparr>olocks := (olocks ?s)(?l := True), cpu := push_cpu (cpu ?s)\<rparr>"
  let ?s2 = "set_pipe 4096 (\<lambda>x. x\<lparr>pdata := (pdata x)[unat (nwrite x) mod PIPESIZE := 5], nwrite := nwrite x + 1\<rparr>) ?s1"
  have f: "\<not> pt_lock ?s2" "1 \<le> ncli (cpu ?s2)" "\<not> IF (cpu ?s2)" "olocks ?s2 ?l" "ncli (cpu ?s2) = 1"
    by (simp_all add: pipe_init_def set_pipe_def pipe_example_def push_cpu_def)
  obtain s3 where w: "wakeup_pipe (nread_chan 4096) ?s2 = Inr s3" "olocks s3 = olocks ?s2" "\<not> IF (cpu s3)" "ncli (cpu s3) = 1"
    using wakeup_returns [OF f(1,2), of "nread_chan 4096"] f by auto
  obtain t where t: "lock_release ?l s3 = Inr t" using w f(4) by (simp add: lock_release_def cpu_pop_def)
  have "lock_acquire ?l ?s = Inr ?s1" by (simp add: lock_acquire_def pipe_init_def set_pipe_def pipe_example_def)
  then have "pipewrite 4096 (\<lambda>_. 5) 1 ?s = Inr (Returned 1 1, t)"
    using w(1) t by (simp add: pipewrite_def pipewrite_loop.simps [of _ _ 1] pipe_init_def PIPESIZE_def)
  then have "pipe_send 4096 ?s [5] t" unfolding pipe_send_def
    by (intro disjI1 exI [of _ "\<lambda>_. 5"] exI [of _ 1] exI [of _ "Returned 1 1"]) simp
  then have st: "stream (pipe_send 4096) (pipe_recv 4096) ?s [5] [] t"
    using stream.stream_send [OF stream.stream_start] by fastforce
  have "pipe_ok (pipes ?s 4096)" "contents (pipes ?s 4096) = []"
    by (simp_all add: pipe_init_def pipe_example_def pipe_ok_def contents_def pcount_def PIPESIZE_def)
  then show ?thesis using pipe_fifo [OF _ _ st] st by auto
qed

end
