(* ===== verification/XvSleeplock.thy ===== *)
theory XvSleeplock
  imports XvSpinlock
begin

text \<open>
  Sleep locks, \<^verbatim>\<open>lab-2/sleeplock.c\<close>, as the running process sees them: its pid is an argument, and a call that
  would have to sleep until another process releases the lock ends with the outcome \<open>''sleep''\<close>.
\<close>

record sleeplock =
  sl_spin :: bool
  slocked :: bool
  spid :: int

definition initsleeplock :: sleeplock where
  "initsleeplock = \<lparr>sl_spin = False, slocked = False, spid = 0\<rparr>"

definition acquiresleep :: "int \<Rightarrow> sleeplock \<Rightarrow> sleeplock res" where
  "acquiresleep me lk =
     rbind (lk_acquire (sl_spin lk)) (\<lambda>b.
     if slocked lk then Inl ''sleep''
     else rbind (lk_release b) (\<lambda>b. Inr \<lparr>sl_spin = b, slocked = True, spid = me\<rparr>))"

definition releasesleep :: "sleeplock \<Rightarrow> sleeplock res" where
  "releasesleep lk =
     rbind (lk_acquire (sl_spin lk)) (\<lambda>b.
     rbind (lk_release b) (\<lambda>b. Inr \<lparr>sl_spin = b, slocked = False, spid = 0\<rparr>))"

definition holdingsleep :: "int \<Rightarrow> sleeplock \<Rightarrow> bool res" where
  "holdingsleep me lk =
     rbind (lk_acquire (sl_spin lk)) (\<lambda>b.
     let r = slocked lk \<and> spid lk = me in rbind (lk_release b) (\<lambda>b. Inr r))"

definition held_by :: "int \<Rightarrow> sleeplock" where
  "held_by me = \<lparr>sl_spin = False, slocked = True, spid = me\<rparr>"

lemma acquiresleep_free [simp]: "\<not> sl_spin lk \<Longrightarrow> \<not> slocked lk \<Longrightarrow> acquiresleep me lk = Inr (held_by me)"
  by (simp add: acquiresleep_def held_by_def)

lemma holdingsleep_held [simp]: "holdingsleep me (held_by me) = Inr True"
  by (simp add: holdingsleep_def held_by_def)

lemma releasesleep_held [simp]: "releasesleep (held_by me) = Inr initsleeplock"
  by (simp add: releasesleep_def held_by_def initsleeplock_def)

lemma initsleeplock_fields [simp]: "\<not> sl_spin initsleeplock" "\<not> slocked initsleeplock"
  by (simp_all add: initsleeplock_def)

lemma held_by_fields [simp]: "slocked (held_by me)" "\<not> sl_spin (held_by me)" "spid (held_by me) = me"
  by (simp_all add: held_by_def)

end
