(* ===== verification/XvLayout.thy ===== *)
theory XvLayout
  imports Prelude
begin

text \<open>
  The on-disk format of \<^verbatim>\<open>lab-2/fs.h\<close>: blocks of bytes, little-endian numbers inside them, and the structures
  the kernel overlays on a block (superblock, inode, directory entry), with the round trips between
  the bytes and the records.
\<close>

type_synonym block = "u8 list"

definition BSIZE :: nat where "BSIZE = 512"
definition ROOTINO :: u32 where "ROOTINO = 1"
definition NDIRECT :: nat where "NDIRECT = 12"
definition NINDIRECT :: nat where "NINDIRECT = BSIZE div 4"
definition MAXFILE :: nat where "MAXFILE = NDIRECT + NINDIRECT"
definition DIRSIZ :: nat where "DIRSIZ = 14"
definition IPB :: nat where "IPB = BSIZE div 64"
definition BPB :: nat where "BPB = BSIZE * 8"

record superblock =
  sb_size :: u32
  sb_nblocks :: u32
  sb_ninodes :: u32
  sb_nlog :: u32
  sb_logstart :: u32
  sb_inodestart :: u32
  sb_bmapstart :: u32

record dinode =
  d_type :: u16
  d_major :: u16
  d_minor :: u16
  d_nlink :: u16
  d_size :: u32
  d_addrs :: "u32 list"

record dirent =
  de_inum :: u16
  de_name :: "u8 list"

definition IBLOCK :: "u32 \<Rightarrow> superblock \<Rightarrow> u32" where
  "IBLOCK i sb = i div of_nat IPB + sb_inodestart sb"

definition BBLOCK :: "u32 \<Rightarrow> superblock \<Rightarrow> u32" where
  "BBLOCK b sb = b div of_nat BPB + sb_bmapstart sb"

subsection \<open>Numbers in a block\<close>

definition get32 :: "nat \<Rightarrow> block \<Rightarrow> u32" where
  "get32 o' d = ucast (d ! o') OR push_bit 8 (ucast (d ! (o' + 1))) OR push_bit 16 (ucast (d ! (o' + 2)))
     OR push_bit 24 (ucast (d ! (o' + 3)))"

definition put32 :: "nat \<Rightarrow> u32 \<Rightarrow> block \<Rightarrow> block" where
  "put32 o' w d = d[o' := ucast w, o' + 1 := ucast (drop_bit 8 w), o' + 2 := ucast (drop_bit 16 w),
     o' + 3 := ucast (drop_bit 24 w)]"

definition get16 :: "nat \<Rightarrow> block \<Rightarrow> u16" where
  "get16 o' d = ucast (d ! o') OR push_bit 8 (ucast (d ! (o' + 1)))"

definition put16 :: "nat \<Rightarrow> u16 \<Rightarrow> block \<Rightarrow> block" where
  "put16 o' w d = d[o' := ucast w, o' + 1 := ucast (drop_bit 8 w)]"

lemma length_put32 [simp]: "length (put32 o' w d) = length d" by (simp add: put32_def)

lemma length_put16 [simp]: "length (put16 o' w d) = length d" by (simp add: put16_def)

lemma bytes_of_u32:
  fixes w :: u32
  shows "ucast (ucast w :: u8) OR push_bit 8 (ucast (ucast (drop_bit 8 w) :: u8)) OR
    push_bit 16 (ucast (ucast (drop_bit 16 w) :: u8)) OR push_bit 24 (ucast (ucast (drop_bit 24 w) :: u8)) = w"
    (is "?v = w")
proof (rule bit_word_eqI)
  fix n :: nat assume "n < LENGTH(32)"
  then show "bit ?v n = bit w n" by (cases "n < 16"; cases "n < 24") (auto simp: bit_simps)
qed

lemma bytes_of_u16:
  fixes w :: u16
  shows "ucast (ucast w :: u8) OR push_bit 8 (ucast (ucast (drop_bit 8 w) :: u8)) = w"
  by (rule bit_word_eqI) (auto simp: bit_simps)

lemma get32_put32 [simp]: "o' + 3 < length d \<Longrightarrow> get32 o' (put32 o' w d) = w"
  using bytes_of_u32 [of w] by (simp add: get32_def put32_def nth_list_update)

lemma get16_put16 [simp]: "o' + 1 < length d \<Longrightarrow> get16 o' (put16 o' w d) = w"
  using bytes_of_u16 [of w] by (simp add: get16_def put16_def nth_list_update)

lemma put32_nth_other: "i < o' \<or> o' + 4 \<le> i \<Longrightarrow> put32 o' w d ! i = d ! i"
  by (auto simp: put32_def)

lemma put16_nth_other: "i < o' \<or> o' + 2 \<le> i \<Longrightarrow> put16 o' w d ! i = d ! i"
  by (auto simp: put16_def)

lemma get32_put32_other [simp]: "p + 4 \<le> o' \<or> o' + 4 \<le> p \<Longrightarrow> get32 p (put32 o' w d) = get32 p d"
  by (auto simp: get32_def put32_nth_other)

lemma get32_put16_other [simp]: "p + 4 \<le> o' \<or> o' + 2 \<le> p \<Longrightarrow> get32 p (put16 o' w d) = get32 p d"
  by (auto simp: get32_def put16_nth_other)

lemma get16_put16_other [simp]: "p + 2 \<le> o' \<or> o' + 2 \<le> p \<Longrightarrow> get16 p (put16 o' w d) = get16 p d"
  by (auto simp: get16_def put16_nth_other)

lemma get16_put32_other [simp]: "p + 2 \<le> o' \<or> o' + 4 \<le> p \<Longrightarrow> get16 p (put32 o' w d) = get16 p d"
  by (auto simp: get16_def put32_nth_other)

subsection \<open>Arrays of 32-bit numbers\<close>

fun put_words :: "nat \<Rightarrow> u32 list \<Rightarrow> block \<Rightarrow> block" where
  "put_words o' [] d = d"
| "put_words o' (w # ws) d = put_words (o' + 4) ws (put32 o' w d)"

definition get_words :: "nat \<Rightarrow> nat \<Rightarrow> block \<Rightarrow> u32 list" where
  "get_words o' n d = map (\<lambda>i. get32 (o' + 4 * i) d) [0..<n]"

lemma length_put_words [simp]: "length (put_words o' ws d) = length d"
  by (induction o' ws d rule: put_words.induct) auto

lemma length_get_words [simp]: "length (get_words o' n d) = n" by (simp add: get_words_def)

lemma get32_put_words_other: "p + 4 \<le> o' \<or> o' + 4 * length ws \<le> p \<Longrightarrow> get32 p (put_words o' ws d) = get32 p d"
  by (induction o' ws d rule: put_words.induct) auto

lemma get32_put_words:
  "i < length ws \<Longrightarrow> o' + 4 * length ws \<le> length d \<Longrightarrow> get32 (o' + 4 * i) (put_words o' ws d) = ws ! i"
proof (induction o' ws d arbitrary: i rule: put_words.induct)
  case (2 o' w ws d)
  show ?case
  proof (cases i)
    case 0
    then show ?thesis using 2 by (simp add: get32_put_words_other)
  next
    case (Suc j)
    then show ?thesis using 2(1) [of j] 2(2,3) by (simp add: ac_simps)
  qed
qed simp

lemma get_put_words [simp]:
  "o' + 4 * length ws \<le> length d \<Longrightarrow> get_words o' (length ws) (put_words o' ws d) = ws"
  by (intro nth_equalityI) (auto simp: get_words_def get32_put_words)

lemma get16_put_words_other: "p + 2 \<le> o' \<or> o' + 4 * length ws \<le> p \<Longrightarrow> get16 p (put_words o' ws d) = get16 p d"
  by (induction o' ws d rule: put_words.induct) auto

subsection \<open>Inodes, the superblock and directory entries\<close>

text \<open>Inode \<open>k\<close> of a block occupies the 64 bytes from \<open>64 * k\<close>.\<close>

definition get_dinode :: "nat \<Rightarrow> block \<Rightarrow> dinode" where
  "get_dinode k d =
     \<lparr>d_type = get16 (64 * k) d, d_major = get16 (64 * k + 2) d, d_minor = get16 (64 * k + 4) d,
      d_nlink = get16 (64 * k + 6) d, d_size = get32 (64 * k + 8) d, d_addrs = get_words (64 * k + 12) (NDIRECT + 1) d\<rparr>"

definition put_dinode :: "nat \<Rightarrow> dinode \<Rightarrow> block \<Rightarrow> block" where
  "put_dinode k di d =
     put_words (64 * k + 12) (d_addrs di)
       (put32 (64 * k + 8) (d_size di)
         (put16 (64 * k + 6) (d_nlink di)
           (put16 (64 * k + 4) (d_minor di) (put16 (64 * k + 2) (d_major di) (put16 (64 * k) (d_type di) d)))))"

definition get_sb :: "block \<Rightarrow> superblock" where
  "get_sb d =
     \<lparr>sb_size = get32 0 d, sb_nblocks = get32 4 d, sb_ninodes = get32 8 d, sb_nlog = get32 12 d,
      sb_logstart = get32 16 d, sb_inodestart = get32 20 d, sb_bmapstart = get32 24 d\<rparr>"

definition get_dirent :: "u8 list \<Rightarrow> dirent" where
  "get_dirent d = \<lparr>de_inum = get16 0 d, de_name = take DIRSIZ (drop 2 d)\<rparr>"

definition put_dirent :: "dirent \<Rightarrow> u8 list" where
  "put_dirent de = [ucast (de_inum de), ucast (drop_bit 8 (de_inum de))] @ de_name de"

lemma length_put_dinode [simp]: "length (put_dinode k di d) = length d" by (simp add: put_dinode_def)

lemma get_put_dirent: "length (de_name de) = DIRSIZ \<Longrightarrow> get_dirent (put_dirent de) = de"
  using bytes_of_u16 [of "de_inum de"] by (simp add: get_dirent_def put_dirent_def get16_def)

lemma get_put_dinode:
  "length (d_addrs di) = NDIRECT + 1 \<Longrightarrow> 64 * k + 64 \<le> length d \<Longrightarrow> get_dinode k (put_dinode k di d) = di"
  using get_put_words [of "64 * k + 12" "d_addrs di"]
  by (simp add: get_dinode_def put_dinode_def get16_put_words_other get32_put_words_other NDIRECT_def)

lemma get_put_dinode_other:
  assumes "j \<noteq> k" "length (d_addrs di) = NDIRECT + 1"
  shows "get_dinode j (put_dinode k di d) = get_dinode j d"
proof -
  have "64 * j + 64 \<le> 64 * k \<or> 64 * k + 64 \<le> 64 * j" using assms(1) by linarith
  then show ?thesis using assms(2)
    by (auto simp: get_dinode_def put_dinode_def get_words_def get16_put_words_other get32_put_words_other NDIRECT_def)
qed

end
