(* ===== verification/XvBio.thy ===== *)
theory XvBio
  imports XvSleeplock XvLayout Interfaces
begin

text \<open>
  The buffer cache of \<^verbatim>\<open>lab-2/bio.c\<close> and the disk driver of \<^verbatim>\<open>lab-2/ide.c\<close> below it, as one process sees them.
  A buffer is an index into the array; the two bits of \<open>flags\<close> are the fields \<open>bvalid\<close> and \<open>bdirty\<close>; the
  list head is the index \<open>NBUF\<close>, and the list is kept in the functions \<open>bnext\<close> and \<open>bprev\<close> as the code
  keeps it in the pointers.  A disk transfer moves one block at a time; \<open>writes\<close> records the blocks written,
  in order, so that the state after a crash is the disk after a prefix of them.
\<close>

definition NBUF :: nat where "NBUF = 30"
definition FSSIZE :: u32 where "FSSIZE = 1000"

record buf =
  bvalid :: bool
  bdirty :: bool
  bdev :: u32
  blockno :: u32
  block_lk :: sleeplock
  refcnt :: u32
  bdata :: block

datatype fschan = BufLock nat | BufIo nat | InodeLock nat | LogChan

record bio =
  bc_lock :: bool
  bufs :: "buf list"
  bnext :: "nat \<Rightarrow> nat"
  bprev :: "nat \<Rightarrow> nat"
  ide_lock :: bool
  idequeue :: "nat list"
  havedisk1 :: bool
  disk :: "u32 \<Rightarrow> u32 \<Rightarrow> block"
  writes :: "(u32 \<times> u32 \<times> block) list"
  woken :: "fschan list"
  mypid :: int

definition getb :: "'m bio_scheme \<Rightarrow> nat \<Rightarrow> buf" where
  "getb s b = bufs s ! b"

definition setb :: "nat \<Rightarrow> (buf \<Rightarrow> buf) \<Rightarrow> 'm bio_scheme \<Rightarrow> 'm bio_scheme" where
  "setb b f s = s\<lparr>bufs := (bufs s)[b := f (bufs s ! b)]\<rparr>"

definition wake :: "fschan \<Rightarrow> 'm bio_scheme \<Rightarrow> 'm bio_scheme" where
  "wake ch s = s\<lparr>woken := woken s @ [ch]\<rparr>"

definition bc_acquire :: "'m bio_scheme \<Rightarrow> 'm bio_scheme res" where
  "bc_acquire s = rbind (lk_acquire (bc_lock s)) (\<lambda>b. Inr (s\<lparr>bc_lock := b\<rparr>))"

definition bc_release :: "'m bio_scheme \<Rightarrow> 'm bio_scheme res" where
  "bc_release s = rbind (lk_release (bc_lock s)) (\<lambda>b. Inr (s\<lparr>bc_lock := b\<rparr>))"

definition buf_acquiresleep :: "nat \<Rightarrow> 'm bio_scheme \<Rightarrow> 'm bio_scheme res" where
  "buf_acquiresleep b s =
     rbind (acquiresleep (mypid s) (block_lk (getb s b))) (\<lambda>l. Inr (setb b (\<lambda>x. x\<lparr>block_lk := l\<rparr>) s))"

definition buf_releasesleep :: "nat \<Rightarrow> 'm bio_scheme \<Rightarrow> 'm bio_scheme res" where
  "buf_releasesleep b s =
     rbind (releasesleep (block_lk (getb s b))) (\<lambda>l. Inr (wake (BufLock b) (setb b (\<lambda>x. x\<lparr>block_lk := l\<rparr>) s)))"

subsection \<open>The disk driver\<close>

text \<open>The unit a buffer is on: bit 0 of its device number.\<close>

definition ide_unit :: "buf \<Rightarrow> u32" where "ide_unit x = bdev x AND 1"

definition idestart :: "nat \<Rightarrow> 'm bio_scheme \<Rightarrow> 'm bio_scheme res" where
  "idestart b s =
     (if FSSIZE \<le> blockno (getb s b) then Inl ''incorrect blockno''
      else if bdirty (getb s b)
      then (let u = ide_unit (getb s b); n = blockno (getb s b); d = bdata (getb s b)
            in Inr (s\<lparr>disk := (disk s)(u := (disk s u)(n := d)), writes := writes s @ [(u, n, d)]\<rparr>))
      else Inr s)"

definition ideintr :: "'m bio_scheme \<Rightarrow> 'm bio_scheme res" where
  "ideintr s =
     rbind (lk_acquire (ide_lock s)) (\<lambda>l.
     case idequeue s of
       [] \<Rightarrow> rbind (lk_release l) (\<lambda>l. Inr (s\<lparr>ide_lock := l\<rparr>))
     | b # q \<Rightarrow>
         (let s1 = s\<lparr>idequeue := q\<rparr>;
              s2 = (if \<not> bdirty (getb s1 b)
                    then setb b (\<lambda>x. x\<lparr>bdata := disk s1 (ide_unit x) (blockno x)\<rparr>) s1 else s1);
              s3 = wake (BufIo b) (setb b (\<lambda>x. x\<lparr>bvalid := True, bdirty := False\<rparr>) s2)
          in rbind (case q of [] \<Rightarrow> Inr s3 | b' # _ \<Rightarrow> idestart b' s3) (\<lambda>s4.
             rbind (lk_release l) (\<lambda>l. Inr (s4\<lparr>ide_lock := l\<rparr>)))))"

text \<open>The wait of \<open>iderw\<close>: the driver's interrupts finish the requests in the queue one by one.\<close>

fun ide_wait :: "nat \<Rightarrow> nat \<Rightarrow> 'm bio_scheme \<Rightarrow> 'm bio_scheme res" where
  "ide_wait 0 b s = (if bvalid (getb s b) \<and> \<not> bdirty (getb s b) then Inr s else Inl ''sleep'')"
| "ide_wait (Suc n) b s =
     (if bvalid (getb s b) \<and> \<not> bdirty (getb s b) then Inr s else rbind (ideintr s) (ide_wait n b))"

definition iderw :: "nat \<Rightarrow> 'm bio_scheme \<Rightarrow> 'm bio_scheme res" where
  "iderw b s =
     rbind (holdingsleep (mypid s) (block_lk (getb s b))) (\<lambda>h.
     if \<not> h then Inl ''iderw: buf not locked''
     else if bvalid (getb s b) \<and> \<not> bdirty (getb s b) then Inl ''iderw: nothing to do''
     else if bdev (getb s b) \<noteq> 0 \<and> \<not> havedisk1 s then Inl ''iderw: ide disk 1 not present''
     else rbind (lk_acquire (ide_lock s)) (\<lambda>l.
          let s1 = s\<lparr>idequeue := idequeue s @ [b]\<rparr>
          in rbind (if hd (idequeue s1) = b then idestart b s1 else Inr s1) (\<lambda>s2.
             ide_wait (length (idequeue s2)) b s2)))"

subsection \<open>The cache\<close>

definition link_front :: "nat \<Rightarrow> 'm bio_scheme \<Rightarrow> 'm bio_scheme" where
  "link_front b s =
     (let s1 = s\<lparr>bnext := (bnext s)(b := bnext s NBUF), bprev := (bprev s)(b := NBUF)\<rparr>;
          s2 = s1\<lparr>bprev := (bprev s1)(bnext s1 NBUF := b)\<rparr>
      in s2\<lparr>bnext := (bnext s2)(NBUF := b)\<rparr>)"

definition unlink :: "nat \<Rightarrow> 'm bio_scheme \<Rightarrow> 'm bio_scheme" where
  "unlink b s =
     (let s1 = s\<lparr>bprev := (bprev s)(bnext s b := bprev s b)\<rparr>
      in s1\<lparr>bnext := (bnext s1)(bprev s1 b := bnext s1 b)\<rparr>)"

definition binit :: "'m bio_scheme \<Rightarrow> 'm bio_scheme" where
  "binit s =
     fold (\<lambda>b s. link_front b (setb b (\<lambda>x. x\<lparr>block_lk := initsleeplock\<rparr>) s)) [0..<NBUF]
       (s\<lparr>bc_lock := False, bprev := (bprev s)(NBUF := NBUF), bnext := (bnext s)(NBUF := NBUF)\<rparr>)"

text \<open>A walk along the list from \<open>b\<close> to the head, looking for a buffer that satisfies \<open>P\<close>; the list has
  \<open>NBUF\<close> buffers, which bounds the walk.\<close>

fun scan :: "(nat \<Rightarrow> nat) \<Rightarrow> (nat \<Rightarrow> bool) \<Rightarrow> nat \<Rightarrow> nat \<Rightarrow> nat option res" where
  "scan nx P 0 b = (if b = NBUF then Inr None else Inl ''loop'')"
| "scan nx P (Suc n) b = (if b = NBUF then Inr None else if P b then Inr (Some b) else scan nx P n (nx b))"

definition bget :: "u32 \<Rightarrow> u32 \<Rightarrow> 'm bio_scheme \<Rightarrow> (nat \<times> 'm bio_scheme) res" where
  "bget dev bno s =
     rbind (bc_acquire s) (\<lambda>s1.
     rbind (scan (bnext s1) (\<lambda>b. bdev (getb s1 b) = dev \<and> blockno (getb s1 b) = bno) NBUF (bnext s1 NBUF)) (\<lambda>r.
     case r of
       Some b \<Rightarrow>
         rbind (bc_release (setb b (\<lambda>x. x\<lparr>refcnt := refcnt x + 1\<rparr>) s1)) (\<lambda>s2.
         rbind (buf_acquiresleep b s2) (\<lambda>s3. Inr (b, s3)))
     | None \<Rightarrow>
         rbind (scan (bprev s1) (\<lambda>b. refcnt (getb s1 b) = 0 \<and> \<not> bdirty (getb s1 b)) NBUF (bprev s1 NBUF)) (\<lambda>r.
         case r of
           Some b \<Rightarrow>
             rbind (bc_release (setb b (\<lambda>x. x\<lparr>bdev := dev, blockno := bno, bvalid := False, bdirty := False, refcnt := 1\<rparr>) s1)) (\<lambda>s2.
             rbind (buf_acquiresleep b s2) (\<lambda>s3. Inr (b, s3)))
         | None \<Rightarrow> Inl ''bget: no buffers'')))"

definition bread :: "u32 \<Rightarrow> u32 \<Rightarrow> 'm bio_scheme \<Rightarrow> (nat \<times> 'm bio_scheme) res" where
  "bread dev bno s =
     rbind (bget dev bno s) (\<lambda>(b, s1).
     if \<not> bvalid (getb s1 b) then rbind (iderw b s1) (\<lambda>s2. Inr (b, s2)) else Inr (b, s1))"

definition bwrite :: "nat \<Rightarrow> 'm bio_scheme \<Rightarrow> 'm bio_scheme res" where
  "bwrite b s =
     rbind (holdingsleep (mypid s) (block_lk (getb s b))) (\<lambda>h.
     if \<not> h then Inl ''bwrite'' else iderw b (setb b (\<lambda>x. x\<lparr>bdirty := True\<rparr>) s))"

definition brelse :: "nat \<Rightarrow> 'm bio_scheme \<Rightarrow> 'm bio_scheme res" where
  "brelse b s =
     rbind (holdingsleep (mypid s) (block_lk (getb s b))) (\<lambda>h.
     if \<not> h then Inl ''brelse''
     else rbind (buf_releasesleep b s) (\<lambda>s1.
          rbind (bc_acquire s1) (\<lambda>s2.
          let s3 = setb b (\<lambda>x. x\<lparr>refcnt := refcnt x - 1\<rparr>) s2
          in bc_release (if refcnt (getb s3 b) = 0 then link_front b (unlink b s3) else s3))))"

subsection \<open>The list of buffers\<close>

text \<open>\<open>linked nx pv xs\<close>: neighbours in \<open>xs\<close> point at each other.\<close>

fun linked :: "(nat \<Rightarrow> nat) \<Rightarrow> (nat \<Rightarrow> nat) \<Rightarrow> nat list \<Rightarrow> bool" where
  "linked nx pv (a # b # xs) \<longleftrightarrow> nx a = b \<and> pv b = a \<and> linked nx pv (b # xs)"
| "linked nx pv _ \<longleftrightarrow> True"

lemma linked_append:
  "linked nx pv (xs @ ys) \<longleftrightarrow>
     linked nx pv xs \<and> linked nx pv ys \<and> (xs \<noteq> [] \<longrightarrow> ys \<noteq> [] \<longrightarrow> nx (last xs) = hd ys \<and> pv (hd ys) = last xs)"
proof (induction xs rule: induct_list012)
  case (2 x)
  then show ?case by (cases ys) auto
qed auto

lemma linked_cong:
  "\<forall>a\<in>set (butlast xs). nx' a = nx a \<Longrightarrow> \<forall>b\<in>set (tl xs). pv' b = pv b \<Longrightarrow>
     linked nx' pv' xs = linked nx pv xs"
  by (induction nx pv xs rule: linked.induct) auto

definition dll :: "(nat \<Rightarrow> nat) \<Rightarrow> (nat \<Rightarrow> nat) \<Rightarrow> nat list \<Rightarrow> bool" where
  "dll nx pv xs \<longleftrightarrow> distinct (NBUF # xs) \<and> linked nx pv (NBUF # xs @ [NBUF])"

lemma scan_forward:
  "linked nx pv (a # ys @ [NBUF]) \<Longrightarrow> NBUF \<notin> set ys \<Longrightarrow> scan nx P (length ys) (nx a) = Inr (find P ys)"
  by (induction ys arbitrary: a) auto

lemma scan_backward:
  "linked nx pv (NBUF # ys @ [a]) \<Longrightarrow> NBUF \<notin> set ys \<Longrightarrow> scan pv P (length ys) (pv a) = Inr (find P (rev ys))"
proof (induction ys arbitrary: a rule: rev_induct)
  case (snoc y ys)
  have "linked nx pv ((NBUF # ys @ [y]) @ [a])" using snoc.prems(1) by simp
  then have "linked nx pv (NBUF # ys @ [y])" "pv a = y" unfolding linked_append by auto
  then show ?case using snoc by auto
qed simp

lemma unlink_dll:
  assumes "dll nx pv (us @ b # vs)" and "pv' = pv(nx b := pv b)" and "nx' = nx(pv b := nx b)"
  shows "dll nx' pv' (us @ vs)"
proof -
  let ?p = "last (NBUF # us)" and ?n = "hd (vs @ [NBUF])"
  have d: "distinct (NBUF # us @ b # vs)" using assms(1) by (simp add: dll_def)
  have l: "linked nx pv ((NBUF # us) @ [b] @ (vs @ [NBUF]))" using assms(1) by (simp add: dll_def)
  then have e: "pv b = ?p" "nx b = ?n" and parts: "linked nx pv (NBUF # us)" "linked nx pv (vs @ [NBUF])"
    unfolding linked_append by auto
  have pn: "?p \<notin> set (butlast (NBUF # us))"
    using d by (metis Cons_eq_appendI append_butlast_last_id distinct_append distinct_singleton list.distinct(1) not_distinct_conv_prefix distinct.simps(2) append_Cons)
  have p2: "?p \<notin> set vs" "?p \<noteq> b" using d by (cases us rule: rev_cases; auto)+
  have n: "?n \<notin> set us" "?n \<noteq> b" using d by (cases vs; auto)+
  have n2: "?n \<notin> set (tl (vs @ [NBUF]))" using d by (cases vs) auto
  have "linked nx' pv' (NBUF # us)"
    using parts(1) pn n(1) unfolding assms(2,3) e by (subst linked_cong) auto
  moreover have "linked nx' pv' (vs @ [NBUF])"
    using parts(2) p2(1) n2 unfolding assms(2,3) e by (subst linked_cong) auto
  moreover have "nx' ?p = ?n" "pv' ?n = ?p" by (simp_all add: assms(2,3) e)
  ultimately have "linked nx' pv' ((NBUF # us) @ (vs @ [NBUF]))" unfolding linked_append by simp
  then show ?thesis using d by (simp add: dll_def)
qed

lemma link_front_dll:
  assumes "dll nx pv xs" "b \<notin> set xs" "b \<noteq> NBUF"
    and "pv' = pv(b := NBUF, nx NBUF := b)" and "nx' = nx(b := nx NBUF, NBUF := b)"
  shows "dll nx' pv' (b # xs)"
proof -
  let ?n = "hd (xs @ [NBUF])"
  have d: "distinct (NBUF # xs)" and l: "linked nx pv ([NBUF] @ (xs @ [NBUF]))" using assms(1) by (simp_all add: dll_def)
  then have e: "nx NBUF = ?n" "linked nx pv (xs @ [NBUF])" unfolding linked_append by auto
  have n: "?n \<notin> set (tl (xs @ [NBUF]))" "?n \<noteq> b" using d assms(2,3) by (cases xs; auto)+
  have "linked nx' pv' (xs @ [NBUF])"
    using e(2) n d assms(2,3) unfolding assms(4,5) e(1) by (subst linked_cong) (auto, (cases xs; auto)+)
  moreover have "nx' NBUF = b" "pv' b = NBUF" "nx' b = ?n" "pv' ?n = b"
    using n assms(3) by (auto simp: assms(4,5) e(1))
  ultimately have "linked nx' pv' ([NBUF, b] @ (xs @ [NBUF]))" unfolding linked_append by simp
  then show ?thesis using d assms(2,3) by (simp add: dll_def)
qed

lemma binit_dll:
  fixes s :: "'m bio_scheme"
  shows "dll (bnext (binit s)) (bprev (binit s)) (rev [0..<NBUF])"
proof -
  let ?f = "\<lambda>b s. link_front b (setb b (\<lambda>x. x\<lparr>block_lk := initsleeplock\<rparr>) s)"
  have "dll (bnext (fold ?f [0..<n] u)) (bprev (fold ?f [0..<n] u)) (rev [0..<n])"
    if "dll (bnext u) (bprev u) []" "n \<le> NBUF" for n and u :: "'m bio_scheme"
    using that(2)
  proof (induction n)
    case (Suc n)
    let ?u = "fold ?f [0..<n] u"
    have "dll (bnext ?u) (bprev ?u) (rev [0..<n])" using Suc by simp
    then have "dll (bnext (?f n ?u)) (bprev (?f n ?u)) (n # rev [0..<n])"
      by (rule link_front_dll) (use Suc.prems in \<open>auto simp: link_front_def setb_def Let_def\<close>)
    then show ?case by simp
  qed (use that(1) in simp)
  then show ?thesis by (simp add: binit_def dll_def)
qed

subsection \<open>The invariant of the cache\<close>

definition ROOTDEV :: u32 where "ROOTDEV = 1"

text \<open>The device the kernel uses is \<open>ROOTDEV\<close>; a buffer with another device number has never been used.\<close>

definition in_use :: "buf \<Rightarrow> bool" where
  "in_use x \<longleftrightarrow> bdev x = ROOTDEV"

definition buf_ok :: "'m bio_scheme \<Rightarrow> buf \<Rightarrow> bool" where
  "buf_ok s x \<longleftrightarrow>
     (if refcnt x = 0 then block_lk x = initsleeplock else refcnt x = 1 \<and> block_lk x = held_by (mypid s)) \<and>
     (refcnt x \<noteq> 0 \<or> bdirty x \<longrightarrow> bvalid x) \<and> (bvalid x \<longrightarrow> in_use x \<and> length (bdata x) = BSIZE) \<and>
     (bvalid x \<longrightarrow> \<not> bdirty x \<longrightarrow> refcnt x = 0 \<longrightarrow> bdata x = disk s 1 (blockno x))"

definition bc_ok :: "'m bio_scheme \<Rightarrow> bool" where
  "bc_ok s \<longleftrightarrow> \<not> bc_lock s \<and> \<not> ide_lock s \<and> idequeue s = [] \<and> havedisk1 s \<and> length (bufs s) = NBUF \<and>
     (\<exists>xs. dll (bnext s) (bprev s) xs \<and> set xs = {..<NBUF}) \<and>
     (\<forall>b<NBUF. buf_ok s (getb s b)) \<and>
     (\<forall>b<NBUF. \<forall>c<NBUF. in_use (getb s b) \<longrightarrow> in_use (getb s c) \<longrightarrow> blockno (getb s b) = blockno (getb s c) \<longrightarrow> b = c) \<and>
     (\<forall>n. length (disk s 1 n) = BSIZE)"

text \<open>The contents of block \<open>n\<close> as the kernel sees it: cached, or on disk.\<close>

definition cached :: "'m bio_scheme \<Rightarrow> u32 \<Rightarrow> nat \<Rightarrow> bool" where
  "cached s n b \<longleftrightarrow> b < NBUF \<and> in_use (getb s b) \<and> blockno (getb s b) = n"

definition cur :: "'m bio_scheme \<Rightarrow> u32 \<Rightarrow> block" where
  "cur s n =
     (case find (\<lambda>b. in_use (getb s b) \<and> blockno (getb s b) = n \<and> bvalid (getb s b)) [0..<NBUF] of
        Some b \<Rightarrow> bdata (getb s b) | None \<Rightarrow> disk s 1 n)"

definition dirty :: "'m bio_scheme \<Rightarrow> u32 set" where
  "dirty s = {n. \<exists>b. cached s n b \<and> bdirty (getb s b)}"

definition heldb :: "'m bio_scheme \<Rightarrow> u32 set" where
  "heldb s = {n. \<exists>b. cached s n b \<and> refcnt (getb s b) \<noteq> 0}"

text \<open>Buffer \<open>b\<close> was obtained for block \<open>n\<close> and not yet released.\<close>

definition handle :: "'m bio_scheme \<Rightarrow> u32 \<Rightarrow> nat \<Rightarrow> bool" where
  "handle s n b \<longleftrightarrow> cached s n b \<and> refcnt (getb s b) \<noteq> 0"

definition same_rest :: "'m bio_scheme \<Rightarrow> 'm bio_scheme \<Rightarrow> bool" where
  "same_rest s t \<longleftrightarrow> bc_lock t = bc_lock s \<and> ide_lock t = ide_lock s \<and> idequeue t = idequeue s \<and>
     havedisk1 t = havedisk1 s \<and> mypid t = mypid s \<and> bio.more t = bio.more s"

lemma bc_okD:
  assumes "bc_ok s"
  shows "\<not> bc_lock s" "\<not> ide_lock s" "idequeue s = []" "havedisk1 s" "length (bufs s) = NBUF"
    "\<And>b. b < NBUF \<Longrightarrow> buf_ok s (getb s b)" "\<And>n. length (disk s 1 n) = BSIZE"
    "\<And>b c n. cached s n b \<Longrightarrow> cached s n c \<Longrightarrow> b = c"
    "\<exists>xs. dll (bnext s) (bprev s) xs \<and> set xs = {..<NBUF} \<and> length xs = NBUF"
proof -
  obtain xs where "dll (bnext s) (bprev s) xs" "set xs = {..<NBUF}" using assms by (auto simp: bc_ok_def)
  then show "\<exists>xs. dll (bnext s) (bprev s) xs \<and> set xs = {..<NBUF} \<and> length xs = NBUF"
    by (metis card_lessThan distinct_card dll_def distinct.simps(2))
qed (use assms in \<open>auto simp: bc_ok_def cached_def\<close>)

lemma bc_okI:
  assumes "\<not> bc_lock s" "\<not> ide_lock s" "idequeue s = []" "havedisk1 s" "length (bufs s) = NBUF"
    "\<And>b. b < NBUF \<Longrightarrow> buf_ok s (getb s b)" "\<And>n. length (disk s 1 n) = BSIZE"
    "\<And>b c n. cached s n b \<Longrightarrow> cached s n c \<Longrightarrow> b = c"
    "\<exists>xs. dll (bnext s) (bprev s) xs \<and> set xs = {..<NBUF}"
  shows "bc_ok s"
  using assms unfolding bc_ok_def cached_def by metis

lemma cur_cached:
  assumes "\<And>b c n. cached s n b \<Longrightarrow> cached s n c \<Longrightarrow> b = c" "cached s n b" "bvalid (getb s b)"
  shows "cur s n = bdata (getb s b)"
proof -
  let ?P = "\<lambda>b. in_use (getb s b) \<and> blockno (getb s b) = n \<and> bvalid (getb s b)"
  have "find ?P [0..<NBUF] = Some b"
  proof (cases "find ?P [0..<NBUF]")
    case None
    then show ?thesis using assms(2,3) by (auto simp: find_None_iff cached_def)
  next
    case (Some c)
    then have "cached s n c" by (auto simp: find_Some_iff cached_def)
    then show ?thesis using assms(1) [OF assms(2)] Some by simp
  qed
  then show ?thesis by (simp add: cur_def)
qed

lemma cur_uncached: "(\<And>b. cached s n b \<Longrightarrow> \<not> bvalid (getb s b)) \<Longrightarrow> cur s n = disk s 1 n"
proof -
  assume a: "\<And>b. cached s n b \<Longrightarrow> \<not> bvalid (getb s b)"
  have "find (\<lambda>b. in_use (getb s b) \<and> blockno (getb s b) = n \<and> bvalid (getb s b)) [0..<NBUF] = None"
    using a by (auto simp: find_None_iff cached_def)
  then show ?thesis by (simp add: cur_def)
qed

lemma getb_setb: "length (bufs s) = NBUF \<Longrightarrow> c < NBUF \<Longrightarrow> getb (setb b f s) c = (if c = b then f (getb s b) else getb s c)"
  by (auto simp: getb_def setb_def nth_list_update)

subsection \<open>The effect of each operation\<close>

lemma iderw_read:
  assumes "\<not> ide_lock s" "idequeue s = []" "havedisk1 s" "length (bufs s) = NBUF" "b < NBUF"
    and "block_lk (getb s b) = held_by (mypid s)" "bdev (getb s b) = ROOTDEV" "blockno (getb s b) < FSSIZE"
    and "\<not> bvalid (getb s b)" "\<not> bdirty (getb s b)"
  shows "\<exists>t. iderw b s = Inr t \<and> same_rest s t \<and> bnext t = bnext s \<and> bprev t = bprev s \<and>
    bufs t = (bufs s)[b := (getb s b)\<lparr>bdata := disk s 1 (blockno (getb s b)), bvalid := True, bdirty := False\<rparr>] \<and>
    disk t = disk s \<and> writes t = writes s"
  using assms
  by (auto simp: iderw_def idestart_def ideintr_def Let_def getb_def setb_def wake_def ide_unit_def ROOTDEV_def same_rest_def
      not_le [symmetric])

lemma iderw_write:
  assumes "\<not> ide_lock s" "idequeue s = []" "havedisk1 s" "length (bufs s) = NBUF" "b < NBUF"
    and "block_lk (getb s b) = held_by (mypid s)" "bdev (getb s b) = ROOTDEV" "blockno (getb s b) < FSSIZE"
    and "bdirty (getb s b)"
  shows "\<exists>t. iderw b s = Inr t \<and> same_rest s t \<and> bnext t = bnext s \<and> bprev t = bprev s \<and>
    bufs t = (bufs s)[b := (getb s b)\<lparr>bvalid := True, bdirty := False\<rparr>] \<and>
    disk t = (disk s)(1 := (disk s 1)(blockno (getb s b) := bdata (getb s b))) \<and>
    writes t = writes s @ [(1, blockno (getb s b), bdata (getb s b))]"
  using assms
  by (auto simp: iderw_def idestart_def ideintr_def Let_def getb_def setb_def wake_def ide_unit_def ROOTDEV_def same_rest_def
      not_le [symmetric])

lemma scan_next:
  assumes "bc_ok s"
  shows "\<exists>xs. set xs = {..<NBUF} \<and> (\<forall>P. scan (bnext s) P NBUF (bnext s NBUF) = Inr (find P xs)) \<and>
    (\<forall>P. scan (bprev s) P NBUF (bprev s NBUF) = Inr (find P (rev xs)))"
proof -
  obtain xs where "dll (bnext s) (bprev s) xs" "set xs = {..<NBUF}" "length xs = NBUF"
    using bc_okD(9) [OF assms] by blast
  then show ?thesis
    using scan_forward [of "bnext s" "bprev s" NBUF xs] scan_backward [of "bnext s" "bprev s" xs NBUF]
    by (intro exI [of _ xs]) (auto simp: dll_def)
qed

lemma bget_hit:
  assumes "bc_ok s" "cached s n b" "refcnt (getb s b) = 0"
  shows "\<exists>t. bget ROOTDEV n s = Inr (b, t) \<and> same_rest s t \<and> bnext t = bnext s \<and> bprev t = bprev s \<and>
    bufs t = (bufs s)[b := (getb s b)\<lparr>refcnt := 1, block_lk := held_by (mypid s)\<rparr>] \<and> disk t = disk s \<and> writes t = writes s"
proof -
  obtain xs where xs: "set xs = {..<NBUF}" and sc: "\<And>P. scan (bnext s) P NBUF (bnext s NBUF) = Inr (find P xs)"
    using scan_next [OF assms(1)] by blast
  let ?P = "\<lambda>b. bdev (getb s b) = ROOTDEV \<and> blockno (getb s b) = n"
  have "find ?P xs = Some b"
  proof (cases "find ?P xs")
    case None
    then show ?thesis using assms(2) xs by (auto simp: find_None_iff cached_def in_use_def)
  next
    case (Some c)
    then have "c \<in> set xs" "?P c" by (auto simp: find_Some_iff)
    then have "cached s n c" using xs by (auto simp: cached_def in_use_def)
    then show ?thesis using Some bc_okD(8) [OF assms(1) assms(2)] by simp
  qed
  moreover have "block_lk (getb s b) = initsleeplock" "b < length (bufs s)"
    using bc_okD(5) [OF assms(1)] bc_okD(6) [OF assms(1), of b] assms(2,3) by (auto simp: buf_ok_def cached_def)
  ultimately show ?thesis using assms(1,3) sc [of ?P]
    by (auto simp: bget_def bc_acquire_def bc_release_def buf_acquiresleep_def setb_def getb_def same_rest_def bc_ok_def)
qed

lemma bget_miss:
  assumes "bc_ok s" "\<And>b. \<not> cached s n b" "c < NBUF" "refcnt (getb s c) = 0" "\<not> bdirty (getb s c)"
  shows "\<exists>b t. bget ROOTDEV n s = Inr (b, t) \<and> b < NBUF \<and> refcnt (getb s b) = 0 \<and> \<not> bdirty (getb s b) \<and>
    same_rest s t \<and> bnext t = bnext s \<and> bprev t = bprev s \<and>
    bufs t = (bufs s)[b := (getb s b)\<lparr>bdev := ROOTDEV, blockno := n, bvalid := False, bdirty := False, refcnt := 1,
        block_lk := held_by (mypid s)\<rparr>] \<and> disk t = disk s \<and> writes t = writes s"
proof -
  obtain xs where xs: "set xs = {..<NBUF}" and sc: "\<And>P. scan (bnext s) P NBUF (bnext s NBUF) = Inr (find P xs)"
      "\<And>P. scan (bprev s) P NBUF (bprev s NBUF) = Inr (find P (rev xs))"
    using scan_next [OF assms(1)] by blast
  let ?P = "\<lambda>b. bdev (getb s b) = ROOTDEV \<and> blockno (getb s b) = n" and ?Q = "\<lambda>b. refcnt (getb s b) = 0 \<and> \<not> bdirty (getb s b)"
  have none: "find ?P xs = None" using assms(2) xs by (auto simp: find_None_iff cached_def in_use_def)
  have "find ?Q (rev xs) \<noteq> None" using assms(3-5) xs by (auto simp: find_None_iff)
  then obtain b where b: "find ?Q (rev xs) = Some b" by blast
  then have "b \<in> set (rev xs)" "?Q b" by (auto simp: find_Some_iff rev_nth)
  then have bq: "b < NBUF" "?Q b" using xs by auto
  then have "block_lk (getb s b) = initsleeplock" "b < length (bufs s)"
    using bc_okD(5) [OF assms(1)] bc_okD(6) [OF assms(1), of b] by (auto simp: buf_ok_def)
  then show ?thesis using assms(1) sc none b bq
    by (auto simp: bget_def bc_acquire_def bc_release_def buf_acquiresleep_def setb_def getb_def same_rest_def bc_ok_def)
qed

subsection \<open>The laws of the cache\<close>

text \<open>Replacing one buffer.\<close>

lemma cached_upd:
  assumes "length (bufs s) = NBUF" "bufs t = (bufs s)[b := x]" "b < NBUF"
  shows "cached t m c \<longleftrightarrow> (if c = b then in_use x \<and> blockno x = m else cached s m c)"
    and "c < NBUF \<Longrightarrow> getb t c = (if c = b then x else getb s c)"
  using assms by (auto simp: cached_def getb_def nth_list_update)

lemma ex_cached_upd:
  assumes "length (bufs s) = NBUF" "bufs t = (bufs s)[b := x]" "b < NBUF"
  shows "(\<exists>c. cached t m c \<and> Q (getb t c)) \<longleftrightarrow>
    in_use x \<and> blockno x = m \<and> Q x \<or> (\<exists>c. c \<noteq> b \<and> cached s m c \<and> Q (getb s c))"
proof -
  note u = cached_upd [OF assms]
  have "cached t m c \<and> Q (getb t c) \<longleftrightarrow> cached s m c \<and> Q (getb s c)" if "c \<noteq> b" for c
    using that u(1) [of m c] u(2) [of c] by (cases "c < NBUF") (auto simp: cached_def)
  moreover have "cached t m b \<and> Q (getb t b) \<longleftrightarrow> in_use x \<and> blockno x = m \<and> Q x"
    using u(1) [of m b] u(2) [OF assms(3)] by auto
  ultimately show ?thesis by metis
qed

lemma upd_ok:
  assumes "bc_ok s" "b < NBUF" "same_rest s t" "bufs t = (bufs s)[b := x]"
    and "\<exists>xs. dll (bnext t) (bprev t) xs \<and> set xs = {..<NBUF}"
    and "buf_ok t x" "\<And>m. length (disk t 1 m) = BSIZE"
    and "\<And>c. c < NBUF \<Longrightarrow> c \<noteq> b \<Longrightarrow> in_use (getb s c) \<Longrightarrow> disk t 1 (blockno (getb s c)) = disk s 1 (blockno (getb s c))"
    and "\<And>c. in_use x \<Longrightarrow> c \<noteq> b \<Longrightarrow> \<not> cached s (blockno x) c"
  shows "bc_ok t"
proof (rule bc_okI)
  note s = bc_okD [OF assms(1)]
  note u = cached_upd [OF s(5) assms(4,2)]
  show "buf_ok t (getb t c)" if "c < NBUF" for c
    using s(6) [OF that] assms(6) assms(8) [OF that] u(2) [OF that] assms(3) by (auto simp: buf_ok_def same_rest_def)
  show "c = d" if "cached t m c" "cached t m d" for c d m
    using that s(8) assms(9) unfolding u(1) by (auto split: if_splits)
qed (use assms bc_okD [OF assms(1)] in \<open>auto simp: same_rest_def\<close>)

definition opened :: "'m bio_scheme \<Rightarrow> u32 \<Rightarrow> nat \<Rightarrow> 'm bio_scheme \<Rightarrow> bool" where
  "opened s n b t \<longleftrightarrow> bc_ok t \<and> handle t n b \<and> (\<forall>m c. handle s m c \<longrightarrow> handle t m c) \<and> cur t = cur s \<and>
     disk t = disk s \<and> writes t = writes s \<and> dirty t = dirty s \<and> heldb t = insert n (heldb s) \<and>
     mypid t = mypid s \<and> bio.more t = bio.more s"

lemma openedI:
  assumes ok: "bc_ok s" and b: "b < NBUF" and r: "same_rest s t" "bnext t = bnext s" "bprev t = bprev s"
    and t: "bufs t = (bufs s)[b := x]" and d: "disk t = disk s" "writes t = writes s"
    and x: "in_use x" "blockno x = n" "bvalid x" "refcnt x = 1" "block_lk x = held_by (mypid s)" "length (bdata x) = BSIZE"
    and cur: "bdata x = cur s n" and dx: "bdirty x \<longleftrightarrow> n \<in> dirty s"
    and old: "refcnt (getb s b) = 0" "cached s n b \<or> \<not> bdirty (getb s b) \<and> (\<forall>c. \<not> cached s n c)"
  shows "opened s n b t"
proof -
  note s = bc_okD [OF ok]
  note u = cached_upd [OF s(5) t b]
  have uniq: "\<not> cached s n c" if "c \<noteq> b" for c using s(8) [of n b c] that old by blast
  have okt: "bc_ok t"
    using ok b r t by (rule_tac upd_ok [where b = b and x = x]) (use s x r d uniq in \<open>auto simp: buf_ok_def same_rest_def\<close>)
  note st = bc_okD [OF okt]
  have ct: "cached t n b" "bvalid (getb t b)" using x by (simp_all add: u(1) u(2) [OF b])
  have "cur t m = cur s m" for m
  proof (cases "m = n")
    case True
    then show ?thesis using cur_cached [OF st(8) ct] cur u(2) [OF b] by simp
  next
    case mn: False
    have cd: "cached t m c \<longleftrightarrow> c \<noteq> b \<and> cached s m c" for c using mn x(2) by (auto simp: u(1))
    show ?thesis
    proof (cases "\<exists>c. cached s m c \<and> bvalid (getb s c)")
      case True
      then obtain c where c: "cached s m c" "bvalid (getb s c)" by blast
      show ?thesis
      proof (cases "c = b")
        case True
        then have "\<not> bdirty (getb s b)" using old(2) s(8) c(1) mn by (auto simp: cached_def)
        then have "bdata (getb s b) = disk s 1 m" using s(6) [OF b] c old(1) True by (auto simp: buf_ok_def cached_def)
        moreover have "cur t m = disk t 1 m" using cd s(8) [OF c(1)] True by (intro cur_uncached) auto
        ultimately show ?thesis using cur_cached [OF s(8) c] True d(1) by simp
      next
        case False
        then have tc: "cached t m c" and g: "getb t c = getb s c" using c cd u(2) [of c] by (auto simp: cached_def)
        have "bvalid (getb t c)" using g c(2) by simp
        from cur_cached [OF st(8) tc this] show ?thesis using cur_cached [OF s(8) c] g by simp
      qed
    next
      case False
      then have "cur s m = disk s 1 m" by (intro cur_uncached) blast
      moreover have "cur t m = disk t 1 m"
      proof (rule cur_uncached)
        fix c assume "cached t m c"
        then have "c \<noteq> b" "cached s m c" "c < NBUF" using cd by (auto simp: cached_def)
        then show "\<not> bvalid (getb t c)" using False u(2) [of c] by auto
      qed
      ultimately show ?thesis using d(1) by simp
    qed
  qed
  moreover have "m \<in> dirty t \<longleftrightarrow> m \<in> dirty s" for m
  proof -
    have "m \<in> dirty t \<longleftrightarrow> (\<exists>c. cached t m c \<and> bdirty (getb t c))" by (simp add: dirty_def)
    also have "\<dots> \<longleftrightarrow> m = n \<and> bdirty x \<or> (\<exists>c. c \<noteq> b \<and> cached s m c \<and> bdirty (getb s c))"
      using ex_cached_upd [OF s(5) t b, of m bdirty] x(1,2) by auto
    also have "\<dots> \<longleftrightarrow> m \<in> dirty s"
    proof (cases "m = n")
      case True
      then show ?thesis using dx uniq by blast
    next
      case False
      then have "\<not> (cached s m b \<and> bdirty (getb s b))" using old(2) by (auto simp: cached_def)
      then show ?thesis using False unfolding dirty_def mem_Collect_eq by metis
    qed
    finally show ?thesis .
  qed
  moreover have "m \<in> heldb t \<longleftrightarrow> m \<in> insert n (heldb s)" for m
  proof -
    have "m \<in> heldb t \<longleftrightarrow> (\<exists>c. cached t m c \<and> refcnt (getb t c) \<noteq> 0)" by (simp add: heldb_def)
    also have "\<dots> \<longleftrightarrow> m = n \<or> (\<exists>c. c \<noteq> b \<and> cached s m c \<and> refcnt (getb s c) \<noteq> 0)"
      using ex_cached_upd [OF s(5) t b, of m "\<lambda>x. refcnt x \<noteq> 0"] x(1,2,4) by auto
    also have "\<dots> \<longleftrightarrow> m \<in> insert n (heldb s)" using old(1) by (auto simp: heldb_def)
    finally show ?thesis .
  qed
  moreover have "handle t n b" using ct x(4) u(2) [OF b] by (simp add: handle_def)
  moreover have "handle t m c" if "handle s m c" for m c
    using that old(1) u(2) [of c] by (auto simp: handle_def u(1) cached_def)
  ultimately show ?thesis using okt d r by (auto simp: opened_def same_rest_def)
qed

lemma exists_unpinned:
  assumes "bc_ok s" "card (dirty s \<union> heldb s) < NBUF"
  shows "\<exists>c<NBUF. refcnt (getb s c) = 0 \<and> \<not> bdirty (getb s c)"
proof (rule ccontr)
  assume "\<not> ?thesis"
  then have pin: "refcnt (getb s c) \<noteq> 0 \<or> bdirty (getb s c)" if "c < NBUF" for c using that by blast
  then have iu: "in_use (getb s c)" if "c < NBUF" for c
    using bc_okD(6) [OF assms(1) that] that by (auto simp: buf_ok_def)
  then have "inj_on (\<lambda>c. blockno (getb s c)) {..<NBUF}"
    using bc_okD(8) [OF assms(1)] by (intro inj_onI) (auto simp: cached_def)
  moreover have "(\<lambda>c. blockno (getb s c)) ` {..<NBUF} = dirty s \<union> heldb s"
    using pin iu by (auto simp: dirty_def heldb_def cached_def)
  ultimately show False using assms(2) card_image [of "\<lambda>c. blockno (getb s c)" "{..<NBUF}"] by simp
qed

lemma bread_opens:
  assumes "bc_ok s" and "n \<notin> heldb s" and "n < FSSIZE" and "n \<in> dirty s \<or> card (dirty s \<union> heldb s) < NBUF"
  shows "\<exists>b t. bread ROOTDEV n s = Inr (b, t) \<and> opened s n b t"
proof -
  note s = bc_okD [OF assms(1)]
  show ?thesis
  proof (cases "\<exists>b. cached s n b")
    case True
    then obtain b where b: "cached s n b" by blast
    then have r0: "refcnt (getb s b) = 0" and bl: "b < NBUF" and iu: "bdev (getb s b) = ROOTDEV" "blockno (getb s b) = n"
      using assms(2) by (auto simp: heldb_def cached_def in_use_def)
    obtain t where t: "bget ROOTDEV n s = Inr (b, t)" "same_rest s t" "bnext t = bnext s" "bprev t = bprev s"
        "bufs t = (bufs s)[b := (getb s b)\<lparr>refcnt := 1, block_lk := held_by (mypid s)\<rparr>]" "disk t = disk s" "writes t = writes s"
      using bget_hit [OF assms(1) b r0] by blast
    have gt: "getb t b = (getb s b)\<lparr>refcnt := 1, block_lk := held_by (mypid s)\<rparr>"
      using t(5) bl s(5) by (simp add: getb_def)
    have dx: "bdirty (getb s b) \<longleftrightarrow> n \<in> dirty s" unfolding dirty_def using s(8) [OF b] b by blast
    show ?thesis
    proof (cases "bvalid (getb s b)")
      case True
      then have "bread ROOTDEV n s = Inr (b, t)" using t(1) gt by (simp add: bread_def)
      moreover have "opened s n b t"
        by (rule openedI [OF assms(1) bl t(2-7)])
          (use True iu s(6) [OF bl] b dx r0 cur_cached [OF s(8) b] in \<open>auto simp: in_use_def buf_ok_def\<close>)
      ultimately show ?thesis by blast
    next
      case False
      have nd: "\<not> bdirty (getb s b)" using s(6) [OF bl] False by (auto simp: buf_ok_def)
      have st: "\<not> ide_lock t" "idequeue t = []" "havedisk1 t" "mypid t = mypid s" "length (bufs t) = NBUF"
        using t(2,5) s by (auto simp: same_rest_def)
      obtain v where v: "iderw b t = Inr v" "same_rest t v" "bnext v = bnext t" "bprev v = bprev t"
          "bufs v = (bufs t)[b := (getb t b)\<lparr>bdata := disk t 1 (blockno (getb t b)), bvalid := True, bdirty := False\<rparr>]"
          "disk v = disk t" "writes v = writes t"
        using iderw_read [of t b] st bl gt iu assms(3) False nd by auto
      have "bread ROOTDEV n s = Inr (b, v)" using t(1) gt False v(1) by (simp add: bread_def)
      moreover have "opened s n b v"
      proof (rule openedI [OF assms(1) bl])
        show "same_rest s v" using t(2) v(2) by (simp add: same_rest_def)
        show "bufs v = (bufs s)[b := (getb t b)\<lparr>bdata := disk t 1 (blockno (getb t b)), bvalid := True, bdirty := False\<rparr>]"
          using v(5) t(5) by simp
        have "cur s n = disk s 1 n" using s(8) [OF b] False by (intro cur_uncached) auto
        then show "bdata ((getb t b)\<lparr>bdata := disk t 1 (blockno (getb t b)), bvalid := True, bdirty := False\<rparr>) = cur s n"
          using gt iu t(6) by simp
      qed (use gt iu t v s(7) dx nd b r0 in \<open>auto simp: in_use_def\<close>)
      ultimately show ?thesis by blast
    qed
  next
    case False
    then have "n \<notin> dirty s" by (auto simp: dirty_def)
    then obtain c where c: "c < NBUF" "refcnt (getb s c) = 0" "\<not> bdirty (getb s c)"
      using exists_unpinned [OF assms(1)] assms(4) by blast
    obtain b t where t: "bget ROOTDEV n s = Inr (b, t)" "b < NBUF" "refcnt (getb s b) = 0" "\<not> bdirty (getb s b)"
        "same_rest s t" "bnext t = bnext s" "bprev t = bprev s"
        "bufs t = (bufs s)[b := (getb s b)\<lparr>bdev := ROOTDEV, blockno := n, bvalid := False, bdirty := False, refcnt := 1,
          block_lk := held_by (mypid s)\<rparr>]" "disk t = disk s" "writes t = writes s"
      using bget_miss [OF assms(1) _ c] False by blast
    have gt: "getb t b = (getb s b)\<lparr>bdev := ROOTDEV, blockno := n, bvalid := False, bdirty := False, refcnt := 1,
          block_lk := held_by (mypid s)\<rparr>" using t(2,8) s(5) by (simp add: getb_def)
    have st: "\<not> ide_lock t" "idequeue t = []" "havedisk1 t" "mypid t = mypid s" "length (bufs t) = NBUF"
      using t(5,8) s by (auto simp: same_rest_def)
    obtain v where v: "iderw b t = Inr v" "same_rest t v" "bnext v = bnext t" "bprev v = bprev t"
        "bufs v = (bufs t)[b := (getb t b)\<lparr>bdata := disk t 1 (blockno (getb t b)), bvalid := True, bdirty := False\<rparr>]"
        "disk v = disk t" "writes v = writes t"
      using iderw_read [of t b] st t(2) gt assms(3) by auto
    have "bread ROOTDEV n s = Inr (b, v)" using t(1) gt v(1) by (simp add: bread_def)
    moreover have "opened s n b v"
    proof (rule openedI [OF assms(1) t(2)])
      show "same_rest s v" using t(5) v(2) by (simp add: same_rest_def)
      show "bufs v = (bufs s)[b := (getb t b)\<lparr>bdata := disk t 1 (blockno (getb t b)), bvalid := True, bdirty := False\<rparr>]"
        using v(5) t(8) by simp
      have "cur s n = disk s 1 n" using False by (intro cur_uncached) auto
      then show "bdata ((getb t b)\<lparr>bdata := disk t 1 (blockno (getb t b)), bvalid := True, bdirty := False\<rparr>) = cur s n"
        using gt t(9) by simp
    qed (use gt t v s(7) False \<open>n \<notin> dirty s\<close> in \<open>auto simp: in_use_def\<close>)
    ultimately show ?thesis by blast
  qed
qed

text \<open>Changing a buffer that is held, without changing its block.\<close>

lemma handle_upd:
  assumes ok: "bc_ok s" and h: "handle s n b" and r: "same_rest s t" and t: "bufs t = (bufs s)[b := x]"
    and l: "\<exists>xs. dll (bnext t) (bprev t) xs \<and> set xs = {..<NBUF}"
    and x: "in_use x" "blockno x = n" "bvalid x" "buf_ok t x"
    and d: "\<And>m. m \<noteq> n \<Longrightarrow> disk t 1 m = disk s 1 m" "length (disk t 1 n) = BSIZE"
  shows "bc_ok t" "cur t = (cur s)(n := bdata x)"
    "dirty t = (if bdirty x then insert n (dirty s) else dirty s - {n})"
    "heldb t = (if refcnt x \<noteq> 0 then insert n (heldb s) else heldb s - {n})"
    "\<And>m c. handle t m c \<longleftrightarrow> (if m = n then refcnt x \<noteq> 0 \<and> c = b else handle s m c)"
proof -
  note s = bc_okD [OF ok]
  have b: "b < NBUF" and cs: "cached s n b" using h by (auto simp: handle_def cached_def)
  note u = cached_upd [OF s(5) t b]
  have uniq: "\<not> cached s n c" if "c \<noteq> b" for c using s(8) [OF cs] that by blast
  have other: "blockno (getb s c) \<noteq> n" if "c < NBUF" "c \<noteq> b" "in_use (getb s c)" for c
    using uniq that by (auto simp: cached_def)
  have len: "length (disk t 1 m) = BSIZE" for m using d s(7) by (cases "m = n") auto
  show okt: "bc_ok t"
    by (rule upd_ok [OF ok b r t l x(4) len]) (use d(1) other uniq x(2) in auto)
  note st = bc_okD [OF okt]
  have gb: "getb t b = x" using u(2) [OF b] by simp
  have ct: "cached t m c \<longleftrightarrow> cached s m c" for m c
    unfolding u(1) using x(1,2) cs by (auto simp: cached_def)
  have gc: "getb t c = getb s c" if "cached s m c" "m \<noteq> n" for m c
    using that cs u(2) [of c] by (auto simp: cached_def)
  show "cur t = (cur s)(n := bdata x)"
  proof
    fix m
    show "cur t m = ((cur s)(n := bdata x)) m"
    proof (cases "m = n")
      case True
      have v: "cached t n b" "bvalid (getb t b)" using gb x(3) cs ct by simp_all
      show ?thesis using cur_cached [OF st(8) v] gb True by simp
    next
      case mn: False
      show ?thesis
      proof (cases "\<exists>c. cached s m c \<and> bvalid (getb s c)")
        case True
        then obtain c where c: "cached s m c" "bvalid (getb s c)" by blast
        have c': "cached t m c" "bvalid (getb t c)" using c ct gc [OF c(1) mn] by simp_all
        show ?thesis using cur_cached [OF s(8) c] cur_cached [OF st(8) c'] gc [OF c(1) mn] mn by simp
      next
        case False
        then have "cur s m = disk s 1 m" by (intro cur_uncached) blast
        moreover have "cur t m = disk t 1 m" using False ct gc mn by (intro cur_uncached) metis
        ultimately show ?thesis using d(1) mn by simp
      qed
    qed
  qed
  have view: "(\<exists>c. cached t m c \<and> Q (getb t c)) \<longleftrightarrow> (if m = n then Q x else \<exists>c. cached s m c \<and> Q (getb s c))" for m Q
  proof (cases "m = n")
    case True
    then show ?thesis unfolding ex_cached_upd [OF s(5) t b, of m Q] using x(1,2) uniq by auto
  next
    case False
    then have "\<not> cached s m b" using cs by (auto simp: cached_def)
    then show ?thesis unfolding ex_cached_upd [OF s(5) t b, of m Q] using x(2) False by metis
  qed
  show "dirty t = (if bdirty x then insert n (dirty s) else dirty s - {n})"
    unfolding dirty_def view [of _ bdirty] by auto
  show "heldb t = (if refcnt x \<noteq> 0 then insert n (heldb s) else heldb s - {n})"
    unfolding heldb_def view [of _ "\<lambda>x. refcnt x \<noteq> 0"] by auto
  show "handle t m c \<longleftrightarrow> (if m = n then refcnt x \<noteq> 0 \<and> c = b else handle s m c)" for m c
    using ct [of m c] gc [of m c] gb cs uniq [of c] by (cases "c = b") (auto simp: handle_def)
qed

lemma handle_buf:
  assumes "bc_ok s" "handle s n b"
  shows "b < NBUF" "getb s b = bufs s ! b" "refcnt (getb s b) = 1" "block_lk (getb s b) = held_by (mypid s)"
    "bdev (getb s b) = ROOTDEV" "blockno (getb s b) = n" "bvalid (getb s b)" "bdata (getb s b) = cur s n"
    "bdirty (getb s b) \<longleftrightarrow> n \<in> dirty s" "n \<in> heldb s" "length (cur s n) = BSIZE"
proof -
  have c: "cached s n b" "b < NBUF" "refcnt (getb s b) \<noteq> 0" using assms(2) by (auto simp: handle_def cached_def)
  note k = bc_okD(6) [OF assms(1) c(2)]
  show "b < NBUF" "getb s b = bufs s ! b" "refcnt (getb s b) = 1" "block_lk (getb s b) = held_by (mypid s)"
    "bdev (getb s b) = ROOTDEV" "blockno (getb s b) = n" "n \<in> heldb s"
    using c k by (auto simp: buf_ok_def cached_def in_use_def heldb_def getb_def)
  show v: "bvalid (getb s b)" using c k by (auto simp: buf_ok_def)
  show e: "bdata (getb s b) = cur s n" using cur_cached [OF bc_okD(8) [OF assms(1)] c(1) v] by simp
  show "bdirty (getb s b) \<longleftrightarrow> n \<in> dirty s" unfolding dirty_def using bc_okD(8) [OF assms(1) c(1)] c(1) by blast
  show "length (cur s n) = BSIZE" using k v e by (auto simp: buf_ok_def)
qed

lemma handle_unique: "bc_ok s \<Longrightarrow> handle s n b \<Longrightarrow> handle s n c \<longleftrightarrow> c = b"
  using bc_okD(8) by (fastforce simp: handle_def)

lemma list_ok: "bc_ok s \<Longrightarrow> \<exists>xs. dll (bnext s) (bprev s) xs \<and> set xs = {..<NBUF}"
  using bc_okD(9) by blast

definition set_data :: "nat \<Rightarrow> (block \<Rightarrow> block) \<Rightarrow> 'm bio_scheme \<Rightarrow> 'm bio_scheme" where
  "set_data b f s = setb b (\<lambda>x. x\<lparr>bdata := f (bdata x)\<rparr>) s"

lemma set_data_law:
  assumes "bc_ok s" "handle s n b" "length (f (cur s n)) = BSIZE"
  defines "t \<equiv> set_data b f s"
  shows "bc_ok t" "cur t = (cur s)(n := f (cur s n))" "dirty t = dirty s" "heldb t = heldb s"
    "handle t m c \<longleftrightarrow> handle s m c" "disk t = disk s" "writes t = writes s" "mypid t = mypid s" "bio.more t = bio.more s"
proof -
  let ?x = "(getb s b)\<lparr>bdata := f (bdata (getb s b))\<rparr>"
  note h = handle_buf [OF assms(1,2)]
  have t: "bufs t = (bufs s)[b := ?x]" "same_rest s t" "bnext t = bnext s" "bprev t = bprev s" "disk t = disk s"
    by (simp_all add: t_def set_data_def setb_def same_rest_def getb_def)
  have x: "buf_ok t ?x" using h(3-8) assms(3) t(2) by (simp add: buf_ok_def in_use_def same_rest_def)
  note l = handle_upd [OF assms(1,2) t(2,1) _ _ _ _ x]
  have l': "bc_ok t" "cur t = (cur s)(n := bdata ?x)" "dirty t = (if bdirty ?x then insert n (dirty s) else dirty s - {n})"
    "heldb t = (if refcnt ?x \<noteq> 0 then insert n (heldb s) else heldb s - {n})"
    "handle t m c \<longleftrightarrow> (if m = n then refcnt ?x \<noteq> 0 \<and> c = b else handle s m c)"
    by (rule l; use h list_ok [OF assms(1)] t bc_okD(7) [OF assms(1)] in \<open>auto simp: in_use_def\<close>)+
  then show "bc_ok t" "cur t = (cur s)(n := f (cur s n))" "dirty t = dirty s" "heldb t = heldb s" using h by auto
  show "handle t m c \<longleftrightarrow> handle s m c"
    using l'(5) h(3) handle_unique [OF assms(1,2)] by simp
qed (simp_all add: t_def set_data_def setb_def)

definition mark_dirty :: "nat \<Rightarrow> 'm bio_scheme \<Rightarrow> 'm bio_scheme" where
  "mark_dirty b s = setb b (\<lambda>x. x\<lparr>bdirty := True\<rparr>) s"

lemma mark_dirty_law:
  assumes "bc_ok s" "handle s n b"
  defines "t \<equiv> mark_dirty b s"
  shows "bc_ok t" "cur t = cur s" "dirty t = insert n (dirty s)" "heldb t = heldb s"
    "handle t m c \<longleftrightarrow> handle s m c" "disk t = disk s" "writes t = writes s" "mypid t = mypid s" "bio.more t = bio.more s"
proof -
  let ?x = "(getb s b)\<lparr>bdirty := True\<rparr>"
  note h = handle_buf [OF assms(1,2)]
  have t: "bufs t = (bufs s)[b := ?x]" "same_rest s t" "bnext t = bnext s" "bprev t = bprev s" "disk t = disk s"
    by (simp_all add: t_def mark_dirty_def setb_def same_rest_def getb_def)
  have x: "buf_ok t ?x" using h(3-8,11) t(2) by (simp add: buf_ok_def in_use_def same_rest_def)
  note l = handle_upd [OF assms(1,2) t(2,1) _ _ _ _ x]
  have l': "bc_ok t" "cur t = (cur s)(n := bdata ?x)" "dirty t = (if bdirty ?x then insert n (dirty s) else dirty s - {n})"
    "heldb t = (if refcnt ?x \<noteq> 0 then insert n (heldb s) else heldb s - {n})"
    "handle t m c \<longleftrightarrow> (if m = n then refcnt ?x \<noteq> 0 \<and> c = b else handle s m c)"
    by (rule l; use h list_ok [OF assms(1)] t bc_okD(7) [OF assms(1)] in \<open>auto simp: in_use_def\<close>)+
  then show "bc_ok t" "cur t = cur s" "dirty t = insert n (dirty s)" "heldb t = heldb s" using h by auto
  show "handle t m c \<longleftrightarrow> handle s m c"
    using l'(5) h(3) handle_unique [OF assms(1,2)] by simp
qed (simp_all add: t_def mark_dirty_def setb_def)

definition written :: "'m bio_scheme \<Rightarrow> u32 \<Rightarrow> 'm bio_scheme \<Rightarrow> bool" where
  "written s n t \<longleftrightarrow> bc_ok t \<and> (\<forall>m c. handle t m c \<longleftrightarrow> handle s m c) \<and> cur t = cur s \<and>
     disk t 1 = (disk s 1)(n := cur s n) \<and> writes t = writes s @ [(1, n, cur s n)] \<and> dirty t = dirty s - {n} \<and>
     heldb t = heldb s \<and> mypid t = mypid s \<and> bio.more t = bio.more s"

lemma bwrite_writes:
  assumes "bc_ok s" "handle s n b" "n < FSSIZE"
  shows "\<exists>t. bwrite b s = Inr t \<and> written s n t"
proof -
  note h = handle_buf [OF assms(1,2)] and s = bc_okD [OF assms(1)]
  let ?s = "setb b (\<lambda>x. x\<lparr>bdirty := True\<rparr>) s"
  have g: "getb ?s b = (getb s b)\<lparr>bdirty := True\<rparr>" using h(1) s(5) by (simp add: getb_def setb_def)
  have f: "\<not> ide_lock ?s" "idequeue ?s = []" "havedisk1 ?s" "length (bufs ?s) = NBUF" "mypid ?s = mypid s"
    using s by (simp_all add: setb_def)
  obtain t where t: "iderw b ?s = Inr t" "same_rest ?s t" "bnext t = bnext ?s" "bprev t = bprev ?s"
      "bufs t = (bufs ?s)[b := (getb ?s b)\<lparr>bvalid := True, bdirty := False\<rparr>]"
      "disk t = (disk ?s)(1 := (disk ?s 1)(blockno (getb ?s b) := bdata (getb ?s b)))"
      "writes t = writes ?s @ [(1, blockno (getb ?s b), bdata (getb ?s b))]"
    using iderw_write [of ?s b] f h g assms(3) by auto
  let ?x = "(getb s b)\<lparr>bvalid := True, bdirty := False\<rparr>"
  have u: "bufs t = (bufs s)[b := ?x]" using t(5) g h(7) by (simp add: setb_def)
  have r: "same_rest s t" "bnext t = bnext s" "bprev t = bprev s" using t(2-4) by (simp_all add: same_rest_def setb_def)
  have d: "disk t 1 = (disk s 1)(n := cur s n)" "writes t = writes s @ [(1, n, cur s n)]"
    using t(6,7) g h by (simp_all add: setb_def)
  have x: "buf_ok t ?x" using h(3-8,11) r(1) by (simp add: buf_ok_def in_use_def same_rest_def)
  note l = handle_upd [OF assms(1,2) r(1) u _ _ _ _ x]
  have l': "bc_ok t" "cur t = (cur s)(n := bdata ?x)" "dirty t = (if bdirty ?x then insert n (dirty s) else dirty s - {n})"
    "heldb t = (if refcnt ?x \<noteq> 0 then insert n (heldb s) else heldb s - {n})"
    "\<And>m c. handle t m c \<longleftrightarrow> (if m = n then refcnt ?x \<noteq> 0 \<and> c = b else handle s m c)"
    by (rule l; use h list_ok [OF assms(1)] r d s(7) in \<open>auto simp: in_use_def\<close>)+
  have "written s n t"
    using l' h d r(1) handle_unique [OF assms(1,2)] by (auto simp: written_def same_rest_def)
  moreover have "bwrite b s = Inr t" using t(1) h(4) by (simp add: bwrite_def)
  ultimately show ?thesis by blast
qed

definition released :: "'m bio_scheme \<Rightarrow> u32 \<Rightarrow> 'm bio_scheme \<Rightarrow> bool" where
  "released s n t \<longleftrightarrow> bc_ok t \<and> (\<forall>m c. handle t m c \<longleftrightarrow> m \<noteq> n \<and> handle s m c) \<and> cur t = cur s \<and> disk t = disk s \<and>
     writes t = writes s \<and> dirty t = dirty s \<and> heldb t = heldb s - {n} \<and> mypid t = mypid s \<and> bio.more t = bio.more s"

lemma brelse_releases:
  assumes "bc_ok s" "handle s n b" "n \<in> dirty s \<or> cur s n = disk s 1 n"
  shows "\<exists>t. brelse b s = Inr t \<and> released s n t"
proof -
  note h = handle_buf [OF assms(1,2)] and s = bc_okD [OF assms(1)]
  let ?x = "(getb s b)\<lparr>block_lk := initsleeplock, refcnt := 0\<rparr>"
  define v where "v = s\<lparr>bufs := (bufs s)[b := ?x], woken := woken s @ [BufLock b], bc_lock := True\<rparr>"
  define t where "t = (link_front b (unlink b v))\<lparr>bc_lock := False\<rparr>"
  have bl: "b < length (bufs s)" using h(1) s(5) by simp
  have "brelse b s = Inr t"
    using h(3,4) s(1) bl
    by (simp add: brelse_def buf_releasesleep_def bc_acquire_def bc_release_def setb_def getb_def wake_def v_def t_def
        link_front_def unlink_def Let_def)
  moreover have u: "bufs t = (bufs s)[b := ?x]" and r: "same_rest s t" and d: "disk t = disk s" "writes t = writes s"
    using s(1) by (simp_all add: t_def v_def link_front_def unlink_def Let_def same_rest_def)
  moreover have lst: "\<exists>xs. dll (bnext t) (bprev t) xs \<and> set xs = {..<NBUF}"
  proof -
    obtain xs where xs: "dll (bnext s) (bprev s) xs" "set xs = {..<NBUF}" using list_ok [OF assms(1)] by blast
    obtain us vs where uv: "xs = us @ b # vs" using h(1) xs(2) by (metis lessThan_iff split_list)
    have nb: "bprev s b \<noteq> b" "bnext s b \<noteq> b" "b \<notin> set (us @ vs)" "b \<noteq> NBUF"
    proof -
      have l: "linked (bnext s) (bprev s) ((NBUF # us) @ [b] @ (vs @ [NBUF]))" and di: "distinct (NBUF # us @ b # vs)"
        using xs(1) uv by (simp_all add: dll_def)
      then have pn: "bprev s b = last (NBUF # us)" "bnext s b = hd (vs @ [NBUF])" unfolding linked_append by auto
      show "bprev s b \<noteq> b" unfolding pn(1) using di by (cases us rule: rev_cases) auto
      show "bnext s b \<noteq> b" unfolding pn(2) using di by (cases vs) auto
      show "b \<notin> set (us @ vs)" "b \<noteq> NBUF" using di by auto
    qed
    have "dll ((bnext s)(bprev s b := bnext s b)) ((bprev s)(bnext s b := bprev s b)) (us @ vs)"
      using unlink_dll xs(1) uv by blast
    then have "dll (bnext t) (bprev t) (b # us @ vs)"
      by (rule link_front_dll) (use nb in \<open>auto simp: t_def v_def link_front_def unlink_def Let_def\<close>)
    moreover have "set (b # us @ vs) = {..<NBUF}" using xs(2) uv by auto
    ultimately show ?thesis by blast
  qed
  moreover have x: "buf_ok t ?x" using h(3-9,11) r d assms(3) by (auto simp: buf_ok_def in_use_def same_rest_def)
  note l = handle_upd [OF assms(1,2) r u _ _ _ _ x]
  have l': "bc_ok t" "cur t = (cur s)(n := bdata ?x)" "dirty t = (if bdirty ?x then insert n (dirty s) else dirty s - {n})"
    "heldb t = (if refcnt ?x \<noteq> 0 then insert n (heldb s) else heldb s - {n})"
    "\<And>m c. handle t m c \<longleftrightarrow> (if m = n then refcnt ?x \<noteq> 0 \<and> c = b else handle s m c)"
    by (rule l; use h lst r d s(7) in \<open>auto simp: in_use_def\<close>)+
  have "released s n t"
    using l' h d r by (auto simp: released_def same_rest_def)
  ultimately show ?thesis by blast
qed

lemma clean_block: "bc_ok s \<Longrightarrow> n \<notin> heldb s \<Longrightarrow> n \<notin> dirty s \<Longrightarrow> cur s n = disk s 1 n"
proof (cases "\<exists>b. cached s n b \<and> bvalid (getb s b)")
  case True
  assume a: "bc_ok s" "n \<notin> heldb s" "n \<notin> dirty s"
  obtain b where b: "cached s n b" "bvalid (getb s b)" using True by blast
  then have "refcnt (getb s b) = 0" "\<not> bdirty (getb s b)" "b < NBUF" using a(2,3) by (auto simp: heldb_def dirty_def cached_def)
  then have "bdata (getb s b) = disk s 1 n" using bc_okD(6) [OF a(1), of b] b by (auto simp: buf_ok_def cached_def)
  then show ?thesis using cur_cached [OF bc_okD(8) [OF a(1)] b] by simp
next
  case False
  then show ?thesis by (intro cur_uncached) blast
qed

interpretation bcache: block_cache bc_ok cur "\<lambda>s. disk s 1" dirty heldb handle writes
  "\<lambda>s. (mypid s, bio.more s)" "\<lambda>n d. (1, n, d)" "\<lambda>n. n < FSSIZE" "\<lambda>d. length d = BSIZE" NBUF "bread ROOTDEV"
  "\<lambda>s b. bdata (getb s b)" "\<lambda>b d. set_data b (\<lambda>_. d)" bwrite brelse
proof unfold_locales
  fix s t :: "'a bio_scheme" and n h d
  assume ok: "bc_ok s"
  show "\<exists>h t. bread ROOTDEV n s = Inr (h, t) \<and> bc_ok t \<and> handle t n h \<and> (\<forall>m c. handle s m c \<longrightarrow> handle t m c) \<and> cur t = cur s \<and>
      disk t 1 = disk s 1 \<and> dirty t = dirty s \<and> heldb t = insert n (heldb s) \<and> writes t = writes s \<and>
      (mypid t, bio.more t) = (mypid s, bio.more s)"
    if "n \<notin> heldb s" "n < FSSIZE" "n \<in> dirty s \<or> card (dirty s \<union> heldb s) < NBUF"
    using bread_opens [OF ok that] by (auto simp: opened_def)
  show "cur s n = disk s 1 n" if "n \<notin> heldb s" "n \<notin> dirty s" using clean_block [OF ok that] .
  assume h: "handle s n h"
  show "bdata (getb s h) = cur s n" "length (cur s n) = BSIZE" "n \<in> heldb s" using handle_buf [OF ok h] by auto
  show "bc_ok t \<and> (\<forall>m c. handle t m c \<longleftrightarrow> handle s m c) \<and> cur t = (cur s)(n := d) \<and> disk t 1 = disk s 1 \<and> dirty t = dirty s \<and>
      heldb t = heldb s \<and> writes t = writes s \<and> (mypid t, bio.more t) = (mypid s, bio.more s)"
    if "length d = BSIZE" "t = set_data h (\<lambda>_. d) s"
    using set_data_law [OF ok h, of "\<lambda>_. d"] that by auto
  show "\<exists>t. bwrite h s = Inr t \<and> bc_ok t \<and> (\<forall>m c. handle t m c \<longleftrightarrow> handle s m c) \<and> cur t = cur s \<and>
      disk t 1 = (disk s 1)(n := cur s n) \<and> dirty t = dirty s - {n} \<and> heldb t = heldb s \<and>
      writes t = writes s @ [(1, n, cur s n)] \<and> (mypid t, bio.more t) = (mypid s, bio.more s)"
    if "n < FSSIZE" using bwrite_writes [OF ok h that] by (auto simp: written_def)
  show "\<exists>t. brelse h s = Inr t \<and> bc_ok t \<and> (\<forall>m c. handle t m c \<longleftrightarrow> m \<noteq> n \<and> handle s m c) \<and> cur t = cur s \<and>
      disk t 1 = disk s 1 \<and> dirty t = dirty s \<and> heldb t = heldb s - {n} \<and> writes t = writes s \<and>
      (mypid t, bio.more t) = (mypid s, bio.more s)"
    if "n \<in> dirty s \<or> cur s n = disk s 1 n" using brelse_releases [OF ok h that] by (auto simp: released_def)
qed

end
