(* ===== verification/XvLog.thy ===== *)
theory XvLog
  imports XvBio
begin

text \<open>
  The write-ahead log of \<^verbatim>\<open>lab-2/log.c\<close> on the buffer cache of \<open>XvBio\<close>: transactions, commit, installation
  and recovery after a crash.  The header block is encoded in bytes as the code overlays it.
\<close>

definition MAXOPBLOCKS :: nat where "MAXOPBLOCKS = 10"
definition LOGSIZE :: nat where "LOGSIZE = MAXOPBLOCKS * 3"

record log_st = bio +
  lg_lock :: bool
  lg_start :: u32
  lg_size :: u32
  outstanding :: int
  committing :: bool
  lg_dev :: u32
  lh_n :: int
  lh_block :: "u32 list"

definition lg_acquire :: "'m log_st_scheme \<Rightarrow> 'm log_st_scheme res" where
  "lg_acquire s = rbind (lk_acquire (lg_lock s)) (\<lambda>b. Inr (s\<lparr>lg_lock := b\<rparr>))"

definition lg_release :: "'m log_st_scheme \<Rightarrow> 'm log_st_scheme res" where
  "lg_release s = rbind (lk_release (lg_lock s)) (\<lambda>b. Inr (s\<lparr>lg_lock := b\<rparr>))"

definition logblock :: "'m log_st_scheme \<Rightarrow> nat \<Rightarrow> u32" where
  "logblock s tail = lg_start s + of_nat tail + 1"

definition install_one :: "nat \<Rightarrow> 'm log_st_scheme \<Rightarrow> 'm log_st_scheme res" where
  "install_one tail s =
     rbind (bread (lg_dev s) (logblock s tail) s) (\<lambda>(lbuf, s1).
     rbind (bread (lg_dev s1) (lh_block s1 ! tail) s1) (\<lambda>(dbuf, s2).
     rbind (bwrite dbuf (set_data dbuf (\<lambda>_. bdata (getb s2 lbuf)) s2)) (\<lambda>s3.
     rbind (brelse lbuf s3) (brelse dbuf))))"

fun install_loop :: "nat list \<Rightarrow> 'm log_st_scheme \<Rightarrow> 'm log_st_scheme res" where
  "install_loop [] s = Inr s"
| "install_loop (tail # ts) s = rbind (install_one tail s) (install_loop ts)"

definition install_trans :: "'m log_st_scheme \<Rightarrow> 'm log_st_scheme res" where
  "install_trans s = install_loop [0..<nat (lh_n s)] s"

definition read_head :: "'m log_st_scheme \<Rightarrow> 'm log_st_scheme res" where
  "read_head s =
     rbind (bread (lg_dev s) (lg_start s) s) (\<lambda>(b, s1).
     let d = bdata (getb s1 b); n = sint (get32 0 d)
     in if int LOGSIZE < n then Inl ''out of bounds''
        else brelse b (s1\<lparr>lh_n := n, lh_block := get_words 4 (nat n) d @ drop (nat n) (lh_block s1)\<rparr>))"

definition head_data :: "'m log_st_scheme \<Rightarrow> block \<Rightarrow> block" where
  "head_data s d = put_words 4 (take (nat (lh_n s)) (lh_block s)) (put32 0 (word_of_int (lh_n s)) d)"

definition write_head :: "'m log_st_scheme \<Rightarrow> 'm log_st_scheme res" where
  "write_head s =
     rbind (bread (lg_dev s) (lg_start s) s) (\<lambda>(b, s1).
     rbind (bwrite b (set_data b (\<lambda>_. head_data s1 (bdata (getb s1 b))) s1)) (brelse b))"

definition recover_from_log :: "'m log_st_scheme \<Rightarrow> 'm log_st_scheme res" where
  "recover_from_log s =
     rbind (read_head s) (\<lambda>s1. rbind (install_trans s1) (\<lambda>s2. write_head (s2\<lparr>lh_n := 0\<rparr>)))"

definition readsb :: "u32 \<Rightarrow> 'm log_st_scheme \<Rightarrow> (superblock \<times> 'm log_st_scheme) res" where
  "readsb dev s =
     rbind (bread dev 1 s) (\<lambda>(bp, s1). let sb = get_sb (bdata (getb s1 bp)) in rbind (brelse bp s1) (\<lambda>s2. Inr (sb, s2)))"

definition initlog :: "u32 \<Rightarrow> 'm log_st_scheme \<Rightarrow> 'm log_st_scheme res" where
  "initlog dev s =
     (if BSIZE \<le> 4 + 4 * LOGSIZE then Inl ''initlog: too big logheader''
      else rbind (readsb dev (s\<lparr>lg_lock := False\<rparr>)) (\<lambda>(sb, s1).
           recover_from_log (s1\<lparr>lg_start := sb_logstart sb, lg_size := sb_nlog sb, lg_dev := dev\<rparr>)))"

text \<open>One pass of the loop of \<open>begin_op\<close>; when the operation has to wait it goes to sleep.\<close>

definition begin_op :: "'m log_st_scheme \<Rightarrow> 'm log_st_scheme res" where
  "begin_op s =
     rbind (lg_acquire s) (\<lambda>s1.
     if committing s1 then Inl ''sleep''
     else if int LOGSIZE < lh_n s1 + (outstanding s1 + 1) * int MAXOPBLOCKS then Inl ''sleep''
     else lg_release (s1\<lparr>outstanding := outstanding s1 + 1\<rparr>))"

definition write_log_one :: "nat \<Rightarrow> 'm log_st_scheme \<Rightarrow> 'm log_st_scheme res" where
  "write_log_one tail s =
     rbind (bread (lg_dev s) (logblock s tail) s) (\<lambda>(to, s1).
     rbind (bread (lg_dev s1) (lh_block s1 ! tail) s1) (\<lambda>(frm, s2).
     rbind (bwrite to (set_data to (\<lambda>_. bdata (getb s2 frm)) s2)) (\<lambda>s3.
     rbind (brelse frm s3) (brelse to))))"

fun write_log_loop :: "nat list \<Rightarrow> 'm log_st_scheme \<Rightarrow> 'm log_st_scheme res" where
  "write_log_loop [] s = Inr s"
| "write_log_loop (tail # ts) s = rbind (write_log_one tail s) (write_log_loop ts)"

definition write_log :: "'m log_st_scheme \<Rightarrow> 'm log_st_scheme res" where
  "write_log s = write_log_loop [0..<nat (lh_n s)] s"

definition commit :: "'m log_st_scheme \<Rightarrow> 'm log_st_scheme res" where
  "commit s =
     (if 0 < lh_n s
      then rbind (write_log s) (\<lambda>s1. rbind (write_head s1) (\<lambda>s2. rbind (install_trans s2) (\<lambda>s3.
           write_head (s3\<lparr>lh_n := 0\<rparr>))))
      else Inr s)"

definition end_op :: "'m log_st_scheme \<Rightarrow> 'm log_st_scheme res" where
  "end_op s =
     rbind (lg_acquire s) (\<lambda>s1.
     let s2 = s1\<lparr>outstanding := outstanding s1 - 1\<rparr>
     in if committing s2 then Inl ''log.committing''
        else if outstanding s2 = 0
        then rbind (lg_release (s2\<lparr>committing := True\<rparr>)) (\<lambda>s3.
             rbind (commit s3) (\<lambda>s4.
             rbind (lg_acquire s4) (\<lambda>s5. lg_release (wake LogChan (s5\<lparr>committing := False\<rparr>)))))
        else lg_release (wake LogChan s2))"

definition log_write :: "nat \<Rightarrow> 'm log_st_scheme \<Rightarrow> 'm log_st_scheme res" where
  "log_write b s =
     (if int LOGSIZE \<le> lh_n s \<or> sint (lg_size s) - 1 \<le> lh_n s then Inl ''too big a transaction''
      else if outstanding s < 1 then Inl ''log_write outside of trans''
      else rbind (lg_acquire s) (\<lambda>s1.
           let bno = blockno (getb s1 b);
               i = (case find_idx (\<lambda>x. x = bno) (take (nat (lh_n s1)) (lh_block s1)) of
                      Some i \<Rightarrow> i | None \<Rightarrow> nat (lh_n s1));
               s2 = s1\<lparr>lh_block := (lh_block s1)[i := bno]\<rparr>;
               s3 = (if int i = lh_n s2 then s2\<lparr>lh_n := lh_n s2 + 1\<rparr> else s2)
           in lg_release (mark_dirty b s3)))"

subsection \<open>The log on the disk\<close>

type_synonym disk_img = "u32 \<Rightarrow> block"

definition apply_ws :: "(u32 \<times> u32 \<times> block) list \<Rightarrow> disk_img \<Rightarrow> disk_img" where
  "apply_ws ws D = fold (\<lambda>(u, n, d) D. D(n := d)) ws D"

definition head_n :: "u32 \<Rightarrow> disk_img \<Rightarrow> int" where
  "head_n st D = sint (get32 0 (D st))"

definition head_blocks :: "u32 \<Rightarrow> disk_img \<Rightarrow> u32 list" where
  "head_blocks st D = get_words 4 (nat (head_n st D)) (D st)"

definition log_area :: "u32 \<Rightarrow> u32 set" where
  "log_area st = (\<lambda>i. st + of_nat i) ` {..<LOGSIZE}"

text \<open>What recovery makes of a disk image outside the log: the blocks of a committed transaction replace
  those at their home locations.\<close>

definition replay :: "u32 \<Rightarrow> disk_img \<Rightarrow> disk_img" where
  "replay st D =
     (\<lambda>b. case find_idx (\<lambda>x. x = b) (head_blocks st D) of Some i \<Rightarrow> D (st + of_nat i + 1) | None \<Rightarrow> D b)"

lemma apply_ws_Nil [simp]: "apply_ws [] D = D" by (simp add: apply_ws_def)

lemma apply_ws_Cons [simp]: "apply_ws ((u, n, d) # ws) D = apply_ws ws (D(n := d))" by (simp add: apply_ws_def)

lemma apply_ws_append: "apply_ws (xs @ ys) D = apply_ws ys (apply_ws xs D)" by (simp add: apply_ws_def)

lemma apply_ws_other: "\<forall>(u, m, d)\<in>set ws. m \<noteq> n \<Longrightarrow> apply_ws ws D n = D n"
  by (induction ws arbitrary: D) (auto simp: apply_ws_def)

lemma apply_ws_map:
  assumes "inj_on f (set xs)" "i \<in> set xs" "distinct xs"
  shows "apply_ws (map (\<lambda>i. (u, f i, g i)) xs) D (f i) = g i"
  using assms
proof (induction xs arbitrary: D)
  case (Cons x xs)
  show ?case
  proof (cases "i \<in> set xs")
    case True
    then show ?thesis using Cons by (auto simp: inj_on_def)
  next
    case False
    then have "i = x" using Cons.prems by simp
    moreover have "apply_ws (map (\<lambda>i. (u, f i, g i)) xs) (D(f x := g x)) (f x) = g x"
      using Cons.prems by (subst apply_ws_other) (auto simp: inj_on_def)
    ultimately show ?thesis by simp
  qed
qed simp

lemma LOGSIZE_pos [simp]: "0 < LOGSIZE" by (simp add: LOGSIZE_def MAXOPBLOCKS_def)

lemma in_log_area: "i < LOGSIZE \<Longrightarrow> st + of_nat i \<in> log_area st"
  by (auto simp: log_area_def)

lemma log_block_area: "Suc i < LOGSIZE \<Longrightarrow> st + of_nat i + 1 \<in> log_area st"
  using in_log_area [of "Suc i" st] by (simp add: add.commute add.left_commute)

lemma log_block_inj: "i < LOGSIZE \<Longrightarrow> j < LOGSIZE \<Longrightarrow> st + of_nat i + 1 = st + of_nat j + (1::u32) \<Longrightarrow> i = j"
proof -
  assume a: "i < LOGSIZE" "j < LOGSIZE" "st + of_nat i + 1 = st + of_nat j + (1::u32)"
  then have "(of_nat i :: u32) = of_nat j" by simp
  then have "unat (of_nat i :: u32) = unat (of_nat j :: u32)" by simp
  then show ?thesis using a(1,2) by (simp add: unat_of_nat take_bit_nat_eq_self LOGSIZE_def MAXOPBLOCKS_def)
qed

lemma log_block_not_head: "i < LOGSIZE \<Longrightarrow> st + of_nat i + 1 \<noteq> (st::u32)"
proof
  assume a: "i < LOGSIZE" "st + of_nat i + 1 = (st::u32)"
  then have "(of_nat (Suc i) :: u32) = 0" by (simp add: ac_simps)
  then have "unat (of_nat (Suc i) :: u32) = 0" by simp
  then show False using a(1) by (simp add: unat_of_nat take_bit_nat_eq_self LOGSIZE_def MAXOPBLOCKS_def del: of_nat_Suc)
qed

subsection \<open>Steps of the log as disk writes\<close>

text \<open>\<open>wrote ws D' s t\<close>: between \<open>s\<close> and \<open>t\<close> the log wrote \<open>ws\<close> to disk, and the cache shows the same changes; no buffer
  is left held, the blocks in \<open>D'\<close> are still dirty, and the rest of the state is unchanged.\<close>

definition wrote :: "(u32 \<times> u32 \<times> block) list \<Rightarrow> u32 set \<Rightarrow> 'm log_st_scheme \<Rightarrow> 'm log_st_scheme \<Rightarrow> bool" where
  "wrote ws D' s t \<longleftrightarrow> bc_ok t \<and> heldb t = {} \<and> dirty t = D' \<and> writes t = writes s @ ws \<and>
     disk t 1 = apply_ws ws (disk s 1) \<and> cur t = apply_ws ws (cur s) \<and> mypid t = mypid s \<and> bio.more t = bio.more s"

lemma log_fields:
  assumes "bio.more t = bio.more s"
  shows "lg_lock t = lg_lock s" "lg_start t = lg_start s" "lg_size t = lg_size s" "outstanding t = outstanding s"
    "committing t = committing s" "lg_dev t = lg_dev s" "lh_n t = lh_n s" "lh_block t = lh_block s"
  using assms by (cases s, cases t, simp)+

lemma wrote_trans:
  "wrote ws D1 s t \<Longrightarrow> wrote vs D2 t u \<Longrightarrow> wrote (ws @ vs) D2 s u"
  by (auto simp: wrote_def apply_ws_append)

text \<open>Copying block \<open>a\<close> to block \<open>b\<close>, with the two reads in either order.\<close>

lemma copy_block:
  assumes ok: "bc_ok s" "heldb s = {}" and ab: "a \<noteq> b" "a < FSSIZE" "b < FSSIZE"
    and cap: "card (dirty s) < NBUF" "q \<in> dirty s \<or> card (dirty s) + 1 < NBUF"
    and e: "r = rbind (bread ROOTDEV p s) (\<lambda>(x, s1). rbind (bread ROOTDEV q s1) (\<lambda>(y, s2). fin x y s2))"
      "p = a \<and> q = b \<and> fin = (\<lambda>x y s2. rbind (bwrite y (set_data y (\<lambda>_. bdata (getb s2 x)) s2)) (\<lambda>s3. rbind (brelse x s3) (brelse y))) \<or>
       p = b \<and> q = a \<and> fin = (\<lambda>y x s2. rbind (bwrite y (set_data y (\<lambda>_. bdata (getb s2 x)) s2)) (\<lambda>s3. rbind (brelse x s3) (brelse y)))"
  shows "\<exists>t. r = Inr t \<and> wrote [(1, b, cur s a)] (dirty s - {b}) s t"
proof -
  have fin: "finite (dirty s)" unfolding dirty_def
    by (rule finite_subset [of _ "(\<lambda>b. blockno (getb s b)) ` {..<NBUF}"]) (auto simp: cached_def)
  have pq: "p \<noteq> q" "p < FSSIZE" "q < FSSIZE" "{p, q} = {a, b}" using e(2) ab by auto
  have "p \<in> dirty s \<or> card (dirty s \<union> heldb s) < NBUF" using cap ok(2) by simp
  then obtain x s1 where s1: "bread ROOTDEV p s = Inr (x, s1)" "bc_ok s1" "handle s1 p x" "cur s1 = cur s"
      "disk s1 1 = disk s 1" "dirty s1 = dirty s" "heldb s1 = {p}" "writes s1 = writes s" "mypid s1 = mypid s" "bio.more s1 = bio.more s"
    using bcache.rd_law [OF ok(1), of p] ok(2) pq by auto
  have "q \<in> dirty s1 \<or> card (dirty s1 \<union> heldb s1) < NBUF"
    using cap s1(6,7) fin by (auto simp: card_insert_if)
  then obtain y s2 where s2: "bread ROOTDEV q s1 = Inr (y, s2)" "bc_ok s2" "handle s2 q y" "\<forall>m c. handle s1 m c \<longrightarrow> handle s2 m c"
      "cur s2 = cur s1" "disk s2 1 = disk s1 1" "dirty s2 = dirty s1" "heldb s2 = insert q (heldb s1)" "writes s2 = writes s1"
      "mypid s2 = mypid s1" "bio.more s2 = bio.more s1"
    using bcache.rd_law [OF s1(2), of q] s1(7) pq by auto
  obtain l d where ld: "handle s2 a l" "handle s2 b d"
    "r = rbind (bwrite d (set_data d (\<lambda>_. bdata (getb s2 l)) s2)) (\<lambda>s3. rbind (brelse l s3) (brelse d))"
  proof (cases "p = a")
    case True
    then show ?thesis using e s1(1,3) s2(1,3,4) ab(1) by (intro that [of x y]) auto
  next
    case False
    then show ?thesis using e s1(1,3) s2(1,3,4) by (intro that [of y x]) auto
  qed
  have "a \<in> dirty s2 \<or> cur s2 a = disk s2 1 a" using clean_block [OF ok(1), of a] ok(2) s1 s2 by auto
  then obtain u v t where t: "bwrite d (set_data d (\<lambda>_. bdata (getb s2 l)) s2) = Inr u" "brelse l u = Inr v" "brelse d v = Inr t"
      "bc_ok t" "cur t = (cur s2)(b := cur s2 a)" "disk t 1 = (disk s2 1)(b := cur s2 a)" "dirty t = dirty s2 - {b}"
      "heldb t = heldb s2 - {a, b}" "writes t = writes s2 @ [(1, b, cur s2 a)]" "(mypid t, bio.more t) = (mypid s2, bio.more s2)"
    using bcache.copy_wr_rel [OF s2(2) ld(1,2) ab(1) ab(3)] by blast
  have "heldb t = {}" using t(8) s2(8) s1(7) pq(4) by auto
  then show ?thesis using ld(3) t s1 s2 by (auto simp: wrote_def)
qed

definition log_cfg :: "u32 \<Rightarrow> u32 list \<Rightarrow> 'm log_st_scheme \<Rightarrow> bool" where
  "log_cfg st bs s \<longleftrightarrow> lg_dev s = ROOTDEV \<and> lg_start s = st \<and> length (lh_block s) = LOGSIZE \<and>
     lh_n s = int (length bs) \<and> bs = take (length bs) (lh_block s)"

definition log_geometry :: "u32 \<Rightarrow> u32 list \<Rightarrow> bool" where
  "log_geometry st bs \<longleftrightarrow> (\<forall>b\<in>log_area st. b < FSSIZE) \<and> (\<forall>b\<in>set bs. b < FSSIZE \<and> b \<notin> log_area st) \<and> distinct bs \<and>
     length bs < LOGSIZE"

lemma log_cfg_nth: "log_cfg st bs s \<Longrightarrow> i < length bs \<Longrightarrow> lh_block s ! i = bs ! i"
  unfolding log_cfg_def by (metis nth_take)

lemma log_cfg_more: "bio.more t = bio.more s \<Longrightarrow> log_cfg st bs t = log_cfg st bs s"
  unfolding log_cfg_def by (simp only: log_fields [of t s])

lemma geometryD:
  assumes "log_geometry st bs" "i < length bs"
  shows "st + of_nat i + 1 < FSSIZE" "bs ! i < FSSIZE" "bs ! i \<notin> log_area st" "st + of_nat i + 1 \<in> log_area st" "i < LOGSIZE"
    "\<And>j. j < length bs \<Longrightarrow> st + of_nat i + 1 \<noteq> bs ! j"
proof -
  show i: "i < LOGSIZE" using assms by (simp add: log_geometry_def)
  show a: "st + of_nat i + 1 \<in> log_area st" using assms by (intro log_block_area) (simp add: log_geometry_def)
  then show "st + of_nat i + 1 < FSSIZE" using assms(1) by (simp add: log_geometry_def)
  show "bs ! i < FSSIZE" "bs ! i \<notin> log_area st" using assms by (auto simp: log_geometry_def)
  show "st + of_nat i + 1 \<noteq> bs ! j" if "j < length bs" for j
    using a assms(1) nth_mem [OF that] unfolding log_geometry_def by metis
qed

lemma write_log_one_wrote:
  assumes "bc_ok s" "heldb s = {}" "log_cfg st bs s" "log_geometry st bs" "i < length bs"
    and "set bs \<subseteq> dirty s" "dirty s \<inter> log_area st = {}" "card (dirty s) < NBUF"
  shows "\<exists>t. write_log_one i s = Inr t \<and> wrote [(1, st + of_nat i + 1, cur s (bs ! i))] (dirty s) s t"
proof -
  note g = geometryD [OF assms(4,5)]
  have c: "lg_dev s = ROOTDEV" "lg_start s = st" using assms(3) by (simp_all add: log_cfg_def)
  have d: "dirty s - {st + of_nat i + 1} = dirty s" using g(4) assms(7) by auto
  let ?fin = "\<lambda>to frm s2. rbind (bwrite to (set_data to (\<lambda>_. bdata (getb s2 frm)) s2)) (\<lambda>s3. rbind (brelse frm s3) (brelse to))"
  have "bread ROOTDEV (st + of_nat i + 1) s = Inr (x, s1) \<Longrightarrow> lg_dev s1 = ROOTDEV \<and> lh_block s1 ! i = bs ! i" for x s1
    using bcache.rd_law [OF assms(1), of "st + of_nat i + 1"] g assms log_cfg_more [of s1 s] log_cfg_nth [of st bs s1 i]
    by (auto simp: log_cfg_def)
  then have e: "write_log_one i s = rbind (bread ROOTDEV (st + of_nat i + 1) s) (\<lambda>(x, s1). rbind (bread ROOTDEV (bs ! i) s1) (\<lambda>(y, s2). ?fin x y s2))"
    unfolding write_log_one_def logblock_def c by (cases "bread ROOTDEV (st + of_nat i + 1) s") auto
  show ?thesis
    using copy_block [OF assms(1,2) _ g(2,1) assms(8) disjI1 e] nth_mem [OF assms(5)] assms(6) g(6) [OF assms(5)]
    unfolding d by auto
qed

lemma write_log_loop_wrote:
  assumes "bc_ok s" "heldb s = {}" "log_cfg st bs s" "log_geometry st bs" "set xs \<subseteq> {..<length bs}"
    and "set bs \<subseteq> dirty s" "dirty s \<inter> log_area st = {}" "card (dirty s) < NBUF"
  shows "\<exists>t. write_log_loop xs s = Inr t \<and> wrote (map (\<lambda>i. (1, st + of_nat i + 1, cur s (bs ! i))) xs) (dirty s) s t"
  using assms
proof (induction xs arbitrary: s)
  case Nil
  then show ?case by (simp add: wrote_def)
next
  case (Cons i xs)
  have i: "i < length bs" using Cons.prems(5) by simp
  obtain s1 where s1: "write_log_one i s = Inr s1" "wrote [(1, st + of_nat i + 1, cur s (bs ! i))] (dirty s) s s1"
    using write_log_one_wrote [OF Cons.prems(1-4) i Cons.prems(6-8)] by blast
  have m: "bio.more s1 = bio.more s" using s1(2) by (simp add: wrote_def)
  obtain t where t: "write_log_loop xs s1 = Inr t" "wrote (map (\<lambda>i. (1, st + of_nat i + 1, cur s1 (bs ! i))) xs) (dirty s1) s1 t"
    using Cons.IH [of s1] Cons.prems s1(2) log_cfg_more [OF m] by (auto simp: wrote_def)
  have "cur s1 (bs ! j) = cur s (bs ! j)" if "j \<in> set xs" for j
    using s1(2) geometryD(6) [OF Cons.prems(4) i, of j] that Cons.prems(5) by (auto simp: wrote_def)
  then have e: "map (\<lambda>i. (1, st + of_nat i + 1, cur s1 (bs ! i))) xs = map (\<lambda>i. (1, st + of_nat i + 1, cur s (bs ! i))) xs"
    by simp
  have "dirty s1 = dirty s" using s1(2) by (simp add: wrote_def)
  then have "wrote (map (\<lambda>i. (1, st + of_nat i + 1, cur s (bs ! i))) (i # xs)) (dirty s) s t"
    using wrote_trans [OF s1(2) t(2)] unfolding e by simp
  then show ?case using t(1) s1(1) by auto
qed

lemma install_one_wrote:
  assumes "bc_ok s" "heldb s = {}" "log_cfg st bs s" "log_geometry st bs" "i < length bs"
    and "bs ! i \<in> dirty s \<or> card (dirty s) + 1 < NBUF" "card (dirty s) < NBUF"
  shows "\<exists>t. install_one i s = Inr t \<and> wrote [(1, bs ! i, cur s (st + of_nat i + 1))] (dirty s - {bs ! i}) s t"
proof -
  note g = geometryD [OF assms(4,5)]
  have c: "lg_dev s = ROOTDEV" "lg_start s = st" using assms(3) by (simp_all add: log_cfg_def)
  let ?fin = "\<lambda>lbuf dbuf s2. rbind (bwrite dbuf (set_data dbuf (\<lambda>_. bdata (getb s2 lbuf)) s2)) (\<lambda>s3. rbind (brelse lbuf s3) (brelse dbuf))"
  have "bread ROOTDEV (st + of_nat i + 1) s = Inr (x, s1) \<Longrightarrow> lg_dev s1 = ROOTDEV \<and> lh_block s1 ! i = bs ! i" for x s1
    using bcache.rd_law [OF assms(1), of "st + of_nat i + 1"] g assms log_cfg_more [of s1 s] log_cfg_nth [of st bs s1 i]
    by (auto simp: log_cfg_def)
  then have e: "install_one i s = rbind (bread ROOTDEV (st + of_nat i + 1) s) (\<lambda>(x, s1). rbind (bread ROOTDEV (bs ! i) s1) (\<lambda>(y, s2). ?fin x y s2))"
    unfolding install_one_def logblock_def c by (cases "bread ROOTDEV (st + of_nat i + 1) s") auto
  show ?thesis
    using copy_block [OF assms(1,2) _ g(1,2) assms(7,6) e] g(6) [OF assms(5)] by auto
qed

lemma install_loop_wrote:
  assumes "bc_ok s" "heldb s = {}" "log_cfg st bs s" "log_geometry st bs" "set xs \<subseteq> {..<length bs}" "distinct xs"
    and "(\<forall>i\<in>set xs. bs ! i \<in> dirty s) \<or> card (dirty s) + 1 < NBUF" "card (dirty s) < NBUF"
  shows "\<exists>t. install_loop xs s = Inr t \<and>
    wrote (map (\<lambda>i. (1, bs ! i, cur s (st + of_nat i + 1))) xs) (dirty s - (\<lambda>i. bs ! i) ` set xs) s t"
  using assms
proof (induction xs arbitrary: s)
  case Nil
  then show ?case by (simp add: wrote_def)
next
  case (Cons i xs)
  have i: "i < length bs" using Cons.prems(5) by simp
  obtain s1 where s1: "install_one i s = Inr s1" "wrote [(1, bs ! i, cur s (st + of_nat i + 1))] (dirty s - {bs ! i}) s s1"
    using install_one_wrote [OF Cons.prems(1-4) i] Cons.prems(7,8) by auto
  have m: "bio.more s1 = bio.more s" and d: "dirty s1 = dirty s - {bs ! i}" using s1(2) by (simp_all add: wrote_def)
  have le: "card (dirty s1) \<le> card (dirty s)" unfolding d by (simp add: card_Diff1_le)
  have "bs ! j \<noteq> bs ! i" if "j \<in> set xs" for j
    using that Cons.prems(4-6) i by (auto simp: log_geometry_def nth_eq_iff_index_eq)
  then have "(\<forall>j\<in>set xs. bs ! j \<in> dirty s1) \<or> card (dirty s1) + 1 < NBUF" using Cons.prems(7) le d by auto
  then obtain t where t: "install_loop xs s1 = Inr t"
      "wrote (map (\<lambda>i. (1, bs ! i, cur s1 (st + of_nat i + 1))) xs) (dirty s1 - (\<lambda>i. bs ! i) ` set xs) s1 t"
    using Cons.IH [of s1] Cons.prems s1(2) log_cfg_more [OF m] le by (auto simp: wrote_def)
  have "cur s1 (st + of_nat j + 1) = cur s (st + of_nat j + 1)" if "j \<in> set xs" for j
    using s1(2) geometryD(6) [OF Cons.prems(4) _ i, of j] that Cons.prems(5) by (auto simp: wrote_def)
  then have e: "map (\<lambda>i. (1, bs ! i, cur s1 (st + of_nat i + 1))) xs = map (\<lambda>i. (1, bs ! i, cur s (st + of_nat i + 1))) xs"
    by simp
  have e2: "dirty s1 - (\<lambda>i. bs ! i) ` set xs = dirty s - (\<lambda>i. bs ! i) ` set (i # xs)" using d by auto
  have "wrote (map (\<lambda>i. (1, bs ! i, cur s (st + of_nat i + 1))) (i # xs)) (dirty s - (\<lambda>i. bs ! i) ` set (i # xs)) s t"
    using wrote_trans [OF s1(2) t(2)] unfolding e e2 by simp
  then show ?case using t(1) s1(1) by auto
qed

lemma sint_small: "0 \<le> k \<Longrightarrow> k < 2 ^ 31 \<Longrightarrow> sint (word_of_int k :: u32) = k"
  by (simp add: sint_uint uint_word_of_int take_bit_int_eq_self signed_take_bit_int_eq_self)

lemma head_data_length [simp]: "length (head_data s d) = length d"
  by (simp add: head_data_def)

lemma head_data_n:
  assumes "log_cfg st bs s" "length bs \<le> LOGSIZE" "length d = BSIZE"
  shows "sint (get32 0 (head_data s d)) = int (length bs)"
proof -
  have "sint (word_of_int (int (length bs)) :: u32) = int (length bs)"
    using assms(2) by (intro sint_small) (simp_all add: LOGSIZE_def MAXOPBLOCKS_def)
  then show ?thesis using assms by (simp add: head_data_def get32_put_words_other log_cfg_def BSIZE_def)
qed

lemma head_data_blocks:
  assumes "log_cfg st bs s" "length bs \<le> LOGSIZE" "length d = BSIZE"
  shows "get_words 4 (length bs) (head_data s d) = bs"
proof -
  have "take (nat (lh_n s)) (lh_block s) = bs" using assms(1) by (simp add: log_cfg_def)
  then show ?thesis using assms(2,3) get_put_words [of 4 bs "put32 0 (word_of_int (lh_n s)) d"]
    by (simp add: head_data_def LOGSIZE_def MAXOPBLOCKS_def BSIZE_def)
qed

lemma write_head_wrote:
  assumes "bc_ok s" "heldb s = {}" "lg_dev s = ROOTDEV" "lg_start s = st" "st < FSSIZE" "card (dirty s) < NBUF"
  shows "\<exists>t. write_head s = Inr t \<and> wrote [(1, st, head_data s (cur s st))] (dirty s - {st}) s t"
proof -
  obtain x s1 where s1: "bread ROOTDEV st s = Inr (x, s1)" "bc_ok s1" "handle s1 st x" "cur s1 = cur s"
      "disk s1 1 = disk s 1" "dirty s1 = dirty s" "heldb s1 = {st}" "writes s1 = writes s" "mypid s1 = mypid s" "bio.more s1 = bio.more s"
    using bcache.rd_law [OF assms(1), of st] assms by auto
  let ?d = "head_data s (cur s st)"
  have v: "bdata (getb s1 x) = cur s st" "length (cur s st) = BSIZE" using handle_buf [OF s1(2,3)] s1(4) by simp_all
  have h: "head_data s1 (bdata (getb s1 x)) = ?d" using log_fields(7,8) [OF s1(10)] v(1) by (simp add: head_data_def)
  obtain u t where t: "bwrite x (set_data x (\<lambda>_. ?d) s1) = Inr u" "brelse x u = Inr t" "bc_ok t" "cur t = (cur s1)(st := ?d)"
      "disk t 1 = (disk s1 1)(st := ?d)" "dirty t = dirty s1 - {st}" "heldb t = heldb s1 - {st}"
      "writes t = writes s1 @ [(1, st, ?d)]" "(mypid t, bio.more t) = (mypid s1, bio.more s1)"
    using bcache.put_wr_rel [OF s1(2,3) assms(5), of ?d] v(2) by auto
  have "write_head s = Inr t" using t(1,2) s1(1) assms(3,4) h by (simp add: write_head_def)
  then show ?thesis using t s1 by (auto simp: wrote_def)
qed

text \<open>The fields of the log are outside the cache.\<close>

lemma bio_view:
  assumes "bc_lock t = bc_lock s" "bufs t = bufs s" "bnext t = bnext s" "bprev t = bprev s" "ide_lock t = ide_lock s"
    "idequeue t = idequeue s" "havedisk1 t = havedisk1 s" "disk t = disk s" "mypid t = mypid s"
  shows "bc_ok t = bc_ok s" "cur t = cur s" "dirty t = dirty s" "heldb t = heldb s" "handle t = handle s"
proof -
  have g: "getb t = getb s" by (rule ext) (simp add: getb_def assms)
  show "bc_ok t = bc_ok s" unfolding bc_ok_def buf_ok_def g assms ..
  show "cur t = cur s" unfolding cur_def g assms ..
  show "dirty t = dirty s" "heldb t = heldb s" "handle t = handle s"
    by (simp_all add: dirty_def heldb_def handle_def cached_def g fun_eq_iff)
qed

lemma lh_n_view [simp]:
  "bc_ok (s\<lparr>lh_n := n\<rparr>) = bc_ok s" "cur (s\<lparr>lh_n := n\<rparr>) = cur s" "dirty (s\<lparr>lh_n := n\<rparr>) = dirty s" "heldb (s\<lparr>lh_n := n\<rparr>) = heldb s"
  by (rule bio_view; simp)+

definition log_part :: "u32 \<Rightarrow> u32 list \<Rightarrow> disk_img \<Rightarrow> (u32 \<times> u32 \<times> block) list" where
  "log_part st bs c = map (\<lambda>i. (1, st + of_nat i + 1, c (bs ! i))) [0..<length bs]"

definition home_part :: "u32 list \<Rightarrow> disk_img \<Rightarrow> (u32 \<times> u32 \<times> block) list" where
  "home_part bs c = map (\<lambda>i. (1, bs ! i, c (bs ! i))) [0..<length bs]"

lemma clean_length: "bc_ok s \<Longrightarrow> heldb s = {} \<Longrightarrow> n \<notin> dirty s \<Longrightarrow> length (cur s n) = BSIZE"
  using clean_block [of s n] bc_okD(7) [of s] by simp

lemma commit_log_phase:
  assumes ok: "bc_ok s" "heldb s = {}" and cfg: "log_cfg st bs s" and geo: "log_geometry st bs"
    and d: "dirty s = set bs" "length bs < NBUF"
  shows "\<exists>s1 t h. write_log s = Inr s1 \<and> write_head s1 = Inr t \<and> wrote (log_part st bs (cur s) @ [(1, st, h)]) (dirty s) s t \<and>
    sint (get32 0 h) = int (length bs) \<and> get_words 4 (length bs) h = bs"
proof -
  have st: "st < FSSIZE" "st \<in> log_area st" using geo in_log_area [of 0 st] by (simp_all add: log_geometry_def)
  have cd: "card (dirty s) < NBUF" using d geo distinct_card [of bs] by (simp add: log_geometry_def)
  have dis: "dirty s \<inter> log_area st = {}" using d(1) geo by (auto simp: log_geometry_def)
  have n: "nat (lh_n s) = length bs" using cfg by (simp add: log_cfg_def)
  have xs: "set [0..<length bs] \<subseteq> {..<length bs}" by auto
  obtain s1 where s1: "write_log s = Inr s1" "wrote (log_part st bs (cur s)) (dirty s) s s1"
    using write_log_loop_wrote [OF ok cfg geo xs _ dis cd] d(1) n by (auto simp: write_log_def log_part_def)
  have s1d: "bio.more s1 = bio.more s" "dirty s1 = dirty s" "bc_ok s1" "heldb s1 = {}" using s1(2) by (simp_all add: wrote_def)
  have cfg1: "log_cfg st bs s1" using cfg log_cfg_more [OF s1d(1)] by simp
  have c1: "lg_dev s1 = ROOTDEV" "lg_start s1 = st" using cfg1 by (simp_all add: log_cfg_def)
  have nd: "st \<notin> dirty s1" using s1d(2) dis st(2) by auto
  let ?h = "head_data s1 (cur s1 st)"
  obtain t where t: "write_head s1 = Inr t" "wrote [(1, st, ?h)] (dirty s1 - {st}) s1 t"
    using write_head_wrote [OF s1d(3,4) c1 st(1)] s1d(2) cd by auto
  have "dirty s1 - {st} = dirty s" using nd s1d(2) by simp
  then have "wrote (log_part st bs (cur s) @ [(1, st, ?h)]) (dirty s) s t" using wrote_trans [OF s1(2) t(2)] by simp
  moreover have l: "length (cur s1 st) = BSIZE" using clean_length s1d nd by blast
  ultimately show ?thesis
    using s1(1) t(1) head_data_n [OF cfg1 _ l] head_data_blocks [OF cfg1 _ l] geo by (auto simp: log_geometry_def)
qed

lemma log_part_read:
  assumes "log_geometry st bs" "i < length bs"
  shows "apply_ws (log_part st bs c) D (st + of_nat i + 1) = c (bs ! i)"
  unfolding log_part_def
  by (rule apply_ws_map) (use assms log_block_inj in \<open>auto simp: inj_on_def log_geometry_def\<close>)

lemma more_lh_n: "bio.more t = bio.more s \<Longrightarrow> bio.more (t\<lparr>lh_n := n\<rparr>) = bio.more (s\<lparr>lh_n := n\<rparr>)"
  by (cases s, cases t) simp

lemma commit_home_phase:
  assumes ok: "bc_ok s" "heldb s = {}" and cfg: "log_cfg st bs s" and geo: "log_geometry st bs"
    and d: "dirty s = set bs" "length bs < NBUF" and lb: "\<And>i. i < length bs \<Longrightarrow> cur s (st + of_nat i + 1) = c (bs ! i)"
  shows "\<exists>s1 t h. install_trans s = Inr s1 \<and> write_head (s1\<lparr>lh_n := 0\<rparr>) = Inr t \<and>
    writes t = writes s @ home_part bs c @ [(1, st, h)] \<and> disk t 1 = apply_ws (home_part bs c @ [(1, st, h)]) (disk s 1) \<and>
    get32 0 h = 0 \<and> bc_ok t \<and> heldb t = {} \<and> dirty t = {} \<and> lh_n t = 0 \<and> mypid t = mypid s \<and>
    bio.more t = bio.more (s\<lparr>lh_n := 0\<rparr>)"
proof -
  have st: "st < FSSIZE" using geo in_log_area [of 0 st] by (simp add: log_geometry_def)
  have cd: "card (dirty s) < NBUF" using d geo distinct_card [of bs] by (simp add: log_geometry_def)
  have xs: "set [0..<length bs] \<subseteq> {..<length bs}" "\<forall>i\<in>set [0..<length bs]. bs ! i \<in> dirty s" using d(1) by auto
  have di: "dirty s - (\<lambda>i. bs ! i) ` set [0..<length bs] = {}" using d(1) by (simp add: nth_image)
  have w: "map (\<lambda>i. (1, bs ! i, cur s (st + of_nat i + 1))) [0..<length bs] = home_part bs c"
    using lb by (simp add: home_part_def)
  have n: "nat (lh_n s) = length bs" using cfg by (simp add: log_cfg_def)
  obtain s1 where s1: "install_trans s = Inr s1" "wrote (home_part bs c) {} s s1"
    using install_loop_wrote [OF ok cfg geo xs(1) distinct_upt disjI1 [OF xs(2)] cd] unfolding di w install_trans_def n
    by blast
  let ?s1 = "s1\<lparr>lh_n := 0\<rparr>"
  have s1d: "bio.more s1 = bio.more s" "bc_ok s1" "heldb s1 = {}" "dirty s1 = {}" using s1(2) by (simp_all add: wrote_def)
  have c1: "lg_dev ?s1 = ROOTDEV" "lg_start ?s1 = st" using log_fields [OF s1d(1)] cfg by (simp_all add: log_cfg_def)
  obtain t where t: "write_head ?s1 = Inr t" "wrote [(1, st, head_data ?s1 (cur ?s1 st))] (dirty ?s1 - {st}) ?s1 t"
    using write_head_wrote [OF _ _ c1 st] s1d by (auto simp: NBUF_def)
  have "length (cur s1 st) = BSIZE" using clean_length s1d by auto
  then have h: "get32 0 (head_data ?s1 (cur ?s1 st)) = 0" by (simp add: head_data_def BSIZE_def)
  have "lh_n t = 0" using t(2) log_fields(7) [of t ?s1] by (simp add: wrote_def)
  then show ?thesis using s1 t h s1d more_lh_n [OF s1d(1), of 0]
    by (intro exI [of _ s1] exI [of _ t] exI) (auto simp: wrote_def apply_ws_append)
qed

lemma commit_writes:
  assumes ok: "bc_ok s" "heldb s = {}" and cfg: "log_cfg st bs s" and geo: "log_geometry st bs"
    and d: "dirty s = set bs" "length bs < NBUF" and ne: "bs \<noteq> []"
  shows "\<exists>t h h0. commit s = Inr t \<and> sint (get32 0 h) = int (length bs) \<and> get_words 4 (length bs) h = bs \<and> get32 0 h0 = 0 \<and>
    writes t = writes s @ log_part st bs (cur s) @ [(1, st, h)] @ home_part bs (cur s) @ [(1, st, h0)] \<and>
    disk t 1 = apply_ws (log_part st bs (cur s) @ [(1, st, h)] @ home_part bs (cur s) @ [(1, st, h0)]) (disk s 1) \<and>
    bc_ok t \<and> heldb t = {} \<and> dirty t = {} \<and> lh_n t = 0 \<and> mypid t = mypid s \<and> bio.more t = bio.more (s\<lparr>lh_n := 0\<rparr>)"
proof -
  obtain s1 s2 h where p1: "write_log s = Inr s1" "write_head s1 = Inr s2"
      "wrote (log_part st bs (cur s) @ [(1, st, h)]) (dirty s) s s2"
      "sint (get32 0 h) = int (length bs)" "get_words 4 (length bs) h = bs"
    using commit_log_phase [OF assms(1-6)] by blast
  have s2: "bio.more s2 = bio.more s" "dirty s2 = set bs" "bc_ok s2" "heldb s2 = {}" using p1(3) d(1) by (simp_all add: wrote_def)
  have lb: "cur s2 (st + of_nat i + 1) = cur s (bs ! i)" if "i < length bs" for i
    using p1(3) log_block_not_head [OF geometryD(5) [OF geo that]] log_part_read [OF geo that]
    by (simp add: wrote_def apply_ws_append)
  have cfg2: "log_cfg st bs s2" using cfg log_cfg_more [OF s2(1)] by simp
  obtain s3 t h0 where p2: "install_trans s2 = Inr s3" "write_head (s3\<lparr>lh_n := 0\<rparr>) = Inr t"
      "writes t = writes s2 @ home_part bs (cur s) @ [(1, st, h0)]"
      "disk t 1 = apply_ws (home_part bs (cur s) @ [(1, st, h0)]) (disk s2 1)"
      "get32 0 h0 = 0" "bc_ok t" "heldb t = {}" "dirty t = {}" "lh_n t = 0" "mypid t = mypid s2" "bio.more t = bio.more (s2\<lparr>lh_n := 0\<rparr>)"
    using commit_home_phase [OF s2(3,4) cfg2 geo s2(2) d(2) lb] by blast
  have "0 < lh_n s" using cfg ne by (simp add: log_cfg_def)
  then have "commit s = Inr t" using p1(1,2) p2(1,2) by (simp add: commit_def)
  moreover have "mypid t = mypid s" "bio.more t = bio.more (s\<lparr>lh_n := 0\<rparr>)"
    using p2(10,11) p1(3) more_lh_n [OF s2(1)] by (simp_all add: wrote_def)
  ultimately show ?thesis using p1(3-5) p2(3-9)
    by (intro exI [of _ t] exI [of _ h] exI [of _ h0]) (auto simp: wrote_def apply_ws_append)
qed

subsection \<open>Crashes\<close>

lemma replay_head:
  assumes "head_n st D = int (length bs)" "get_words 4 (length bs) (D st) = bs"
  shows "head_blocks st D = bs"
  using assms by (simp add: head_blocks_def)

lemma replay_in:
  assumes "head_blocks st D = bs" "distinct bs" "i < length bs"
  shows "replay st D (bs ! i) = D (st + of_nat i + 1)"
proof -
  have "find_idx (\<lambda>x. x = bs ! i) bs = Some i"
    using assms(2,3) by (auto simp: find_idx_Some nth_eq_iff_index_eq)
  then show ?thesis using assms(1) by (simp add: replay_def)
qed

lemma replay_out: "b \<notin> set (head_blocks st D) \<Longrightarrow> replay st D b = D b"
  using find_idx_None [of "\<lambda>x. x = b" "head_blocks st D"] by (auto simp: replay_def split: option.splits)

lemma log_part_home: "log_geometry st bs \<Longrightarrow> b \<notin> log_area st \<or> b = st \<Longrightarrow> apply_ws (take k (log_part st bs c)) D b = D b"
proof (rule apply_ws_other)
  assume g: "log_geometry st bs" "b \<notin> log_area st \<or> b = st"
  have "m \<noteq> b" if "(u, m, d) \<in> set (log_part st bs c)" for u m d
    using that geometryD(4) [OF g(1)] log_block_not_head [OF geometryD(5) [OF g(1)]] g(2) by (auto simp: log_part_def)
  then show "\<forall>(u, m, d)\<in>set (take k (log_part st bs c)). m \<noteq> b" by (auto dest: in_set_takeD)
qed

lemma home_part_other: "b \<notin> set bs \<Longrightarrow> apply_ws (take k (home_part bs c)) D b = D b"
  by (rule apply_ws_other) (auto simp: home_part_def dest!: in_set_takeD)

lemma home_part_read: "log_geometry st bs \<Longrightarrow> b \<in> set bs \<Longrightarrow> apply_ws (home_part bs c) D b = c b"
proof -
  assume g: "log_geometry st bs" "b \<in> set bs"
  then obtain i where i: "i < length bs" "b = bs ! i" by (auto simp: in_set_conv_nth)
  have "inj_on (\<lambda>i. bs ! i) (set [0..<length bs])"
    using g(1) by (auto simp: inj_on_def log_geometry_def nth_eq_iff_index_eq)
  then show ?thesis unfolding home_part_def i(2) using i(1) by (intro apply_ws_map) auto
qed

text \<open>The disk after a prefix of the writes of a commit, replayed.\<close>

lemma replay_before_header:
  assumes "log_geometry st bs" "head_n st D = 0" "b \<notin> log_area st"
  shows "replay st (apply_ws (take k (log_part st bs c)) D) b = D b"
proof -
  let ?D = "apply_ws (take k (log_part st bs c)) D"
  have "?D st = D st" "?D b = D b" using log_part_home [OF assms(1)] assms(3) by blast+
  then have "head_blocks st ?D = []" "?D b = D b" using assms(2) by (simp_all add: head_blocks_def head_n_def get_words_def)
  then show ?thesis using replay_out [of b st ?D] by simp
qed

lemma replay_after_header:
  assumes geo: "log_geometry st bs" and h: "sint (get32 0 h) = int (length bs)" "get_words 4 (length bs) h = bs"
    and b: "b \<notin> log_area st" and c: "b \<notin> set bs \<Longrightarrow> c b = D b"
  shows "replay st (apply_ws (log_part st bs c @ [(1, st, h)] @ take k (home_part bs c)) D) b = c b"
proof -
  let ?D1 = "apply_ws (log_part st bs c @ [(1, st, h)]) D"
  let ?D = "apply_ws (take k (home_part bs c)) ?D1"
  have keep: "?D m = ?D1 m" if "m \<in> log_area st" for m
    using that geo by (intro home_part_other) (auto simp: log_geometry_def)
  have st: "?D st = h" using keep [of st] in_log_area [of 0 st] by (simp add: apply_ws_append)
  then have hb: "head_blocks st ?D = bs" using h by (simp add: head_blocks_def head_n_def)
  have "replay st ?D b = c b"
  proof (cases "b \<in> set bs")
    case True
    then obtain i where i: "i < length bs" "b = bs ! i" by (auto simp: in_set_conv_nth)
    have "?D (st + of_nat i + 1) = c (bs ! i)"
      using keep [OF geometryD(4) [OF geo i(1)]] log_block_not_head [OF geometryD(5) [OF geo i(1)]] log_part_read [OF geo i(1)]
      by (simp add: apply_ws_append)
    then show ?thesis using replay_in [OF hb _ i(1)] geo i(2) by (simp add: log_geometry_def)
  next
    case False
    have "b \<noteq> st" using b in_log_area [of 0 st] by auto
    then have "?D b = D b"
      using home_part_other [OF False] log_part_home [OF geo disjI1 [OF b], of "length (log_part st bs c)" c D] by (simp add: apply_ws_append)
    then show ?thesis using replay_out [of b st ?D] hb False c by simp
  qed
  then show ?thesis by (simp add: apply_ws_append)
qed

text \<open>The header on the disk names, at every moment of a commit, no block or the blocks of the transaction.\<close>

lemma commit_heads:
  assumes geo: "log_geometry st bs" and hn: "head_n st D = 0" and h: "sint (get32 0 h) = int (length bs)" and h0: "get32 0 h0 = 0"
  shows "head_n st (apply_ws (take k (log_part st bs c @ [(1, st, h)] @ home_part bs c @ [(1, st, h0)])) D) \<in> {0, int (length bs)}"
    (is "head_n st (apply_ws (take k ?ws) D) \<in> _")
proof -
  let ?L = "log_part st bs c" and ?H = "home_part bs c"
  have st: "st \<notin> set bs" using geo in_log_area [of 0 st] by (auto simp: log_geometry_def)
  consider "k \<le> length ?L" | "length ?L < k" "k < length ?ws" | "length ?ws \<le> k" by linarith
  then show ?thesis
  proof cases
    case 1
    then show ?thesis using log_part_home [OF geo, of st k c D] hn by (simp add: head_n_def)
  next
    case 2
    then have "take k ?ws = ?L @ [(1, st, h)] @ take (k - length ?L - 1) ?H" by (cases "k - length ?L") auto
    then show ?thesis using home_part_other [OF st] h by (simp add: apply_ws_append head_n_def)
  next
    case 3
    then show ?thesis using h0 by (simp add: apply_ws_append head_n_def)
  qed
qed

definition log_ready :: "u32 \<Rightarrow> u32 list \<Rightarrow> 'm log_st_scheme \<Rightarrow> bool" where
  "log_ready st bs s \<longleftrightarrow> bc_ok s \<and> heldb s = {} \<and> log_cfg st bs s \<and> log_geometry st bs \<and> dirty s = set bs \<and> length bs < NBUF \<and>
     head_n st (disk s 1) = 0"

lemma head_view:
  "bc_ok (s\<lparr>lh_n := n, lh_block := bs\<rparr>) = bc_ok s" "cur (s\<lparr>lh_n := n, lh_block := bs\<rparr>) = cur s"
  "dirty (s\<lparr>lh_n := n, lh_block := bs\<rparr>) = dirty s" "heldb (s\<lparr>lh_n := n, lh_block := bs\<rparr>) = heldb s"
  "handle (s\<lparr>lh_n := n, lh_block := bs\<rparr>) = handle s"
  by (rule bio_view; simp)+

lemma read_head_cfg:
  assumes ok: "bc_ok s" "heldb s = {}" "dirty s = {}" and l: "lg_dev s = ROOTDEV" "lg_start s = st" "st < FSSIZE"
    and b: "length (lh_block s) = LOGSIZE" and n: "0 \<le> head_n st (disk s 1)" "head_n st (disk s 1) \<le> int LOGSIZE"
  shows "\<exists>t. read_head s = Inr t \<and> bc_ok t \<and> heldb t = {} \<and> dirty t = {} \<and> cur t = cur s \<and> disk t 1 = disk s 1 \<and>
    writes t = writes s \<and> log_cfg st (head_blocks st (disk s 1)) t"
proof -
  let ?D = "disk s 1"
  have cd: "cur s m = ?D m" for m using clean_block [OF ok(1)] ok(2,3) by simp
  obtain x s1 where s1: "bread ROOTDEV st s = Inr (x, s1)" "bc_ok s1" "handle s1 st x" "cur s1 = cur s"
      "disk s1 1 = disk s 1" "dirty s1 = {}" "heldb s1 = {st}" "writes s1 = writes s" "bio.more s1 = bio.more s"
    using bcache.rd_law [OF ok(1), of st] ok l(3) by (auto simp: NBUF_def)
  let ?bs = "head_blocks st ?D"
  let ?u = "s1\<lparr>lh_n := head_n st ?D, lh_block := ?bs @ drop (length ?bs) (lh_block s1)\<rparr>"
  have d: "bdata (getb s1 x) = ?D st" using handle_buf [OF s1(2,3)] s1(4) cd by simp
  have len: "length ?bs = nat (head_n st ?D)" by (simp add: head_blocks_def)
  obtain t where t: "brelse x ?u = Inr t" "bc_ok t" "cur t = cur s1" "disk t 1 = disk s1 1" "dirty t = {}" "heldb t = {}"
      "writes t = writes s1" "bio.more t = bio.more ?u"
    using brelse_releases [of ?u st x] s1 cd by (auto simp: released_def head_view)
  have "read_head s = Inr t"
    using s1(1) l(1,2) n(2) t(1) d len by (simp add: read_head_def head_n_def head_blocks_def Let_def)
  moreover have "log_cfg st ?bs t"
    using log_fields [OF t(8)] log_fields [OF s1(9)] l(1,2) b n len by (simp add: log_cfg_def)
  ultimately show ?thesis using t s1 by auto
qed

lemma replay_cong:
  assumes "D st = E st" "\<And>i. i < length (head_blocks st D) \<Longrightarrow> D (st + of_nat i + 1) = E (st + of_nat i + 1)"
    and "b \<notin> set (head_blocks st D) \<Longrightarrow> D b = E b"
  shows "replay st D b = replay st E b"
proof -
  have hb: "head_blocks st E = head_blocks st D" using assms(1) by (simp add: head_blocks_def head_n_def)
  show ?thesis
  proof (cases "find_idx (\<lambda>x. x = b) (head_blocks st D)")
    case None
    then have "b \<notin> set (head_blocks st D)" by (auto simp: find_idx_None in_set_conv_nth)
    then show ?thesis using None hb assms(3) by (simp add: replay_def)
  next
    case (Some i)
    then have "i < length (head_blocks st D)" by (simp add: find_idx_Some)
    then show ?thesis using Some hb assms(2) by (simp add: replay_def)
  qed
qed

definition log_boot :: "u32 \<Rightarrow> 'm log_st_scheme \<Rightarrow> bool" where
  "log_boot st s \<longleftrightarrow> bc_ok s \<and> heldb s = {} \<and> dirty s = {} \<and> lg_dev s = ROOTDEV \<and> lg_start s = st \<and>
     length (lh_block s) = LOGSIZE \<and> 0 \<le> head_n st (disk s 1) \<and> head_n st (disk s 1) \<le> int LOGSIZE \<and>
     log_geometry st (head_blocks st (disk s 1))"

lemma recover_writes:
  assumes "log_boot st s"
  defines "D \<equiv> disk s 1" and "bs \<equiv> head_blocks st (disk s 1)"
  shows "\<exists>t h. recover_from_log s = Inr t \<and> get32 0 h = 0 \<and> writes t = writes s @ home_part bs (replay st D) @ [(1, st, h)] \<and>
    disk t 1 = apply_ws (home_part bs (replay st D) @ [(1, st, h)]) D \<and> lh_n t = 0"
proof -
  have ok: "bc_ok s" "heldb s = {}" "dirty s = {}" and l: "lg_dev s = ROOTDEV" "lg_start s = st" and geo: "log_geometry st bs"
    and b: "length (lh_block s) = LOGSIZE" "0 \<le> head_n st D" "head_n st D \<le> int LOGSIZE"
    using assms(1) by (auto simp: log_boot_def D_def bs_def)
  have st: "st < FSSIZE" using geo in_log_area [of 0 st] by (simp add: log_geometry_def)
  obtain s1 where s1: "read_head s = Inr s1" "bc_ok s1" "heldb s1 = {}" "dirty s1 = {}" "cur s1 = cur s" "disk s1 1 = D"
      "writes s1 = writes s" "log_cfg st bs s1"
    using read_head_cfg [OF ok l st] b unfolding D_def bs_def by blast
  have cd: "cur s1 m = D m" for m using clean_block [OF s1(2)] s1(3,4,6) by simp
  let ?H = "home_part bs (replay st D)"
  have w: "map (\<lambda>i. (1, bs ! i, cur s1 (st + of_nat i + 1))) [0..<length bs] = ?H"
    using replay_in [of st D bs] geo cd by (simp add: home_part_def log_geometry_def D_def bs_def)
  have n: "nat (lh_n s1) = length bs" using s1(8) by (simp add: log_cfg_def)
  have xs: "set [0..<length bs] \<subseteq> {..<length bs}" by auto
  have cap: "card (dirty s1) + 1 < NBUF" "card (dirty s1) < NBUF" using s1(4) by (simp_all add: NBUF_def)
  have "\<exists>t. install_loop [0..<length bs] s1 = Inr t \<and> wrote ?H {} s1 t"
    using install_loop_wrote [OF s1(2,3,8) geo xs distinct_upt disjI2 [OF cap(1)] cap(2)] unfolding w s1(4) by simp
  then obtain s2 where s2: "install_trans s1 = Inr s2" "wrote ?H {} s1 s2" unfolding install_trans_def n by blast
  let ?s2 = "s2\<lparr>lh_n := 0\<rparr>"
  have s2d: "bio.more s2 = bio.more s1" "bc_ok s2" "heldb s2 = {}" "dirty s2 = {}" using s2(2) by (simp_all add: wrote_def)
  have c2: "lg_dev ?s2 = ROOTDEV" "lg_start ?s2 = st" using log_fields [OF s2d(1)] s1(8) by (simp_all add: log_cfg_def)
  let ?h = "head_data ?s2 (cur ?s2 st)"
  obtain t where t: "write_head ?s2 = Inr t" "wrote [(1, st, ?h)] (dirty ?s2 - {st}) ?s2 t"
    using write_head_wrote [OF _ _ c2 st] s2d by (auto simp: NBUF_def)
  have "length (cur s2 st) = BSIZE" using clean_length s2d by auto
  then have "get32 0 ?h = 0" by (simp add: head_data_def BSIZE_def)
  moreover have "recover_from_log s = Inr t" using s1(1) s2(1) t(1) by (simp add: recover_from_log_def)
  moreover have "lh_n t = 0" using t(2) log_fields(7) [of t ?s2] by (simp add: wrote_def)
  ultimately show ?thesis using t(2) s2(2) s1(6,7) by (auto simp: wrote_def apply_ws_append)
qed

end
