(* ===== verification/XvLogProps.thy ===== *)
theory XvLogProps
  imports XvLog
begin

text \<open>
  What the buffer cache and the log promise: reads show the latest contents, commits are atomic with
  respect to crashes, recovery completes them and may be repeated, and how far the space reserved
  by \<open>begin_op\<close> goes.
\<close>

subsection \<open>An example state\<close>

text \<open>A cache with block 100 modified in memory, over a disk of zeroes with the log at block 2.\<close>

definition zero_block :: block where "zero_block = replicate BSIZE 0"

definition free_buf :: buf where
  "free_buf = \<lparr>bvalid = False, bdirty = False, bdev = 0, blockno = 0, block_lk = initsleeplock, refcnt = 0, bdata = zero_block\<rparr>"

definition dirty_buf :: buf where
  "dirty_buf = free_buf\<lparr>bvalid := True, bdirty := True, bdev := ROOTDEV, blockno := 100, bdata := replicate BSIZE 7\<rparr>"

lemma buf_fields [simp]:
  "\<not> bvalid free_buf" "\<not> bdirty free_buf" "bdev free_buf = 0" "blockno free_buf = 0" "block_lk free_buf = initsleeplock"
  "refcnt free_buf = 0" "bvalid dirty_buf" "bdirty dirty_buf" "bdev dirty_buf = ROOTDEV" "blockno dirty_buf = 100"
  "block_lk dirty_buf = initsleeplock" "refcnt dirty_buf = 0" "bdata dirty_buf = replicate BSIZE 7" "free_buf \<noteq> dirty_buf"
  by (simp_all add: free_buf_def dirty_buf_def)

definition raw_log :: "buf \<Rightarrow> u32 list \<Rightarrow> log_st" where
  "raw_log x bs = \<lparr>bc_lock = False, bufs = x # replicate 29 free_buf, bnext = (\<lambda>_. 0), bprev = (\<lambda>_. 0), ide_lock = False,
     idequeue = [], havedisk1 = True, disk = (\<lambda>_ _. zero_block), writes = [], woken = [], mypid = 1,
     lg_lock = False, lg_start = 2, lg_size = 30, outstanding = 0, committing = False, lg_dev = ROOTDEV,
     lh_n = int (length bs), lh_block = bs @ replicate (LOGSIZE - length bs) 0\<rparr>"

definition log_example :: "buf \<Rightarrow> u32 list \<Rightarrow> log_st" where
  "log_example x bs = binit (raw_log x bs)"

lemma binit_fields:
  fixes s :: "'m bio_scheme"
  assumes "\<forall>x\<in>set (bufs s). block_lk x = initsleeplock" "\<not> bc_lock s"
  shows "\<exists>nx pv. binit s = s\<lparr>bnext := nx, bprev := pv\<rparr>"
proof -
  let ?f = "\<lambda>b s. link_front b (setb b (\<lambda>x. x\<lparr>block_lk := initsleeplock\<rparr>) s)"
  have "\<exists>nx pv. fold ?f ns u = u\<lparr>bnext := nx, bprev := pv\<rparr>"
    if "\<forall>x\<in>set (bufs u). block_lk x = initsleeplock" for ns and u :: "'m bio_scheme"
    using that
  proof (induction ns arbitrary: u)
    case Nil
    then show ?case by (intro exI [of _ "bnext u"] exI [of _ "bprev u"]) simp
  next
    case (Cons n ns)
    have "(bufs u)[n := (bufs u ! n)\<lparr>block_lk := initsleeplock\<rparr>] = bufs u"
    proof (cases "n < length (bufs u)")
      case True
      then have "(bufs u ! n)\<lparr>block_lk := initsleeplock\<rparr> = bufs u ! n" using Cons.prems nth_mem [OF True] by simp
      then show ?thesis by simp
    qed (simp add: list_update_beyond)
    then have "?f n u = u\<lparr>bnext := (bnext u)(n := bnext u NBUF, NBUF := n), bprev := (bprev u)(n := NBUF, bnext u NBUF := n)\<rparr>"
      by (cases u) (auto simp: setb_def link_front_def Let_def)
    then obtain nx pv where e: "?f n u = u\<lparr>bnext := nx, bprev := pv\<rparr>" by blast
    show ?case using Cons.IH [of "u\<lparr>bnext := nx, bprev := pv\<rparr>"] Cons.prems e by auto
  qed
  from this [of "s\<lparr>bc_lock := False, bprev := (bprev s)(NBUF := NBUF), bnext := (bnext s)(NBUF := NBUF)\<rparr>" "[0..<NBUF]"]
  show ?thesis using assms by (cases s) (auto simp: binit_def)
qed

lemma log_example_eq:
  assumes "block_lk x = initsleeplock"
  shows "\<exists>nx pv. log_example x bs = (raw_log x bs)\<lparr>bnext := nx, bprev := pv\<rparr> \<and> dll nx pv (rev [0..<NBUF])"
proof -
  obtain nx pv where e: "log_example x bs = (raw_log x bs)\<lparr>bnext := nx, bprev := pv\<rparr>"
    using binit_fields [of "raw_log x bs"] assms by (auto simp: log_example_def raw_log_def free_buf_def)
  moreover have "dll nx pv (rev [0..<NBUF])" using binit_dll [of "raw_log x bs"] e by (simp add: log_example_def)
  ultimately show ?thesis by blast
qed

lemma log_example_buf:
  assumes "block_lk x = initsleeplock" "b < NBUF"
  shows "getb (log_example x bs) b = (if b = 0 then x else free_buf)"
  using log_example_eq [OF assms(1), of bs] assms(2) by (auto simp: getb_def raw_log_def NBUF_def nth_Cons')

lemma log_example_ok:
  assumes "x = free_buf \<or> x = dirty_buf"
  shows "bc_ok (log_example x bs)" "heldb (log_example x bs) = {}" "dirty (log_example x bs) = (if x = dirty_buf then {100} else {})"
proof -
  let ?s = "log_example x bs"
  have lk: "block_lk x = initsleeplock" using assms by (auto simp: free_buf_def dirty_buf_def)
  obtain nx pv where e: "?s = (raw_log x bs)\<lparr>bnext := nx, bprev := pv\<rparr>" "dll nx pv (rev [0..<NBUF])"
    using log_example_eq [OF lk] by blast
  note g = log_example_buf [OF lk, of _ bs]
  have iu: "in_use dirty_buf" "\<not> in_use free_buf" by (simp_all add: in_use_def ROOTDEV_def)
  have c: "cached ?s n b \<longleftrightarrow> b = 0 \<and> x = dirty_buf \<and> n = 100" for n b
  proof (cases "b < NBUF")
    case True
    then show ?thesis unfolding cached_def g [OF True] using assms iu by auto
  qed (auto simp: cached_def NBUF_def)
  show "bc_ok ?s"
  proof (rule bc_okI)
    show "buf_ok ?s (getb ?s b)" if "b < NBUF" for b
      using assms iu unfolding g [OF that] by (auto simp: buf_ok_def)
    show "\<exists>xs. dll (bnext ?s) (bprev ?s) xs \<and> set xs = {..<NBUF}" using e by (intro exI [of _ "rev [0..<NBUF]"]) auto
  qed (use e(1) c in \<open>auto simp: raw_log_def NBUF_def zero_block_def\<close>)
  have g0: "getb ?s 0 = x" using g [of 0] by (simp add: NBUF_def)
  show "heldb ?s = {}" using assms by (auto simp: heldb_def c g0)
  show "dirty ?s = (if x = dirty_buf then {100} else {})" by (auto simp: dirty_def c g0)
qed

lemma log_area_2: "b \<in> log_area 2 \<longleftrightarrow> 2 \<le> b \<and> b < 32"
proof
  assume "b \<in> log_area 2"
  then obtain i where i: "i < 30" "b = 2 + of_nat i" by (auto simp: log_area_def LOGSIZE_def MAXOPBLOCKS_def)
  then have "unat b = 2 + i" by (simp add: unat_word_ariths unat_of_nat take_bit_nat_eq_self)
  then show "2 \<le> b \<and> b < 32" using i(1) by (simp add: word_le_nat_alt word_less_nat_alt)
next
  assume a: "2 \<le> b \<and> b < 32"
  then have u: "2 \<le> unat b" "unat b < 32" by (simp_all add: word_le_nat_alt word_less_nat_alt)
  then have "unat b - 2 < 30" "b = 2 + of_nat (unat b - 2)" by (linarith, simp add: of_nat_diff)
  then show "b \<in> log_area 2" by (auto simp: log_area_def LOGSIZE_def MAXOPBLOCKS_def)
qed

lemma geometry_2: "log_geometry 2 [100]" "log_geometry 2 []"
proof -
  have "b < FSSIZE" if "b \<in> log_area 2" for b
    using that by (simp add: log_area_2 FSSIZE_def word_le_nat_alt word_less_nat_alt)
  then show "log_geometry 2 [100]" "log_geometry 2 []"
    by (simp_all add: log_geometry_def log_area_2 FSSIZE_def LOGSIZE_def MAXOPBLOCKS_def)
qed

subsection \<open>The cache\<close>

text \<open>C31: as long as fewer than \<open>NBUF\<close> buffers are held or dirty, reading a block that is not held succeeds and
  shows its latest contents, and releasing it again leaves the contents of every block, the disk, the
  pinned blocks and the held blocks as they were.\<close>

theorem bread_current:
  assumes "bc_ok s" and "n \<notin> heldb s" and "n < FSSIZE" and "card (dirty s \<union> heldb s) < NBUF"
  shows "\<exists>b u t. bread ROOTDEV n s = Inr (b, u) \<and> bdata (getb u b) = cur s n \<and> brelse b u = Inr t \<and> bc_ok t \<and> cur t = cur s \<and>
    disk t 1 = disk s 1 \<and> dirty t = dirty s \<and> heldb t = heldb s \<and> writes t = writes s"
  using bcache.rd_rel [OF assms(1-3) disjI2 [OF assms(4)]] by blast

theorem bread_current_witness:
  "\<exists>b u. bread ROOTDEV 100 (log_example dirty_buf [100]) = Inr (b, u) \<and> bdata (getb u b) = replicate 512 7"
proof -
  let ?s = "log_example dirty_buf [100]"
  have ok: "bc_ok ?s" "heldb ?s = {}" "dirty ?s = {100}" using log_example_ok [of dirty_buf "[100]"] by simp_all
  have g: "getb ?s 0 = dirty_buf" using log_example_buf [of dirty_buf 0 "[100]"] by (simp add: dirty_buf_def free_buf_def NBUF_def)
  have c: "cached ?s 100 0" "bvalid (getb ?s 0)" unfolding cached_def g by (simp_all add: in_use_def NBUF_def)
  have "cur ?s 100 = replicate 512 7"
    using cur_cached [OF bc_okD(8) [OF ok(1)] c] g by (simp add: BSIZE_def)
  then show ?thesis using bread_current [OF ok(1), of 100] ok(2,3) by (auto simp: FSSIZE_def NBUF_def)
qed

subsection \<open>Crashes\<close>

lemma commit_atomic:
  assumes "log_ready st bs s" and "bs \<noteq> []"
  shows "\<exists>t ws. commit s = Inr t \<and> (bc_ok t \<and> heldb t = {} \<and> mypid t = mypid s \<and> bio.more t = bio.more (s\<lparr>lh_n := 0\<rparr>)) \<and> writes t = writes s @ ws \<and> disk t 1 = apply_ws ws (disk s 1) \<and>
    dirty t = {} \<and> lh_n t = 0 \<and> head_n st (disk t 1) = 0 \<and> (\<forall>b. b \<notin> log_area st \<longrightarrow> disk t 1 b = cur s b) \<and>
    (\<forall>k. (\<forall>b. b \<notin> log_area st \<longrightarrow> replay st (apply_ws (take k ws) (disk s 1)) b = disk s 1 b) \<or>
         (\<forall>b. b \<notin> log_area st \<longrightarrow> replay st (apply_ws (take k ws) (disk s 1)) b = cur s b)) \<and>
    (\<forall>k. head_n st (apply_ws (take k ws) (disk s 1)) \<in> {0, int (length bs)})"
proof -
  have r: "bc_ok s" "heldb s = {}" "log_cfg st bs s" and geo: "log_geometry st bs" and d: "dirty s = set bs" "length bs < NBUF"
    and hn: "head_n st (disk s 1) = 0" using assms(1) by (auto simp: log_ready_def)
  obtain t h h0 where t: "commit s = Inr t" "sint (get32 0 h) = int (length bs)" "get_words 4 (length bs) h = bs" "get32 0 h0 = 0"
      "writes t = writes s @ log_part st bs (cur s) @ [(1, st, h)] @ home_part bs (cur s) @ [(1, st, h0)]"
      "disk t 1 = apply_ws (log_part st bs (cur s) @ [(1, st, h)] @ home_part bs (cur s) @ [(1, st, h0)]) (disk s 1)"
      "dirty t = {}" "lh_n t = 0" "bc_ok t \<and> heldb t = {} \<and> mypid t = mypid s \<and> bio.more t = bio.more (s\<lparr>lh_n := 0\<rparr>)"
    using commit_writes [OF r geo d assms(2)] by blast
  let ?L = "log_part st bs (cur s)" and ?H = "home_part bs (cur s)"
  let ?ws = "?L @ [(1, st, h)] @ ?H @ [(1, st, h0)]"
  have clean: "cur s b = disk s 1 b" if "b \<notin> set bs" for b using clean_block [OF r(1), of b] r(2) d(1) that by simp
  have st: "disk t 1 st = h0" unfolding t(6) by (simp add: apply_ws_append)
  have home: "disk t 1 b = cur s b" if "b \<notin> log_area st" for b
  proof -
    have "b \<noteq> st" using that in_log_area [of 0 st] by auto
    then show ?thesis using home_part_read [OF geo, of b "cur s"] home_part_other [of b bs "length bs" "cur s"]
        log_part_home [OF geo disjI1 [OF that], of "length bs" "cur s"] clean [of b]
      unfolding t(6) by (cases "b \<in> set bs") (simp_all add: apply_ws_append log_part_def home_part_def)
  qed
  have hb: "head_blocks st (disk t 1) = []" "head_n st (disk t 1) = 0" using st t(4) by (simp_all add: head_blocks_def head_n_def get_words_def)
  have "(\<forall>b. b \<notin> log_area st \<longrightarrow> replay st (apply_ws (take k ?ws) (disk s 1)) b = disk s 1 b) \<or>
      (\<forall>b. b \<notin> log_area st \<longrightarrow> replay st (apply_ws (take k ?ws) (disk s 1)) b = cur s b)" for k
  proof -
    consider "k \<le> length ?L" | "length ?L < k" "k < length ?ws" | "length ?ws \<le> k" by linarith
    then show ?thesis
    proof cases
      case 1
      then show ?thesis using replay_before_header [OF geo hn] by simp
    next
      case 2
      then have "take k ?ws = ?L @ [(1, st, h)] @ take (k - length ?L - 1) ?H" by (cases "k - length ?L") auto
      moreover have "replay st (apply_ws (?L @ [(1, st, h)] @ take j ?H) (disk s 1)) b = cur s b" if "b \<notin> log_area st" for b j
        by (rule replay_after_header [OF geo t(2,3) that clean])
      ultimately show ?thesis by simp
    next
      case 3
      then show ?thesis using home hb replay_out [of _ st "disk t 1"] unfolding t(6) by simp
    qed
  qed
  moreover have "\<forall>k. head_n st (apply_ws (take k ?ws) (disk s 1)) \<in> {0, int (length bs)}"
    using commit_heads [OF geo hn t(2,4)] by blast
  ultimately show ?thesis using t home hb by blast
qed

text \<open>C1: \<open>commit\<close> of a transaction is atomic with respect to crashes: it returns with every block of the
  transaction at its home location and the log empty, and after a crash at any point of its disk
  writes the replayed disk shows, outside the log, either exactly the blocks before the transaction or
  exactly the blocks after it.\<close>

theorem commit_crash_atomic:
  assumes "log_ready st bs s" and "bs \<noteq> []"
  shows "\<exists>t ws. commit s = Inr t \<and> writes t = writes s @ ws \<and> disk t 1 = apply_ws ws (disk s 1) \<and>
    dirty t = {} \<and> lh_n t = 0 \<and> head_n st (disk t 1) = 0 \<and> (\<forall>b. b \<notin> log_area st \<longrightarrow> disk t 1 b = cur s b) \<and>
    (\<forall>k. (\<forall>b. b \<notin> log_area st \<longrightarrow> replay st (apply_ws (take k ws) (disk s 1)) b = disk s 1 b) \<or>
         (\<forall>b. b \<notin> log_area st \<longrightarrow> replay st (apply_ws (take k ws) (disk s 1)) b = cur s b))"
  using commit_atomic [OF assms] by blast

theorem commit_crash_atomic_witness:
  "\<exists>t. commit (log_example dirty_buf [100]) = Inr t \<and> disk t 1 100 = replicate 512 7 \<and> lh_n t = 0"
proof -
  let ?s = "log_example dirty_buf [100]"
  have ok: "bc_ok ?s" "heldb ?s = {}" "dirty ?s = {100}" using log_example_ok [of dirty_buf "[100]"] by simp_all
  have lk: "block_lk dirty_buf = initsleeplock" by (simp add: dirty_buf_def free_buf_def)
  have g: "getb ?s 0 = dirty_buf" using log_example_buf [OF lk, of 0] by (simp add: NBUF_def)
  have c: "cached ?s 100 0" "bvalid (getb ?s 0)" unfolding cached_def g by (simp_all add: in_use_def NBUF_def)
  have cur: "cur ?s 100 = replicate 512 7"
    using cur_cached [OF bc_okD(8) [OF ok(1)] c] g by (simp add: BSIZE_def)
  have "log_cfg 2 [100] ?s" "head_n 2 (disk ?s 1) = 0"
    using log_example_eq [OF lk, of "[100]"]
    by (auto simp: log_cfg_def raw_log_def LOGSIZE_def MAXOPBLOCKS_def head_n_def get32_def zero_block_def BSIZE_def)
  then have "log_ready 2 [100] ?s" using ok geometry_2 by (simp add: log_ready_def NBUF_def)
  then show ?thesis using commit_crash_atomic [of 2 "[100]" ?s] cur by (auto simp: log_area_2)
qed

text \<open>C11: recovery at boot makes the disk the replayed one and empties the log, and it may itself be
  interrupted: after a crash at any point of its writes a further recovery leads to the same disk.\<close>

theorem recover_replays:
  assumes "log_boot st s"
  shows "\<exists>t ws. recover_from_log s = Inr t \<and> writes t = writes s @ ws \<and> disk t 1 = apply_ws ws (disk s 1) \<and> lh_n t = 0 \<and>
    head_n st (disk t 1) = 0 \<and> (\<forall>b. b \<notin> log_area st \<longrightarrow> disk t 1 b = replay st (disk s 1) b) \<and>
    (\<forall>k b. b \<notin> log_area st \<longrightarrow> replay st (apply_ws (take k ws) (disk s 1)) b = replay st (disk s 1) b)"
proof -
  let ?D = "disk s 1" and ?bs = "head_blocks st (disk s 1)"
  have geo: "log_geometry st ?bs" using assms by (simp add: log_boot_def)
  have st: "st \<in> log_area st" using in_log_area [of 0 st] by simp
  let ?H = "home_part ?bs (replay st ?D)"
  obtain t h where t: "recover_from_log s = Inr t" "get32 0 h = 0" "writes t = writes s @ ?H @ [(1, st, h)]"
      "disk t 1 = apply_ws (?H @ [(1, st, h)]) ?D" "lh_n t = 0"
    using recover_writes [OF assms] by blast
  let ?ws = "?H @ [(1, st, h)]"
  have hn: "head_n st (disk t 1) = 0" "head_blocks st (disk t 1) = []"
    unfolding t(4) using t(2) by (simp_all add: head_n_def head_blocks_def get_words_def apply_ws_append)
  have home: "disk t 1 b = replay st ?D b" if "b \<notin> log_area st" for b
  proof -
    have "b \<noteq> st" using that st by auto
    then show ?thesis using home_part_read [OF geo, of b "replay st ?D" ?D] home_part_other [of b ?bs "length ?H" "replay st ?D" ?D]
        replay_out [of b st ?D] unfolding t(4) by (cases "b \<in> set ?bs") (simp_all add: apply_ws_append)
  qed
  have "replay st (apply_ws (take k ?ws) ?D) b = replay st ?D b" if "b \<notin> log_area st" for k b
  proof (cases "k \<le> length ?H")
    case True
    let ?E = "apply_ws (take k ?H) ?D"
    have keep: "?E m = ?D m" if "m \<in> log_area st" for m
      using that geo by (intro home_part_other) (auto simp: log_geometry_def)
    have "replay st ?D b = replay st ?E b"
      by (rule replay_cong) (use keep st geometryD(4) [OF geo] home_part_other in auto)
    then show ?thesis using True by simp
  next
    case False
    then have "apply_ws (take k ?ws) ?D = disk t 1" unfolding t(4) by simp
    then show ?thesis using home [OF that] replay_out [of b st "disk t 1"] hn(2) by simp
  qed
  then show ?thesis using t hn(1) home by blast
qed

theorem recover_replays_witness:
  "\<exists>t. recover_from_log (log_example free_buf []) = Inr t \<and> lh_n t = 0"
proof -
  let ?s = "log_example free_buf []"
  have "free_buf \<noteq> dirty_buf" by (simp add: dirty_buf_def free_buf_def)
  then have ok: "bc_ok ?s" "heldb ?s = {}" "dirty ?s = {}" using log_example_ok [of free_buf "[]"] by simp_all
  have h: "head_n 2 (disk ?s 1) = 0" "lg_dev ?s = ROOTDEV" "lg_start ?s = 2" "length (lh_block ?s) = LOGSIZE"
    using log_example_eq [of free_buf "[]"]
    by (auto simp: raw_log_def head_n_def get32_def zero_block_def BSIZE_def free_buf_def)
  then have "head_blocks 2 (disk ?s 1) = []" by (simp add: head_blocks_def get_words_def)
  then have "log_boot 2 ?s" using ok h geometry_2 by (simp add: log_boot_def)
  then show ?thesis using recover_replays [of 2 ?s] by blast
qed

subsection \<open>Space in the log\<close>

text \<open>\<open>begin_op\<close> only admits an operation when the blocks logged so far and ten for every operation in
  progress fit into \<open>LOGSIZE\<close>.  But in a log of the size \<open>mkfs\<close> makes, \<open>LOGSIZE\<close> blocks of which the first holds the
  header, \<open>log_write\<close> panics at the last block that was reserved.\<close>

theorem log_space_overcommitted:
  "(begin_op s = Inr t \<longrightarrow> lh_n t = lh_n s \<and> outstanding t = outstanding s + 1 \<and>
      lh_n t + outstanding t * int MAXOPBLOCKS \<le> int LOGSIZE) \<and>
   (lg_size u = of_nat LOGSIZE \<and> lh_n u = int LOGSIZE - 1 \<longrightarrow> log_write b u = Inl ''too big a transaction'')"
proof -
  have "sint (of_nat LOGSIZE :: u32) = int LOGSIZE"
    using sint_small [of "int LOGSIZE"] by (simp add: LOGSIZE_def MAXOPBLOCKS_def)
  then show ?thesis by (auto simp: begin_op_def lg_acquire_def lg_release_def res_simps log_write_def split: if_splits)
qed

theorem log_space_overcommitted_witness:
  "\<exists>(s::log_st) t. begin_op s = Inr t \<and> outstanding t = 3 \<and> log_write 0 (t\<lparr>lh_n := 29\<rparr>) = Inl ''too big a transaction''"
proof -
  let ?s = "(raw_log free_buf [])\<lparr>outstanding := 2\<rparr>"
  let ?t = "?s\<lparr>outstanding := 3\<rparr>"
  have b: "begin_op ?s = Inr ?t" by (simp add: begin_op_def lg_acquire_def lg_release_def raw_log_def LOGSIZE_def MAXOPBLOCKS_def)
  have "lg_size (?t\<lparr>lh_n := 29\<rparr>) = of_nat LOGSIZE" by (simp add: raw_log_def LOGSIZE_def MAXOPBLOCKS_def)
  then have "log_write 0 (?t\<lparr>lh_n := 29\<rparr>) = Inl ''too big a transaction''"
    using log_space_overcommitted [of ?s ?t "?t\<lparr>lh_n := 29\<rparr>" 0] by (simp add: LOGSIZE_def MAXOPBLOCKS_def)
  moreover have "outstanding ?t = 3" by simp
  ultimately show ?thesis using b by blast
qed

end
