(* ===== verification/XvFs.thy ===== *)
theory XvFs
  imports XvLog
begin

text \<open>
  The file system of \<^verbatim>\<open>lab-2/fs.c\<close>: block allocation, inodes, file contents, directories and paths, on the
  log of \<open>XvLog\<close>.  An inode pointer is an index into the inode cache; user memory is a list of bytes read or
  written by the call; strings are the bytes before the terminating zero.  The devices behind
  \<open>devsw\<close> are an argument.
\<close>

definition NINODE :: nat where "NINODE = 50"
definition NDEV :: int where "NDEV = 10"
definition T_DIR :: u16 where "T_DIR = 1"
definition T_FILE :: u16 where "T_FILE = 2"
definition T_DEV :: u16 where "T_DEV = 3"

record inode =
  i_dev :: u32
  i_inum :: u32
  i_ref :: int
  i_lock :: sleeplock
  i_valid :: bool
  i_type :: u16
  i_major :: u16
  i_minor :: u16
  i_nlink :: u16
  i_size :: u32
  i_addrs :: "u32 list"

record fs_st = log_st +
  ic_lock :: bool
  inodes :: "inode list"
  sb :: superblock
  cwd_ip :: nat

record 'm devsw =
  dev_read :: "(nat \<Rightarrow> u32 \<Rightarrow> 'm fs_st_scheme \<Rightarrow> (int \<times> u8 list \<times> 'm fs_st_scheme) res) option"
  dev_write :: "(nat \<Rightarrow> u8 list \<Rightarrow> u32 \<Rightarrow> 'm fs_st_scheme \<Rightarrow> (int \<times> 'm fs_st_scheme) res) option"

definition geti :: "'m fs_st_scheme \<Rightarrow> nat \<Rightarrow> inode" where
  "geti s ip = inodes s ! ip"

definition seti :: "nat \<Rightarrow> (inode \<Rightarrow> inode) \<Rightarrow> 'm fs_st_scheme \<Rightarrow> 'm fs_st_scheme" where
  "seti ip f s = s\<lparr>inodes := (inodes s)[ip := f (inodes s ! ip)]\<rparr>"

definition ic_acquire :: "'m fs_st_scheme \<Rightarrow> 'm fs_st_scheme res" where
  "ic_acquire s = rbind (lk_acquire (ic_lock s)) (\<lambda>b. Inr (s\<lparr>ic_lock := b\<rparr>))"

definition ic_release :: "'m fs_st_scheme \<Rightarrow> 'm fs_st_scheme res" where
  "ic_release s = rbind (lk_release (ic_lock s)) (\<lambda>b. Inr (s\<lparr>ic_lock := b\<rparr>))"

subsection \<open>Blocks\<close>

text \<open>The common shape of a logged change to a block.\<close>

definition log_and_release :: "nat \<Rightarrow> 'm fs_st_scheme \<Rightarrow> 'm fs_st_scheme res" where
  "log_and_release bp s = rbind (log_write bp s) (brelse bp)"

definition bzero :: "u32 \<Rightarrow> u32 \<Rightarrow> 'm fs_st_scheme \<Rightarrow> 'm fs_st_scheme res" where
  "bzero dev bno s = rbind (bread dev bno s) (\<lambda>(bp, s1). log_and_release bp (set_data bp (\<lambda>_. replicate BSIZE 0) s1))"

definition bit_set :: "nat \<Rightarrow> block \<Rightarrow> bool" where
  "bit_set bi d \<longleftrightarrow> d ! (bi div 8) AND push_bit (bi mod 8) 1 \<noteq> 0"

definition mark_bit :: "nat \<Rightarrow> block \<Rightarrow> block" where
  "mark_bit bi d = d[bi div 8 := d ! (bi div 8) OR push_bit (bi mod 8) 1]"

definition clear_bit :: "nat \<Rightarrow> block \<Rightarrow> block" where
  "clear_bit bi d = d[bi div 8 := d ! (bi div 8) AND NOT (push_bit (bi mod 8) 1)]"

fun balloc_loop :: "u32 \<Rightarrow> nat list \<Rightarrow> 'm fs_st_scheme \<Rightarrow> (u32 \<times> 'm fs_st_scheme) res" where
  "balloc_loop dev [] s = Inl ''balloc: out of blocks''"
| "balloc_loop dev (b # bs) s =
     rbind (bread dev (BBLOCK (of_nat b) (sb s)) s) (\<lambda>(bp, s1).
     case find (\<lambda>bi. \<not> bit_set bi (bdata (getb s1 bp))) [0..<min BPB (unat (sb_size (sb s1)) - b)] of
       Some bi \<Rightarrow>
         rbind (log_and_release bp (set_data bp (mark_bit bi) s1)) (\<lambda>s2.
         rbind (bzero dev (of_nat (b + bi)) s2) (\<lambda>s3. Inr (of_nat (b + bi), s3)))
     | None \<Rightarrow> rbind (brelse bp s1) (balloc_loop dev bs))"

definition balloc :: "u32 \<Rightarrow> 'm fs_st_scheme \<Rightarrow> (u32 \<times> 'm fs_st_scheme) res" where
  "balloc dev s = balloc_loop dev (map (\<lambda>k. k * BPB) [0..<(unat (sb_size (sb s)) + BPB - 1) div BPB]) s"

definition bfree :: "u32 \<Rightarrow> u32 \<Rightarrow> 'm fs_st_scheme \<Rightarrow> 'm fs_st_scheme res" where
  "bfree dev b s =
     rbind (bread dev (BBLOCK b (sb s)) s) (\<lambda>(bp, s1).
     let bi = unat b mod BPB
     in if \<not> bit_set bi (bdata (getb s1 bp)) then Inl ''freeing free block''
        else log_and_release bp (set_data bp (clear_bit bi) s1))"

subsection \<open>Inodes\<close>

definition iinit :: "u32 \<Rightarrow> 'm fs_st_scheme \<Rightarrow> 'm fs_st_scheme res" where
  "iinit dev s =
     rbind (readsb dev (s\<lparr>ic_lock := False, inodes := map (\<lambda>x. x\<lparr>i_lock := initsleeplock\<rparr>) (inodes s)\<rparr>)) (\<lambda>(x, s1).
     Inr (s1\<lparr>sb := x\<rparr>))"

definition iget :: "u32 \<Rightarrow> u32 \<Rightarrow> 'm fs_st_scheme \<Rightarrow> (nat \<times> 'm fs_st_scheme) res" where
  "iget dev inum s =
     rbind (ic_acquire s) (\<lambda>s1.
     case find_idx (\<lambda>x. 0 < i_ref x \<and> i_dev x = dev \<and> i_inum x = inum) (inodes s1) of
       Some ip \<Rightarrow> rbind (ic_release (seti ip (\<lambda>x. x\<lparr>i_ref := i_ref x + 1\<rparr>) s1)) (\<lambda>s2. Inr (ip, s2))
     | None \<Rightarrow>
         (case find_idx (\<lambda>x. i_ref x = 0) (inodes s1) of
            None \<Rightarrow> Inl ''iget: no inodes''
          | Some ip \<Rightarrow>
              rbind (ic_release (seti ip (\<lambda>x. x\<lparr>i_dev := dev, i_inum := inum, i_ref := 1, i_valid := False\<rparr>) s1)) (\<lambda>s2.
              Inr (ip, s2))))"

definition di_zero :: dinode where
  "di_zero = \<lparr>d_type = 0, d_major = 0, d_minor = 0, d_nlink = 0, d_size = 0, d_addrs = replicate (NDIRECT + 1) 0\<rparr>"

fun ialloc_loop :: "u32 \<Rightarrow> u16 \<Rightarrow> nat list \<Rightarrow> 'm fs_st_scheme \<Rightarrow> (nat \<times> 'm fs_st_scheme) res" where
  "ialloc_loop dev type [] s = Inl ''ialloc: no inodes''"
| "ialloc_loop dev type (inum # is) s =
     rbind (bread dev (IBLOCK (of_nat inum) (sb s)) s) (\<lambda>(bp, s1).
     if d_type (get_dinode (inum mod IPB) (bdata (getb s1 bp))) = 0
     then rbind (log_and_release bp (set_data bp (put_dinode (inum mod IPB) (di_zero\<lparr>d_type := type\<rparr>)) s1)) (\<lambda>s2.
          iget dev (of_nat inum) s2)
     else rbind (brelse bp s1) (ialloc_loop dev type is))"

definition ialloc :: "u32 \<Rightarrow> u16 \<Rightarrow> 'm fs_st_scheme \<Rightarrow> (nat \<times> 'm fs_st_scheme) res" where
  "ialloc dev type s = ialloc_loop dev type [1..<unat (sb_ninodes (sb s))] s"

definition iupdate :: "nat \<Rightarrow> 'm fs_st_scheme \<Rightarrow> 'm fs_st_scheme res" where
  "iupdate ip s =
     (let x = geti s ip
      in rbind (bread (i_dev x) (IBLOCK (i_inum x) (sb s)) s) (\<lambda>(bp, s1).
         log_and_release bp (set_data bp (put_dinode (unat (i_inum x) mod IPB)
           \<lparr>d_type = i_type x, d_major = i_major x, d_minor = i_minor x, d_nlink = i_nlink x, d_size = i_size x,
            d_addrs = i_addrs x\<rparr>) s1)))"

definition idup :: "nat \<Rightarrow> 'm fs_st_scheme \<Rightarrow> (nat \<times> 'm fs_st_scheme) res" where
  "idup ip s =
     rbind (ic_acquire s) (\<lambda>s1.
     rbind (ic_release (seti ip (\<lambda>x. x\<lparr>i_ref := i_ref x + 1\<rparr>) s1)) (\<lambda>s2. Inr (ip, s2)))"

definition ilock :: "nat \<Rightarrow> 'm fs_st_scheme \<Rightarrow> 'm fs_st_scheme res" where
  "ilock ip s =
     (if i_ref (geti s ip) < 1 then Inl ''ilock''
      else rbind (acquiresleep (mypid s) (i_lock (geti s ip))) (\<lambda>l.
           let s1 = seti ip (\<lambda>x. x\<lparr>i_lock := l\<rparr>) s; x = geti s1 ip
           in if i_valid x then Inr s1
              else rbind (bread (i_dev x) (IBLOCK (i_inum x) (sb s1)) s1) (\<lambda>(bp, s2).
                   let di = get_dinode (unat (i_inum x) mod IPB) (bdata (getb s2 bp));
                       s3 = seti ip (\<lambda>y. y\<lparr>i_type := d_type di, i_major := d_major di, i_minor := d_minor di, i_nlink := d_nlink di,
                                      i_size := d_size di, i_addrs := d_addrs di\<rparr>) s2
                   in rbind (brelse bp s3) (\<lambda>s4.
                      let s5 = seti ip (\<lambda>y. y\<lparr>i_valid := True\<rparr>) s4
                      in if i_type (geti s5 ip) = 0 then Inl ''ilock: no type'' else Inr s5))))"

definition iunlock :: "nat \<Rightarrow> 'm fs_st_scheme \<Rightarrow> 'm fs_st_scheme res" where
  "iunlock ip s =
     rbind (holdingsleep (mypid s) (i_lock (geti s ip))) (\<lambda>h.
     if \<not> h \<or> i_ref (geti s ip) < 1 then Inl ''iunlock''
     else rbind (releasesleep (i_lock (geti s ip))) (\<lambda>l. Inr (wake (InodeLock ip) (seti ip (\<lambda>x. x\<lparr>i_lock := l\<rparr>) s))))"

subsection \<open>File contents\<close>

definition bmap :: "nat \<Rightarrow> nat \<Rightarrow> 'm fs_st_scheme \<Rightarrow> (u32 \<times> 'm fs_st_scheme) res" where
  "bmap ip bn s =
     (if bn < NDIRECT
      then if i_addrs (geti s ip) ! bn = 0
           then rbind (balloc (i_dev (geti s ip)) s) (\<lambda>(addr, s1).
                Inr (addr, seti ip (\<lambda>x. x\<lparr>i_addrs := (i_addrs x)[bn := addr]\<rparr>) s1))
           else Inr (i_addrs (geti s ip) ! bn, s)
      else let bn = bn - NDIRECT
           in if bn < NINDIRECT
              then rbind (if i_addrs (geti s ip) ! NDIRECT = 0
                          then rbind (balloc (i_dev (geti s ip)) s) (\<lambda>(addr, s1).
                               Inr (addr, seti ip (\<lambda>x. x\<lparr>i_addrs := (i_addrs x)[NDIRECT := addr]\<rparr>) s1))
                          else Inr (i_addrs (geti s ip) ! NDIRECT, s)) (\<lambda>(addr, s1).
                   rbind (bread (i_dev (geti s1 ip)) addr s1) (\<lambda>(bp, s2).
                   let a = get32 (4 * bn) (bdata (getb s2 bp))
                   in rbind (if a = 0
                             then rbind (balloc (i_dev (geti s2 ip)) s2) (\<lambda>(addr, s3).
                                  rbind (log_write bp (set_data bp (put32 (4 * bn) addr) s3)) (\<lambda>s4. Inr (addr, s4)))
                             else Inr (a, s2)) (\<lambda>(addr, s5).
                      rbind (brelse bp s5) (\<lambda>s6. Inr (addr, s6)))))
              else Inl ''bmap: out of range'')"

fun itrunc_direct :: "nat \<Rightarrow> nat list \<Rightarrow> 'm fs_st_scheme \<Rightarrow> 'm fs_st_scheme res" where
  "itrunc_direct ip [] s = Inr s"
| "itrunc_direct ip (i # is) s =
     (if i_addrs (geti s ip) ! i \<noteq> 0
      then rbind (bfree (i_dev (geti s ip)) (i_addrs (geti s ip) ! i) s) (\<lambda>s1.
           itrunc_direct ip is (seti ip (\<lambda>x. x\<lparr>i_addrs := (i_addrs x)[i := 0]\<rparr>) s1))
      else itrunc_direct ip is s)"

fun bfree_list :: "u32 \<Rightarrow> u32 list \<Rightarrow> 'm fs_st_scheme \<Rightarrow> 'm fs_st_scheme res" where
  "bfree_list dev [] s = Inr s"
| "bfree_list dev (a # as) s = (if a \<noteq> 0 then rbind (bfree dev a s) (bfree_list dev as) else bfree_list dev as s)"

definition itrunc :: "nat \<Rightarrow> 'm fs_st_scheme \<Rightarrow> 'm fs_st_scheme res" where
  "itrunc ip s =
     rbind (itrunc_direct ip [0..<NDIRECT] s) (\<lambda>s1.
     rbind (if i_addrs (geti s1 ip) ! NDIRECT \<noteq> 0
            then rbind (bread (i_dev (geti s1 ip)) (i_addrs (geti s1 ip) ! NDIRECT) s1) (\<lambda>(bp, s2).
                 rbind (bfree_list (i_dev (geti s2 ip)) (get_words 0 NINDIRECT (bdata (getb s2 bp))) s2) (\<lambda>s3.
                 rbind (brelse bp s3) (\<lambda>s4.
                 rbind (bfree (i_dev (geti s4 ip)) (i_addrs (geti s4 ip) ! NDIRECT) s4) (\<lambda>s5.
                 Inr (seti ip (\<lambda>x. x\<lparr>i_addrs := (i_addrs x)[NDIRECT := 0]\<rparr>) s5)))))
            else Inr s1) (\<lambda>s6.
     iupdate ip (seti ip (\<lambda>x. x\<lparr>i_size := 0\<rparr>) s6)))"

definition iput :: "nat \<Rightarrow> 'm fs_st_scheme \<Rightarrow> 'm fs_st_scheme res" where
  "iput ip s =
     rbind (acquiresleep (mypid s) (i_lock (geti s ip))) (\<lambda>l.
     let s1 = seti ip (\<lambda>x. x\<lparr>i_lock := l\<rparr>) s
     in rbind (if i_valid (geti s1 ip) \<and> i_nlink (geti s1 ip) = 0
               then rbind (ic_acquire s1) (\<lambda>s2.
                    let r = i_ref (geti s2 ip)
                    in rbind (ic_release s2) (\<lambda>s3.
                       if r = 1
                       then rbind (itrunc ip s3) (\<lambda>s4.
                            rbind (iupdate ip (seti ip (\<lambda>x. x\<lparr>i_type := 0\<rparr>) s4)) (\<lambda>s5.
                            Inr (seti ip (\<lambda>x. x\<lparr>i_valid := False\<rparr>) s5)))
                       else Inr s3))
               else Inr s1) (\<lambda>s6.
        rbind (releasesleep (i_lock (geti s6 ip))) (\<lambda>l2.
        rbind (ic_acquire (wake (InodeLock ip) (seti ip (\<lambda>x. x\<lparr>i_lock := l2\<rparr>) s6))) (\<lambda>s7.
        ic_release (seti ip (\<lambda>x. x\<lparr>i_ref := i_ref x - 1\<rparr>) s7)))))"

definition iunlockput :: "nat \<Rightarrow> 'm fs_st_scheme \<Rightarrow> 'm fs_st_scheme res" where
  "iunlockput ip s = rbind (iunlock ip s) (iput ip)"

record stat =
  st_type :: u16
  st_dev :: u32
  st_ino :: u32
  st_nlink :: u16
  st_size :: u32

definition stati :: "nat \<Rightarrow> 'm fs_st_scheme \<Rightarrow> stat" where
  "stati ip s =
     \<lparr>st_type = i_type (geti s ip), st_dev = i_dev (geti s ip), st_ino = i_inum (geti s ip), st_nlink = i_nlink (geti s ip),
      st_size = i_size (geti s ip)\<rparr>"

definition chunk :: "nat \<Rightarrow> nat \<Rightarrow> nat" where
  "chunk off n = min n (BSIZE - off mod BSIZE)"

lemma chunk_pos: "n \<noteq> 0 \<Longrightarrow> 0 < chunk off n"
  by (simp add: chunk_def BSIZE_def)

lemma chunk_le: "chunk off n \<le> n" by (simp add: chunk_def)

function readi_loop :: "nat \<Rightarrow> nat \<Rightarrow> nat \<Rightarrow> u8 list \<Rightarrow> 'm fs_st_scheme \<Rightarrow> (u8 list \<times> 'm fs_st_scheme) res" where
  "readi_loop ip off n out s =
     (if n = 0 then Inr (out, s)
      else rbind (bmap ip (off div BSIZE) s) (\<lambda>(addr, s1).
           rbind (bread (i_dev (geti s1 ip)) addr s1) (\<lambda>(bp, s2).
           let m = chunk off n; d = take m (drop (off mod BSIZE) (bdata (getb s2 bp)))
           in case brelse bp s2 of Inl e \<Rightarrow> Inl e
              | Inr s3 \<Rightarrow> readi_loop ip (off + m) (n - m) (out @ d) s3)))"
  by pat_completeness auto
termination
  by (relation "measure (\<lambda>(ip, off, n, out, s). n)") (use chunk_pos in auto)

definition readi ::
  "(nat \<Rightarrow> 'm devsw) \<Rightarrow> nat \<Rightarrow> u32 \<Rightarrow> u32 \<Rightarrow> 'm fs_st_scheme \<Rightarrow> (int \<times> u8 list \<times> 'm fs_st_scheme) res" where
  "readi dsw ip off n s =
     (let x = geti s ip
      in if i_type x = T_DEV
         then if sint (i_major x) < 0 \<or> NDEV \<le> sint (i_major x) then Inr (-1, [], s)
              else (case dev_read (dsw (nat (sint (i_major x)))) of None \<Rightarrow> Inr (-1, [], s) | Some rd \<Rightarrow> rd ip n s)
         else if i_size x < off \<or> off + n < off then Inr (-1, [], s)
         else let n' = (if i_size x < off + n then i_size x - off else n)
              in rbind (readi_loop ip (unat off) (unat n') [] s) (\<lambda>(out, s1). Inr (uint n', out, s1)))"

definition splice :: "nat \<Rightarrow> u8 list \<Rightarrow> block \<Rightarrow> block" where
  "splice o' ys d = take o' d @ ys @ drop (o' + length ys) d"

function writei_loop :: "nat \<Rightarrow> u8 list \<Rightarrow> nat \<Rightarrow> nat \<Rightarrow> 'm fs_st_scheme \<Rightarrow> 'm fs_st_scheme res" where
  "writei_loop ip src off n s =
     (if n = 0 then Inr s
      else rbind (bmap ip (off div BSIZE) s) (\<lambda>(addr, s1).
           rbind (bread (i_dev (geti s1 ip)) addr s1) (\<lambda>(bp, s2).
           let m = chunk off n
           in case log_and_release bp (set_data bp (splice (off mod BSIZE) (take m src)) s2) of Inl e \<Rightarrow> Inl e
              | Inr s3 \<Rightarrow> writei_loop ip (drop m src) (off + m) (n - m) s3)))"
  by pat_completeness auto
termination
  by (relation "measure (\<lambda>(ip, src, off, n, s). n)") (use chunk_pos in auto)

definition writei ::
  "(nat \<Rightarrow> 'm devsw) \<Rightarrow> nat \<Rightarrow> u8 list \<Rightarrow> u32 \<Rightarrow> u32 \<Rightarrow> 'm fs_st_scheme \<Rightarrow> (int \<times> 'm fs_st_scheme) res" where
  "writei dsw ip src off n s =
     (let x = geti s ip
      in if i_type x = T_DEV
         then if sint (i_major x) < 0 \<or> NDEV \<le> sint (i_major x) then Inr (-1, s)
              else (case dev_write (dsw (nat (sint (i_major x)))) of None \<Rightarrow> Inr (-1, s) | Some wr \<Rightarrow> wr ip src n s)
         else if i_size x < off \<or> off + n < off then Inr (-1, s)
         else if of_nat (MAXFILE * BSIZE) < off + n then Inr (-1, s)
         else rbind (writei_loop ip src (unat off) (unat n) s) (\<lambda>s1.
              if 0 < n \<and> i_size (geti s1 ip) < off + n
              then rbind (iupdate ip (seti ip (\<lambda>x. x\<lparr>i_size := off + n\<rparr>) s1)) (\<lambda>s2. Inr (uint n, s2))
              else Inr (uint n, s1)))"

subsection \<open>Directories\<close>

text \<open>The character a pointer into a string points at: 0 at its end.\<close>

definition hd0 :: "u8 list \<Rightarrow> u8" where
  "hd0 xs = (case xs of [] \<Rightarrow> 0 | x # _ \<Rightarrow> x)"

fun namecmp_loop :: "nat \<Rightarrow> u8 list \<Rightarrow> u8 list \<Rightarrow> int" where
  "namecmp_loop 0 p q = 0"
| "namecmp_loop (Suc n) p q =
     (if hd0 p \<noteq> 0 \<and> hd0 p = hd0 q then namecmp_loop n (tl p) (tl q) else uint (hd0 p) - uint (hd0 q))"

definition namecmp :: "u8 list \<Rightarrow> u8 list \<Rightarrow> int" where
  "namecmp s t = namecmp_loop DIRSIZ s t"

definition dir_offsets :: "u32 \<Rightarrow> u32 list" where
  "dir_offsets len = map (\<lambda>k. of_nat (16 * k)) [0..<(unat len + 15) div 16]"

fun dirlookup_loop ::
  "(nat \<Rightarrow> 'm devsw) \<Rightarrow> nat \<Rightarrow> u8 list \<Rightarrow> u32 list \<Rightarrow> 'm fs_st_scheme \<Rightarrow> ((nat \<times> u32) option \<times> 'm fs_st_scheme) res" where
  "dirlookup_loop dsw dp name [] s = Inr (None, s)"
| "dirlookup_loop dsw dp name (off # offs) s =
     rbind (readi dsw dp off 16 s) (\<lambda>(r, d, s1).
     if r \<noteq> 16 then Inl ''dirlookup read''
     else let de = get_dirent d
          in if de_inum de = 0 then dirlookup_loop dsw dp name offs s1
             else if namecmp name (de_name de) = 0
             then rbind (iget (i_dev (geti s1 dp)) (ucast (de_inum de)) s1) (\<lambda>(ip, s2). Inr (Some (ip, off), s2))
             else dirlookup_loop dsw dp name offs s1)"

definition dirlookup ::
  "(nat \<Rightarrow> 'm devsw) \<Rightarrow> nat \<Rightarrow> u8 list \<Rightarrow> 'm fs_st_scheme \<Rightarrow> ((nat \<times> u32) option \<times> 'm fs_st_scheme) res" where
  "dirlookup dsw dp name s =
     (if i_type (geti s dp) \<noteq> T_DIR then Inl ''dirlookup not DIR''
      else dirlookup_loop dsw dp name (dir_offsets (i_size (geti s dp))) s)"

fun empty_slot :: "(nat \<Rightarrow> 'm devsw) \<Rightarrow> nat \<Rightarrow> u32 list \<Rightarrow> 'm fs_st_scheme \<Rightarrow> (u32 \<times> 'm fs_st_scheme) res" where
  "empty_slot dsw dp [] s = Inr (of_nat (16 * ((unat (i_size (geti s dp)) + 15) div 16)), s)"
| "empty_slot dsw dp (off # offs) s =
     rbind (readi dsw dp off 16 s) (\<lambda>(r, d, s1).
     if r \<noteq> 16 then Inl ''dirlink read''
     else if de_inum (get_dirent d) = 0 then Inr (off, s1) else empty_slot dsw dp offs s1)"

definition pad_name :: "u8 list \<Rightarrow> u8 list" where
  "pad_name name = take DIRSIZ (name @ replicate DIRSIZ 0)"

definition dirlink ::
  "(nat \<Rightarrow> 'm devsw) \<Rightarrow> nat \<Rightarrow> u8 list \<Rightarrow> u32 \<Rightarrow> 'm fs_st_scheme \<Rightarrow> (int \<times> 'm fs_st_scheme) res" where
  "dirlink dsw dp name inum s =
     rbind (dirlookup dsw dp name s) (\<lambda>(r, s1).
     case r of Some (ip, _) \<Rightarrow> rbind (iput ip s1) (\<lambda>s2. Inr (-1, s2))
     | None \<Rightarrow>
         rbind (empty_slot dsw dp (dir_offsets (i_size (geti s1 dp))) s1) (\<lambda>(off, s2).
         rbind (writei dsw dp (put_dirent \<lparr>de_inum = ucast inum, de_name = pad_name name\<rparr>) off 16 s2) (\<lambda>(r, s3).
         if r \<noteq> 16 then Inl ''dirlink'' else Inr (0, s3))))"

subsection \<open>Paths\<close>

definition slash :: u8 where "slash = 47"

definition skipelem :: "u8 list \<Rightarrow> (u8 list \<times> u8 list) option" where
  "skipelem path =
     (let p = dropWhile (\<lambda>c. c = slash) path
      in if p = [] then None
         else let s = takeWhile (\<lambda>c. c \<noteq> slash) p; rest = dropWhile (\<lambda>c. c \<noteq> slash) p;
                  name = (if DIRSIZ \<le> length s then take DIRSIZ s else s)
              in Some (name, dropWhile (\<lambda>c. c = slash) rest))"

lemma skipelem_shorter: "skipelem path = Some (name, rest) \<Longrightarrow> length rest < length path"
proof -
  assume a: "skipelem path = Some (name, rest)"
  let ?p = "dropWhile (\<lambda>c. c = slash) path"
  have ne: "?p \<noteq> []" and r: "rest = dropWhile (\<lambda>c. c = slash) (dropWhile (\<lambda>c. c \<noteq> slash) ?p)"
    using a by (auto simp: skipelem_def Let_def split: if_splits)
  have "hd ?p \<noteq> slash" using hd_dropWhile [OF ne] by simp
  then have "length (dropWhile (\<lambda>c. c \<noteq> slash) ?p) < length ?p" using ne length_dropWhile_le [of "\<lambda>c. c \<noteq> slash" "tl ?p"]
    by (cases ?p) (auto simp: less_Suc_eq_le)
  then show ?thesis unfolding r
    by (meson le_less_trans length_dropWhile_le less_le_trans)
qed

function namex_loop ::
  "(nat \<Rightarrow> 'm devsw) \<Rightarrow> bool \<Rightarrow> u8 list \<Rightarrow> u8 list \<Rightarrow> nat \<Rightarrow> 'm fs_st_scheme \<Rightarrow>
     ((nat \<times> u8 list) option \<times> 'm fs_st_scheme) res" where
  "namex_loop dsw nameiparent name path ip s =
     (case skipelem path of
        None \<Rightarrow> if nameiparent then rbind (iput ip s) (\<lambda>s1. Inr (None, s1)) else Inr (Some (ip, name), s)
      | Some (name', rest) \<Rightarrow>
          (case ilock ip s of Inl e \<Rightarrow> Inl e
           | Inr s1 \<Rightarrow>
               if i_type (geti s1 ip) \<noteq> T_DIR then rbind (iunlockput ip s1) (\<lambda>s2. Inr (None, s2))
               else if nameiparent \<and> rest = [] then rbind (iunlock ip s1) (\<lambda>s2. Inr (Some (ip, name'), s2))
               else (case dirlookup dsw ip name' s1 of Inl e \<Rightarrow> Inl e
                     | Inr (None, s2) \<Rightarrow> rbind (iunlockput ip s2) (\<lambda>s3. Inr (None, s3))
                     | Inr (Some (next, _), s2) \<Rightarrow>
                         (case iunlockput ip s2 of Inl e \<Rightarrow> Inl e
                          | Inr s3 \<Rightarrow> namex_loop dsw nameiparent name' rest next s3))))"
  by pat_completeness auto
termination
  by (relation "measure (\<lambda>(dsw, np, name, path, ip, s). length path)") (auto simp: skipelem_shorter)

definition namex ::
  "(nat \<Rightarrow> 'm devsw) \<Rightarrow> u8 list \<Rightarrow> bool \<Rightarrow> 'm fs_st_scheme \<Rightarrow> ((nat \<times> u8 list) option \<times> 'm fs_st_scheme) res" where
  "namex dsw path nameiparent s =
     rbind (if hd0 path = slash then iget ROOTDEV ROOTINO s else idup (cwd_ip s) s) (\<lambda>(ip, s1).
     namex_loop dsw nameiparent [] path ip s1)"

definition namei :: "(nat \<Rightarrow> 'm devsw) \<Rightarrow> u8 list \<Rightarrow> 'm fs_st_scheme \<Rightarrow> (nat option \<times> 'm fs_st_scheme) res" where
  "namei dsw path s = rbind (namex dsw path False s) (\<lambda>(r, s1). Inr (map_option fst r, s1))"

definition nameiparent ::
  "(nat \<Rightarrow> 'm devsw) \<Rightarrow> u8 list \<Rightarrow> 'm fs_st_scheme \<Rightarrow> ((nat \<times> u8 list) option \<times> 'm fs_st_scheme) res" where
  "nameiparent dsw path s = namex dsw path True s"

declare readi_loop.simps [simp del] writei_loop.simps [simp del] namex_loop.simps [simp del]

end
