(* ===== verification/XvFsLaws.thy ===== *)
theory XvFsLaws
  imports XvFs
begin

text \<open>
  Laws of the file system's block operations inside a transaction: what a logged change to a block does
  to the contents of the disk as the cache shows them, and the free map seen as a set of blocks.
\<close>

subsection \<open>Logged changes\<close>

text \<open>Inside a transaction the dirty blocks are the logged ones.\<close>

definition logged :: "'m log_st_scheme \<Rightarrow> u32 list" where
  "logged s = take (nat (lh_n s)) (lh_block s)"

definition tx_ok :: "'m log_st_scheme \<Rightarrow> bool" where
  "tx_ok s \<longleftrightarrow> bc_ok s \<and> \<not> lg_lock s \<and> 1 \<le> outstanding s \<and> length (lh_block s) = LOGSIZE \<and> lg_size s = of_nat LOGSIZE \<and>
     0 \<le> lh_n s \<and> lh_n s < int LOGSIZE \<and> dirty s = set (logged s) \<and> distinct (logged s)"

text \<open>\<open>tx d s t\<close>: from \<open>s\<close> to \<open>t\<close> the transaction logged at most \<open>d\<close> more blocks; nothing went to disk and nothing
  above the log changed.\<close>

definition log_same :: "'m log_st_scheme \<Rightarrow> 'm log_st_scheme \<Rightarrow> bool" where
  "log_same s t \<longleftrightarrow> outstanding t = outstanding s \<and> committing t = committing s \<and> lg_start t = lg_start s \<and> lg_dev t = lg_dev s"

definition tx :: "nat \<Rightarrow> 'm log_st_scheme \<Rightarrow> 'm log_st_scheme \<Rightarrow> bool" where
  "tx d s t \<longleftrightarrow> tx_ok t \<and> lh_n t \<le> lh_n s + int d \<and> disk t 1 = disk s 1 \<and> writes t = writes s \<and> mypid t = mypid s \<and>
     log_st.more t = log_st.more s \<and> log_same s t"

lemma tx_trans: "tx d s t \<Longrightarrow> tx e t u \<Longrightarrow> tx (d + e) s u"
  by (auto simp: tx_def log_same_def)

lemma tx_mono: "tx d s t \<Longrightarrow> d \<le> e \<Longrightarrow> tx e s t"
  by (auto simp: tx_def)

lemma tx_card: "tx_ok s \<Longrightarrow> card (dirty s) = nat (lh_n s)"
  by (simp add: tx_ok_def logged_def distinct_card min_absorb2 nat_le_iff)

lemma log_view:
  assumes "bio.truncate t = bio.truncate s"
  shows "bc_ok t = bc_ok s" "cur t = cur s" "dirty t = dirty s" "heldb t = heldb s" "handle t = handle s"
    "disk t = disk s" "writes t = writes s" "mypid t = mypid s" "getb t = getb s"
proof -
  have e: "bc_lock t = bc_lock s" "bufs t = bufs s" "bnext t = bnext s" "bprev t = bprev s" "ide_lock t = ide_lock s"
    "idequeue t = idequeue s" "havedisk1 t = havedisk1 s" "disk t = disk s" "mypid t = mypid s" "writes t = writes s"
    using assms by (simp_all add: bio.truncate_def)
  show "bc_ok t = bc_ok s" "cur t = cur s" "dirty t = dirty s" "heldb t = heldb s" "handle t = handle s"
    by (rule bio_view; use e in simp)+
  show "disk t = disk s" "writes t = writes s" "mypid t = mypid s" by (fact e)+
  show "getb t = getb s" using e by (simp add: getb_def fun_eq_iff)
qed

lemma more_fields:
  assumes "bio.more t = bio.more s"
  shows "log_st.more t = log_st.more s"
  using assms by (cases s, cases t) simp

lemma log_same_more: "bio.more t = bio.more s \<Longrightarrow> log_same s t"
  using log_fields [of t s] by (simp add: log_same_def)

lemma tx_okI_same:
  assumes "tx_ok s" "bc_ok t" "dirty t = dirty s" "bio.more t = bio.more s"
  shows "tx_ok t"
  using assms log_fields [OF assms(4)] unfolding tx_ok_def logged_def by simp

lemma log_write_law:
  fixes s :: "'m log_st_scheme"
  assumes ok: "tx_ok s" and h: "handle s n b" and r: "lh_n s + 1 < int LOGSIZE"
  shows "\<exists>t. log_write b s = Inr t \<and> tx 1 s t \<and> cur t = cur s \<and> dirty t = insert n (dirty s) \<and> heldb t = heldb s \<and>
    handle t = handle s \<and> (n \<in> dirty s \<longrightarrow> lh_n t = lh_n s)"
proof -
  note o = ok [unfolded tx_ok_def]
  have bc: "bc_ok s" using o by simp
  have bn: "blockno (getb s b) = n" using handle_buf(6) [OF bc h] .
  have sz: "sint (lg_size s) = int LOGSIZE" using o sint_small [of "int LOGSIZE"] by (simp add: LOGSIZE_def MAXOPBLOCKS_def)
  let ?k = "nat (lh_n s)"
  define i where "i = (case find_idx (\<lambda>x. x = n) (logged s) of Some i \<Rightarrow> i | None \<Rightarrow> ?k)"
  define u where "u = s\<lparr>lh_block := (lh_block s)[i := n], lh_n := (if int i = lh_n s then lh_n s + 1 else lh_n s)\<rparr>"
  define v where "v = mark_dirty b u"
  define t where "t = v\<lparr>lg_lock := False\<rparr>"
  have vu: "bio.truncate u = bio.truncate s" by (simp add: u_def bio.truncate_def)
  note w = log_view [OF vu]
  have "bio.truncate t = bio.truncate v" by (simp add: t_def bio.truncate_def)
  note tv = log_view [OF this]
  have "handle u n b" "bc_ok u" using h bc w by simp_all
  note m = mark_dirty_law [OF this(2,1), folded v_def]
  have kl: "?k < length (lh_block s)" using o by (simp add: nat_less_iff)
  have lg: "lh_n u = lh_n s + (if n \<in> dirty s then 0 else 1) \<and> logged u = (if n \<in> dirty s then logged s else logged s @ [n])"
  proof (cases "find_idx (\<lambda>x. x = n) (logged s)")
    case None
    then have "n \<notin> set (logged s)" by (auto simp: find_idx_None in_set_conv_nth)
    then have "n \<notin> dirty s" using o by simp
    moreover have "take (Suc ?k) ((lh_block s)[?k := n]) = take ?k (lh_block s) @ [n]" using kl by (rule take_Suc_update)
    ultimately show ?thesis using None o by (simp add: u_def i_def logged_def nat_add_distrib)
  next
    case (Some j)
    then have j: "j < length (logged s)" "logged s ! j = n" by (auto simp: find_idx_Some)
    then have "n \<in> dirty s" using o nth_mem [OF j(1)] by simp
    moreover have jk: "j < ?k" "lh_block s ! j = n" using j by (simp_all add: logged_def)
    moreover have "(lh_block s)[j := n] = lh_block s" using jk(2) by (metis list_update_id)
    ultimately show ?thesis using Some o by (simp add: u_def i_def logged_def)
  qed
  have more: "lh_n t = lh_n u" "lh_block t = lh_block u" "log_st.more t = log_st.more s" "\<not> lg_lock t"
    "outstanding t = outstanding s" "lg_size t = lg_size s" "log_same s t"
    by (simp_all add: t_def v_def u_def mark_dirty_def setb_def log_same_def)
  have lw: "log_write b s = Inr t"
    using o r sz bn
    by (cases "find_idx (\<lambda>x. x = n) (take ?k (lh_block s))")
      (simp_all add: log_write_def lg_acquire_def lg_release_def Let_def t_def v_def u_def i_def logged_def mark_dirty_def
        setb_def getb_def)
  have "logged t = logged u" using more by (simp add: logged_def)
  then have ds: "dirty t = set (logged t)" "distinct (logged t)" using lg m(3) w(3) tv(3) o by auto
  have "tx_ok t" unfolding tx_ok_def using ds more o lg m(1) tv(1) r by (auto simp: u_def)
  then have "tx 1 s t" using lg more m w tv by (auto simp: tx_def)
  moreover have "handle t = handle s" using m(5) w(5) tv(5) by (simp add: fun_eq_iff)
  ultimately show ?thesis using lw lg more(1) m w tv by auto
qed

text \<open>Reading a block, changing it, logging it and releasing it.\<close>

lemma logged_update:
  fixes s :: "'m fs_st_scheme"
  assumes ok: "tx_ok s" and n: "n \<notin> heldb s" "n < FSSIZE" and c: "card (dirty s \<union> heldb s) < NBUF" and r: "lh_n s + 1 < int LOGSIZE"
    and f: "length (f (cur s n)) = BSIZE"
  shows "\<exists>bp s1 t. bread ROOTDEV n s = Inr (bp, s1) \<and> bdata (getb s1 bp) = cur s n \<and> bio.more s1 = bio.more s \<and>
    log_and_release bp (set_data bp f s1) = Inr t \<and> tx 1 s t \<and> cur t = (cur s)(n := f (cur s n)) \<and>
    dirty t = insert n (dirty s) \<and> heldb t = heldb s \<and> (n \<in> dirty s \<longrightarrow> lh_n t = lh_n s)"
proof -
  have bc: "bc_ok s" using ok by (simp add: tx_ok_def)
  obtain bp s1 where s1: "bread ROOTDEV n s = Inr (bp, s1)" "bc_ok s1" "handle s1 n bp" "cur s1 = cur s" "disk s1 1 = disk s 1"
      "dirty s1 = dirty s" "heldb s1 = insert n (heldb s)" "writes s1 = writes s" "mypid s1 = mypid s" "bio.more s1 = bio.more s"
    using bcache.rd_law [OF bc n disjI2 [OF c]] by auto
  have l: "length (f (cur s1 n)) = BSIZE" using f s1(4) by simp
  note d = set_data_law [OF s1(2,3), of f, OF l]
  let ?s2 = "set_data bp f s1"
  have m2: "bio.more ?s2 = bio.more s" using d(9) s1(10) by simp
  have ok2: "tx_ok ?s2" by (rule tx_okI_same [OF ok d(1)]) (use d(3) s1(6) m2 in simp_all)
  have h2: "handle ?s2 n bp" using d(5) s1(3) by simp
  have r2: "lh_n ?s2 + 1 < int LOGSIZE" using log_fields(7) [OF m2] r by simp
  obtain s3 where s3: "log_write bp ?s2 = Inr s3" "tx 1 ?s2 s3" "cur s3 = cur ?s2" "dirty s3 = insert n (dirty ?s2)" "heldb s3 = heldb ?s2"
      "handle s3 = handle ?s2" "n \<in> dirty ?s2 \<longrightarrow> lh_n s3 = lh_n ?s2"
    using log_write_law [OF ok2 h2 r2] by blast
  have ok3: "tx_ok s3" "bc_ok s3" "handle s3 n bp" "n \<in> dirty s3" using s3 h2 by (auto simp: tx_def tx_ok_def)
  obtain t where t: "brelse bp s3 = Inr t" "bc_ok t" "cur t = cur s3" "disk t 1 = disk s3 1" "dirty t = dirty s3" "heldb t = heldb s3 - {n}"
      "writes t = writes s3" "(mypid t, bio.more t) = (mypid s3, bio.more s3)"
    using bcache.rel_law [OF ok3(2,3) disjI1 [OF ok3(4)]] by blast
  have "tx 0 s3 t" using t ok3(1) tx_okI_same [OF ok3(1) t(2,5)] log_fields(7) [of t s3] more_fields [of t s3] log_same_more [of t s3] by (simp add: tx_def)
  moreover have "tx 0 s ?s2"
    using ok2 d s1 m2 log_fields(7) [OF m2] more_fields [OF m2] log_same_more [OF m2] by (simp add: tx_def)
  ultimately have "tx 1 s t" using tx_trans [OF tx_trans [OF _ s3(2)], of 0 s 0 t] by simp
  moreover have "log_and_release bp ?s2 = Inr t" using s3(1) t(1) by (simp add: log_and_release_def)
  moreover have "lh_n t = lh_n s" if "n \<in> dirty s"
    using that s3(7) d(3) s1(6) log_fields(7) [of t s3] t(8) log_fields(7) [OF m2] by simp
  ultimately show ?thesis
    using s1 handle_buf(8) [OF s1(2,3)] t s3 d n(1) by (intro exI [of _ bp] exI [of _ s1] exI [of _ t]) auto
qed

lemma fs_fields:
  assumes "log_st.more t = log_st.more s"
  shows "sb t = sb s" "inodes t = inodes s" "ic_lock t = ic_lock s" "cwd_ip t = cwd_ip s" "geti t = geti s" "fs_st.more t = fs_st.more s"
  using assms by (cases s, cases t, simp add: geti_def fun_eq_iff)+

lemma tx_fs: "tx d s t \<Longrightarrow> sb t = sb s \<and> inodes t = inodes s \<and> ic_lock t = ic_lock s \<and> geti t = geti s \<and> cwd_ip t = cwd_ip s \<and> fs_st.more t = fs_st.more s"
  using fs_fields [of t s] by (simp add: tx_def)

subsection \<open>The free map\<close>

lemma bit_set_iff: "bit_set b d \<longleftrightarrow> bit (d ! (b div 8)) (b mod 8)"
  by (simp add: bit_set_def and_exp_eq_0_iff_not_bit push_bit_eq_mult)

lemma bit_set_mark:
  assumes "length d = BSIZE" "b < BPB"
  shows "bit_set c (mark_bit b d) \<longleftrightarrow> c = b \<or> bit_set c d"
proof -
  have "b div 8 < length d" using assms by (simp add: BPB_def BSIZE_def)
  moreover have "c div 8 = b div 8 \<and> c mod 8 = b mod 8 \<longleftrightarrow> c = b" by (metis div_mult_mod_eq)
  moreover have "b mod 8 < 8" by simp
  ultimately show ?thesis by (auto simp: bit_set_iff mark_bit_def nth_list_update bit_or_iff bit_exp_iff possible_bit_def)
qed

lemma bit_set_clear:
  assumes "length d = BSIZE" "b < BPB"
  shows "bit_set c (clear_bit b d) \<longleftrightarrow> c \<noteq> b \<and> bit_set c d"
proof -
  have "b div 8 < length d" using assms by (simp add: BPB_def BSIZE_def)
  moreover have "c div 8 = b div 8 \<and> c mod 8 = b mod 8 \<longleftrightarrow> c = b" by (metis div_mult_mod_eq)
  moreover have "b mod 8 < 8" "c mod 8 < 8" by simp_all
  ultimately show ?thesis
    by (auto simp: bit_set_iff clear_bit_def nth_list_update bit_and_iff bit_not_iff bit_exp_iff possible_bit_def)
qed

lemma clear_mark:
  assumes "length d = BSIZE" "b < BPB" "\<not> bit_set b d"
  shows "clear_bit b (mark_bit b d) = d"
proof -
  have l: "b div 8 < length d" using assms by (simp add: BPB_def BSIZE_def)
  let ?w = "d ! (b div 8)" and ?m = "push_bit (b mod 8) 1 :: u8"
  have "(?w OR ?m) AND NOT ?m = ?w"
  proof (rule bit_word_eqI)
    fix n assume "n < LENGTH(8)"
    then show "bit ((?w OR ?m) AND NOT ?m) n = bit ?w n"
      using assms(3) by (auto simp: bit_set_iff bit_and_iff bit_or_iff bit_not_iff bit_exp_iff possible_bit_def)
  qed
  then show ?thesis using l by (simp add: clear_bit_def mark_bit_def)
qed

lemma length_mark_clear [simp]: "length (mark_bit b d) = length d" "length (clear_bit b d) = length d"
  by (simp_all add: mark_bit_def clear_bit_def)

text \<open>The blocks the bitmap shows as free, in a file system small enough to have one bitmap block.\<close>

definition bmap_block :: "'m fs_st_scheme \<Rightarrow> u32" where
  "bmap_block s = sb_bmapstart (sb s)"

definition free_map :: "'m fs_st_scheme \<Rightarrow> nat set" where
  "free_map s = {b. b < unat (sb_size (sb s)) \<and> \<not> bit_set b (cur s (bmap_block s))}"

definition one_bitmap :: "'m fs_st_scheme \<Rightarrow> bool" where
  "one_bitmap s \<longleftrightarrow> 0 < sb_size (sb s) \<and> sb_size (sb s) \<le> FSSIZE \<and> bmap_block s < sb_size (sb s) \<and>
     bit_set (unat (bmap_block s)) (cur s (bmap_block s))"

lemma one_bitmapD:
  assumes "one_bitmap s"
  shows "0 < unat (sb_size (sb s))" "unat (sb_size (sb s)) \<le> 1000" "bmap_block s < FSSIZE" "unat (bmap_block s) \<notin> free_map s"
    "b < unat (sb_size (sb s)) \<Longrightarrow> b < BPB \<and> (of_nat b :: u32) < FSSIZE \<and> unat (of_nat b :: u32) = b \<and>
       BBLOCK (of_nat b) (sb s) = bmap_block s"
proof -
  show u: "0 < unat (sb_size (sb s))" "unat (sb_size (sb s)) \<le> 1000" "bmap_block s < FSSIZE" "unat (bmap_block s) \<notin> free_map s"
    using assms by (auto simp: one_bitmap_def free_map_def FSSIZE_def word_less_nat_alt word_le_nat_alt unat_gt_0)
  assume b: "b < unat (sb_size (sb s))"
  then have n: "unat (of_nat b :: u32) = b" using u(2) by (simp add: unat_of_nat take_bit_nat_eq_self)
  then have "(of_nat b :: u32) div of_nat BPB = 0" using b u(2) by (simp add: BPB_def BSIZE_def unat_eq_0 [symmetric] unat_div)
  then show "b < BPB \<and> (of_nat b :: u32) < FSSIZE \<and> unat (of_nat b :: u32) = b \<and> BBLOCK (of_nat b) (sb s) = bmap_block s"
    using b u(2) n by (simp add: BPB_def BSIZE_def FSSIZE_def word_less_nat_alt BBLOCK_def bmap_block_def)
qed

lemma cur_length: "bc_ok s \<Longrightarrow> n \<notin> heldb s \<Longrightarrow> n < FSSIZE \<Longrightarrow> card (dirty s \<union> heldb s) < NBUF \<Longrightarrow> length (cur s n) = BSIZE"
  using bcache.rd_law [of s n] bcache.good_law by metis

end
