(* ===== verification/XvFsProps.thy ===== *)
theory XvFsProps
  imports XvFsLaws XvLogProps
begin

text \<open>
  What the file system promises: block allocation keeps the free map and hands out zeroed blocks,
  reads and writes of a file see and change exactly the bytes of the file, a directory lookup finds the
  first entry of the name, and paths are cut into their elements.
\<close>

subsection \<open>An example file system\<close>

text \<open>An empty buffer cache shows the disk.\<close>

lemma fresh_cache:
  fixes s :: "'m bio_scheme"
  assumes b: "bufs s = replicate NBUF free_buf" and i: "\<not> bc_lock s" "\<not> ide_lock s" "idequeue s = []" "havedisk1 s"
    and l: "\<And>n. length (disk s 1 n) = BSIZE"
  shows "bc_ok (binit s)" "heldb (binit s) = {}" "dirty (binit s) = {}" "cur (binit s) = disk s 1" "bio.more (binit s) = bio.more s"
    "mypid (binit s) = mypid s"
proof -
  obtain nx pv where e: "binit s = s\<lparr>bnext := nx, bprev := pv\<rparr>" using binit_fields [of s] b i(1) by auto
  have g: "getb (binit s) b = free_buf" if "b < NBUF" for b using that by (simp add: e getb_def assms(1))
  have iu: "\<not> in_use free_buf" by (simp add: in_use_def ROOTDEV_def)
  have c: "\<not> cached (binit s) n b" for n b using g [of b] iu by (auto simp: cached_def)
  show "bc_ok (binit s)"
  proof (rule bc_okI)
    show "buf_ok (binit s) (getb (binit s) b)" if "b < NBUF" for b using iu unfolding g [OF that] by (auto simp: buf_ok_def)
    show "\<exists>xs. dll (bnext (binit s)) (bprev (binit s)) xs \<and> set xs = {..<NBUF}"
      using binit_dll [of s] by (intro exI [of _ "rev [0..<NBUF]"]) auto
  qed (use c i l b in \<open>auto simp: e\<close>)
  show "heldb (binit s) = {}" "dirty (binit s) = {}" by (auto simp: heldb_def dirty_def c)
  show "cur (binit s) = disk s 1" using cur_uncached [of "binit s"] c by (auto simp: e)
  show "bio.more (binit s) = bio.more s" "mypid (binit s) = mypid s" by (simp_all add: e)
qed

text \<open>A file of three bytes in block 60, a directory of two entries in block 61, and a bitmap in block 58 that shows the
  first 64 blocks as used.\<close>

definition file_inode :: inode where
  "file_inode = \<lparr>i_dev = ROOTDEV, i_inum = 1, i_ref = 1, i_lock = initsleeplock, i_valid = True, i_type = T_FILE, i_major = 0, i_minor = 0,
     i_nlink = 1, i_size = 3, i_addrs = 60 # replicate 12 0\<rparr>"

definition dir_inode :: inode where
  "dir_inode = file_inode\<lparr>i_inum := 2, i_type := T_DIR, i_size := 32, i_addrs := 61 # replicate 12 0\<rparr>"

definition example_bitmap :: block where
  "example_bitmap = replicate 8 255 @ replicate 504 0"

definition example_dir :: block where
  "example_dir = put_dirent \<lparr>de_inum = 2, de_name = pad_name [46]\<rparr> @ put_dirent \<lparr>de_inum = 1, de_name = pad_name [97, 98]\<rparr> @ replicate 480 0"

definition example_sb :: superblock where
  "example_sb = \<lparr>sb_size = 1000, sb_nblocks = 941, sb_ninodes = 200, sb_nlog = 30, sb_logstart = 2, sb_inodestart = 32, sb_bmapstart = 58\<rparr>"

definition raw_fs :: fs_st where
  "raw_fs = \<lparr>bc_lock = False, bufs = replicate 30 free_buf, bnext = (\<lambda>_. 0), bprev = (\<lambda>_. 0), ide_lock = False,
     idequeue = [], havedisk1 = True, disk = (\<lambda>_. (\<lambda>_. zero_block)(58 := example_bitmap, 61 := example_dir)), writes = [], woken = [], mypid = 1,
     lg_lock = False, lg_start = 2, lg_size = 30, outstanding = 1, committing = False, lg_dev = ROOTDEV,
     lh_n = 0, lh_block = replicate 30 0, ic_lock = False, inodes = [file_inode, dir_inode, file_inode\<lparr>i_ref := 0\<rparr>], sb = example_sb, cwd_ip = 1\<rparr>"

definition fs_example :: fs_st where
  "fs_example = binit raw_fs"

definition no_devices :: "nat \<Rightarrow> unit devsw" where
  "no_devices n = \<lparr>dev_read = None, dev_write = None\<rparr>"

lemma example_blocks: "length example_bitmap = BSIZE" "length example_dir = BSIZE" "length zero_block = BSIZE"
  by (simp_all add: example_bitmap_def example_dir_def zero_block_def put_dirent_def pad_name_def BSIZE_def DIRSIZ_def)

lemma fs_example_cache:
  "bc_ok fs_example" "heldb fs_example = {}" "dirty fs_example = {}" "bio.more fs_example = bio.more raw_fs"
  "cur fs_example = (\<lambda>_. zero_block)(58 := example_bitmap, 61 := example_dir)"
proof -
  have l: "length (disk raw_fs 1 n) = BSIZE" for n by (simp add: raw_fs_def example_blocks)
  have c: "bufs raw_fs = replicate NBUF free_buf" "\<not> bc_lock raw_fs" "\<not> ide_lock raw_fs" "idequeue raw_fs = []" "havedisk1 raw_fs"
    by (simp_all add: raw_fs_def NBUF_def)
  note f = fresh_cache [OF c l]
  show "bc_ok fs_example" "heldb fs_example = {}" "dirty fs_example = {}" "bio.more fs_example = bio.more raw_fs"
    "cur fs_example = (\<lambda>_. zero_block)(58 := example_bitmap, 61 := example_dir)"
    using f by (simp_all add: fs_example_def raw_fs_def)
qed

lemma fs_example_fs:
  "sb fs_example = example_sb" "inodes fs_example = [file_inode, dir_inode, file_inode\<lparr>i_ref := 0\<rparr>]" "\<not> ic_lock fs_example" "lh_n fs_example = 0"
  "geti fs_example 0 = file_inode" "geti fs_example (Suc 0) = dir_inode" "geti fs_example 2 = file_inode\<lparr>i_ref := 0\<rparr>"
  using fs_fields [OF more_fields [OF fs_example_cache(4)]] log_fields(7) [OF fs_example_cache(4)] by (simp_all add: raw_fs_def geti_def)

lemma fs_example_tx: "tx_ok fs_example"
  using log_fields [OF fs_example_cache(4)] fs_example_cache(1,3)
  by (simp add: tx_ok_def logged_def raw_fs_def LOGSIZE_def MAXOPBLOCKS_def)

subsection \<open>Block allocation\<close>

lemma find_least: "find P [0..<n] = (if \<exists>b<n. P b then Some (LEAST b. P b) else None)"
proof (cases "find P [0..<n]")
  case None
  then show ?thesis by (auto simp: find_None_iff)
next
  case (Some b)
  then have b: "b < n" "P b" "\<forall>j<b. \<not> P j" by (auto simp: find_Some_iff)
  then have "(LEAST b. P b) = b" by (intro Least_equality) (auto simp: not_less [symmetric])
  then show ?thesis using Some b by auto
qed

lemma tx_room: "tx_ok s \<Longrightarrow> lh_n s + int k < int LOGSIZE \<Longrightarrow> card (dirty s) + k < NBUF"
  using tx_card [of s] by (simp add: tx_ok_def LOGSIZE_def MAXOPBLOCKS_def NBUF_def nat_add_distrib nat_less_iff) linarith

lemma bzero_ok:
  fixes s :: "'m fs_st_scheme"
  assumes "tx_ok s" "n \<notin> heldb s" "n < FSSIZE" "card (dirty s \<union> heldb s) < NBUF" "lh_n s + 1 < int LOGSIZE"
  shows "\<exists>t. bzero ROOTDEV n s = Inr t \<and> tx 1 s t \<and> cur t = (cur s)(n := zero_block) \<and> dirty t = insert n (dirty s) \<and> heldb t = heldb s"
  using logged_update [OF assms, of "\<lambda>_. replicate BSIZE 0"] by (auto simp: bzero_def zero_block_def)

lemma balloc_ok:
  fixes s :: "'m fs_st_scheme"
  assumes ok: "tx_ok s" "one_bitmap s" and ne: "free_map s \<noteq> {}"
    and h: "bmap_block s \<notin> heldb s" "of_nat (Min (free_map s)) \<notin> heldb s" "card (dirty s \<union> heldb s) + 1 < NBUF"
    and r: "lh_n s + 2 < int LOGSIZE"
  shows "\<exists>t. balloc ROOTDEV s = Inr (of_nat (Min (free_map s)), t) \<and> tx 2 s t \<and>
    cur t = (cur s)(bmap_block s := mark_bit (Min (free_map s)) (cur s (bmap_block s)), of_nat (Min (free_map s)) := zero_block) \<and>
    dirty t = insert (of_nat (Min (free_map s))) (insert (bmap_block s) (dirty s)) \<and> heldb t = heldb s"
proof -
  let ?b = "Min (free_map s)" and ?n = "of_nat (Min (free_map s)) :: u32"
  note o = one_bitmapD [OF ok(2)]
  have fin: "finite (free_map s)" by (simp add: free_map_def)
  have b: "?b \<in> free_map s" "?b < unat (sb_size (sb s))" using Min_in [OF fin ne] by (simp_all add: free_map_def)
  note n = o(5) [OF b(2)]
  have bc: "bc_ok s" using ok(1) by (simp add: tx_ok_def)
  have len: "length (cur s (bmap_block s)) = BSIZE" using cur_length [OF bc h(1) o(3)] h(3) by simp
  obtain bp s1 s2 where s2: "bread ROOTDEV (bmap_block s) s = Inr (bp, s1)" "bdata (getb s1 bp) = cur s (bmap_block s)"
      "bio.more s1 = bio.more s" "log_and_release bp (set_data bp (mark_bit ?b) s1) = Inr s2" "tx 1 s s2"
      "cur s2 = (cur s)(bmap_block s := mark_bit ?b (cur s (bmap_block s)))" "dirty s2 = insert (bmap_block s) (dirty s)" "heldb s2 = heldb s"
    using logged_update [OF ok(1) h(1) o(3), of "mark_bit ?b"] h(3) r len by auto
  have sb1: "sb s1 = sb s" using fs_fields(1) [OF more_fields [OF s2(3)]] .
  have k: "min BPB (unat (sb_size (sb s))) = unat (sb_size (sb s))" using o(2) by (simp add: BPB_def BSIZE_def)
  have "find (\<lambda>bi. \<not> bit_set bi (cur s (bmap_block s))) [0..<unat (sb_size (sb s))] = Some ?b"
  proof -
    have e: "\<exists>b<unat (sb_size (sb s)). \<not> bit_set b (cur s (bmap_block s))" using b by (auto simp: free_map_def)
    have "(LEAST b. \<not> bit_set b (cur s (bmap_block s))) = ?b"
    proof (rule Least_equality)
      show "\<not> bit_set ?b (cur s (bmap_block s))" using b(1) by (simp add: free_map_def)
      show "?b \<le> y" if "\<not> bit_set y (cur s (bmap_block s))" for y
        using that b(2) Min_le [OF fin, of y] by (cases "y < unat (sb_size (sb s))") (auto simp: free_map_def)
    qed
    then show ?thesis using e by (simp add: find_least)
  qed
  moreover have "(unat (sb_size (sb s)) + BPB - 1) div BPB = 1"
    using o(1,2) by (intro div_nat_eqI) (simp_all add: BPB_def BSIZE_def)
  moreover have "\<exists>t. bzero ROOTDEV ?n s2 = Inr t \<and> tx 1 s2 t \<and> cur t = (cur s2)(?n := zero_block) \<and>
      dirty t = insert ?n (dirty s2) \<and> heldb t = heldb s2"
  proof (rule bzero_ok)
    show "tx_ok s2" "lh_n s2 + 1 < int LOGSIZE" using s2(5) r by (simp_all add: tx_def)
    show "?n \<notin> heldb s2" "?n < FSSIZE" using h(2) s2(8) n by simp_all
    have "card (insert (bmap_block s) (dirty s \<union> heldb s)) \<le> card (dirty s \<union> heldb s) + 1" by (simp add: card_insert_le_m1)
    then show "card (dirty s2 \<union> heldb s2) < NBUF" using h(3) s2(7,8) by simp
  qed
  then obtain t where t: "bzero ROOTDEV ?n s2 = Inr t" "tx 1 s2 t" "cur t = (cur s2)(?n := zero_block)" "dirty t = insert ?n (dirty s2)"
      "heldb t = heldb s2" by blast
  have "tx 2 s t" using tx_trans [OF s2(5) t(2)] by (simp add: numeral_2_eq_2)
  moreover have "BBLOCK 0 (sb s) = bmap_block s" using o(5) [OF o(1)] by simp
  ultimately show ?thesis using s2 t k sb1 by (simp add: balloc_def)
qed

lemma balloc_full:
  fixes s :: "'m fs_st_scheme"
  assumes ok: "bc_ok s" "one_bitmap s" and e: "free_map s = {}" and h: "bmap_block s \<notin> heldb s" "card (dirty s \<union> heldb s) < NBUF"
  shows "balloc ROOTDEV s = Inl ''balloc: out of blocks''"
proof -
  note o = one_bitmapD [OF ok(2)]
  obtain bp s1 t where s1: "bread ROOTDEV (bmap_block s) s = Inr (bp, s1)" "bdata (getb s1 bp) = cur s (bmap_block s)"
      "brelse bp s1 = Inr t" "bio.more s1 = bio.more s"
    using bcache.rd_rel [OF ok(1) h(1) o(3) disjI2 [OF h(2)]] by auto
  have sb1: "sb s1 = sb s" using fs_fields(1) [OF more_fields [OF s1(4)]] .
  have k: "min BPB (unat (sb_size (sb s))) = unat (sb_size (sb s))" using o(2) by (simp add: BPB_def BSIZE_def)
  have "find (\<lambda>bi. \<not> bit_set bi (cur s (bmap_block s))) [0..<unat (sb_size (sb s))] = None"
    using e by (auto simp: find_None_iff free_map_def)
  moreover have "(unat (sb_size (sb s)) + BPB - 1) div BPB = 1"
    using o(1,2) by (intro div_nat_eqI) (simp_all add: BPB_def BSIZE_def)
  moreover have "BBLOCK 0 (sb s) = bmap_block s" using o(5) [OF o(1)] by simp
  ultimately show ?thesis using s1 k sb1 by (simp add: balloc_def)
qed

lemma bfree_ok:
  fixes s :: "'m fs_st_scheme"
  assumes ok: "tx_ok s" "one_bitmap s" and b: "b < unat (sb_size (sb s))"
    and h: "bmap_block s \<notin> heldb s" "card (dirty s \<union> heldb s) < NBUF" and r: "lh_n s + 1 < int LOGSIZE"
  shows "if b \<in> free_map s then bfree ROOTDEV (of_nat b) s = Inl ''freeing free block''
    else \<exists>t. bfree ROOTDEV (of_nat b) s = Inr t \<and> tx 1 s t \<and>
      cur t = (cur s)(bmap_block s := clear_bit b (cur s (bmap_block s))) \<and> dirty t = insert (bmap_block s) (dirty s) \<and> heldb t = heldb s"
proof -
  note o = one_bitmapD [OF ok(2)]
  note n = o(5) [OF b]
  have bc: "bc_ok s" using ok(1) by (simp add: tx_ok_def)
  have len: "length (cur s (bmap_block s)) = BSIZE" using cur_length [OF bc h(1) o(3) h(2)] .
  obtain bp s1 t where t: "bread ROOTDEV (bmap_block s) s = Inr (bp, s1)" "bdata (getb s1 bp) = cur s (bmap_block s)"
      "log_and_release bp (set_data bp (clear_bit b) s1) = Inr t" "tx 1 s t"
      "cur t = (cur s)(bmap_block s := clear_bit b (cur s (bmap_block s)))" "dirty t = insert (bmap_block s) (dirty s)" "heldb t = heldb s"
    using logged_update [OF ok(1) h(1) o(3) h(2) r, of "clear_bit b"] len by auto
  have "unat (of_nat b :: u32) mod BPB = b" using n by simp
  then show ?thesis using t n b by (auto simp: bfree_def free_map_def Let_def)
qed

text \<open>C12: \<open>balloc\<close> hands out the least block the bitmap shows as free: it marks exactly that block as used, zeroes it and
  changes no other block, all within the transaction; when no block is free it panics.  \<open>bfree\<close> of that block
  restores the bitmap, and freeing a block that is free already panics.\<close>

theorem balloc_bfree:
  fixes s :: "'m fs_st_scheme"
  assumes ok: "tx_ok s" "one_bitmap s" "heldb s = {}" and r: "lh_n s + 4 < int LOGSIZE"
  shows "if free_map s = {} then balloc ROOTDEV s = Inl ''balloc: out of blocks''
    else let b = Min (free_map s) in \<exists>t u. balloc ROOTDEV s = Inr (of_nat b, t) \<and> tx 2 s t \<and> free_map t = free_map s - {b} \<and>
      (\<forall>n. cur t n = (if n = of_nat b then zero_block else if n = bmap_block s then mark_bit b (cur s n) else cur s n)) \<and>
      bfree ROOTDEV (of_nat b) t = Inr u \<and> tx 1 t u \<and> cur u = (cur s)(of_nat b := zero_block) \<and> free_map u = free_map s \<and>
      bfree ROOTDEV (of_nat b) u = Inl ''freeing free block''"
proof -
  have bc: "bc_ok s" using ok(1) by (simp add: tx_ok_def)
  note o = one_bitmapD [OF ok(2)]
  have c: "card (dirty s) + 3 < NBUF" using tx_room [OF ok(1), of 3] r by simp
  let ?b = "Min (free_map s)" and ?n = "of_nat (Min (free_map s)) :: u32" and ?m = "bmap_block s"
  show ?thesis
  proof (cases "free_map s = {}")
    case True
    then show ?thesis using balloc_full [OF bc ok(2)] ok(3) c by simp
  next
    case False
    have b: "?b \<in> free_map s" "?b < unat (sb_size (sb s))" "\<not> bit_set ?b (cur s ?m)"
      using Min_in [of "free_map s"] False by (simp_all add: free_map_def)
    note n = o(5) [OF b(2)]
    have nm: "?n \<noteq> ?m" using o(4) b(1) n by metis
    have len: "length (cur s ?m) = BSIZE" using cur_length [OF bc _ o(3)] ok(3) c by simp
    obtain t where t: "balloc ROOTDEV s = Inr (?n, t)" "tx 2 s t" "cur t = (cur s)(?m := mark_bit ?b (cur s ?m), ?n := zero_block)"
        "dirty t = insert ?n (insert ?m (dirty s))" "heldb t = {}"
      using balloc_ok [OF ok(1,2) False] ok(3) c r by auto
    have ms: "bmap_block t = ?m" "sb t = sb s" using tx_fs [OF t(2)] by (simp_all add: bmap_block_def)
    have cm: "cur t ?m = mark_bit ?b (cur s ?m)" using t(3) nm by simp
    have ft: "free_map t = free_map s - {?b}" using n len cm ms by (auto simp: free_map_def bit_set_mark)
    have okt: "tx_ok t" "one_bitmap t" using t(2) ok(2) ms cm n len by (auto simp: tx_def one_bitmap_def bit_set_mark)
    have fd: "finite (dirty s)" using ok(1) by (simp add: tx_ok_def)
    have "card (dirty t) \<le> card (dirty s) + 2" unfolding t(4) using card_insert_le_m1 fd by (simp add: card_insert_if)
    then have ct: "card (dirty t \<union> heldb t) < NBUF" using c t(5) by simp
    have rt: "lh_n t + 1 < int LOGSIZE" using t(2) r by (simp add: tx_def)
    obtain u where u: "bfree ROOTDEV ?n t = Inr u" "tx 1 t u" "cur u = (cur t)(?m := clear_bit ?b (cur t ?m))" "dirty u = insert ?m (dirty t)" "heldb u = {}"
      using bfree_ok [OF okt _ _ ct rt, of ?b] b(2) ms ft t(5) by auto
    have cu: "cur u = (cur s)(?n := zero_block)" using u(3) t(3) nm clear_mark [OF len _ b(3)] n by auto
    have mu: "bmap_block u = ?m" "sb u = sb s" using tx_fs [OF u(2)] ms by (simp_all add: bmap_block_def)
    have fu: "free_map u = free_map s" using cu mu nm by (auto simp: free_map_def)
    have "dirty u = dirty t" using u(4) t(4) by auto
    then have cu2: "card (dirty u \<union> heldb u) < NBUF" using ct u(5) t(5) by simp
    have oku: "tx_ok u" "one_bitmap u" "bmap_block u \<notin> heldb u" "lh_n u + 1 < int LOGSIZE"
      using u(2,5) t(2) ok(2) mu cu nm r by (auto simp: tx_def one_bitmap_def)
    have "bfree ROOTDEV ?n u = Inl ''freeing free block''"
      using bfree_ok [OF oku(1,2) _ oku(3) cu2 oku(4), of ?b] b mu fu by simp
    then show ?thesis using False t u cu fu ft by (auto simp: Let_def)
  qed
qed

lemma fs_example_bitmap: "one_bitmap fs_example" "free_map fs_example = {64..<1000}"
proof -
  have m: "bmap_block fs_example = 58" "sb_size (sb fs_example) = 1000" "cur fs_example 58 = example_bitmap"
    using fs_example_fs(1) fs_example_cache(5) by (simp_all add: bmap_block_def example_sb_def)
  have b: "bit_set b example_bitmap \<longleftrightarrow> b < 64" if "b < 1000" for b
  proof -
    have "b div 8 < 8 \<longleftrightarrow> b < 64" "b div 8 < 512" using that by (simp_all add: div_less_iff_less_mult)
    moreover have "bit (255 :: u8) (b mod 8)" using bit_mask_iff [of 8 "b mod 8", where ?'a = u8] by (simp add: mask_eq_exp_minus_1)
    ultimately show ?thesis by (auto simp: bit_set_iff example_bitmap_def nth_append)
  qed
  show "one_bitmap fs_example" using m b [of 58] by (simp add: one_bitmap_def FSSIZE_def)
  show "free_map fs_example = {64..<1000}" using m b by (auto simp: free_map_def)
qed

theorem balloc_bfree_witness:
  "\<exists>t u. balloc ROOTDEV fs_example = Inr (64, t) \<and> cur t 64 = zero_block \<and> bfree ROOTDEV 64 t = Inr u \<and> free_map u = {64..<1000}"
proof -
  have r: "lh_n fs_example + 4 < int LOGSIZE" using fs_example_fs(4) by (simp add: LOGSIZE_def MAXOPBLOCKS_def)
  have m: "Min {64..<1000::nat} = 64" by (intro Min_eqI) auto
  show ?thesis
    using balloc_bfree [OF fs_example_tx fs_example_bitmap(1) fs_example_cache(2) r] fs_example_bitmap(2) m by (auto simp: Let_def)
qed

end
