(* ===== verification/XvFsFile.thy ===== *)
theory XvFsFile
  imports XvFsProps
begin

text \<open>
  The contents of a file: an inode with its direct and indirect blocks is an array of bytes, and \<open>readi\<close> and
  \<open>writei\<close> read and change exactly the bytes of that array.
\<close>

subsection \<open>A file as an array of bytes\<close>

definition ind_block :: "'m fs_st_scheme \<Rightarrow> nat \<Rightarrow> u32" where
  "ind_block s ip = i_addrs (geti s ip) ! NDIRECT"

definition fblock :: "'m fs_st_scheme \<Rightarrow> nat \<Rightarrow> nat \<Rightarrow> u32" where
  "fblock s ip bn =
     (if bn < NDIRECT then i_addrs (geti s ip) ! bn else get32 (4 * (bn - NDIRECT)) (cur s (ind_block s ip)))"

definition fbyte :: "'m fs_st_scheme \<Rightarrow> nat \<Rightarrow> nat \<Rightarrow> u8" where
  "fbyte s ip i = cur s (fblock s ip (i div BSIZE)) ! (i mod BSIZE)"

text \<open>The first \<open>nb\<close> blocks of the file are allocated.\<close>

definition fmapped :: "'m fs_st_scheme \<Rightarrow> nat \<Rightarrow> nat \<Rightarrow> bool" where
  "fmapped s ip nb \<longleftrightarrow> nb \<le> MAXFILE \<and> i_dev (geti s ip) = ROOTDEV \<and> (\<forall>bn<nb. fblock s ip bn \<noteq> 0 \<and> fblock s ip bn < FSSIZE) \<and>
     (NDIRECT < nb \<longrightarrow> ind_block s ip \<noteq> 0 \<and> ind_block s ip < FSSIZE)"

definition same_view :: "'m fs_st_scheme \<Rightarrow> 'm fs_st_scheme \<Rightarrow> bool" where
  "same_view s t \<longleftrightarrow> bc_ok t \<and> cur t = cur s \<and> disk t 1 = disk s 1 \<and> dirty t = dirty s \<and> heldb t = heldb s \<and>
     writes t = writes s \<and> mypid t = mypid s \<and> bio.more t = bio.more s"

lemma same_view_trans: "same_view s t \<Longrightarrow> same_view t u \<Longrightarrow> same_view s u"
  by (simp add: same_view_def)

lemma same_view_refl: "bc_ok s \<Longrightarrow> same_view s s"
  by (simp add: same_view_def)

lemma same_view_fs:
  assumes "same_view s t"
  shows "sb t = sb s" "inodes t = inodes s" "ic_lock t = ic_lock s" "geti t = geti s" "fblock t = fblock s" "fbyte t = fbyte s"
    "fmapped t = fmapped s" "bc_ok t"
proof -
  show m: "sb t = sb s" "inodes t = inodes s" "ic_lock t = ic_lock s" "geti t = geti s"
    using fs_fields [OF more_fields, of t s] assms by (simp_all add: same_view_def)
  have c: "cur t = cur s" using assms by (simp add: same_view_def)
  show "fblock t = fblock s" using m c by (simp add: fun_eq_iff fblock_def ind_block_def)
  then show "fbyte t = fbyte s" "fmapped t = fmapped s" using m c by (simp_all add: fun_eq_iff fbyte_def fmapped_def ind_block_def)
  show "bc_ok t" using assms by (simp add: same_view_def)
qed

lemma same_view_tx: "same_view s t \<Longrightarrow> tx_ok s \<Longrightarrow> tx 0 s t"
  using tx_okI_same [of s t] log_fields(7) [of t s] more_fields [of t s] log_same_more [of t s] by (simp add: same_view_def tx_def)

text \<open>Reading a block and releasing it.\<close>

lemma read_view:
  fixes s :: "'m fs_st_scheme"
  assumes "bc_ok s" "heldb s = {}" "card (dirty s) < NBUF" "n < FSSIZE"
  shows "\<exists>bp s1 t. bread ROOTDEV n s = Inr (bp, s1) \<and> bdata (getb s1 bp) = cur s n \<and> geti s1 = geti s \<and> brelse bp s1 = Inr t \<and> same_view s t"
proof -
  obtain bp s1 t where t: "bread ROOTDEV n s = Inr (bp, s1)" "bdata (getb s1 bp) = cur s n" "brelse bp s1 = Inr t" "bc_ok t" "cur t = cur s"
      "disk t 1 = disk s 1" "dirty t = dirty s" "heldb t = heldb s" "writes t = writes s" "(mypid t, bio.more t) = (mypid s, bio.more s)"
      "bio.more s1 = bio.more s"
    using bcache.rd_rel [of s n] assms by auto
  have "geti s1 = geti s" using fs_fields(5) [OF more_fields [OF t(11)]] .
  then show ?thesis using t by (auto simp: same_view_def)
qed

lemma bmap_mapped:
  fixes s :: "'m fs_st_scheme"
  assumes "bc_ok s" "heldb s = {}" "card (dirty s) < NBUF" "fmapped s ip nb" "bn < nb"
  shows "\<exists>t. bmap ip bn s = Inr (fblock s ip bn, t) \<and> same_view s t"
proof (cases "bn < NDIRECT")
  case True
  then show ?thesis using assms same_view_refl by (auto simp: bmap_def fblock_def fmapped_def)
next
  case False
  have f: "ind_block s ip \<noteq> 0" "ind_block s ip < FSSIZE" "fblock s ip bn \<noteq> 0" "bn - NDIRECT < NINDIRECT" "i_dev (geti s ip) = ROOTDEV"
    using assms(4,5) False by (auto simp: fmapped_def MAXFILE_def)
  obtain bp s1 t where t: "bread ROOTDEV (ind_block s ip) s = Inr (bp, s1)" "bdata (getb s1 bp) = cur s (ind_block s ip)"
      "brelse bp s1 = Inr t" "same_view s t"
    using read_view [OF assms(1-3) f(2)] by blast
  show ?thesis using False f t by (simp add: bmap_def Let_def fblock_def ind_block_def [symmetric])
qed

subsection \<open>Reading\<close>

lemma div_mod_add:
  fixes a i k :: nat
  assumes "a mod k + i < k"
  shows "(a + i) div k = a div k" "(a + i) mod k = a mod k + i"
proof -
  have e: "a + i = (a mod k + i) + a div k * k" using div_mult_mod_eq [of a k] by linarith
  show "(a + i) div k = a div k" using assms by (subst e, subst div_mult_self1) auto
  show "(a + i) mod k = a mod k + i" using assms by (subst e, subst mod_mult_self1) auto
qed

lemma fbyte_chunk:
  assumes "length (cur s (fblock s ip (off div BSIZE))) = BSIZE"
  shows "take (chunk off n) (drop (off mod BSIZE) (cur s (fblock s ip (off div BSIZE)))) = map (fbyte s ip) [off..<off + chunk off n]"
proof (rule nth_equalityI)
  have m: "off mod BSIZE + chunk off n \<le> BSIZE" by (simp add: chunk_def BSIZE_def)
  then show "length (take (chunk off n) (drop (off mod BSIZE) (cur s (fblock s ip (off div BSIZE))))) =
      length (map (fbyte s ip) [off..<off + chunk off n])"
    using assms by simp
  fix i assume "i < length (take (chunk off n) (drop (off mod BSIZE) (cur s (fblock s ip (off div BSIZE)))))"
  then have i: "i < chunk off n" "off mod BSIZE + i < BSIZE" using m assms by simp_all
  have "(off + i) div BSIZE = off div BSIZE" "(off + i) mod BSIZE = off mod BSIZE + i"
    using div_mod_add [OF i(2)] by simp_all
  then show "take (chunk off n) (drop (off mod BSIZE) (cur s (fblock s ip (off div BSIZE)))) ! i =
      map (fbyte s ip) [off..<off + chunk off n] ! i"
    using i assms by (simp add: fbyte_def)
qed

lemma readi_loop_ok:
  fixes s :: "'m fs_st_scheme"
  assumes "bc_ok s" "heldb s = {}" "card (dirty s) < NBUF" "fmapped s ip nb" "off + n \<le> nb * BSIZE"
  shows "\<exists>t. readi_loop ip off n out s = Inr (out @ map (fbyte s ip) [off..<off + n], t) \<and> same_view s t"
  using assms
proof (induction n arbitrary: off out s rule: less_induct)
  case (less n)
  show ?case
  proof (cases "n = 0")
    case True
    then show ?thesis using less.prems same_view_refl by (simp add: readi_loop.simps [of ip off 0])
  next
    case False
    let ?m = "chunk off n" and ?a = "fblock s ip (off div BSIZE)"
    have bn: "off div BSIZE < nb" using less.prems(5) False by (simp add: BSIZE_def div_less_iff_less_mult)
    have m: "0 < ?m" "?m \<le> n" using chunk_pos [OF False] chunk_le by auto
    obtain s1 where s1: "bmap ip (off div BSIZE) s = Inr (?a, s1)" "same_view s s1"
      using bmap_mapped [OF less.prems(1-4) bn] by blast
    note v1 = same_view_fs [OF s1(2)] and w1 = s1(2) [unfolded same_view_def]
    have a: "?a < FSSIZE" "i_dev (geti s1 ip) = ROOTDEV" using less.prems(4) bn v1(4) by (auto simp: fmapped_def)
    obtain bp s2 s3 where s3: "bread ROOTDEV ?a s1 = Inr (bp, s2)" "bdata (getb s2 bp) = cur s ?a" "brelse bp s2 = Inr s3" "same_view s1 s3"
      using read_view [OF v1(8) _ _ a(1)] w1 less.prems(2,3) by auto
    have v: "same_view s s3" using same_view_trans [OF s1(2) s3(4)] .
    note v3 = same_view_fs [OF v] and w3 = v [unfolded same_view_def]
    have len: "length (cur s ?a) = BSIZE" using cur_length [OF less.prems(1) _ a(1)] less.prems(2,3) by simp
    obtain t where t: "readi_loop ip (off + ?m) (n - ?m) (out @ map (fbyte s ip) [off..<off + ?m]) s3 =
        Inr ((out @ map (fbyte s ip) [off..<off + ?m]) @ map (fbyte s ip) [off + ?m..<off + n], t)" "same_view s3 t"
      using less.IH [of "n - ?m" s3 "off + ?m" "out @ map (fbyte s ip) [off..<off + ?m]"] m False v3 w3 less.prems by auto
    have "map (fbyte s ip) [off..<off + n] = map (fbyte s ip) [off..<off + ?m] @ map (fbyte s ip) [off + ?m..<off + n]"
      using upt_add_eq_append [of off "off + ?m" "n - ?m"] m by (simp flip: map_append)
    then show ?thesis using False s1(1) a(2) s3(1-3) t same_view_trans [OF v t(2)] fbyte_chunk [OF len, of n]
      by (simp add: readi_loop.simps [of ip off n out s] Let_def)
  qed
qed

definition nblocks :: "nat \<Rightarrow> nat" where
  "nblocks n = (n + BSIZE - 1) div BSIZE"

lemma nblocks_le: "n \<le> nblocks n * BSIZE"
  by (simp add: nblocks_def BSIZE_def)

lemma readi_ok:
  fixes s :: "'m fs_st_scheme"
  assumes "bc_ok s" "heldb s = {}" "card (dirty s) < NBUF" "i_type (geti s ip) \<noteq> T_DEV"
    and "fmapped s ip (nblocks (unat (i_size (geti s ip))))"
  shows "if i_size (geti s ip) < off \<or> 2 ^ 32 \<le> unat off + unat n then readi dsw ip off n s = Inr (-1, [], s)
    else let k = min (unat n) (unat (i_size (geti s ip)) - unat off)
         in \<exists>t. readi dsw ip off n s = Inr (int k, map (fbyte s ip) [unat off..<unat off + k], t) \<and> same_view s t"
proof -
  let ?z = "i_size (geti s ip)"
  have ov: "off + n < off \<longleftrightarrow> 2 ^ 32 \<le> unat off + unat n" by (simp add: word_less_nat_alt unat_plus_if' ) (use unat_lt [of off] unat_lt [of n] in linarith)
  show ?thesis
  proof (cases "?z < off \<or> off + n < off")
    case True
    then show ?thesis using assms(4) ov by (simp add: readi_def Let_def)
  next
    case False
    let ?n = "if ?z < off + n then ?z - off else n"
    have u: "unat (off + n) = unat off + unat n" "unat (?z - off) = unat ?z - unat off"
      using False ov by (simp_all add: unat_plus_if' unat_sub_if' not_less word_le_nat_alt)
    then have k: "unat ?n = min (unat n) (unat ?z - unat off)" "unat off \<le> unat ?z"
      using False by (auto simp: word_less_nat_alt)
    have "unat off + unat ?n \<le> nblocks (unat ?z) * BSIZE" using k nblocks_le [of "unat ?z"] by (auto simp: min_def)
    then obtain t where "readi_loop ip (unat off) (unat ?n) [] s = Inr (map (fbyte s ip) [unat off..<unat off + unat ?n], t)" "same_view s t"
      using readi_loop_ok [OF assms(1-3,5), of "unat off" "unat ?n" "[]"] by auto
    then have "\<exists>t. readi dsw ip off n s = Inr (int (unat ?n), map (fbyte s ip) [unat off..<unat off + unat ?n], t) \<and> same_view s t"
      using False assms(4) by (simp add: readi_def Let_def)
    then show ?thesis using False ov unfolding k(1) by (simp add: Let_def)
  qed
qed

text \<open>C24: reading \<open>n\<close> bytes at \<open>off\<close> from a file whose blocks are allocated returns exactly the bytes of the file from \<open>off\<close> on, cut
  at its end, across direct and indirect blocks, and changes nothing a later read can see; an offset
  past the end, or one that overflows when the count is added, gives \<open>-1\<close>.\<close>

theorem readi_reads:
  fixes s :: "'m fs_st_scheme"
  assumes "bc_ok s" "heldb s = {}" "card (dirty s) < NBUF" "i_type (geti s ip) \<noteq> T_DEV"
    and "fmapped s ip (nblocks (unat (i_size (geti s ip))))"
  shows "if i_size (geti s ip) < off \<or> 2 ^ 32 \<le> unat off + unat n then readi dsw ip off n s = Inr (-1, [], s)
    else let k = min (unat n) (unat (i_size (geti s ip)) - unat off)
         in \<exists>t. readi dsw ip off n s = Inr (int k, map (fbyte s ip) [unat off..<unat off + k], t) \<and> same_view s t"
  by (rule readi_ok [OF assms])

subsection \<open>Writing\<close>

text \<open>No two of the first \<open>nb\<close> blocks of the file are the same, and none is the indirect block.\<close>

definition file_sep :: "'m fs_st_scheme \<Rightarrow> nat \<Rightarrow> nat \<Rightarrow> bool" where
  "file_sep s ip nb \<longleftrightarrow> inj_on (fblock s ip) {..<nb} \<and> (NDIRECT < nb \<longrightarrow> ind_block s ip \<notin> fblock s ip ` {..<nb})"

text \<open>The number of blocks that \<open>n\<close> bytes at \<open>off\<close> touch.\<close>

definition span :: "nat \<Rightarrow> nat \<Rightarrow> nat" where
  "span off n = (if n = 0 then 0 else nblocks (off mod BSIZE + n))"

lemma span_step: "n \<noteq> 0 \<Longrightarrow> span off n = span (off + chunk off n) (n - chunk off n) + 1"
proof (cases "n \<le> BSIZE - off mod BSIZE")
  case True
  assume "n \<noteq> 0"
  then have "(off mod BSIZE + n + BSIZE - 1) div BSIZE = 1" using True by (intro div_nat_eqI) (auto simp: BSIZE_def)
  then show ?thesis using True \<open>n \<noteq> 0\<close> by (simp add: span_def nblocks_def chunk_def)
next
  case False
  let ?m = "BSIZE - off mod BSIZE"
  have r: "off mod BSIZE < BSIZE" by (simp add: BSIZE_def)
  have e: "off + ?m = (off div BSIZE + 1) * BSIZE" using div_mult_mod_eq [of off BSIZE] r unfolding add_mult_distrib by linarith
  then have z: "(off + ?m) mod BSIZE = 0" by (simp only: mod_mult_self2_is_0)
  have "off mod BSIZE + n + BSIZE - 1 = (n - ?m + BSIZE - 1) + BSIZE" using False r by simp
  then have "nblocks (off mod BSIZE + n) = nblocks (n - ?m) + 1" by (simp add: nblocks_def BSIZE_def)
  then show ?thesis using False z by (simp add: span_def chunk_def)
qed

lemma splice_nth:
  assumes "o' + length ys \<le> length d" "j < length d"
  shows "splice o' ys d ! j = (if o' \<le> j \<and> j < o' + length ys then ys ! (j - o') else d ! j)"
  using assms by (auto simp: splice_def nth_append min_def)

lemma length_splice [simp]: "o' + length ys \<le> length d \<Longrightarrow> length (splice o' ys d) = length d"
  by (simp add: splice_def)

text \<open>Changes outside a file leave it alone; a change to one of its blocks changes the bytes of that block.\<close>

lemma file_keep:
  assumes "i_addrs (geti t ip) = i_addrs (geti s ip)" "\<And>m. m \<in> fblock s ip ` {..<nb} \<Longrightarrow> cur t m = cur s m" "NDIRECT < nb \<Longrightarrow> cur t (ind_block s ip) = cur s (ind_block s ip)"
  shows "bn < nb \<Longrightarrow> fblock t ip bn = fblock s ip bn" "i < nb * BSIZE \<Longrightarrow> fbyte t ip i = fbyte s ip i"
proof -
  show f: "fblock t ip bn = fblock s ip bn" if "bn < nb" for bn
    using assms that by (cases "bn < NDIRECT") (auto simp: fblock_def ind_block_def)
  assume "i < nb * BSIZE"
  then have "i div BSIZE < nb" by (simp add: BSIZE_def div_less_iff_less_mult)
  then show "fbyte t ip i = fbyte s ip i" using f assms(2) by (simp add: fbyte_def)
qed

lemma file_upd:
  assumes g: "geti t ip = geti s ip" and c: "cur t = (cur s)(fblock s ip k := d)" and k: "k < nb" and sep: "file_sep s ip nb"
  shows "bn < nb \<Longrightarrow> fblock t ip bn = fblock s ip bn"
    "i < nb * BSIZE \<Longrightarrow> fbyte t ip i = (if i div BSIZE = k then d ! (i mod BSIZE) else fbyte s ip i)"
    "file_sep t ip nb" "fmapped s ip nb \<Longrightarrow> fmapped t ip nb"
proof -
  have ib: "ind_block t ip = ind_block s ip" using g by (simp add: ind_block_def)
  have "cur t (ind_block s ip) = cur s (ind_block s ip)" if "NDIRECT < nb" using sep k c that by (auto simp: file_sep_def)
  then show f: "fblock t ip bn = fblock s ip bn" if "bn < nb" for bn
    using g that ib by (cases "bn < NDIRECT") (auto simp: fblock_def)
  show "file_sep t ip nb" using sep f ib by (auto simp: file_sep_def inj_on_def)
  show "fmapped s ip nb \<Longrightarrow> fmapped t ip nb" using f ib g by (auto simp: fmapped_def)
  assume "i < nb * BSIZE"
  then have b: "i div BSIZE < nb" by (simp add: BSIZE_def div_less_iff_less_mult)
  then have "fblock s ip (i div BSIZE) = fblock s ip k \<longleftrightarrow> i div BSIZE = k"
    using sep k by (auto simp: file_sep_def inj_on_def)
  then show "fbyte t ip i = (if i div BSIZE = k then d ! (i mod BSIZE) else fbyte s ip i)"
    using f [OF b] c by (simp add: fbyte_def)
qed

lemma in_chunk:
  assumes "n \<noteq> 0"
  shows "i div BSIZE = off div BSIZE \<and> off mod BSIZE \<le> i mod BSIZE \<and> i mod BSIZE < off mod BSIZE + chunk off n \<longleftrightarrow>
    off \<le> i \<and> i < off + chunk off n"
    and "i div BSIZE = off div BSIZE \<Longrightarrow> off \<le> i \<Longrightarrow> i mod BSIZE - off mod BSIZE = i - off"
proof -
  have m: "off mod BSIZE + chunk off n \<le> BSIZE" by (simp add: chunk_def BSIZE_def)
  have e: "i = i div BSIZE * BSIZE + i mod BSIZE" "off = off div BSIZE * BSIZE + off mod BSIZE" by simp_all
  have d: "i div BSIZE = off div BSIZE" if "off \<le> i" "i < off + chunk off n"
  proof -
    have "off mod BSIZE + (i - off) < BSIZE" using that m by linarith
    then show ?thesis using div_mod_add(1) [of off BSIZE "i - off"] that by simp
  qed
  show "i div BSIZE = off div BSIZE \<and> off mod BSIZE \<le> i mod BSIZE \<and> i mod BSIZE < off mod BSIZE + chunk off n \<longleftrightarrow>
    off \<le> i \<and> i < off + chunk off n"
    using d e by (metis add_less_cancel_left add_le_cancel_left add.assoc)
  assume "i div BSIZE = off div BSIZE" "off \<le> i"
  then show "i mod BSIZE - off mod BSIZE = i - off" using e by (metis add_diff_cancel_left)
qed

lemma writei_step:
  fixes s :: "'m fs_st_scheme"
  assumes ok: "tx_ok s" "heldb s = {}" "fmapped s ip nb" "file_sep s ip nb" and n: "n \<noteq> 0" "off div BSIZE < nb" "n \<le> length src"
    and r: "lh_n s + 1 < int LOGSIZE"
  shows "\<exists>s1 bp s2 t. bmap ip (off div BSIZE) s = Inr (fblock s ip (off div BSIZE), s1) \<and>
    bread (i_dev (geti s1 ip)) (fblock s ip (off div BSIZE)) s1 = Inr (bp, s2) \<and>
    log_and_release bp (set_data bp (splice (off mod BSIZE) (take (chunk off n) src)) s2) = Inr t \<and>
    tx 1 s t \<and> heldb t = {} \<and> fmapped t ip nb \<and> file_sep t ip nb \<and> (\<forall>bn<nb. fblock t ip bn = fblock s ip bn) \<and>
    (\<forall>m. m \<noteq> fblock s ip (off div BSIZE) \<longrightarrow> cur t m = cur s m) \<and> dirty t = insert (fblock s ip (off div BSIZE)) (dirty s) \<and>
    (\<forall>i<nb * BSIZE. fbyte t ip i = (if off \<le> i \<and> i < off + chunk off n then src ! (i - off) else fbyte s ip i))"
proof -
  let ?m = "chunk off n" and ?a = "fblock s ip (off div BSIZE)" and ?f = "splice (off mod BSIZE) (take (chunk off n) src)"
  have bc: "bc_ok s" using ok(1) by (simp add: tx_ok_def)
  have cd: "card (dirty s) < NBUF" using tx_room [OF ok(1), of 1] r by simp
  obtain s1 where s1: "bmap ip (off div BSIZE) s = Inr (?a, s1)" "same_view s s1" using bmap_mapped [OF bc ok(2) cd ok(3) n(2)] by blast
  note v1 = same_view_fs [OF s1(2)] and w1 = s1(2) [unfolded same_view_def]
  have a: "?a < FSSIZE" "i_dev (geti s1 ip) = ROOTDEV" using ok(3) n(2) v1(4) by (auto simp: fmapped_def)
  have len: "length (cur s ?a) = BSIZE" using cur_length [OF bc _ a(1)] ok(2) cd by simp
  have m: "length (take ?m src) = ?m" "off mod BSIZE + ?m \<le> BSIZE" using n(3) chunk_le [of off n] by (simp_all add: chunk_def BSIZE_def)
  have t1: "tx 0 s s1" using same_view_tx [OF s1(2) ok(1)] .
  have p: "tx_ok s1" "?a \<notin> heldb s1" "card (dirty s1 \<union> heldb s1) < NBUF" "lh_n s1 + 1 < int LOGSIZE" "length (?f (cur s1 ?a)) = BSIZE"
    using t1 w1 ok(2) cd r m len by (auto simp: tx_def)
  obtain bp s2 t where t: "bread ROOTDEV ?a s1 = Inr (bp, s2)" "log_and_release bp (set_data bp ?f s2) = Inr t" "tx 1 s1 t"
      "cur t = (cur s1)(?a := ?f (cur s1 ?a))" "heldb t = heldb s1" "dirty t = insert ?a (dirty s1)"
    using logged_update [OF p(1,2) a(1) p(3,4), of ?f, OF p(5)] by blast
  have tt: "tx 1 s t" using tx_trans [OF t1 t(3)] by simp
  have c: "cur t = (cur s)(?a := ?f (cur s ?a))" using t(4) w1 by simp
  have g: "geti t ip = geti s ip" using tx_fs [OF tt] by simp
  note u = file_upd [OF g c n(2) ok(4)]
  have "fbyte t ip i = (if off \<le> i \<and> i < off + ?m then src ! (i - off) else fbyte s ip i)" if i: "i < nb * BSIZE" for i
  proof -
    have j: "i mod BSIZE < BSIZE" by (simp add: BSIZE_def)
    have sp: "?f (cur s ?a) ! (i mod BSIZE) = (if off mod BSIZE \<le> i mod BSIZE \<and> i mod BSIZE < off mod BSIZE + ?m
        then take ?m src ! (i mod BSIZE - off mod BSIZE) else cur s ?a ! (i mod BSIZE))"
      using splice_nth [of "off mod BSIZE" "take ?m src" "cur s ?a" "i mod BSIZE"] m len j by simp
    show ?thesis
    proof (cases "off \<le> i \<and> i < off + ?m")
      case True
      then show ?thesis using u(2) [OF i] sp in_chunk [OF n(1), of i off] by auto
    next
      case False
      then show ?thesis using u(2) [OF i] sp in_chunk(1) [OF n(1), of i off] by (auto simp: fbyte_def)
    qed
  qed
  then show ?thesis using s1(1) t a(2) tt u(1,3,4) ok(2,3) w1 c by auto
qed

lemma writei_loop_ok:
  fixes s :: "'m fs_st_scheme"
  assumes "tx_ok s" "heldb s = {}" "fmapped s ip nb" "file_sep s ip nb" "off + n \<le> nb * BSIZE" "n \<le> length src"
    "lh_n s + int (span off n) < int LOGSIZE"
  shows "\<exists>t. writei_loop ip src off n s = Inr t \<and> tx (span off n) s t \<and> heldb t = {} \<and> fmapped t ip nb \<and> file_sep t ip nb \<and>
    (\<forall>bn<nb. fblock t ip bn = fblock s ip bn) \<and> (\<forall>m. m \<notin> fblock s ip ` {..<nb} \<longrightarrow> cur t m = cur s m) \<and>
    (dirty s \<subseteq> dirty t \<and> dirty t \<subseteq> dirty s \<union> fblock s ip ` {..<nb} \<and> (0 < n \<longrightarrow> dirty t \<noteq> {})) \<and>
    (\<forall>i<nb * BSIZE. fbyte t ip i = (if off \<le> i \<and> i < off + n then src ! (i - off) else fbyte s ip i))"
  using assms
proof (induction n arbitrary: off src s rule: less_induct)
  case (less n)
  show ?case
  proof (cases "n = 0")
    case True
    then show ?thesis using less.prems by (auto simp: writei_loop.simps [of ip src off 0] span_def tx_def log_same_def)
  next
    case False
    let ?m = "chunk off n" and ?a = "fblock s ip (off div BSIZE)"
    note sp = span_step [OF False, of off]
    have bn: "off div BSIZE < nb" using less.prems(5) False by (simp add: BSIZE_def div_less_iff_less_mult)
    have m: "0 < ?m" "?m \<le> n" using chunk_pos [OF False] chunk_le by auto
    have r: "lh_n s + 1 < int LOGSIZE" using less.prems(7) sp by simp
    obtain s1 bp s2 s3 where s3: "bmap ip (off div BSIZE) s = Inr (?a, s1)" "bread (i_dev (geti s1 ip)) ?a s1 = Inr (bp, s2)"
        "log_and_release bp (set_data bp (splice (off mod BSIZE) (take ?m src)) s2) = Inr s3"
        "tx 1 s s3" "heldb s3 = {}" "fmapped s3 ip nb" "file_sep s3 ip nb" "\<forall>bn<nb. fblock s3 ip bn = fblock s ip bn"
        "\<forall>m. m \<noteq> ?a \<longrightarrow> cur s3 m = cur s m" "dirty s3 = insert ?a (dirty s)"
        "\<forall>i<nb * BSIZE. fbyte s3 ip i = (if off \<le> i \<and> i < off + ?m then src ! (i - off) else fbyte s ip i)"
      using writei_step [OF less.prems(1-4) False bn less.prems(6) r] by blast
    have p: "n - ?m < n" "tx_ok s3" "off + ?m + (n - ?m) \<le> nb * BSIZE" "n - ?m \<le> length (drop ?m src)"
      "lh_n s3 + int (span (off + ?m) (n - ?m)) < int LOGSIZE"
      using m less.prems(5-7) s3(4) sp by (auto simp: tx_def)
    obtain t where t: "writei_loop ip (drop ?m src) (off + ?m) (n - ?m) s3 = Inr t" "tx (span (off + ?m) (n - ?m)) s3 t" "heldb t = {}"
        "fmapped t ip nb" "file_sep t ip nb" "\<forall>bn<nb. fblock t ip bn = fblock s3 ip bn" "\<forall>m. m \<notin> fblock s3 ip ` {..<nb} \<longrightarrow> cur t m = cur s3 m"
        "dirty s3 \<subseteq> dirty t" "dirty t \<subseteq> dirty s3 \<union> fblock s3 ip ` {..<nb}"
        "\<forall>i<nb * BSIZE. fbyte t ip i = (if off + ?m \<le> i \<and> i < off + ?m + (n - ?m) then drop ?m src ! (i - (off + ?m)) else fbyte s3 ip i)"
      using less.IH [OF p(1,2) s3(5-7) p(3-5)] by blast
    have "tx (span off n) s t" using tx_trans [OF s3(4) t(2)] sp by simp
    moreover have "fbyte t ip i = (if off \<le> i \<and> i < off + n then src ! (i - off) else fbyte s ip i)" if i: "i < nb * BSIZE" for i
      using t(10) s3(11) i m less.prems(6) by auto
    moreover have "dirty s \<subseteq> dirty t \<and> dirty t \<subseteq> dirty s \<union> fblock s ip ` {..<nb} \<and> (0 < n \<longrightarrow> dirty t \<noteq> {})"
    proof -
      have "fblock s3 ip ` {..<nb} = fblock s ip ` {..<nb}" using s3(8) by (auto simp: image_iff)
      then show ?thesis using t(8,9) s3(10) bn by auto
    qed
    moreover have "cur t m = cur s m" if "m \<notin> fblock s ip ` {..<nb}" for m
    proof -
      have "fblock s3 ip ` {..<nb} = fblock s ip ` {..<nb}" using s3(8) by (auto simp: image_iff)
      then show ?thesis using t(7) s3(9) that bn by (metis imageI lessThan_iff)
    qed
    ultimately show ?thesis using False s3(1-3,8) t(1,3-6) by (auto simp: writei_loop.simps [of ip src off n s] Let_def)
  qed
qed

text \<open>The inode as \<open>iupdate\<close> copies it to its block.\<close>

definition dinode_of :: "inode \<Rightarrow> dinode" where
  "dinode_of x = \<lparr>d_type = i_type x, d_major = i_major x, d_minor = i_minor x, d_nlink = i_nlink x, d_size = i_size x, d_addrs = i_addrs x\<rparr>"

definition inode_block :: "'m fs_st_scheme \<Rightarrow> nat \<Rightarrow> u32" where
  "inode_block s ip = IBLOCK (i_inum (geti s ip)) (sb s)"

lemma seti_view:
  "bio.truncate (seti ip f s) = bio.truncate s" "tx_ok (seti ip f s) = tx_ok s" "sb (seti ip f s) = sb s" "lh_n (seti ip f s) = lh_n s"
  "ip < length (inodes s) \<Longrightarrow> geti (seti ip f s) ip = f (geti s ip)" "log_st.truncate (seti ip f s) = log_st.truncate s"
proof -
  show v: "bio.truncate (seti ip f s) = bio.truncate s" by (simp add: seti_def bio.truncate_def)
  show "tx_ok (seti ip f s) = tx_ok s" using log_view [OF v] by (simp add: tx_ok_def logged_def seti_def)
  show "log_st.truncate (seti ip f s) = log_st.truncate s" by (simp add: seti_def log_st.truncate_def)
qed (simp_all add: seti_def geti_def)

lemma iupdate_ok:
  fixes s :: "'m fs_st_scheme"
  assumes "tx_ok s" "heldb s = {}" "inode_block s ip < FSSIZE" "i_dev (geti s ip) = ROOTDEV" "length (i_addrs (geti s ip)) = NDIRECT + 1"
    "lh_n s + 1 < int LOGSIZE"
  shows "\<exists>t. iupdate ip s = Inr t \<and> tx 1 s t \<and> heldb t = {} \<and> (\<forall>m. m \<noteq> inode_block s ip \<longrightarrow> cur t m = cur s m) \<and>
    dirty t = insert (inode_block s ip) (dirty s) \<and> get_dinode (unat (i_inum (geti s ip)) mod IPB) (cur t (inode_block s ip)) = dinode_of (geti s ip)"
proof -
  let ?n = "inode_block s ip" and ?k = "unat (i_inum (geti s ip)) mod IPB"
  have c: "card (dirty s \<union> heldb s) < NBUF" using tx_room [OF assms(1), of 1] assms(2,6) by simp
  have len: "length (cur s ?n) = BSIZE" using cur_length [of s ?n] assms c by (simp add: tx_ok_def)
  have "?k < IPB" by (simp add: IPB_def BSIZE_def)
  then have k: "64 * ?k + 64 \<le> length (cur s ?n)" unfolding len by (simp add: IPB_def BSIZE_def)
  obtain bp s1 t where t: "bread ROOTDEV ?n s = Inr (bp, s1)" "log_and_release bp (set_data bp (put_dinode ?k (dinode_of (geti s ip))) s1) = Inr t"
      "tx 1 s t" "cur t = (cur s)(?n := put_dinode ?k (dinode_of (geti s ip)) (cur s ?n))" "heldb t = {}" "dirty t = insert ?n (dirty s)"
    using logged_update [OF assms(1) _ assms(3) c assms(6), of "put_dinode ?k (dinode_of (geti s ip))"] assms(2) len by auto
  have "get_dinode ?k (cur t ?n) = dinode_of (geti s ip)" unfolding t(4)
    using get_put_dinode [OF _ k] assms(5) by (simp add: dinode_of_def)
  then show ?thesis using t assms(4) by (auto simp: iupdate_def Let_def inode_block_def dinode_of_def)
qed

text \<open>A regular file whose first \<open>nb\<close> blocks are allocated, and apart from each other and from its inode's block.\<close>

definition file_ok :: "'m fs_st_scheme \<Rightarrow> nat \<Rightarrow> nat \<Rightarrow> bool" where
  "file_ok s ip nb \<longleftrightarrow> ip < length (inodes s) \<and> i_type (geti s ip) \<noteq> T_DEV \<and> length (i_addrs (geti s ip)) = NDIRECT + 1 \<and>
     unat (i_size (geti s ip)) \<le> nb * BSIZE \<and> fmapped s ip nb \<and> file_sep s ip nb \<and> inode_block s ip < FSSIZE \<and>
     inode_block s ip \<notin> fblock s ip ` {..<nb} \<and> inode_block s ip \<noteq> ind_block s ip"

lemma nblocks_bound: "n \<le> nb * BSIZE \<Longrightarrow> nblocks n \<le> nb"
  unfolding nblocks_def by (rule less_Suc_eq_le [THEN iffD1], rule div_less_iff_less_mult [THEN iffD2]) (simp_all add: BSIZE_def)

lemma fmapped_le: "fmapped s ip nb \<Longrightarrow> k \<le> nb \<Longrightarrow> fmapped s ip k"
  by (auto simp: fmapped_def)

text \<open>\<open>wrote_file s ip nb off xs t\<close>: \<open>t\<close> is \<open>s\<close> with \<open>xs\<close> written into the file at \<open>off\<close>.\<close>

definition wrote_file :: "'m fs_st_scheme \<Rightarrow> nat \<Rightarrow> nat \<Rightarrow> nat \<Rightarrow> u8 list \<Rightarrow> 'm fs_st_scheme \<Rightarrow> bool" where
  "wrote_file s ip nb off xs t \<longleftrightarrow> file_ok t ip nb \<and> tx_ok t \<and> heldb t = {} \<and> disk t 1 = disk s 1 \<and>
     unat (i_size (geti t ip)) = max (unat (i_size (geti s ip))) (if xs = [] then 0 else off + length xs) \<and>
     (\<forall>i<nb * BSIZE. fbyte t ip i = (if off \<le> i \<and> i < off + length xs then xs ! (i - off) else fbyte s ip i)) \<and>
     (\<forall>m. m \<notin> fblock s ip ` {..<nb} \<and> m \<noteq> inode_block s ip \<longrightarrow> cur t m = cur s m)"

text \<open>\<open>write_frame s ip nb t\<close>: what such a write leaves alone, and the blocks it may have logged.\<close>

definition write_frame :: "'m fs_st_scheme \<Rightarrow> nat \<Rightarrow> nat \<Rightarrow> 'm fs_st_scheme \<Rightarrow> bool" where
  "write_frame s ip nb t \<longleftrightarrow> writes t = writes s \<and> mypid t = mypid s \<and> log_same s t \<and> sb t = sb s \<and> ic_lock t = ic_lock s \<and> cwd_ip t = cwd_ip s \<and>
     (\<exists>z. inodes t = (inodes s)[ip := (geti s ip)\<lparr>i_size := z\<rparr>]) \<and> fs_st.more t = fs_st.more s \<and> dirty s \<subseteq> dirty t \<and>
     dirty t \<subseteq> dirty s \<union> fblock s ip ` {..<nb} \<union> {inode_block s ip}"

lemma file_okI:
  assumes "file_ok s ip nb" "geti t ip = (geti s ip)\<lparr>i_size := z\<rparr>" "unat z \<le> nb * BSIZE" "length (inodes t) = length (inodes s)"
    "sb t = sb s" "\<forall>bn<nb. fblock t ip bn = fblock s ip bn"
  shows "file_ok t ip nb"
proof -
  have "fblock t ip ` {..<nb} = fblock s ip ` {..<nb}" using assms(6) by (auto simp: image_iff)
  then show ?thesis using assms by (auto simp: file_ok_def fmapped_def file_sep_def inj_on_def inode_block_def ind_block_def)
qed

lemma writei_ok:
  fixes s :: "'m fs_st_scheme"
  assumes ok: "tx_ok s" "heldb s = {}" "file_ok s ip nb" and off: "off \<le> i_size (geti s ip)"
    and n: "unat off + unat n \<le> nb * BSIZE" "unat n \<le> length src" and r: "lh_n s + int (span (unat off) (unat n)) + 1 < int LOGSIZE"
  shows "\<exists>t. writei dsw ip src off n s = Inr (uint n, t) \<and> wrote_file s ip nb (unat off) (take (unat n) src) t \<and>
    (i_size (geti s ip) < off + n \<longrightarrow>
      get_dinode (unat (i_inum (geti s ip)) mod IPB) (cur t (inode_block s ip)) = dinode_of ((geti s ip)\<lparr>i_size := off + n\<rparr>)) \<and>
    (\<not> i_size (geti s ip) < off + n \<longrightarrow> cur t (inode_block s ip) = cur s (inode_block s ip)) \<and>
    write_frame s ip nb t \<and> (0 < n \<longrightarrow> dirty t \<noteq> {}) \<and> lh_n t \<le> lh_n s + int (span (unat off) (unat n)) + 1"
proof -
  let ?x = "geti s ip" and ?xs = "take (unat n) src"
  note fo = ok(3) [unfolded file_ok_def]
  have nb: "nb \<le> MAXFILE" "fmapped s ip nb" "file_sep s ip nb" using fo by (simp_all add: fmapped_def)
  have mx: "nb * BSIZE \<le> MAXFILE * BSIZE" "MAXFILE * BSIZE < 2 ^ 32" using nb(1) by (simp_all add: MAXFILE_def BSIZE_def NDIRECT_def NINDIRECT_def)
  have "unat off + unat n < 2 ^ 32" using n(1) mx by linarith
  then have u: "unat (off + n) = unat off + unat n" "\<not> off + n < off" by (simp_all add: unat_plus_if' word_less_nat_alt)
  have "unat (of_nat (MAXFILE * BSIZE) :: u32) = MAXFILE * BSIZE" by (simp add: MAXFILE_def BSIZE_def NDIRECT_def NINDIRECT_def)
  then have lim: "\<not> of_nat (MAXFILE * BSIZE) < off + n" using order_trans [OF n(1) mx(1)] u(1) unfolding word_less_nat_alt by linarith
  obtain s1 where s1: "writei_loop ip src (unat off) (unat n) s = Inr s1" "tx (span (unat off) (unat n)) s s1" "heldb s1 = {}"
      "\<forall>bn<nb. fblock s1 ip bn = fblock s ip bn" "\<forall>m. m \<notin> fblock s ip ` {..<nb} \<longrightarrow> cur s1 m = cur s m"
      "dirty s \<subseteq> dirty s1" "dirty s1 \<subseteq> dirty s \<union> fblock s ip ` {..<nb}" "0 < unat n \<longrightarrow> dirty s1 \<noteq> {}"
      "\<forall>i<nb * BSIZE. fbyte s1 ip i = (if unat off \<le> i \<and> i < unat off + unat n then src ! (i - unat off) else fbyte s ip i)"
    using writei_loop_ok [OF ok(1,2) nb(2,3) n] r by auto
  note f1 = tx_fs [OF s1(2)] and x1 = s1(2) [unfolded tx_def]
  have g1: "geti s1 ip = ?x\<lparr>i_size := i_size ?x\<rparr>" using f1 by simp
  have by1: "fbyte s1 ip i = (if unat off \<le> i \<and> i < unat off + length ?xs then ?xs ! (i - unat off) else fbyte s ip i)"
    if "i < nb * BSIZE" for i using s1(9) that n(2) by (auto simp: min_def)
  have xs: "length ?xs = unat n" "?xs = [] \<longleftrightarrow> unat n = 0" using n(2) by auto
  have w: "writei dsw ip src off n s =
      (if 0 < n \<and> i_size ?x < off + n
       then rbind (iupdate ip (seti ip (\<lambda>x. x\<lparr>i_size := off + n\<rparr>) s1)) (\<lambda>s2. Inr (uint n, s2)) else Inr (uint n, s1))"
    using fo u(2) off lim s1(1) f1 by (simp add: writei_def Let_def not_less [symmetric])
  show ?thesis
  proof (cases "i_size ?x < off + n")
    case False
    then have "unat (i_size (geti s1 ip)) = max (unat (i_size ?x)) (if ?xs = [] then 0 else unat off + length ?xs)"
      using u(1) f1 xs by (simp add: word_less_nat_alt)
    moreover have "file_ok s1 ip nb" by (rule file_okI [OF ok(3) g1]) (use f1 s1(4) fo in auto)
    ultimately have "wrote_file s ip nb (unat off) ?xs s1" using by1 s1 x1 by (auto simp: wrote_file_def)
    moreover have "inodes s1 = (inodes s)[ip := ?x\<lparr>i_size := i_size ?x\<rparr>]" using f1 by (simp add: geti_def)
    then have "write_frame s ip nb s1" using s1(6,7) x1 f1 unfolding write_frame_def by blast
    moreover have "cur s1 (inode_block s ip) = cur s (inode_block s ip)" using s1(5) fo by simp
    moreover have "lh_n s1 \<le> lh_n s + int (span (unat off) (unat n)) + 1" using x1 by simp
    ultimately show ?thesis using False w s1(8) by (auto simp: unat_gt_0)
  next
    case True
    then have pos: "0 < n" using off by (metis add.right_neutral not_less word_gt_0)
    let ?y = "?x\<lparr>i_size := off + n\<rparr>" and ?s2 = "seti ip (\<lambda>x. x\<lparr>i_size := off + n\<rparr>) s1"
    have ip: "ip < length (inodes s1)" using fo f1 by simp
    note v = seti_view [where ip = ip and f = "\<lambda>x. x\<lparr>i_size := off + n\<rparr>" and s = s1]
    note lv = log_view [OF v(1)]
    have g2: "geti ?s2 ip = ?y" "inode_block ?s2 ip = inode_block s ip" using v(3,5) ip f1 by (simp_all add: inode_block_def)
    obtain t where t: "iupdate ip ?s2 = Inr t" "tx 1 ?s2 t" "heldb t = {}" "\<forall>m. m \<noteq> inode_block s ip \<longrightarrow> cur t m = cur s1 m" "dirty t = insert (inode_block s ip) (dirty s1)"
        "get_dinode (unat (i_inum ?x) mod IPB) (cur t (inode_block s ip)) = dinode_of ?y"
      using iupdate_ok [of ?s2 ip] g2 v(2,4) lv s1(3) x1 fo r by (auto simp: fmapped_def)
    note f2 = tx_fs [OF t(2)]
    have gt: "geti t ip = ?y" using f2 g2 by simp
    have keep: "fblock t ip bn = fblock s1 ip bn" "fbyte t ip i = fbyte s1 ip i" if "bn < nb" "i < nb * BSIZE" for bn i
    proof -
      have a: "i_addrs (geti t ip) = i_addrs (geti s1 ip)" "ind_block s1 ip = ind_block s ip" using gt f1 by (simp_all add: ind_block_def)
      have "fblock s1 ip ` {..<nb} = fblock s ip ` {..<nb}" using s1(4) by (auto simp: image_iff)
      then have b: "cur t m = cur s1 m" if "m \<in> fblock s1 ip ` {..<nb}" for m using that t(4) fo by metis
      have c: "cur t (ind_block s1 ip) = cur s1 (ind_block s1 ip)" using t(4) fo a(2) by auto
      show "fblock t ip bn = fblock s1 ip bn" "fbyte t ip i = fbyte s1 ip i" using file_keep [OF a(1) b c] that by auto
    qed
    have "file_ok t ip nb"
    proof (rule file_okI [OF ok(3) gt])
      show "unat (off + n) \<le> nb * BSIZE" using n(1) u(1) by simp
      show "length (inodes t) = length (inodes s)" using f2 f1 by (simp add: seti_def)
      show "sb t = sb s" using f2 v(3) f1 by simp
      show "\<forall>bn<nb. fblock t ip bn = fblock s ip bn"
        using keep(1) [where i = 0] s1(4) by (cases "nb = 0") (simp_all add: BSIZE_def)
    qed
    moreover have "unat (i_size (geti t ip)) = max (unat (i_size ?x)) (if ?xs = [] then 0 else unat off + length ?xs)"
      using True gt u(1) xs pos by (simp add: word_less_nat_alt unat_gt_0)
    moreover have "fbyte t ip i = (if unat off \<le> i \<and> i < unat off + length ?xs then ?xs ! (i - unat off) else fbyte s ip i)"
      if "i < nb * BSIZE" for i
      using keep(2) [of "i div BSIZE" i] that by1 by (simp add: BSIZE_def div_less_iff_less_mult)
    moreover have "disk t 1 = disk s 1" using t(2) x1 lv(6) by (simp add: tx_def)
    moreover have "cur t m = cur s m" if "m \<notin> fblock s ip ` {..<nb}" "m \<noteq> inode_block s ip" for m using that t(4) s1(5) by auto
    ultimately have wr: "wrote_file s ip nb (unat off) ?xs t" using t(2,3) by (simp add: wrote_file_def tx_def)
    have "inodes t = (inodes s)[ip := ?y]" using f2 f1 by (simp add: seti_def geti_def)
    moreover have "writes t = writes s" "mypid t = mypid s" "log_same s t" "sb t = sb s" "ic_lock t = ic_lock s" "cwd_ip t = cwd_ip s" "fs_st.more t = fs_st.more s"
      using t(2) x1 f1 f2 lv by (auto simp: tx_def seti_def log_same_def)
    moreover have "dirty s \<subseteq> dirty t" "dirty t \<subseteq> dirty s \<union> fblock s ip ` {..<nb} \<union> {inode_block s ip}"
      using t(5) lv(3) s1(6,7) by auto
    ultimately have "write_frame s ip nb t" unfolding write_frame_def by blast
    moreover have "lh_n t \<le> lh_n s + int (span (unat off) (unat n)) + 1" using t(2) x1 v(4) by (simp add: tx_def)
    ultimately show ?thesis using True pos w t wr by auto
  qed
qed

text \<open>C10: writing \<open>n\<close> bytes at an offset up to the end of a file, inside its allocated blocks, returns \<open>n\<close> and changes exactly
  those bytes of the file: every other byte, and every block outside the file and its inode, stays as it was
  and nothing goes to the disk before the commit.  The size grows to the end of the write if it was smaller, in the
  inode and in its block.  Reading the range back gives the bytes written.\<close>

theorem writei_readi:
  fixes s :: "'m fs_st_scheme"
  assumes "tx_ok s" "heldb s = {}" "file_ok s ip nb" "off \<le> i_size (geti s ip)" "unat off + unat n \<le> nb * BSIZE" "unat n \<le> length src"
    "lh_n s + int (span (unat off) (unat n)) + 1 < int LOGSIZE"
  shows "\<exists>t u. writei dsw ip src off n s = Inr (uint n, t) \<and> wrote_file s ip nb (unat off) (take (unat n) src) t \<and>
    (i_size (geti s ip) < off + n \<longrightarrow>
      get_dinode (unat (i_inum (geti s ip)) mod IPB) (cur t (inode_block s ip)) = dinode_of ((geti s ip)\<lparr>i_size := off + n\<rparr>)) \<and>
    readi dsw ip off n t = Inr (uint n, take (unat n) src, u)"
proof -
  let ?xs = "take (unat n) src"
  obtain t where t: "writei dsw ip src off n s = Inr (uint n, t)" "wrote_file s ip nb (unat off) ?xs t"
      "i_size (geti s ip) < off + n \<longrightarrow>
         get_dinode (unat (i_inum (geti s ip)) mod IPB) (cur t (inode_block s ip)) = dinode_of ((geti s ip)\<lparr>i_size := off + n\<rparr>)"
    using writei_ok [OF assms, of dsw] by blast
  note w = t(2) [unfolded wrote_file_def] let ?z = "unat (i_size (geti t ip))"
  have fo: "file_ok t ip nb" "bc_ok t" "heldb t = {}" "tx_ok t" using w by (auto simp: tx_ok_def)
  have cd: "card (dirty t) < NBUF" using tx_room [OF fo(4), of 0] fo(4) by (simp add: tx_ok_def)
  have z: "unat off \<le> ?z" "unat n \<le> ?z - unat off" "?z \<le> nb * BSIZE"
    using w assms(4,6) fo(1) by (auto simp: word_le_nat_alt file_ok_def max_def split: if_splits)
  have m: "fmapped t ip (nblocks ?z)" using fo(1) fmapped_le nblocks_bound [OF z(3)] by (auto simp: file_ok_def)
  have nl: "2 ^ 32 > unat off + unat n" using z unat_lt [of "i_size (geti t ip)"] by simp
  have bytes: "map (fbyte t ip) [unat off..<unat off + unat n] = ?xs"
    by (rule nth_equalityI) (use w assms(5,6) in auto)
  have ty: "i_type (geti t ip) \<noteq> T_DEV" using fo(1) by (simp add: file_ok_def)
  have "\<not> i_size (geti t ip) < off" using z(1) by (simp add: word_less_nat_alt)
  then obtain u where "readi dsw ip off n t = Inr (int (unat n), map (fbyte t ip) [unat off..<unat off + unat n], u)"
    using readi_ok [OF fo(2,3) cd ty m, of off n dsw] nl z(2) by (auto simp: Let_def min_def)
  then show ?thesis using t bytes by auto
qed

subsection \<open>The example file\<close>

lemma example_file: "fmapped fs_example 0 1" "file_ok fs_example 0 1" "i_size (geti fs_example 0) = 3"
proof -
  have f: "fblock fs_example 0 0 = 60" "ind_block fs_example 0 = 0" "inode_block fs_example 0 = 32"
    by (simp_all add: fblock_def ind_block_def inode_block_def fs_example_fs file_inode_def NDIRECT_def IBLOCK_def example_sb_def IPB_def BSIZE_def)
  show m: "fmapped fs_example 0 1"
    by (simp add: fmapped_def f fs_example_fs(5) file_inode_def FSSIZE_def NDIRECT_def MAXFILE_def)
  have "file_sep fs_example 0 1" by (simp add: file_sep_def NDIRECT_def lessThan_Suc)
  then show "file_ok fs_example 0 1"
    using m f by (simp add: file_ok_def fs_example_fs file_inode_def T_FILE_def T_DEV_def NDIRECT_def BSIZE_def FSSIZE_def lessThan_Suc)
  show "i_size (geti fs_example 0) = 3" by (simp add: fs_example_fs file_inode_def)
qed

theorem readi_reads_witness:
  "\<exists>t. readi no_devices 0 1 10 fs_example = Inr (2, [0, 0], t)"
proof -
  have "i_type (geti fs_example 0) \<noteq> T_DEV" "nblocks (unat (i_size (geti fs_example 0))) = 1"
    using example_file by (simp_all add: fs_example_fs file_inode_def T_FILE_def T_DEV_def nblocks_def BSIZE_def)
  moreover have "fbyte fs_example 0 (Suc 0) = 0" "fbyte fs_example 0 (Suc (Suc 0)) = 0"
    by (simp_all add: fbyte_def fblock_def fs_example_fs fs_example_cache(5) file_inode_def zero_block_def BSIZE_def NDIRECT_def)
  ultimately show ?thesis
    using readi_reads [OF fs_example_cache(1,2), of 0 1 10 no_devices] example_file
    by (auto simp: fs_example_cache(3) NBUF_def Let_def upt_rec)
qed

theorem writei_readi_witness:
  "\<exists>t u. writei no_devices 0 [9, 8, 7] 2 3 fs_example = Inr (3, t) \<and> unat (i_size (geti t 0)) = 5 \<and> readi no_devices 0 2 3 t = Inr (3, [9, 8, 7], u)"
proof -
  have "lh_n fs_example + int (span 2 3) + 1 < int LOGSIZE"
    using fs_example_fs(4) by (simp add: span_def nblocks_def BSIZE_def LOGSIZE_def MAXOPBLOCKS_def)
  then show ?thesis
    using writei_readi [OF fs_example_tx fs_example_cache(2) example_file(2), of 2 3 "[9, 8, 7]" no_devices] example_file(3)
    by (auto simp: BSIZE_def wrote_file_def)
qed

end
