(* ===== verification/XvFsDir.thy ===== *)
theory XvFsDir
  imports XvFsFile
begin

text \<open>
  Directories and paths: a directory is a file of fixed-size entries, \<open>dirlookup\<close> finds the first entry of a name
  and takes a reference to its inode, and \<open>skipelem\<close> cuts a path into its elements.
\<close>

subsection \<open>Names\<close>

lemma namecmp_loop_0:
  "0 \<notin> set p \<Longrightarrow> namecmp_loop n p q = 0 \<longleftrightarrow> take n p = takeWhile (\<lambda>c. c \<noteq> 0) (take n q)"
proof (induction n arbitrary: p q)
  case (Suc n)
  have d: "uint a - uint b = 0 \<longleftrightarrow> a = b" for a b :: u8 by (simp add: word_uint_eq_iff)
  show ?case
  proof (cases p)
    case Nil
    then show ?thesis by (cases q) (auto simp: hd0_def word_uint_eq_iff)
  next
    case (Cons c p')
    then show ?thesis using Suc.IH [of p' "tl q"] Suc.prems d by (cases q) (auto simp: hd0_def uint_0_iff)
  qed
qed simp

text \<open>The name in a directory entry ends at the first zero byte, or fills the entry.\<close>

definition dname :: "dirent \<Rightarrow> u8 list" where
  "dname de = takeWhile (\<lambda>c. c \<noteq> 0) (de_name de)"

lemma namecmp_dname:
  assumes "0 \<notin> set name" "length (de_name de) = DIRSIZ"
  shows "namecmp name (de_name de) = 0 \<longleftrightarrow> dname de = take DIRSIZ name"
  using namecmp_loop_0 [OF assms(1), of DIRSIZ "de_name de"] assms(2) by (auto simp: namecmp_def dname_def)

lemma dname_pad:
  assumes "0 \<notin> set name"
  shows "dname \<lparr>de_inum = i, de_name = pad_name name\<rparr> = take DIRSIZ name"
proof -
  have t: "takeWhile (\<lambda>c. c \<noteq> 0) (xs @ replicate k 0) = (xs :: u8 list)" if "0 \<notin> set xs" for xs k
    using that by (induction xs) (auto simp: takeWhile_replicate)
  have "pad_name name = take DIRSIZ name @ replicate (DIRSIZ - length name) 0"
    by (simp add: pad_name_def take_replicate)
  moreover have "0 \<notin> set (take DIRSIZ name)" using assms by (meson in_set_takeD)
  ultimately show ?thesis using t by (simp add: dname_def)
qed

subsection \<open>The inode cache\<close>

definition in_cache :: "'m fs_st_scheme \<Rightarrow> u32 \<Rightarrow> u32 \<Rightarrow> nat \<Rightarrow> bool" where
  "in_cache s dev inum ip \<longleftrightarrow> ip < length (inodes s) \<and> 0 < i_ref (geti s ip) \<and> i_dev (geti s ip) = dev \<and> i_inum (geti s ip) = inum"

text \<open>\<open>got s dev inum ip t\<close>: \<open>t\<close> is \<open>s\<close> with one more reference to the inode, in entry \<open>ip\<close> of the cache.\<close>

definition got :: "'m fs_st_scheme \<Rightarrow> u32 \<Rightarrow> u32 \<Rightarrow> nat \<Rightarrow> 'm fs_st_scheme \<Rightarrow> bool" where
  "got s dev inum ip t \<longleftrightarrow> in_cache t dev inum ip \<and> t = s\<lparr>inodes := (inodes s)[ip := geti t ip]\<rparr> \<and> i_ref (geti t ip) = i_ref (geti s ip) + 1 \<and>
     (if \<exists>j. in_cache s dev inum j then in_cache s dev inum ip \<and> geti t ip = (geti s ip)\<lparr>i_ref := i_ref (geti s ip) + 1\<rparr>
      else i_ref (geti s ip) = 0 \<and> \<not> i_valid (geti t ip))"

lemma ic_lock_same: "\<not> ic_lock s \<Longrightarrow> s\<lparr>ic_lock := False, inodes := xs\<rparr> = s\<lparr>inodes := xs\<rparr>"
  by (cases s) simp

lemma iget_ok:
  fixes s :: "'m fs_st_scheme"
  assumes lk: "\<not> ic_lock s" and room: "(\<exists>j. in_cache s dev inum j) \<or> (\<exists>j<length (inodes s). i_ref (geti s j) = 0)"
  shows "\<exists>ip t. iget dev inum s = Inr (ip, t) \<and> got s dev inum ip t"
proof -
  have e: "iget dev inum s = Inr (ip, s\<lparr>inodes := (inodes s)[ip := f (geti s ip)]\<rparr>)"
    if "if find_idx (\<lambda>x. 0 < i_ref x \<and> i_dev x = dev \<and> i_inum x = inum) (inodes s) = None
        then find_idx (\<lambda>x. i_ref x = 0) (inodes s) = Some ip \<and> f = (\<lambda>x. x\<lparr>i_dev := dev, i_inum := inum, i_ref := 1, i_valid := False\<rparr>)
        else find_idx (\<lambda>x. 0 < i_ref x \<and> i_dev x = dev \<and> i_inum x = inum) (inodes s) = Some ip \<and> f = (\<lambda>x. x\<lparr>i_ref := i_ref x + 1\<rparr>)" for ip f
    using that lk by (cases s) (auto simp: iget_def ic_acquire_def ic_release_def seti_def geti_def split: if_splits)
  show ?thesis
  proof (cases "find_idx (\<lambda>x. 0 < i_ref x \<and> i_dev x = dev \<and> i_inum x = inum) (inodes s)")
    case (Some ip)
    then have "in_cache s dev inum ip" by (simp add: find_idx_Some in_cache_def geti_def)
    then have "got s dev inum ip (s\<lparr>inodes := (inodes s)[ip := (geti s ip)\<lparr>i_ref := i_ref (geti s ip) + 1\<rparr>]\<rparr>)"
      by (auto simp: got_def in_cache_def geti_def)
    then show ?thesis using e [of ip] Some by auto
  next
    case None
    then have n: "\<nexists>j. in_cache s dev inum j" by (auto simp: find_idx_None in_cache_def geti_def)
    then obtain ip where ip: "find_idx (\<lambda>x. i_ref x = 0) (inodes s) = Some ip"
      using room by (cases "find_idx (\<lambda>x. i_ref x = 0) (inodes s)") (auto simp: find_idx_None geti_def)
    then have "got s dev inum ip (s\<lparr>inodes := (inodes s)[ip := (geti s ip)\<lparr>i_dev := dev, i_inum := inum, i_ref := 1, i_valid := False\<rparr>]\<rparr>)"
      using n by (auto simp: got_def in_cache_def geti_def find_idx_Some)
    then show ?thesis using e [of ip] None ip by auto
  qed
qed

subsection \<open>Lookups\<close>

definition dent :: "'m fs_st_scheme \<Rightarrow> nat \<Rightarrow> nat \<Rightarrow> dirent" where
  "dent s dp k = get_dirent (map (fbyte s dp) [16 * k..<16 * k + 16])"

text \<open>A directory of \<open>n\<close> entries.\<close>

definition dir_ok :: "'m fs_st_scheme \<Rightarrow> nat \<Rightarrow> nat \<Rightarrow> bool" where
  "dir_ok s dp n \<longleftrightarrow> i_type (geti s dp) = T_DIR \<and> unat (i_size (geti s dp)) = 16 * n \<and> fmapped s dp (nblocks (16 * n))"

definition names_entry :: "'m fs_st_scheme \<Rightarrow> nat \<Rightarrow> u8 list \<Rightarrow> nat \<Rightarrow> bool" where
  "names_entry s dp name k \<longleftrightarrow> de_inum (dent s dp k) \<noteq> 0 \<and> dname (dent s dp k) = take DIRSIZ name"

lemma same_view_dir:
  assumes "same_view s t"
  shows "dent t = dent s" "names_entry t = names_entry s" "dir_ok t = dir_ok s"
proof -
  show d: "dent t = dent s" by (intro ext) (simp add: dent_def same_view_fs(6) [OF assms])
  then show "names_entry t = names_entry s" by (simp add: fun_eq_iff names_entry_def)
  show "dir_ok t = dir_ok s" using same_view_fs [OF assms] by (simp add: fun_eq_iff dir_ok_def)
qed

lemma read_dent:
  fixes s :: "'m fs_st_scheme"
  assumes "bc_ok s" "heldb s = {}" "card (dirty s) < NBUF" "dir_ok s dp n" "k < n"
  shows "\<exists>d t. readi dsw dp (of_nat (16 * k)) 16 s = Inr (16, d, t) \<and> get_dirent d = dent s dp k \<and> same_view s t"
proof -
  note d = assms(4) [unfolded dir_ok_def]
  have m: "nblocks (16 * n) \<le> MAXFILE" using d by (simp add: fmapped_def)
  have "16 * n \<le> nblocks (16 * n) * BSIZE" by (rule nblocks_le)
  also have "\<dots> \<le> MAXFILE * BSIZE" using m by simp
  finally have "16 * n \<le> 71680" by (simp add: MAXFILE_def BSIZE_def NDIRECT_def NINDIRECT_def)
  then have u: "unat (of_nat (16 * k) :: u32) = 16 * k" "16 * k + 16 < 4294967296" "16 * k + 16 \<le> 16 * n"
    using assms(5) by (simp_all only: unat_of_nat) (simp_all add: take_bit_nat_eq_self)
  then have "\<not> i_size (geti s dp) < of_nat (16 * k)" using d unfolding word_less_nat_alt by simp
  moreover have "i_type (geti s dp) \<noteq> T_DEV" "fmapped s dp (nblocks (unat (i_size (geti s dp))))" using d by (simp_all add: T_DIR_def T_DEV_def)
  ultimately obtain t where "readi dsw dp (of_nat (16 * k)) 16 s = Inr (16, map (fbyte s dp) [16 * k..<16 * k + 16], t)" "same_view s t"
    using readi_ok [OF assms(1-3), of dp "of_nat (16 * k)" 16 dsw] u d by (auto simp: Let_def min_def)
  then show ?thesis by (auto simp: dent_def)
qed

lemma length_dent_name: "length (de_name (dent s dp k)) = DIRSIZ"
  by (simp add: dent_def get_dirent_def DIRSIZ_def)

lemma dirlookup_loop_ok:
  fixes s :: "'m fs_st_scheme"
  assumes "bc_ok s" "heldb s = {}" "card (dirty s) < NBUF" "dir_ok s dp n" "0 \<notin> set name" "set ks \<subseteq> {..<n}"
  shows "\<exists>t. same_view s t \<and> dirlookup_loop dsw dp name (map (\<lambda>k. of_nat (16 * k)) ks) s =
    (case find (names_entry s dp name) ks of None \<Rightarrow> Inr (None, t)
     | Some k \<Rightarrow> rbind (iget (i_dev (geti s dp)) (ucast (de_inum (dent s dp k))) t) (\<lambda>(ip, u). Inr (Some (ip, of_nat (16 * k)), u)))"
  using assms
proof (induction ks arbitrary: s)
  case Nil
  then show ?case using same_view_refl by auto
next
  case (Cons k ks)
  obtain d s1 where s1: "readi dsw dp (of_nat (16 * k)) 16 s = Inr (16, d, s1)" "get_dirent d = dent s dp k" "same_view s s1"
    using read_dent [OF Cons.prems(1-4), of k dsw] Cons.prems(6) by auto
  note v = same_view_fs [OF s1(3)] same_view_dir [OF s1(3)] and w = s1(3) [unfolded same_view_def]
  have nm: "names_entry s dp name k \<longleftrightarrow> de_inum (dent s dp k) \<noteq> 0 \<and> namecmp name (de_name (dent s dp k)) = 0"
    using namecmp_dname [OF Cons.prems(5) length_dent_name [of s dp k]] by (simp add: names_entry_def)
  show ?case
  proof (cases "names_entry s dp name k")
    case True
    then show ?thesis using s1 nm v(4) by (intro exI [of _ s1]) (simp del: of_nat_mult)
  next
    case False
    have p: "bc_ok s1" "heldb s1 = {}" "card (dirty s1) < NBUF" "dir_ok s1 dp n" "set ks \<subseteq> {..<n}"
      using Cons.prems v w by simp_all
    obtain t where "same_view s1 t" "dirlookup_loop dsw dp name (map (\<lambda>k. of_nat (16 * k)) ks) s1 =
        (case find (names_entry s dp name) ks of None \<Rightarrow> Inr (None, t)
         | Some k \<Rightarrow> rbind (iget (i_dev (geti s dp)) (ucast (de_inum (dent s dp k))) t) (\<lambda>(ip, u). Inr (Some (ip, of_nat (16 * k)), u)))"
      using Cons.IH [of s1, OF p(1-3) _ Cons.prems(5) p(5)] p(4) unfolding v(4,9,10) by blast
    then show ?thesis using s1 nm False same_view_trans [OF s1(3)] by (intro exI [of _ t]) (auto simp: Let_def simp del: of_nat_mult)
  qed
qed

text \<open>C25: looking up a name in a directory finds the first entry whose inode number is not zero and whose name, up to
  the first zero byte, is the first 14 bytes of the name: the result is its inode, with one reference more in
  the inode cache, and the offset of the entry.  If there is none the lookup fails, and neither case changes a
  block.\<close>

theorem dirlookup_finds:
  fixes s :: "'m fs_st_scheme"
  assumes "bc_ok s" "heldb s = {}" "card (dirty s) < NBUF" "dir_ok s dp n" "0 \<notin> set name"
    and "\<not> ic_lock s" "\<exists>j<length (inodes s). i_ref (geti s j) = 0"
  shows "\<exists>t. same_view s t \<and>
    (if \<exists>k<n. names_entry s dp name k
     then let k = LEAST k. names_entry s dp name k in
       \<exists>ip u. dirlookup dsw dp name s = Inr (Some (ip, of_nat (16 * k)), u) \<and> got t ROOTDEV (ucast (de_inum (dent s dp k))) ip u
     else dirlookup dsw dp name s = Inr (None, t))"
proof -
  note d = assms(4) [unfolded dir_ok_def]
  have "(16 * n + 15) div 16 = n" by simp
  then have o: "dir_offsets (i_size (geti s dp)) = map (\<lambda>k. of_nat (16 * k)) [0..<n]" using d by (simp add: dir_offsets_def)
  have sub: "set [0..<n] \<subseteq> {..<n}" by auto
  obtain t where t: "same_view s t" "dirlookup_loop dsw dp name (map (\<lambda>k. of_nat (16 * k)) [0..<n]) s =
    (case find (names_entry s dp name) [0..<n] of None \<Rightarrow> Inr (None, t)
     | Some k \<Rightarrow> rbind (iget (i_dev (geti s dp)) (ucast (de_inum (dent s dp k))) t) (\<lambda>(ip, u). Inr (Some (ip, of_nat (16 * k)), u)))"
    using dirlookup_loop_ok [OF assms(1-5) sub, of dsw] by blast
  have l: "dirlookup dsw dp name s = dirlookup_loop dsw dp name (map (\<lambda>k. of_nat (16 * k)) [0..<n]) s" using d o by (simp add: dirlookup_def)
  have dv: "i_dev (geti s dp) = ROOTDEV" using d by (simp add: fmapped_def)
  note v = same_view_fs [OF t(1)]
  have ig: "\<exists>ip u. iget ROOTDEV i t = Inr (ip, u) \<and> got t ROOTDEV i ip u" for i
    by (rule iget_ok) (use assms(6,7) v in auto)
  show ?thesis
  proof (cases "\<exists>k<n. names_entry s dp name k")
    case True
    let ?k = "LEAST k. names_entry s dp name k"
    obtain ip u where "iget ROOTDEV (ucast (de_inum (dent s dp ?k))) t = Inr (ip, u)" "got t ROOTDEV (ucast (de_inum (dent s dp ?k))) ip u"
      using ig by blast
    then show ?thesis using True t l dv by (intro exI [of _ t]) (auto simp: find_least Let_def)
  next
    case False
    then have "find (names_entry s dp name) [0..<n] = None" by (simp add: find_None_iff)
    then show ?thesis using False t l by (intro exI [of _ t]) simp
  qed
qed

lemma example_dir_ok: "dir_ok fs_example (Suc 0) 2" "dent fs_example (Suc 0) 0 = \<lparr>de_inum = 2, de_name = pad_name [46]\<rparr>"
  "dent fs_example (Suc 0) (Suc 0) = \<lparr>de_inum = 1, de_name = pad_name [97, 98]\<rparr>"
proof -
  have f: "fblock fs_example (Suc 0) 0 = 61" "ind_block fs_example (Suc 0) = 0" "i_dev (geti fs_example (Suc 0)) = ROOTDEV"
    by (simp_all add: fblock_def ind_block_def fs_example_fs dir_inode_def file_inode_def NDIRECT_def)
  have "nblocks 32 = 1" by (simp add: nblocks_def BSIZE_def)
  then show "dir_ok fs_example (Suc 0) 2"
    using f by (simp add: dir_ok_def fmapped_def fs_example_fs(6) dir_inode_def T_DIR_def FSSIZE_def NDIRECT_def MAXFILE_def)
  have bytes: "map (fbyte fs_example (Suc 0)) [16 * k..<16 * k + 16] = take 16 (drop (16 * k) example_dir)" if "k < 2" for k
  proof (rule nth_equalityI)
    show "length (map (fbyte fs_example (Suc 0)) [16 * k..<16 * k + 16]) = length (take 16 (drop (16 * k) example_dir))"
      using that example_blocks(2) by (simp add: BSIZE_def)
    fix i assume "i < length (map (fbyte fs_example (Suc 0)) [16 * k..<16 * k + 16])"
    then have i: "i < 16" "(16 * k + i) div 512 = 0" "16 * k + i < 512" using that by auto
    then show "map (fbyte fs_example (Suc 0)) [16 * k..<16 * k + 16] ! i = take 16 (drop (16 * k) example_dir) ! i"
      using f example_blocks(2) by (simp add: fbyte_def fs_example_cache(5) BSIZE_def)
  qed
  let ?a = "\<lparr>de_inum = 2, de_name = pad_name [46]\<rparr>" and ?b = "\<lparr>de_inum = 1, de_name = pad_name [97, 98]\<rparr>"
  have l: "length (put_dirent ?a) = 16" "length (put_dirent ?b) = 16" by (simp_all add: put_dirent_def pad_name_def DIRSIZ_def)
  have "take 16 (drop 0 example_dir) = put_dirent ?a" "take 16 (drop 16 example_dir) = put_dirent ?b"
    unfolding example_dir_def using l by simp_all
  then show "dent fs_example (Suc 0) 0 = ?a" "dent fs_example (Suc 0) (Suc 0) = ?b"
    using bytes [of 0] bytes [of 1] get_put_dirent [of ?a] get_put_dirent [of ?b]
    by (simp_all add: dent_def pad_name_def DIRSIZ_def)
qed

theorem dirlookup_finds_witness:
  "\<exists>ip u. dirlookup no_devices 1 [97, 98] fs_example = Inr (Some (ip, 16), u) \<and> i_inum (geti u ip) = 1"
proof -
  have n: "dname (dent fs_example (Suc 0) 0) = [46]" "dname (dent fs_example (Suc 0) (Suc 0)) = [97, 98]"
    using dname_pad [of "[46]"] dname_pad [of "[97, 98]"] by (simp_all add: example_dir_ok DIRSIZ_def)
  then have e: "names_entry fs_example (Suc 0) [97, 98] (Suc 0)" "\<not> names_entry fs_example (Suc 0) [97, 98] 0"
    by (simp_all add: names_entry_def example_dir_ok DIRSIZ_def)
  have l: "(LEAST k. names_entry fs_example (Suc 0) [97, 98] k) = Suc 0"
    by (rule Least_equality) (use e in \<open>auto simp: Suc_le_eq intro: gr0I\<close>)
  have x: "\<exists>k<2. names_entry fs_example (Suc 0) [97, 98] k" using e(1) by (intro exI [of _ "Suc 0"]) simp
  have f: "\<exists>j<length (inodes fs_example). i_ref (geti fs_example j) = 0" using fs_example_fs by (intro exI [of _ 2]) simp
  show ?thesis
    using dirlookup_finds [OF fs_example_cache(1,2) _ example_dir_ok(1), of "[97, 98]" no_devices] fs_example_fs(3) f x l
    by (auto simp: example_dir_ok(3) fs_example_cache(3) NBUF_def Let_def got_def in_cache_def)
qed

subsection \<open>Paths\<close>

text \<open>The elements of a path: the non-empty parts between slashes.\<close>

fun split_slash :: "u8 list \<Rightarrow> u8 list list" where
  "split_slash [] = [[]]"
| "split_slash (c # cs) = (if c = slash then [] # split_slash cs else (c # hd (split_slash cs)) # tl (split_slash cs))"

definition elems :: "u8 list \<Rightarrow> u8 list list" where
  "elems path = filter (\<lambda>e. e \<noteq> []) (split_slash path)"

lemma split_slash_ne: "split_slash p \<noteq> []"
  by (cases p) auto

lemma elems_slashes: "elems (dropWhile (\<lambda>c. c = slash) p) = elems p"
  by (induction p) (auto simp: elems_def)

lemma hd0_slashes: "hd0 (dropWhile (\<lambda>c. c = slash) p) \<noteq> slash"
  by (induction p) (auto simp: hd0_def slash_def)

lemma split_slash_word:
  "split_slash p = takeWhile (\<lambda>c. c \<noteq> slash) p #
     (case dropWhile (\<lambda>c. c \<noteq> slash) p of [] \<Rightarrow> [] | _ # q \<Rightarrow> split_slash q)"
  by (induction p) auto

lemma elems_word:
  assumes "p \<noteq> []" "hd p \<noteq> slash"
  shows "elems p = takeWhile (\<lambda>c. c \<noteq> slash) p # elems (dropWhile (\<lambda>c. c \<noteq> slash) p)"
proof -
  have w: "takeWhile (\<lambda>c. c \<noteq> slash) p \<noteq> []" using assms by (cases p) auto
  show ?thesis
  proof (cases "dropWhile (\<lambda>c. c \<noteq> slash) p")
    case Nil
    then have "split_slash p = [takeWhile (\<lambda>c. c \<noteq> slash) p]" using split_slash_word [of p] unfolding Nil by simp
    then show ?thesis using w unfolding Nil by (simp add: elems_def)
  next
    case (Cons c q)
    have "c = slash" using Cons hd_dropWhile [of "\<lambda>c. c \<noteq> slash" p] by simp
    moreover have "split_slash p = takeWhile (\<lambda>c. c \<noteq> slash) p # split_slash q" using split_slash_word [of p] unfolding Cons by simp
    ultimately show ?thesis using w unfolding Cons by (simp add: elems_def)
  qed
qed

lemma elems_Nil: "hd0 r \<noteq> slash \<Longrightarrow> elems r = [] \<longleftrightarrow> r = []"
  using elems_word [of r] by (cases r) (auto simp: hd0_def elems_def)

text \<open>Repeated calls of \<open>skipelem\<close> enumerate exactly the non-empty elements between the slashes of a path, in order
  and each cut to 14 bytes; it fails exactly when none is left, and the rest it returns never starts with a slash,
  so an empty rest tells \<open>namex\<close> that the element was the last one.\<close>

theorem skipelem_elems:
  "case skipelem path of
     None \<Rightarrow> elems path = []
   | Some (name, rest) \<Rightarrow> elems path = takeWhile (\<lambda>c. c \<noteq> slash) (dropWhile (\<lambda>c. c = slash) path) # elems rest \<and>
       name = take DIRSIZ (hd (elems path)) \<and> hd0 rest \<noteq> slash \<and> (rest = [] \<longleftrightarrow> length (elems path) = 1)"
proof -
  let ?p = "dropWhile (\<lambda>c. c = slash) path"
  have e: "elems path = elems ?p" by (simp add: elems_slashes)
  show ?thesis
  proof (cases "?p = []")
    case True
    have "elems path = []" unfolding e True by (simp add: elems_def)
    moreover have "skipelem path = None" unfolding skipelem_def True by simp
    ultimately show ?thesis by simp
  next
    case False
    have h: "hd ?p \<noteq> slash" using hd_dropWhile [OF False] by simp
    let ?w = "takeWhile (\<lambda>c. c \<noteq> slash) ?p" and ?r = "dropWhile (\<lambda>c. c = slash) (dropWhile (\<lambda>c. c \<noteq> slash) ?p)"
    have s: "skipelem path = Some (take DIRSIZ ?w, ?r)" using False by (simp add: skipelem_def Let_def)
    have w: "elems path = ?w # elems ?r" using e elems_word [OF False h] elems_slashes by simp
    have r: "hd0 ?r \<noteq> slash" by (rule hd0_slashes)
    have "elems ?r = [] \<longleftrightarrow> ?r = []" using elems_Nil [OF r] .
    then show ?thesis using s w r by simp
  qed
qed

end
