(* ===== verification/XvFcntl.thy ===== *)
theory XvFcntl
  imports Prelude
begin

text \<open>
  The flags of \<open>open\<close>, \<^verbatim>\<open>lab-2/fcntl.h\<close>, shared by the system calls and the shell.
\<close>

definition O_RDONLY :: nat where "O_RDONLY = 0"
definition O_WRONLY :: nat where "O_WRONLY = 1"
definition O_RDWR :: nat where "O_RDWR = 2"
definition O_CREATE :: nat where "O_CREATE = 512"

end
