(* ===== verification/XvFile.thy ===== *)
theory XvFile
  imports XvFs XvPipe XvFcntl
begin

text \<open>
  The file table of \<^verbatim>\<open>lab-2/file.c\<close> with \<open>pipealloc\<close> of \<^verbatim>\<open>lab-2/pipe.c\<close>: open files over inodes and pipes.  An open file is
  named by its index in the table.  The state is the file system of \<open>XvFs\<close> with the table and, in one
  field, the processes and pipes of \<open>XvPipe\<close>, on which the pipe operations work.
\<close>

definition NFILE :: nat where "NFILE = 100"

datatype fdtype = FD_NONE | FD_PIPE | FD_INODE

record file_rec =
  f_type :: fdtype
  f_ref :: int
  f_readable :: bool
  f_writable :: bool
  f_pipe :: u32
  f_ip :: nat
  f_off :: u32

record 'k file_st = fs_st +
  ft_lock :: bool
  ftable :: "file_rec list"
  pst :: "'k pipe_st"

definition getf :: "('k, 'm) file_st_scheme \<Rightarrow> nat \<Rightarrow> file_rec" where
  "getf s f = ftable s ! f"

definition setf :: "nat \<Rightarrow> (file_rec \<Rightarrow> file_rec) \<Rightarrow> ('k, 'm) file_st_scheme \<Rightarrow> ('k, 'm) file_st_scheme" where
  "setf f g s = s\<lparr>ftable := (ftable s)[f := g (ftable s ! f)]\<rparr>"

definition ft_acquire :: "('k, 'm) file_st_scheme \<Rightarrow> ('k, 'm) file_st_scheme res" where
  "ft_acquire s = rbind (lk_acquire (ft_lock s)) (\<lambda>b. Inr (s\<lparr>ft_lock := b\<rparr>))"

definition ft_release :: "('k, 'm) file_st_scheme \<Rightarrow> ('k, 'm) file_st_scheme res" where
  "ft_release s = rbind (lk_release (ft_lock s)) (\<lambda>b. Inr (s\<lparr>ft_lock := b\<rparr>))"

definition fileinit :: "('k, 'm) file_st_scheme \<Rightarrow> ('k, 'm) file_st_scheme" where
  "fileinit s = s\<lparr>ft_lock := False\<rparr>"

definition filealloc :: "('k, 'm) file_st_scheme \<Rightarrow> (nat option \<times> ('k, 'm) file_st_scheme) res" where
  "filealloc s =
     rbind (ft_acquire s) (\<lambda>s1.
     case find_idx (\<lambda>x. f_ref x = 0) (ftable s1) of
       Some f \<Rightarrow> rbind (ft_release (setf f (\<lambda>x. x\<lparr>f_ref := 1\<rparr>) s1)) (\<lambda>s2. Inr (Some f, s2))
     | None \<Rightarrow> rbind (ft_release s1) (\<lambda>s2. Inr (None, s2)))"

definition filedup :: "nat \<Rightarrow> ('k, 'm) file_st_scheme \<Rightarrow> (nat \<times> ('k, 'm) file_st_scheme) res" where
  "filedup f s =
     rbind (ft_acquire s) (\<lambda>s1.
     if f_ref (getf s1 f) < 1 then Inl ''filedup''
     else rbind (ft_release (setf f (\<lambda>x. x\<lparr>f_ref := f_ref x + 1\<rparr>) s1)) (\<lambda>s2. Inr (f, s2)))"

text \<open>Pipe operations on their field of the state.\<close>

definition on_pipes :: "('k pipe_st \<Rightarrow> ('a \<times> 'k pipe_st) res) \<Rightarrow> ('k, 'm) file_st_scheme \<Rightarrow> ('a \<times> ('k, 'm) file_st_scheme) res" where
  "on_pipes g s = rbind (g (pst s)) (\<lambda>(x, p). Inr (x, s\<lparr>pst := p\<rparr>))"

definition fileclose :: "'k svc \<Rightarrow> nat \<Rightarrow> ('k, 'm) file_st_scheme \<Rightarrow> ('k, 'm) file_st_scheme res" where
  "fileclose svc f s =
     rbind (ft_acquire s) (\<lambda>s1.
     if f_ref (getf s1 f) < 1 then Inl ''fileclose''
     else let s2 = setf f (\<lambda>x. x\<lparr>f_ref := f_ref x - 1\<rparr>) s1
          in if 0 < f_ref (getf s2 f) then ft_release s2
             else let ff = getf s2 f
                  in rbind (ft_release (setf f (\<lambda>x. x\<lparr>f_ref := 0, f_type := FD_NONE\<rparr>) s2)) (\<lambda>s3.
                     case f_type ff of
                       FD_PIPE \<Rightarrow> rbind (pipeclose svc (f_pipe ff) (f_writable ff) (pst s3)) (\<lambda>p. Inr (s3\<lparr>pst := p\<rparr>))
                     | FD_INODE \<Rightarrow> rbind (begin_op s3) (\<lambda>s4. rbind (iput (f_ip ff) s4) end_op)
                     | FD_NONE \<Rightarrow> Inr s3))"

definition filestat :: "nat \<Rightarrow> ('k, 'm) file_st_scheme \<Rightarrow> (int \<times> stat option \<times> ('k, 'm) file_st_scheme) res" where
  "filestat f s =
     (if f_type (getf s f) = FD_INODE
      then let ip = f_ip (getf s f)
           in rbind (ilock ip s) (\<lambda>s1. let st = stati ip s1 in rbind (iunlock ip s1) (\<lambda>s2. Inr (0, Some st, s2)))
      else Inr (-1, None, s))"

definition fileread ::
  "(nat \<Rightarrow> ('k, 'm) file_st_ext devsw) \<Rightarrow> nat \<Rightarrow> int \<Rightarrow> ('k, 'm) file_st_scheme \<Rightarrow> (pipe_out \<times> u8 list \<times> ('k, 'm) file_st_scheme) res" where
  "fileread dsw f n s =
     (if \<not> f_readable (getf s f) then Inr (Returned (-1) 0, [], s)
      else case f_type (getf s f) of
        FD_PIPE \<Rightarrow>
          rbind (piperead (f_pipe (getf s f)) n (pst s)) (\<lambda>(r, out, p). Inr (r, out, s\<lparr>pst := p\<rparr>))
      | FD_INODE \<Rightarrow>
          rbind (ilock (f_ip (getf s f)) s) (\<lambda>s1.
          rbind (readi dsw (f_ip (getf s1 f)) (f_off (getf s1 f)) (word_of_int n) s1) (\<lambda>(r, out, s2).
          let s3 = (if 0 < r then setf f (\<lambda>x. x\<lparr>f_off := f_off x + word_of_int r\<rparr>) s2 else s2)
          in rbind (iunlock (f_ip (getf s3 f)) s3) (\<lambda>s4. Inr (Returned r (length out), out, s4))))
      | FD_NONE \<Rightarrow> Inl ''fileread'')"

text \<open>The most bytes \<open>filewrite\<close> writes in one transaction.\<close>

definition max_write :: int where
  "max_write = (int MAXOPBLOCKS - 1 - 1 - 2) div 2 * 512"

lemma max_write_eq: "max_write = 1536"
  by (simp add: max_write_def MAXOPBLOCKS_def)

definition write_chunk ::
  "(nat \<Rightarrow> ('k, 'm) file_st_ext devsw) \<Rightarrow> nat \<Rightarrow> u8 list \<Rightarrow> int \<Rightarrow> ('k, 'm) file_st_scheme \<Rightarrow> (int \<times> ('k, 'm) file_st_scheme) res" where
  "write_chunk dsw f addr n1 s =
     rbind (begin_op s) (\<lambda>s1.
     rbind (ilock (f_ip (getf s1 f)) s1) (\<lambda>s2.
     rbind (writei dsw (f_ip (getf s2 f)) addr (f_off (getf s2 f)) (word_of_int n1) s2) (\<lambda>(r, s3).
     let s4 = (if 0 < r then setf f (\<lambda>x. x\<lparr>f_off := f_off x + word_of_int r\<rparr>) s3 else s3)
     in rbind (iunlock (f_ip (getf s4 f)) s4) (\<lambda>s5. rbind (end_op s5) (\<lambda>s6. Inr (r, s6))))))"

function filewrite_loop ::
  "(nat \<Rightarrow> ('k, 'm) file_st_ext devsw) \<Rightarrow> nat \<Rightarrow> u8 list \<Rightarrow> int \<Rightarrow> int \<Rightarrow> ('k, 'm) file_st_scheme \<Rightarrow> (int \<times> ('k, 'm) file_st_scheme) res" where
  "filewrite_loop dsw f addr i n s =
     (if i < n
      then let n1 = min (n - i) max_write
           in case write_chunk dsw f (drop (nat i) addr) n1 s of Inl e \<Rightarrow> Inl e
              | Inr (r, s1) \<Rightarrow>
                  if r < 0 then Inr (i, s1)
                  else if r \<noteq> n1 then Inl ''short filewrite''
                  else filewrite_loop dsw f addr (i + r) n s1
      else Inr (i, s))"
  by pat_completeness auto
termination
  by (relation "measure (\<lambda>(dsw, f, addr, i, n, s). nat (n - i))") (auto simp: max_write_eq min_def split: if_splits)

declare filewrite_loop.simps [simp del]

definition filewrite ::
  "(nat \<Rightarrow> ('k, 'm) file_st_ext devsw) \<Rightarrow> nat \<Rightarrow> u8 list \<Rightarrow> int \<Rightarrow> ('k, 'm) file_st_scheme \<Rightarrow> (pipe_out \<times> ('k, 'm) file_st_scheme) res" where
  "filewrite dsw f addr n s =
     (if \<not> f_writable (getf s f) then Inr (Returned (-1) 0, s)
      else case f_type (getf s f) of
        FD_PIPE \<Rightarrow> on_pipes (pipewrite (f_pipe (getf s f)) (\<lambda>i. addr ! i) n) s
      | FD_INODE \<Rightarrow>
          rbind (filewrite_loop dsw f addr 0 n s) (\<lambda>(i, s1). Inr (Returned (if i = n then n else -1) (nat i), s1))
      | FD_NONE \<Rightarrow> Inl ''filewrite'')"

text \<open>\<open>pipealloc\<close>: two open files for the ends of a new pipe.\<close>

definition pipe_file :: "bool \<Rightarrow> u32 \<Rightarrow> file_rec \<Rightarrow> file_rec" where
  "pipe_file w p x = x\<lparr>f_type := FD_PIPE, f_readable := \<not> w, f_writable := w, f_pipe := p\<rparr>"

definition pipealloc :: "'k svc \<Rightarrow> ('k, 'm) file_st_scheme \<Rightarrow> ((nat \<times> nat) option \<times> ('k, 'm) file_st_scheme) res" where
  "pipealloc svc s =
     rbind (filealloc s) (\<lambda>(f0, s1).
     case f0 of None \<Rightarrow> Inr (None, s1)
     | Some f0 \<Rightarrow>
         rbind (filealloc s1) (\<lambda>(f1, s2).
         case f1 of None \<Rightarrow> rbind (fileclose svc f0 s2) (\<lambda>s3. Inr (None, s3))
         | Some f1 \<Rightarrow>
             rbind (kalloc_op svc (kst (pst s2))) (\<lambda>(p, ks).
             let s3 = s2\<lparr>pst := (pst s2)\<lparr>kst := ks\<rparr>\<rparr>
             in if p = 0
                then rbind (fileclose svc f0 s3) (\<lambda>s4. rbind (fileclose svc f1 s4) (\<lambda>s5. Inr (None, s5)))
                else Inr (Some (f0, f1), setf f1 (pipe_file True p) (setf f0 (pipe_file False p) (s3\<lparr>pst := pipe_init p (pst s3)\<rparr>))))))"

end
