(* ===== verification/XvSysfile.thy ===== *)
theory XvSysfile
  imports XvFile
begin

text \<open>
  The file system calls of \<^verbatim>\<open>lab-2/sysfile.c\<close>.  The arguments are what \<open>argint\<close>, \<open>argptr\<close> and \<open>argstr\<close> make of the user's
  stack, \<open>None\<close> when they fail; what a call stores in user memory is part of its result.
  \<open>sys_exec\<close> is left out, since \<open>exec\<close> is.
\<close>

type_synonym ('k, 'm) fdev = "nat \<Rightarrow> ('k, 'm) file_st_ext devsw"

subsection \<open>Descriptors\<close>

definition my_ofile :: "('k, 'm) file_st_scheme \<Rightarrow> nat option list" where
  "my_ofile s = (case curproc (pst s) of None \<Rightarrow> [] | Some p \<Rightarrow> ofile (getp (pst s) p))"

definition set_ofile :: "nat \<Rightarrow> nat option \<Rightarrow> ('k, 'm) file_st_scheme \<Rightarrow> ('k, 'm) file_st_scheme" where
  "set_ofile fd f s =
     (case curproc (pst s) of None \<Rightarrow> s
      | Some p \<Rightarrow> s\<lparr>pst := setp p (\<lambda>x. x\<lparr>ofile := (ofile x)[fd := f]\<rparr>) (pst s)\<rparr>)"

definition argfd :: "int option \<Rightarrow> ('k, 'm) file_st_scheme \<Rightarrow> (nat \<times> nat) option" where
  "argfd a s =
     (case a of None \<Rightarrow> None
      | Some fd \<Rightarrow>
          if fd < 0 \<or> int NOFILE \<le> fd then None
          else case my_ofile s ! nat fd of None \<Rightarrow> None | Some f \<Rightarrow> Some (nat fd, f))"

definition fdalloc :: "nat \<Rightarrow> ('k, 'm) file_st_scheme \<Rightarrow> int \<times> ('k, 'm) file_st_scheme" where
  "fdalloc f s =
     (case find_idx (\<lambda>x. x = None) (my_ofile s) of
        Some fd \<Rightarrow> (int fd, set_ofile fd (Some f) s) | None \<Rightarrow> (-1, s))"

definition sys_dup :: "int option \<Rightarrow> ('k, 'm) file_st_scheme \<Rightarrow> (int \<times> ('k, 'm) file_st_scheme) res" where
  "sys_dup a s =
     (case argfd a s of None \<Rightarrow> Inr (-1, s)
      | Some (_, f) \<Rightarrow>
          (case fdalloc f s of (fd, s1) \<Rightarrow>
             if fd < 0 then Inr (-1, s1) else rbind (filedup f s1) (\<lambda>(_, s2). Inr (fd, s2))))"

definition sys_read ::
  "('k, 'm) fdev \<Rightarrow> int option \<Rightarrow> int option \<Rightarrow> bool \<Rightarrow> ('k, 'm) file_st_scheme \<Rightarrow> (pipe_out \<times> u8 list \<times> ('k, 'm) file_st_scheme) res" where
  "sys_read dsw a an ptr_ok s =
     (case (argfd a s, an, ptr_ok) of
        (Some (_, f), Some n, True) \<Rightarrow> fileread dsw f n s
      | _ \<Rightarrow> Inr (Returned (-1) 0, [], s))"

definition sys_write ::
  "('k, 'm) fdev \<Rightarrow> int option \<Rightarrow> int option \<Rightarrow> u8 list option \<Rightarrow> ('k, 'm) file_st_scheme \<Rightarrow> (pipe_out \<times> ('k, 'm) file_st_scheme) res" where
  "sys_write dsw a an p s =
     (case (argfd a s, an, p) of
        (Some (_, f), Some n, Some addr) \<Rightarrow> filewrite dsw f addr n s
      | _ \<Rightarrow> Inr (Returned (-1) 0, s))"

definition sys_close :: "'k svc \<Rightarrow> int option \<Rightarrow> ('k, 'm) file_st_scheme \<Rightarrow> (int \<times> ('k, 'm) file_st_scheme) res" where
  "sys_close svc a s =
     (case argfd a s of None \<Rightarrow> Inr (-1, s)
      | Some (fd, f) \<Rightarrow> rbind (fileclose svc f (set_ofile fd None s)) (\<lambda>s1. Inr (0, s1)))"

definition sys_fstat :: "int option \<Rightarrow> bool \<Rightarrow> ('k, 'm) file_st_scheme \<Rightarrow> (int \<times> stat option \<times> ('k, 'm) file_st_scheme) res" where
  "sys_fstat a ptr_ok s =
     (case argfd a s of None \<Rightarrow> Inr (-1, None, s)
      | Some (_, f) \<Rightarrow> if ptr_ok then filestat f s else Inr (-1, None, s))"

subsection \<open>Links\<close>

definition fail_op :: "('k, 'm) file_st_scheme \<Rightarrow> (int \<times> ('k, 'm) file_st_scheme) res" where
  "fail_op s = rbind (end_op s) (\<lambda>s1. Inr (-1, s1))"

definition set_nlink :: "nat \<Rightarrow> (u16 \<Rightarrow> u16) \<Rightarrow> ('k, 'm) file_st_scheme \<Rightarrow> ('k, 'm) file_st_scheme res" where
  "set_nlink ip g s = iupdate ip (seti ip (\<lambda>x. x\<lparr>i_nlink := g (i_nlink x)\<rparr>) s)"

text \<open>The label \<open>bad\<close> of \<open>sys_link\<close>: take the link count back.\<close>

definition link_bad :: "nat \<Rightarrow> ('k, 'm) file_st_scheme \<Rightarrow> (int \<times> ('k, 'm) file_st_scheme) res" where
  "link_bad ip s =
     rbind (ilock ip s) (\<lambda>s1. rbind (set_nlink ip (\<lambda>n. n - 1) s1) (\<lambda>s2. rbind (iunlockput ip s2) fail_op))"

definition sys_link ::
  "('k, 'm) fdev \<Rightarrow> u8 list option \<Rightarrow> u8 list option \<Rightarrow> ('k, 'm) file_st_scheme \<Rightarrow> (int \<times> ('k, 'm) file_st_scheme) res" where
  "sys_link dsw aold anew s =
     (case (aold, anew) of
        (Some old, Some new) \<Rightarrow>
          rbind (begin_op s) (\<lambda>s1.
          rbind (namei dsw old s1) (\<lambda>(ip, s2).
          case ip of None \<Rightarrow> fail_op s2
          | Some ip \<Rightarrow>
              rbind (ilock ip s2) (\<lambda>s3.
              if i_type (geti s3 ip) = T_DIR then rbind (iunlockput ip s3) fail_op
              else
                rbind (set_nlink ip (\<lambda>n. n + 1) s3) (\<lambda>s4.
                rbind (iunlock ip s4) (\<lambda>s5.
                rbind (nameiparent dsw new s5) (\<lambda>(d, s6).
                case d of None \<Rightarrow> link_bad ip s6
                | Some (dp, nm) \<Rightarrow>
                    rbind (ilock dp s6) (\<lambda>s7.
                    rbind (if i_dev (geti s7 dp) \<noteq> i_dev (geti s7 ip) then Inr (-1, s7)
                           else dirlink dsw dp nm (i_inum (geti s7 ip)) s7) (\<lambda>(r, s8).
                    rbind (iunlockput dp s8) (\<lambda>s9.
                    if r < 0 then link_bad ip s9
                    else rbind (iput ip s9) (\<lambda>s10. rbind (end_op s10) (\<lambda>s11. Inr (0, s11))))))))))))
      | _ \<Rightarrow> Inr (-1, s))"

fun isdirempty_loop :: "('k, 'm) fdev \<Rightarrow> nat \<Rightarrow> u32 list \<Rightarrow> ('k, 'm) file_st_scheme \<Rightarrow> (bool \<times> ('k, 'm) file_st_scheme) res" where
  "isdirempty_loop dsw dp [] s = Inr (True, s)"
| "isdirempty_loop dsw dp (off # offs) s =
     rbind (readi dsw dp off 16 s) (\<lambda>(r, d, s1).
     if r \<noteq> 16 then Inl ''isdirempty: readi''
     else if de_inum (get_dirent d) \<noteq> 0 then Inr (False, s1) else isdirempty_loop dsw dp offs s1)"

definition isdirempty :: "('k, 'm) fdev \<Rightarrow> nat \<Rightarrow> ('k, 'm) file_st_scheme \<Rightarrow> (bool \<times> ('k, 'm) file_st_scheme) res" where
  "isdirempty dsw dp s = isdirempty_loop dsw dp (drop 2 (dir_offsets (i_size (geti s dp)))) s"

definition dot :: u8 where "dot = 46"

definition sys_unlink :: "('k, 'm) fdev \<Rightarrow> u8 list option \<Rightarrow> ('k, 'm) file_st_scheme \<Rightarrow> (int \<times> ('k, 'm) file_st_scheme) res" where
  "sys_unlink dsw apath s =
     (case apath of None \<Rightarrow> Inr (-1, s)
      | Some path \<Rightarrow>
          rbind (begin_op s) (\<lambda>s1.
          rbind (nameiparent dsw path s1) (\<lambda>(d, s2).
          case d of None \<Rightarrow> fail_op s2
          | Some (dp, nm) \<Rightarrow>
              rbind (ilock dp s2) (\<lambda>s3.
              if namecmp nm [dot] = 0 \<or> namecmp nm [dot, dot] = 0 then rbind (iunlockput dp s3) fail_op
              else
                rbind (dirlookup dsw dp nm s3) (\<lambda>(r, s4).
                case r of None \<Rightarrow> rbind (iunlockput dp s4) fail_op
                | Some (ip, off) \<Rightarrow>
                    rbind (ilock ip s4) (\<lambda>s5.
                    if sint (i_nlink (geti s5 ip)) < 1 then Inl ''unlink: nlink < 1''
                    else
                      rbind (if i_type (geti s5 ip) = T_DIR then isdirempty dsw ip s5 else Inr (True, s5)) (\<lambda>(emp, s6).
                      if \<not> emp then rbind (iunlockput ip s6) (\<lambda>s7. rbind (iunlockput dp s7) fail_op)
                      else
                        rbind (writei dsw dp (replicate 16 0) off 16 s6) (\<lambda>(w, s7).
                        if w \<noteq> 16 then Inl ''unlink: writei''
                        else
                          rbind (if i_type (geti s7 ip) = T_DIR then set_nlink dp (\<lambda>n. n - 1) s7 else Inr s7) (\<lambda>s8.
                          rbind (iunlockput dp s8) (\<lambda>s9.
                          rbind (set_nlink ip (\<lambda>n. n - 1) s9) (\<lambda>s10.
                          rbind (iunlockput ip s10) (\<lambda>s11.
                          rbind (end_op s11) (\<lambda>s12. Inr (0, s12))))))))))))))"

subsection \<open>Creating and opening\<close>

definition create ::
  "('k, 'm) fdev \<Rightarrow> u8 list \<Rightarrow> u16 \<Rightarrow> u16 \<Rightarrow> u16 \<Rightarrow> ('k, 'm) file_st_scheme \<Rightarrow> (nat option \<times> ('k, 'm) file_st_scheme) res" where
  "create dsw path type major minor s =
     rbind (nameiparent dsw path s) (\<lambda>(d, s1).
     case d of None \<Rightarrow> Inr (None, s1)
     | Some (dp, nm) \<Rightarrow>
         rbind (ilock dp s1) (\<lambda>s2.
         rbind (dirlookup dsw dp nm s2) (\<lambda>(r, s3).
         case r of
           Some (ip, _) \<Rightarrow>
             rbind (iunlockput dp s3) (\<lambda>s4.
             rbind (ilock ip s4) (\<lambda>s5.
             if type = T_FILE \<and> i_type (geti s5 ip) = T_FILE then Inr (Some ip, s5)
             else rbind (iunlockput ip s5) (\<lambda>s6. Inr (None, s6))))
         | None \<Rightarrow>
             rbind (ialloc (i_dev (geti s3 dp)) type s3) (\<lambda>(ip, s4).
             rbind (ilock ip s4) (\<lambda>s5.
             rbind (iupdate ip (seti ip (\<lambda>x. x\<lparr>i_major := major, i_minor := minor, i_nlink := 1\<rparr>) s5)) (\<lambda>s6.
             rbind (if type = T_DIR
                    then rbind (set_nlink dp (\<lambda>n. n + 1) s6) (\<lambda>s7.
                         rbind (dirlink dsw ip [dot] (i_inum (geti s7 ip)) s7) (\<lambda>(r, s8).
                         if r < 0 then Inl ''create dots''
                         else rbind (dirlink dsw ip [dot, dot] (i_inum (geti s8 dp)) s8) (\<lambda>(r, s9).
                              if r < 0 then Inl ''create dots'' else Inr s9)))
                    else Inr s6) (\<lambda>s10.
             rbind (dirlink dsw dp nm (i_inum (geti s10 ip)) s10) (\<lambda>(r, s11).
             if r < 0 then Inl ''create: dirlink''
             else rbind (iunlockput dp s11) (\<lambda>s12. Inr (Some ip, s12))))))))))"

text \<open>\<open>open_fd\<close>: the second half of \<open>sys_open\<close>, with the locked inode.\<close>

definition open_fd :: "'k svc \<Rightarrow> nat \<Rightarrow> u32 \<Rightarrow> ('k, 'm) file_st_scheme \<Rightarrow> (int \<times> ('k, 'm) file_st_scheme) res" where
  "open_fd svc ip omode s =
     rbind (filealloc s) (\<lambda>(f, s1).
     case f of None \<Rightarrow> rbind (iunlockput ip s1) fail_op
     | Some f \<Rightarrow>
         (case fdalloc f s1 of (fd, s2) \<Rightarrow>
            if fd < 0 then rbind (fileclose svc f s2) (\<lambda>s3. rbind (iunlockput ip s3) fail_op)
            else
              rbind (iunlock ip s2) (\<lambda>s3.
              rbind (end_op s3) (\<lambda>s4.
              Inr (fd, setf f (\<lambda>x. x\<lparr>f_type := FD_INODE, f_ip := ip, f_off := 0,
                         f_readable := (omode AND of_nat O_WRONLY = 0),
                         f_writable := (omode AND of_nat O_WRONLY \<noteq> 0 \<or> omode AND of_nat O_RDWR \<noteq> 0)\<rparr>) s4)))))"

definition sys_open ::
  "('k, 'm) fdev \<Rightarrow> 'k svc \<Rightarrow> u8 list option \<Rightarrow> u32 option \<Rightarrow> ('k, 'm) file_st_scheme \<Rightarrow> (int \<times> ('k, 'm) file_st_scheme) res" where
  "sys_open dsw svc apath amode s =
     (case (apath, amode) of
        (Some path, Some omode) \<Rightarrow>
          rbind (begin_op s) (\<lambda>s1.
          if omode AND of_nat O_CREATE \<noteq> 0
          then rbind (create dsw path T_FILE 0 0 s1) (\<lambda>(ip, s2).
               case ip of None \<Rightarrow> fail_op s2 | Some ip \<Rightarrow> open_fd svc ip omode s2)
          else rbind (namei dsw path s1) (\<lambda>(ip, s2).
               case ip of None \<Rightarrow> fail_op s2
               | Some ip \<Rightarrow>
                   rbind (ilock ip s2) (\<lambda>s3.
                   if i_type (geti s3 ip) = T_DIR \<and> omode \<noteq> of_nat O_RDONLY then rbind (iunlockput ip s3) fail_op
                   else open_fd svc ip omode s3)))
      | _ \<Rightarrow> Inr (-1, s))"

definition made :: "(nat option \<times> ('k, 'm) file_st_scheme) \<Rightarrow> (int \<times> ('k, 'm) file_st_scheme) res" where
  "made = (\<lambda>(ip, s). case ip of None \<Rightarrow> fail_op s
     | Some ip \<Rightarrow> rbind (iunlockput ip s) (\<lambda>s1. rbind (end_op s1) (\<lambda>s2. Inr (0, s2))))"

definition sys_mkdir :: "('k, 'm) fdev \<Rightarrow> u8 list option \<Rightarrow> ('k, 'm) file_st_scheme \<Rightarrow> (int \<times> ('k, 'm) file_st_scheme) res" where
  "sys_mkdir dsw apath s =
     rbind (begin_op s) (\<lambda>s1.
     case apath of None \<Rightarrow> fail_op s1 | Some path \<Rightarrow> rbind (create dsw path T_DIR 0 0 s1) made)"

definition sys_mknod ::
  "('k, 'm) fdev \<Rightarrow> u8 list option \<Rightarrow> u32 option \<Rightarrow> u32 option \<Rightarrow> ('k, 'm) file_st_scheme \<Rightarrow> (int \<times> ('k, 'm) file_st_scheme) res" where
  "sys_mknod dsw apath amajor aminor s =
     rbind (begin_op s) (\<lambda>s1.
     case (apath, amajor, aminor) of
       (Some path, Some major, Some minor) \<Rightarrow> rbind (create dsw path T_DEV (ucast major) (ucast minor) s1) made
     | _ \<Rightarrow> fail_op s1)"

definition sys_chdir :: "('k, 'm) fdev \<Rightarrow> u8 list option \<Rightarrow> ('k, 'm) file_st_scheme \<Rightarrow> (int \<times> ('k, 'm) file_st_scheme) res" where
  "sys_chdir dsw apath s =
     rbind (begin_op s) (\<lambda>s1.
     case apath of None \<Rightarrow> fail_op s1
     | Some path \<Rightarrow>
         rbind (namei dsw path s1) (\<lambda>(ip, s2).
         case ip of None \<Rightarrow> fail_op s2
         | Some ip \<Rightarrow>
             rbind (ilock ip s2) (\<lambda>s3.
             if i_type (geti s3 ip) \<noteq> T_DIR then rbind (iunlockput ip s3) fail_op
             else
               rbind (iunlock ip s3) (\<lambda>s4.
               rbind (iput (cwd_ip s4) s4) (\<lambda>s5.
               rbind (end_op s5) (\<lambda>s6. Inr (0, s6\<lparr>cwd_ip := ip\<rparr>)))))))"

definition sys_pipe :: "'k svc \<Rightarrow> bool \<Rightarrow> ('k, 'm) file_st_scheme \<Rightarrow> (int \<times> (int \<times> int) option \<times> ('k, 'm) file_st_scheme) res" where
  "sys_pipe svc ptr_ok s =
     (if \<not> ptr_ok then Inr (-1, None, s)
      else
        rbind (pipealloc svc s) (\<lambda>(r, s1).
        case r of None \<Rightarrow> Inr (-1, None, s1)
        | Some (rd', wr') \<Rightarrow>
            (case fdalloc rd' s1 of (fd0, s2) \<Rightarrow>
             case (if fd0 < 0 then (-1, s2) else fdalloc wr' s2) of (fd1, s3) \<Rightarrow>
               if fd0 < 0 \<or> fd1 < 0
               then let s4 = (if 0 \<le> fd0 then set_ofile (nat fd0) None s3 else s3)
                    in rbind (fileclose svc rd' s4) (\<lambda>s5. rbind (fileclose svc wr' s5) (\<lambda>s6. Inr (-1, None, s6)))
               else Inr (0, Some (fd0, fd1), s3))))"

end
