(* ===== verification/XvFileProps.thy ===== *)
theory XvFileProps
  imports XvFile XvFsFile
begin

text \<open>
  A write to an open file as the disk sees it: the call runs as one transaction of the log, from the file table
  through the inode, the buffer cache and the log to the disk.
\<close>

subsection \<open>Between operations\<close>

text \<open>No operation is in progress: nothing is held or dirty, and the log is empty in memory and on disk.\<close>

definition fs_idle :: "u32 \<Rightarrow> 'm log_st_scheme \<Rightarrow> bool" where
  "fs_idle st s \<longleftrightarrow> bc_ok s \<and> heldb s = {} \<and> dirty s = {} \<and> \<not> lg_lock s \<and> outstanding s = 0 \<and> \<not> committing s \<and> lh_n s = 0 \<and>
     length (lh_block s) = LOGSIZE \<and> lg_size s = of_nat LOGSIZE \<and> lg_dev s = ROOTDEV \<and> lg_start s = st \<and>
     (\<forall>b\<in>log_area st. b < FSSIZE) \<and> head_n st (disk s 1) = 0"

lemma idle_cur: "fs_idle st s \<Longrightarrow> cur s = disk s 1"
  using clean_block [of s] by (auto simp: fs_idle_def)

lemma begin_op_idle:
  fixes s :: "'m log_st_scheme"
  assumes "fs_idle st s"
  shows "begin_op s = Inr (s\<lparr>outstanding := 1\<rparr>)" "tx_ok (s\<lparr>outstanding := 1\<rparr>)"
    "cur (s\<lparr>outstanding := 1\<rparr>) = cur s" "heldb (s\<lparr>outstanding := 1\<rparr>) = {}" "dirty (s\<lparr>outstanding := 1\<rparr>) = {}"
proof -
  note i = assms [unfolded fs_idle_def]
  have "s\<lparr>lg_lock := False, outstanding := 1\<rparr> = s\<lparr>outstanding := 1\<rparr>" using i by (cases s) simp
  then show "begin_op s = Inr (s\<lparr>outstanding := 1\<rparr>)"
    using i by (simp add: begin_op_def lg_acquire_def lg_release_def LOGSIZE_def MAXOPBLOCKS_def)
  have "bio.truncate (s\<lparr>outstanding := 1\<rparr>) = bio.truncate s" by (simp add: bio.truncate_def)
  note v = log_view [OF this]
  show "cur (s\<lparr>outstanding := 1\<rparr>) = cur s" "heldb (s\<lparr>outstanding := 1\<rparr>) = {}" "dirty (s\<lparr>outstanding := 1\<rparr>) = {}" using v i by simp_all
  show "tx_ok (s\<lparr>outstanding := 1\<rparr>)" using i v by (simp add: tx_ok_def logged_def LOGSIZE_def MAXOPBLOCKS_def)
qed

lemma ilock_free:
  assumes "1 \<le> i_ref (geti s ip)" "i_valid (geti s ip)" "\<not> sl_spin (i_lock (geti s ip))" "\<not> slocked (i_lock (geti s ip))" "ip < length (inodes s)"
  shows "ilock ip s = Inr (seti ip (\<lambda>x. x\<lparr>i_lock := held_by (mypid s)\<rparr>) s)"
  using assms by (simp add: ilock_def Let_def seti_def geti_def)

lemma iunlock_held:
  assumes "1 \<le> i_ref (geti s ip)" "i_lock (geti s ip) = held_by (mypid s)"
  shows "iunlock ip s = Inr (wake (InodeLock ip) (seti ip (\<lambda>x. x\<lparr>i_lock := initsleeplock\<rparr>) s))"
  using assms by (simp add: iunlock_def)

text \<open>The end of the only operation in progress commits what it logged.\<close>

lemma end_op_commits:
  fixes s :: "'m log_st_scheme"
  assumes tx: "tx_ok s" and o: "outstanding s = 1" "\<not> committing s" "heldb s = {}" "lg_dev s = ROOTDEV" "lg_start s = st" "head_n st (disk s 1) = 0"
    and geo: "\<forall>b\<in>log_area st. b < FSSIZE" "\<forall>b\<in>dirty s. b < FSSIZE \<and> b \<notin> log_area st" and ne: "dirty s \<noteq> {}"
  shows "\<exists>t ws. end_op s = Inr t \<and> fs_idle st t \<and> mypid t = mypid s \<and> log_st.more t = log_st.more s \<and> writes t = writes s @ ws \<and>
    disk t 1 = apply_ws ws (disk s 1) \<and> (\<forall>b. b \<notin> log_area st \<longrightarrow> disk t 1 b = cur s b) \<and>
    (\<forall>k. (\<forall>b. b \<notin> log_area st \<longrightarrow> replay st (apply_ws (take k ws) (disk s 1)) b = disk s 1 b) \<or>
         (\<forall>b. b \<notin> log_area st \<longrightarrow> replay st (apply_ws (take k ws) (disk s 1)) b = cur s b)) \<and>
    (\<forall>k. head_n st (apply_ws (take k ws) (disk s 1)) \<in> {0, lh_n s})"
proof -
  note x = tx [unfolded tx_ok_def]
  let ?s2 = "s\<lparr>outstanding := 0, committing := True\<rparr>" and ?bs = "logged s"
  have "bio.truncate ?s2 = bio.truncate s" by (simp add: bio.truncate_def)
  note v = log_view [OF this]
  have l: "length ?bs = nat (lh_n s)" using x by (simp add: logged_def min_absorb2 nat_le_iff)
  have "log_cfg st ?bs ?s2" using x o l by (simp add: log_cfg_def logged_def)
  moreover have "log_geometry st ?bs" using x geo l by (auto simp: log_geometry_def nat_less_iff)
  ultimately have "log_ready st ?bs ?s2" using x o v l
    by (auto simp: log_ready_def nat_less_iff LOGSIZE_def MAXOPBLOCKS_def NBUF_def)
  moreover have "?bs \<noteq> []" using ne x by auto
  ultimately obtain t ws where t: "commit ?s2 = Inr t" "bc_ok t \<and> heldb t = {} \<and> mypid t = mypid ?s2 \<and> bio.more t = bio.more (?s2\<lparr>lh_n := 0\<rparr>)"
      "writes t = writes ?s2 @ ws \<and> disk t 1 = apply_ws ws (disk ?s2 1)" "dirty t = {}" "lh_n t = 0" "head_n st (disk t 1) = 0" "\<forall>b. b \<notin> log_area st \<longrightarrow> disk t 1 b = cur ?s2 b"
      "\<forall>k. (\<forall>b. b \<notin> log_area st \<longrightarrow> replay st (apply_ws (take k ws) (disk ?s2 1)) b = disk ?s2 1 b) \<or>
         (\<forall>b. b \<notin> log_area st \<longrightarrow> replay st (apply_ws (take k ws) (disk ?s2 1)) b = cur ?s2 b)"
      "\<forall>k. head_n st (apply_ws (take k ws) (disk ?s2 1)) \<in> {0, int (length ?bs)}"
    using commit_atomic [of st ?bs ?s2] by blast
  have m: "bio.more t = bio.more (?s2\<lparr>lh_n := 0\<rparr>)" using t(2) by blast
  note lf = log_fields [OF m]
  let ?u = "(wake LogChan (t\<lparr>committing := False\<rparr>))\<lparr>lg_lock := False\<rparr>"
  have tl: "\<not> lg_lock t" using lf(1) x by simp
  have q: "s\<lparr>outstanding := 0, committing := True, lg_lock := False\<rparr> = ?s2" using x by (cases s) simp
  have "end_op s = rbind (commit (s\<lparr>outstanding := 0, committing := True, lg_lock := False\<rparr>))
      (\<lambda>s4. rbind (lg_acquire s4) (\<lambda>s5. lg_release (wake LogChan (s5\<lparr>committing := False\<rparr>))))"
    using o x by (simp add: end_op_def lg_acquire_def lg_release_def Let_def)
  then have e: "end_op s = Inr ?u"
    unfolding q t(1) using tl by (simp add: lg_acquire_def lg_release_def wake_def)
  have bv: "bc_ok ?u = bc_ok t" "cur ?u = cur t" "dirty ?u = dirty t" "heldb ?u = heldb t" by (rule bio_view; simp add: wake_def)+
  have "fs_idle st ?u" unfolding fs_idle_def bv using t lf o x geo(1) by (simp add: wake_def)
  moreover have "log_st.more ?u = log_st.more s" using more_fields [OF m] by (simp add: wake_def)
  moreover have "mypid ?u = mypid s" "writes ?u = writes s @ ws" "disk ?u = disk t" using t by (simp_all add: wake_def)
  ultimately show ?thesis using e t(3,7-9) v l x by (intro exI [of _ ?u] exI [of _ ws]) simp
qed

subsection \<open>Files on the disk\<close>

definition dblock :: "disk_img \<Rightarrow> inode \<Rightarrow> nat \<Rightarrow> u32" where
  "dblock D x bn = (if bn < NDIRECT then i_addrs x ! bn else get32 (4 * (bn - NDIRECT)) (D (i_addrs x ! NDIRECT)))"

definition dbyte :: "disk_img \<Rightarrow> inode \<Rightarrow> nat \<Rightarrow> u8" where
  "dbyte D x i = D (dblock D x (i div BSIZE)) ! (i mod BSIZE)"

lemma fbyte_dbyte: "fblock s ip = dblock (cur s) (geti s ip)" "fbyte s ip = dbyte (cur s) (geti s ip)"
  by (simp_all add: fun_eq_iff fblock_def fbyte_def dblock_def dbyte_def ind_block_def)

lemma dbyte_cong:
  assumes "i_addrs y = i_addrs x" "\<And>m. m \<in> dblock D x ` {..<nb} \<Longrightarrow> E m = D m" "NDIRECT < nb \<Longrightarrow> E (i_addrs x ! NDIRECT) = D (i_addrs x ! NDIRECT)"
    "i < nb * BSIZE"
  shows "dbyte E y i = dbyte D x i"
proof -
  have b: "i div BSIZE < nb" using assms(4) by (simp add: BSIZE_def div_less_iff_less_mult)
  have "dblock E y (i div BSIZE) = dblock D x (i div BSIZE)"
    using assms(1,3) b by (cases "i div BSIZE < NDIRECT") (auto simp: dblock_def)
  then show ?thesis using assms(2) b by (simp add: dbyte_def)
qed

text \<open>\<open>disk_file st s ip nb off D xs\<close>: the disk image \<open>D\<close> holds the file of \<open>s\<close> with \<open>xs\<close> written at \<open>off\<close>: these bytes and no others,
  the size in the inode's block, and outside the file, its inode and the log nothing else.\<close>

definition disk_file :: "u32 \<Rightarrow> 'm fs_st_scheme \<Rightarrow> nat \<Rightarrow> nat \<Rightarrow> u32 \<Rightarrow> disk_img \<Rightarrow> u8 list \<Rightarrow> bool" where
  "disk_file st s ip nb off D xs \<longleftrightarrow> (let x = geti s ip in
     (\<forall>i<nb * BSIZE. dbyte D x i = (if unat off \<le> i \<and> i < unat off + length xs then xs ! (i - unat off) else dbyte (disk s 1) x i)) \<and>
     get_dinode (unat (i_inum x) mod IPB) (D (inode_block s ip)) = dinode_of (x\<lparr>i_size := max (i_size x) (off + of_nat (length xs))\<rparr>) \<and>
     (\<forall>m. m \<notin> log_area st \<and> m \<notin> dblock (disk s 1) x ` {..<nb} \<and> m \<noteq> inode_block s ip \<longrightarrow> D m = disk s 1 m))"

text \<open>An open file on an unlocked inode that is in memory and agrees with its block, with all blocks outside the log.\<close>

definition open_file :: "u32 \<Rightarrow> nat \<Rightarrow> nat \<Rightarrow> ('k, 'm) file_st_scheme \<Rightarrow> bool" where
  "open_file st f nb s \<longleftrightarrow> (let ip = f_ip (getf s f); x = geti s ip in
     f < length (ftable s) \<and> f_type (getf s f) = FD_INODE \<and> f_writable (getf s f) \<and> f_off (getf s f) \<le> i_size x \<and> file_ok s ip nb \<and>
     1 \<le> i_ref x \<and> i_valid x \<and> i_lock x = initsleeplock \<and> (\<forall>bn<nb. fblock s ip bn \<notin> log_area st) \<and> inode_block s ip \<notin> log_area st \<and>
     (NDIRECT < nb \<longrightarrow> ind_block s ip \<notin> log_area st) \<and>
     get_dinode (unat (i_inum x) mod IPB) (cur s (inode_block s ip)) = dinode_of x)"

lemma span_small: "n \<le> 1536 \<Longrightarrow> span off n \<le> 4"
proof -
  assume n: "n \<le> 1536"
  have "off mod BSIZE < 512" by (simp add: BSIZE_def)
  then have "(off mod BSIZE + n + BSIZE - 1) div BSIZE < 5" using n by (simp add: BSIZE_def div_less_iff_less_mult)
  then show ?thesis by (simp add: span_def nblocks_def)
qed

subsection \<open>Files on disk images\<close>

text \<open>\<open>file_at s t ip\<close>: the inode \<open>ip\<close> names the same blocks and has the same kind in both states.\<close>

definition file_at :: "'m fs_st_scheme \<Rightarrow> 'm fs_st_scheme \<Rightarrow> nat \<Rightarrow> bool" where
  "file_at s t ip \<longleftrightarrow> length (inodes t) = length (inodes s) \<and> sb t = sb s \<and>
     (\<exists>z l. geti t ip = (geti s ip)\<lparr>i_size := z, i_lock := l\<rparr>)"

lemma file_ok_at:
  assumes "file_ok s ip nb" "file_at s t ip" "unat (i_size (geti t ip)) \<le> nb * BSIZE"
    "\<And>b. b \<notin> L \<Longrightarrow> cur t b = cur s b" "\<forall>bn<nb. fblock s ip bn \<notin> L" "NDIRECT < nb \<longrightarrow> ind_block s ip \<notin> L"
  shows "file_ok t ip nb" "\<forall>bn<nb. fblock t ip bn = fblock s ip bn" "\<forall>i<nb * BSIZE. fbyte t ip i = fbyte s ip i"
    "inode_block t ip = inode_block s ip" "ind_block t ip = ind_block s ip"
proof -
  obtain z l where g: "geti t ip = (geti s ip)\<lparr>i_size := z, i_lock := l\<rparr>" and a: "length (inodes t) = length (inodes s)" "sb t = sb s"
    using assms(2) by (auto simp: file_at_def)
  have "cur t m = cur s m" if "m \<in> fblock s ip ` {..<nb}" for m using that assms(4,5) by auto
  then show f: "\<forall>bn<nb. fblock t ip bn = fblock s ip bn" "\<forall>i<nb * BSIZE. fbyte t ip i = fbyte s ip i"
    using file_keep [of t ip s nb] assms(4,6) g by auto
  show "inode_block t ip = inode_block s ip" "ind_block t ip = ind_block s ip" using g a by (simp_all add: inode_block_def ind_block_def)
  moreover have "fblock t ip ` {..<nb} = fblock s ip ` {..<nb}" using f by (auto simp: image_iff)
  ultimately show "file_ok t ip nb" using assms(1,3) f g a by (auto simp: file_ok_def fmapped_def file_sep_def inj_on_def)
qed

lemma dblock_fblock: "cur s = disk s 1 \<Longrightarrow> dblock (disk s 1) (geti s ip) = fblock s ip" "cur s = disk s 1 \<Longrightarrow> dbyte (disk s 1) (geti s ip) = fbyte s ip"
  using fbyte_dbyte [of s ip] by simp_all

lemma dblock_size [simp]: "dblock D (x\<lparr>i_size := z\<rparr>) = dblock D x" "dbyte D (x\<lparr>i_size := z\<rparr>) = dbyte D x"
  by (simp_all add: fun_eq_iff dblock_def dbyte_def)

text \<open>Disk images that agree outside the log hold the same file.\<close>

lemma disk_file_blocks:
  assumes s: "cur s = disk s 1" "file_ok s ip nb" "NDIRECT < nb \<longrightarrow> ind_block s ip \<notin> log_area st"
    and D: "disk_file st s ip nb off D xs" and bn: "bn < nb"
  shows "dblock D (geti s ip) bn = fblock s ip bn"
proof -
  have "D (ind_block s ip) = disk s 1 (ind_block s ip)" if "NDIRECT < nb"
    using D that s unfolding disk_file_def Let_def file_ok_def file_sep_def dblock_fblock(1) [OF s(1)] by auto
  then show ?thesis
    using bn s(1) unfolding dblock_fblock(1) [OF s(1), symmetric] by (cases "bn < NDIRECT") (auto simp: dblock_def ind_block_def)
qed

lemma disk_file_cong:
  assumes s: "cur s = disk s 1" "file_ok s ip nb" "\<forall>bn<nb. fblock s ip bn \<notin> log_area st" "inode_block s ip \<notin> log_area st"
    "NDIRECT < nb \<longrightarrow> ind_block s ip \<notin> log_area st"
    and D: "disk_file st s ip nb off D xs" "\<And>b. b \<notin> log_area st \<Longrightarrow> E b = D b"
  shows "disk_file st s ip nb off E xs"
proof -
  let ?x = "geti s ip"
  note d = D(1) [unfolded disk_file_def Let_def]
  have "dblock D ?x bn = fblock s ip bn" if "bn < nb" for bn using disk_file_blocks [OF s(1,2,5) D(1) that] .
  then have "E m = D m" if "m \<in> dblock D ?x ` {..<nb}" for m using that D(2) s(3) by auto
  then have "dbyte E ?x i = dbyte D ?x i" if "i < nb * BSIZE" for i
    using dbyte_cong [of ?x ?x D nb E i] D(2) s(5) that by (auto simp: ind_block_def)
  then show ?thesis using d D(2) s(4) by (auto simp: disk_file_def)
qed

text \<open>Writing nothing, and writing \<open>ys\<close> after \<open>xs\<close>.\<close>

lemma disk_file_Nil:
  assumes "off \<le> i_size (geti s ip)" "get_dinode (unat (i_inum (geti s ip)) mod IPB) (disk s 1 (inode_block s ip)) = dinode_of (geti s ip)"
  shows "disk_file st s ip nb off (disk s 1) []"
  using assms by (auto simp: disk_file_def max_def dinode_of_def)

lemma size_append:
  fixes z off :: u32
  assumes "unat off + a + b < 2 ^ 32"
  shows "unat (off + of_nat a) = unat off + a" "max (max z (off + of_nat a)) (off + of_nat a + of_nat b) = max z (off + of_nat (a + b))"
proof -
  have "unat (of_nat a :: u32) = a" "unat (of_nat b :: u32) = b" using assms by (simp_all add: unat_of_nat take_bit_nat_eq_self)
  then have u: "unat (off + of_nat a) = unat off + a" "unat (off + of_nat a + of_nat b) = unat off + a + b"
    using assms by (simp_all add: unat_plus_if')
  then show "unat (off + of_nat a) = unat off + a" by blast
  have "off + of_nat a \<le> off + of_nat a + of_nat b" using u by (simp add: word_le_nat_alt)
  then show "max (max z (off + of_nat a)) (off + of_nat a + of_nat b) = max z (off + of_nat (a + b))"
    by (simp add: max.assoc max_absorb2 ac_simps)
qed

lemma disk_file_append:
  assumes "disk_file st s ip nb off (disk t 1) xs" "geti t ip = (geti s ip)\<lparr>i_size := max (i_size (geti s ip)) (off + of_nat (length xs))\<rparr>"
    "sb t = sb s" "\<forall>bn<nb. dblock (disk t 1) (geti t ip) bn = dblock (disk s 1) (geti s ip) bn"
    "disk_file st t ip nb (off + of_nat (length xs)) D ys" "unat off + length xs + length ys < 2 ^ 32"
  shows "disk_file st s ip nb off D (xs @ ys)"
proof -
  note d = assms(1) [unfolded disk_file_def Let_def] and e = assms(5) [unfolded disk_file_def Let_def]
  note u = size_append(1) [OF assms(6)] and mx = size_append(2) [OF assms(6)]
  have ib: "inode_block t ip = inode_block s ip" using assms(2,3) by (simp add: inode_block_def)
  have im: "dblock (disk t 1) (geti s ip) ` {..<nb} = dblock (disk s 1) (geti s ip) ` {..<nb}" using assms(2,4) by (auto simp: image_iff)
  have "dbyte D (geti s ip) i = (if unat off \<le> i \<and> i < unat off + length (xs @ ys) then (xs @ ys) ! (i - unat off) else dbyte (disk s 1) (geti s ip) i)"
    if "i < nb * BSIZE" for i using d e that u assms(2) by (auto simp: nth_append)
  moreover have "get_dinode (unat (i_inum (geti s ip)) mod IPB) (D (inode_block s ip)) =
      dinode_of ((geti s ip)\<lparr>i_size := max (i_size (geti s ip)) (off + of_nat (length (xs @ ys)))\<rparr>)"
    using e mx ib assms(2) by (simp add: dinode_of_def)
  moreover have "D m = disk s 1 m" if "m \<notin> log_area st" "m \<notin> dblock (disk s 1) (geti s ip) ` {..<nb}" "m \<noteq> inode_block s ip" for m
    using d e that im ib assms(2) by simp
  ultimately show ?thesis by (simp add: disk_file_def Let_def)
qed

subsection \<open>One transaction\<close>

text \<open>\<open>durable st f nb xs ws s t\<close>: between the idle states \<open>s\<close> and \<open>t\<close> the disk writes \<open>ws\<close> made \<open>xs\<close> part of the open file \<open>f\<close> at its offset, and
  a crash after any number of these writes leaves the file with a prefix of \<open>xs\<close> once the log is replayed.  After each of the writes
  the log header on the disk names at most \<open>MAXOPBLOCKS\<close> blocks: every transaction stays within what \<open>begin_op\<close> reserved.\<close>

definition durable :: "u32 \<Rightarrow> nat \<Rightarrow> nat \<Rightarrow> u8 list \<Rightarrow> (u32 \<times> u32 \<times> block) list \<Rightarrow> ('k, 'm) file_st_scheme \<Rightarrow> ('k, 'm) file_st_scheme \<Rightarrow> bool" where
  "durable st f nb xs ws s t \<longleftrightarrow> (let ip = f_ip (getf s f); off = f_off (getf s f); x = geti s ip in
     fs_idle st t \<and> open_file st f nb t \<and> getf t f = (getf s f)\<lparr>f_off := off + of_nat (length xs)\<rparr> \<and>
     geti t ip = x\<lparr>i_size := max (i_size x) (off + of_nat (length xs))\<rparr> \<and> sb t = sb s \<and>
     writes t = writes s @ ws \<and> disk t 1 = apply_ws ws (disk s 1) \<and> disk_file st s ip nb off (disk t 1) xs \<and>
     (\<forall>k. \<exists>j\<le>length xs. disk_file st s ip nb off (replay st (apply_ws (take k ws) (disk s 1))) (take j xs)) \<and>
     (\<forall>k. head_n st (apply_ws (take k ws) (disk s 1)) \<in> {0..int MAXOPBLOCKS}))"

text \<open>The parts of a transaction around the write: the operation begins and locks the inode, and unlocks it again.\<close>

lemma chunk_begin:
  fixes s :: "('k, 'm) file_st_scheme"
  assumes i: "fs_idle st s" and o: "open_file st f nb s"
  defines "ip \<equiv> f_ip (getf s f)"
  defines "s2 \<equiv> seti ip (\<lambda>x. x\<lparr>i_lock := held_by (mypid s)\<rparr>) (s\<lparr>outstanding := 1\<rparr>)"
  shows "begin_op s = Inr (s\<lparr>outstanding := 1\<rparr>)" "ilock ip (s\<lparr>outstanding := 1\<rparr>) = Inr s2"
    "tx_ok s2" "heldb s2 = {}" "dirty s2 = {}" "cur s2 = disk s 1" "disk s2 = disk s" "writes s2 = writes s" "mypid s2 = mypid s" "lh_n s2 = 0"
    "outstanding s2 = 1" "\<not> committing s2" "lg_dev s2 = ROOTDEV" "lg_start s2 = st" "fs_st.more s2 = fs_st.more s"
    "geti s2 ip = (geti s ip)\<lparr>i_lock := held_by (mypid s)\<rparr>" "file_at s s2 ip" "file_ok s2 ip nb"
    "fblock s2 ip = fblock s ip" "fbyte s2 ip = fbyte s ip" "inode_block s2 ip = inode_block s ip"
proof -
  note b = begin_op_idle [OF i] and op = o [unfolded open_file_def Let_def, folded ip_def] and d = i [unfolded fs_idle_def]
  have len: "ip < length (inodes s)" using op by (simp add: file_ok_def)
  have g1: "geti (s\<lparr>outstanding := 1\<rparr>) ip = geti s ip" by (simp add: geti_def)
  note v = seti_view [where ip = ip and f = "\<lambda>x. x\<lparr>i_lock := held_by (mypid s)\<rparr>" and s = "s\<lparr>outstanding := 1\<rparr>", folded s2_def]
  note lv = log_view [OF v(1)]
  show "begin_op s = Inr (s\<lparr>outstanding := 1\<rparr>)" by (fact b)
  show "ilock ip (s\<lparr>outstanding := 1\<rparr>) = Inr s2"
    unfolding s2_def using ilock_free [of "s\<lparr>outstanding := 1\<rparr>" ip] op len g1 by (simp add: initsleeplock_def)
  show "tx_ok s2" "heldb s2 = {}" "dirty s2 = {}" "disk s2 = disk s" "writes s2 = writes s" "mypid s2 = mypid s" "lh_n s2 = 0"
    using v lv b d by simp_all
  show c: "cur s2 = disk s 1" using lv b idle_cur [OF i] by simp
  show "outstanding s2 = 1" "\<not> committing s2" "lg_dev s2 = ROOTDEV" "lg_start s2 = st" "fs_st.more s2 = fs_st.more s"
    using d by (simp_all add: s2_def seti_def)
  show g: "geti s2 ip = (geti s ip)\<lparr>i_lock := held_by (mypid s)\<rparr>" using v(5) len g1 by simp
  have "\<exists>z l. geti s2 ip = (geti s ip)\<lparr>i_size := z, i_lock := l\<rparr>" unfolding g by (intro exI [of _ "i_size (geti s ip)"] exI [of _ "held_by (mypid s)"]) simp
  then show fa: "file_at s s2 ip" unfolding file_at_def by (auto simp: s2_def seti_def)
  show fb: "fblock s2 ip = fblock s ip" "fbyte s2 ip = fbyte s ip" "inode_block s2 ip = inode_block s ip"
    using c g idle_cur [OF i] fa by (simp_all add: fun_eq_iff fblock_def fbyte_def ind_block_def inode_block_def file_at_def)
  have fo: "file_ok s ip nb" "unat (i_size (geti s ip)) \<le> nb * BSIZE" using op by (simp_all add: file_ok_def)
  show "file_ok s2 ip nb" using file_ok_at(1) [OF fo(1) fa, where L = "{}"] fo(2) c g idle_cur [OF i] by simp
qed

lemma chunk_end:
  fixes s :: "('k, 'm) file_st_scheme"
  assumes "tx_ok s" "heldb s = {}" "ip < length (inodes s)" "1 \<le> i_ref (geti s ip)" "i_lock (geti s ip) = held_by (mypid s)"
  defines "t \<equiv> wake (InodeLock ip) (seti ip (\<lambda>x. x\<lparr>i_lock := initsleeplock\<rparr>) s)"
  shows "iunlock ip s = Inr t" "tx_ok t" "heldb t = {}" "cur t = cur s" "dirty t = dirty s" "disk t = disk s" "writes t = writes s" "mypid t = mypid s"
    "outstanding t = outstanding s" "committing t = committing s" "lg_dev t = lg_dev s" "lg_start t = lg_start s" "ftable t = ftable s"
    "geti t ip = (geti s ip)\<lparr>i_lock := initsleeplock\<rparr>" "sb t = sb s" "length (inodes t) = length (inodes s)"
proof -
  show "iunlock ip s = Inr t" unfolding t_def using iunlock_held assms(4,5) by blast
  have bv: "bc_ok t = bc_ok s" "cur t = cur s" "dirty t = dirty s" "heldb t = heldb s"
    by (rule bio_view; simp add: t_def wake_def seti_def)+
  then show "heldb t = {}" "cur t = cur s" "dirty t = dirty s" using assms(2) by simp_all
  show "tx_ok t" using assms(1) bv by (simp add: tx_ok_def logged_def) (simp add: t_def wake_def seti_def)
qed (use assms(3) in \<open>simp_all add: t_def wake_def seti_def geti_def\<close>)

lemma fblock_frame:
  assumes "file_ok s ip nb" "i_addrs (geti t ip) = i_addrs (geti s ip)"
    "\<forall>m. m \<notin> fblock s ip ` {..<nb} \<and> m \<noteq> inode_block s ip \<longrightarrow> cur t m = cur s m" "bn < nb"
  shows "fblock t ip bn = fblock s ip bn"
  using assms by (cases "bn < NDIRECT") (auto simp: fblock_def file_ok_def file_sep_def ind_block_def)

lemma ftable_more: "fs_st.more t = fs_st.more s \<Longrightarrow> ftable t = ftable s"
  by (cases s, cases t) simp

lemma dblock_addrs: "i_addrs y = i_addrs x \<Longrightarrow> dblock D y = dblock D x \<and> dbyte D y = dbyte D x"
  by (simp add: fun_eq_iff dblock_def dbyte_def)

text \<open>A write in the cache as it will be on the disk.\<close>

lemma wrote_disk_file:
  fixes s s2 s3 :: "'m fs_st_scheme"
  assumes s: "cur s = disk s 1" and a: "file_at s s2 ip" "fbyte s2 ip = fbyte s ip" "fblock s2 ip = fblock s ip" "inode_block s2 ip = inode_block s ip" "cur s2 = cur s"
    and w: "wrote_file s2 ip nb (unat off) xs s3" "i_addrs (geti s3 ip) = i_addrs (geti s ip)"
    and d: "get_dinode (unat (i_inum (geti s ip)) mod IPB) (cur s3 (inode_block s ip)) =
      dinode_of ((geti s ip)\<lparr>i_size := max (i_size (geti s ip)) (off + of_nat (length xs))\<rparr>)"
  shows "disk_file st s ip nb off (cur s3) xs"
proof -
  have "dbyte (cur s3) (geti s ip) = fbyte s3 ip" using fbyte_dbyte(2) [of s3 ip] dblock_addrs [OF w(2)] by metis
  then show ?thesis using w(1) d a s dblock_fblock [OF s, of ip] by (auto simp: disk_file_def wrote_file_def)
qed

text \<open>\<open>in_tx st f nb xs s t\<close>: the operation that began at \<open>s\<close> holds the inode of \<open>f\<close> and has \<open>xs\<close> in its transaction.\<close>

definition in_tx :: "u32 \<Rightarrow> nat \<Rightarrow> nat \<Rightarrow> u8 list \<Rightarrow> ('k, 'm) file_st_scheme \<Rightarrow> ('k, 'm) file_st_scheme \<Rightarrow> bool" where
  "in_tx st f nb xs s t \<longleftrightarrow> (let ip = f_ip (getf s f); off = f_off (getf s f); x = geti s ip in
     tx_ok t \<and> lh_n t \<le> int MAXOPBLOCKS \<and> heldb t = {} \<and> outstanding t = 1 \<and> \<not> committing t \<and> lg_dev t = ROOTDEV \<and> lg_start t = st \<and> dirty t \<noteq> {} \<and>
     (\<forall>m\<in>dirty t. m < FSSIZE \<and> m \<notin> log_area st) \<and> disk t 1 = disk s 1 \<and> writes t = writes s \<and> ftable t = ftable s \<and> sb t = sb s \<and>
     length (inodes t) = length (inodes s) \<and> mypid t = mypid s \<and>
     geti t ip = x\<lparr>i_size := max (i_size x) (off + of_nat (length xs)), i_lock := held_by (mypid s)\<rparr> \<and>
     file_ok t ip nb \<and> (\<forall>bn<nb. fblock t ip bn = fblock s ip bn) \<and> disk_file st s ip nb off (cur t) xs)"

lemma chunk_writei:
  fixes s :: "('k, 'm) file_st_scheme"
  assumes i: "fs_idle st s" and o: "open_file st f nb s" and n: "0 < n" "n \<le> max_write" "unat (f_off (getf s f)) + nat n \<le> nb * BSIZE" "nat n \<le> length addr"
  defines "ip \<equiv> f_ip (getf s f)" and "off \<equiv> f_off (getf s f)"
  defines "s2 \<equiv> seti ip (\<lambda>x. x\<lparr>i_lock := held_by (mypid s)\<rparr>) (s\<lparr>outstanding := 1\<rparr>)"
  shows "\<exists>t. writei dsw ip addr off (word_of_int n) s2 = Inr (n, t) \<and> in_tx st f nb (take (nat n) addr) s t"
proof -
  define x where "x = geti s ip"
  note op = o [unfolded open_file_def Let_def, folded ip_def off_def, folded x_def] and b = chunk_begin [OF i o, folded ip_def, folded s2_def]
  let ?w = "word_of_int n :: u32" and ?xs = "take (nat n) addr" and ?z = "max (i_size x) (off + word_of_int n)"
  have w: "uint ?w = n" "unat ?w = nat n"
    using n(1,2) by (simp_all add: max_write_eq uint_word_of_int unat_eq_nat_uint take_bit_int_eq_self)
  have len: "length ?xs = nat n" "?xs \<noteq> []" "of_nat (length ?xs) = ?w" using n by auto
  have prem: "off \<le> i_size (geti s2 ip)" "unat off + unat ?w \<le> nb * BSIZE" "unat ?w \<le> length addr" "0 < ?w"
    using op b(16) n w by (simp_all add: x_def off_def word_less_def)
  moreover have rm: "lh_n s2 + int (span (unat off) (unat ?w)) + 1 < int LOGSIZE"
    using b(10) n(2) w(2) span_small [of "nat n" "unat off"] by (simp add: max_write_eq LOGSIZE_def MAXOPBLOCKS_def nat_le_iff)
  ultimately obtain t where t: "writei dsw ip addr off ?w s2 = Inr (n, t)" "wrote_file s2 ip nb (unat off) ?xs t"
      "i_size x < off + ?w \<longrightarrow> get_dinode (unat (i_inum x) mod IPB) (cur t (inode_block s ip)) = dinode_of ((geti s2 ip)\<lparr>i_size := off + ?w\<rparr>)"
      "\<not> i_size x < off + ?w \<longrightarrow> cur t (inode_block s ip) = cur s2 (inode_block s ip)" "write_frame s2 ip nb t" "dirty t \<noteq> {}"
      "lh_n t \<le> lh_n s2 + int (span (unat off) (unat ?w)) + 1"
    using writei_ok [OF b(3,4,18) prem(1-3) rm, of dsw] w b(16,21) by (auto simp: x_def)
  note wf = t(2) [unfolded wrote_file_def] and fr = t(5) [unfolded write_frame_def log_same_def]
  have "nb * BSIZE < 2 ^ 32" using b(18) by (simp add: file_ok_def fmapped_def MAXFILE_def NDIRECT_def NINDIRECT_def BSIZE_def)
  then have u: "unat (off + ?w) = unat off + nat n" using prem(2) w(2) by (simp add: unat_plus_if')
  obtain z where z: "inodes t = (inodes s2)[ip := (geti s2 ip)\<lparr>i_size := z\<rparr>]" using fr by blast
  have l2: "ip < length (inodes s2)" using b(18) by (simp add: file_ok_def)
  then have gz: "geti t ip = (geti s2 ip)\<lparr>i_size := z\<rparr>" using z by (simp add: geti_def)
  then have "unat z = unat ?z" using wf b(16) u len by (simp add: max_def word_le_nat_alt x_def)
  then have "z = ?z" by (rule word_unat_eq_iff [THEN iffD2])
  then have g: "geti t ip = x\<lparr>i_size := ?z, i_lock := held_by (mypid s)\<rparr>" "length (inodes t) = length (inodes s)"
    using gz z b(16,17) by (simp_all add: x_def file_at_def)
  have ft: "ftable t = ftable s" using ftable_more [of t s] fr b(15) by simp
  have "get_dinode (unat (i_inum x) mod IPB) (cur t (inode_block s ip)) = dinode_of (x\<lparr>i_size := ?z\<rparr>)"
    using t(3,4) b(6,16) op idle_cur [OF i] by (cases "i_size x < off + ?w") (auto simp: x_def max_def dinode_of_def)
  then have df: "disk_file st s ip nb off (cur t) ?xs"
    by (intro wrote_disk_file [OF idle_cur [OF i] b(17,20,19,21) _ t(2)])
      (use b(6) idle_cur [OF i] g(1) in \<open>simp_all add: len(3) x_def del: length_take\<close>)
  have fb: "\<forall>bn<nb. fblock t ip bn = fblock s ip bn"
    using fblock_frame [OF b(18), of t] wf b(16,19) g(1) by (simp add: x_def)
  have "\<forall>m\<in>dirty t. m \<in> fblock s ip ` {..<nb} \<union> {inode_block s ip}" using fr b(5,19,21) by auto
  then have "\<forall>m\<in>dirty t. m < FSSIZE \<and> m \<notin> log_area st" using op by (auto simp: file_ok_def fmapped_def)
  moreover have "lh_n t \<le> int MAXOPBLOCKS"
    using t(7) b(10) n(2) w(2) span_small [of "nat n" "unat off"] by (simp add: max_write_eq MAXOPBLOCKS_def nat_le_iff)
  ultimately have "in_tx st f nb ?xs s t"
    unfolding in_tx_def Let_def ip_def [symmetric] off_def [symmetric] len(3) x_def [symmetric]
    using wf fr b(7-9,11-14,17) t(6) g ft df fb by (simp add: file_at_def)
  then show ?thesis using t(1) by blast
qed

lemma chunk_commit:
  fixes s :: "('k, 'm) file_st_scheme"
  assumes i: "fs_idle st s" and o: "open_file st f nb s" and w: "in_tx st f nb xs s s3" and n: "of_nat (length xs) = w"
  defines "s4 \<equiv> setf f (\<lambda>y. y\<lparr>f_off := f_off y + w\<rparr>) s3"
  shows "f_ip (getf s4 f) = f_ip (getf s f)" "\<exists>s5 t ws. iunlock (f_ip (getf s f)) s4 = Inr s5 \<and> end_op s5 = Inr t \<and> durable st f nb xs ws s t"
proof -
  define ip off x where "ip = f_ip (getf s f)" and "off = f_off (getf s f)" and "x = geti s ip"
  note op = o [unfolded open_file_def Let_def, folded ip_def off_def, folded x_def] and wr = w [unfolded in_tx_def Let_def n, folded ip_def off_def, folded x_def]
  have v4: "bio.truncate s4 = bio.truncate s3" by (simp add: s4_def setf_def bio.truncate_def)
  note lv = log_view [OF v4]
  have s4: "inodes s4 = inodes s3" "sb s4 = sb s3" "outstanding s4 = outstanding s3" "committing s4 = committing s3"
    "lg_dev s4 = lg_dev s3" "lg_start s4 = lg_start s3" "ftable s4 = (ftable s)[f := (getf s f)\<lparr>f_off := off + w\<rparr>]"
    "lg_lock s4 = lg_lock s3" "lh_block s4 = lh_block s3" "lg_size s4 = lg_size s3" "lh_n s4 = lh_n s3"
    using wr by (simp_all add: s4_def setf_def getf_def off_def)
  have tx4: "tx_ok s4" using wr unfolding tx_ok_def logged_def lv s4 by blast
  have g4: "geti s4 ip = geti s3 ip" "getf s4 f = (getf s f)\<lparr>f_off := off + w\<rparr>" using s4 op by (simp_all add: geti_def getf_def)
  then show "f_ip (getf s4 f) = f_ip (getf s f)" by simp
  define s5 where "s5 = wake (InodeLock ip) (seti ip (\<lambda>x. x\<lparr>i_lock := initsleeplock\<rparr>) s4)"
  have "heldb s4 = {}" "ip < length (inodes s4)" "1 \<le> i_ref (geti s4 ip)" "i_lock (geti s4 ip) = held_by (mypid s4)"
    using wr lv g4 op s4 by (simp_all add: file_ok_def)
  note e = chunk_end [OF tx4 this, folded s5_def]
  have i5: "outstanding s5 = 1" "\<not> committing s5" "lg_dev s5 = ROOTDEV" "lg_start s5 = st" "head_n st (disk s5 1) = 0" "\<forall>b\<in>log_area st. b < FSSIZE"
      "\<forall>m\<in>dirty s5. m < FSSIZE \<and> m \<notin> log_area st" "dirty s5 \<noteq> {}" "disk s5 1 = disk s 1" "writes s5 = writes s" "cur s5 = cur s3"
    using e lv s4 wr i by (simp_all add: fs_idle_def)
  have l5: "lh_n s5 = lh_n s3" using s4(11) by (simp add: s5_def wake_def seti_def)
  obtain t ws where t: "end_op s5 = Inr t" "fs_idle st t" "log_st.more t = log_st.more s5" "writes t = writes s @ ws" "disk t 1 = apply_ws ws (disk s 1)"
      "\<And>b. b \<notin> log_area st \<Longrightarrow> disk t 1 b = cur s3 b"
      "\<And>k. (\<forall>b. b \<notin> log_area st \<longrightarrow> replay st (apply_ws (take k ws) (disk s 1)) b = disk s 1 b) \<or>
         (\<forall>b. b \<notin> log_area st \<longrightarrow> replay st (apply_ws (take k ws) (disk s 1)) b = cur s3 b)"
      "\<forall>k. head_n st (apply_ws (take k ws) (disk s 1)) \<in> {0, lh_n s3}"
    using end_op_commits [OF e(2) i5(1,2) e(3) i5(3-8)] i5(9-11) l5 by auto
  have bnd: "0 \<le> lh_n s3" "lh_n s3 \<le> int MAXOPBLOCKS" using wr by (simp_all add: tx_ok_def)
  have hd: "\<forall>k. head_n st (apply_ws (take k ws) (disk s 1)) \<in> {0..int MAXOPBLOCKS}"
  proof
    fix k
    have "head_n st (apply_ws (take k ws) (disk s 1)) \<in> {0, lh_n s3}" using t(8) by blast
    then show "head_n st (apply_ws (take k ws) (disk s 1)) \<in> {0..int MAXOPBLOCKS}"
      using bnd by fastforce
  qed
  note ft = fs_fields [OF t(3)]
  have gt: "geti t ip = x\<lparr>i_size := max (i_size x) (off + w)\<rparr>" "getf t f = (getf s f)\<lparr>f_off := off + w\<rparr>"
    using ft(5) e(13,14) g4 wr op ftable_more [OF ft(6)] by (simp_all add: getf_def)
  have "geti t ip = (geti s3 ip)\<lparr>i_size := i_size (geti s3 ip), i_lock := initsleeplock\<rparr>" using gt(1) wr op by simp
  moreover have "length (inodes t) = length (inodes s3)" "sb t = sb s3" "sb t = sb s" using ft(1,2) e(15,16) s4(1,2) wr by simp_all
  ultimately have fa: "file_at s3 t ip" "sb t = sb s" unfolding file_at_def by blast+
  have ct: "cur t = disk t 1" "cur s = disk s 1" using idle_cur t(2) i by blast+
  have out: "file_ok s ip nb" "\<forall>bn<nb. fblock s ip bn \<notin> log_area st" "inode_block s ip \<notin> log_area st" "NDIRECT < nb \<longrightarrow> ind_block s ip \<notin> log_area st"
    using op by blast+
  have b3: "file_ok s3 ip nb" "\<forall>bn<nb. fblock s3 ip bn = fblock s ip bn" "inode_block s3 ip = inode_block s ip" "ind_block s3 ip = ind_block s ip"
      "i_size (geti t ip) = i_size (geti s3 ip)"
    using wr gt(1) by (simp_all add: inode_block_def ind_block_def x_def)
  then have sz: "unat (i_size (geti t ip)) \<le> nb * BSIZE" by (simp add: file_ok_def)
  have fo: "file_ok t ip nb" "\<forall>bn<nb. fblock t ip bn = fblock s ip bn" "inode_block t ip = inode_block s ip" "ind_block t ip = ind_block s ip"
    using file_ok_at [OF b3(1) fa(1) sz, of "log_area st"] out(2,4) ct(1) t(6) b3(2-4) by simp_all
  have df: "disk_file st s ip nb off (disk t 1) xs" "disk_file st s ip nb off (disk s 1) []"
    using disk_file_cong [OF ct(2) out, of off "cur s3" xs "disk t 1"] wr t(6) disk_file_Nil [of off s ip st nb] op ct(2) by (simp_all add: x_def)
  have "\<exists>j\<le>length xs. disk_file st s ip nb off (replay st (apply_ws (take k ws) (disk s 1))) (take j xs)" for k
    using t(7) [of k]
  proof
    assume "\<forall>b. b \<notin> log_area st \<longrightarrow> replay st (apply_ws (take k ws) (disk s 1)) b = disk s 1 b"
    then show ?thesis using disk_file_cong [OF ct(2) out df(2)] by (intro exI [of _ 0]) simp
  next
    assume "\<forall>b. b \<notin> log_area st \<longrightarrow> replay st (apply_ws (take k ws) (disk s 1)) b = cur s3 b"
    then show ?thesis using disk_file_cong [OF ct(2) out, of off "cur s3" xs] wr by (intro exI [of _ "length xs"]) simp
  qed
  moreover have "get_dinode (unat (i_inum x) mod IPB) (cur t (inode_block s ip)) = dinode_of (geti t ip)"
    using df(1) gt(1) ct(1) n by (simp add: disk_file_def Let_def x_def)
  then have "open_file st f nb t"
    unfolding open_file_def Let_def gt(2) using op fo gt ftable_more [OF ft(6)] e(13) s4(7) by (simp add: ip_def [symmetric])
  ultimately have "durable st f nb xs ws s t"
    unfolding durable_def Let_def ip_def [symmetric] off_def [symmetric] x_def [symmetric] n using t(2,4,5) gt fa(2) df(1) hd by blast
  then show "\<exists>s5 t ws. iunlock (f_ip (getf s f)) s4 = Inr s5 \<and> end_op s5 = Inr t \<and> durable st f nb xs ws s t"
    using e(1) t(1) unfolding ip_def by blast
qed

lemma write_chunk_ok:
  fixes s :: "('k, 'm) file_st_scheme"
  assumes i: "fs_idle st s" and o: "open_file st f nb s" and n: "0 < n" "n \<le> max_write" "unat (f_off (getf s f)) + nat n \<le> nb * BSIZE" "nat n \<le> length addr"
  shows "\<exists>t ws. write_chunk dsw f addr n s = Inr (n, t) \<and> durable st f nb (take (nat n) addr) ws s t"
proof -
  let ?ip = "f_ip (getf s f)" and ?w = "word_of_int n :: u32"
  let ?s2 = "seti ?ip (\<lambda>x. x\<lparr>i_lock := held_by (mypid s)\<rparr>) (s\<lparr>outstanding := 1\<rparr>)"
  note b = chunk_begin [OF i o]
  obtain s3 where s3: "writei dsw ?ip addr (f_off (getf s f)) ?w ?s2 = Inr (n, s3)" "in_tx st f nb (take (nat n) addr) s s3"
    using chunk_writei [OF assms] by blast
  have "of_nat (length (take (nat n) addr)) = ?w" using n by simp
  note c = chunk_commit [OF i o s3(2) this]
  have "getf ?s2 f = getf s f" "getf (s\<lparr>outstanding := 1\<rparr>) f = getf s f" by (simp_all add: getf_def seti_def)
  then show ?thesis using b(1,2) s3(1) c n(1) by (auto simp: write_chunk_def)
qed

subsection \<open>The whole write\<close>

lemma durable_refl:
  assumes "fs_idle st s" "open_file st f nb s"
  shows "durable st f nb [] [] s s"
proof -
  have "head_blocks st (disk s 1) = []" using assms(1) by (simp add: fs_idle_def head_blocks_def get_words_def)
  then have "replay st (disk s 1) = disk s 1" by (simp add: replay_def find_idx_def)
  moreover have "disk_file st s (f_ip (getf s f)) nb (f_off (getf s f)) (disk s 1) []"
    by (intro disk_file_Nil) (use assms(2) idle_cur [OF assms(1)] in \<open>simp_all add: open_file_def Let_def\<close>)
  moreover have "f_off (getf s f) \<le> i_size (geti s (f_ip (getf s f)))" using assms(2) by (simp add: open_file_def Let_def)
  moreover have "head_n st (disk s 1) \<in> {0..int MAXOPBLOCKS}" using assms(1) by (simp add: fs_idle_def)
  ultimately show ?thesis using assms by (simp add: durable_def Let_def max_absorb1)
qed

lemma durable_trans:
  fixes s :: "('k, 'm) file_st_scheme"
  assumes s: "fs_idle st s" "open_file st f nb s" and d: "durable st f nb xs ws s t" "durable st f nb ys vs t u"
    and b: "unat (f_off (getf s f)) + length xs + length ys < 2 ^ 32"
  shows "durable st f nb (xs @ ys) (ws @ vs) s u"
proof -
  define ip off x where "ip = f_ip (getf s f)" and "off = f_off (getf s f)" and "x = geti s ip"
  note op = s(2) [unfolded open_file_def Let_def, folded ip_def off_def, folded x_def]
  note d1 = d(1) [unfolded durable_def Let_def, folded ip_def off_def, folded x_def]
  have gt: "getf t f = (getf s f)\<lparr>f_off := off + of_nat (length xs)\<rparr>" "geti t ip = x\<lparr>i_size := max (i_size x) (off + of_nat (length xs))\<rparr>" using d1 by simp_all
  have ft: "f_ip (getf t f) = ip" "f_off (getf t f) = off + of_nat (length xs)" unfolding gt by (simp_all add: ip_def)
  note d2 = d(2) [unfolded durable_def Let_def ft]
  have df: "disk_file st s ip nb off (disk t 1) xs" "file_ok s ip nb" "NDIRECT < nb \<longrightarrow> ind_block s ip \<notin> log_area st" using d1 op by blast+
  have ap: "disk_file st s ip nb off D (xs @ zs)" if "disk_file st t ip nb (off + of_nat (length xs)) D zs" "length zs \<le> length ys" for D zs
  proof (rule disk_file_append [OF _ _ _ _ that(1)])
    show "disk_file st s ip nb off (disk t 1) xs" "sb t = sb s" using d1 by blast+
    show "geti t ip = (geti s ip)\<lparr>i_size := max (i_size (geti s ip)) (off + of_nat (length xs))\<rparr>" using gt by (simp add: x_def)
    show "\<forall>bn<nb. dblock (disk t 1) (geti t ip) bn = dblock (disk s 1) (geti s ip) bn"
      using disk_file_blocks [OF idle_cur [OF s(1)] df(2,3,1)] dblock_fblock(1) [OF idle_cur [OF s(1)], of ip] unfolding gt(2) by (simp add: x_def)
    show "unat off + length xs + length zs < 2 ^ 32" using b that(2) by (simp add: off_def)
  qed
  have "\<exists>j\<le>length (xs @ ys). disk_file st s ip nb off (replay st (apply_ws (take k (ws @ vs)) (disk s 1))) (take j (xs @ ys))" for k
  proof (cases "k \<le> length ws")
    case True
    obtain j where "j \<le> length xs" "disk_file st s ip nb off (replay st (apply_ws (take k ws) (disk s 1))) (take j xs)" using d1 by blast
    then show ?thesis using True by (intro exI [of _ j]) simp
  next
    case False
    obtain j where j: "j \<le> length ys" "disk_file st t ip nb (off + of_nat (length xs)) (replay st (apply_ws (take (k - length ws) vs) (disk t 1))) (take j ys)"
      using d2 by blast
    then show ?thesis using False ap [OF j(2)] d1 by (intro exI [of _ "length xs + j"]) (simp add: apply_ws_append)
  qed
  moreover have "head_n st (apply_ws (take k (ws @ vs)) (disk s 1)) \<in> {0..int MAXOPBLOCKS}" for k
  proof (cases "k \<le> length ws")
    case True
    then show ?thesis using d1 by simp
  next
    case False
    then have "apply_ws (take k (ws @ vs)) (disk s 1) = apply_ws (take (k - length ws) vs) (disk t 1)"
      using d1 by (simp add: apply_ws_append)
    then show ?thesis using d2 by simp
  qed
  moreover have "geti u ip = x\<lparr>i_size := max (i_size x) (off + of_nat (length (xs @ ys)))\<rparr>"
    using d2 gt(2) size_append(2) [OF b [folded off_def]] by simp
  moreover have "getf u f = (getf s f)\<lparr>f_off := off + of_nat (length (xs @ ys))\<rparr>" using d2 gt(1) by (simp add: ac_simps)
  moreover have "disk_file st s ip nb off (disk u 1) (xs @ ys)" using ap d2 by blast
  moreover have "writes u = writes s @ ws @ vs" "disk u 1 = apply_ws (ws @ vs) (disk s 1)" "sb u = sb s" using d1 d2 by (simp_all add: apply_ws_append)
  ultimately show ?thesis
    unfolding durable_def Let_def ip_def [symmetric] off_def [symmetric] x_def [symmetric] using d2 by blast
qed

lemma filewrite_loop_ok:
  fixes s :: "('k, 'm) file_st_scheme"
  assumes "fs_idle st s" "open_file st f nb s" "0 \<le> i" "i \<le> n" "unat (f_off (getf s f)) + nat (n - i) \<le> nb * BSIZE" "nat n \<le> length addr"
  shows "\<exists>t ws. filewrite_loop dsw f addr i n s = Inr (n, t) \<and> durable st f nb (take (nat (n - i)) (drop (nat i) addr)) ws s t"
  using assms
proof (induction "nat (n - i)" arbitrary: i s rule: less_induct)
  case less
  show ?case
  proof (cases "i < n")
    case False
    then have "i = n" using less.prems(4) by simp
    then show ?thesis using durable_refl [OF less.prems(1,2)] by (auto simp: filewrite_loop.simps [of dsw f addr n n s])
  next
    case True
    let ?m = "min (n - i) max_write"
    have m: "0 < ?m" "?m \<le> max_write" "nat ?m \<le> length (drop (nat i) addr)" "unat (f_off (getf s f)) + nat ?m \<le> nb * BSIZE"
      using True less.prems by (auto simp: max_write_eq)
    obtain t ws where t: "write_chunk dsw f (drop (nat i) addr) ?m s = Inr (?m, t)" "durable st f nb (take (nat ?m) (drop (nat i) addr)) ws s t"
      using write_chunk_ok [OF less.prems(1,2) m(1,2,4,3)] by blast
    let ?xs = "take (nat ?m) (drop (nat i) addr)"
    have len: "length ?xs = nat ?m" using m(3) by simp
    have t2: "fs_idle st t" "open_file st f nb t" "f_off (getf t f) = f_off (getf s f) + of_nat (nat ?m)"
      using t(2) len by (simp_all add: durable_def Let_def)
    have "file_ok s (f_ip (getf s f)) nb" using less.prems(2) by (simp add: open_file_def Let_def)
    then have "nb * BSIZE < 2 ^ 32" by (simp add: file_ok_def fmapped_def MAXFILE_def NDIRECT_def NINDIRECT_def BSIZE_def)
    moreover have sp: "nat (n - i) = nat ?m + nat (n - (i + ?m))" using True m(1) by simp
    ultimately have b: "unat (f_off (getf s f)) + nat ?m + nat (n - (i + ?m)) < 2 ^ 32" "unat (f_off (getf s f)) + nat ?m + nat (n - (i + ?m)) \<le> nb * BSIZE"
      using less.prems(5) by linarith+
    have off: "unat (f_off (getf t f)) + nat (n - (i + ?m)) \<le> nb * BSIZE" unfolding t2(3) size_append(1) [OF b(1)] by (rule b(2))
    have step: "nat (n - (i + ?m)) < nat (n - i)" "0 \<le> i + ?m" "i + ?m \<le> n" using True m(1) less.prems(3) by simp_all
    obtain u vs where u: "filewrite_loop dsw f addr (i + ?m) n t = Inr (n, u)" "durable st f nb (take (nat (n - (i + ?m))) (drop (nat (i + ?m)) addr)) vs t u"
      using less.hyps [OF step(1) t2(1,2) step(2,3) off less.prems(6)] by blast
    have e: "take (nat (n - i)) (drop (nat i) addr) = ?xs @ take (nat (n - (i + ?m))) (drop (nat (i + ?m)) addr)"
    proof -
      have "nat (i + ?m) = nat ?m + nat i" using m(1) less.prems(3) by linarith
      then show ?thesis by (simp only: sp take_add drop_drop)
    qed
    have sh: "length (take (nat (n - (i + ?m))) (drop (nat (i + ?m)) addr)) \<le> nat (n - (i + ?m))" by simp
    have "durable st f nb (take (nat (n - i)) (drop (nat i) addr)) (ws @ vs) s u"
      unfolding e by (rule durable_trans [OF less.prems(1,2) t(2) u(2)]) (use b(1) len sh in linarith)
    moreover have "filewrite_loop dsw f addr i n s = Inr (n, u)"
      using t(1) u(1) m(1) True by (subst filewrite_loop.simps) (simp add: Let_def)
    ultimately show ?thesis by blast
  qed
qed

text \<open>C4: a write to an open file, inside its allocated blocks and with no other operation in progress, returns the number of
  bytes it was given, all of which are then on the disk: the file holds them from the old offset on, the inode's
  block has the new size, and outside the file, its inode and the log no block changed.  The write is split into transactions, of
  which none commits more than the \<open>MAXOPBLOCKS\<close> blocks that \<open>begin_op\<close> reserved, whatever the length of the write: after each disk write the
  log header names at most that many blocks.  A crash after any number of the disk writes leaves, once the log is replayed, the
  file with a prefix of these bytes, with the size that fits and nothing else changed.\<close>

theorem filewrite_durable:
  fixes s :: "('k, 'm) file_st_scheme"
  assumes "fs_idle st s" "open_file st f nb s" "0 \<le> n" "unat (f_off (getf s f)) + nat n \<le> nb * BSIZE" "nat n \<le> length addr"
  shows "\<exists>t ws. filewrite dsw f addr n s = Inr (Returned n (nat n), t) \<and> durable st f nb (take (nat n) addr) ws s t"
proof -
  have "f_writable (getf s f)" "f_type (getf s f) = FD_INODE" using assms(2) by (simp_all add: open_file_def Let_def)
  then show ?thesis using filewrite_loop_ok [OF assms(1,2) order_refl assms(3), of addr dsw] assms(4,5) by (auto simp: filewrite_def)
qed

text \<open>The example file system between operations, with a file open for writing at its end.\<close>

definition raw_files :: "unit file_st" where
  "raw_files = fs_st.extend (raw_fs\<lparr>outstanding := 0, disk := \<lambda>_. (\<lambda>_. zero_block)(32 := put_dinode 1 (dinode_of file_inode) zero_block)\<rparr>)
     (file_st.fields False [\<lparr>f_type = FD_INODE, f_ref = 1, f_readable = False, f_writable = True, f_pipe = 0, f_ip = 0, f_off = 3\<rparr>] pipe_example)"

definition files_example :: "unit file_st" where
  "files_example = binit raw_files"

definition no_file_devices :: "nat \<Rightarrow> (unit, unit) file_st_ext devsw" where
  "no_file_devices n = \<lparr>dev_read = None, dev_write = None\<rparr>"

lemma raw_files_fields:
  "bufs raw_files = replicate NBUF free_buf" "\<not> bc_lock raw_files" "\<not> ide_lock raw_files" "idequeue raw_files = []" "havedisk1 raw_files"
  "disk raw_files = (\<lambda>_. (\<lambda>_. zero_block)(32 := put_dinode 1 (dinode_of file_inode) zero_block))"
  "inodes raw_files = [file_inode, dir_inode, file_inode\<lparr>i_ref := 0\<rparr>]" "sb raw_files = example_sb"
  "ftable raw_files = [\<lparr>f_type = FD_INODE, f_ref = 1, f_readable = False, f_writable = True, f_pipe = 0, f_ip = 0, f_off = 3\<rparr>]"
  "\<not> lg_lock raw_files" "outstanding raw_files = 0" "\<not> committing raw_files" "lh_n raw_files = 0" "lh_block raw_files = replicate LOGSIZE 0"
  "lg_size raw_files = 30" "lg_dev raw_files = ROOTDEV" "lg_start raw_files = 2"
  by (simp_all add: raw_files_def raw_fs_def fs_st.extend_def file_st.fields_def NBUF_def LOGSIZE_def MAXOPBLOCKS_def)

lemma files_example_view:
  "bc_ok files_example" "heldb files_example = {}" "dirty files_example = {}" "bio.more files_example = bio.more raw_files"
  "disk files_example 1 = disk raw_files 1"
proof -
  have "length (disk raw_files 1 n) = BSIZE" for n by (simp add: raw_files_fields(6) example_blocks)
  note f = fresh_cache [OF raw_files_fields(1-5) this, folded files_example_def]
  have "cur files_example = disk files_example 1" using clean_block [OF f(1)] f(2,3) by auto
  then show "disk files_example 1 = disk raw_files 1" using f(4) by metis
  show "bc_ok files_example" "heldb files_example = {}" "dirty files_example = {}" "bio.more files_example = bio.more raw_files" by (fact f)+
qed

lemmas files_example_log = log_fields [OF files_example_view(4)] raw_files_fields
  and files_example_fs = fs_fields [OF more_fields [OF files_example_view(4)]]

lemma files_example_idle:
  "fs_idle 2 files_example" "open_file 2 0 1 files_example" "geti files_example 0 = file_inode" "f_ip (getf files_example 0) = 0" "f_off (getf files_example 0) = 3"
proof -
  show i: "fs_idle 2 files_example"
    using files_example_view files_example_log geometry_2(2)
    by (simp add: fs_idle_def log_geometry_def head_n_def zero_block_def get32_def BSIZE_def LOGSIZE_def MAXOPBLOCKS_def)
  have f: "getf files_example 0 = \<lparr>f_type = FD_INODE, f_ref = 1, f_readable = False, f_writable = True, f_pipe = 0, f_ip = 0, f_off = 3\<rparr>"
      "length (ftable files_example) = 1" "geti files_example 0 = file_inode" "sb files_example = example_sb" "inodes files_example = inodes raw_files"
    using ftable_more [OF files_example_fs(6)] files_example_fs by (simp_all add: getf_def geti_def raw_files_fields)
  then show "geti files_example 0 = file_inode" "f_ip (getf files_example 0) = 0" "f_off (getf files_example 0) = 3" by simp_all
  have b: "fblock files_example 0 0 = 60" "ind_block files_example 0 = 0" "inode_block files_example 0 = 32"
    by (simp_all add: fblock_def ind_block_def inode_block_def f file_inode_def NDIRECT_def IBLOCK_def example_sb_def IPB_def BSIZE_def)
  have "file_ok files_example 0 1"
    by (simp add: file_ok_def fmapped_def file_sep_def b f raw_files_fields file_inode_def T_FILE_def T_DEV_def NDIRECT_def MAXFILE_def BSIZE_def FSSIZE_def lessThan_Suc)
  moreover have "get_dinode 1 (put_dinode 1 (dinode_of file_inode) zero_block) = dinode_of file_inode"
    by (rule get_put_dinode) (simp_all add: dinode_of_def file_inode_def NDIRECT_def zero_block_def BSIZE_def)
  then have "get_dinode (unat (i_inum file_inode) mod IPB) (cur files_example 32) = dinode_of file_inode"
    using idle_cur [OF i] files_example_view(5) by (simp add: raw_files_fields(6) file_inode_def IPB_def BSIZE_def)
  ultimately show "open_file 2 0 1 files_example"
    using b by (simp add: open_file_def f file_inode_def NDIRECT_def log_area_2)
qed

theorem filewrite_durable_witness:
  "\<exists>t. filewrite no_file_devices 0 [9, 8] 2 files_example = Inr (Returned 2 2, t) \<and> disk t 1 60 ! 3 = 9 \<and> disk t 1 60 ! 4 = 8 \<and> i_size (geti t 0) = 5"
proof -
  note x = files_example_idle
  obtain t ws where t: "filewrite no_file_devices 0 [9, 8] 2 files_example = Inr (Returned 2 2, t)" "durable 2 0 1 [9, 8] ws files_example t"
    using filewrite_durable [OF x(1,2), of 2 "[9, 8]" no_file_devices] x(5) by (auto simp: BSIZE_def)
  then have d: "disk_file 2 files_example 0 1 3 (disk t 1) [9, 8]" unfolding durable_def Let_def x by blast
  moreover have "geti t 0 = file_inode\<lparr>i_size := max (i_size file_inode) (3 + 2)\<rparr>" using t(2) by (simp add: durable_def Let_def x)
  moreover from d have "\<forall>i<512. dbyte (disk t 1) file_inode i = (if 3 \<le> i \<and> i < 5 then [9, 8] ! (i - 3) else dbyte (disk files_example 1) file_inode i)"
    by (simp add: disk_file_def Let_def x BSIZE_def)
  then have "dbyte (disk t 1) file_inode 3 = 9" "dbyte (disk t 1) file_inode 4 = 8" by simp_all
  ultimately show ?thesis using t(1) by (simp add: dbyte_def dblock_def file_inode_def NDIRECT_def BSIZE_def)
qed

end
