(* ===== verification/XvFdProps.thy ===== *)
theory XvFdProps
  imports XvSysfile XvFileProps XvProcProps
begin

text \<open>
  Descriptors and the file table: which entries the allocators choose, and that the calls give back everything
  they took when a table is full or memory runs out.
\<close>

lemma find_idx_Min: "find_idx P xs = (let A = {k. k < length xs \<and> P (xs ! k)} in if A = {} then None else Some (Min A))"
proof (cases "find_idx P xs")
  case None
  then show ?thesis by (auto simp: find_idx_None Let_def)
next
  case (Some k)
  then have k: "k < length xs" "P (xs ! k)" "\<forall>j<k. \<not> P (xs ! j)" by (simp_all add: find_idx_Some)
  then have "Min {k. k < length xs \<and> P (xs ! k)} = k" by (intro Min_eqI) (auto simp: not_less [symmetric])
  then show ?thesis using Some k by (auto simp: Let_def)
qed

text \<open>The free entries of the file table; a free entry has no type.\<close>

definition free_files :: "('k, 'm) file_st_scheme \<Rightarrow> nat set" where
  "free_files s = {f. f < length (ftable s) \<and> f_ref (ftable s ! f) = 0}"

definition ft_ok :: "('k, 'm) file_st_scheme \<Rightarrow> bool" where
  "ft_ok s \<longleftrightarrow> \<not> ft_lock s \<and> (\<forall>x\<in>set (ftable s). f_ref x = 0 \<longrightarrow> f_type x = FD_NONE)"

lemma finite_free [simp]: "finite (free_files s)" by (simp add: free_files_def)

text \<open>The lock of the table is released again by every operation on it.\<close>

lemma ft_lock_setf: "\<not> ft_lock s \<Longrightarrow> ft_release (setf f g (s\<lparr>ft_lock := True\<rparr>)) = Inr (setf f g s)"
  by (cases s) (simp add: ft_release_def setf_def)

lemma ft_lock_same: "\<not> ft_lock s \<Longrightarrow> ft_acquire s = Inr (s\<lparr>ft_lock := True\<rparr>)" "\<not> ft_lock s \<Longrightarrow> ft_release (s\<lparr>ft_lock := True\<rparr>) = Inr s"
  by (cases s, simp add: ft_acquire_def ft_release_def)+

lemma filealloc_eq:
  assumes "\<not> ft_lock s"
  shows "filealloc s = Inr (if free_files s = {} then (None, s)
    else let f = Min (free_files s) in (Some f, setf f (\<lambda>x. x\<lparr>f_ref := 1\<rparr>) s))"
proof -
  have "find_idx (\<lambda>x. f_ref x = 0) (ftable s) = (if free_files s = {} then None else Some (Min (free_files s)))"
    by (simp add: find_idx_Min free_files_def Let_def)
  then show ?thesis using ft_lock_same [OF assms] ft_lock_setf [OF assms] by (simp add: filealloc_def Let_def)
qed

lemma setf_setf: "f < length (ftable s) \<Longrightarrow> setf f g (setf f h s) = setf f (\<lambda>x. g (h x)) s"
  by (simp add: setf_def)

lemma fileclose_fresh:
  assumes "\<not> ft_lock s" "f < length (ftable s)" "f_ref (ftable s ! f) = 1" "f_type (ftable s ! f) = FD_NONE"
  shows "fileclose svc f s = Inr (setf f (\<lambda>x. x\<lparr>f_ref := 0\<rparr>) s)"
proof -
  have "setf f (\<lambda>x. x\<lparr>f_ref := 0, f_type := FD_NONE\<rparr>) s = setf f (\<lambda>x. x\<lparr>f_ref := 0\<rparr>) s"
    using assms(4) by (cases "ftable s ! f") (simp add: setf_def)
  then show ?thesis using assms ft_lock_same [OF assms(1)] ft_lock_setf [OF assms(1), of f]
    by (simp add: fileclose_def getf_def Let_def setf_setf) (simp add: setf_def)
qed

lemma fileclose_shared:
  assumes "\<not> ft_lock s" "f < length (ftable s)" "1 < f_ref (ftable s ! f)"
  shows "fileclose svc f s = Inr (setf f (\<lambda>x. x\<lparr>f_ref := f_ref x - 1\<rparr>) s)"
  using assms ft_lock_same [OF assms(1)] ft_lock_setf [OF assms(1), of f]
  by (simp add: fileclose_def getf_def Let_def) (simp add: setf_def)

lemma filedup_eq:
  assumes "\<not> ft_lock s" "1 \<le> f_ref (ftable s ! f)"
  shows "filedup f s = Inr (f, setf f (\<lambda>x. x\<lparr>f_ref := f_ref x + 1\<rparr>) s)"
  using assms ft_lock_same [OF assms(1)] ft_lock_setf [OF assms(1)] by (simp add: filedup_def getf_def)

subsection \<open>Allocating a pipe\<close>

lemma free_files_setf: "f < length (ftable s) \<Longrightarrow> free_files (setf f g s) = (if f_ref (g (ftable s ! f)) = 0 then insert f (free_files s) else free_files s - {f})"
  by (auto simp: free_files_def setf_def nth_list_update)

lemma Min_free: "free_files s \<noteq> {} \<Longrightarrow> Min (free_files s) \<in> free_files s"
  by (rule Min_in) simp_all

lemma setf_ref_back:
  assumes "f < length (ftable s)" "f_ref (ftable s ! f) = 0"
  shows "setf f (\<lambda>x. x\<lparr>f_ref := 0\<rparr>) (setf f (\<lambda>x. x\<lparr>f_ref := 1\<rparr>) s) = s"
  unfolding setf_setf [OF assms(1)] using assms by (cases s, cases "ftable s ! f") (simp add: setf_def list_update_same_conv)

lemma fileclose_new:
  assumes "ft_ok s" "f \<in> free_files s"
  shows "fileclose svc f (setf f (\<lambda>x. x\<lparr>f_ref := 1\<rparr>) s) = Inr s"
proof -
  have f: "f < length (ftable s)" "f_ref (ftable s ! f) = 0" "f_type (ftable s ! f) = FD_NONE" "\<not> ft_lock s"
    using assms by (auto simp: ft_ok_def free_files_def)
  then show ?thesis using fileclose_fresh [of "setf f (\<lambda>x. x\<lparr>f_ref := 1\<rparr>) s" f svc] setf_ref_back [OF f(1,2)] by (simp add: setf_def)
qed

lemma ft_ok_new: "ft_ok s \<Longrightarrow> ft_ok (setf f (\<lambda>x. x\<lparr>f_ref := 1\<rparr>) s)"
  by (auto simp: ft_ok_def setf_def dest!: set_update_subset_insert [THEN subsetD])

text \<open>The two entries of a pipe: given back after a failure, and set up.\<close>

abbreviation taken :: "nat \<Rightarrow> nat \<Rightarrow> 'k \<Rightarrow> ('k, 'm) file_st_scheme \<Rightarrow> ('k, 'm) file_st_scheme" where
  "taken f0 f1 ks s \<equiv> (setf f1 (\<lambda>x. x\<lparr>f_ref := 1\<rparr>) (setf f0 (\<lambda>x. x\<lparr>f_ref := 1\<rparr>) s))\<lparr>pst := (pst s)\<lparr>kst := ks\<rparr>\<rparr>"

lemma close_taken:
  assumes "ft_ok s" "f0 \<in> free_files s" "f1 \<in> free_files s" "f0 \<noteq> f1"
  shows "rbind (fileclose svc f0 (taken f0 f1 ks s)) (fileclose svc f1) = Inr (s\<lparr>pst := (pst s)\<lparr>kst := ks\<rparr>\<rparr>)"
proof -
  let ?k = "s\<lparr>pst := (pst s)\<lparr>kst := ks\<rparr>\<rparr>" and ?new = "\<lambda>x :: file_rec. x\<lparr>f_ref := 1\<rparr>"
  let ?u = "setf f1 ?new ?k"
  have e: "taken f0 f1 ks s = setf f0 ?new ?u" using assms(4) by (simp add: setf_def list_update_swap)
  have k: "ft_ok ?k" "free_files ?k = free_files s" "f1 < length (ftable ?k)" using assms(1,3) by (simp_all add: ft_ok_def free_files_def)
  then have u: "ft_ok ?u" "f0 \<in> free_files ?u" using free_files_setf [OF k(3), of ?new] ft_ok_new assms(2,4) by simp_all
  have "fileclose svc f0 (setf f0 ?new ?u) = Inr ?u" "fileclose svc f1 ?u = Inr ?k"
    using fileclose_new [OF u] fileclose_new [of ?k f1] k assms(3) by simp_all
  then show ?thesis unfolding e by simp
qed

definition piped :: "nat \<Rightarrow> nat \<Rightarrow> u32 \<Rightarrow> ('k, 'm) file_st_scheme \<Rightarrow> ('k, 'm) file_st_scheme \<Rightarrow> bool" where
  "piped f0 f1 p s t \<longleftrightarrow>
     getf t f0 = (getf s f0)\<lparr>f_type := FD_PIPE, f_ref := 1, f_readable := True, f_writable := False, f_pipe := p\<rparr> \<and>
     getf t f1 = (getf s f1)\<lparr>f_type := FD_PIPE, f_ref := 1, f_readable := False, f_writable := True, f_pipe := p\<rparr> \<and>
     (\<forall>f. f \<noteq> f0 \<and> f \<noteq> f1 \<longrightarrow> getf t f = getf s f) \<and> fs_st.truncate t = fs_st.truncate s \<and>
     nread (pipes (pst t) p) = nwrite (pipes (pst t) p) \<and> readopen (pipes (pst t) p) \<and> writeopen (pipes (pst t) p)"

lemma piped_new:
  assumes "f0 \<in> free_files s" "f1 \<in> free_files s" "f0 \<noteq> f1"
  shows "piped f0 f1 p s (setf f1 (pipe_file True p) (setf f0 (pipe_file False p) ((taken f0 f1 ks s)\<lparr>pst := pipe_init p ((pst s)\<lparr>kst := ks\<rparr>)\<rparr>)))"
    (is "piped f0 f1 p s ?t")
proof -
  have g: "getf ?t f = (if f = f1 then pipe_file True p ((getf s f)\<lparr>f_ref := 1\<rparr>) else if f = f0 then pipe_file False p ((getf s f)\<lparr>f_ref := 1\<rparr>) else getf s f)" for f
    using assms by (auto simp: getf_def setf_def nth_list_update free_files_def)
  have "fs_st.truncate ?t = fs_st.truncate s" by (simp add: setf_def fs_st.truncate_def)
  moreover have "nread (pipes (pst ?t) p) = nwrite (pipes (pst ?t) p)" "readopen (pipes (pst ?t) p)" "writeopen (pipes (pst ?t) p)"
    by (simp_all add: setf_def pipe_init_def set_pipe_def)
  ultimately show ?thesis using assms(3) unfolding piped_def g by (simp add: pipe_file_def)
qed

text \<open>C30: \<open>pipealloc\<close> takes the first two free entries of the file table for the ends of a new, empty pipe, one for reading and
  one for writing, and touches no other entry.  When fewer than two entries are free, or no page is, it fails
  and gives back what it took: the file table and the pipes are exactly as before the call.\<close>

theorem pipealloc_spec:
  fixes s :: "('k, 'm) file_st_scheme"
  assumes "ft_ok s" "kalloc_op svc (kst (pst s)) = Inr (p, ks)"
  shows "if card (free_files s) < 2 then pipealloc svc s = Inr (None, s)
    else if p = 0 then pipealloc svc s = Inr (None, s\<lparr>pst := (pst s)\<lparr>kst := ks\<rparr>\<rparr>)
    else let f0 = Min (free_files s); f1 = Min (free_files s - {f0}) in
      \<exists>t. pipealloc svc s = Inr (Some (f0, f1), t) \<and> {f0, f1} \<subseteq> free_files s \<and> f0 < f1 \<and> piped f0 f1 p s t"
proof (cases "free_files s = {}")
  case True
  then show ?thesis using filealloc_eq [of s] assms(1) by (simp add: pipealloc_def ft_ok_def)
next
  case False
  let ?f0 = "Min (free_files s)" and ?F = "free_files s - {Min (free_files s)}" and ?new = "\<lambda>x :: file_rec. x\<lparr>f_ref := 1\<rparr>"
  let ?s1 = "setf ?f0 ?new s"
  note f0 = Min_free [OF False]
  have l: "\<not> ft_lock s" "?f0 < length (ftable s)" using assms(1) f0 by (simp_all add: ft_ok_def free_files_def)
  have F: "free_files ?s1 = ?F" "\<not> ft_lock ?s1" "card (free_files s) = Suc (card ?F)"
    using free_files_setf [OF l(2), of ?new] l(1) card_Suc_Diff1 [of "free_files s" ?f0] f0 by (simp_all add: setf_def)
  note a = filealloc_eq [OF l(1)] filealloc_eq [OF F(2)]
  show ?thesis
  proof (cases "?F = {}")
    case True
    then have "card ?F = 0" by (simp only: card.empty)
    then have "card (free_files s) < 2" using F(3) by simp
    then show ?thesis using a False F True fileclose_new [OF assms(1) f0, of svc] by (simp add: pipealloc_def Let_def)
  next
    case ne: False
    let ?f1 = "Min ?F"
    have c: "\<not> card (free_files s) < 2" using F(3) ne by (simp add: card_gt_0_iff Suc_lessI leI card_eq_0_iff not_less)
    have f1: "?f1 \<in> ?F" by (rule Min_in) (use ne in simp_all)
    have "?f0 \<le> ?f1" "?f0 \<noteq> ?f1" using f1 Min_le [of "free_files s" ?f1] by auto
    then have lt: "?f0 < ?f1" "?f0 \<noteq> ?f1" "?f1 \<in> free_files s" using f1 by (simp_all add: order.not_eq_order_implies_strict)
    have p: "pst (setf ?f1 ?new ?s1) = pst s" by (simp add: setf_def)
    show ?thesis
      using a False ne c F(1) assms(2) p f0 lt close_taken [OF assms(1) f0 lt(3,2), of svc ks] piped_new [OF f0 lt(3,2), of p ks]
      by (cases "p = 0") (auto simp: pipealloc_def Let_def rbind_def split: sum.splits)
  qed
qed

subsection \<open>Duplicating and closing descriptors\<close>

definition free_fds :: "('k, 'm) file_st_scheme \<Rightarrow> nat set" where
  "free_fds s = {k. k < NOFILE \<and> my_ofile s ! k = None}"

text \<open>The current process has a table of descriptors.\<close>

definition has_fds :: "('k, 'm) file_st_scheme \<Rightarrow> bool" where
  "has_fds s \<longleftrightarrow> (\<exists>p. curproc (pst s) = Some p \<and> p < length (procs (pst s))) \<and> length (my_ofile s) = NOFILE"

lemma my_ofile_set: "has_fds s \<Longrightarrow> my_ofile (set_ofile k x s) = (my_ofile s)[k := x]"
  by (auto simp: has_fds_def my_ofile_def set_ofile_def getp_def setp_def)

lemma my_ofile_setf [simp]: "my_ofile (setf f g s) = my_ofile s" "set_ofile k x (setf f g s) = setf f g (set_ofile k x s)"
  by (simp_all add: my_ofile_def set_ofile_def setf_def split: option.splits)

lemma ftable_set_ofile [simp]: "ftable (set_ofile k x s) = ftable s" "ft_lock (set_ofile k x s) = ft_lock s"
  by (simp_all add: set_ofile_def split: option.splits)

lemma set_ofile_back:
  assumes "has_fds s" "k < NOFILE" "my_ofile s ! k = None"
  shows "set_ofile k None (set_ofile k (Some f) s) = s"
proof -
  obtain p where p: "curproc (pst s) = Some p" "p < length (procs (pst s))" using assms(1) by (auto simp: has_fds_def)
  let ?x = "procs (pst s) ! p"
  have "ofile ?x ! k = None" "k < length (ofile ?x)" using assms p by (simp_all add: has_fds_def my_ofile_def getp_def)
  then have "?x\<lparr>ofile := (ofile ?x)[k := None]\<rparr> = ?x" by (cases ?x) (simp add: list_update_same_conv)
  then have e: "(procs (pst s))[p := ?x\<lparr>ofile := (ofile ?x)[k := None]\<rparr>] = procs (pst s)" by simp
  have "set_ofile k None (set_ofile k (Some f) s) = s\<lparr>pst := (pst s)\<lparr>procs := (procs (pst s))[p := ?x\<lparr>ofile := (ofile ?x)[k := None]\<rparr>]\<rparr>\<rparr>"
    using p by (simp add: set_ofile_def setp_def)
  then show ?thesis unfolding e by simp
qed

text \<open>C37: \<open>dup\<close> of an open descriptor returns the least free descriptor, which then names the same open file with one more
  reference, and closing it restores the state exactly; with no free descriptor it fails and changes nothing.\<close>

theorem dup_close:
  fixes s :: "('k, 'm) file_st_scheme"
  assumes "has_fds s" "\<not> ft_lock s" "argfd (Some fd) s = Some (n, f)" "f < length (ftable s)" "1 \<le> f_ref (getf s f)"
  shows "if free_fds s = {} then sys_dup (Some fd) s = Inr (-1, s)
    else let k = Min (free_fds s) in \<exists>t. sys_dup (Some fd) s = Inr (int k, t) \<and> argfd (Some (int k)) t = Some (k, f) \<and>
      argfd (Some fd) t = Some (n, f) \<and> f_ref (getf t f) = f_ref (getf s f) + 1 \<and> sys_close svc (Some (int k)) t = Inr (0, s)"
proof -
  have len: "length (my_ofile s) = NOFILE" using assms(1) by (simp add: has_fds_def)
  have fi: "find_idx (\<lambda>x. x = None) (my_ofile s) = (if free_fds s = {} then None else Some (Min (free_fds s)))"
    using len by (simp add: find_idx_Min free_fds_def Let_def)
  show ?thesis
  proof (cases "free_fds s = {}")
    case True
    then show ?thesis using fi assms(3) by (simp add: sys_dup_def fdalloc_def)
  next
    case False
    let ?k = "Min (free_fds s)"
    have "?k \<in> free_fds s" using False by (intro Min_in) (simp_all add: free_fds_def)
    then have k: "?k < NOFILE" "my_ofile s ! ?k = None" by (simp_all add: free_fds_def)
    let ?u = "set_ofile ?k (Some f) s"
    define t where "t = setf f (\<lambda>x. x\<lparr>f_ref := f_ref x + 1\<rparr>) ?u"
    have dup: "sys_dup (Some fd) s = Inr (int ?k, t)"
      using fi False assms filedup_eq [of ?u f] by (simp add: sys_dup_def fdalloc_def t_def getf_def)
    have o: "my_ofile t = (my_ofile s)[?k := Some f]" using my_ofile_set [OF assms(1)] by (simp add: t_def)
    have a: "argfd (Some (int ?k)) t = Some (?k, f)" "argfd (Some fd) t = Some (n, f)"
      using k len o assms(3) by (auto simp: argfd_def nth_list_update split: if_splits option.splits)
    have r: "f_ref (getf t f) = f_ref (getf s f) + 1" using assms(4) by (simp add: t_def getf_def setf_def)
    have "set_ofile ?k None t = setf f (\<lambda>x. x\<lparr>f_ref := f_ref x + 1\<rparr>) s" using set_ofile_back [OF assms(1) k] by (simp add: t_def)
    moreover have "fileclose svc f (setf f (\<lambda>x. x\<lparr>f_ref := f_ref x + 1\<rparr>) s) = Inr s"
      using assms(2,4,5) fileclose_shared [of "setf f (\<lambda>x. x\<lparr>f_ref := f_ref x + 1\<rparr>) s" f svc] by (simp add: setf_def getf_def)
    ultimately have "sys_close svc (Some (int ?k)) t = Inr (0, s)" using a by (simp add: sys_close_def)
    then show ?thesis using dup a r False by (simp add: Let_def)
  qed
qed

subsection \<open>Examples\<close>

text \<open>A process with one open file, in a table with two free entries.\<close>

definition closed_file :: file_rec where
  "closed_file = \<lparr>f_type = FD_NONE, f_ref = 0, f_readable = False, f_writable = False, f_pipe = 0, f_ip = 0, f_off = 0\<rparr>"

definition fd_example :: "unit file_st" where
  "fd_example = raw_files\<lparr>ft_lock := False, ftable := [closed_file\<lparr>f_type := FD_INODE, f_ref := 1\<rparr>, closed_file, closed_file],
     pst := pipe_example\<lparr>procs := [proc0\<lparr>ofile := Some 0 # replicate 15 None\<rparr>], curproc := Some 0\<rparr>\<rparr>"

lemma fd_example_sel:
  "\<not> ft_lock fd_example" "ftable fd_example = [closed_file\<lparr>f_type := FD_INODE, f_ref := 1\<rparr>, closed_file, closed_file]"
  "pst fd_example = pipe_example\<lparr>procs := [proc0\<lparr>ofile := Some 0 # replicate 15 None\<rparr>], curproc := Some 0\<rparr>"
  unfolding fd_example_def by simp_all

lemma fd_example_fields:
  "ft_ok fd_example" "free_files fd_example = {1, 2}" "has_fds fd_example" "my_ofile fd_example = Some 0 # replicate 15 None"
proof -
  show "ft_ok fd_example" unfolding ft_ok_def fd_example_sel by (simp add: fd_example_sel closed_file_def)
  show "free_files fd_example = {1, 2}" unfolding free_files_def fd_example_sel by (auto simp: closed_file_def less_Suc_eq)
  show m: "my_ofile fd_example = Some 0 # replicate 15 None" unfolding my_ofile_def fd_example_sel by (simp add: getp_def)
  show "has_fds fd_example" unfolding has_fds_def m fd_example_sel by (simp add: NOFILE_def)
qed

theorem pipealloc_spec_witness:
  "\<exists>t. pipealloc unit_svc fd_example = Inr (Some (1, 2), t) \<and> f_writable (getf t 2) \<and> f_pipe (getf t 1) = 4096"
proof -
  have "kalloc_op unit_svc (kst (pst fd_example)) = Inr (4096, kst (pst fd_example))" by (simp add: unit_svc_def)
  then show ?thesis using pipealloc_spec [OF fd_example_fields(1), of unit_svc 4096 "kst (pst fd_example)"]
    by (auto simp: fd_example_fields(2) piped_def)
qed

theorem dup_close_witness:
  "\<exists>t. sys_dup (Some 0) fd_example = Inr (1, t) \<and> f_ref (getf t 0) = 2 \<and> sys_close unit_svc (Some 1) t = Inr (0, fd_example)"
proof -
  have a: "argfd (Some 0) fd_example = Some (0, 0)" by (simp add: argfd_def fd_example_fields(4) NOFILE_def)
  have "k < 16 \<and> (Some (0::nat) # replicate 15 None) ! k = None \<longleftrightarrow> 1 \<le> k \<and> k < 16" for k :: nat by (cases k) (auto simp: nth_replicate simp del: replicate.simps)
  then have f: "free_fds fd_example = {1..<16}" unfolding free_fds_def fd_example_fields(4) NOFILE_def by (simp add: set_eq_iff)
  have m: "Min {1..<16::nat} = 1" by (intro Min_eqI) auto
  have "\<not> ft_lock fd_example" "0 < length (ftable fd_example)" "f_ref (getf fd_example 0) = 1"
    by (simp_all add: fd_example_sel getf_def)
  then show ?thesis using dup_close [OF fd_example_fields(3) _ a, of unit_svc] unfolding f m by (auto simp: Let_def)
qed

end
