(* ===== verification/XvPrintf.thy ===== *)
theory XvPrintf
  imports XvString
begin

text \<open>
  The user library: \<open>printf\<close> of \<^verbatim>\<open>lab-2/printf.c\<close> and the routines of \<^verbatim>\<open>lab-2/ulib.c\<close> that do not only issue system calls.
  What is written to a file descriptor is a sequence of bytes tagged with the descriptor; memory is that of \<open>XvString\<close>.
\<close>

subsection \<open>Numbers\<close>

type_synonym outs = "(nat \<times> u8) list"

definition putc :: "nat \<Rightarrow> u8 \<Rightarrow> outs \<Rightarrow> outs" where
  "putc fd c out = out @ [(fd, c)]"

definition digits :: "u8 list" where
  "digits = [48, 49, 50, 51, 52, 53, 54, 55, 56, 57, 65, 66, 67, 68, 69, 70]"

text \<open>The do loop of \<open>printint\<close>, which fills \<open>buf\<close> from \<open>i\<close> on; accesses outside the arrays and a division by zero are errors.\<close>

function printint_loop :: "u32 \<Rightarrow> u32 \<Rightarrow> nat \<Rightarrow> u8 list \<Rightarrow> (nat \<times> u8 list) res" where
  "printint_loop base x i buf =
     (if base = 0 then Inl ''divide error''
      else if length digits \<le> unat (x mod base) \<or> length buf \<le> i then Inl ''array index''
      else let buf' = buf[i := digits ! unat (x mod base)]; x' = x div base
           in if x' \<noteq> 0 then printint_loop base x' (i + 1) buf' else Inr (i + 1, buf'))"
  by pat_completeness auto
termination
  by (relation "measure (\<lambda>(base, x, i, buf). length buf - i)") auto

declare printint_loop.simps [simp del]

fun put_back :: "nat \<Rightarrow> nat \<Rightarrow> u8 list \<Rightarrow> outs \<Rightarrow> outs" where
  "put_back fd 0 buf out = out"
| "put_back fd (Suc i) buf out = put_back fd i buf (putc fd (buf ! i) out)"

definition printint :: "nat \<Rightarrow> u32 \<Rightarrow> u32 \<Rightarrow> bool \<Rightarrow> outs \<Rightarrow> outs res" where
  "printint fd xx base sg out =
     (let neg = (sg \<and> sint xx < 0); x = (if neg then - xx else xx)
      in rbind (printint_loop base x 0 (replicate 16 0)) (\<lambda>(i, buf).
         if neg then if length buf \<le> i then Inl ''array index'' else Inr (put_back fd (i + 1) (buf[i := 45]) out)
         else Inr (put_back fd i buf out)))"

text \<open>\<open>'0' <= *s && *s <= '9'\<close> on signed characters.\<close>

definition is_digit :: "u8 \<Rightarrow> bool" where
  "is_digit c \<longleftrightarrow> 48 \<le> sint c \<and> sint c \<le> 57"

partial_function (option) atoi_loop :: "u32 \<Rightarrow> u32 \<Rightarrow> bytes \<Rightarrow> u32 option" where
  "atoi_loop s n m = (if is_digit (m s) then atoi_loop (s + 1) (n * 10 + ucast (m s) - 48) m else Some n)"

definition atoi :: "u32 \<Rightarrow> bytes \<Rightarrow> u32 option" where
  "atoi s m = atoi_loop s 0 m"

subsection \<open>Formats\<close>

partial_function (option) put_string :: "nat \<Rightarrow> u32 \<Rightarrow> bytes \<Rightarrow> outs \<Rightarrow> outs option" where
  "put_string fd s m out = (if m s \<noteq> 0 then put_string fd (s + 1) m (putc fd (m s) out) else Some out)"

definition null_text :: "u8 list" where
  "null_text = [40, 110, 117, 108, 108, 41]"

text \<open>The conversion character \<open>c\<close> after a percent sign, with the next argument at \<open>ap\<close>; a string without an end is an error.\<close>

definition convert :: "nat \<Rightarrow> u8 \<Rightarrow> (nat \<Rightarrow> u32) \<Rightarrow> nat \<Rightarrow> bytes \<Rightarrow> outs \<Rightarrow> (nat \<times> outs) res" where
  "convert fd c args ap m out =
     (if c = 100 then rbind (printint fd (args ap) 10 True out) (\<lambda>out. Inr (ap + 1, out))
      else if c = 120 \<or> c = 112 then rbind (printint fd (args ap) 16 False out) (\<lambda>out. Inr (ap + 1, out))
      else if c = 115
      then if args ap = 0 then Inr (ap + 1, fold (putc fd) null_text out)
           else (case put_string fd (args ap) m out of None \<Rightarrow> Inl ''no end of string'' | Some out \<Rightarrow> Inr (ap + 1, out))
      else if c = 99 then Inr (ap + 1, putc fd (ucast (args ap)) out)
      else if c = 37 then Inr (ap, putc fd c out)
      else Inr (ap, putc fd c (putc fd 37 out)))"

text \<open>The loop of \<open>printf\<close> over the format up to its end; \<open>pct\<close> tells whether the last character was a percent sign.\<close>

fun printf_loop :: "nat \<Rightarrow> u8 list \<Rightarrow> bool \<Rightarrow> (nat \<Rightarrow> u32) \<Rightarrow> nat \<Rightarrow> bytes \<Rightarrow> outs \<Rightarrow> outs res" where
  "printf_loop fd [] pct args ap m out = Inr out"
| "printf_loop fd (c # fmt) pct args ap m out =
     (if \<not> pct
      then if c = 37 then printf_loop fd fmt True args ap m out
           else printf_loop fd fmt False args ap m (putc fd c out)
      else case convert fd c args ap m out of Inl e \<Rightarrow> Inl e
           | Inr (ap, out) \<Rightarrow> printf_loop fd fmt False args ap m out)"

definition printf :: "nat \<Rightarrow> u8 list \<Rightarrow> (nat \<Rightarrow> u32) \<Rightarrow> bytes \<Rightarrow> outs \<Rightarrow> outs res" where
  "printf fd fmt args m out = printf_loop fd (takeWhile (\<lambda>c. c \<noteq> 0) fmt) False args 0 m out"

subsection \<open>Strings and input\<close>

partial_function (option) strcpy_loop :: "u32 \<Rightarrow> u32 \<Rightarrow> bytes \<Rightarrow> bytes option" where
  "strcpy_loop s t m = (let m' = m(s := m t) in if m t \<noteq> 0 then strcpy_loop (s + 1) (t + 1) m' else Some m')"

definition strcpy :: "u32 \<Rightarrow> u32 \<Rightarrow> bytes \<Rightarrow> bytes option" where
  "strcpy s t m = strcpy_loop s t m"

partial_function (option) strcmp :: "u32 \<Rightarrow> u32 \<Rightarrow> bytes \<Rightarrow> int option" where
  "strcmp p q m = (if m p \<noteq> 0 \<and> m p = m q then strcmp (p + 1) (q + 1) m else Some (uint (m p) - uint (m q)))"

definition memmove_u :: "u32 \<Rightarrow> u32 \<Rightarrow> int \<Rightarrow> bytes \<Rightarrow> bytes" where
  "memmove_u vdst vsrc n m = copy_up vdst vsrc (nat n) m"

text \<open>\<open>gets\<close> on the bytes that successive reads of one byte give; at the end of the list \<open>read\<close> returns nothing.\<close>

fun gets_loop :: "u32 \<Rightarrow> int \<Rightarrow> nat \<Rightarrow> u8 list \<Rightarrow> bytes \<Rightarrow> bytes \<times> u8 list" where
  "gets_loop buf mx i [] m = (m(buf + of_nat i := 0), [])"
| "gets_loop buf mx i (c # inp) m =
     (if int i + 1 < mx
      then let m' = m(buf + of_nat i := c)
           in if c = 10 \<or> c = 13 then (m'(buf + of_nat (i + 1) := 0), inp) else gets_loop buf mx (i + 1) inp m'
      else (m(buf + of_nat i := 0), c # inp))"

definition gets :: "u32 \<Rightarrow> int \<Rightarrow> u8 list \<Rightarrow> bytes \<Rightarrow> bytes \<times> u8 list" where
  "gets buf mx inp m = gets_loop buf mx 0 inp m"

subsection \<open>Printing and reading numbers\<close>

text \<open>The digits of a number, the most significant first.\<close>

fun nat_digits :: "nat \<Rightarrow> nat \<Rightarrow> nat list" where
  "nat_digits b n = (if b < 2 \<or> n < b then [n] else nat_digits b (n div b) @ [n mod b])"

declare nat_digits.simps [simp del]

lemma length_nat_digits: "n < b ^ k \<Longrightarrow> 0 < k \<Longrightarrow> length (nat_digits b n) \<le> k"
proof (induction k arbitrary: n)
  case (Suc k)
  show ?case
  proof (cases "b < 2 \<or> n < b")
    case False
    then have "n div b < b ^ k" "k \<noteq> 0" using Suc.prems(1) by (simp add: div_less_iff_less_mult mult.commute, cases k) auto
    then show ?thesis using Suc.IH [of "n div b"] False by (simp add: nat_digits.simps [of b n])
  qed (simp add: nat_digits.simps [of b n])
qed simp

lemma nat_digits_less: "2 \<le> b \<Longrightarrow> d \<in> set (nat_digits b n) \<Longrightarrow> d < b"
proof (induction b n rule: nat_digits.induct)
  case (1 b n)
  then show ?case by (auto simp: nat_digits.simps [of b n] split: if_splits)
qed

lemma nat_digits_value: "2 \<le> b \<Longrightarrow> foldl (\<lambda>a d. a * b + d) 0 (nat_digits b n) = n"
proof (induction b n rule: nat_digits.induct)
  case (1 b n)
  then show ?case by (cases "n < b") (simp_all add: nat_digits.simps [of b n])
qed

definition digit_text :: "nat \<Rightarrow> nat \<Rightarrow> u8 list" where
  "digit_text b n = map ((!) digits) (nat_digits b n)"

lemma printint_loop_eq:
  assumes "2 \<le> unat base" "unat base \<le> 16" "i + length (nat_digits (unat base) (unat x)) \<le> length buf"
  shows "printint_loop base x i buf =
    (let t = rev (digit_text (unat base) (unat x)) in Inr (i + length t, take i buf @ t @ drop (i + length t) buf))"
  using assms
proof (induction base x i buf rule: printint_loop.induct)
  case (1 base x i buf)
  let ?b = "unat base"
  have b: "base \<noteq> 0" "unat (x mod base) < 16" using "1.prems"(1,2) mod_less_divisor [of ?b "unat x"] by (auto simp: unat_mod simp del: mod_less_divisor)
  have l: "i < length buf" "length digits = 16" using "1.prems"(3) by (auto simp: nat_digits.simps [of ?b] digits_def split: if_splits)
  have z: "x div base \<noteq> 0 \<longleftrightarrow> \<not> unat x < ?b" using "1.prems"(1) by (simp add: div_eq_0_iff flip: unat_eq_0 add: unat_div)
  have u: "take (Suc i) (buf[i := d]) = take i buf @ [d]" "drop (Suc i + k) (buf[i := d]) = drop (Suc i + k) buf" for d k
    using l(1) by (simp_all add: take_Suc_conv_app_nth)
  have u0: "buf[i := d] = take i buf @ d # drop (Suc i) buf" for d using l(1) by (rule upd_conv_take_nth_drop)
  show ?case
  proof (cases "unat x < ?b")
    case True
    then show ?thesis using b l z u0 "1.prems"(1) by (subst printint_loop.simps) (simp add: Let_def digit_text_def nat_digits.simps [of ?b "unat x"] unat_mod)
  next
    case False
    then have e: "nat_digits ?b (unat x) = nat_digits ?b (unat (x div base)) @ [unat (x mod base)]"
      using "1.prems"(1) by (simp add: nat_digits.simps [of ?b "unat x"] unat_div unat_mod)
    let ?buf = "buf[i := digits ! unat (x mod base)]" and ?t = "rev (digit_text ?b (unat (x div base)))"
    have "printint_loop base (x div base) (i + 1) ?buf = Inr (i + 1 + length ?t, take (i + 1) ?buf @ ?t @ drop (i + 1 + length ?t) ?buf)"
      using "1.IH" [OF b(1) _ refl refl] "1.prems" b l z False e by (simp add: Let_def)
    then show ?thesis using b l z False u e by (subst printint_loop.simps) (simp add: Let_def digit_text_def)
  qed
qed

lemma put_back_eq: "i \<le> length buf \<Longrightarrow> put_back fd i buf out = out @ map (Pair fd) (rev (take i buf))"
  by (induction i arbitrary: out) (simp_all add: putc_def take_Suc_conv_app_nth)

text \<open>What \<open>printint\<close> prints: the digits of the value, read as signed if \<open>sg\<close>, with a minus sign if it is negative.\<close>

definition number_text :: "u32 \<Rightarrow> u32 \<Rightarrow> bool \<Rightarrow> u8 list" where
  "number_text xx base sg =
     (if sg \<and> sint xx < 0 then 45 # digit_text (unat base) (unat (- xx)) else digit_text (unat base) (unat xx))"

lemma digits_fit: "unat base \<in> {10, 16} \<Longrightarrow> length (nat_digits (unat base) (unat (x :: u32))) \<le> 10"
  using unat_lt [of x] length_nat_digits [of "unat x" 10 10] length_nat_digits [of "unat x" 16 8] by auto

lemma printint_prints:
  assumes "unat base \<in> {10, 16}"
  shows "printint fd xx base sg out = Inr (out @ map (Pair fd) (number_text xx base sg))" "length (number_text xx base sg) \<le> 11"
proof -
  have b: "2 \<le> unat base" "unat base \<le> 16" using assms by auto
  have l: "length (digit_text (unat base) (unat x)) \<le> 10" for x :: u32 using digits_fit [OF assms] by (simp add: digit_text_def)
  have e: "printint_loop base x 0 (replicate 16 0) =
      (let t = rev (digit_text (unat base) (unat x)) in Inr (length t, t @ replicate (16 - length t) 0))" for x
    using printint_loop_eq [OF b, of 0 x "replicate 16 0"] digits_fit [OF assms, of x] by (simp add: Let_def digit_text_def)
  show "length (number_text xx base sg) \<le> 11" using l [of xx] l [of "- xx"] by (simp add: number_text_def)
  show "printint fd xx base sg out = Inr (out @ map (Pair fd) (number_text xx base sg))"
  proof (cases "sg \<and> sint xx < 0")
    case True
    let ?t = "rev (digit_text (unat base) (unat (- xx)))"
    have "take (length ?t + 1) ((?t @ replicate (16 - length ?t) 0)[length ?t := 45]) = ?t @ [45]"
      using l [of "- xx"] by (simp add: list_update_append Suc_diff_le take_Suc_conv_app_nth)
    then show ?thesis using True l [of "- xx"] by (simp add: printint_def e Let_def number_text_def put_back_eq putc_def)
  next
    case False
    then have "(sg \<and> sint xx < 0) = False" by simp
    then show ?thesis using l [of xx] unfolding printint_def number_text_def by (simp only: Let_def e if_False) (simp add: put_back_eq)
  qed
qed

lemma digit_char: "d < 10 \<Longrightarrow> is_digit (digits ! d) \<and> digits ! d \<noteq> 0 \<and> (ucast (digits ! d) :: u32) = of_nat d + 48"
  by (simp add: digits_def is_digit_def less_Suc_eq numeral_eq_Suc) (auto simp: nth_Cons')

lemma atoi_loop_digits:
  "\<forall>d\<in>set ds. d < 10 \<Longrightarrow> cstr m s (map ((!) digits) ds) \<Longrightarrow> atoi_loop s n m = Some (foldl (\<lambda>a d. a * 10 + of_nat d) n ds)"
proof (induction ds arbitrary: s n)
  case Nil
  then show ?case by (subst atoi_loop.simps) (simp add: cstr_Nil is_digit_def)
next
  case (Cons d ds)
  show ?case using Cons digit_char [of d] by (subst atoi_loop.simps) (simp add: cstr_Cons)
qed

lemma foldl_of_nat: "foldl (\<lambda>a d. a * 10 + of_nat d) (of_nat n :: u32) ds = of_nat (foldl (\<lambda>a d. a * 10 + d) n ds)"
proof (induction ds arbitrary: n)
  case (Cons d ds)
  have "(of_nat n * 10 + of_nat d :: u32) = of_nat (n * 10 + d)" by simp
  then show ?case using Cons.IH [of "n * 10 + d"] by simp
qed simp

lemma atoi_digits: "cstr m s (digit_text 10 (unat x)) \<Longrightarrow> atoi s m = Some x"
  using atoi_loop_digits [of "nat_digits 10 (unat x)" m s 0] nat_digits_less [of 10] nat_digits_value [of 10 "unat x"] foldl_of_nat [of 0 "nat_digits 10 (unat x)"]
  by (simp add: atoi_def digit_text_def)

text \<open>C23: \<open>printint\<close> with base 10 prints every integer, the most negative one included, without running over its buffer of
  sixteen characters.  \<open>atoi\<close> reads the text of an integer that is not negative back; on the text of a negative one it
  stops at the minus sign and returns 0, and on the text after the sign it returns the absolute value, modulo the word size.\<close>

theorem printint_atoi:
  "\<exists>txt. printint fd xx 10 True out = Inr (out @ map (Pair fd) txt) \<and> length txt \<le> 11 \<and>
    (\<forall>m s. cstr m s txt \<longrightarrow> (if sint xx < 0 then atoi s m = Some 0 \<and> atoi (s + 1) m = Some (- xx) else atoi s m = Some xx))"
proof (intro exI conjI allI impI)
  show "printint fd xx 10 True out = Inr (out @ map (Pair fd) (number_text xx 10 True))" "length (number_text xx 10 True) \<le> 11"
    using printint_prints(1) [of 10 fd xx True out] printint_prints(2) [of 10 xx True] by simp_all
  fix m s assume "cstr m s (number_text xx 10 True)"
  moreover have "atoi s m = Some 0" if "m s = 45" by (simp add: atoi_def atoi_loop.simps [of s] that is_digit_def)
  ultimately show "if sint xx < 0 then atoi s m = Some 0 \<and> atoi (s + 1) m = Some (- xx) else atoi s m = Some xx"
    using atoi_digits by (auto simp: number_text_def cstr_Cons)
qed

theorem printint_atoi_witness:
  "\<exists>txt. printint 1 (- 42) 10 True [] = Inr (map (Pair 1) txt) \<and> (\<forall>m s. cstr m s txt \<longrightarrow> atoi (s + 1) m = Some 42)"
  using printint_atoi [of 1 "- 42" "[]"] by auto

end
