(* ===== verification/XvUmalloc.thy ===== *)
theory XvUmalloc
  imports Prelude
begin

text \<open>
  The allocator of user programs, \<^verbatim>\<open>lab-2/umalloc.c\<close>: a circular list of free blocks, sorted by address, that grows by \<open>sbrk\<close>.
  A block is named by the address of its header; sizes count headers of eight bytes.  The system call \<open>sbrk\<close> is an argument,
  on a state \<open>'k\<close> of its own.
\<close>

record 'k heap =
  h_ptr :: "u32 \<Rightarrow> u32"
  h_size :: "u32 \<Rightarrow> u32"
  freep :: u32
  h_env :: 'k

definition set_ptr :: "u32 \<Rightarrow> u32 \<Rightarrow> 'k heap \<Rightarrow> 'k heap" where
  "set_ptr p q h = h\<lparr>h_ptr := (h_ptr h)(p := q)\<rparr>"

definition set_size :: "u32 \<Rightarrow> u32 \<Rightarrow> 'k heap \<Rightarrow> 'k heap" where
  "set_size p n h = h\<lparr>h_size := (h_size h)(p := n)\<rparr>"

text \<open>\<open>p + n\<close> on pointers to headers.\<close>

definition hdr_add :: "u32 \<Rightarrow> u32 \<Rightarrow> u32" where
  "hdr_add p n = p + 8 * n"

text \<open>The loop of \<open>free\<close> that looks for the block before \<open>bp\<close>.\<close>

partial_function (option) free_place :: "u32 \<Rightarrow> u32 \<Rightarrow> 'k heap \<Rightarrow> u32 option" where
  "free_place bp p h =
     (if bp > p \<and> bp < h_ptr h p then Some p
      else if p \<ge> h_ptr h p \<and> (bp > p \<or> bp < h_ptr h p) then Some p
      else free_place bp (h_ptr h p) h)"

text \<open>What \<open>free\<close> does once \<open>p\<close> is found: join the block with the next one and with the one before.\<close>

definition free_link :: "u32 \<Rightarrow> u32 \<Rightarrow> 'k heap \<Rightarrow> 'k heap" where
  "free_link bp p h =
     (let nx = h_ptr h p;
          h1 = (if hdr_add bp (h_size h bp) = nx
                then set_ptr bp (h_ptr h nx) (set_size bp (h_size h bp + h_size h nx) h)
                else set_ptr bp nx h);
          h2 = (if hdr_add p (h_size h1 p) = bp
                then set_ptr p (h_ptr h1 bp) (set_size p (h_size h1 p + h_size h1 bp) h1)
                else set_ptr p bp h1)
      in h2\<lparr>freep := p\<rparr>)"

definition free_u :: "u32 \<Rightarrow> 'k heap \<Rightarrow> 'k heap option" where
  "free_u ap h = (let bp = ap - 8 in case free_place bp (freep h) h of None \<Rightarrow> None | Some p \<Rightarrow> Some (free_link bp p h))"

type_synonym 'k sbrk = "u32 \<Rightarrow> 'k \<Rightarrow> u32 \<times> 'k"

definition morecore :: "'k sbrk \<Rightarrow> u32 \<Rightarrow> 'k heap \<Rightarrow> (u32 \<times> 'k heap) option" where
  "morecore sbrk nu h =
     (let nu = (if nu < 4096 then 4096 else nu)
      in case sbrk (nu * 8) (h_env h) of (p, k) \<Rightarrow>
         if p = -1 then Some (0, h\<lparr>h_env := k\<rparr>)
         else case free_u (hdr_add p 1) (set_size p nu (h\<lparr>h_env := k\<rparr>)) of None \<Rightarrow> None
              | Some h1 \<Rightarrow> Some (freep h1, h1))"

text \<open>Taking \<open>nunits\<close> headers from the block \<open>p\<close>, from its end unless it fits exactly.\<close>

definition take_block :: "u32 \<Rightarrow> u32 \<Rightarrow> u32 \<Rightarrow> 'k heap \<Rightarrow> u32 \<times> 'k heap" where
  "take_block nunits prevp p h =
     (if h_size h p = nunits then (p, (set_ptr prevp (h_ptr h p) h)\<lparr>freep := prevp\<rparr>)
      else let h1 = set_size p (h_size h p - nunits) h; q = hdr_add p (h_size h1 p)
           in (q, (set_size q nunits h1)\<lparr>freep := prevp\<rparr>))"

partial_function (option) malloc_loop :: "'k sbrk \<Rightarrow> u32 \<Rightarrow> u32 \<Rightarrow> u32 \<Rightarrow> 'k heap \<Rightarrow> (u32 \<times> 'k heap) option" where
  "malloc_loop sbrk nunits prevp p h =
     (if nunits \<le> h_size h p then (case take_block nunits prevp p h of (q, h1) \<Rightarrow> Some (hdr_add q 1, h1))
      else if p = freep h
      then (case morecore sbrk nunits h of None \<Rightarrow> None
            | Some (q, h1) \<Rightarrow> if q = 0 then Some (0, h1) else malloc_loop sbrk nunits q (h_ptr h1 q) h1)
      else malloc_loop sbrk nunits p (h_ptr h p) h)"

definition malloc_units :: "u32 \<Rightarrow> u32" where
  "malloc_units nbytes = (nbytes + 8 - 1) div 8 + 1"

definition malloc_init :: "u32 \<Rightarrow> 'k heap \<Rightarrow> 'k heap" where
  "malloc_init base h =
     (if freep h = 0 then set_size base 0 ((set_ptr base base h)\<lparr>freep := base\<rparr>) else h)"

definition malloc :: "'k sbrk \<Rightarrow> u32 \<Rightarrow> u32 \<Rightarrow> 'k heap \<Rightarrow> (u32 \<times> 'k heap) option" where
  "malloc sbrk base nbytes h =
     (let h1 = malloc_init base h in malloc_loop sbrk (malloc_units nbytes) (freep h1) (h_ptr h1 (freep h1)) h1)"


subsection \<open>The list of free blocks\<close>

text \<open>\<open>lnk h xs e\<close>: the blocks \<open>xs\<close> are linked in this order and the last one points to \<open>e\<close>.  \<open>gap h xs e\<close>: they are in the order of
  their addresses, each ends before the next one and the last one before \<open>e\<close>.\<close>

fun lnk :: "'k heap \<Rightarrow> u32 list \<Rightarrow> u32 \<Rightarrow> bool" where
  "lnk h [] e \<longleftrightarrow> True"
| "lnk h (x # xs) e \<longleftrightarrow> h_ptr h x = hd (xs @ [e]) \<and> lnk h xs e"

fun gap :: "'k heap \<Rightarrow> u32 list \<Rightarrow> nat \<Rightarrow> bool" where
  "gap h [] e \<longleftrightarrow> True"
| "gap h (x # xs) e \<longleftrightarrow> unat x + 8 * unat (h_size h x) < hd (map unat xs @ [e]) \<and> gap h xs e"

lemma lnk_append: "lnk h (xs @ ys) e \<longleftrightarrow> lnk h xs (hd (ys @ [e])) \<and> lnk h ys e"
proof (induction xs)
  case (Cons x xs)
  then show ?case by (cases xs) auto
qed simp

lemma gap_append: "gap h (xs @ ys) e \<longleftrightarrow> gap h xs (hd (map unat ys @ [e])) \<and> gap h ys e"
proof (induction xs)
  case (Cons x xs)
  then show ?case by (cases xs) auto
qed simp

lemma lnk_cong: "\<forall>x\<in>set xs. h_ptr h' x = h_ptr h x \<Longrightarrow> lnk h' xs e = lnk h xs e"
  by (induction xs) auto

lemma gap_cong: "\<forall>x\<in>set xs. h_size h' x = h_size h x \<Longrightarrow> gap h' xs e = gap h xs e"
  by (induction xs) auto

lemma gap_less: "gap h (x # xs) e \<Longrightarrow> y \<in> set xs \<Longrightarrow> unat x + 8 * unat (h_size h x) < unat y"
proof (induction xs arbitrary: x)
  case (Cons z zs)
  then show ?case by (cases "y = z") (auto intro: less_trans)
qed simp

lemma gap_end: "gap h xs e \<Longrightarrow> x \<in> set xs \<Longrightarrow> unat x + 8 * unat (h_size h x) < e"
proof (induction xs arbitrary: x)
  case (Cons y ys)
  note IH = Cons.IH and pr = Cons.prems
  show ?case
  proof (cases "x = y")
    case True
    show ?thesis
    proof (cases ys)
      case (Cons a as)
      then have "unat a + 8 * unat (h_size h a) < e" "unat y + 8 * unat (h_size h y) < unat a" using IH [of a] pr(1) by auto
      then show ?thesis using True by simp
    qed (use pr(1) True in simp)
  qed (use IH pr in auto)
qed simp

lemma gap_mono: "gap h xs e \<Longrightarrow> e \<le> e' \<Longrightarrow> gap h xs e'"
  by (induction xs) (auto simp: hd_append split: if_splits)

lemma gap_sorted: "gap h xs e \<Longrightarrow> sorted_wrt (<) xs"
proof (induction xs)
  case (Cons x xs)
  then have "x < y" if "y \<in> set xs" for y using gap_less [OF Cons.prems that] by (simp add: word_less_nat_alt)
  then show ?case using Cons by simp
qed simp

text \<open>The bytes of a block with its header, and those of all free blocks.\<close>

definition hblock :: "'k heap \<Rightarrow> u32 \<Rightarrow> nat set" where
  "hblock h x = {unat x..<unat x + 8 * unat (h_size h x)}"

definition cells :: "'k heap \<Rightarrow> u32 list \<Rightarrow> nat set" where
  "cells h xs = (\<Union>x\<in>set xs. hblock h x)"

lemma cells_simps [simp]: "cells h [] = {}" "cells h (x # xs) = hblock h x \<union> cells h xs" "cells h (xs @ ys) = cells h xs \<union> cells h ys"
  by (auto simp: cells_def)

lemma hblock_cong: "h_size h' x = h_size h x \<Longrightarrow> hblock h' x = hblock h x"
  by (simp add: hblock_def)

lemma cells_cong: "\<forall>x\<in>set xs. h_size h' x = h_size h x \<Longrightarrow> cells h' xs = cells h xs"
  by (simp add: cells_def hblock_def)

definition heap_list :: "u32 \<Rightarrow> nat \<Rightarrow> 'k heap \<Rightarrow> u32 list \<Rightarrow> bool" where
  "heap_list base lim h xs \<longleftrightarrow> hd (xs @ [0]) = base \<and> 0 < base \<and> h_size h base = 0 \<and> lnk h xs base \<and> gap h xs (Suc lim) \<and> lim < 2 ^ 32 \<and>
     (\<forall>x\<in>set xs. x \<noteq> base \<longrightarrow> 1 \<le> unat (h_size h x)) \<and> freep h \<in> set xs"

lemma heap_listD1:
  assumes "heap_list base lim h xs"
  shows "hd (xs @ [0]) = base" "0 < base" "h_size h base = 0" "lnk h xs base" "gap h xs (Suc lim)" "lim < 2 ^ 32"
    "freep h \<in> set xs" "x \<in> set xs \<Longrightarrow> x \<noteq> base \<Longrightarrow> 1 \<le> unat (h_size h x)"
  using assms unfolding heap_list_def by simp_all

lemma heap_list_Cons:
  assumes "heap_list base lim h xs"
  shows "\<exists>r. xs = base # r"
  using heap_listD1(1,2) [OF assms] by (cases xs) auto

lemma heap_listD:
  assumes "heap_list base lim h xs"
  shows "\<exists>r. xs = base # r" "base \<in> set xs" "lnk h xs base" "gap h xs (Suc lim)" "lim < 2 ^ 32" "sorted_wrt (<) xs" "distinct xs" "x \<in> set xs \<Longrightarrow> base \<le> x"
proof -
  show "\<exists>r. xs = base # r" by (rule heap_list_Cons [OF assms])
  then obtain r where r: "xs = base # r" by blast
  then show "base \<in> set xs" by simp
  show "gap h xs (Suc lim)" "lnk h xs base" "lim < 2 ^ 32" by (fact heap_listD1 [OF assms])+
  show s: "sorted_wrt (<) xs" by (rule gap_sorted) (fact heap_listD1(5) [OF assms])
  then show "distinct xs" by (simp only: strict_sorted_iff)
  show "base \<le> x" if "x \<in> set xs" using s that unfolding r by auto
qed

lemma hdr_add_unat: "unat p + 8 * unat n < 2 ^ 32 \<Longrightarrow> unat (hdr_add p n) = unat p + 8 * unat n"
  by (simp add: hdr_add_def unat_word_ariths)

subsection \<open>Freeing a block\<close>

lemma free_place_up:
  assumes "lnk h (q # bs @ zs) base" "sorted_wrt (<) (q # bs @ zs)" "\<forall>x\<in>set (q # bs). x < bp" "\<forall>z\<in>set zs. bp < z" "base \<le> q"
  shows "free_place bp q h = Some (last (q # bs))"
  using assms
proof (induction bs arbitrary: q)
  case Nil
  then show ?case by (cases zs) (simp_all add: free_place.simps [of bp q])
next
  case (Cons b bs)
  then have "free_place bp b h = Some (last (b # bs))" by auto
  then show ?case using Cons.prems by (subst free_place.simps) auto
qed

lemma free_place_down:
  assumes "lnk h zs base" "sorted_wrt (<) zs" "\<forall>z\<in>set zs. bp < z \<and> base < z" "base < bp" "zs \<noteq> []"
  shows "free_place bp (hd zs) h = free_place bp base h"
  using assms
proof (induction zs)
  case (Cons z zs)
  then show ?case by (cases zs) (subst free_place.simps, force)+
qed simp

lemma free_place_found:
  assumes l: "heap_list base lim h (ys @ p # zs)" and bp: "\<forall>x\<in>set (ys @ [p]). x < bp" "\<forall>z\<in>set zs. bp < z" and q: "q \<in> set (ys @ p # zs)"
  shows "free_place bp q h = Some p"
proof -
  note d = heap_listD [OF l]
  have up: "free_place bp q h = Some p" if "q \<in> set (ys @ [p])" for q
  proof -
    obtain us vs where e: "ys @ [p] = us @ q # vs" using split_list [OF \<open>q \<in> set (ys @ [p])\<close>] by blast
    then have e2: "ys @ p # zs = us @ q # vs @ zs" using append_assoc [of ys "[p]" zs] by simp
    have "last (q # vs) = p" using e by (metis last_appendR last_snoc list.distinct(1))
    moreover have "\<forall>x\<in>set (q # vs). x < bp" using bp(1) unfolding e by simp
    ultimately show ?thesis using free_place_up [of h q vs zs base bp] d(3,6) d(8) [of q] bp(2) unfolding e2 by (auto simp: lnk_append sorted_wrt_append)
  qed
  show ?thesis
  proof (cases "q \<in> set (ys @ [p])")
    case False
    then have "q \<in> set zs" using q by auto
    then obtain us vs where e: "zs = us @ q # vs" using split_list by fast
    have bl: "base \<in> set (ys @ [p])" using d(1) by (cases ys) auto
    then have "base < bp" using bp(1) by blast
    moreover have "\<forall>z\<in>set (q # vs). bp < z" using bp(2) e by auto
    moreover have "lnk h (q # vs) base" "sorted_wrt (<) (q # vs)" using d(3,6) unfolding e by (auto simp: lnk_append sorted_wrt_append)
    ultimately have "free_place bp q h = free_place bp base h" using free_place_down [of h "q # vs" base bp] less_trans [of base bp] by auto
    then show ?thesis using up [OF bl] by simp
  qed (rule up)
qed

lemma set_fields [simp]:
  "h_ptr (set_ptr p q h) = (h_ptr h)(p := q)" "h_size (set_ptr p q h) = h_size h" "freep (set_ptr p q h) = freep h" "h_env (set_ptr p q h) = h_env h"
  "h_size (set_size p n h) = (h_size h)(p := n)" "h_ptr (set_size p n h) = h_ptr h" "freep (set_size p n h) = freep h" "h_env (set_size p n h) = h_env h"
  by (simp_all add: set_ptr_def set_size_def)

text \<open>The first half of \<open>free_link\<close>: the hblock goes before \<open>zs\<close>, joined with the first of them if it ends where that begins.\<close>

definition join_next :: "u32 \<Rightarrow> u32 \<Rightarrow> 'k heap \<Rightarrow> 'k heap" where
  "join_next bp nx h =
     (if hdr_add bp (h_size h bp) = nx then set_ptr bp (h_ptr h nx) (set_size bp (h_size h bp + h_size h nx) h) else set_ptr bp nx h)"

lemma join_next_ok:
  assumes zs: "lnk h zs base" "gap h zs (Suc lim)" "lim < 2 ^ 32" "bp \<notin> set zs" "base < bp"
    and e: "unat bp + 8 * unat (h_size h bp) \<le> hd (map unat zs @ [lim])"
  defines "h1 \<equiv> join_next bp (hd (zs @ [base])) h"
  shows "\<exists>zs'. lnk h1 (bp # zs') base \<and> gap h1 (bp # zs') (Suc lim) \<and> set zs' \<subseteq> set zs \<and> cells h1 (bp # zs') = hblock h bp \<union> cells h zs" 
    "h_size h bp \<le> h_size h1 bp" "x \<noteq> bp \<Longrightarrow> h_size h1 x = h_size h x \<and> h_ptr h1 x = h_ptr h x" "freep h1 = freep h" "h_env h1 = h_env h"
proof -
  let ?n = "h_size h bp" and ?nx = "hd (zs @ [base])"
  have lt: "unat bp + 8 * unat ?n < 2 ^ 32"
    using e zs(3) gap_end [OF zs(2), of "hd zs"] by (cases zs) auto
  note a = hdr_add_unat [OF lt]
  show "x \<noteq> bp \<Longrightarrow> h_size h1 x = h_size h x \<and> h_ptr h1 x = h_ptr h x" "freep h1 = freep h" "h_env h1 = h_env h"
    by (simp_all add: h1_def join_next_def)
  have keep: "\<forall>x\<in>set zs. h_size h1 x = h_size h x" "\<forall>x\<in>set zs. h_ptr h1 x = h_ptr h x" using zs(4) by (auto simp: h1_def join_next_def)
  have nb: "hdr_add bp ?n \<noteq> base" using a zs(5) by (auto simp: word_less_nat_alt)
  have "(\<exists>zs'. lnk h1 (bp # zs') base \<and> gap h1 (bp # zs') (Suc lim) \<and> set zs' \<subseteq> set zs \<and> cells h1 (bp # zs') = hblock h bp \<union> cells h zs) \<and> ?n \<le> h_size h1 bp"
  proof (cases "hdr_add bp ?n = ?nx")
    case False
    then have h1: "h1 = set_ptr bp ?nx h" by (simp add: h1_def join_next_def)
    have "unat bp + 8 * unat ?n < hd (map unat zs @ [Suc lim])"
    proof (cases zs)
      case (Cons z r)
      then have "unat bp + 8 * unat ?n \<noteq> unat z" using False a unat_inj [of "hdr_add bp ?n" z] by auto
      then show ?thesis using e Cons by simp
    qed (use e in simp)
    then show ?thesis using zs keep lnk_cong [OF keep(2)] gap_cong [OF keep(1)] cells_cong [OF keep(1)] h1
      by (intro conjI exI [of _ zs]) (auto simp: hblock_def)
  next
    case True
    then obtain z r where z: "zs = z # r" using nb by (cases zs) auto
    let ?m = "h_size h z"
    have e2: "unat z = unat bp + 8 * unat ?n" "unat z + 8 * unat ?m < 2 ^ 32" using True a z gap_end [OF zs(2), of z] zs(3) by auto
    have u: "unat (?n + ?m) = unat ?n + unat ?m" using e2 by (simp add: unat_plus_if')
    have h1: "h_ptr h1 bp = h_ptr h z" "h_size h1 bp = ?n + ?m" using True z zs(4) by (auto simp: h1_def join_next_def)
    have kr: "\<forall>x\<in>set r. h_size h1 x = h_size h x" "\<forall>x\<in>set r. h_ptr h1 x = h_ptr h x" using keep z by auto
    have "lnk h1 (bp # r) base" "gap h1 (bp # r) (Suc lim)"
      using zs(1,2) z h1 u e2 lnk_cong [OF kr(2)] gap_cong [OF kr(1)] by auto
    moreover have "hblock h1 bp = hblock h bp \<union> hblock h z" using h1 u e2 by (auto simp: hblock_def)
    ultimately show ?thesis using z cells_cong [OF kr(1)] u h1 by (intro conjI exI [of _ r]) (auto simp: word_le_nat_alt)
  qed
  then show "\<exists>zs'. lnk h1 (bp # zs') base \<and> gap h1 (bp # zs') (Suc lim) \<and> set zs' \<subseteq> set zs \<and> cells h1 (bp # zs') = hblock h bp \<union> cells h zs" "?n \<le> h_size h1 bp"
    by blast+
qed

text \<open>The second half: \<open>p\<close> points to the block, or takes it over if it ends where the block begins.\<close>

definition join_prev :: "u32 \<Rightarrow> u32 \<Rightarrow> 'k heap \<Rightarrow> 'k heap" where
  "join_prev bp p h =
     (if hdr_add p (h_size h p) = bp then set_ptr p (h_ptr h bp) (set_size p (h_size h p + h_size h bp) h) else set_ptr p bp h)"

lemma free_link_joins: "free_link bp p h = (join_prev bp p (join_next bp (h_ptr h p) h))\<lparr>freep := p\<rparr>"
  by (simp add: free_link_def join_next_def join_prev_def Let_def)

lemma join_prev_ok:
  assumes ys: "lnk h ys p" "gap h ys (unat p)" and bp: "lnk h (bp # zs) base" "gap h (bp # zs) (Suc lim)" "lim < 2 ^ 32"
    and d: "distinct (ys @ p # bp # zs)" and le: "unat p + 8 * unat (h_size h p) \<le> unat bp"
  defines "h2 \<equiv> join_prev bp p h"
  shows "\<exists>xs. lnk h2 (ys @ p # xs) base \<and> gap h2 (ys @ p # xs) (Suc lim) \<and> set xs \<subseteq> set (bp # zs) \<and>
      cells h2 (ys @ p # xs) = cells h (ys @ p # bp # zs) \<and> (\<exists>x\<in>set (p # xs). h_size h bp \<le> h_size h2 x)"
    "h_size h p \<le> h_size h2 p" "x \<noteq> p \<Longrightarrow> h_size h2 x = h_size h x" "freep h2 = freep h" "h_env h2 = h_env h"
proof -
  let ?n = "h_size h p" and ?m = "h_size h bp"
  have lt: "unat bp + 8 * unat ?m < 2 ^ 32" using gap_end [OF bp(2), of bp] bp(3) by simp
  have a: "unat (hdr_add p ?n) = unat p + 8 * unat ?n" using le lt by (intro hdr_add_unat) linarith
  show "x \<noteq> p \<Longrightarrow> h_size h2 x = h_size h x" "freep h2 = freep h" "h_env h2 = h_env h"
    by (simp_all add: h2_def join_prev_def)
  have ky: "\<forall>x\<in>set ys. h_size h2 x = h_size h x" "\<forall>x\<in>set ys. h_ptr h2 x = h_ptr h x" using d by (auto simp: h2_def join_prev_def)
  have kz: "\<forall>x\<in>set (bp # zs). h_size h2 x = h_size h x" "\<forall>x\<in>set (bp # zs). h_ptr h2 x = h_ptr h x" using d by (auto simp: h2_def join_prev_def)
  note y = lnk_cong [OF ky(2), of p] gap_cong [OF ky(1), of "unat p"] cells_cong [OF ky(1)]
  have "(\<exists>xs. lnk h2 (ys @ p # xs) base \<and> gap h2 (ys @ p # xs) (Suc lim) \<and> set xs \<subseteq> set (bp # zs) \<and>
      cells h2 (ys @ p # xs) = cells h (ys @ p # bp # zs) \<and> (\<exists>x\<in>set (p # xs). ?m \<le> h_size h2 x)) \<and> ?n \<le> h_size h2 p"
  proof (cases "hdr_add p ?n = bp")
    case False
    then have h2: "h_ptr h2 p = bp" "h_size h2 p = ?n" by (auto simp: h2_def join_prev_def)
    have "unat p + 8 * unat ?n < unat bp" using False a le unat_inj [of "hdr_add p ?n" bp] by auto
    then have "lnk h2 (ys @ p # bp # zs) base" "gap h2 (ys @ p # bp # zs) (Suc lim)"
      using ys bp(1,2) y h2 lnk_cong [OF kz(2), of base] gap_cong [OF kz(1), of "Suc lim"] by (auto simp: lnk_append gap_append)
    then show ?thesis using y(3) cells_cong [OF kz(1)] h2 kz(1) by (intro conjI exI [of _ "bp # zs"]) (auto simp: hblock_def)
  next
    case True
    then have h2: "h_ptr h2 p = h_ptr h bp" "h_size h2 p = ?n + ?m" by (auto simp: h2_def join_prev_def)
    have e: "unat bp = unat p + 8 * unat ?n" using True a by auto
    have u: "unat (?n + ?m) = unat ?n + unat ?m" using e lt by (simp add: unat_plus_if')
    have kz': "\<forall>x\<in>set zs. h_size h2 x = h_size h x" "\<forall>x\<in>set zs. h_ptr h2 x = h_ptr h x" using kz by auto
    have "lnk h2 (ys @ p # zs) base" "gap h2 (ys @ p # zs) (Suc lim)"
      using ys bp(1,2) y h2 u e lnk_cong [OF kz'(2), of base] gap_cong [OF kz'(1), of "Suc lim"] by (auto simp: lnk_append gap_append)
    moreover have "hblock h2 p = hblock h p \<union> hblock h bp" using h2 u e by (auto simp: hblock_def)
    ultimately show ?thesis using y(3) cells_cong [OF kz'(1)] h2 u
      by (intro conjI exI [of _ zs]) (auto simp: word_le_nat_alt)
  qed
  then show "\<exists>xs. lnk h2 (ys @ p # xs) base \<and> gap h2 (ys @ p # xs) (Suc lim) \<and> set xs \<subseteq> set (bp # zs) \<and>
      cells h2 (ys @ p # xs) = cells h (ys @ p # bp # zs) \<and> (\<exists>x\<in>set (p # xs). ?m \<le> h_size h2 x)" "?n \<le> h_size h2 p"
    by blast+
qed

text \<open>\<open>freed\<close>: the free list after a block went back to it.\<close>

definition freed :: "u32 \<Rightarrow> nat \<Rightarrow> u32 \<Rightarrow> 'k heap \<Rightarrow> u32 list \<Rightarrow> 'k heap \<Rightarrow> u32 list \<Rightarrow> bool" where
  "freed base lim bp h xs h' xs' \<longleftrightarrow> heap_list base lim h' xs' \<and> cells h' xs' = cells h xs \<union> hblock h bp \<and> set xs' \<subseteq> insert bp (set xs) \<and>
     (\<exists>x\<in>set xs'. h_size h bp \<le> h_size h' x) \<and> (\<forall>x. x \<noteq> bp \<and> x \<notin> set xs \<longrightarrow> h_size h' x = h_size h x) \<and> h_env h' = h_env h"

lemma hblock_before:
  assumes "hblock h x \<inter> hblock h y = {}" "x < y" "1 \<le> unat (h_size h y)"
  shows "unat x + 8 * unat (h_size h x) \<le> unat y"
proof (rule ccontr)
  assume "\<not> unat x + 8 * unat (h_size h x) \<le> unat y"
  then have "unat y \<in> hblock h x" "unat y \<in> hblock h y" using assms(2,3) by (auto simp: hblock_def word_less_nat_alt)
  then show False using assms(1) by blast
qed

lemma joined_sizes:
  assumes j: "h_size h bp \<le> h_size h1 bp" "\<And>x. x \<noteq> bp \<Longrightarrow> h_size h1 x = h_size h x \<and> h_ptr h1 x = h_ptr h x"
    and k: "h_size h1 p \<le> h_size (join_prev bp p h1) p" "\<And>x. x \<noteq> p \<Longrightarrow> h_size (join_prev bp p h1) x = h_size h1 x"
    and b: "bp \<noteq> p" "1 \<le> unat (h_size h bp)" "h_size h base = 0" "base < bp"
  shows "h_size (join_prev bp p h1) base = 0" "x = bp \<or> 1 \<le> unat (h_size h x) \<Longrightarrow> 1 \<le> unat (h_size (join_prev bp p h1) x)"
proof -
  have h1: "h_size h1 base = 0" using b(3,4) j(2) by (metis less_irrefl)
  show "h_size (join_prev bp p h1) base = 0"
  proof (cases "p = base")
    case True
    then show ?thesis using h1 b(4) by (auto simp: join_prev_def hdr_add_def)
  qed (use k(2) h1 in force)
  assume "x = bp \<or> 1 \<le> unat (h_size h x)"
  then have "1 \<le> unat (h_size h1 x)" using j b(2) by (cases "x = bp") (auto simp: word_le_nat_alt)
  then show "1 \<le> unat (h_size (join_prev bp p h1) x)" using k(1) k(2) [of x] by (cases "x = p") (auto simp: word_le_nat_alt)
qed

lemma free_link_ok:
  assumes l: "heap_list base lim h (ys @ p # zs)" and b: "\<forall>x\<in>set (ys @ [p]). x < bp" "\<forall>z\<in>set zs. bp < z" "1 \<le> unat (h_size h bp)"
    and d: "hblock h bp \<inter> cells h (ys @ p # zs) = {}" and e: "unat bp + 8 * unat (h_size h bp) \<le> lim"
  shows "\<exists>xs'. freed base lim bp h (ys @ p # zs) (free_link bp p h) xs'"
proof -
  note hl = heap_listD1 [OF l] and hd = heap_listD [OF l]
  have bs: "base \<in> set (ys @ [p])" using hd(1) by (cases ys) auto
  then have "base < bp" using b(1) by blast
  have L: "lnk h ys p" "h_ptr h p = hd (zs @ [base])" "lnk h zs base" "gap h ys (unat p)" "gap h zs (Suc lim)"
    using hd(3,4) by (simp_all add: lnk_append gap_append)
  have nz: "x \<noteq> base" if "x \<in> set zs" for x using b(2) \<open>base < bp\<close> that by (auto dest: less_trans)
  have "unat bp + 8 * unat (h_size h bp) \<le> hd (map unat zs @ [lim])"
  proof (cases zs)
    case (Cons z r)
    then show ?thesis using hblock_before [of h bp z] d b(2) hl(8) [of z] nz [of z] by auto
  qed (use e in simp)
  moreover have "bp \<notin> set (ys @ p # zs)" using b by auto
  then have bn: "bp \<notin> set zs" "bp \<noteq> p" "bp \<notin> set ys" by auto
  ultimately obtain zs' where z: "lnk (join_next bp (h_ptr h p) h) (bp # zs') base" "gap (join_next bp (h_ptr h p) h) (bp # zs') (Suc lim)" "set zs' \<subseteq> set zs"
      "cells (join_next bp (h_ptr h p) h) (bp # zs') = hblock h bp \<union> cells h zs"
    and j: "h_size h bp \<le> h_size (join_next bp (h_ptr h p) h) bp"
      "\<And>x. x \<noteq> bp \<Longrightarrow> h_size (join_next bp (h_ptr h p) h) x = h_size h x \<and> h_ptr (join_next bp (h_ptr h p) h) x = h_ptr h x" "h_env (join_next bp (h_ptr h p) h) = h_env h"
    using join_next_ok [OF L(3,5) hd(5) bn(1) \<open>base < bp\<close>] unfolding L(2) by blast
  define h1 where "h1 = join_next bp (h_ptr h p) h"
  note z = z [folded h1_def] and j = j [folded h1_def]
  have "unat p + 8 * unat (h_size h p) \<le> unat bp"
    using hblock_before [of h p bp] d b(1,3) by (auto simp: Int_commute)
  then have le: "unat p + 8 * unat (h_size h1 p) \<le> unat bp" using j(2) bn by simp
  have ky: "\<forall>x\<in>set ys. h_size h1 x = h_size h x" "\<forall>x\<in>set ys. h_ptr h1 x = h_ptr h x" using j(2) bn by metis+
  have y: "lnk h1 ys p" "gap h1 ys (unat p)" using L lnk_cong [OF ky(2)] gap_cong [OF ky(1)] by simp_all
  have "distinct (bp # zs')" using gap_sorted [OF z(2)] by (simp only: strict_sorted_iff)
  then have dst: "distinct (ys @ p # bp # zs')" using hd(7) z(3) bn by auto
  let ?h2 = "join_prev bp p h1"
  obtain xs where xs: "lnk ?h2 (ys @ p # xs) base" "gap ?h2 (ys @ p # xs) (Suc lim)" "set xs \<subseteq> set (bp # zs')"
      "cells ?h2 (ys @ p # xs) = cells h1 (ys @ p # bp # zs')" "\<exists>x\<in>set (p # xs). h_size h1 bp \<le> h_size ?h2 x"
    and k: "h_size h1 p \<le> h_size ?h2 p" "\<And>x. x \<noteq> p \<Longrightarrow> h_size ?h2 x = h_size h1 x" "h_env ?h2 = h_env h1"
    using join_prev_ok [OF y z(1,2) hd(5) dst le] by blast
  have f: "free_link bp p h = ?h2\<lparr>freep := p\<rparr>" by (simp add: free_link_joins h1_def)
  note sz = joined_sizes [OF j(1,2) k(1,2) bn(2) b(3) hl(3) \<open>base < bp\<close>]
  have s1: "1 \<le> unat (h_size ?h2 x)" if "x \<in> set (ys @ p # xs)" "x \<noteq> base" for x
    using sz(2) [of x] hl(8) [of x] that xs(3) z(3) by auto
  have "hd ((ys @ p # xs) @ [0]) = base" using hl(1) by (cases ys) simp_all
  then have "heap_list base lim (free_link bp p h) (ys @ p # xs)"
    unfolding heap_list_def f using hl(2) sz(1) xs(1,2) hd(5) s1 lnk_cong [of "ys @ p # xs" "?h2\<lparr>freep := p\<rparr>" ?h2] gap_cong [of "ys @ p # xs" "?h2\<lparr>freep := p\<rparr>" ?h2] by simp
  moreover have "cells (free_link bp p h) (ys @ p # xs) = cells h (ys @ p # zs) \<union> hblock h bp"
    using xs(4) z(4) cells_cong [OF ky(1)] hblock_cong [of h1 p h] j(2) [of p] bn(2) cells_cong [of "ys @ p # xs" "?h2\<lparr>freep := p\<rparr>" ?h2] by (auto simp: f)
  moreover have "\<exists>x\<in>set (ys @ p # xs). h_size h bp \<le> h_size (free_link bp p h) x" using xs(5) j(1) by (auto simp: f intro: order_trans)
  ultimately show ?thesis using xs(3) z(3) j k by (intro exI [of _ "ys @ p # xs"]) (auto simp: freed_def f)
qed

lemma split_below:
  fixes b :: "'a :: linorder"
  assumes "sorted_wrt (<) (x # xs)" "x < b" "b \<notin> set xs"
  shows "\<exists>ys p zs. x # xs = ys @ p # zs \<and> (\<forall>y\<in>set (ys @ [p]). y < b) \<and> (\<forall>z\<in>set zs. b < z)"
  using assms
proof (induction xs arbitrary: x)
  case Nil
  then show ?case by (intro exI [of _ "[]"]) simp
next
  case (Cons y xs)
  show ?case
  proof (cases "y < b")
    case True
    then obtain ys p zs where "y # xs = ys @ p # zs" "\<forall>y\<in>set (ys @ [p]). y < b" "\<forall>z\<in>set zs. b < z" using Cons.IH [of y] Cons.prems by auto
    then show ?thesis using Cons.prems(2) by (intro exI [of _ "x # ys"] exI [of _ p] exI [of _ zs]) simp
  next
    case False
    then have "b < y" using Cons.prems(3) by auto
    then have "\<forall>z\<in>set (y # xs). b < z" using Cons.prems(1) by (auto dest: less_trans)
    then show ?thesis using Cons.prems(2) by (intro exI [of _ "[]"] exI [of _ x] exI [of _ "y # xs"]) simp
  qed
qed

lemma free_ok:
  assumes l: "heap_list base lim h xs" and b: "base < bp" "1 \<le> unat (h_size h bp)" "unat bp + 8 * unat (h_size h bp) \<le> lim"
    and d: "hblock h bp \<inter> cells h xs = {}"
  shows "\<exists>h' xs'. free_u (hdr_add bp 1) h = Some h' \<and> freed base lim bp h xs h' xs'"
proof -
  note hd = heap_listD [OF l]
  obtain r where r: "xs = base # r" using hd(1) by blast
  have "bp \<notin> set xs"
  proof
    assume "bp \<in> set xs"
    then have "hblock h bp = {}" using d by (auto simp: cells_def)
    then show False using b(2) by (simp add: hblock_def)
  qed
  then obtain ys p zs where e: "xs = ys @ p # zs" and lo: "\<forall>x\<in>set (ys @ [p]). x < bp" and hi: "\<forall>z\<in>set zs. bp < z"
    using split_below [of base r bp] hd(6) b(1) unfolding r by auto
  have "hdr_add bp 1 - 8 = bp" by (simp add: hdr_add_def)
  moreover have "free_place bp (freep h) h = Some p"
    by (rule free_place_found [OF l [unfolded e] lo hi]) (use heap_listD1(7) [OF l] in \<open>simp add: e\<close>)
  moreover obtain xs' where "freed base lim bp h xs (free_link bp p h) xs'"
    using free_link_ok [OF l [unfolded e] lo hi b(2) d [unfolded e] b(3)] unfolding e by blast
  ultimately show ?thesis by (auto simp: free_u_def Let_def)
qed

subsection \<open>Taking a block\<close>

lemma gap_disjoint:
  assumes "gap h (us @ b # ws) e"
  shows "hblock h b \<inter> cells h us = {}" "hblock h b \<inter> cells h ws = {}"
proof -
  have "unat x + 8 * unat (h_size h x) \<le> unat b" if "x \<in> set us" for x
    using gap_end [of h us "unat b" x] assms that by (simp add: gap_append)
  then show "hblock h b \<inter> cells h us = {}" by (fastforce simp: cells_def hblock_def)
  have "unat b + 8 * unat (h_size h b) < unat x" if "x \<in> set ws" for x
    using gap_less [of h b ws e x] assms that by (simp add: gap_append)
  then show "hblock h b \<inter> cells h ws = {}" by (fastforce simp: cells_def hblock_def)
qed

definition took :: "u32 \<Rightarrow> nat \<Rightarrow> u32 \<Rightarrow> 'k heap \<Rightarrow> u32 list \<Rightarrow> u32 \<Rightarrow> 'k heap \<Rightarrow> u32 list \<Rightarrow> bool" where
  "took base lim n h xs q h' xs' \<longleftrightarrow> heap_list base lim h' xs' \<and> hblock h' q \<subseteq> cells h xs \<and> cells h' xs' = cells h xs - hblock h' q \<and> h_size h' q = n \<and>
     base < q \<and> unat q + 8 * unat n \<le> lim \<and> (\<forall>x. x \<notin> set xs \<and> x \<noteq> q \<longrightarrow> h_size h' x = h_size h x) \<and> h_env h' = h_env h"

lemma take_exact:
  assumes l: "heap_list base lim h (us @ a # b # ws)" and b: "b \<noteq> base"
  shows "took base lim (h_size h b) h (us @ a # b # ws) b ((set_ptr a (h_ptr h b) h)\<lparr>freep := a\<rparr>) (us @ a # ws)"
proof -
  note hl = heap_listD1 [OF l] and hd = heap_listD [OF l]
  let ?h = "(set_ptr a (h_ptr h b) h)\<lparr>freep := a\<rparr>"
  have p: "h_ptr h b = hd (ws @ [base])" "lnk h us a" "lnk h ws base" using hd(3) by (simp_all add: lnk_append)
  have k: "\<forall>x\<in>set us. h_ptr ?h x = h_ptr h x" "\<forall>x\<in>set ws. h_ptr ?h x = h_ptr h x" using hd(7) by auto
  have lk: "lnk ?h (us @ a # ws) base" using p lnk_cong [OF k(1)] lnk_cong [OF k(2)] by (simp add: lnk_append)
  have "gap h (us @ a # ws) (Suc lim)" using hd(4) by (auto simp: gap_append)
  then have "gap ?h (us @ a # ws) (Suc lim)" using gap_cong [of "us @ a # ws" ?h h] by simp
  moreover have "hd ((us @ a # ws) @ [0]) = base" using hl(1) by (cases us) simp_all
  ultimately have "heap_list base lim ?h (us @ a # ws)" unfolding heap_list_def using hl lk by simp
  moreover have "cells ?h (us @ a # ws) = cells h (us @ a # ws)" using cells_cong [of "us @ a # ws" ?h h] by simp
  moreover have "hblock ?h b = hblock h b" by (rule hblock_cong) simp
  moreover have "hblock h b \<inter> cells h (us @ a # ws) = {}"
    using gap_disjoint [of h "us @ [a]" b ws "Suc lim"] hd(4) by auto
  moreover have "base < b" "unat b + 8 * unat (h_size h b) \<le> lim" using hd(8) [of b] b gap_end [OF hd(4), of b] by auto
  ultimately show ?thesis by (auto simp: took_def)
qed

lemma take_split:
  assumes l: "heap_list base lim h (us @ b # ws)" and b: "b \<noteq> base" "1 \<le> unat n" "n < h_size h b" and a: "a \<in> set (us @ b # ws)"
  defines "q \<equiv> hdr_add b (h_size h b - n)"
  shows "took base lim n h (us @ b # ws) q ((set_size q n (set_size b (h_size h b - n) h))\<lparr>freep := a\<rparr>) (us @ b # ws)"
proof -
  note hl = heap_listD1 [OF l] and hd = heap_listD [OF l]
  let ?xs = "us @ b # ws" and ?h = "(set_size q n (set_size b (h_size h b - n) h))\<lparr>freep := a\<rparr>"
  have e: "unat b + 8 * unat (h_size h b) \<le> lim" using gap_end [OF hd(4), of b] by simp
  have m: "unat (h_size h b - n) = unat (h_size h b) - unat n" "unat n < unat (h_size h b)"
    using b(3) by (simp_all add: unat_sub word_less_nat_alt order_less_imp_le)
  have q: "unat q = unat b + 8 * (unat (h_size h b) - unat n)" unfolding q_def using hdr_add_unat [of b "h_size h b - n"] m e hd(5) by simp
  have qb: "q \<noteq> b" using q m(2) by auto
  have g: "gap h us (unat b)" "unat b + 8 * unat (h_size h b) < hd (map unat ws @ [Suc lim])" "gap h ws (Suc lim)" using hd(4) by (simp_all add: gap_append)
  have qu: "q \<notin> set us" using gap_end [OF g(1), of q] q by auto
  have qw: "q \<notin> set ws" using gap_less [of h b ws "Suc lim" q] hd(4) q m(2) by (auto simp: gap_append)
  have nb: "b \<notin> set us" "b \<notin> set ws" using hd(7) by auto
  have k: "\<forall>x\<in>set us. h_size ?h x = h_size h x" "\<forall>x\<in>set ws. h_size ?h x = h_size h x" "h_size ?h b = h_size h b - n" "h_size ?h q = n"
    using qu qw nb qb by auto
  have "gap ?h ?xs (Suc lim)" using g m k(3) gap_cong [OF k(1)] gap_cong [OF k(2)] by (simp add: gap_append)
  moreover have "lnk ?h ?xs base" using hd(3) lnk_cong [of ?xs ?h h] by simp
  moreover have bb: "base < b" using hd(8) [of b] b(1) by simp
  then have "unat base < unat q" using q by (simp add: word_less_nat_alt)
  then have "h_size ?h base = 0" using hl(3) b(1) by auto
  moreover have "1 \<le> unat (h_size ?h x)" if "x \<in> set ?xs" "x \<noteq> base" for x using that hl(8) [of x] k m by (cases "x = b") auto
  ultimately have "heap_list base lim ?h ?xs" unfolding heap_list_def using hl(1,2) hd(5) a by simp
  moreover have bl: "hblock h b = hblock ?h b \<union> hblock ?h q" "hblock ?h b \<inter> hblock ?h q = {}" using k(3,4) q m by (auto simp: hblock_def)
  have "cells ?h us = cells h us" "cells ?h ws = cells h ws" using cells_cong [OF k(1)] cells_cong [OF k(2)] by simp_all
  then have "cells ?h ?xs = cells h ?xs - hblock ?h q" "hblock ?h q \<subseteq> cells h ?xs" using bl gap_disjoint [OF hd(4)] by auto
  moreover have "base < q" "unat q + 8 * unat n \<le> lim" using bb q m e by (auto simp: word_less_nat_alt)
  ultimately show ?thesis using k(4) by (auto simp: took_def)
qed

lemma take_block_ok:
  assumes l: "heap_list base lim h xs" and a: "a \<in> set xs" "1 \<le> unat n" "n \<le> h_size h (h_ptr h a)"
  shows "\<exists>q h' xs'. take_block n a (h_ptr h a) h = (q, h') \<and> took base lim n h xs q h' xs'"
proof -
  note hd = heap_listD [OF l]
  obtain us vs where x: "xs = us @ a # vs" using split_list [OF a(1)] by blast
  let ?b = "h_ptr h a"
  have b: "?b \<noteq> base" using a(2,3) heap_listD1(3) [OF l] by (auto simp: word_le_nat_alt)
  moreover have "?b = hd (vs @ [base])" using hd(3) unfolding x by (simp add: lnk_append)
  ultimately obtain ws where v: "vs = ?b # ws" by (cases vs) auto
  have x2: "xs = (us @ [a]) @ ?b # ws" using x v by simp
  show ?thesis
  proof (cases "h_size h ?b = n")
    case True
    have "xs = us @ a # ?b # ws" using x v by simp
    then show ?thesis using take_exact [of base lim h us a ?b ws] l b True by (auto simp: take_block_def)
  next
    case False
    then have "n < h_size h ?b" using a(3) by simp
    then show ?thesis using take_split [of base lim h "us @ [a]" ?b ws n a] l b a(2) False unfolding x2 [symmetric]
      by (auto simp: take_block_def Let_def x)
  qed
qed

subsection \<open>The search for a block\<close>

lemma ring_walk:
  assumes "heap_list base lim h xs"
  shows "\<exists>us. lnk h (freep h # us) (freep h) \<and> set (freep h # us) = set xs \<and> freep h \<notin> set us"
proof -
  note hd = heap_listD [OF assms]
  obtain as bs where x: "xs = as @ freep h # bs" using split_list [OF heap_listD1(7) [OF assms]] by blast
  obtain r where "xs = base # r" using hd(1) by blast
  then have h: "hd (as @ [freep h]) = base" using x by (cases as) auto
  have "lnk h as (freep h)" "lnk h (freep h # bs) base" using hd(3) unfolding x by (simp_all add: lnk_append)
  then have "lnk h ((freep h # bs) @ as) (freep h)" using h unfolding lnk_append by simp
  moreover have "freep h \<notin> set (bs @ as)" using hd(7) x by auto
  ultimately show ?thesis using x by (intro exI [of _ "bs @ as"]) auto
qed

definition after_core :: "'k sbrk \<Rightarrow> u32 \<Rightarrow> 'k heap \<Rightarrow> (u32 \<times> 'k heap) option" where
  "after_core sbrk n h =
     (case morecore sbrk n h of None \<Rightarrow> None
      | Some (q, h1) \<Rightarrow> if q = 0 then Some (0, h1) else malloc_loop sbrk n q (h_ptr h1 q) h1)"

lemma malloc_walk:
  assumes "lnk h (a # us) (freep h)" "freep h \<notin> set us"
  shows "(\<exists>b\<in>set (a # us). n \<le> h_size h (h_ptr h b) \<and>
      malloc_loop sbrk n a (h_ptr h a) h = (case take_block n b (h_ptr h b) h of (q, h1) \<Rightarrow> Some (hdr_add q 1, h1))) \<or>
    ((\<forall>x\<in>insert (freep h) (set us). \<not> n \<le> h_size h x) \<and> malloc_loop sbrk n a (h_ptr h a) h = after_core sbrk n h)"
  using assms
proof (induction us arbitrary: a)
  case Nil
  then have "h_ptr h a = freep h" by simp
  then show ?case by (subst (1 2) malloc_loop.simps) (auto simp: after_core_def)
next
  case (Cons u us)
  then have p: "h_ptr h a = u" "u \<noteq> freep h" by auto
  show ?case
  proof (cases "n \<le> h_size h u")
    case True
    then show ?thesis using p by (subst malloc_loop.simps) auto
  next
    case False
    then have "malloc_loop sbrk n a (h_ptr h a) h = malloc_loop sbrk n u (h_ptr h u) h" using p by (subst malloc_loop.simps) simp
    then show ?thesis using Cons.IH [of u] Cons.prems False by auto
  qed
qed

text \<open>\<open>sbrk\<close> fails, or gives the memory from the old break to the new one.\<close>

definition sbrk_grows :: "'k sbrk \<Rightarrow> ('k \<Rightarrow> u32) \<Rightarrow> bool" where
  "sbrk_grows sbrk brk \<longleftrightarrow> (\<forall>n k r k'. unat n < 2 ^ 31 \<and> sbrk n k = (r, k') \<longrightarrow>
     r = -1 \<and> brk k' = brk k \<or> r = brk k \<and> r \<noteq> -1 \<and> unat (brk k') = unat (brk k) + unat n)"

abbreviation top_of :: "('k \<Rightarrow> u32) \<Rightarrow> 'k heap \<Rightarrow> nat" where
  "top_of brk h \<equiv> unat (brk (h_env h))"

lemma heap_list_grow:
  assumes l: "heap_list base lim h xs" and "unat base < lim" "lim \<le> lim'" "lim' < 2 ^ 32" "unat bp = lim"
  shows "heap_list base lim' (set_size bp nu (h\<lparr>h_env := k\<rparr>)) xs" "cells (set_size bp nu (h\<lparr>h_env := k\<rparr>)) xs = cells h xs" "cells h xs \<subseteq> {..<lim}" "bp \<notin> set xs"
proof -
  note hl = heap_listD1 [OF l]
  have fin: "unat x + 8 * unat (h_size h x) \<le> lim" if "x \<in> set xs" for x using gap_end [OF hl(5) that] by simp
  then show "cells h xs \<subseteq> {..<lim}" by (fastforce simp: cells_def hblock_def)
  have "unat x < lim" if "x \<in> set xs" for x using fin [OF that] hl(8) [OF that] assms(2) by (cases "x = base") auto
  then show bp: "bp \<notin> set xs" using assms(5) by fastforce
  let ?h = "set_size bp nu (h\<lparr>h_env := k\<rparr>)"
  have s: "\<forall>x\<in>set xs. h_size ?h x = h_size h x" "\<forall>x\<in>set xs. h_ptr ?h x = h_ptr h x" using bp by auto
  show "cells ?h xs = cells h xs" by (rule cells_cong [OF s(1)])
  have "gap ?h xs (Suc lim')" using gap_mono [OF hl(5)] assms(3) gap_cong [OF s(1)] by simp
  moreover have "base \<in> set xs" using heap_listD(2) [OF l] .
  ultimately show "heap_list base lim' ?h xs"
    unfolding heap_list_def using hl s(1) lnk_cong [OF s(2)] assms(4) by simp
qed

definition grown :: "u32 \<Rightarrow> ('k \<Rightarrow> u32) \<Rightarrow> 'k heap \<Rightarrow> u32 list \<Rightarrow> 'k heap \<Rightarrow> u32 list \<Rightarrow> bool" where
  "grown base brk h xs h' xs' \<longleftrightarrow> heap_list base (top_of brk h') h' xs' \<and> top_of brk h \<le> top_of brk h' \<and>
     cells h' xs' = cells h xs \<union> {top_of brk h..<top_of brk h'} \<and>
     (\<forall>x. x \<notin> set xs \<and> unat x < top_of brk h \<longrightarrow> x \<notin> set xs' \<and> h_size h' x = h_size h x)"

lemma core_size:
  fixes n :: u32
  assumes "8 * unat n < 2 ^ 31"
  defines "nu \<equiv> if n < 4096 then 4096 else n"
  shows "unat (nu * 8) = 8 * unat nu" "8 * unat nu < 2 ^ 31" "n \<le> nu" "1 \<le> unat nu"
  using assms by (auto simp: unat_word_ariths word_less_nat_alt word_le_nat_alt split: if_splits)

lemma morecore_ok:
  fixes h :: "'k heap"
  assumes l: "heap_list base (top_of brk h) h xs" and b: "unat base < top_of brk h" and s: "sbrk_grows sbrk brk" and n: "8 * unat n < 2 ^ 31"
  shows "(\<exists>k. morecore sbrk n h = Some (0, h\<lparr>h_env := k\<rparr>) \<and> brk k = brk (h_env h)) \<or>
    (\<exists>h' xs'. morecore sbrk n h = Some (freep h', h') \<and> freep h' \<noteq> 0 \<and> grown base brk h xs h' xs' \<and> (\<exists>x\<in>set xs'. n \<le> h_size h' x))"
proof -
  define nu where "nu = (if n < 4096 then 4096 else n)"
  note c = core_size [OF n, folded nu_def]
  obtain r k where r: "sbrk (nu * 8) (h_env h) = (r, k)" by fastforce
  then consider "r = -1" "brk k = brk (h_env h)" | "r = brk (h_env h)" "r \<noteq> -1" "unat (brk k) = top_of brk h + 8 * unat nu"
    using s c(1,2) unfolding sbrk_grows_def by metis
  then show ?thesis
  proof cases
    case 1
    then show ?thesis using r by (auto simp: morecore_def nu_def [symmetric] Let_def)
  next
    case 2
    let ?h = "set_size r nu (h\<lparr>h_env := k\<rparr>)" and ?lim = "top_of brk h" and ?lim' = "unat (brk k)"
    have g: "heap_list base ?lim' ?h xs" "cells ?h xs = cells h xs" "cells h xs \<subseteq> {..<?lim}" "r \<notin> set xs"
      using heap_list_grow(1,2) [OF l b, of ?lim' r nu k] heap_list_grow(3,4) [OF l b, of ?lim' r] 2 unat_lt [of "brk k"] by simp_all
    have bl: "hblock ?h r = {?lim..<?lim'}" using 2 by (simp add: hblock_def)
    then have "hblock ?h r \<inter> cells ?h xs = {}" using g(2,3) by auto
    moreover have "base < r" using b 2(1) by (simp add: word_less_nat_alt)
    ultimately obtain h' xs' where f: "free_u (hdr_add r 1) ?h = Some h'" "freed base ?lim' r ?h xs h' xs'"
      using free_ok [OF g(1), of r] c(4) 2 by auto
    note fr = f(2) [unfolded freed_def]
    have e: "h_env h' = k" using fr by simp
    have "freep h' \<noteq> 0" using heap_listD(8) [of base ?lim' h' xs' "freep h'"] heap_listD1(2,7) [of base ?lim' h' xs'] fr by auto
    moreover have "x \<noteq> r" if "unat x < ?lim" for x using that 2(1) by auto
    then have "grown base brk h xs h' xs'"
      unfolding grown_def e using fr g(2) bl 2 by auto
    moreover have "\<exists>x\<in>set xs'. n \<le> h_size h' x" using fr c(3) by (auto intro: order_trans)
    moreover have "morecore sbrk n h = Some (freep h', h')" using r f(1) 2 by (simp add: morecore_def nu_def [symmetric] Let_def)
    ultimately show ?thesis by blast
  qed
qed

text \<open>What \<open>malloc\<close> returns: nothing when \<open>sbrk\<close> fails, or a block that was free or is new.\<close>

definition alloced :: "u32 \<Rightarrow> ('k \<Rightarrow> u32) \<Rightarrow> u32 \<Rightarrow> 'k heap \<Rightarrow> u32 list \<Rightarrow> u32 \<Rightarrow> 'k heap \<Rightarrow> u32 list \<Rightarrow> bool" where
  "alloced base brk n h xs q h' xs' \<longleftrightarrow> heap_list base (top_of brk h') h' xs' \<and> top_of brk h \<le> top_of brk h' \<and> h_size h' q = n \<and>
     hblock h' q \<inter> cells h' xs' = {} \<and> hblock h' q \<union> cells h' xs' = cells h xs \<union> {top_of brk h..<top_of brk h'} \<and>
     base < q \<and> unat q + 8 * unat n \<le> top_of brk h' \<and> (\<forall>x. x \<notin> set xs \<and> x \<noteq> q \<and> unat x < top_of brk h \<longrightarrow> h_size h' x = h_size h x)"

lemma grown_took:
  assumes g: "grown base brk h xs h1 xs1" and t: "took base (top_of brk h1) n h1 xs1 q h2 xs2"
  shows "alloced base brk n h xs q h2 xs2"
proof -
  note t = t [unfolded took_def] and g = g [unfolded grown_def]
  have e: "h_env h2 = h_env h1" using t by simp
  show ?thesis unfolding alloced_def e using t g by auto
qed

lemma grown_refl: "heap_list base (top_of brk h) h xs \<Longrightarrow> grown base brk h xs h xs"
  by (simp add: grown_def)

lemma malloc_loop_ok:
  fixes h :: "'k heap"
  assumes l: "heap_list base (top_of brk h) h xs" and b: "unat base < top_of brk h" and s: "sbrk_grows sbrk brk" and n: "1 \<le> unat n" "8 * unat n < 2 ^ 31"
  shows "(\<exists>k. malloc_loop sbrk n (freep h) (h_ptr h (freep h)) h = Some (0, h\<lparr>h_env := k\<rparr>) \<and> brk k = brk (h_env h)) \<or>
    (\<exists>q h' xs'. malloc_loop sbrk n (freep h) (h_ptr h (freep h)) h = Some (hdr_add q 1, h') \<and> alloced base brk n h xs q h' xs')"
proof -
  have take: "\<exists>q h' xs'. malloc_loop sbrk n (freep g) (h_ptr g (freep g)) g = Some (hdr_add q 1, h') \<and> alloced base brk n h xs q h' xs'"
    if g: "grown base brk h xs g ys" and a: "b \<in> set ys" "n \<le> h_size g (h_ptr g b)"
      "malloc_loop sbrk n (freep g) (h_ptr g (freep g)) g = (case take_block n b (h_ptr g b) g of (q, h1) \<Rightarrow> Some (hdr_add q 1, h1))" for g ys b
  proof -
    have "heap_list base (top_of brk g) g ys" using g by (simp add: grown_def)
    then obtain q h' xs' where "take_block n b (h_ptr g b) g = (q, h')" "took base (top_of brk g) n g ys q h' xs'"
      using take_block_ok [OF _ a(1) n(1) a(2)] by blast
    then show ?thesis using a(3) grown_took [OF g, of n q h' xs'] by auto
  qed
  obtain us where u: "lnk h (freep h # us) (freep h)" "set (freep h # us) = set xs" "freep h \<notin> set us" using ring_walk [OF l] by blast
  from malloc_walk [OF u(1,3), of n sbrk] show ?thesis
  proof (elim disjE bexE conjE)
    fix b assume "b \<in> set (freep h # us)" "n \<le> h_size h (h_ptr h b)"
      "malloc_loop sbrk n (freep h) (h_ptr h (freep h)) h = (case take_block n b (h_ptr h b) h of (q, h1) \<Rightarrow> Some (hdr_add q 1, h1))"
    then show ?thesis using take [OF grown_refl [of base brk h xs, OF l]] u(2) by blast
  next
    assume m: "malloc_loop sbrk n (freep h) (h_ptr h (freep h)) h = after_core sbrk n h"
    from morecore_ok [OF l b s n(2)] show ?thesis
    proof (elim disjE exE conjE)
      fix k assume "morecore sbrk n h = Some (0, h\<lparr>h_env := k\<rparr>)" "brk k = brk (h_env h)"
      then show ?thesis using m by (intro disjI1 exI [of _ k]) (simp add: after_core_def)
    next
      fix g ys assume g: "morecore sbrk n h = Some (freep g, g)" "freep g \<noteq> 0" "grown base brk h xs g ys" "\<exists>x\<in>set ys. n \<le> h_size g x"
      then have lg: "heap_list base (top_of brk g) g ys" by (simp add: grown_def)
      have e: "after_core sbrk n h = malloc_loop sbrk n (freep g) (h_ptr g (freep g)) g" using g(1,2) by (simp add: after_core_def)
      obtain vs where v: "lnk g (freep g # vs) (freep g)" "set (freep g # vs) = set ys" "freep g \<notin> set vs" using ring_walk [OF lg] by blast
      then obtain b where "b \<in> set ys" "n \<le> h_size g (h_ptr g b)"
          "malloc_loop sbrk n (freep g) (h_ptr g (freep g)) g = (case take_block n b (h_ptr g b) g of (q, h1) \<Rightarrow> Some (hdr_add q 1, h1))"
        using malloc_walk [OF v(1,3), of n sbrk] g(4) by auto
      then show ?thesis using take [OF g(3)] m e by auto
    qed
  qed
qed

subsection \<open>Blocks in use\<close>

text \<open>\<open>used\<close> holds the headers of the blocks handed out and not yet freed: they lie inside the heap, apart from each other and from the free ones.\<close>

definition used_ok :: "u32 \<Rightarrow> nat \<Rightarrow> 'k heap \<Rightarrow> u32 list \<Rightarrow> u32 set \<Rightarrow> bool" where
  "used_ok base lim h xs used \<longleftrightarrow>
     (\<forall>u\<in>used. base < u \<and> 1 \<le> unat (h_size h u) \<and> unat u + 8 * unat (h_size h u) \<le> lim \<and> hblock h u \<inter> cells h xs = {}) \<and>
     (\<forall>u\<in>used. \<forall>v\<in>used. u \<noteq> v \<longrightarrow> hblock h u \<inter> hblock h v = {})"

definition heap_ok :: "u32 \<Rightarrow> ('k \<Rightarrow> u32) \<Rightarrow> 'k heap \<Rightarrow> u32 set \<Rightarrow> bool" where
  "heap_ok base brk h used \<longleftrightarrow> 0 < base \<and> unat base < top_of brk h \<and>
     (freep h = 0 \<and> used = {} \<or> (\<exists>xs. heap_list base (top_of brk h) h xs \<and> used_ok base (top_of brk h) h xs used))"

lemma used_not_free: "used_ok base lim h xs used \<Longrightarrow> u \<in> used \<Longrightarrow> u \<notin> set xs \<and> unat u < lim"
proof -
  assume u: "used_ok base lim h xs used" "u \<in> used"
  then have "unat u \<in> hblock h u" "hblock h u \<inter> cells h xs = {}" "unat u < lim" by (auto simp: used_ok_def hblock_def)
  then show ?thesis by (auto simp: cells_def)
qed

lemma used_okI:
  assumes "used_ok base lim h xs used" "vs \<subseteq> used" "\<forall>u\<in>vs. h_size h' u = h_size h u" "lim \<le> lim'" "\<forall>u\<in>vs. hblock h u \<inter> cells h' xs' = {}"
  shows "used_ok base lim' h' xs' vs"
proof -
  have b: "hblock h' u = hblock h u" if "u \<in> vs" for u using that assms(3) by (intro hblock_cong) simp
  note o = assms(1) [unfolded used_ok_def]
  show ?thesis unfolding used_ok_def
  proof (intro conjI ballI impI)
    fix u assume u: "u \<in> vs"
    then have "u \<in> used" using assms(2) by blast
    then have "base < u" "1 \<le> unat (h_size h u)" "unat u + 8 * unat (h_size h u) \<le> lim" using o by auto
    then show "base < u" "1 \<le> unat (h_size h' u)" "unat u + 8 * unat (h_size h' u) \<le> lim'" using assms(3,4) u by auto
    show "hblock h' u \<inter> cells h' xs' = {}" using assms(5) u b by simp
  next
    fix u v assume "u \<in> vs" "v \<in> vs" "u \<noteq> v"
    then show "hblock h' u \<inter> hblock h' v = {}" using b o assms(2) by blast
  qed
qed

lemma free_used:
  assumes "heap_ok base brk h used" "u \<in> used"
  shows "\<exists>h'. free_u (hdr_add u 1) h = Some h' \<and> heap_ok base brk h' (used - {u}) \<and> (\<forall>v\<in>used - {u}. h_size h' v = h_size h v)"
proof -
  obtain xs where x: "heap_list base (top_of brk h) h xs" "used_ok base (top_of brk h) h xs used" using assms by (auto simp: heap_ok_def)
  note u = x(2) [unfolded used_ok_def]
  obtain h' xs' where f: "free_u (hdr_add u 1) h = Some h'" "freed base (top_of brk h) u h xs h' xs'"
    using free_ok [OF x(1), of u] u assms(2) by blast
  note fr = f(2) [unfolded freed_def]
  have s: "\<forall>v\<in>used - {u}. h_size h' v = h_size h v" using fr used_not_free [OF x(2)] by auto
  have "\<forall>v\<in>used - {u}. hblock h v \<inter> cells h' xs' = {}" using fr u assms(2) by auto
  then have "used_ok base (top_of brk h) h' xs' (used - {u})" using used_okI [OF x(2) _ s order_refl] by blast
  then show ?thesis using f(1) fr s assms(1) by (auto simp: heap_ok_def)
qed

lemma malloc_units_eq:
  assumes "unat nbytes < 2 ^ 31 - 16"
  shows "unat (malloc_units nbytes) = (unat nbytes + 7) div 8 + 1" "1 \<le> unat (malloc_units nbytes)" "8 * unat (malloc_units nbytes) < 2 ^ 31"
    "unat nbytes + 8 \<le> 8 * unat (malloc_units nbytes)"
proof -
  have "unat (nbytes + 7) = unat nbytes + 7" using assms by (simp add: unat_word_ariths)
  then have "unat ((nbytes + 7) div 8) = (unat nbytes + 7) div 8" by (simp add: unat_div)
  moreover have "(unat nbytes + 7) div 8 < 2 ^ 28" using assms by simp
  ultimately show u: "unat (malloc_units nbytes) = (unat nbytes + 7) div 8 + 1" by (simp add: malloc_units_def unat_word_ariths)
  define d where "d = (unat nbytes + 7) div 8"
  have "8 * d + (unat nbytes + 7) mod 8 = unat nbytes + 7" "(unat nbytes + 7) mod 8 < 8" unfolding d_def by simp_all
  then show "1 \<le> unat (malloc_units nbytes)" "8 * unat (malloc_units nbytes) < 2 ^ 31" "unat nbytes + 8 \<le> 8 * unat (malloc_units nbytes)"
    unfolding u d_def [symmetric] using assms by simp_all
qed

lemma malloc_init_ok:
  assumes "heap_ok base brk h used"
  shows "h_env (malloc_init base h) = h_env h" "\<exists>xs. heap_list base (top_of brk h) (malloc_init base h) xs \<and> used_ok base (top_of brk h) (malloc_init base h) xs used"
    "\<forall>u\<in>used. h_size (malloc_init base h) u = h_size h u"
proof -
  show "h_env (malloc_init base h) = h_env h" by (simp add: malloc_init_def)
  have l: "0 < base" "unat base < top_of brk h" using assms by (simp_all add: heap_ok_def)
  have "(\<exists>xs. heap_list base (top_of brk h) (malloc_init base h) xs \<and> used_ok base (top_of brk h) (malloc_init base h) xs used) \<and>
    (\<forall>u\<in>used. h_size (malloc_init base h) u = h_size h u)"
  proof (cases "freep h = 0 \<and> used = {}")
    case True
    then have "heap_list base (top_of brk h) (malloc_init base h) [base]"
      using l unat_lt [of "brk (h_env h)"] by (simp add: malloc_init_def heap_list_def)
    then show ?thesis using True by (auto simp: used_ok_def)
  next
    case False
    then obtain xs where x: "heap_list base (top_of brk h) h xs" "used_ok base (top_of brk h) h xs used" using assms by (auto simp: heap_ok_def)
    then have "freep h \<noteq> 0" using heap_listD(8) [OF x(1), of "freep h"] heap_listD1(7) [OF x(1)] l(1) by auto
    then show ?thesis using x by (auto simp: malloc_init_def)
  qed
  then show "\<exists>xs. heap_list base (top_of brk h) (malloc_init base h) xs \<and> used_ok base (top_of brk h) (malloc_init base h) xs used"
    "\<forall>u\<in>used. h_size (malloc_init base h) u = h_size h u" by blast+
qed

lemma alloced_used:
  assumes x: "used_ok base (top_of brk g) g xs used" and k: "alloced base brk n g xs q h' xs'" and n: "1 \<le> unat n"
  shows "q \<notin> used" "\<forall>v\<in>used. h_size h' v = h_size g v" "used_ok base (top_of brk h') h' xs' (insert q used)" "unat (hdr_add q 1) = unat q + 8"
proof -
  note a = k [unfolded alloced_def]
  have qe: "unat q + 8 * unat n \<le> top_of brk h'" "unat q \<in> hblock h' q" "hblock h' q \<subseteq> cells g xs \<union> {top_of brk g..}"
    using a n by (auto simp: hblock_def)
  show "unat (hdr_add q 1) = unat q + 8" using qe(1) n unat_lt [of "brk (h_env h')"] by (subst hdr_add_unat) auto
  have ug: "hblock g v \<inter> (cells g xs \<union> {top_of brk g..}) = {}" "v \<noteq> q" if "v \<in> used" for v
  proof -
    have "hblock g v \<inter> cells g xs = {}" "unat v + 8 * unat (h_size g v) \<le> top_of brk g" using x that by (auto simp: used_ok_def)
    then show "hblock g v \<inter> (cells g xs \<union> {top_of brk g..}) = {}" by (auto simp: hblock_def)
    moreover have "unat v \<in> hblock g v" using x that by (auto simp: used_ok_def hblock_def)
    ultimately show "v \<noteq> q" using qe(2,3) by blast
  qed
  then show "q \<notin> used" by blast
  show sz: "\<forall>v\<in>used. h_size h' v = h_size g v" using a used_not_free [OF x] ug(2) by blast
  have "cells h' xs' \<subseteq> cells g xs \<union> {top_of brk g..}" using a by auto
  then have "used_ok base (top_of brk h') h' xs' used" using used_okI [OF x _ sz, of "top_of brk h'" xs'] a ug(1) by blast
  moreover have "hblock h' q \<inter> hblock h' v = {}" if "v \<in> used" for v using qe(3) ug(1) [OF that] hblock_cong [of h' v g] sz that by auto
  ultimately show "used_ok base (top_of brk h') h' xs' (insert q used)" using a n unfolding used_ok_def by (simp add: Int_commute)
qed

lemma malloc_ok:
  assumes h: "heap_ok base brk h used" and s: "sbrk_grows sbrk brk" and n: "unat nbytes < 2 ^ 31 - 16"
  shows "(\<exists>h'. malloc sbrk base nbytes h = Some (0, h') \<and> heap_ok base brk h' used \<and> (\<forall>u\<in>used. h_size h' u = h_size h u)) \<or>
    (\<exists>q h'. malloc sbrk base nbytes h = Some (hdr_add q 1, h') \<and> hdr_add q 1 \<noteq> 0 \<and> q \<notin> used \<and> heap_ok base brk h' (insert q used) \<and>
      (\<forall>u\<in>used. h_size h' u = h_size h u) \<and> {unat (hdr_add q 1)..<unat (hdr_add q 1) + unat nbytes} \<subseteq> hblock h' q)"
proof -
  define g where "g = malloc_init base h"
  note i = malloc_init_ok [OF h, folded g_def]
  let ?n = "malloc_units nbytes"
  note u = malloc_units_eq [OF n]
  obtain xs where x: "heap_list base (top_of brk g) g xs" "used_ok base (top_of brk g) g xs used" using i(1,2) by auto
  have b: "0 < base" "unat base < top_of brk g" using h i(1) by (simp_all add: heap_ok_def)
  have m: "malloc sbrk base nbytes h = malloc_loop sbrk ?n (freep g) (h_ptr g (freep g)) g" by (simp add: malloc_def g_def Let_def)
  from malloc_loop_ok [OF x(1) b(2) s u(2,3)] show ?thesis
  proof (elim disjE exE conjE)
    fix k assume k: "malloc_loop sbrk ?n (freep g) (h_ptr g (freep g)) g = Some (0, g\<lparr>h_env := k\<rparr>)" "brk k = brk (h_env g)"
    let ?g = "g\<lparr>h_env := k\<rparr>"
    have "lnk ?g xs base = lnk g xs base" "gap ?g xs (Suc (top_of brk g)) = gap g xs (Suc (top_of brk g))" "cells ?g xs = cells g xs"
      by (rule lnk_cong gap_cong cells_cong, simp)+
    then have "heap_list base (top_of brk g) ?g xs" "used_ok base (top_of brk g) ?g xs used"
      using x used_okI [OF x(2), of used ?g "top_of brk g" xs] by (simp_all add: heap_list_def used_ok_def)
    then show ?thesis using k m b i(1,3) by (intro disjI1 exI [of _ ?g]) (auto simp: heap_ok_def)
  next
    fix q h' xs' assume k: "malloc_loop sbrk ?n (freep g) (h_ptr g (freep g)) g = Some (hdr_add q 1, h')" "alloced base brk ?n g xs q h' xs'"
    note a = alloced_used [OF x(2) k(2) u(2)]
    have "heap_ok base brk h' (insert q used)" using k(2) a(3) b i(1) by (auto simp: heap_ok_def alloced_def)
    moreover have "{unat (hdr_add q 1)..<unat (hdr_add q 1) + unat nbytes} \<subseteq> hblock h' q" using k(2) a(4) u(4) by (auto simp: hblock_def alloced_def)
    moreover have "hdr_add q 1 \<noteq> 0" using a(4) by auto
    ultimately show ?thesis using k(1) m a(1,2) i(3) by (intro disjI2 exI [of _ q] exI [of _ h']) auto
  qed
qed

text \<open>Every sequence of calls of a program that frees only what it has got.  The sizes stay below \<open>2 ^ 31 - 16\<close>: from there on the byte count that
  \<open>morecore\<close> passes to \<open>sbrk\<close> is a negative \<open>int\<close>, and from \<open>2 ^ 32 - 7\<close> on the number of headers wraps around.\<close>

inductive hreach :: "'k sbrk \<Rightarrow> u32 \<Rightarrow> ('k \<Rightarrow> u32) \<Rightarrow> 'k heap \<Rightarrow> u32 set \<Rightarrow> bool" for sbrk base brk where
  start: "freep h = 0 \<Longrightarrow> 0 < base \<Longrightarrow> unat base < top_of brk h \<Longrightarrow> hreach sbrk base brk h {}"
| null: "hreach sbrk base brk h used \<Longrightarrow> unat n < 2 ^ 31 - 16 \<Longrightarrow> malloc sbrk base n h = Some (0, h') \<Longrightarrow> hreach sbrk base brk h' used"
| alloc: "hreach sbrk base brk h used \<Longrightarrow> unat n < 2 ^ 31 - 16 \<Longrightarrow> malloc sbrk base n h = Some (p, h') \<Longrightarrow> p \<noteq> 0 \<Longrightarrow>
    hreach sbrk base brk h' (insert (p - 8) used)"
| release: "hreach sbrk base brk h used \<Longrightarrow> u \<in> used \<Longrightarrow> free_u (u + 8) h = Some h' \<Longrightarrow> hreach sbrk base brk h' (used - {u})"

lemma hdr_add_1 [simp]: "hdr_add p 1 = p + 8" by (simp add: hdr_add_def)

lemma hreach_ok: "hreach sbrk base brk h used \<Longrightarrow> sbrk_grows sbrk brk \<Longrightarrow> heap_ok base brk h used"
proof (induction rule: hreach.induct)
  case (start h)
  then show ?case by (simp add: heap_ok_def)
next
  case (null h used n h')
  then show ?case using malloc_ok [of base brk h used sbrk n] by auto
next
  case (alloc h used n p h')
  then show ?case using malloc_ok [of base brk h used sbrk n] by auto
next
  case (release h used u h')
  then show ?case using free_used [of base brk h used u] by auto
qed

text \<open>C20: whatever sequence of calls with sizes below \<open>2 ^ 31 - 16\<close> a program makes, freeing only what it has got, the blocks it holds do not overlap, and
  \<open>free\<close> of any of them returns.  \<open>malloc\<close> returns too: the null pointer, or a region of at least the requested size that lies in a block of its own
  and overlaps none of the blocks in use, which it leaves as they are.  Larger sizes are excluded: the computation of the number of headers and the argument of \<open>sbrk\<close> wrap around there.\<close>

theorem malloc_disjoint:
  fixes h :: "'k heap"
  assumes "sbrk_grows sbrk brk" "hreach sbrk base brk h used" "unat nbytes < 2 ^ 31 - 16"
  shows "(\<forall>u\<in>used. \<forall>v\<in>used. u \<noteq> v \<longrightarrow> hblock h u \<inter> hblock h v = {}) \<and> (\<forall>u\<in>used. \<exists>h'. free_u (u + 8) h = Some h') \<and>
    (\<exists>p h'. malloc sbrk base nbytes h = Some (p, h') \<and> (p \<noteq> 0 \<longrightarrow> p - 8 \<notin> used \<and> {unat p..<unat p + unat nbytes} \<subseteq> hblock h' (p - 8) \<and>
      (\<forall>u\<in>used. hblock h' u = hblock h u \<and> hblock h' (p - 8) \<inter> hblock h u = {})))"
proof -
  have h: "heap_ok base brk h used" using hreach_ok assms by blast
  have dis: "hblock g u \<inter> hblock g v = {}" if "heap_ok base brk g vs" "u \<in> vs" "v \<in> vs" "u \<noteq> v" for g :: "'k heap" and u v vs
    using that by (auto simp: heap_ok_def used_ok_def)
  from malloc_ok [OF h assms(1,3)]
  have "\<exists>p h'. malloc sbrk base nbytes h = Some (p, h') \<and> (p \<noteq> 0 \<longrightarrow> p - 8 \<notin> used \<and> {unat p..<unat p + unat nbytes} \<subseteq> hblock h' (p - 8) \<and>
      (\<forall>u\<in>used. hblock h' u = hblock h u \<and> hblock h' (p - 8) \<inter> hblock h u = {}))"
  proof (elim disjE exE conjE)
    fix q h' assume q: "malloc sbrk base nbytes h = Some (hdr_add q 1, h')" "q \<notin> used" "heap_ok base brk h' (insert q used)" "\<forall>u\<in>used. h_size h' u = h_size h u"
      "{unat (hdr_add q 1)..<unat (hdr_add q 1) + unat nbytes} \<subseteq> hblock h' q"
    have e: "hblock h' u = hblock h u" if "u \<in> used" for u using q(4) that by (intro hblock_cong) simp
    then have "hblock h' q \<inter> hblock h u = {}" if "u \<in> used" for u using dis [OF q(3), of q u] that q(2) by auto
    then show ?thesis using q e by (intro exI [of _ "q + 8"] exI [of _ h']) simp
  qed auto
  moreover have "\<exists>h'. free_u (u + 8) h = Some h'" if "u \<in> used" for u using free_used [OF h that] by auto
  ultimately show ?thesis using dis [OF h] by blast
qed

text \<open>A process of at most two gigabytes whose heap starts at \<open>16384\<close>.\<close>

definition small_sbrk :: "u32 sbrk" where
  "small_sbrk n k = (if unat k + unat n < 2 ^ 31 then (k, k + n) else (-1, k))"

definition start_heap :: "u32 heap" where
  "start_heap = \<lparr>h_ptr = (\<lambda>_. 0), h_size = (\<lambda>_. 0), freep = 0, h_env = 16384\<rparr>"

text \<open>The heap after a first call for 100 bytes: one block of 14 headers is in use, the rest of the grown heap is free.\<close>

definition first_heap :: "u32 heap" where
  "first_heap = \<lparr>h_ptr = (\<lambda>_. 0)(16384 := 12288, 12288 := 16384), h_size = (\<lambda>_. 0)(12288 := 0, 16384 := 4082, 49040 := 14), freep = 12288, h_env = 49152\<rparr>"

lemma first_block: "malloc small_sbrk 12288 100 start_heap = Some (49048, first_heap)"
  apply (simp add: malloc_def malloc_init_def start_heap_def malloc_units_def Let_def set_size_def set_ptr_def)
  apply (subst malloc_loop.simps)
  apply (simp add: morecore_def small_sbrk_def hdr_add_def Let_def set_size_def set_ptr_def free_u_def)
  apply (subst free_place.simps)
  apply (simp add: free_link_def hdr_add_def Let_def set_size_def set_ptr_def)
  apply (subst malloc_loop.simps)
  apply (simp add: take_block_def hdr_add_def Let_def set_size_def set_ptr_def first_heap_def fun_eq_iff)
  done

lemma second_block: "\<exists>h. malloc small_sbrk 12288 200 first_heap = Some (48840, h)"
  unfolding malloc_def malloc_init_def malloc_units_def first_heap_def
  by (subst malloc_loop.simps) (simp add: take_block_def hdr_add_def Let_def set_size_def)

lemma small_grows: "sbrk_grows small_sbrk (\<lambda>k. k)"
proof -
  have "unat (-1 :: u32) = 4294967295" by (simp add: unsigned_minus_1_eq_mask mask_eq_exp_minus_1)
  then show ?thesis by (auto simp: sbrk_grows_def small_sbrk_def unat_word_ariths split: if_splits)
qed

theorem malloc_disjoint_witness:
  "\<exists>h. malloc small_sbrk 12288 100 start_heap = Some (49048, first_heap) \<and> hreach small_sbrk 12288 (\<lambda>k. k) first_heap {49040} \<and>
     malloc small_sbrk 12288 200 first_heap = Some (48840, h) \<and> {48840..<49040} \<subseteq> hblock h 48832 \<and> hblock h 48832 \<inter> hblock first_heap 49040 = {}"
proof -
  have "hreach small_sbrk 12288 (\<lambda>k. k) start_heap {}" by (rule hreach.start) (simp_all add: start_heap_def)
  from hreach.alloc [OF this _ first_block] have r: "hreach small_sbrk 12288 (\<lambda>k. k) first_heap {49040}" by simp
  obtain h where h: "malloc small_sbrk 12288 200 first_heap = Some (48840, h)" using second_block by blast
  show ?thesis using malloc_disjoint [OF small_grows r, of 200] h r first_block by simp
qed
end
