(* ===== verification/XvSh.thy ===== *)
theory XvSh
  imports XvFcntl
begin

text \<open>
  The parser of the shell, \<^verbatim>\<open>lab-2/sh.c\<close>.  A pointer into the command line is a position in it; a parsed command holds
  the positions of its strings, which \<open>nulterminate\<close> then ends in place.  \<open>panic\<close>, which ends the shell's child, is the
  left value of a result.  The four mutually recursive functions take a bound on the depth of their
  calls and give \<open>None\<close> when it is reached; \<open>parsecmd\<close> supplies one that is large enough.
\<close>

definition MAXARGS :: nat where "MAXARGS = 10"

text \<open>A string of the command: the positions of its first byte and after its last.\<close>

type_synonym strpos = "nat \<times> nat"

datatype cmd =
    EXEC "strpos list"
  | REDIR cmd strpos nat nat
  | PIPE cmd cmd
  | LIST cmd cmd
  | BACK cmd

subsection \<open>Tokens\<close>

definition NUL :: char where "NUL = CHR 0x00"

definition whitespace :: string where
  "whitespace = [CHR '' '', CHR 0x09, CHR 0x0D, CHR 0x0A, CHR 0x0B]"

definition symbols :: string where
  "symbols = ''<|>&;()''"

definition strchr :: "string \<Rightarrow> char \<Rightarrow> bool" where
  "strchr cs c \<longleftrightarrow> c \<in> set cs"

definition at :: "string \<Rightarrow> nat \<Rightarrow> char" where
  "at b s = (if s < length b then b ! s else NUL)"

text \<open>\<open>skip P b s\<close>: the loop that advances \<open>s\<close> up to the end of the line while \<open>P\<close> holds.\<close>

definition skip :: "(char \<Rightarrow> bool) \<Rightarrow> string \<Rightarrow> nat \<Rightarrow> nat" where
  "skip P b s = s + length (takeWhile P (drop s b))"

definition word_char :: "char \<Rightarrow> bool" where
  "word_char c \<longleftrightarrow> \<not> strchr whitespace c \<and> \<not> strchr symbols c"

definition gettoken :: "string \<Rightarrow> nat \<Rightarrow> char \<times> strpos \<times> nat" where
  "gettoken b s =
     (let q = skip (strchr whitespace) b s;
          c = at b q;
          (ret, eq) =
            (if c = NUL then (c, q)
             else if c \<in> set ''|();&<'' then (c, q + 1)
             else if c = CHR ''>'' then if at b (q + 1) = CHR ''>'' then (CHR ''+'', q + 2) else (c, q + 1)
             else (CHR ''a'', skip word_char b q))
      in (ret, (q, eq), skip (strchr whitespace) b eq))"

definition peek :: "string \<Rightarrow> nat \<Rightarrow> string \<Rightarrow> bool \<times> nat" where
  "peek b s toks = (let s = skip (strchr whitespace) b s in (at b s \<noteq> NUL \<and> strchr toks (at b s), s))"

lemma skip_ge: "s \<le> skip P b s"
  by (simp add: skip_def)

lemma skip_le: "s \<le> length b \<Longrightarrow> skip P b s \<le> length b"
  using length_takeWhile_le [of P "drop s b"] by (simp add: skip_def)

lemma skip_gt: "s < length b \<Longrightarrow> P (b ! s) \<Longrightarrow> s < skip P b s"
  by (simp add: skip_def Cons_nth_drop_Suc [symmetric])

lemma at_NUL: "at b s \<noteq> NUL \<Longrightarrow> s < length b"
  by (simp add: at_def split: if_splits)

lemma peek_True:
  assumes "peek b s toks = (True, s1)"
  shows "s \<le> s1" "s1 < length b"
  using assms skip_ge [of s "strchr whitespace" b] at_NUL [of b s1] by (auto simp: peek_def Let_def)

lemma peek_ge: "s \<le> snd (peek b s toks)"
  by (simp add: peek_def Let_def skip_ge)

lemma skip_idem: "skip P b (skip P b s) = skip P b s"
proof -
  have "takeWhile P (drop (s + length (takeWhile P (drop s b))) b) = []"
    by (metis drop_drop add.commute dropWhile_eq_drop takeWhile_dropWhile_id append_self_conv2 takeWhile_eq_Nil_iff hd_dropWhile)
  then show ?thesis by (simp add: skip_def)
qed

text \<open>The parser moves forward and stays inside the line.\<close>

definition adv :: "string \<Rightarrow> nat \<Rightarrow> nat \<Rightarrow> bool" where
  "adv b s s' \<longleftrightarrow> s \<le> s' \<and> (s \<le> length b \<longrightarrow> s' \<le> length b)"

lemma adv_trans: "adv b s s' \<Longrightarrow> adv b s' s'' \<Longrightarrow> adv b s s''"
  by (simp add: adv_def)

lemma skip_adv: "adv b s (skip P b s)"
  by (simp add: adv_def skip_ge skip_le)

lemma peek_adv: "peek b s toks = (p, s1) \<Longrightarrow> adv b s s1"
  using skip_adv [of b s "strchr whitespace"] by (auto simp: peek_def Let_def)

lemma adv_Suc: "at b s \<noteq> NUL \<Longrightarrow> adv b s (s + 1)"
  using at_NUL [of b s] by (simp add: adv_def)

lemma token_adv: "gettoken b s = (tok, x, s') \<Longrightarrow> adv b s s'"
proof -
  assume g: "gettoken b s = (tok, x, s')"
  let ?q = "skip (strchr whitespace) b s"
  have e: "adv b ?q (snd x)"
    using g skip_adv [of b ?q word_char] adv_Suc [of b ?q] adv_Suc [of b "?q + 1"] adv_trans [of b ?q "?q + 1" "?q + 2"]
    by (auto simp: gettoken_def Let_def adv_def NUL_def split: if_splits)
  have "s' = skip (strchr whitespace) b (snd x)" using g by (auto simp: gettoken_def Let_def split: if_splits)
  then show ?thesis using adv_trans [OF adv_trans [OF skip_adv e] skip_adv] by simp
qed

text \<open>A token that is not the end of the line advances the position.\<close>

lemma gettoken_advances:
  assumes "gettoken b s = (tok, (q, eq), s')" and "tok \<noteq> NUL"
  shows "s < s'" "s \<le> q" "q < eq" "eq \<le> s'"
proof -
  let ?q = "skip (strchr whitespace) b s"
  have q: "s \<le> ?q" "\<not> strchr whitespace (at b ?q)" if "at b ?q \<noteq> NUL"
  proof -
    have l: "?q < length b" using at_NUL [OF that] .
    have "\<not> strchr whitespace (b ! ?q)" using skip_gt [OF l, of "strchr whitespace"] by (auto simp: skip_idem)
    then show "s \<le> ?q" "\<not> strchr whitespace (at b ?q)" using l by (simp_all add: at_def skip_ge)
  qed
  have nz: "at b ?q \<noteq> NUL" using assms by (auto simp: gettoken_def Let_def split: if_splits)
  have w: "?q < skip word_char b ?q" if "at b ?q \<notin> set ''|();&<''" "at b ?q \<noteq> CHR ''>''"
    using q(2) [OF nz] that at_NUL [OF nz]
    by (intro skip_gt) (auto simp: word_char_def strchr_def symbols_def at_def)
  have e: "q = ?q" "q < eq" "s' = skip (strchr whitespace) b eq"
    using assms nz w by (auto simp: gettoken_def Let_def split: if_splits)
  then show "s \<le> q" "q < eq" using q(1) [OF nz] by simp_all
  show "eq \<le> s'" using e(3) skip_ge by simp
  then show "s < s'" using \<open>s \<le> q\<close> \<open>q < eq\<close> by simp
qed

lemma peek_token:
  assumes "peek b s toks = (True, s1)" "gettoken b s1 = (tok, (q, eq), s2)"
  shows "s1 < s2" "tok \<noteq> NUL"
proof -
  have "skip (strchr whitespace) b s1 = s1" "at b s1 \<noteq> NUL"
    using assms(1) skip_idem [of "strchr whitespace" b s] by (auto simp: peek_def Let_def)
  then show t: "tok \<noteq> NUL" using assms(2) by (auto simp: gettoken_def Let_def NUL_def split: if_splits)
  show "s1 < s2" using gettoken_advances(1) [OF assms(2) t] .
qed

subsection \<open>Commands\<close>

text \<open>\<open>parseexec\<close> keeps a pointer to the innermost command while redirections are wrapped around it.\<close>

fun add_arg :: "cmd \<Rightarrow> strpos \<Rightarrow> cmd" where
  "add_arg (EXEC as) a = EXEC (as @ [a])"
| "add_arg (REDIR c f m fd) a = REDIR (add_arg c a) f m fd"
| "add_arg c a = c"

text \<open>The loops of the parser end: each round starts before the end of the line and moves on.\<close>

lemma redir_advances:
  assumes "(True, s1) = peek b s toks" "(tok, x, s2) = gettoken b s1" "(CHR ''a'', f, s3) = gettoken b s2"
  shows "length b - s3 < length b - s"
proof -
  obtain q e q' e' where x: "x = (q, e)" "f = (q', e')" by fastforce
  have "s \<le> s1" "s1 < length b" using peek_True [OF assms(1) [symmetric]] by auto
  moreover have "s1 < s2" using peek_token(1) [OF assms(1) [symmetric], of tok q e s2] assms(2) [symmetric] x by simp
  moreover have "s2 < s3" using gettoken_advances(1) [of b s2 "CHR ''a''" q' e' s3] assms(3) [symmetric] x by (simp add: NUL_def)
  ultimately show ?thesis by linarith
qed

lemma exec_advances:
  assumes "(tok, a, s2) = gettoken b (snd (peek b s toks))" "tok \<noteq> NUL"
  shows "s < s2 \<and> s < length b"
proof -
  let ?s1 = "snd (peek b s toks)"
  obtain q e where a: "a = (q, e)" by fastforce
  have "?s1 < s2" using gettoken_advances(1) assms a by metis
  moreover have "?s1 < length b"
  proof (rule ccontr)
    assume l: "\<not> ?s1 < length b"
    then have "skip P b ?s1 = ?s1" for P by (simp add: skip_def)
    then have "tok = NUL" using assms(1) l by (auto simp: gettoken_def Let_def at_def)
    then show False using assms(2) by simp
  qed
  ultimately show ?thesis using peek_ge [of s b toks] by linarith
qed

lemma back_advances:
  assumes "(True, s1) = peek b s toks" "(tok, x, s2) = gettoken b s1"
  shows "length b - s2 < length b - s"
proof -
  obtain q e where x: "x = (q, e)" by fastforce
  have "s \<le> s1" "s1 < length b" using peek_True [OF assms(1) [symmetric]] by auto
  moreover have "s1 < s2" using peek_token(1) [OF assms(1) [symmetric], of tok q e s2] assms(2) [symmetric] x by simp
  ultimately show ?thesis by linarith
qed

function parseredirs :: "string \<Rightarrow> cmd \<Rightarrow> nat \<Rightarrow> (cmd \<times> nat) res" where
  "parseredirs b c s =
     (case peek b s ''<>'' of
        (False, s1) \<Rightarrow> Inr (c, s1)
      | (True, s1) \<Rightarrow>
          (case gettoken b s1 of (tok, _, s2) \<Rightarrow>
           case gettoken b s2 of (w, f, s3) \<Rightarrow>
             if w \<noteq> CHR ''a'' then Inl ''missing file for redirection''
             else if tok = CHR ''<'' then parseredirs b (REDIR c f O_RDONLY 0) s3
             else if tok = CHR ''>'' then parseredirs b (REDIR c f (O_WRONLY + O_CREATE) 1) s3
             else parseredirs b (REDIR c f (O_WRONLY + O_CREATE) 1) s3))"
  by pat_completeness auto
termination
  by (relation "measure (\<lambda>(b, c, s). length b - s)") (auto dest: redir_advances)

declare parseredirs.simps [simp del]

text \<open>One round of the loop.\<close>

lemma parseredirs_step:
  assumes "peek b s ''<>'' = (True, s1)" "gettoken b s1 = (tok, x, s2)" "gettoken b s2 = (CHR ''a'', f, s3)"
  shows "parseredirs b c s = parseredirs b (if tok = CHR ''<'' then REDIR c f O_RDONLY 0 else REDIR c f (O_WRONLY + O_CREATE) 1) s3"
  using assms by (simp add: parseredirs.simps [of b c s])

lemma parseredirs_none: "peek b s ''<>'' = (False, s1) \<Longrightarrow> parseredirs b c s = Inr (c, s1)"
  by (simp add: parseredirs.simps [of b c s])

lemma parseredirs_cases:
  obtains (none) s1 where "peek b s ''<>'' = (False, s1)" "parseredirs b c s = Inr (c, s1)"
  | (missing) e where "parseredirs b c s = Inl e"
  | (more) s1 tok x s2 f s3 d where "peek b s ''<>'' = (True, s1)" "gettoken b s1 = (tok, x, s2)" "gettoken b s2 = (CHR ''a'', f, s3)"
      "d = (if tok = CHR ''<'' then REDIR c f O_RDONLY 0 else REDIR c f (O_WRONLY + O_CREATE) 1)" "parseredirs b c s = parseredirs b d s3"
proof (cases "peek b s ''<>''")
  case (Pair p s1)
  obtain tok x s2 where g: "gettoken b s1 = (tok, x, s2)" by (cases "gettoken b s1")
  obtain w f s3 where h: "gettoken b s2 = (w, f, s3)" by (cases "gettoken b s2")
  show ?thesis
  proof (cases p)
    case False
    then show ?thesis using none Pair parseredirs_none by simp
  next
    case True
    show ?thesis
    proof (cases "w = CHR ''a''")
      case w: True
      show ?thesis using more [of s1 tok x s2 f s3] Pair True g h w parseredirs_step [of b s s1 tok x s2 f s3 c] by simp
    next
      case False
      show ?thesis by (rule missing) (use Pair True g h False in \<open>simp add: parseredirs.simps [of b c s]\<close>)
    qed
  qed
qed

lemma parseredirs_adv: "parseredirs b c s = Inr (c', s') \<Longrightarrow> adv b s s'"
proof (induction "length b - s" arbitrary: c s rule: less_induct)
  case less
  show ?case
  proof (cases rule: parseredirs_cases [of b s c])
    case (none s1)
    then show ?thesis using less.prems peek_adv [OF none(1)] by simp
  next
    case (missing e)
    then show ?thesis using less.prems by simp
  next
    case (more s1 tok x s2 f s3 d)
    have "length b - s3 < length b - s" using redir_advances [OF more(1-3) [symmetric]] .
    then have "adv b s3 s'" using less.hyps [of s3 d] more less.prems by simp
    then show ?thesis using peek_adv [OF more(1)] token_adv [OF more(2)] token_adv [OF more(3)] adv_trans by blast
  qed
qed

lemma arg_advances:
  assumes "(False, s1) = peek b s toks" "(CHR ''a'', a, s2) = gettoken b s1" "parseredirs b c s2 = Inr (c', s3)"
  shows "length b - s3 < length b - s"
proof -
  have "s < s2 \<and> s < length b" by (rule exec_advances [of "CHR ''a''" a s2 b s toks]) (use assms in \<open>auto simp: NUL_def simp flip: assms(1)\<close>)
  moreover have "s2 \<le> s3" using parseredirs_adv [OF assms(3)] by (simp add: adv_def)
  ultimately show ?thesis by linarith
qed

function parseexec_loop :: "string \<Rightarrow> cmd \<Rightarrow> nat \<Rightarrow> nat \<Rightarrow> (cmd \<times> nat) res" where
  "parseexec_loop b ret argc s =
     (case peek b s ''|)&;'' of
        (True, s1) \<Rightarrow> Inr (ret, s1)
      | (False, s1) \<Rightarrow>
          (case gettoken b s1 of (tok, a, s2) \<Rightarrow>
             if tok = NUL then Inr (ret, s2)
             else if tok \<noteq> CHR ''a'' then Inl ''syntax''
             else if MAXARGS \<le> argc + 1 then Inl ''too many args''
             else (case parseredirs b (add_arg ret a) s2 of
                     Inl e \<Rightarrow> Inl e
                   | Inr (ret', s3) \<Rightarrow> parseexec_loop b ret' (argc + 1) s3)))"
  by pat_completeness auto
termination
  by (relation "measure (\<lambda>(b, ret, argc, s). length b - s)") (auto dest: arg_advances)

declare parseexec_loop.simps [simp del]

function back_loop :: "string \<Rightarrow> cmd \<Rightarrow> nat \<Rightarrow> cmd \<times> nat" where
  "back_loop b c s =
     (case peek b s ''&'' of
        (True, s1) \<Rightarrow> (case gettoken b s1 of (_, _, s2) \<Rightarrow> back_loop b (BACK c) s2)
      | (False, s1) \<Rightarrow> (c, s1))"
  by pat_completeness auto
termination
  by (relation "measure (\<lambda>(b, c, s). length b - s)") (auto dest: back_advances)

declare back_loop.simps [simp del]

text \<open>Calls that may run out of depth.\<close>

definition obind :: "'a res option \<Rightarrow> ('a \<Rightarrow> 'b res option) \<Rightarrow> 'b res option" where
  "obind m f = (case m of None \<Rightarrow> None | Some (Inl e) \<Rightarrow> Some (Inl e) | Some (Inr x) \<Rightarrow> f x)"

fun parseline :: "nat \<Rightarrow> string \<Rightarrow> nat \<Rightarrow> (cmd \<times> nat) res option"
  and parsepipe :: "nat \<Rightarrow> string \<Rightarrow> nat \<Rightarrow> (cmd \<times> nat) res option"
  and parseblock :: "nat \<Rightarrow> string \<Rightarrow> nat \<Rightarrow> (cmd \<times> nat) res option"
  and parseexec :: "nat \<Rightarrow> string \<Rightarrow> nat \<Rightarrow> (cmd \<times> nat) res option" where
  "parseline 0 b s = None"
| "parsepipe 0 b s = None"
| "parseblock 0 b s = None"
| "parseexec 0 b s = None"
| "parseline (Suc n) b s =
     obind (parsepipe n b s) (\<lambda>(c, s1).
     case back_loop b c s1 of (c, s2) \<Rightarrow>
     case peek b s2 '';'' of
       (False, s3) \<Rightarrow> Some (Inr (c, s3))
     | (True, s3) \<Rightarrow> (case gettoken b s3 of (_, _, s4) \<Rightarrow> obind (parseline n b s4) (\<lambda>(d, s5). Some (Inr (LIST c d, s5)))))"
| "parsepipe (Suc n) b s =
     obind (parseexec n b s) (\<lambda>(c, s1).
     case peek b s1 ''|'' of
       (False, s2) \<Rightarrow> Some (Inr (c, s2))
     | (True, s2) \<Rightarrow> (case gettoken b s2 of (_, _, s3) \<Rightarrow> obind (parsepipe n b s3) (\<lambda>(d, s4). Some (Inr (PIPE c d, s4)))))"
| "parseblock (Suc n) b s =
     (case peek b s ''('' of
        (False, s1) \<Rightarrow> Some (Inl ''parseblock'')
      | (True, s1) \<Rightarrow>
          (case gettoken b s1 of (_, _, s2) \<Rightarrow>
           obind (parseline n b s2) (\<lambda>(c, s3).
           case peek b s3 '')'' of
             (False, s4) \<Rightarrow> Some (Inl ''syntax - missing )'')
           | (True, s4) \<Rightarrow> (case gettoken b s4 of (_, _, s5) \<Rightarrow> Some (parseredirs b c s5)))))"
| "parseexec (Suc n) b s =
     (case peek b s ''('' of
        (True, s1) \<Rightarrow> parseblock n b s1
      | (False, s1) \<Rightarrow> Some (rbind (parseredirs b (EXEC []) s1) (\<lambda>(ret, s2). parseexec_loop b ret 0 s2)))"

text \<open>\<open>nulterminate\<close> writes a zero byte after every string of the command.\<close>

fun nulterminate :: "cmd \<Rightarrow> string \<Rightarrow> string" where
  "nulterminate (EXEC as) b = fold (\<lambda>(q, eq) b. b[eq := NUL]) as b"
| "nulterminate (REDIR c (q, eq) m fd) b = (nulterminate c b)[eq := NUL]"
| "nulterminate (PIPE l r) b = nulterminate r (nulterminate l b)"
| "nulterminate (LIST l r) b = nulterminate r (nulterminate l b)"
| "nulterminate (BACK c) b = nulterminate c b"

definition parsecmd :: "string \<Rightarrow> (cmd \<times> string) res option" where
  "parsecmd b =
     obind (parseline (4 * length b + 4) b 0) (\<lambda>(c, s).
     if snd (peek b s '''') \<noteq> length b then Some (Inl ''syntax'') else Some (Inr (c, nulterminate c (b @ [NUL]))))"

end
