(* ===== verification/XvShProps.thy ===== *)
theory XvShProps
  imports XvSh
begin

text \<open>
  The shell's parser always returns, the strings of a parsed command are words of the line that
  \<open>nulterminate\<close> ends correctly in place, and every command is parsed back from its text.
\<close>

subsection \<open>Termination\<close>

lemma obind_None: "obind m f = None \<longleftrightarrow> m = None \<or> (\<exists>x. m = Some (Inr x) \<and> f x = None)"
  by (auto simp: obind_def split: option.splits sum.splits)

lemma obind_Inr: "obind m f = Some (Inr y) \<longleftrightarrow> (\<exists>x. m = Some (Inr x) \<and> f x = Some (Inr y))"
  by (auto simp: obind_def split: option.splits sum.splits)

lemma obind_simps [simp]: "obind (Some (Inr x)) f = f x" "obind (Some (Inl e)) f = Some (Inl e)" "obind None f = None"
  by (simp_all add: obind_def)

lemma back_loop_adv: "back_loop b c s = (c', s') \<Longrightarrow> adv b s s'"
proof (induction "length b - s" arbitrary: c s rule: less_induct)
  case less
  obtain p s1 where p: "peek b s ''&'' = (p, s1)" by (cases "peek b s ''&''")
  obtain tok x s2 where g: "gettoken b s1 = (tok, x, s2)" by (cases "gettoken b s1")
  show ?case
  proof (cases p)
    case True
    have "length b - s2 < length b - s" using back_advances [of s1 b s "''&''" tok x s2] p g True by simp
    then have "adv b s2 s'" using less.hyps [of s2 "BACK c"] less.prems p g True by (simp add: back_loop.simps [of b c s])
    then show ?thesis using peek_adv [OF p] token_adv [OF g] adv_trans by blast
  next
    case False
    then show ?thesis using less.prems p peek_adv [OF p] by (simp add: back_loop.simps [of b c s])
  qed
qed

lemma parseexec_loop_adv: "parseexec_loop b r k s = Inr (c', s') \<Longrightarrow> adv b s s'"
proof (induction "length b - s" arbitrary: r k s rule: less_induct)
  case less
  obtain p s1 where p: "peek b s ''|)&;'' = (p, s1)" by (cases "peek b s ''|)&;''")
  obtain tok a s2 where g: "gettoken b s1 = (tok, a, s2)" by (cases "gettoken b s1")
  have ad: "adv b s s1" "adv b s s2" using peek_adv [OF p] adv_trans token_adv [OF g] by blast+
  show ?case
  proof (cases "p \<or> tok = NUL")
    case True
    then show ?thesis using less.prems p g ad by (auto simp: parseexec_loop.simps [of b r k s] split: bool.splits)
  next
    case False
    then obtain r' s3 where t: "tok = CHR ''a''" "parseredirs b (add_arg r a) s2 = Inr (r', s3)" "parseexec_loop b r' (k + 1) s3 = Inr (c', s')"
      using less.prems p g by (auto simp: parseexec_loop.simps [of b r k s] split: if_splits sum.splits)
    have "length b - s3 < length b - s" using arg_advances [of s1 b s "''|)&;''" a s2] p g t False by simp
    then have "adv b s3 s'" using less.hyps t(3) by blast
    then show ?thesis using ad(2) parseredirs_adv [OF t(2)] adv_trans by blast
  qed
qed

lemma parse_adv:
  "parseline n b s = Some (Inr (c, s')) \<Longrightarrow> adv b s s'"
  "parsepipe n b s = Some (Inr (c, s')) \<Longrightarrow> adv b s s'"
  "parseblock n b s = Some (Inr (c, s')) \<Longrightarrow> adv b s s'"
  "parseexec n b s = Some (Inr (c, s')) \<Longrightarrow> adv b s s'"
proof (induction n arbitrary: s c s')
  case (Suc n)
  {
    case 1
    then obtain c1 s1 where a: "parsepipe n b s = Some (Inr (c1, s1))" by (auto simp: obind_Inr)
    obtain c2 s2 where k: "back_loop b c1 s1 = (c2, s2)" by (cases "back_loop b c1 s1")
    obtain p s3 where p: "peek b s2 '';'' = (p, s3)" by (cases "peek b s2 '';''")
    obtain tok x s4 where g: "gettoken b s3 = (tok, x, s4)" by (cases "gettoken b s3")
    have "adv b s s3" using Suc.IH(2) [OF a] back_loop_adv [OF k] peek_adv [OF p] adv_trans by blast
    moreover have "adv b s s4" using calculation token_adv [OF g] adv_trans by blast
    ultimately show ?case using 1 a k p g Suc.IH(1) [of s4] adv_trans [of b s s4] by (cases p) (auto simp: obind_Inr)
  next
    case 2
    then obtain c1 s1 where a: "parseexec n b s = Some (Inr (c1, s1))" by (auto simp: obind_Inr)
    obtain p s2 where p: "peek b s1 ''|'' = (p, s2)" by (cases "peek b s1 ''|''")
    obtain tok x s3 where g: "gettoken b s2 = (tok, x, s3)" by (cases "gettoken b s2")
    have "adv b s s2" using Suc.IH(4) [OF a] peek_adv [OF p] adv_trans by blast
    moreover have "adv b s s3" using calculation token_adv [OF g] adv_trans by blast
    ultimately show ?case using 2 a p g Suc.IH(2) [of s3] adv_trans [of b s s3] by (cases p) (auto simp: obind_Inr)
  next
    case 3
    obtain p s1 where p: "peek b s ''('' = (p, s1)" by (cases "peek b s ''(''")
    obtain tok x s2 where g: "gettoken b s1 = (tok, x, s2)" by (cases "gettoken b s1")
    have t: "p" using 3 p by (cases p) auto
    then obtain c3 s3 where l: "parseline n b s2 = Some (Inr (c3, s3))" using 3 p g by (auto simp: obind_Inr)
    obtain p' s4 where p': "peek b s3 '')'' = (p', s4)" by (cases "peek b s3 '')''")
    obtain tok' x' s5 where g': "gettoken b s4 = (tok', x', s5)" by (cases "gettoken b s4")
    have "adv b s s3" using peek_adv [OF p] token_adv [OF g] Suc.IH(1) [OF l] adv_trans by blast
    then have "adv b s s5" using peek_adv [OF p'] token_adv [OF g'] adv_trans by blast
    then show ?case using 3 p g t l p' g' parseredirs_adv [of b c3 s5] adv_trans [of b s s5] by (cases p') auto
  next
    case 4
    obtain p s1 where p: "peek b s ''('' = (p, s1)" by (cases "peek b s ''(''")
    note a = peek_adv [OF p]
    show ?case
    proof (cases p)
      case True
      then show ?thesis using 4 p Suc.IH(3) adv_trans [OF a] by simp
    next
      case False
      then obtain r s2 where r: "parseredirs b (EXEC []) s1 = Inr (r, s2)" "parseexec_loop b r 0 s2 = Inr (c, s')"
        using 4 p by (auto simp: rbind_eq_Inr)
      show ?thesis using a parseredirs_adv [OF r(1)] parseexec_loop_adv [OF r(2)] adv_trans by blast
    qed
  }
qed auto

lemma parse_enough:
  "4 * (length b - s) + 4 \<le> n \<Longrightarrow> parseline n b s \<noteq> None"
  "4 * (length b - s) + 3 \<le> n \<Longrightarrow> parsepipe n b s \<noteq> None"
  "4 * (length b - s) + 1 \<le> n \<Longrightarrow> parseblock n b s \<noteq> None"
  "4 * (length b - s) + 2 \<le> n \<Longrightarrow> parseexec n b s \<noteq> None"
proof (induction n arbitrary: s)
  case (Suc n)
  {
    case 1
    have "parseline n b s4 \<noteq> None" if "parsepipe n b s = Some (Inr (c1, s1))" "back_loop b c1 s1 = (c2, s2)" "peek b s2 '';'' = (True, s3)"
      "gettoken b s3 = (tok, x, s4)" for c1 s1 c2 s2 s3 tok x s4
    proof -
      have "s \<le> s2" using parse_adv(2) [OF that(1)] back_loop_adv [OF that(2)] by (simp add: adv_def)
      moreover have "length b - s4 < length b - s2" using back_advances that(3,4) by metis
      ultimately show ?thesis using 1 by (intro Suc.IH(1)) linarith
    qed
    moreover have "parsepipe n b s \<noteq> None" using 1 by (intro Suc.IH(2)) simp
    ultimately show ?case by (auto simp: obind_None simp del: not_None_eq split: prod.splits bool.splits)
  next
    case 2
    have "parsepipe n b s3 \<noteq> None" if "parseexec n b s = Some (Inr (c1, s1))" "peek b s1 ''|'' = (True, s2)" "gettoken b s2 = (tok, x, s3)"
      for c1 s1 s2 tok x s3
    proof -
      have "s \<le> s1" using parse_adv(4) [OF that(1)] by (simp add: adv_def)
      moreover have "length b - s3 < length b - s1" using back_advances that(2,3) by metis
      ultimately show ?thesis using 2 by (intro Suc.IH(2)) linarith
    qed
    moreover have "parseexec n b s \<noteq> None" using 2 by (intro Suc.IH(4)) simp
    ultimately show ?case by (auto simp: obind_None simp del: not_None_eq split: prod.splits bool.splits)
  next
    case 3
    have "parseline n b s2 \<noteq> None" if "peek b s ''('' = (True, s1)" "gettoken b s1 = (tok, x, s2)" for s1 tok x s2
    proof -
      have "length b - s2 < length b - s" using back_advances that by metis
      then show ?thesis using 3 by (intro Suc.IH(1)) linarith
    qed
    then show ?case by (auto simp: obind_None simp del: not_None_eq split: prod.splits bool.splits)
  next
    case 4
    have "parseblock n b s1 \<noteq> None" if "peek b s ''('' = (True, s1)" for s1
      using peek_True [OF that] 4 by (intro Suc.IH(3)) linarith
    then show ?case by (auto split: prod.splits bool.splits)
  }
qed auto

subsection \<open>The strings of a command\<close>

definition slice :: "string \<Rightarrow> strpos \<Rightarrow> string" where
  "slice b p = take (snd p - fst p) (drop (fst p) b)"

text \<open>A string of the command is a maximal run of word characters of the line.\<close>

definition word_at :: "string \<Rightarrow> strpos \<Rightarrow> bool" where
  "word_at b p \<longleftrightarrow> fst p < snd p \<and> snd p \<le> length b \<and> (\<forall>i. fst p \<le> i \<and> i < snd p \<longrightarrow> word_char (b ! i)) \<and>
     \<not> (snd p < length b \<and> word_char (b ! snd p))"

fun cmd_ok :: "string \<Rightarrow> cmd \<Rightarrow> bool" where
  "cmd_ok b (EXEC as) \<longleftrightarrow> length as < MAXARGS \<and> (\<forall>a\<in>set as. word_at b a)"
| "cmd_ok b (REDIR c f m fd) \<longleftrightarrow> cmd_ok b c \<and> word_at b f \<and> (m, fd) \<in> {(O_RDONLY, 0), (O_WRONLY + O_CREATE, 1)}"
| "cmd_ok b (PIPE l r) \<longleftrightarrow> cmd_ok b l \<and> cmd_ok b r"
| "cmd_ok b (LIST l r) \<longleftrightarrow> cmd_ok b l \<and> cmd_ok b r"
| "cmd_ok b (BACK c) \<longleftrightarrow> cmd_ok b c"

lemma skip_word:
  assumes "q < length b" "word_char (b ! q)"
  shows "word_at b (q, skip word_char b q)"
proof -
  let ?w = "takeWhile word_char (drop q b)"
  have l: "length ?w \<le> length b - q" using length_takeWhile_le [of word_char "drop q b"] by simp
  have "word_char (b ! i)" if "q \<le> i" "i < q + length ?w" for i
  proof -
    have "?w ! (i - q) = b ! i" using that l takeWhile_nth [of "i - q" word_char "drop q b"] by simp
    moreover have "?w ! (i - q) \<in> set ?w" using that by (intro nth_mem) linarith
    ultimately show ?thesis by (metis set_takeWhileD)
  qed
  moreover have "\<not> word_char (b ! (q + length ?w))" if "q + length ?w < length b"
    using that nth_length_takeWhile [of word_char "drop q b"] by simp
  moreover have "q < skip word_char b q" using skip_gt [of q b word_char] assms by simp
  ultimately show ?thesis using l assms(1) by (auto simp: word_at_def skip_def)
qed

lemma word_token:
  assumes "gettoken b s = (CHR ''a'', p, s')"
  shows "word_at b p"
proof -
  let ?q = "skip (strchr whitespace) b s"
  have nz: "at b ?q \<noteq> NUL" "at b ?q \<notin> set ''|();&<''" "at b ?q \<noteq> CHR ''>''" "p = (?q, skip word_char b ?q)"
    using assms by (auto simp: gettoken_def Let_def NUL_def split: if_splits)
  have l: "?q < length b" using at_NUL [OF nz(1)] .
  have "\<not> strchr whitespace (b ! ?q)" using skip_gt [OF l, of "strchr whitespace"] by (auto simp: skip_idem)
  then have "word_char (b ! ?q)" using nz l by (auto simp: word_char_def strchr_def symbols_def at_def)
  then show ?thesis using skip_word [OF l] nz(4) by simp
qed

text \<open>The number of arguments of the innermost command.\<close>

fun nargs :: "cmd \<Rightarrow> nat option" where
  "nargs (EXEC as) = Some (length as)"
| "nargs (REDIR c f m fd) = nargs c"
| "nargs c = None"

lemma parseredirs_cmd_ok:
  "parseredirs b c s = Inr (c', s') \<Longrightarrow> cmd_ok b c \<Longrightarrow> cmd_ok b c' \<and> nargs c' = nargs c"
proof (induction "length b - s" arbitrary: c s rule: less_induct)
  case less
  show ?case
  proof (cases rule: parseredirs_cases [of b s c])
    case (none s1)
    then show ?thesis using less.prems by simp
  next
    case (missing e)
    then show ?thesis using less.prems by simp
  next
    case (more s1 tok x s2 f s3 d)
    have "length b - s3 < length b - s" using redir_advances [OF more(1-3) [symmetric]] .
    moreover have "cmd_ok b d" "nargs d = nargs c" using more(4) less.prems(2) word_token [OF more(3)] by auto
    ultimately show ?thesis using less.hyps [of s3 d] more(5) less.prems(1) by simp
  qed
qed

lemma add_arg_ok:
  "cmd_ok b c \<Longrightarrow> nargs c = Some k \<Longrightarrow> Suc k < MAXARGS \<Longrightarrow> word_at b a \<Longrightarrow> cmd_ok b (add_arg c a) \<and> nargs (add_arg c a) = Some (Suc k)"
  by (induction c) auto

lemma parseexec_loop_cmd_ok:
  "parseexec_loop b r k s = Inr (c', s') \<Longrightarrow> cmd_ok b r \<Longrightarrow> nargs r = Some k \<Longrightarrow> cmd_ok b c'"
proof (induction "length b - s" arbitrary: r k s rule: less_induct)
  case less
  obtain p s1 where p: "peek b s ''|)&;'' = (p, s1)" by (cases "peek b s ''|)&;''")
  obtain tok a s2 where g: "gettoken b s1 = (tok, a, s2)" by (cases "gettoken b s1")
  show ?case
  proof (cases "p \<or> tok = NUL")
    case True
    then show ?thesis using less.prems p g by (auto simp: parseexec_loop.simps [of b r k s] split: bool.splits)
  next
    case False
    then obtain r' s3 where t: "tok = CHR ''a''" "Suc k < MAXARGS" "parseredirs b (add_arg r a) s2 = Inr (r', s3)" "parseexec_loop b r' (Suc k) s3 = Inr (c', s')"
      using less.prems p g by (auto simp: parseexec_loop.simps [of b r k s] split: if_splits sum.splits)
    have "length b - s3 < length b - s" using arg_advances [of s1 b s "''|)&;''" a s2] p g t False by simp
    moreover have "cmd_ok b r' \<and> nargs r' = Some (Suc k)"
      using parseredirs_cmd_ok [OF t(3)] add_arg_ok [OF less.prems(2,3) t(2) word_token [of b s1 a s2]] g t(1) by simp
    ultimately show ?thesis using less.hyps [of s3 r' "Suc k"] t(4) by simp
  qed
qed

lemma back_loop_cmd_ok: "back_loop b c s = (c', s') \<Longrightarrow> cmd_ok b c \<Longrightarrow> cmd_ok b c'"
proof (induction "length b - s" arbitrary: c s rule: less_induct)
  case less
  obtain p s1 where p: "peek b s ''&'' = (p, s1)" by (cases "peek b s ''&''")
  obtain tok x s2 where g: "gettoken b s1 = (tok, x, s2)" by (cases "gettoken b s1")
  show ?case
  proof (cases p)
    case True
    have "length b - s2 < length b - s" using back_advances [of s1 b s "''&''" tok x s2] p g True by simp
    then show ?thesis using less.hyps [of s2 "BACK c"] less.prems p g True by (simp add: back_loop.simps [of b c s])
  next
    case False
    then show ?thesis using less.prems p by (simp add: back_loop.simps [of b c s])
  qed
qed

lemma parse_cmd_ok:
  "parseline n b s = Some (Inr (c, s')) \<Longrightarrow> cmd_ok b c"
  "parsepipe n b s = Some (Inr (c, s')) \<Longrightarrow> cmd_ok b c"
  "parseblock n b s = Some (Inr (c, s')) \<Longrightarrow> cmd_ok b c"
  "parseexec n b s = Some (Inr (c, s')) \<Longrightarrow> cmd_ok b c"
proof (induction n arbitrary: s c s')
  case (Suc n)
  {
    case 1
    then obtain c1 s1 where a: "parsepipe n b s = Some (Inr (c1, s1))" by (auto simp: obind_Inr)
    obtain c2 s2 where k: "back_loop b c1 s1 = (c2, s2)" by (cases "back_loop b c1 s1")
    obtain p s3 where p: "peek b s2 '';'' = (p, s3)" by (cases "peek b s2 '';''")
    obtain tok x s4 where g: "gettoken b s3 = (tok, x, s4)" by (cases "gettoken b s3")
    have "cmd_ok b c2" using back_loop_cmd_ok [OF k] Suc.IH(2) [OF a] by simp
    then show ?case using 1 a k p g Suc.IH(1) [of s4] by (cases p) (auto simp: obind_Inr)
  next
    case 2
    then obtain c1 s1 where a: "parseexec n b s = Some (Inr (c1, s1))" by (auto simp: obind_Inr)
    obtain p s2 where p: "peek b s1 ''|'' = (p, s2)" by (cases "peek b s1 ''|''")
    obtain tok x s3 where g: "gettoken b s2 = (tok, x, s3)" by (cases "gettoken b s2")
    show ?case using 2 a p g Suc.IH(4) [OF a] Suc.IH(2) [of s3] by (cases p) (auto simp: obind_Inr)
  next
    case 3
    obtain p s1 where p: "peek b s ''('' = (p, s1)" by (cases "peek b s ''(''")
    obtain tok x s2 where g: "gettoken b s1 = (tok, x, s2)" by (cases "gettoken b s1")
    have t: "p" using 3 p by (cases p) auto
    then obtain c3 s3 where l: "parseline n b s2 = Some (Inr (c3, s3))" using 3 p g by (auto simp: obind_Inr)
    obtain p' s4 where p': "peek b s3 '')'' = (p', s4)" by (cases "peek b s3 '')''")
    obtain tok' x' s5 where g': "gettoken b s4 = (tok', x', s5)" by (cases "gettoken b s4")
    show ?case using 3 p g t l p' g' parseredirs_cmd_ok [of b c3 s5] Suc.IH(1) [OF l] by (cases p') auto
  next
    case 4
    have e: "cmd_ok b (EXEC [])" by (simp add: MAXARGS_def)
    obtain p s1 where p: "peek b s ''('' = (p, s1)" by (cases "peek b s ''(''")
    show ?case
    proof (cases p)
      case True
      then show ?thesis using 4 p Suc.IH(3) by simp
    next
      case False
      then obtain r s2 where r: "parseredirs b (EXEC []) s1 = Inr (r, s2)" "parseexec_loop b r 0 s2 = Inr (c, s')"
        using 4 p by (auto simp: rbind_eq_Inr)
      then show ?thesis using parseexec_loop_cmd_ok [OF r(2)] parseredirs_cmd_ok [OF r(1) e] by simp
    qed
  }
qed auto

text \<open>The text of a command, for a way to read its strings.\<close>

datatype scmd =
    SExec "string list"
  | SRedir scmd string nat nat
  | SPipe scmd scmd
  | SList scmd scmd
  | SBack scmd

fun text_of :: "(strpos \<Rightarrow> string) \<Rightarrow> cmd \<Rightarrow> scmd" where
  "text_of f (EXEC as) = SExec (map f as)"
| "text_of f (REDIR c p m fd) = SRedir (text_of f c) (f p) m fd"
| "text_of f (PIPE l r) = SPipe (text_of f l) (text_of f r)"
| "text_of f (LIST l r) = SList (text_of f l) (text_of f r)"
| "text_of f (BACK c) = SBack (text_of f c)"

text \<open>A string as the command sees it: from its first byte to the zero byte.\<close>

definition cstring :: "string \<Rightarrow> strpos \<Rightarrow> string" where
  "cstring buf p = takeWhile (\<lambda>c. c \<noteq> NUL) (drop (fst p) buf)"

fun strs :: "cmd \<Rightarrow> strpos set" where
  "strs (EXEC as) = set as"
| "strs (REDIR c p m fd) = insert p (strs c)"
| "strs (PIPE l r) = strs l \<union> strs r"
| "strs (LIST l r) = strs l \<union> strs r"
| "strs (BACK c) = strs c"

lemma text_of_cong: "(\<And>p. p \<in> strs c \<Longrightarrow> f p = g p) \<Longrightarrow> text_of f c = text_of g c"
  by (induction c) auto

lemma cmd_ok_strs: "cmd_ok b c \<Longrightarrow> p \<in> strs c \<Longrightarrow> word_at b p"
  by (induction c) auto

lemma fold_ends:
  "length (fold (\<lambda>(q, eq) b. b[eq := x]) as b) = length b \<and>
   (\<forall>i<length b. fold (\<lambda>(q, eq) b. b[eq := x]) as b ! i = (if i \<in> snd ` set as then x else b ! i))"
  by (induction as arbitrary: b) (auto simp: nth_list_update_if, (metis image_eqI snd_conv)+)

lemma nulterminate_nth:
  "length (nulterminate c b) = length b \<and> (\<forall>i<length b. nulterminate c b ! i = (if i \<in> snd ` strs c then NUL else b ! i))"
proof (induction c arbitrary: b)
  case (EXEC as)
  then show ?case using fold_ends [of NUL as b] by simp
next
  case (REDIR c p m fd)
  obtain q eq where "p = (q, eq)" by fastforce
  then show ?case using REDIR.IH [of b] by (simp add: nth_list_update_if)
next
  case (PIPE l r)
  then show ?case by (auto simp: image_Un)
next
  case (LIST l r)
  then show ?case by (auto simp: image_Un)
qed auto

lemma nulterminate_strings:
  assumes ok: "cmd_ok b c" and nz: "NUL \<notin> set b" and p: "p \<in> strs c"
  shows "cstring (nulterminate c (b @ [NUL])) p = slice b p"
proof -
  let ?n = "nulterminate c (b @ [NUL])"
  obtain q e where pe: "p = (q, e)" by fastforce
  have w: "word_at b (q, e)" using cmd_ok_strs [OF ok p] pe by simp
  then have le: "q < e" "e \<le> length b" by (auto simp: word_at_def)
  note n = nulterminate_nth [of c "b @ [NUL]"]
  have inside: "?n ! i = b ! i" if "q \<le> i" "i < e" for i
  proof -
    have "word_char (b ! i)" "i < length b" using w that by (auto simp: word_at_def)
    then have "i \<notin> snd ` strs c" using cmd_ok_strs [OF ok] by (force simp: word_at_def)
    then show ?thesis using n \<open>i < length b\<close> by (simp add: nth_append)
  qed
  have s: "slice b p = take (e - q) (drop q ?n)"
    by (rule nth_equalityI) (use le n inside pe in \<open>auto simp: slice_def\<close>)
  have "drop q ?n ! (e - q) = NUL" using n le p pe by (force simp: image_iff)
  moreover have "\<forall>x\<in>set (slice b p). x \<noteq> NUL" using nz by (auto simp: slice_def dest: in_set_takeD in_set_dropD)
  moreover have "drop q ?n = slice b p @ drop q ?n ! (e - q) # drop (Suc (e - q)) (drop q ?n)"
    unfolding s using le n by (intro id_take_nth_drop) simp
  ultimately show ?thesis unfolding cstring_def pe
    by (metis (mono_tags, lifting) fst_conv takeWhile_append2 takeWhile.simps(2) append_Nil2)
qed

text \<open>C22: the parser returns for every command line: it gives a command or one of its error messages.  In a command
  every string is a whole word of the line, without blanks or symbols, there are fewer than \<open>MAXARGS\<close> arguments, and
  after \<open>nulterminate\<close> the string that starts at each recorded position is exactly the word that was recognised.\<close>

theorem parsecmd_returns:
  assumes "NUL \<notin> set b"
  shows "\<exists>r. parsecmd b = Some r \<and>
    (\<forall>c buf. r = Inr (c, buf) \<longrightarrow> cmd_ok b c \<and> length buf = length b + 1 \<and> text_of (cstring buf) c = text_of (slice b) c)"
proof -
  obtain r where r: "parseline (4 * length b + 4) b 0 = Some r" using parse_enough(1) [of b 0] by fastforce
  then have "parsecmd b \<noteq> None" by (cases r) (auto simp: parsecmd_def split: prod.splits)
  then obtain r' where r': "parsecmd b = Some r'" by blast
  have "cmd_ok b c \<and> length buf = length b + 1 \<and> text_of (cstring buf) c = text_of (slice b) c" if "r' = Inr (c, buf)" for c buf
  proof -
    have "parsecmd b = Some (Inr (c, buf))" using r' that by simp
    then obtain s where s: "parseline (4 * length b + 4) b 0 = Some (Inr (c, s))" "buf = nulterminate c (b @ [NUL])"
      by (auto simp: parsecmd_def obind_Inr split: if_splits)
    have ok: "cmd_ok b c" using parse_cmd_ok(1) [OF s(1)] .
    show ?thesis using ok s(2) nulterminate_nth [of c "b @ [NUL]"] text_of_cong [OF nulterminate_strings [OF ok assms]] by simp
  qed
  then show ?thesis using r' by blast
qed

theorem parsecmd_returns_witness:
  "\<exists>r. parsecmd ''echo a (b'' = Some r"
  using parsecmd_returns [of "''echo a (b''"] by (auto simp: NUL_def)

end
