(* ===== verification/XvShTrip.thy ===== *)
theory XvShTrip
  imports XvShProps
begin

text \<open>
  The round trip of the shell's parser: a command printed as text, with parentheses where the grammar
  needs them, is parsed back to itself.
\<close>

subsection \<open>Printing commands\<close>

text \<open>Words, and a command as text: the level says which rule of the grammar a command needs, and parentheses
  make a block of it where a lower one is expected.\<close>

definition wordp :: "string \<Rightarrow> bool" where
  "wordp w \<longleftrightarrow> w \<noteq> [] \<and> (\<forall>c\<in>set w. word_char c \<and> c \<noteq> NUL)"

fun join :: "string list \<Rightarrow> string" where
  "join [] = []"
| "join (w # ws) = w @ (if ws = [] then [] else CHR '' '' # join ws)"

fun level :: "scmd \<Rightarrow> nat" where
  "level (SExec ws) = 0"
| "level (SRedir c f m fd) = 0"
| "level (SPipe a c) = 1"
| "level (SBack c) = 2"
| "level (SList a c) = 3"

definition par :: "nat \<Rightarrow> scmd \<Rightarrow> string \<Rightarrow> string" where
  "par l c x = (if level c \<le> l then x else CHR ''('' # x @ '')'')"

lemma par_le: "level c \<le> l \<Longrightarrow> par l c x = x"
  by (simp add: par_def)

fun raw :: "scmd \<Rightarrow> string" where
  "raw (SExec ws) = join ws"
| "raw (SRedir c f m fd) = par 0 c (raw c) @ (if m = O_RDONLY then CHR ''<'' else CHR ''>'') # f"
| "raw (SPipe a c) = par 0 a (raw a) @ CHR ''|'' # par 1 c (raw c)"
| "raw (SBack c) = par 2 c (raw c) @ ''&''"
| "raw (SList a c) = par 2 a (raw a) @ CHR '';'' # raw c"

fun scmd_ok :: "scmd \<Rightarrow> bool" where
  "scmd_ok (SExec ws) \<longleftrightarrow> length ws < MAXARGS \<and> (\<forall>w\<in>set ws. wordp w)"
| "scmd_ok (SRedir c f m fd) \<longleftrightarrow> scmd_ok c \<and> wordp f \<and> (m, fd) \<in> {(O_RDONLY, 0), (O_WRONLY + O_CREATE, 1)}"
| "scmd_ok (SPipe a c) \<longleftrightarrow> scmd_ok a \<and> scmd_ok c"
| "scmd_ok (SList a c) \<longleftrightarrow> scmd_ok a \<and> scmd_ok c"
| "scmd_ok (SBack c) \<longleftrightarrow> scmd_ok c"

subsection \<open>Tokens of printed text\<close>

definition follow_in :: "string \<Rightarrow> string \<Rightarrow> bool" where
  "follow_in cs r \<longleftrightarrow> r = [] \<or> hd r \<in> set cs"

definition plain :: "string \<Rightarrow> bool" where
  "plain r \<longleftrightarrow> r = [] \<or> \<not> strchr whitespace (hd r)"

lemma sym_chars:
  "c \<in> set ''|)&;<>('' \<Longrightarrow> \<not> strchr whitespace c \<and> \<not> word_char c \<and> c \<noteq> NUL"
  by (auto simp: strchr_def whitespace_def word_char_def symbols_def NUL_def)

lemma follow_plain: "follow_in cs r \<Longrightarrow> set cs \<subseteq> set ''|)&;<>('' \<Longrightarrow> plain r"
  unfolding follow_in_def plain_def using sym_chars by blast

lemma drop_Cons:
  assumes "drop s b = c # r"
  shows "at b s = c" "drop (Suc s) b = r" "s < length b"
proof -
  show l: "s < length b" using assms by (cases "s < length b") auto
  then show "at b s = c" "drop (Suc s) b = r" using assms by (auto simp: at_def Cons_nth_drop_Suc [symmetric])
qed

lemma skip_plain: "plain (drop s b) \<Longrightarrow> skip (strchr whitespace) b s = s"
  by (cases "drop s b") (auto simp: skip_def plain_def)

lemma drop_skip: "drop (skip P b s) b = dropWhile P (drop s b)"
  by (simp add: skip_def dropWhile_eq_drop add.commute)

lemma at_hd: "at b s = (if drop s b = [] then NUL else hd (drop s b))"
  by (simp add: at_def hd_drop_conv_nth)

lemma peek_plain:
  "plain (drop s b) \<Longrightarrow> peek b s toks = (drop s b \<noteq> [] \<and> hd (drop s b) \<noteq> NUL \<and> hd (drop s b) \<in> set toks, s)"
  using skip_plain [of s b] by (auto simp: peek_def at_hd strchr_def)

lemma token_sym:
  assumes "drop s b = c # r" "c \<in> set ''|();&<>''" "c = CHR ''>'' \<Longrightarrow> r \<noteq> [] \<and> hd r \<noteq> CHR ''>''" "plain r"
  shows "gettoken b s = (c, (s, Suc s), Suc s)"
proof -
  note d = drop_Cons [OF assms(1)]
  have p: "skip (strchr whitespace) b s = s" "skip (strchr whitespace) b (Suc s) = Suc s"
    using assms sym_chars [of c] skip_plain [of s b] skip_plain [of "Suc s" b] d(2) by (auto simp: plain_def)
  show ?thesis using assms(2,3) p d(1) at_hd [of b "Suc s"] d(2) by (auto simp: gettoken_def NUL_def)
qed

lemma wordp_hd: "wordp w \<Longrightarrow> word_char (hd w) \<and> \<not> strchr whitespace (hd w) \<and> hd w \<notin> set symbols \<and> hd w \<noteq> NUL"
  by (cases w) (auto simp: wordp_def word_char_def strchr_def)

lemma token_word:
  assumes "drop s b = w @ u" "wordp w" "u = [] \<or> \<not> word_char (hd u)"
  shows "\<exists>s'. gettoken b s = (CHR ''a'', (s, s + length w), s') \<and> drop s' b = dropWhile (strchr whitespace) u \<and>
    slice b (s, s + length w) = w"
proof -
  note h = wordp_hd [OF assms(2)]
  have ne: "drop s b \<noteq> []" "hd (drop s b) = hd w" using assms(1,2) by (auto simp: wordp_def)
  have p: "skip (strchr whitespace) b s = s" using skip_plain [of s b] ne h by (simp add: plain_def)
  have "takeWhile word_char (drop s b) = w"
    using assms by (cases u) (auto simp: wordp_def takeWhile_append)
  then have k: "skip word_char b s = s + length w" by (simp add: skip_def)
  have d: "drop (s + length w) b = u" using assms(1) by (metis append_eq_conv_conj drop_drop add.commute)
  have "at b s = hd w" using ne at_hd by simp
  then have "gettoken b s = (CHR ''a'', (s, s + length w), skip (strchr whitespace) b (s + length w))"
    using h p k by (auto simp: gettoken_def symbols_def)
  then show ?thesis using d assms(1) by (simp add: drop_skip slice_def)
qed

subsection \<open>Simple commands and redirections\<close>

text \<open>What is left of \<open>parseexec\<close> after some arguments: redirections, then further arguments.\<close>

definition pend :: "string \<Rightarrow> cmd \<Rightarrow> nat \<Rightarrow> nat \<Rightarrow> (cmd \<times> nat) res" where
  "pend b t k s = rbind (parseredirs b t s) (\<lambda>(ret, s2). parseexec_loop b ret k s2)"

lemma pend_end:
  assumes "drop s b = r" "follow_in ''|)&;'' r"
  shows "pend b t k s = Inr (t, s)" "parseredirs b t s = Inr (t, s)"
proof -
  have p: "plain (drop s b)" using follow_plain [OF assms(2)] assms(1) by auto
  show r: "parseredirs b t s = Inr (t, s)"
    using parseredirs_none [of b s s t] peek_plain [OF p, of "''<>''"] assms by (auto simp: follow_in_def)
  have "parseexec_loop b t k s = Inr (t, s)"
  proof (cases "r = []")
    case True
    have "gettoken b s = (NUL, (s, s), s)" using skip_plain [OF p] at_hd [of b s] True assms(1) by (simp add: gettoken_def)
    then show ?thesis using peek_plain [OF p, of "''|)&;''"] True assms(1) by (simp add: parseexec_loop.simps [of b t k s])
  next
    case False
    then have "peek b s ''|)&;'' = (True, s)" using peek_plain [OF p, of "''|)&;''"] assms sym_chars [of "hd r"] by (auto simp: follow_in_def)
    then show ?thesis by (simp add: parseexec_loop.simps [of b t k s])
  qed
  then show "pend b t k s = Inr (t, s)" using r by (simp add: pend_def)
qed

lemma redir_step:
  assumes "drop s b = c # f @ r" "c = CHR ''<'' \<or> c = CHR ''>''" "wordp f" "follow_in ''|)&;<>'' r"
  shows "\<exists>p s'. parseredirs b t s = parseredirs b (if c = CHR ''<'' then REDIR t p O_RDONLY 0 else REDIR t p (O_WRONLY + O_CREATE) 1) s' \<and>
    slice b p = f \<and> drop s' b = r"
proof -
  note d = drop_Cons [OF assms(1)] and h = wordp_hd [OF assms(3)]
  have pl: "plain (f @ r)" "f @ r \<noteq> []" "hd (f @ r) = hd f" "plain r" "r = [] \<or> \<not> word_char (hd r)"
    using assms(3,4) h follow_plain [OF assms(4)] sym_chars [of "hd r"] by (auto simp: plain_def wordp_def follow_in_def)
  have "plain (drop s b)" using assms(1,2) sym_chars [of c] by (auto simp: plain_def)
  then have pk: "peek b s ''<>'' = (True, s)" using peek_plain [of s b "''<>''"] assms(1,2) by (auto simp: NUL_def)
  have g: "gettoken b s = (c, (s, Suc s), Suc s)"
    by (rule token_sym [OF assms(1)]) (use assms(2) pl h in \<open>auto simp: symbols_def\<close>)
  obtain s' where s': "gettoken b (Suc s) = (CHR ''a'', (Suc s, Suc s + length f), s')" "drop s' b = dropWhile (strchr whitespace) r"
      "slice b (Suc s, Suc s + length f) = f"
    using token_word [OF d(2) assms(3) pl(5)] by blast
  have "dropWhile (strchr whitespace) r = r" using pl(4) by (cases r) (auto simp: plain_def)
  then show ?thesis using parseredirs_step [OF pk g s'(1), of t] s' by auto
qed

lemma args_step:
  "drop s b = join ws @ r \<Longrightarrow> follow_in ''|)&;<>'' r \<Longrightarrow> \<forall>w\<in>set ws. wordp w \<Longrightarrow> length as + length ws < MAXARGS \<Longrightarrow>
   \<exists>bs s'. pend b (EXEC as) (length as) s = pend b (EXEC (as @ bs)) (length as + length ws) s' \<and> map (slice b) bs = ws \<and> drop s' b = r"
proof (induction ws arbitrary: as s)
  case (Cons w ws)
  let ?u = "(if ws = [] then [] else CHR '' '' # join ws) @ r"
  have w: "wordp w" using Cons.prems(3) by simp
  note h = wordp_hd [OF w]
  have d: "drop s b = w @ ?u" using Cons.prems(1) by simp
  have sp: "strchr whitespace (CHR '' '')" "\<not> word_char (CHR '' '')" by (auto simp: strchr_def whitespace_def word_char_def)
  have u: "?u = [] \<or> \<not> word_char (hd ?u)" using Cons.prems(2) sp sym_chars [of "hd r"] by (auto simp: follow_in_def)
  have pr: "plain r" using follow_plain [OF Cons.prems(2)] by auto
  have dw: "dropWhile (strchr whitespace) ?u = join ws @ r"
  proof (cases ws)
    case Nil
    then show ?thesis using pr by (cases r) (auto simp: plain_def)
  next
    case (Cons v vs)
    then show ?thesis using sp wordp_hd [of v] Cons.prems(3) by (cases v) (auto simp: wordp_def)
  qed
  obtain s2 where g: "gettoken b s = (CHR ''a'', (s, s + length w), s2)" "drop s2 b = join ws @ r" "slice b (s, s + length w) = w"
    using token_word [OF d w u] dw by auto
  have ne: "drop s b \<noteq> []" "hd (drop s b) = hd w" using d w by (auto simp: wordp_def)
  then have p: "plain (drop s b)" using h by (simp add: plain_def)
  have "peek b s ''<>'' = (False, s)" "peek b s ''|)&;'' = (False, s)"
    using peek_plain [OF p] ne h by (auto simp: symbols_def)
  then have e: "pend b (EXEC as) (length as) s = pend b (EXEC (as @ [(s, s + length w)])) (Suc (length as)) s2"
    using parseredirs_none [of b s s "EXEC as"] g(1) Cons.prems(4)
    by (auto simp: pend_def parseexec_loop.simps [of b _ "length as" s] NUL_def split: sum.splits)
  obtain bs s' where "pend b (EXEC ((as @ [(s, s + length w)]) @ bs)) (Suc (length as) + length ws) s' =
      pend b (EXEC (as @ [(s, s + length w)])) (Suc (length as)) s2" "map (slice b) bs = ws" "drop s' b = r"
    using Cons.IH [OF g(2) Cons.prems(2), of "as @ [(s, s + length w)]"] Cons.prems(3,4) by auto
  then show ?case using e g(3) by (intro exI [of _ "(s, s + length w) # bs"] exI [of _ s']) simp
qed auto

subsection \<open>More depth changes nothing\<close>

lemma obind_mono: "obind m f = Some x \<Longrightarrow> (\<And>y. m = Some y \<Longrightarrow> m' = Some y) \<Longrightarrow> (\<And>y z. f y = Some z \<Longrightarrow> f' y = Some z) \<Longrightarrow> obind m' f' = Some x"
  by (auto simp: obind_def split: option.splits sum.splits)

lemma parse_Suc:
  "parseline n b s = Some x \<Longrightarrow> parseline (Suc n) b s = Some x"
  "parsepipe n b s = Some x \<Longrightarrow> parsepipe (Suc n) b s = Some x"
  "parseblock n b s = Some x \<Longrightarrow> parseblock (Suc n) b s = Some x"
  "parseexec n b s = Some x \<Longrightarrow> parseexec (Suc n) b s = Some x"
proof (induction n arbitrary: s x)
  case (Suc n)
  note m = obind_mono
  {
    case 1
    show ?case using 1 unfolding parseline.simps(2) [of "Suc n"] parseline.simps(2) [of n]
      by (rule m) (use Suc.IH in \<open>auto split: prod.splits bool.splits elim!: m\<close>)
  next
    case 2
    show ?case using 2 unfolding parsepipe.simps(2) [of "Suc n"] parsepipe.simps(2) [of n]
      by (rule m) (use Suc.IH in \<open>auto split: prod.splits bool.splits elim!: m\<close>)
  next
    case 3
    show ?case using 3 unfolding parseblock.simps(2) [of "Suc n"] parseblock.simps(2) [of n]
      by (auto split: prod.splits bool.splits elim!: m simp del: parseline.simps simp: Suc.IH)
  next
    case 4
    show ?case using 4 unfolding parseexec.simps(2) [of "Suc n"] parseexec.simps(2) [of n]
      by (auto split: prod.splits bool.splits simp del: parseblock.simps simp: Suc.IH)
  }
qed auto

lemma parse_mono:
  assumes "n \<le> m"
  shows "parseline n b s = Some x \<Longrightarrow> parseline m b s = Some x"
    "parsepipe n b s = Some x \<Longrightarrow> parsepipe m b s = Some x"
    "parseexec n b s = Some x \<Longrightarrow> parseexec m b s = Some x"
  using assms by (induction m rule: dec_induct) (blast intro: parse_Suc)+

subsection \<open>The rules of the grammar\<close>

lemma exec_rule:
  assumes "drop s b = join ws @ r" "follow_in ''|)&;<>'' r" "length ws < MAXARGS" "\<forall>w\<in>set ws. wordp w"
  shows "\<exists>t k s'. parseexec 1 b s = Some (pend b t k s') \<and> text_of (slice b) t = SExec ws \<and> drop s' b = r"
proof -
  have hd: "hd (join ws @ r) = hd (hd ws)" "hd ws \<noteq> []" "join ws \<noteq> []" if "ws \<noteq> []"
    using that assms(4) by (cases ws; auto simp: wordp_def)+
  have p: "plain (drop s b)"
  proof (cases "ws = []")
    case True
    then show ?thesis using follow_plain [OF assms(2)] assms(1) by auto
  next
    case False
    then show ?thesis using hd [OF False] wordp_hd [of "hd ws"] assms(1,4) by (auto simp: plain_def)
  qed
  have "drop s b \<noteq> [] \<Longrightarrow> hd (drop s b) \<noteq> CHR ''(''"
    using hd wordp_hd [of "hd ws"] assms by (cases "ws = []") (auto simp: follow_in_def symbols_def)
  then have "peek b s ''('' = (False, s)" using peek_plain [OF p, of "''(''"] by auto
  then have e: "parseexec 1 b s = Some (pend b (EXEC []) 0 s)" by (simp add: pend_def)
  obtain bs s' where "pend b (EXEC []) 0 s = pend b (EXEC bs) (length ws) s'" "map (slice b) bs = ws" "drop s' b = r"
    using args_step [OF assms(1,2,4), of "[]"] assms(3) by auto
  then show ?thesis using e by (intro exI [of _ "EXEC bs"] exI [of _ "length ws"] exI [of _ s']) simp
qed

lemma block_rule:
  assumes "drop s b = CHR ''('' # x @ CHR '')'' # r" "plain (x @ CHR '')'' # r)" "plain r"
    and "parseline n b (Suc s) = Some (Inr (t, s1))" "drop s1 b = CHR '')'' # r"
  shows "\<exists>s'. parseexec (Suc (Suc n)) b s = Some (parseredirs b t s') \<and> drop s' b = r"
proof -
  have "plain (drop s b)" "plain (drop s1 b)" using assms(1,5) sym_chars by (auto simp: plain_def)
  then have p: "peek b s ''('' = (True, s)" "peek b s1 '')'' = (True, s1)"
    using peek_plain [of s b "''(''"] peek_plain [of s1 b "'')''"] assms(1,5) by (auto simp: NUL_def)
  have g: "gettoken b s = (CHR ''('', (s, Suc s), Suc s)" "gettoken b s1 = (CHR '')'', (s1, Suc s1), Suc s1)"
    using token_sym [OF assms(1)] token_sym [OF assms(5)] assms(2,3) by auto
  show ?thesis using p g assms(4) drop_Cons(2) [OF assms(5)] by (intro exI [of _ "Suc s1"]) simp
qed

lemma pipe_end:
  assumes "parseexec n b s = Some (Inr (t, s1))" "drop s1 b = r" "follow_in '')&;'' r"
  shows "parsepipe (Suc n) b s = Some (Inr (t, s1))"
proof -
  have p: "plain (drop s1 b)" using follow_plain [OF assms(3)] assms(2) by auto
  then have "peek b s1 ''|'' = (False, s1)" using peek_plain [OF p, of "''|''"] assms(2,3) by (auto simp: follow_in_def)
  then show ?thesis using assms(1) by simp
qed

lemma pipe_rule:
  assumes "parseexec n b s = Some (Inr (t, s1))" "drop s1 b = CHR ''|'' # x" "plain x"
    and "parsepipe n b (Suc s1) = Some (Inr (u, s2))"
  shows "parsepipe (Suc n) b s = Some (Inr (PIPE t u, s2))"
proof -
  have "plain (drop s1 b)" using assms(2) sym_chars by (auto simp: plain_def)
  then have "peek b s1 ''|'' = (True, s1)" using peek_plain [of s1 b "''|''"] assms(2) by (auto simp: NUL_def)
  moreover have "gettoken b s1 = (CHR ''|'', (s1, Suc s1), Suc s1)" using token_sym [OF assms(2)] assms(3) by auto
  ultimately show ?thesis using assms(1,4) by simp
qed

lemma back_step:
  assumes "drop s b = CHR ''&'' # r" "plain r"
  shows "back_loop b t s = back_loop b (BACK t) (Suc s)"
proof -
  have "plain (drop s b)" using assms(1) sym_chars by (auto simp: plain_def)
  then have "peek b s ''&'' = (True, s)" using peek_plain [of s b "''&''"] assms(1) by (auto simp: NUL_def)
  moreover have "gettoken b s = (CHR ''&'', (s, Suc s), Suc s)" using token_sym [OF assms(1)] assms(2) by auto
  ultimately show ?thesis by (simp add: back_loop.simps [of b t s])
qed

lemma back_end:
  assumes "follow_in '');'' (drop s b)"
  shows "back_loop b t s = (t, s)"
proof -
  have p: "plain (drop s b)" using follow_plain [OF assms] by auto
  then have "peek b s ''&'' = (False, s)" using peek_plain [OF p, of "''&''"] assms by (auto simp: follow_in_def)
  then show ?thesis by (simp add: back_loop.simps [of b t s])
qed

lemma line_end:
  assumes "parsepipe n b s = Some (Inr (t0, s0))" "back_loop b t0 s0 = back_loop b t s1" "drop s1 b = r" "follow_in '')'' r"
  shows "parseline (Suc n) b s = Some (Inr (t, s1))"
proof -
  have f: "follow_in '');'' (drop s1 b)" using assms(3,4) by (auto simp: follow_in_def)
  have p: "plain (drop s1 b)" using follow_plain [OF assms(4)] assms(3) by auto
  then have "peek b s1 '';'' = (False, s1)" using peek_plain [OF p, of "'';''"] assms(3,4) by (auto simp: follow_in_def)
  then show ?thesis using assms(1,2) back_end [OF f, of t] by simp
qed

lemma line_rule:
  assumes "parsepipe n b s = Some (Inr (t0, s0))" "back_loop b t0 s0 = back_loop b t s1" "drop s1 b = CHR '';'' # x" "plain x"
    and "parseline n b (Suc s1) = Some (Inr (u, s2))"
  shows "parseline (Suc n) b s = Some (Inr (LIST t u, s2))"
proof -
  have f: "follow_in '');'' (drop s1 b)" using assms(3) by (auto simp: follow_in_def)
  have "plain (drop s1 b)" using assms(3) sym_chars by (auto simp: plain_def)
  then have "peek b s1 '';'' = (True, s1)" using peek_plain [of s1 b "'';''"] assms(3) by (auto simp: NUL_def)
  moreover have "gettoken b s1 = (CHR '';'', (s1, Suc s1), Suc s1)" using token_sym [OF assms(3)] assms(4) by auto
  ultimately show ?thesis using assms(1,2,5) back_end [OF f, of t] by simp
qed

subsection \<open>The round trip\<close>

definition parses_exec :: "scmd \<Rightarrow> bool" where
  "parses_exec c \<longleftrightarrow> (\<forall>b s r. drop s b = par 0 c (raw c) @ r \<longrightarrow> follow_in ''|)&;<>'' r \<longrightarrow>
     (\<exists>n t s' x. parseexec n b s = Some x \<and> (x = parseredirs b t s' \<or> (\<exists>k. x = pend b t k s')) \<and> text_of (slice b) t = c \<and> drop s' b = r))"

definition parses_pipe :: "scmd \<Rightarrow> bool" where
  "parses_pipe c \<longleftrightarrow> (\<forall>b s r. drop s b = par 1 c (raw c) @ r \<longrightarrow> follow_in '')&;'' r \<longrightarrow>
     (\<exists>n t s'. parsepipe n b s = Some (Inr (t, s')) \<and> text_of (slice b) t = c \<and> drop s' b = r))"

definition parses_back :: "scmd \<Rightarrow> bool" where
  "parses_back c \<longleftrightarrow> (\<forall>b s r. drop s b = par 2 c (raw c) @ r \<longrightarrow> follow_in '')&;'' r \<longrightarrow>
     (\<exists>n t0 s0 t s'. parsepipe n b s = Some (Inr (t0, s0)) \<and> back_loop b t0 s0 = back_loop b t s' \<and> text_of (slice b) t = c \<and> drop s' b = r))"

definition parses_line :: "scmd \<Rightarrow> bool" where
  "parses_line c \<longleftrightarrow> (\<forall>b s r. drop s b = raw c @ r \<longrightarrow> follow_in '')'' r \<longrightarrow>
     (\<exists>n t s'. parseline n b s = Some (Inr (t, s')) \<and> text_of (slice b) t = c \<and> drop s' b = r))"

lemma plain_sym: "c \<in> set ''|)&;<>('' \<Longrightarrow> plain (c # r)"
  using sym_chars [of c] by (simp add: plain_def)

lemma raw_plain: "scmd_ok c \<Longrightarrow> plain r \<Longrightarrow> plain (par l c (raw c) @ r)"
proof (induction c arbitrary: l r)
  case (SExec ws)
  then show ?case using wordp_hd [of "hd ws"] by (cases ws) (auto simp: par_def plain_def wordp_def)
next
  case (SRedir c f m fd)
  have "plain (par 0 c (raw c) @ (if m = O_RDONLY then CHR ''<'' else CHR ''>'') # f @ r)"
    using SRedir by (intro SRedir.IH plain_sym) auto
  then show ?case by (simp add: par_def)
next
  case (SPipe a c)
  have "plain (par 0 a (raw a) @ CHR ''|'' # x)" for x using SPipe.prems by (intro SPipe.IH plain_sym) auto
  then show ?case using plain_sym [of "CHR ''(''"] by (simp add: par_def [of l])
next
  case (SList a c)
  have "plain (par 2 a (raw a) @ CHR '';'' # x)" for x using SList.prems by (intro SList.IH plain_sym) auto
  then show ?case using plain_sym [of "CHR ''(''"] by (simp add: par_def [of l])
next
  case (SBack c)
  have "plain (par 2 c (raw c) @ CHR ''&'' # x)" for x using SBack.prems by (intro SBack.IH plain_sym) auto
  then show ?case using plain_sym [of "CHR ''(''"] by (simp add: par_def [of l])
qed

lemma raw_plain': "scmd_ok c \<Longrightarrow> plain r \<Longrightarrow> plain (raw c @ r)"
  using raw_plain [of c r 3] by (cases c) (simp_all add: par_def)

lemma exec_done:
  assumes "parses_exec c" "drop s b = par 0 c (raw c) @ r" "follow_in ''|)&;'' r"
  shows "\<exists>n t s'. parseexec n b s = Some (Inr (t, s')) \<and> text_of (slice b) t = c \<and> drop s' b = r"
proof -
  have "follow_in ''|)&;<>'' r" using assms(3) by (auto simp: follow_in_def)
  then obtain n t s' x where "parseexec n b s = Some x" "x = parseredirs b t s' \<or> (\<exists>k. x = pend b t k s')" "text_of (slice b) t = c" "drop s' b = r"
    using assms(1,2) unfolding parses_exec_def by blast
  then show ?thesis using pend_end [of s' b r t] assms(3) by metis
qed

lemma exec_of_line:
  assumes "parses_line c" "scmd_ok c" "level c \<noteq> 0"
  shows "parses_exec c"
  unfolding parses_exec_def
proof (intro allI impI)
  fix b s r assume d: "drop s b = par 0 c (raw c) @ r" and f: "follow_in ''|)&;<>'' r"
  have e: "drop s b = CHR ''('' # raw c @ CHR '')'' # r" using d assms(3) by (simp add: par_def)
  have pl: "plain r" "plain (raw c @ CHR '')'' # r)" using follow_plain [OF f] raw_plain' [OF assms(2) plain_sym] by auto
  have "follow_in '')'' (CHR '')'' # r)" by (simp add: follow_in_def)
  then obtain n t s1 where "parseline n b (Suc s) = Some (Inr (t, s1))" "text_of (slice b) t = c" "drop s1 b = CHR '')'' # r"
    using assms(1) drop_Cons(2) [OF e] unfolding parses_line_def by blast
  then show "\<exists>n t s' x. parseexec n b s = Some x \<and> (x = parseredirs b t s' \<or> (\<exists>k. x = pend b t k s')) \<and> text_of (slice b) t = c \<and> drop s' b = r"
    using block_rule [OF e pl(2,1)] by blast
qed

lemma pipe_of_exec:
  assumes "parses_exec c" "level c \<noteq> 1"
  shows "parses_pipe c"
  unfolding parses_pipe_def
proof (intro allI impI)
  fix b s r assume d: "drop s b = par 1 c (raw c) @ r" and f: "follow_in '')&;'' r"
  have "drop s b = par 0 c (raw c) @ r" "follow_in ''|)&;'' r" using d f assms(2) by (auto simp: par_def follow_in_def)
  then show "\<exists>n t s'. parsepipe n b s = Some (Inr (t, s')) \<and> text_of (slice b) t = c \<and> drop s' b = r"
    using exec_done [OF assms(1)] pipe_end f by blast
qed

lemma back_of_pipe:
  assumes "parses_pipe c" "level c \<noteq> 2"
  shows "parses_back c"
  unfolding parses_back_def
proof (intro allI impI)
  fix b s r assume d: "drop s b = par 2 c (raw c) @ r" and f: "follow_in '')&;'' r"
  have "drop s b = par 1 c (raw c) @ r" using d assms(2) by (simp add: par_def)
  then show "\<exists>n t0 s0 t s'. parsepipe n b s = Some (Inr (t0, s0)) \<and> back_loop b t0 s0 = back_loop b t s' \<and> text_of (slice b) t = c \<and> drop s' b = r"
    using assms(1) f unfolding parses_pipe_def by blast
qed

lemma line_of_back:
  assumes "parses_back c" "level c \<le> 2"
  shows "parses_line c"
  unfolding parses_line_def
proof (intro allI impI)
  fix b s r assume d: "drop s b = raw c @ r" and f: "follow_in '')'' r"
  have "drop s b = par 2 c (raw c) @ r" "follow_in '')&;'' r" using d f assms(2) by (auto simp: par_def follow_in_def)
  then show "\<exists>n t s'. parseline n b s = Some (Inr (t, s')) \<and> text_of (slice b) t = c \<and> drop s' b = r"
    using assms(1) line_end f unfolding parses_back_def by blast
qed

lemma redir_parses:
  assumes c: "parses_exec c" and ok: "scmd_ok (SRedir c f m fd)"
  shows "parses_exec (SRedir c f m fd)"
  unfolding parses_exec_def
proof (intro allI impI)
  let ?o = "if m = O_RDONLY then CHR ''<'' else CHR ''>''"
  fix b s r assume d: "drop s b = par 0 (SRedir c f m fd) (raw (SRedir c f m fd)) @ r" and r: "follow_in ''|)&;<>'' r"
  have "drop s b = par 0 c (raw c) @ ?o # f @ r" "follow_in ''|)&;<>'' (?o # f @ r)" using d par_le [of "SRedir c f m fd" 0] by (auto simp: follow_in_def)
  then obtain n t s1 x where x: "parseexec n b s = Some x" "x = parseredirs b t s1 \<or> (\<exists>k. x = pend b t k s1)" "text_of (slice b) t = c"
      "drop s1 b = ?o # f @ r"
    using c unfolding parses_exec_def by blast
  have o: "?o = CHR ''<'' \<or> ?o = CHR ''>''" by simp
  have w: "wordp f" "(m, fd) \<in> {(O_RDONLY, 0), (O_WRONLY + O_CREATE, 1)}" using ok by auto
  obtain p s' where p: "parseredirs b t s1 = parseredirs b (if ?o = CHR ''<'' then REDIR t p O_RDONLY 0 else REDIR t p (O_WRONLY + O_CREATE) 1) s'"
      "slice b p = f" "drop s' b = r"
    using redir_step [OF x(4) o w(1) r, of t] by blast
  let ?t = "REDIR t p m fd"
  have "parseredirs b t s1 = parseredirs b ?t s'" using p(1) w(2) by (auto simp: O_RDONLY_def O_WRONLY_def)
  then have "x = parseredirs b ?t s' \<or> (\<exists>k. x = pend b ?t k s')" using x(2) by (auto simp: pend_def)
  moreover have "text_of (slice b) ?t = SRedir c f m fd" using x(3) p(2) by simp
  ultimately show "\<exists>n t s' x. parseexec n b s = Some x \<and> (x = parseredirs b t s' \<or> (\<exists>k. x = pend b t k s')) \<and>
      text_of (slice b) t = SRedir c f m fd \<and> drop s' b = r"
    using x(1) p(3) by blast
qed

lemma pipe_parses:
  assumes "parses_exec a" "parses_pipe c" "scmd_ok c"
  shows "parses_pipe (SPipe a c)"
  unfolding parses_pipe_def
proof (intro allI impI)
  fix b s r assume d: "drop s b = par 1 (SPipe a c) (raw (SPipe a c)) @ r" and r: "follow_in '')&;'' r"
  have e: "drop s b = par 0 a (raw a) @ CHR ''|'' # par 1 c (raw c) @ r" using d par_le [of "SPipe a c" 1] by simp
  have pl: "plain (par 1 c (raw c) @ r)" using raw_plain [OF assms(3)] follow_plain [OF r] by auto
  obtain n t s1 where t: "parseexec n b s = Some (Inr (t, s1))" "text_of (slice b) t = a" "drop s1 b = CHR ''|'' # par 1 c (raw c) @ r"
    using exec_done [OF assms(1) e] by (auto simp: follow_in_def)
  obtain m u s2 where u: "parsepipe m b (Suc s1) = Some (Inr (u, s2))" "text_of (slice b) u = c" "drop s2 b = r"
    using assms(2) drop_Cons(2) [OF t(3)] r unfolding parses_pipe_def by blast
  have "parsepipe (Suc (max n m)) b s = Some (Inr (PIPE t u, s2))"
    by (rule pipe_rule [OF parse_mono(3) [OF max.cobounded1 t(1)] t(3) pl parse_mono(2) [OF max.cobounded2 u(1)]])
  then show "\<exists>n t s'. parsepipe n b s = Some (Inr (t, s')) \<and> text_of (slice b) t = SPipe a c \<and> drop s' b = r"
    using t(2) u(2,3) by (intro exI [of _ "Suc (max n m)"] exI [of _ "PIPE t u"] exI [of _ s2]) simp
qed

lemma back_parses:
  assumes "parses_back c"
  shows "parses_back (SBack c)"
  unfolding parses_back_def
proof (intro allI impI)
  fix b s r assume d: "drop s b = par 2 (SBack c) (raw (SBack c)) @ r" and r: "follow_in '')&;'' r"
  have e: "drop s b = par 2 c (raw c) @ CHR ''&'' # r" using d par_le [of "SBack c" 2] by simp
  have "follow_in '')&;'' (CHR ''&'' # r)" by (simp add: follow_in_def)
  then obtain n t0 s0 t s1 where t: "parsepipe n b s = Some (Inr (t0, s0))" "back_loop b t0 s0 = back_loop b t s1" "text_of (slice b) t = c"
      "drop s1 b = CHR ''&'' # r"
    using assms e unfolding parses_back_def by blast
  have "plain r" using follow_plain [OF r] by auto
  then have "back_loop b t0 s0 = back_loop b (BACK t) (Suc s1)" using t(2) back_step [OF t(4)] by simp
  moreover have "text_of (slice b) (BACK t) = SBack c" using t(3) by simp
  ultimately show "\<exists>n t0 s0 t s'. parsepipe n b s = Some (Inr (t0, s0)) \<and> back_loop b t0 s0 = back_loop b t s' \<and>
      text_of (slice b) t = SBack c \<and> drop s' b = r"
    using t(1) drop_Cons(2) [OF t(4)] by blast
qed

lemma list_parses:
  assumes "parses_back a" "parses_line c" "scmd_ok c"
  shows "parses_line (SList a c)"
  unfolding parses_line_def
proof (intro allI impI)
  fix b s r assume d: "drop s b = raw (SList a c) @ r" and r: "follow_in '')'' r"
  have e: "drop s b = par 2 a (raw a) @ CHR '';'' # raw c @ r" "follow_in '')&;'' (CHR '';'' # raw c @ r)" using d by (simp_all add: follow_in_def)
  have pl: "plain (raw c @ r)" using raw_plain' [OF assms(3)] follow_plain [OF r] by auto
  obtain n t0 s0 t s1 where t: "parsepipe n b s = Some (Inr (t0, s0))" "back_loop b t0 s0 = back_loop b t s1" "text_of (slice b) t = a"
      "drop s1 b = CHR '';'' # raw c @ r"
    using assms(1) e unfolding parses_back_def by blast
  obtain m u s2 where u: "parseline m b (Suc s1) = Some (Inr (u, s2))" "text_of (slice b) u = c" "drop s2 b = r"
    using assms(2) drop_Cons(2) [OF t(4)] r unfolding parses_line_def by blast
  have "parseline (Suc (max n m)) b s = Some (Inr (LIST t u, s2))"
    by (rule line_rule [OF parse_mono(2) [OF max.cobounded1 t(1)] t(2,4) pl parse_mono(1) [OF max.cobounded2 u(1)]])
  then show "\<exists>n t s'. parseline n b s = Some (Inr (t, s')) \<and> text_of (slice b) t = SList a c \<and> drop s' b = r"
    using t(3) u(2,3) by (intro exI [of _ "Suc (max n m)"] exI [of _ "LIST t u"] exI [of _ s2]) simp
qed

lemma all_parse: "scmd_ok c \<Longrightarrow> parses_exec c \<and> parses_pipe c \<and> parses_back c \<and> parses_line c"
proof (induction c)
  case (SExec ws)
  have "parses_exec (SExec ws)" unfolding parses_exec_def
  proof (intro allI impI)
    fix b s r assume d: "drop s b = par 0 (SExec ws) (raw (SExec ws)) @ r" and r: "follow_in ''|)&;<>'' r"
    have "drop s b = join ws @ r" using d by (simp add: par_def)
    then show "\<exists>n t s' x. parseexec n b s = Some x \<and> (x = parseredirs b t s' \<or> (\<exists>k. x = pend b t k s')) \<and>
        text_of (slice b) t = SExec ws \<and> drop s' b = r"
      using exec_rule [OF _ r, of s b ws] SExec by fastforce
  qed
  then show ?case using pipe_of_exec back_of_pipe line_of_back by simp
next
  case (SRedir c f m fd)
  then have "parses_exec (SRedir c f m fd)" using redir_parses by simp
  then show ?case using pipe_of_exec back_of_pipe line_of_back by simp
next
  case (SPipe a c)
  then have "parses_pipe (SPipe a c)" using pipe_parses by simp
  then have "parses_back (SPipe a c)" "parses_line (SPipe a c)" using back_of_pipe line_of_back by simp_all
  then show ?case using \<open>parses_pipe (SPipe a c)\<close> exec_of_line SPipe.prems by simp
next
  case (SList a c)
  then have l: "parses_line (SList a c)" using list_parses by simp
  then have "parses_exec (SList a c)" using exec_of_line SList.prems by simp
  then show ?case using l pipe_of_exec back_of_pipe by simp
next
  case (SBack c)
  then have k: "parses_back (SBack c)" using back_parses by simp
  then have l: "parses_line (SBack c)" using line_of_back by simp
  then have "parses_exec (SBack c)" using exec_of_line SBack.prems by simp
  then show ?case using k l pipe_of_exec by simp
qed

lemma raw_NUL: "scmd_ok c \<Longrightarrow> NUL \<notin> set (raw c)"
proof (induction c)
  case (SExec ws)
  have "NUL \<notin> set (join ws)" if "\<forall>w\<in>set ws. wordp w" using that by (induction ws) (auto simp: wordp_def NUL_def)
  then show ?case using SExec by simp
qed (auto simp: par_def wordp_def NUL_def)

text \<open>C5: every command built from simple commands of fewer than ten words, redirections, pipes, lists and background
  commands is recovered from its text: the parser accepts the text and the command it returns has, in the buffer
  it leaves, the same structure and the same strings.\<close>

theorem parse_print:
  assumes "scmd_ok c"
  shows "\<exists>t buf. parsecmd (raw c) = Some (Inr (t, buf)) \<and> text_of (cstring buf) t = c"
proof -
  let ?b = "raw c"
  have nz: "NUL \<notin> set ?b" using raw_NUL [OF assms] .
  have "drop 0 ?b = raw c @ []" "follow_in '')'' []" by (simp_all add: follow_in_def)
  then obtain n t s where t: "parseline n ?b 0 = Some (Inr (t, s))" "text_of (slice ?b) t = c" "drop s ?b = []"
    using all_parse [OF assms] unfolding parses_line_def by blast
  obtain y where y: "parseline (4 * length ?b + 4) ?b 0 = Some y" using parse_enough(1) [of ?b 0] by fastforce
  have "y = Inr (t, s)"
  proof -
    let ?m = "max n (4 * length ?b + 4)"
    have "parseline ?m ?b 0 = Some (Inr (t, s))" "parseline ?m ?b 0 = Some y"
      by (rule parse_mono(1) [OF max.cobounded1 t(1)], rule parse_mono(1) [OF max.cobounded2 y])
    then show ?thesis by simp
  qed
  moreover have "snd (peek ?b s '''') = length ?b"
  proof -
    have "s \<le> length ?b" using parse_adv(1) [OF t(1)] by (simp add: adv_def)
    then show ?thesis using t(3) peek_plain [of s ?b "''''"] by (simp add: plain_def)
  qed
  ultimately have p: "parsecmd ?b = Some (Inr (t, nulterminate t (?b @ [NUL])))" using y by (simp add: parsecmd_def)
  have ok: "cmd_ok ?b t" using parse_cmd_ok(1) [OF t(1)] .
  have "text_of (cstring (nulterminate t (?b @ [NUL]))) t = c"
    using text_of_cong [OF nulterminate_strings [OF ok nz]] t(2) by simp
  then show ?thesis using p by blast
qed

theorem parse_print_witness:
  "\<exists>t buf. parsecmd ''cat<f|wc&;ls -l'' = Some (Inr (t, buf)) \<and>
     text_of (cstring buf) t =
       SList (SBack (SPipe (SRedir (SExec [''cat'']) ''f'' O_RDONLY 0) (SExec [''wc'']))) (SExec [''ls'', ''-l''])"
proof -
  let ?c = "SList (SBack (SPipe (SRedir (SExec [''cat'']) ''f'' O_RDONLY 0) (SExec [''wc'']))) (SExec [''ls'', ''-l''])"
  have "scmd_ok ?c" by (simp add: wordp_def word_char_def strchr_def whitespace_def symbols_def NUL_def MAXARGS_def)
  moreover have "raw ?c = ''cat<f|wc&;ls -l''" by (simp add: par_def)
  ultimately show ?thesis using parse_print [of ?c] by simp
qed

end
