(* ===== verification/XvSyscall.thy ===== *)
theory XvSyscall
  imports XvProc XvString
begin

text \<open>
  System calls and traps: \<^verbatim>\<open>lab-2/syscall.c\<close>, \<^verbatim>\<open>lab-2/sysproc.c\<close> and \<^verbatim>\<open>lab-2/trap.c\<close> on the process table.  The kernel reads the arguments of a call in the
  memory of the current process: \<open>umem\<close> says which addresses the page table maps and what bytes they hold, and reading at another address is a page fault
  in the kernel.  \<open>tlk\<close> is the lock \<open>tickslock\<close> and \<open>ta\<close> the address of \<open>ticks\<close>.
\<close>

subsection \<open>Fetching arguments: syscall.c\<close>

record umem =
  upage :: "u32 \<Rightarrow> bool"
  ubytes :: bytes

definition uread :: "umem \<Rightarrow> u32 \<Rightarrow> u8 res" where
  "uread m a = (if upage m a then Inr (ubytes m a) else Inl ''page fault'')"

definition int_at :: "bytes \<Rightarrow> u32 \<Rightarrow> u32" where
  "int_at b a = ucast (b a) OR push_bit 8 (ucast (b (a + 1))) OR push_bit 16 (ucast (b (a + 2))) OR push_bit 24 (ucast (b (a + 3)))"

text \<open>The load of an int faults when one of its bytes does.\<close>

definition uread_int :: "umem \<Rightarrow> u32 \<Rightarrow> u32 res" where
  "uread_int m a = (if upage m a \<and> upage m (a + 1) \<and> upage m (a + 2) \<and> upage m (a + 3) then Inr (int_at (ubytes m) a) else Inl ''page fault'')"

text \<open>The result is \<open>None\<close> where the code returns -1.\<close>

definition fetchint :: "proc \<Rightarrow> umem \<Rightarrow> u32 \<Rightarrow> u32 option res" where
  "fetchint p m addr =
     (if sz p \<le> addr \<or> sz p < addr + 4 then Inr None
      else rbind (uread_int m addr) (\<lambda>i. Inr (Some i)))"

lemma next_address: "(s :: u32) < ep \<Longrightarrow> unat (s + 1) = Suc (unat s)"
  using unsigned_less [of ep, where 'a = nat] by (simp add: unat_word_ariths word_less_nat_alt)

text \<open>The loop of \<open>fetchstr\<close> at \<open>s\<close>: the place of the end of the string.\<close>

function fetchstr_loop :: "umem \<Rightarrow> u32 \<Rightarrow> u32 \<Rightarrow> u32 option res" where
  "fetchstr_loop m ep s =
     (if s < ep
      then rbind (uread m s) (\<lambda>c. if c = 0 then Inr (Some s) else fetchstr_loop m ep (s + 1))
      else Inr None)"
  by pat_completeness auto
termination
proof (relation "measure (\<lambda>(m, ep, s). unat ep - unat s)")
  fix m ep s c
  assume "s < (ep :: u32)"
  then have "unat (s + 1) = Suc (unat s)" "unat s < unat ep"
    by (simp_all add: next_address word_less_nat_alt)
  then show "((m, ep, s + 1), m, ep, s) \<in> measure (\<lambda>(m, ep, s). unat ep - unat s)" by simp
qed simp

declare fetchstr_loop.simps [simp del]

text \<open>The address and the length of the string.\<close>

definition fetchstr :: "proc \<Rightarrow> umem \<Rightarrow> u32 \<Rightarrow> (u32 \<times> u32) option res" where
  "fetchstr p m addr =
     (if sz p \<le> addr then Inr None
      else rbind (fetchstr_loop m (sz p) addr) (\<lambda>r. Inr (map_option (\<lambda>s. (addr, s - addr)) r)))"

definition argint :: "int \<Rightarrow> proc \<Rightarrow> umem \<Rightarrow> u32 option res" where
  "argint n p m = fetchint p m (tf_esp (tf p) + 4 + 4 * word_of_int n)"

definition argptr :: "int \<Rightarrow> int \<Rightarrow> proc \<Rightarrow> umem \<Rightarrow> u32 option res" where
  "argptr n len p m =
     rbind (argint n p m) (\<lambda>r. case r of None \<Rightarrow> Inr None
     | Some i \<Rightarrow> if len < 0 \<or> sz p \<le> i \<or> sz p < i + word_of_int len then Inr None else Inr (Some i))"

definition argstr :: "int \<Rightarrow> proc \<Rightarrow> umem \<Rightarrow> (u32 \<times> u32) option res" where
  "argstr n p m = rbind (argint n p m) (\<lambda>r. case r of None \<Rightarrow> Inr None | Some a \<Rightarrow> fetchstr p m a)"

subsection \<open>Calls on processes: sysproc.c\<close>

text \<open>A call gives its result, or \<open>None\<close> when the process has been switched away.  \<open>with_int\<close> is the fetching of an argument that most calls begin with.\<close>

type_synonym ('k, 'm) call = "('k, 'm) ptable_scheme \<Rightarrow> (int option \<times> ('k, 'm) ptable_scheme) res"

definition with_int :: "umem \<Rightarrow> int \<Rightarrow> (int \<Rightarrow> ('k, 'm) call) \<Rightarrow> ('k, 'm) call" where
  "with_int m n f s =
     (case curproc s of None \<Rightarrow> Inl ''null pointer''
      | Some p \<Rightarrow> rbind (argint n (getp s p) m) (\<lambda>r. case r of None \<Rightarrow> Inr (Some (-1), s) | Some i \<Rightarrow> f (sint i) s))"

definition ret :: "(int \<times> 's) res \<Rightarrow> (int option \<times> 's) res" where
  "ret r = rbind r (\<lambda>(i, s). Inr (Some i, s))"

definition sys_fork :: "'k svc \<Rightarrow> ('k, 'm) call" where "sys_fork svc s = ret (fork svc s)"

definition sys_exit :: "'k svc \<Rightarrow> ('k, 'm) call" where
  "sys_exit svc s = rbind (exit_with wakeup1 svc s) (\<lambda>s1. Inr (None, s1))"

definition sys_wait :: "'k svc \<Rightarrow> ('k, 'm) call" where "sys_wait svc s = wait svc s"

definition sys_kill :: "umem \<Rightarrow> ('k, 'm) call" where
  "sys_kill m = with_int m 0 (\<lambda>pd s. ret (kill pd s))"

definition sys_getpid :: "('k, 'm) call" where
  "sys_getpid s = (case curproc s of None \<Rightarrow> Inl ''null pointer'' | Some p \<Rightarrow> Inr (Some (pid (getp s p)), s))"

definition sys_sbrk :: "'k svc \<Rightarrow> umem \<Rightarrow> ('k, 'm) call" where
  "sys_sbrk svc m = with_int m 0 (\<lambda>n s.
     case curproc s of None \<Rightarrow> Inl ''null pointer''
     | Some p \<Rightarrow>
         (let addr = sint (sz (getp s p))
          in rbind (growproc svc n s) (\<lambda>(r, s1). Inr (Some (if r < 0 then -1 else addr), s1))))"

text \<open>One turn of the loop of \<open>sys_sleep\<close>, with the lock held.  The comparison of the unsigned number of ticks with \<open>n\<close> is an unsigned one.\<close>

definition sleep_turn :: "nat \<Rightarrow> u32 \<Rightarrow> int \<Rightarrow> u32 \<Rightarrow> ('k, 'm) call" where
  "sleep_turn tlk ta n ticks0 s =
     (if ticks s - ticks0 < word_of_int n
      then case curproc s of None \<Rightarrow> Inl ''null pointer''
           | Some p \<Rightarrow>
               if killed (getp s p) then rbind (lock_release tlk s) (\<lambda>s1. Inr (Some (-1), s1))
               else rbind (sleep (AddrChan ta) (OtherLock tlk) s) (\<lambda>s1. Inr (None, s1))
      else rbind (lock_release tlk s) (\<lambda>s1. Inr (Some 0, s1)))"

definition sys_sleep :: "nat \<Rightarrow> u32 \<Rightarrow> umem \<Rightarrow> ('k, 'm) call" where
  "sys_sleep tlk ta m = with_int m 0 (\<lambda>n s. rbind (lock_acquire tlk s) (\<lambda>s1. sleep_turn tlk ta n (ticks s1) s1))"

definition sys_sleep_resume :: "nat \<Rightarrow> u32 \<Rightarrow> int \<Rightarrow> u32 \<Rightarrow> bool \<Rightarrow> ('k, 'm) call" where
  "sys_sleep_resume tlk ta n ticks0 saved s =
     rbind (sleep_resume saved (OtherLock tlk) s) (sleep_turn tlk ta n ticks0)"

definition sys_uptime :: "nat \<Rightarrow> ('k, 'm) call" where
  "sys_uptime tlk s =
     rbind (lock_acquire tlk s) (\<lambda>s1. rbind (lock_release tlk s1) (\<lambda>s2. Inr (Some (sint (ticks s1)), s2)))"

definition sys_setpriority :: "umem \<Rightarrow> ('k, 'm) call" where
  "sys_setpriority m = with_int m 0 (\<lambda>pd. with_int m 1 (\<lambda>pr s. ret (Inr (setpriority pd pr s))))"

definition sys_getpriority :: "umem \<Rightarrow> ('k, 'm) call" where
  "sys_getpriority m = with_int m 0 (\<lambda>pd s. Inr (Some (getpriority pd s), s))"

definition sys_settickets :: "umem \<Rightarrow> ('k, 'm) call" where
  "sys_settickets m = with_int m 0 (\<lambda>n s. ret (settickets n s))"

text \<open>The \<open>struct pstat\<close> at an address: four arrays of \<open>NPROC\<close> ints.\<close>

definition ints_at :: "bytes \<Rightarrow> u32 \<Rightarrow> int list" where
  "ints_at b a = map (\<lambda>i. sint (int_at b (a + 4 * of_nat i))) [0..<NPROC]"

definition pstat_at :: "bytes \<Rightarrow> u32 \<Rightarrow> pstat" where
  "pstat_at b a = \<lparr>st_inuse = ints_at b a, st_tickets = ints_at b (a + 256), st_pid = ints_at b (a + 512), st_ticks = ints_at b (a + 768)\<rparr>"

text \<open>The struct is returned with the state; \<open>None\<close> when nothing is written.\<close>

definition sys_getpinfo :: "umem \<Rightarrow> ('k, 'm) ptable_scheme \<Rightarrow> (int \<times> pstat option \<times> ('k, 'm) ptable_scheme) res" where
  "sys_getpinfo m s =
     (case curproc s of None \<Rightarrow> Inl ''null pointer''
      | Some p \<Rightarrow> rbind (argptr 0 1024 (getp s p) m) (\<lambda>r. case r of None \<Rightarrow> Inr (-1, None, s)
        | Some a \<Rightarrow> getpinfo (if a = 0 then None else Some (pstat_at (ubytes m) a)) s))"

subsection \<open>The dispatcher: syscall.c\<close>

definition NSYSCALLS :: int where "NSYSCALLS = 26"

text \<open>The system call table: the calls on processes, and those on files as \<open>fs\<close>.\<close>

definition syscalls :: "'k svc \<Rightarrow> nat \<Rightarrow> u32 \<Rightarrow> umem \<Rightarrow> (int \<Rightarrow> ('k, 'm) call option) \<Rightarrow> int \<Rightarrow> ('k, 'm) call option" where
  "syscalls svc tlk ta m fs num =
     (if num = 1 then Some (sys_fork svc) else if num = 2 then Some (sys_exit svc) else if num = 3 then Some (sys_wait svc)
      else if num = 6 then Some (sys_kill m) else if num = 11 then Some sys_getpid else if num = 12 then Some (sys_sbrk svc m)
      else if num = 13 then Some (sys_sleep tlk ta m) else if num = 14 then Some (sys_uptime tlk)
      else if num = 22 then Some (sys_setpriority m) else if num = 23 then Some (sys_getpriority m) else if num = 24 then Some (sys_settickets m)
      else if num = 25 then Some (\<lambda>s. rbind (sys_getpinfo m s) (\<lambda>(r, _, s1). Inr (Some r, s1)))
      else fs num)"

definition syscall :: "(int \<Rightarrow> ('k, 'm) call option) \<Rightarrow> ('k, 'm) ptable_scheme \<Rightarrow> (bool \<times> ('k, 'm) ptable_scheme) res" where
  "syscall tbl s =
     (case curproc s of None \<Rightarrow> Inl ''null pointer''
      | Some p \<Rightarrow>
          (let num = sint (tf_eax (tf (getp s p)));
               set_eax = (\<lambda>v. setp p (\<lambda>x. x\<lparr>tf := (tf x)\<lparr>tf_eax := word_of_int v\<rparr>\<rparr>))
           in case if 0 < num \<and> num < NSYSCALLS then tbl num else None of
                Some h \<Rightarrow> rbind (h s) (\<lambda>(r, s1). case r of None \<Rightarrow> Inr (False, s1) | Some v \<Rightarrow> Inr (True, set_eax v s1))
              | None \<Rightarrow> Inr (True, set_eax (-1) s)))"

subsection \<open>Traps: trap.c\<close>

definition T_SYSCALL :: u32 where "T_SYSCALL = 64"
definition T_IRQ0 :: u32 where "T_IRQ0 = 32"
definition IRQ_TIMER :: u32 where "IRQ_TIMER = 0"
definition IRQ_KBD :: u32 where "IRQ_KBD = 1"
definition IRQ_COM1 :: u32 where "IRQ_COM1 = 4"
definition IRQ_IDE :: u32 where "IRQ_IDE = 14"
definition IRQ_SPURIOUS :: u32 where "IRQ_SPURIOUS = 31"
definition DPL_USER :: u16 where "DPL_USER = 3"

text \<open>The interrupt handlers of the devices work on the state of the services.\<close>

record 'k devs =
  ideintr_op :: "'k \<Rightarrow> 'k res"
  kbdintr_op :: "'k \<Rightarrow> 'k res"
  uartintr_op :: "'k \<Rightarrow> 'k res"

text \<open>A trap returns to the code it interrupted (\<open>True\<close>), or the process has been switched away in \<open>exit\<close>, \<open>yield\<close> or a system call (\<open>False\<close>).\<close>

definition cur_killed :: "('k, 'm) ptable_scheme \<Rightarrow> bool" where
  "cur_killed s = (case curproc s of None \<Rightarrow> False | Some p \<Rightarrow> killed (getp s p))"

definition trap_exit :: "'k svc \<Rightarrow> ('k, 'm) ptable_scheme \<Rightarrow> (bool \<times> ('k, 'm) ptable_scheme) res" where
  "trap_exit svc s = rbind (exit_with wakeup1 svc s) (\<lambda>s1. Inr (False, s1))"

definition trap_syscall :: "'k svc \<Rightarrow> (int \<Rightarrow> ('k, 'm) call option) \<Rightarrow> trapframe \<Rightarrow> ('k, 'm) ptable_scheme \<Rightarrow> (bool \<times> ('k, 'm) ptable_scheme) res" where
  "trap_syscall svc tbl fr s =
     (case curproc s of None \<Rightarrow> Inl ''null pointer''
      | Some p \<Rightarrow>
          if killed (getp s p) then trap_exit svc s
          else rbind (syscall tbl (setp p (\<lambda>x. x\<lparr>tf := fr\<rparr>) s)) (\<lambda>(back, s1).
               if \<not> back then Inr (False, s1) else if cur_killed s1 then trap_exit svc s1 else Inr (True, s1)))"

definition timer_tick :: "nat \<Rightarrow> u32 \<Rightarrow> ('k, 'm) ptable_scheme \<Rightarrow> ('k, 'm) ptable_scheme res" where
  "timer_tick tlk ta s =
     rbind (lock_acquire tlk s) (\<lambda>s1.
     rbind (wakeup_with wakeup1 (AddrChan ta) (s1\<lparr>ticks := ticks s1 + 1\<rparr>)) (lock_release tlk))"

text \<open>The \<open>switch\<close> over the trap number.\<close>

definition trap_switch :: "'k devs \<Rightarrow> nat \<Rightarrow> u32 \<Rightarrow> trapframe \<Rightarrow> ('k, 'm) ptable_scheme \<Rightarrow> ('k, 'm) ptable_scheme res" where
  "trap_switch dev tlk ta fr s =
     (if tf_trapno fr = T_IRQ0 + IRQ_TIMER then timer_tick tlk ta s
      else if tf_trapno fr = T_IRQ0 + IRQ_IDE then with_k (ideintr_op dev) s
      else if tf_trapno fr = T_IRQ0 + IRQ_IDE + 1 then Inr s
      else if tf_trapno fr = T_IRQ0 + IRQ_KBD then with_k (kbdintr_op dev) s
      else if tf_trapno fr = T_IRQ0 + IRQ_COM1 then with_k (uartintr_op dev) s
      else if tf_trapno fr = T_IRQ0 + 7 \<or> tf_trapno fr = T_IRQ0 + IRQ_SPURIOUS then Inr s
      else case curproc s of None \<Rightarrow> Inl ''trap''
           | Some p \<Rightarrow> if tf_cs fr AND 3 = 0 then Inl ''trap'' else Inr (setp p (\<lambda>x. x\<lparr>killed := True\<rparr>) s))"

definition trap_end :: "'k svc \<Rightarrow> trapframe \<Rightarrow> ('k, 'm) ptable_scheme \<Rightarrow> (bool \<times> ('k, 'm) ptable_scheme) res" where
  "trap_end svc fr s = (if cur_killed s \<and> tf_cs fr AND 3 = DPL_USER then trap_exit svc s else Inr (True, s))"

definition trap ::
  "'k svc \<Rightarrow> 'k devs \<Rightarrow> nat \<Rightarrow> u32 \<Rightarrow> (int \<Rightarrow> ('k, 'm) call option) \<Rightarrow> trapframe \<Rightarrow> ('k, 'm) ptable_scheme \<Rightarrow> (bool \<times> ('k, 'm) ptable_scheme) res" where
  "trap svc dev tlk ta tbl fr s =
     (if tf_trapno fr = T_SYSCALL then trap_syscall svc tbl fr s
      else rbind (trap_switch dev tlk ta fr s) (\<lambda>s1.
           if cur_killed s1 \<and> tf_cs fr AND 3 = DPL_USER then trap_exit svc s1
           else if (case curproc s1 of None \<Rightarrow> False | Some p \<Rightarrow> state (getp s1 p) = RUNNING) \<and> tf_trapno fr = T_IRQ0 + IRQ_TIMER
           then rbind (yield s1) (\<lambda>s2. Inr (False, s2))
           else trap_end svc fr s1))"

text \<open>The rest of a trap after \<open>yield\<close>.\<close>

definition trap_resume :: "'k svc \<Rightarrow> trapframe \<Rightarrow> bool \<Rightarrow> ('k, 'm) ptable_scheme \<Rightarrow> (bool \<times> ('k, 'm) ptable_scheme) res" where
  "trap_resume svc fr saved s = rbind (yield_resume saved s) (trap_end svc fr)"

end
