(* ===== verification/XvVm.thy ===== *)
theory XvVm
  imports XvKalloc
begin

text \<open>
  Page tables of processes, \<^verbatim>\<open>lab-2/vm.c\<close>, on the state of the page allocator: a page directory and its page tables are pages of
  \<open>pmem\<close>.  A function of this file can panic, and a loop over addresses can wrap around and run for ever:
  \<open>Some (Inl e)\<close> is a panic and \<open>None\<close> means that the function does not return.
\<close>

subsection \<open>Constants: mmu.h\<close>

definition PDX_xv :: "u32 \<Rightarrow> u32" where "PDX_xv va = drop_bit 22 va AND 0x3FF"
definition PTX_xv :: "u32 \<Rightarrow> u32" where "PTX_xv va = drop_bit 12 va AND 0x3FF"
definition PGADDR_xv :: "u32 \<Rightarrow> u32 \<Rightarrow> u32 \<Rightarrow> u32" where "PGADDR_xv d t off = push_bit 22 d OR push_bit 12 t OR off"
definition PTE_P_xv :: u32 where "PTE_P_xv = 1"
definition PTE_W_xv :: u32 where "PTE_W_xv = 2"
definition PTE_U_xv :: u32 where "PTE_U_xv = 4"
definition PTE_ADDR_xv :: "u32 \<Rightarrow> u32" where "PTE_ADDR_xv e = e AND NOT 0xFFF"
definition PTE_FLAGS_xv :: "u32 \<Rightarrow> u32" where "PTE_FLAGS_xv e = e AND 0xFFF"
definition NPDENTRIES_xv :: nat where "NPDENTRIES_xv = 1024"

subsection \<open>Results of code that may not return\<close>

type_synonym 'a run = "'a res option"

definition xbind :: "'a run \<Rightarrow> ('a \<Rightarrow> 'b run) \<Rightarrow> 'b run" where
  "xbind m f = Option.bind m (case_sum (\<lambda>e. Some (Inl e)) f)"

abbreviation xret :: "'a \<Rightarrow> 'a run" where "xret x \<equiv> Some (Inr x)"

lemma xbind_simps [simp]: "xbind None f = None" "xbind (Some (Inl e)) f = Some (Inl e)" "xbind (Some (Inr x)) f = f x"
  by (simp_all add: xbind_def)

lemma xbind_mono [partial_function_mono]:
  assumes "mono_option B" "\<And>y. mono_option (\<lambda>g. C y g)"
  shows "mono_option (\<lambda>g. xbind (B g) (\<lambda>y. C y g))"
proof -
  have "mono_option (\<lambda>g. case x of Inl e \<Rightarrow> Some (Inl e) | Inr y \<Rightarrow> C y g)" for x
    using assms(2) by (cases x) (simp_all add: option.const_mono)
  then show ?thesis unfolding xbind_def by (rule bind_mono [OF assms(1)])
qed

subsection \<open>Pages of memory\<close>

definition put_word :: "u32 \<Rightarrow> u32 \<Rightarrow> kalloc_st \<Rightarrow> kalloc_st" where
  "put_word a w s = s\<lparr>pmem := (pmem s)(a := w)\<rparr>"

text \<open>\<open>memset(v, 0, PGSIZE)\<close> and \<open>memmove(v, w, PGSIZE)\<close> on whole pages.\<close>

definition zero_page :: "u32 \<Rightarrow> kalloc_st \<Rightarrow> kalloc_st" where
  "zero_page v s = s\<lparr>pmem := (\<lambda>a. if a - v < PGSIZE_xv then 0 else pmem s a)\<rparr>"

definition copy_page :: "u32 \<Rightarrow> u32 \<Rightarrow> kalloc_st \<Rightarrow> kalloc_st" where
  "copy_page v w s = s\<lparr>pmem := (\<lambda>a. if a - v < PGSIZE_xv then pmem s (w + (a - v)) else pmem s a)\<rparr>"

subsection \<open>Walking and mapping\<close>

definition walkpgdir :: "u32 \<Rightarrow> u32 \<Rightarrow> bool \<Rightarrow> kalloc_st \<Rightarrow> (u32 \<times> kalloc_st) res" where
  "walkpgdir pd va alloc s =
     (let pde = pd + 4 * PDX_xv va
      in if pmem s pde AND PTE_P_xv \<noteq> 0 then Inr (P2V (PTE_ADDR_xv (pmem s pde)) + 4 * PTX_xv va, s)
         else if \<not> alloc then Inr (0, s)
         else rbind (kalloc s) (\<lambda>(pgtab, s1).
           if pgtab = 0 then Inr (0, s1)
           else let s2 = zero_page pgtab s1;
                    s3 = put_word pde (V2P pgtab OR PTE_P_xv OR PTE_W_xv OR PTE_U_xv) s2
                in Inr (pgtab + 4 * PTX_xv va, s3)))"

partial_function (option) mappages_loop :: "u32 \<Rightarrow> u32 \<Rightarrow> u32 \<Rightarrow> u32 \<Rightarrow> u32 \<Rightarrow> kalloc_st \<Rightarrow> (int \<times> kalloc_st) run" where
  "mappages_loop pd a lst pa perm s =
     xbind (Some (walkpgdir pd a True s)) (\<lambda>(pte, s1).
       if pte = 0 then xret (-1, s1)
       else if pmem s1 pte AND PTE_P_xv \<noteq> 0 then Some (Inl ''remap'')
       else let s2 = put_word pte (pa OR perm OR PTE_P_xv) s1
            in if a = lst then xret (0, s2)
               else mappages_loop pd (a + PGSIZE_xv) lst (pa + PGSIZE_xv) perm s2)"

definition mappages :: "u32 \<Rightarrow> u32 \<Rightarrow> u32 \<Rightarrow> u32 \<Rightarrow> u32 \<Rightarrow> kalloc_st \<Rightarrow> (int \<times> kalloc_st) run" where
  "mappages pd va n pa perm s =
     mappages_loop pd (PGROUNDDOWN va) (PGROUNDDOWN (va + n - 1)) pa perm s"

subsection \<open>Growing and shrinking\<close>

partial_function (option) deallocuvm_loop :: "u32 \<Rightarrow> u32 \<Rightarrow> u32 \<Rightarrow> kalloc_st \<Rightarrow> kalloc_st run" where
  "deallocuvm_loop pd a oldsz s =
     (if a < oldsz
      then xbind (Some (walkpgdir pd a False s)) (\<lambda>(pte, s1).
        if pte = 0 then deallocuvm_loop pd (PGADDR_xv (PDX_xv a + 1) 0 0 - PGSIZE_xv + PGSIZE_xv) oldsz s1
        else if pmem s1 pte AND PTE_P_xv \<noteq> 0
        then let pa = PTE_ADDR_xv (pmem s1 pte)
             in if pa = 0 then Some (Inl ''kfree'')
                else xbind (Some (kfree (P2V pa) s1)) (\<lambda>s2. deallocuvm_loop pd (a + PGSIZE_xv) oldsz (put_word pte 0 s2))
        else deallocuvm_loop pd (a + PGSIZE_xv) oldsz s1)
      else xret s)"

definition deallocuvm :: "u32 \<Rightarrow> u32 \<Rightarrow> u32 \<Rightarrow> kalloc_st \<Rightarrow> (u32 \<times> kalloc_st) run" where
  "deallocuvm pd oldsz newsz s =
     (if oldsz \<le> newsz then xret (oldsz, s)
      else xbind (deallocuvm_loop pd (PGROUNDUP newsz) oldsz s) (\<lambda>s1. xret (newsz, s1)))"

partial_function (option) allocuvm_loop :: "u32 \<Rightarrow> u32 \<Rightarrow> u32 \<Rightarrow> u32 \<Rightarrow> kalloc_st \<Rightarrow> (u32 \<times> kalloc_st) run" where
  "allocuvm_loop pd a oldsz newsz s =
     (if a < newsz
      then xbind (Some (kalloc s)) (\<lambda>(mem, s1).
        if mem = 0 then xbind (deallocuvm pd newsz oldsz s1) (\<lambda>(_, s2). xret (0, s2))
        else xbind (mappages pd a PGSIZE_xv (V2P mem) (PTE_W_xv OR PTE_U_xv) (zero_page mem s1)) (\<lambda>(r, s2).
          if r < 0
          then xbind (deallocuvm pd newsz oldsz s2) (\<lambda>(_, s3). xbind (Some (kfree mem s3)) (\<lambda>s4. xret (0, s4)))
          else allocuvm_loop pd (a + PGSIZE_xv) oldsz newsz s2))
      else xret (newsz, s))"

definition allocuvm :: "u32 \<Rightarrow> u32 \<Rightarrow> u32 \<Rightarrow> kalloc_st \<Rightarrow> (u32 \<times> kalloc_st) run" where
  "allocuvm pd oldsz newsz s =
     (if KERNBASE_xv \<le> newsz then xret (0, s)
      else if newsz < oldsz then xret (oldsz, s)
      else allocuvm_loop pd (PGROUNDUP oldsz) oldsz newsz s)"

text \<open>The loop of \<open>freevm\<close> over the entries of the page directory from \<open>i\<close> on.\<close>

fun free_tables :: "u32 \<Rightarrow> nat list \<Rightarrow> kalloc_st \<Rightarrow> kalloc_st res" where
  "free_tables pd [] s = Inr s"
| "free_tables pd (i # is) s =
     (let e = pmem s (pd + 4 * of_nat i)
      in if e AND PTE_P_xv \<noteq> 0 then rbind (kfree (P2V (PTE_ADDR_xv e)) s) (\<lambda>s1. free_tables pd is s1)
         else free_tables pd is s)"

definition freevm :: "u32 \<Rightarrow> kalloc_st \<Rightarrow> kalloc_st run" where
  "freevm pd s =
     (if pd = 0 then Some (Inl ''freevm: no pgdir'')
      else xbind (deallocuvm pd KERNBASE_xv 0 s) (\<lambda>(_, s1).
           xbind (Some (free_tables pd [0..<NPDENTRIES_xv] s1)) (\<lambda>s2. Some (kfree pd s2))))"

subsection \<open>The kernel part of a page table\<close>

record kmap =
  virt :: u32
  phys_start :: u32
  phys_end :: u32
  kperm :: u32

text \<open>\<open>dat\<close> is the linker symbol \<open>data\<close>.\<close>

definition kmaps :: "u32 \<Rightarrow> kmap list" where
  "kmaps dat =
     [\<lparr>virt = KERNBASE_xv, phys_start = 0, phys_end = EXTMEM, kperm = PTE_W_xv\<rparr>,
      \<lparr>virt = KERNLINK, phys_start = V2P KERNLINK, phys_end = V2P dat, kperm = 0\<rparr>,
      \<lparr>virt = dat, phys_start = V2P dat, phys_end = PHYSTOP, kperm = PTE_W_xv\<rparr>,
      \<lparr>virt = DEVSPACE, phys_start = DEVSPACE, phys_end = 0, kperm = PTE_W_xv\<rparr>]"

fun setupkvm_loop :: "u32 \<Rightarrow> kmap list \<Rightarrow> kalloc_st \<Rightarrow> (u32 \<times> kalloc_st) run" where
  "setupkvm_loop pd [] s = xret (pd, s)"
| "setupkvm_loop pd (k # ks) s =
     xbind (mappages pd (virt k) (phys_end k - phys_start k) (phys_start k) (kperm k) s) (\<lambda>(r, s1).
       if r < 0 then xbind (freevm pd s1) (\<lambda>s2. xret (0, s2)) else setupkvm_loop pd ks s1)"

definition setupkvm :: "u32 \<Rightarrow> kalloc_st \<Rightarrow> (u32 \<times> kalloc_st) run" where
  "setupkvm dat s =
     xbind (Some (kalloc s)) (\<lambda>(pd, s1).
       if pd = 0 then xret (0, s1)
       else let s2 = zero_page pd s1
            in if DEVSPACE < P2V PHYSTOP then Some (Inl ''PHYSTOP too high'')
               else setupkvm_loop pd (kmaps dat) s2)"

subsection \<open>User memory\<close>

definition clearpteu :: "u32 \<Rightarrow> u32 \<Rightarrow> kalloc_st \<Rightarrow> kalloc_st res" where
  "clearpteu pd uva s =
     rbind (walkpgdir pd uva False s) (\<lambda>(pte, s1).
       if pte = 0 then Inl ''clearpteu'' else Inr (put_word pte (pmem s1 pte AND NOT PTE_U_xv) s1))"

partial_function (option) copyuvm_loop :: "u32 \<Rightarrow> u32 \<Rightarrow> u32 \<Rightarrow> u32 \<Rightarrow> kalloc_st \<Rightarrow> (u32 \<times> kalloc_st) run" where
  "copyuvm_loop pd d i sz s =
     (if i < sz
      then xbind (Some (walkpgdir pd i False s)) (\<lambda>(pte, s1).
        if pte = 0 then Some (Inl ''copyuvm: pte should exist'')
        else if pmem s1 pte AND PTE_P_xv = 0 then Some (Inl ''copyuvm: page not present'')
        else let pa = PTE_ADDR_xv (pmem s1 pte); flags = PTE_FLAGS_xv (pmem s1 pte)
             in xbind (Some (kalloc s1)) (\<lambda>(mem, s2).
                if mem = 0 then xbind (freevm d s2) (\<lambda>s3. xret (0, s3))
                else xbind (mappages d i PGSIZE_xv (V2P mem) flags (copy_page mem (P2V pa) s2)) (\<lambda>(r, s3).
                  if r < 0 then xbind (Some (kfree mem s3)) (\<lambda>s4. xbind (freevm d s4) (\<lambda>s5. xret (0, s5)))
                  else copyuvm_loop pd d (i + PGSIZE_xv) sz s3)))
      else xret (d, s))"

definition copyuvm :: "u32 \<Rightarrow> u32 \<Rightarrow> u32 \<Rightarrow> kalloc_st \<Rightarrow> (u32 \<times> kalloc_st) run" where
  "copyuvm dat pd sz s =
     xbind (setupkvm dat s) (\<lambda>(d, s1). if d = 0 then xret (0, s1) else copyuvm_loop pd d 0 sz s1)"

text \<open>\<open>uva2ka\<close> reads the entry without looking whether there is a page table.\<close>

definition uva2ka :: "u32 \<Rightarrow> u32 \<Rightarrow> kalloc_st \<Rightarrow> u32 res" where
  "uva2ka pd uva s =
     rbind (walkpgdir pd uva False s) (\<lambda>(pte, s1).
       if pte = 0 then Inl ''null pointer''
       else if pmem s1 pte AND PTE_P_xv = 0 then Inr 0
       else if pmem s1 pte AND PTE_U_xv = 0 then Inr 0
       else Inr (P2V (PTE_ADDR_xv (pmem s1 pte))))"

end
