(* ===== verification/XvVmInv.thy ===== *)
theory XvVmInv
  imports XvVm
begin

text \<open>
  The pages an address space owns.  \<open>held\<close> says which page a page directory owns in which role: itself, its page tables, and
  the frames of user memory.  The invariant is that all of them are different pages outside the free list; every operation of
  \<open>XvVm\<close> is described by its effect on the entries, on the pool of owned and free pages, and on the rest of memory.
\<close>

subsection \<open>Addresses\<close>

lemma unat_PGROUNDDOWN: "unat (PGROUNDDOWN a) = unat a div 4096 * 4096"
proof -
  have "PGROUNDDOWN a = a AND NOT 0xFFF" by (simp add: PGROUNDDOWN_def PGSIZE_xv_def)
  then show ?thesis by (simp only: unat_page_floor)
qed

lemma unat_and_1023: "unat ((w::u32) AND 0x3FF) = unat w mod 1024"
proof -
  have "(w AND 0x3FF) = take_bit 10 w" by (simp add: take_bit_eq_mask mask_eq_exp_minus_1)
  then show ?thesis by (simp add: take_bit_eq_mod unat_mod)
qed

lemma unat_PDX_xv: "unat (PDX_xv va) = unat va div 4194304"
proof -
  have "unat va div 4194304 < 1024" using unat_lt [of va] by (simp add: less_mult_imp_div_less)
  then show ?thesis by (simp add: PDX_xv_def unat_and_1023 unat_div drop_bit_eq_div)
qed

lemma unat_PTX_xv: "unat (PTX_xv va) = unat va div 4096 mod 1024"
  by (simp add: PTX_xv_def unat_and_1023 unat_div drop_bit_eq_div)

lemma PDX_xv_lt: "PDX_xv va < 1024" and PTX_xv_lt: "PTX_xv va < 1024"
  using unat_lt [of va] by (simp_all add: word_less_nat_alt unat_PDX_xv unat_PTX_xv less_mult_imp_div_less)

lemma same_page_iff: "PGROUNDDOWN a = PGROUNDDOWN b \<longleftrightarrow> PDX_xv a = PDX_xv b \<and> PTX_xv a = PTX_xv b"
proof -
  have d: "unat x div 4194304 = unat x div 4096 div 1024" for x :: u32 by (simp add: div_mult2_eq [symmetric])
  have "(m div 1024 = n div 1024 \<and> m mod 1024 = n mod 1024) \<longleftrightarrow> m = n" for m n :: nat by (metis div_mult_mod_eq)
  then show ?thesis by (simp add: unat_inj [symmetric] unat_PGROUNDDOWN unat_PDX_xv unat_PTX_xv d)
qed

lemma aligned_unat: "v mod PGSIZE_xv = 0 \<longleftrightarrow> unat v mod 4096 = 0"
  by (simp add: PGSIZE_xv_def unat_eq_0 [symmetric] unat_mod)

lemma in_page_iff:
  assumes "v mod PGSIZE_xv = 0"
  shows "a - v < PGSIZE_xv \<longleftrightarrow> PGROUNDDOWN a = v"
proof -
  obtain k where k: "unat v = 4096 * k" using assms by (auto simp: aligned_unat mod_eq_0_iff_dvd)
  have "unat (a - v) < 4096 \<longleftrightarrow> unat a div 4096 = k"
  proof (cases "unat v \<le> unat a")
    case True
    then show ?thesis using k by (simp add: unat_sub_if') (auto simp: div_nat_eqI)
  next
    case False
    have "k < 1048576" using k unat_lt [of v] by simp
    then show ?thesis using False k unat_lt [of v] by (auto simp: unat_sub_if' unat_lt)
  qed
  then show ?thesis by (auto simp: word_less_nat_alt PGSIZE_xv_def unat_inj [symmetric] unat_PGROUNDDOWN k)
qed

lemma unat_entry:
  assumes "v mod PGSIZE_xv = 0" "i < 1024"
  shows "unat (v + 4 * i) = unat v + 4 * unat i"
proof -
  obtain k where k: "unat v = 4096 * k" using assms by (auto simp: aligned_unat mod_eq_0_iff_dvd)
  have i: "unat i < 1024" using assms(2) by (simp add: word_less_nat_alt)
  then have "unat (4 * i) = 4 * unat i" by (simp add: unat_word_ariths)
  moreover have "unat v + 4 * unat i < 4294967296" using i k unat_lt [of v] by simp
  ultimately show ?thesis by (simp add: unat_word_ariths)
qed

lemma entry_page: "v mod PGSIZE_xv = 0 \<Longrightarrow> i < 1024 \<Longrightarrow> PGROUNDDOWN (v + 4 * i) = v"
proof -
  assume a: "v mod PGSIZE_xv = 0" "i < 1024"
  then obtain k where k: "unat v = 4096 * k" by (auto simp: aligned_unat mod_eq_0_iff_dvd)
  have "unat (PGROUNDDOWN (v + 4 * i)) = unat v" using a(2) by (simp add: unat_PGROUNDDOWN unat_entry [OF a] k word_less_nat_alt)
  then show ?thesis by (simp only: unat_inj)
qed

lemma entry_inj:
  assumes "v mod PGSIZE_xv = 0" "w mod PGSIZE_xv = 0" "i < 1024" "j < 1024"
  shows "v + 4 * i = w + 4 * j \<longleftrightarrow> v = w \<and> i = j"
proof
  assume e: "v + 4 * i = w + 4 * j"
  then have vw: "v = w" using entry_page assms by metis
  then have "unat i = unat j" using e unat_entry [of v i] unat_entry [of v j] assms by simp
  then have "i = j" by (simp only: unat_inj)
  with vw show "v = w \<and> i = j" by simp
qed simp

subsection \<open>What an address space owns\<close>

definition present_xv :: "u32 \<Rightarrow> bool" where
  "present_xv e \<longleftrightarrow> e AND PTE_P_xv \<noteq> 0"

definition tab :: "kalloc_st \<Rightarrow> u32 \<Rightarrow> u32 \<Rightarrow> u32" where
  "tab s pd i = P2V (PTE_ADDR_xv (pmem s (pd + 4 * i)))"

text \<open>The entry of an address, 0 when there is no page table.\<close>

definition pte_at :: "kalloc_st \<Rightarrow> u32 \<Rightarrow> u32 \<Rightarrow> u32" where
  "pte_at s pd va =
     (if present_xv (pmem s (pd + 4 * PDX_xv va)) then pmem s (tab s pd (PDX_xv va) + 4 * PTX_xv va) else 0)"

definition frame_of :: "u32 \<Rightarrow> u32" where
  "frame_of e = P2V (PTE_ADDR_xv e)"

datatype slot = Root | Table u32 | is_Frame: Frame u32

fun owns :: "kalloc_st \<Rightarrow> u32 \<Rightarrow> slot \<Rightarrow> u32 option" where
  "owns s pd Root = Some pd"
| "owns s pd (Table i) = (if i < 1024 \<and> present_xv (pmem s (pd + 4 * i)) then Some (tab s pd i) else None)"
| "owns s pd (Frame va) =
     (if PGROUNDDOWN va = va \<and> va < KERNBASE_xv \<and> present_xv (pte_at s pd va) then Some (frame_of (pte_at s pd va)) else None)"

definition pool :: "kalloc_st \<Rightarrow> u32 \<Rightarrow> u32 set" where
  "pool s pd = ran (owns s pd) \<union> set (kfree_pages s)"

text \<open>The pages that hold page tables, or may come to.\<close>

definition tables :: "kalloc_st \<Rightarrow> u32 \<Rightarrow> slot \<Rightarrow> u32 option" where
  "tables s pd x = (if is_Frame x then None else owns s pd x)"

definition meta :: "kalloc_st \<Rightarrow> u32 \<Rightarrow> u32 set" where
  "meta s pd = ran (tables s pd) \<union> set (kfree_pages s)"

definition vinv :: "kalloc_st \<Rightarrow> u32 \<Rightarrow> bool" where
  "vinv s pd \<longleftrightarrow> kalloc_ok s \<and> KERNBASE_xv < kend s \<and> (\<forall>x v. owns s pd x = Some v \<longrightarrow> kfreeable s v) \<and>
     (\<forall>x y v. owns s pd x = Some v \<longrightarrow> owns s pd y = Some v \<longrightarrow> x = y)"

text \<open>\<open>t\<close> is \<open>s\<close> but for the free list and the pages \<open>P\<close>.\<close>

definition ext :: "u32 set \<Rightarrow> kalloc_st \<Rightarrow> kalloc_st \<Rightarrow> bool" where
  "ext P s t \<longleftrightarrow> kend t = kend s \<and> use_lock t = use_lock s \<and> (\<forall>a. PGROUNDDOWN a \<notin> P \<longrightarrow> pmem t a = pmem s a)"

lemma present_simps [simp]:
  "e AND PTE_P_xv = 0 \<longleftrightarrow> \<not> present_xv e" "\<not> present_xv 0" "present_xv (a OR PTE_P_xv)" "present_xv (a OR PTE_P_xv OR b)"
  "present_xv (a OR b OR PTE_P_xv)"
  by (auto simp: present_xv_def PTE_P_xv_def bit_or_iff)

lemma ext_refl [simp]: "ext P s s" by (simp add: ext_def)

lemma ext_trans: "ext P s t \<Longrightarrow> ext Q t u \<Longrightarrow> P \<subseteq> R \<Longrightarrow> Q \<subseteq> R \<Longrightarrow> ext R s u"
  unfolding ext_def by (metis subsetD)

lemma ext_mono: "ext P s t \<Longrightarrow> P \<subseteq> R \<Longrightarrow> ext R s t"
  by (auto simp: ext_def)

lemma ext_kpage: "ext P s t \<Longrightarrow> kpage t = kpage s"
  by (auto simp: ext_def kpage_def fun_eq_iff)

lemma pool_meta: "meta s pd \<subseteq> pool s pd"
  by (auto simp: meta_def pool_def ran_def tables_def simp del: owns.simps split: if_splits)

lemma tables_upd:
  "owns t pd = (owns s pd)(Table i \<mapsto> v) \<Longrightarrow> tables t pd = (tables s pd)(Table i \<mapsto> v)"
  "owns t pd = (owns s pd)(Frame va := x) \<Longrightarrow> tables t pd = tables s pd"
  by (auto simp: tables_def fun_eq_iff simp del: owns.simps)

lemma vinvD:
  assumes "vinv s pd"
  shows "kalloc_ok s" "KERNBASE_xv < kend s" "owns s pd x = Some v \<Longrightarrow> kfreeable s v"
    "owns s pd x = Some v \<Longrightarrow> owns s pd y = Some v \<Longrightarrow> x = y"
    "owns s pd x = Some v \<Longrightarrow> v mod PGSIZE_xv = 0 \<and> v \<notin> set (kfree_pages s) \<and> v \<in> pool s pd"
    "pd mod PGSIZE_xv = 0"
proof -
  show "kalloc_ok s" "KERNBASE_xv < kend s" "owns s pd x = Some v \<Longrightarrow> owns s pd y = Some v \<Longrightarrow> x = y"
    using assms by (auto simp: vinv_def)
  show *: "owns s pd x = Some v \<Longrightarrow> kfreeable s v" for x v using assms by (auto simp: vinv_def)
  show "owns s pd x = Some v \<Longrightarrow> v mod PGSIZE_xv = 0 \<and> v \<notin> set (kfree_pages s) \<and> v \<in> pool s pd"
    using * [of x v] by (auto simp: kfreeable_def kpage_def pool_def ran_def)
  show "pd mod PGSIZE_xv = 0" using * [of Root pd] by (simp add: kfreeable_def kpage_def)
qed

text \<open>The directory and the tables determine what is owned.\<close>

lemma held_cong:
  assumes "vinv s pd" "\<And>a. PGROUNDDOWN a = pd \<Longrightarrow> pmem t a = pmem s a"
    "\<And>a i. owns s pd (Table i) = Some (PGROUNDDOWN a) \<Longrightarrow> pmem t a = pmem s a"
  shows "owns t pd = owns s pd" "pte_at t pd = pte_at s pd"
proof -
  have d: "pmem t (pd + 4 * i) = pmem s (pd + 4 * i)" if "i < 1024" for i
    using assms(2) [OF entry_page [OF vinvD(6) [OF assms(1)] that]] .
  have p: "pte_at t pd va = pte_at s pd va" for va
  proof (cases "present_xv (pmem s (pd + 4 * PDX_xv va))")
    case True
    then have h: "owns s pd (Table (PDX_xv va)) = Some (tab s pd (PDX_xv va))" by (simp add: PDX_xv_lt)
    have "PGROUNDDOWN (tab s pd (PDX_xv va) + 4 * PTX_xv va) = tab s pd (PDX_xv va)"
      by (rule entry_page [OF conjunct1 [OF vinvD(5) [OF assms(1) h]] PTX_xv_lt])
    then have "pmem t (tab s pd (PDX_xv va) + 4 * PTX_xv va) = pmem s (tab s pd (PDX_xv va) + 4 * PTX_xv va)"
      using assms(3) h by simp
    then show ?thesis by (simp add: pte_at_def tab_def d PDX_xv_lt)
  qed (simp add: pte_at_def d PDX_xv_lt)
  then show "pte_at t pd = pte_at s pd" by blast
  show "owns t pd = owns s pd"
  proof
    show "owns t pd x = owns s pd x" for x by (cases x) (auto simp: p d tab_def)
  qed
qed

lemma vinv_same:
  assumes "vinv s pd" "owns t pd = owns s pd" "kalloc_ok t" "kend t = kend s" "set (kfree_pages t) \<subseteq> set (kfree_pages s)"
  shows "vinv t pd"
  using assms by (auto simp: vinv_def kfreeable_def kpage_def)

lemma vinv_add:
  assumes "vinv s pd" "owns t pd = (owns s pd)(x \<mapsto> v)" "owns s pd x = None" "kalloc_ok t" "kend t = kend s"
    "set (kfree_pages t) \<subseteq> set (kfree_pages s) - {v}" "kpage s v" "v \<notin> ran (owns s pd)"
  shows "vinv t pd \<and> ran (owns t pd) = insert v (ran (owns s pd))"
proof -
  have "vinv t pd" using assms by (auto simp: vinv_def kfreeable_def kpage_def ran_def split: if_splits)
  then show ?thesis using assms(2,3) by (simp add: ran_map_upd)
qed

lemma vinv_del:
  assumes "vinv s pd" "owns t pd = (owns s pd)(x := None)" "owns s pd x = Some v" "kalloc_ok t" "kend t = kend s"
    "set (kfree_pages t) = insert v (set (kfree_pages s))"
  shows "vinv t pd \<and> pool t pd = pool s pd"
proof -
  have "vinv t pd" using assms by (auto simp: vinv_def kfreeable_def kpage_def)
  moreover have "(\<exists>a. a \<noteq> x \<and> owns s pd a = Some b) \<longleftrightarrow> (\<exists>a. owns s pd a = Some b) \<and> b \<noteq> v" for b
    using assms(3) vinvD(4) [OF assms(1)] by (metis option.inject)
  then have "ran (owns t pd) = ran (owns s pd) - {v}" by (auto simp: ran_def assms(2))
  moreover have "v \<in> ran (owns s pd)" using assms(3) by (auto simp: ran_def)
  ultimately show ?thesis using assms(6) by (auto simp: pool_def)
qed

subsection \<open>The allocator\<close>

lemma kalloc_cases:
  assumes "kalloc_ok s"
  shows "kalloc s = Inr (0, s) \<and> kfree_pages s = [] \<or>
    (\<exists>v t. kalloc s = Inr (v, t) \<and> v \<noteq> 0 \<and> kalloc_ok t \<and> kfree_pages s = v # kfree_pages t \<and> kfreeable t v \<and>
       pmem t = pmem s \<and> ext {} s t)"
proof (cases "freelist s = 0")
  case True
  then show ?thesis using kalloc_eq [OF assms] xv_pool.alloc_None [OF assms] by (simp add: kalloc_page_def)
next
  case False
  let ?t = "s\<lparr>freelist := pmem s (freelist s)\<rparr>"
  have "kalloc_page s = Some (freelist s, ?t)" using False by (simp add: kalloc_page_def kalloc_eq [OF assms])
  from kalloc_ok_alloc [OF assms this] show ?thesis using False kalloc_eq [OF assms] by (auto simp: ext_def)
qed

lemma kalloc_ok_pmem:
  assumes "kalloc_ok s" "kend t = kend s" "klock t = klock s" "freelist t = freelist s" "\<And>v. v \<in> set (kfree_pages s) \<Longrightarrow> pmem t v = pmem s v"
  shows "kalloc_ok t" "kfree_pages t = kfree_pages s"
proof -
  have "chain (run_next t) (ptr (freelist t)) (kfree_pages s)"
    using assms by (subst chain_cong [of _ _ "run_next s"]) (auto simp: kalloc_ok_def run_next_def)
  then have "kalloc_ok t \<and> kfree_pages t = kfree_pages s"
    using assms by (intro kalloc_okI) (auto simp: kalloc_ok_def kpage_def)
  then show "kalloc_ok t" "kfree_pages t = kfree_pages s" by auto
qed

lemma free_aligned: "kalloc_ok s \<Longrightarrow> v \<in> set (kfree_pages s) \<Longrightarrow> v mod PGSIZE_xv = 0 \<and> PGROUNDDOWN v = v"
  using entry_page [of v 0] by (auto simp: kalloc_ok_def kpage_def)

text \<open>Writing to pages outside the free list.\<close>

lemma kalloc_ok_store:
  assumes "kalloc_ok s" "PGROUNDDOWN a \<notin> set (kfree_pages s)"
  shows "kalloc_ok (put_word a w s)" "kfree_pages (put_word a w s) = kfree_pages s" "ext {PGROUNDDOWN a} s (put_word a w s)"
proof -
  have n: "a \<notin> set (kfree_pages s)" using free_aligned [OF assms(1), of a] assms(2) by auto
  show "kalloc_ok (put_word a w s)" "kfree_pages (put_word a w s) = kfree_pages s"
    using n by (intro kalloc_ok_pmem [OF assms(1)]; auto simp: put_word_def)+
qed (auto simp: ext_def put_word_def)

lemma kalloc_ok_zero:
  assumes "kalloc_ok s" "v \<notin> set (kfree_pages s)" "v mod PGSIZE_xv = 0"
  shows "kalloc_ok (zero_page v s)" "kfree_pages (zero_page v s) = kfree_pages s" "ext {v} s (zero_page v s)"
    "\<And>a. PGROUNDDOWN a = v \<Longrightarrow> pmem (zero_page v s) a = 0"
proof -
  have n: "PGROUNDDOWN w \<noteq> v" if "w \<in> set (kfree_pages s)" for w using free_aligned [OF assms(1) that] assms(2) that by auto
  show "kalloc_ok (zero_page v s)" "kfree_pages (zero_page v s) = kfree_pages s"
    using n by (intro kalloc_ok_pmem [OF assms(1)]; auto simp: zero_page_def in_page_iff [OF assms(3)])+
qed (auto simp: ext_def zero_page_def in_page_iff [OF assms(3)])

lemma kalloc_ok_copy:
  assumes "kalloc_ok s" "v \<notin> set (kfree_pages s)" "v mod PGSIZE_xv = 0"
  shows "kalloc_ok (copy_page v w s)" "kfree_pages (copy_page v w s) = kfree_pages s" "ext {v} s (copy_page v w s)"
    "\<And>i. i < PGSIZE_xv \<Longrightarrow> pmem (copy_page v w s) (v + i) = pmem s (w + i)"
proof -
  have n: "PGROUNDDOWN x \<noteq> v" if "x \<in> set (kfree_pages s)" for x using free_aligned [OF assms(1) that] assms(2) that by auto
  show "kalloc_ok (copy_page v w s)" "kfree_pages (copy_page v w s) = kfree_pages s"
    using n by (intro kalloc_ok_pmem [OF assms(1)]; auto simp: copy_page_def in_page_iff [OF assms(3)])+
qed (auto simp: ext_def copy_page_def in_page_iff [OF assms(3), symmetric])

lemma kfree_ext:
  assumes "kalloc_ok s" "kfreeable s v"
  shows "\<exists>t. kfree v s = Inr t \<and> kalloc_ok t \<and> kfree_pages t = v # kfree_pages s \<and> ext {v} s t"
proof -
  have v: "v mod PGSIZE_xv = 0" using assms(2) by (simp add: kfreeable_def kpage_def)
  have vv: "PGROUNDDOWN v = v" using entry_page [of v 0] v by simp
  obtain t where t: "kfree v s = Inr t" "kalloc_ok t" "kfree_pages t = v # kfree_pages s" "use_lock t = use_lock s" "kend t = kend s"
    "\<forall>a. a \<noteq> v \<longrightarrow> pmem t a = (if a - v < PGSIZE_xv then 0x01010101 else pmem s a)" using kfree_ok [OF assms] by blast
  have "ext {v} s t" using t(4-6) vv by (auto simp: ext_def in_page_iff [OF v])
  then show ?thesis using t by blast
qed

subsection \<open>Changing an entry\<close>

lemma PGROUNDDOWN_simps [simp]: "PGROUNDDOWN (PGROUNDDOWN a) = PGROUNDDOWN a" "PGROUNDDOWN a < KERNBASE_xv \<longleftrightarrow> a < KERNBASE_xv"
  "PDX_xv (PGROUNDDOWN a) = PDX_xv a" "PTX_xv (PGROUNDDOWN a) = PTX_xv a"
proof -
  show s: "PGROUNDDOWN (PGROUNDDOWN a) = PGROUNDDOWN a" by (simp add: unat_inj [symmetric] unat_PGROUNDDOWN)
  have "unat a div 4096 * 4096 < 2147483648 \<longleftrightarrow> unat a < 2147483648" using div_less_iff_less_mult [of 4096 "unat a" 524288] by simp
  then show "PGROUNDDOWN a < KERNBASE_xv \<longleftrightarrow> a < KERNBASE_xv" by (simp add: word_less_nat_alt KERNBASE_xv_def unat_PGROUNDDOWN)
  show "PDX_xv (PGROUNDDOWN a) = PDX_xv a" "PTX_xv (PGROUNDDOWN a) = PTX_xv a" using s same_page_iff by blast+
qed

lemma PGROUNDDOWN_aligned: "PGROUNDDOWN a mod PGSIZE_xv = 0" by (simp add: aligned_unat unat_PGROUNDDOWN)

lemma PGROUNDDOWN_id: "a mod PGSIZE_xv = 0 \<Longrightarrow> PGROUNDDOWN a = a" using entry_page [of a 0] by simp

lemma pte_at_page [simp]: "pte_at s pd (PGROUNDDOWN a) = pte_at s pd a" by (simp add: pte_at_def)

lemma PTE_ADDR_or: "PTE_ADDR_xv (x OR f) = PTE_ADDR_xv x OR PTE_ADDR_xv f"
  unfolding PTE_ADDR_xv_def by (simp only: bit.conj_disj_distrib2)

lemma PTE_ADDR_eq: "PTE_ADDR_xv x = PGROUNDDOWN x" by (simp add: PTE_ADDR_xv_def PGROUNDDOWN_def PGSIZE_xv_def)

lemma PTE_ADDR_0: "PTE_ADDR_xv f = 0 \<longleftrightarrow> f < PGSIZE_xv"
  by (simp add: PTE_ADDR_eq unat_eq_0 [symmetric] unat_PGROUNDDOWN word_less_nat_alt PGSIZE_xv_def div_eq_0_iff)

lemma PTE_ADDR_entry: "x mod PGSIZE_xv = 0 \<Longrightarrow> f < PGSIZE_xv \<Longrightarrow> PTE_ADDR_xv (x OR f) = x"
  unfolding PTE_ADDR_or using PTE_ADDR_0 [of f] by (simp add: PTE_ADDR_eq PGROUNDDOWN_id)

lemma V2P_aligned: "V2P v mod PGSIZE_xv = 0 \<longleftrightarrow> v mod PGSIZE_xv = 0"
proof -
  have "(v - 0x80000000) mod 4096 = 0" if "v mod 4096 = 0" by (rule page_aligned_diff [OF that]) simp
  moreover have "(v - 0x80000000 - 0x80000000) mod 4096 = 0" if "(v - 0x80000000) mod 4096 = 0" by (rule page_aligned_diff [OF that]) simp
  moreover have "v - 0x80000000 - 0x80000000 = v" by simp
  ultimately show ?thesis unfolding V2P_def KERNBASE_xv_def PGSIZE_xv_def by metis
qed

lemma P2V_V2P [simp]: "P2V (V2P v) = v" "V2P (P2V v) = v" by (simp_all add: P2V_def V2P_def)

lemma frame_entry: "v mod PGSIZE_xv = 0 \<Longrightarrow> f < PGSIZE_xv \<Longrightarrow> frame_of (V2P v OR f) = v"
  by (simp add: frame_of_def PTE_ADDR_entry V2P_aligned)

lemma flags_lt: "f < PGSIZE_xv \<Longrightarrow> g < PGSIZE_xv \<Longrightarrow> f OR g < PGSIZE_xv"
  by (simp flip: PTE_ADDR_0 add: PTE_ADDR_or)

lemma flag_lt [simp]: "PTE_P_xv < PGSIZE_xv" "PTE_W_xv < PGSIZE_xv" "PTE_U_xv < PGSIZE_xv" "PTE_FLAGS_xv e < PGSIZE_xv"
proof -
  have "e AND 0xFFF \<le> 0xFFF" by (rule word_and_le1)
  also have "0xFFF < (4096 :: u32)" by simp
  finally show "PTE_FLAGS_xv e < PGSIZE_xv" by (simp add: PTE_FLAGS_xv_def PGSIZE_xv_def)
qed (simp_all add: PTE_P_xv_def PTE_W_xv_def PTE_U_xv_def PGSIZE_xv_def)

lemma owns_table: "present_xv (pmem s (pd + 4 * PDX_xv va)) \<Longrightarrow> owns s pd (Table (PDX_xv va)) = Some (tab s pd (PDX_xv va))"
  by (simp add: PDX_xv_lt)

lemma table_entry:
  assumes "vinv s pd" "present_xv (pmem s (pd + 4 * PDX_xv va))"
  shows "PGROUNDDOWN (tab s pd (PDX_xv va) + 4 * PTX_xv va) = tab s pd (PDX_xv va)" "tab s pd (PDX_xv va) \<noteq> pd"
    "tab s pd (PDX_xv va) mod PGSIZE_xv = 0" "tab s pd (PDX_xv va) \<notin> set (kfree_pages s)" "tab s pd (PDX_xv va) + 4 * PTX_xv va \<noteq> 0"
proof -
  note h = owns_table [OF assms(2)]
  show v: "tab s pd (PDX_xv va) mod PGSIZE_xv = 0" "tab s pd (PDX_xv va) \<notin> set (kfree_pages s)" using vinvD(5) [OF assms(1) h] by auto
  show p: "PGROUNDDOWN (tab s pd (PDX_xv va) + 4 * PTX_xv va) = tab s pd (PDX_xv va)" by (rule entry_page [OF v(1) PTX_xv_lt])
  show "tab s pd (PDX_xv va) \<noteq> pd" using vinvD(4) [OF assms(1) h, of Root] by auto
  have "tab s pd (PDX_xv va) \<noteq> 0" using vinvD(3) [OF assms(1) h] vinvD(1,2) [OF assms(1)] kpage_nz by (auto simp: kfreeable_def kalloc_ok_def)
  then show "tab s pd (PDX_xv va) + 4 * PTX_xv va \<noteq> 0" using p PGROUNDDOWN_id [of 0] by auto
qed

lemma set_entry:
  fixes x :: u32
  assumes "vinv s pd" "present_xv (pmem s (pd + 4 * PDX_xv va))"
  defines "t \<equiv> put_word (tab s pd (PDX_xv va) + 4 * PTX_xv va) x s"
  shows "pte_at t pd = (\<lambda>b. if PGROUNDDOWN b = PGROUNDDOWN va then x else pte_at s pd b)"
    "owns t pd = (owns s pd)(Frame (PGROUNDDOWN va) := if va < KERNBASE_xv \<and> present_xv x then Some (frame_of x) else None)"
    "kalloc_ok t" "kfree_pages t = kfree_pages s" "ext {tab s pd (PDX_xv va)} s t"
proof -
  note e = table_entry [OF assms(1,2)]
  let ?r = "tab s pd (PDX_xv va) + 4 * PTX_xv va"
  show "kalloc_ok t" "kfree_pages t = kfree_pages s" "ext {tab s pd (PDX_xv va)} s t"
    using kalloc_ok_store [OF vinvD(1) [OF assms(1)], of ?r x] e(1,4) by (auto simp: t_def)
  have d: "pmem t (pd + 4 * i) = pmem s (pd + 4 * i)" if "i < 1024" for i
  proof -
    have "pd + 4 * i \<noteq> ?r" using entry_page [OF vinvD(6) [OF assms(1)] that] e(1,2) by metis
    then show ?thesis by (simp add: t_def put_word_def)
  qed
  have p: "pte_at t pd b = (if PGROUNDDOWN b = PGROUNDDOWN va then x else pte_at s pd b)" for b
  proof (cases "present_xv (pmem s (pd + 4 * PDX_xv b))")
    case True
    note b = table_entry [OF assms(1) True] owns_table [OF True]
    have "tab s pd (PDX_xv b) + 4 * PTX_xv b = ?r \<longleftrightarrow> tab s pd (PDX_xv b) = tab s pd (PDX_xv va) \<and> PTX_xv b = PTX_xv va"
      by (intro entry_inj b e PTX_xv_lt)
    moreover have "tab s pd (PDX_xv b) = tab s pd (PDX_xv va) \<longleftrightarrow> PDX_xv b = PDX_xv va"
      using vinvD(4) [OF assms(1) b(6), of "Table (PDX_xv va)"] owns_table [OF assms(2)] by auto
    ultimately show ?thesis using True by (auto simp: pte_at_def tab_def d PDX_xv_lt same_page_iff) (auto simp: t_def put_word_def tab_def)
  next
    case False
    then have "PGROUNDDOWN b \<noteq> PGROUNDDOWN va" using assms(2) by (auto simp: same_page_iff)
    then show ?thesis using False by (simp add: pte_at_def d PDX_xv_lt)
  qed
  then show "pte_at t pd = (\<lambda>b. if PGROUNDDOWN b = PGROUNDDOWN va then x else pte_at s pd b)" by blast
  show "owns t pd = (owns s pd)(Frame (PGROUNDDOWN va) := if va < KERNBASE_xv \<and> present_xv x then Some (frame_of x) else None)"
  proof
    fix y
    show "owns t pd y = ((owns s pd)(Frame (PGROUNDDOWN va) := if va < KERNBASE_xv \<and> present_xv x then Some (frame_of x) else None)) y"
      by (cases y) (auto simp: p d tab_def dest: sym)
  qed
qed

lemma new_table:
  fixes i v :: u32
  assumes "vinv s pd" "i < 1024" "\<not> present_xv (pmem s (pd + 4 * i))" "kpage s v" "v \<notin> pool s pd"
  defines "t \<equiv> put_word (pd + 4 * i) (V2P v OR PTE_P_xv OR PTE_W_xv OR PTE_U_xv) (zero_page v s)"
  shows "pte_at t pd = pte_at s pd" "owns t pd = (owns s pd)(Table i \<mapsto> v)" "kalloc_ok t" "kfree_pages t = kfree_pages s" "ext {pd, v} s t" "tab t pd i = v"
proof -
  have v: "v mod PGSIZE_xv = 0" "v \<notin> set (kfree_pages s)" "v \<noteq> pd" using assms(4,5) by (auto simp: kpage_def pool_def ran_def split: if_splits intro: owns.simps(1))
  have pd: "pd mod PGSIZE_xv = 0" "pd \<notin> set (kfree_pages s)" using vinvD(5,6) [OF assms(1)] owns.simps(1) by blast+
  note z = kalloc_ok_zero [OF vinvD(1) [OF assms(1)] v(2,1)]
  let ?e = "V2P v OR PTE_P_xv OR PTE_W_xv OR PTE_U_xv"
  have fr: "frame_of ?e = v" using frame_entry [OF v(1), of "PTE_P_xv OR PTE_W_xv OR PTE_U_xv"] by (simp add: flags_lt or.assoc)
  note pe = entry_page [OF pd(1)]
  have st: "kalloc_ok t" "kfree_pages t = kfree_pages s" "ext {pd} (zero_page v s) t"
    using kalloc_ok_store [OF z(1), of "pd + 4 * i" ?e] pe [OF assms(2)] pd(2) z(2) by (auto simp: t_def)
  then show "kalloc_ok t" "kfree_pages t = kfree_pages s" "ext {pd, v} s t" using ext_trans [OF z(3) st(3)] by auto
  have d: "pmem t (pd + 4 * j) = (if j = i then ?e else pmem s (pd + 4 * j))" if "j < 1024" for j
    using entry_inj [OF pd(1) pd(1) that assms(2)] z(3) pe [OF that] v(3) by (auto simp: t_def put_word_def ext_def)
  have tb: "tab t pd j = (if j = i then v else tab s pd j)" if "j < 1024" for j using fr that by (simp add: tab_def d frame_of_def)
  then show "tab t pd i = v" using assms(2) by simp
  have new: "pmem t a = 0" if "PGROUNDDOWN a = v" for a
    using z(4) [OF that] pe [OF assms(2)] v(3) that by (auto simp: t_def put_word_def)
  have old: "pmem t a = pmem s a" if "PGROUNDDOWN a \<noteq> v" "PGROUNDDOWN a \<noteq> pd" for a
    using that st(3) z(3) by (auto simp: ext_def)
  have p: "pte_at t pd b = pte_at s pd b" for b
  proof (cases "PDX_xv b = i")
    case True
    then show ?thesis using assms(2,3) new [of "v + 4 * PTX_xv b"] entry_page [OF v(1) PTX_xv_lt] by (simp add: pte_at_def d tb)
  next
    case False
    show ?thesis
    proof (cases "present_xv (pmem s (pd + 4 * PDX_xv b))")
      case True
      note b = table_entry [OF assms(1) True]
      have "tab s pd (PDX_xv b) \<noteq> v" using vinvD(5) [OF assms(1) owns_table [OF True]] assms(5) by auto
      then show ?thesis using False True b(1,2) old by (simp add: pte_at_def d tb PDX_xv_lt)
    qed (use False in \<open>simp add: pte_at_def d PDX_xv_lt\<close>)
  qed
  then show "pte_at t pd = pte_at s pd" by blast
  show "owns t pd = (owns s pd)(Table i \<mapsto> v)"
  proof
    fix y show "owns t pd y = ((owns s pd)(Table i \<mapsto> v)) y" by (cases y) (use assms(2) in \<open>auto simp: p d tb split: if_splits\<close>)
  qed
qed

subsection \<open>Walking\<close>

lemma walkpgdir_find:
  "walkpgdir pd va False s = Inr (if present_xv (pmem s (pd + 4 * PDX_xv va)) then tab s pd (PDX_xv va) + 4 * PTX_xv va else 0, s)"
  by (simp add: walkpgdir_def Let_def tab_def)

lemma walkpgdir_alloc:
  assumes "vinv s pd"
  shows "\<exists>r t. walkpgdir pd va True s = Inr (r, t) \<and> vinv t pd \<and> pool t pd = pool s pd \<and> ext (meta s pd) s t \<and> meta t pd = meta s pd \<and> set (kfree_pages t) \<subseteq> set (kfree_pages s) \<and> pte_at t pd = pte_at s pd \<and>
    (r = 0 \<and> kfree_pages t = [] \<or> present_xv (pmem t (pd + 4 * PDX_xv va)) \<and> r = tab t pd (PDX_xv va) + 4 * PTX_xv va)"
proof (cases "present_xv (pmem s (pd + 4 * PDX_xv va))")
  case True
  then show ?thesis using assms by (intro exI [of _ "tab s pd (PDX_xv va) + 4 * PTX_xv va"] exI [of _ s]) (simp add: walkpgdir_def Let_def tab_def)
next
  case False
  note w = False walkpgdir_def Let_def
  note k = kalloc_cases [OF vinvD(1) [OF assms]]
  show ?thesis
  proof (cases "kfree_pages s = []")
    case True
    then have "kalloc s = Inr (0, s)" using k by auto
    then show ?thesis using assms True by (intro exI [of _ 0] exI [of _ s]) (simp add: w)
  next
    case nonempty: False
    then obtain v u where u: "kalloc s = Inr (v, u)" "v \<noteq> 0" "kalloc_ok u" "kfree_pages s = v # kfree_pages u" "kfreeable u v" "pmem u = pmem s" "ext {} s u"
      using k by auto
    have same: "owns u pd = owns s pd" "pte_at u pd = pte_at s pd" by (rule held_cong [OF assms]; simp add: u(6))+
    then have iu: "vinv u pd" using u by (intro vinv_same [OF assms]) (auto simp: ext_def)
    have vr: "v \<notin> ran (owns s pd)" using vinvD(5) [OF assms] u(4) by (auto simp: ran_def)
    have vp: "v \<notin> pool u pd" "kpage u v" using vr u(5) same by (auto simp: pool_def kfreeable_def)
    let ?t = "put_word (pd + 4 * PDX_xv va) (V2P v OR PTE_P_xv OR PTE_W_xv OR PTE_U_xv) (zero_page v u)"
    note n = new_table [OF iu PDX_xv_lt _ vp(2,1), of va]
    have np: "\<not> present_xv (pmem u (pd + 4 * PDX_xv va))" using False u(6) by simp
    have on: "owns s pd (Table (PDX_xv va)) = None" using False by simp
    have t: "vinv ?t pd \<and> ran (owns ?t pd) = insert v (ran (owns u pd))"
      using n [OF np] on same vp u(5) by (intro vinv_add [OF iu, of _ "Table (PDX_xv va)" v]) (auto simp: ext_def pool_def kfreeable_def)
    have "walkpgdir pd va True s = Inr (v + 4 * PTX_xv va, ?t)" using u by (simp add: w)
    moreover have "pool ?t pd = pool s pd" using t n(4) [OF np] u(4) same by (auto simp: pool_def)
    moreover have "meta ?t pd = meta s pd" 
    proof -
      have "tables ?t pd = (tables s pd)(Table (PDX_xv va) \<mapsto> v)" using n(2) [OF np] same by (intro tables_upd) simp
      moreover have "tables s pd (Table (PDX_xv va)) = None" using on by (simp add: tables_def)
      ultimately show ?thesis using u(4) n(4) [OF np] by (auto simp: meta_def ran_map_upd)
    qed
    moreover have "{pd, v} \<subseteq> meta s pd" using u(4) ranI [of "tables s pd" Root pd] by (simp add: meta_def tables_def)
    then have "ext (meta s pd) s ?t" using ext_trans [OF u(7) n(5) [OF np]] by auto
    moreover have "present_xv (pmem ?t (pd + 4 * PDX_xv va))" by (simp add: put_word_def)
    moreover have "set (kfree_pages ?t) \<subseteq> set (kfree_pages s)" using n(4) [OF np] u(4) by auto
    ultimately show ?thesis using t n(1,6) [OF np] same(2) by (intro exI [of _ "v + 4 * PTX_xv va"] exI [of _ ?t]) simp
  qed
qed

subsection \<open>Mapping pages\<close>

text \<open>\<open>mapped\<close>: the entry of the page at \<open>a\<close> is \<open>x\<close> now, and the pages of \<open>F\<close> have joined the pool.\<close>

definition mapped :: "u32 \<Rightarrow> (u32 \<Rightarrow> u32) \<Rightarrow> u32 set \<Rightarrow> kalloc_st \<Rightarrow> kalloc_st \<Rightarrow> bool" where
  "mapped pd es F s t \<longleftrightarrow> vinv t pd \<and> pte_at t pd = es \<and> pool t pd = pool s pd \<union> F \<and> meta t pd = meta s pd \<and>
     set (kfree_pages t) \<subseteq> set (kfree_pages s) \<and> ext (meta s pd) s t"

lemma mapped_trans: "mapped pd es F s t \<Longrightarrow> mapped pd es' G t u \<Longrightarrow> mapped pd es' (F \<union> G) s u"
  by (auto simp: mapped_def intro: ext_trans)

lemma meta_set_entry:
  assumes "vinv s pd" "present_xv (pmem s (pd + 4 * PDX_xv va))"
  shows "meta (put_word (tab s pd (PDX_xv va) + 4 * PTX_xv va) x s) pd = meta s pd" "tab s pd (PDX_xv va) \<in> meta s pd"
proof -
  note e = set_entry [OF assms, of x]
  show "meta (put_word (tab s pd (PDX_xv va) + 4 * PTX_xv va) x s) pd = meta s pd" using tables_upd(2) [OF e(2)] e(4) by (simp add: meta_def)
  show "tab s pd (PDX_xv va) \<in> meta s pd" using ranI [of "tables s pd" "Table (PDX_xv va)"] owns_table [OF assms(2)] by (auto simp: meta_def tables_def)
qed

lemma map_entry:
  assumes "vinv s pd" "\<not> present_xv (pte_at s pd a)" "present_xv x" "a < KERNBASE_xv \<Longrightarrow> kpage s (frame_of x) \<and> frame_of x \<notin> pool s pd"
  shows "\<exists>r u. walkpgdir pd a True s = Inr (r, u) \<and> mapped pd (pte_at s pd) {} s u \<and> (r = 0 \<and> kfree_pages u = [] \<or> r \<noteq> 0 \<and> \<not> present_xv (pmem u r) \<and>
    mapped pd (\<lambda>b. if PGROUNDDOWN b = PGROUNDDOWN a then x else pte_at s pd b) (if a < KERNBASE_xv then {frame_of x} else {}) s (put_word r x u))"
proof -
  obtain r u where u: "walkpgdir pd a True s = Inr (r, u)" "vinv u pd" "pool u pd = pool s pd" "ext (meta s pd) s u" "meta u pd = meta s pd" "pte_at u pd = pte_at s pd"
    "set (kfree_pages u) \<subseteq> set (kfree_pages s)" "r = 0 \<and> kfree_pages u = [] \<or> present_xv (pmem u (pd + 4 * PDX_xv a)) \<and> r = tab u pd (PDX_xv a) + 4 * PTX_xv a" using walkpgdir_alloc [OF assms(1), of a] by blast
  have m: "mapped pd (pte_at s pd) {} s u" using u by (simp add: mapped_def)
  show ?thesis
  proof (cases "r = 0")
    case False
    then have p: "present_xv (pmem u (pd + 4 * PDX_xv a))" "r = tab u pd (PDX_xv a) + 4 * PTX_xv a" using u(8) by auto
    note e = set_entry [OF u(2) p(1), of x, folded p(2)]
    have np: "\<not> present_xv (pmem u r)" using assms(2) p u(6) by (metis pte_at_def)
    let ?t = "put_word r x u"
    have fr: "owns u pd (Frame (PGROUNDDOWN a)) = None" using assms(2) u(6) by simp
    have kp: "kpage u = kpage s" using ext_kpage [OF u(4)] .
    have o: "vinv ?t pd \<and> ran (owns ?t pd) = ran (owns u pd) \<union> (if a < KERNBASE_xv then {frame_of x} else {})"
    proof (cases "a < KERNBASE_xv")
      case True
      then show ?thesis using vinv_add [OF u(2), of ?t "Frame (PGROUNDDOWN a)" "frame_of x"] e fr kp assms(3,4) u(3) by (auto simp: ext_def pool_def)
    next
      case False
      then have "owns ?t pd = owns u pd" using e(2) fr by (simp add: fun_upd_idem_iff)
      then show ?thesis using vinv_same [OF u(2), of ?t] e False by (auto simp: ext_def)
    qed
    have "meta ?t pd = meta s pd" "ext (meta s pd) s ?t"
      using meta_set_entry [OF u(2) p(1)] u(5) ext_trans [OF u(4) e(5), of "meta s pd"] by (auto simp: p(2))
    then have "mapped pd (\<lambda>b. if PGROUNDDOWN b = PGROUNDDOWN a then x else pte_at s pd b) (if a < KERNBASE_xv then {frame_of x} else {}) s ?t"
      using o e(1,4) u(3,6,7) by (auto simp: mapped_def pool_def)
    then show ?thesis using u(1) m False np by blast
  next
    case True
    then have "kfree_pages u = []" using u(8) table_entry(5) [OF u(2)] by auto
    then show ?thesis using u(1) m True by blast
  qed
qed

lemma mappages_page:
  assumes "vinv s pd" "PGROUNDDOWN a = a" "a < KERNBASE_xv" "\<not> present_xv (pte_at s pd a)" "kpage s v" "v \<notin> pool s pd" "perm < PGSIZE_xv"
  shows "(\<exists>t. mappages pd a PGSIZE_xv (V2P v) perm s = xret (-1, t) \<and> mapped pd (pte_at s pd) {} s t \<and> kfree_pages t = []) \<or>
    (\<exists>t. mappages pd a PGSIZE_xv (V2P v) perm s = xret (0, t) \<and>
       mapped pd (\<lambda>b. if PGROUNDDOWN b = a then V2P v OR perm OR PTE_P_xv else pte_at s pd b) {v} s t)"
proof -
  let ?x = "V2P v OR perm OR PTE_P_xv"
  have "frame_of ?x = v" using frame_entry [of v "perm OR PTE_P_xv"] assms(5,7) by (simp add: kpage_def flags_lt or.assoc)
  then obtain r u where u: "walkpgdir pd a True s = Inr (r, u)" "mapped pd (pte_at s pd) {} s u"
    "r = 0 \<and> kfree_pages u = [] \<or> r \<noteq> 0 \<and> \<not> present_xv (pmem u r) \<and> mapped pd (\<lambda>b. if PGROUNDDOWN b = a then ?x else pte_at s pd b) {v} s (put_word r ?x u)"
    using map_entry [OF assms(1,4), of ?x] assms(2,3,5,6) by auto
  have "unat a < 2147483648" using assms(3) by (simp add: word_less_nat_alt KERNBASE_xv_def)
  then have "unat (a + 4095) = unat a + 4095" by (simp add: unat_word_ariths)
  moreover obtain k where "unat a = 4096 * k" using PGROUNDDOWN_aligned [of a] assms(2) by (auto simp: aligned_unat mod_eq_0_iff_dvd)
  ultimately have "unat (PGROUNDDOWN (a + 4095)) = unat a" by (simp add: unat_PGROUNDDOWN)
  then have "PGROUNDDOWN (a + PGSIZE_xv - 1) = a" by (simp add: PGSIZE_xv_def add_diff_eq [symmetric] unat_inj)
  then have "mappages pd a PGSIZE_xv (V2P v) perm s = mappages_loop pd a a (V2P v) perm s" using assms(2) by (simp add: mappages_def)
  also have "\<dots> = (if r = 0 then xret (-1, u) else xret (0, put_word r ?x u))" using u by (subst mappages_loop.simps) (auto simp: Let_def)
  finally show ?thesis using u by auto
qed

subsection \<open>Unmapping pages\<close>

text \<open>The entries with the present ones of the pages from \<open>a\<close> up to \<open>b\<close> cleared.\<close>

definition cleared :: "u32 \<Rightarrow> u32 \<Rightarrow> (u32 \<Rightarrow> u32) \<Rightarrow> u32 \<Rightarrow> u32" where
  "cleared a b es va = (if a \<le> PGROUNDDOWN va \<and> PGROUNDDOWN va < b \<and> present_xv (es va) then 0 else es va)"

text \<open>\<open>unmapped\<close>: the frames of the cleared entries are free now.\<close>

definition unmapped :: "u32 \<Rightarrow> (u32 \<Rightarrow> u32) \<Rightarrow> kalloc_st \<Rightarrow> kalloc_st \<Rightarrow> bool" where
  "unmapped pd es s t \<longleftrightarrow> vinv t pd \<and> pte_at t pd = es \<and> pool t pd = pool s pd \<and> tables t pd = tables s pd \<and>
     set (kfree_pages s) \<subseteq> set (kfree_pages t) \<and> ext (ran (tables s pd) \<union> set (kfree_pages t)) s t"

lemma unmapped_trans: "unmapped pd es s t \<Longrightarrow> unmapped pd es' t u \<Longrightarrow> unmapped pd es' s u"
  by (auto simp: unmapped_def elim!: ext_trans [where R = "ran (tables s pd) \<union> set (kfree_pages u)"])

lemma tables_cong:
  assumes "vinv s pd" "\<And>a. PGROUNDDOWN a \<in> ran (tables s pd) \<Longrightarrow> pmem t a = pmem s a"
  shows "owns t pd = owns s pd" "pte_at t pd = pte_at s pd" "tables t pd = tables s pd"
proof -
  have "owns t pd = owns s pd \<and> pte_at t pd = pte_at s pd"
  proof (intro conjI held_cong [OF assms(1)])
    show "pmem t a = pmem s a" if "PGROUNDDOWN a = pd" for a
      using assms(2) ranI [of "tables s pd" Root pd] that by (simp add: tables_def)
    show "pmem t a = pmem s a" if "owns s pd (Table i) = Some (PGROUNDDOWN a)" for a i
      using assms(2) ranI [of "tables s pd" "Table i"] that by (simp add: tables_def del: owns.simps)
    show "pmem t a = pmem s a" if "PGROUNDDOWN a = pd" for a
      using assms(2) ranI [of "tables s pd" Root pd] that by (simp add: tables_def)
    show "pmem t a = pmem s a" if "owns s pd (Table i) = Some (PGROUNDDOWN a)" for a i
      using assms(2) ranI [of "tables s pd" "Table i"] that by (simp add: tables_def del: owns.simps)
  qed
  then show "owns t pd = owns s pd" "pte_at t pd = pte_at s pd" "tables t pd = tables s pd" by (auto simp: tables_def fun_eq_iff simp del: owns.simps)
qed

lemma table_frame:
  assumes "vinv s pd" "owns s pd (Frame a) = Some v"
  shows "v \<notin> ran (tables s pd)"
proof
  assume "v \<in> ran (tables s pd)"
  then obtain x where x: "\<not> is_Frame x" "owns s pd x = Some v" by (auto simp: ran_def tables_def simp del: owns.simps split: if_splits)
  then show False using vinvD(4) [OF assms(1) assms(2) x(2)] by auto
qed

lemma unmap_page:
  assumes "vinv s pd" "a < KERNBASE_xv" "PGROUNDDOWN a = a" "present_xv (pte_at s pd a)"
  defines "r \<equiv> tab s pd (PDX_xv a) + 4 * PTX_xv a"
  shows "present_xv (pmem s (pd + 4 * PDX_xv a))" "pmem s r = pte_at s pd a" "PTE_ADDR_xv (pmem s r) \<noteq> 0"
    "\<exists>u. kfree (frame_of (pmem s r)) s = Inr u \<and> unmapped pd (\<lambda>b. if PGROUNDDOWN b = a then 0 else pte_at s pd b) s (put_word r 0 u)"
proof -
  show p: "present_xv (pmem s (pd + 4 * PDX_xv a))" and e: "pmem s r = pte_at s pd a" using assms(4) by (auto simp: pte_at_def r_def split: if_splits)
  let ?v = "frame_of (pte_at s pd a)"
  have o: "owns s pd (Frame a) = Some ?v" using assms(2-4) by simp
  note f = vinvD(3,5) [OF assms(1) o]
  show "PTE_ADDR_xv (pmem s r) \<noteq> 0"
  proof
    assume "PTE_ADDR_xv (pmem s r) = 0"
    then have "?v = KERNBASE_xv" by (simp add: e frame_of_def P2V_def)
    then show False using f(1) vinvD(2) [OF assms(1)] by (auto simp: kfreeable_def kpage_def)
  qed
  obtain u where u: "kfree ?v s = Inr u" "kalloc_ok u" "kfree_pages u = ?v # kfree_pages s" "ext {?v} s u" using kfree_ext [OF vinvD(1) [OF assms(1)] f(1)] by blast
  txt \<open>Between the two writes the entry still refers to the freed page, so the change of the entry is followed by hand.\<close>
  note t = set_entry [OF assms(1) p, of 0, folded r_def]
  let ?t = "put_word r 0 u"
  have rt: "PGROUNDDOWN r \<in> ran (tables s pd)" "PGROUNDDOWN r \<noteq> ?v"
    using table_entry(1) [OF assms(1) p] ranI [of "tables s pd" "Table (PDX_xv a)"] owns_table [OF p] table_frame [OF assms(1) o]
    by (auto simp: r_def tables_def)
  have words: "pmem ?t b = pmem (put_word r 0 s) b" if "PGROUNDDOWN b \<noteq> ?v" for b using u(4) that by (auto simp: put_word_def ext_def)
  have vt: "vinv (put_word r 0 s) pd"
  proof -
    have "owns (put_word r 0 s) pd = (owns s pd)(Frame a := None)" using t(2) assms(3) by simp
    then show ?thesis using assms(1) t(3-5) by (auto simp: vinv_def kfreeable_def kpage_def ext_def simp del: owns.simps split: if_splits)
  qed
  have tt: "tables (put_word r 0 s) pd = tables s pd" using tables_upd(2) [OF t(2)] .
  have c: "owns ?t pd = owns (put_word r 0 s) pd" "pte_at ?t pd = pte_at (put_word r 0 s) pd" "tables ?t pd = tables (put_word r 0 s) pd"
    by (rule tables_cong [OF vt]; use words table_frame [OF assms(1) o] tt in metis)+
  have kt: "kalloc_ok ?t" "kfree_pages ?t = ?v # kfree_pages s" "ext {PGROUNDDOWN r} u ?t"
  proof -
    have "PGROUNDDOWN r \<notin> set (kfree_pages u)" using rt u(3) table_entry(1,4) [OF assms(1) p] by (auto simp: r_def)
    from kalloc_ok_store [OF u(2) this, of 0] show "kalloc_ok ?t" "kfree_pages ?t = ?v # kfree_pages s" "ext {PGROUNDDOWN r} u ?t" using u(3) by auto
  qed
  have "owns ?t pd = (owns s pd)(Frame a := None)" using c(1) t(2) assms(3) by simp
  then have "vinv ?t pd \<and> pool ?t pd = pool s pd"
    using kt u(4) by (intro vinv_del [OF assms(1) _ o]) (auto simp: ext_def)
  moreover have "ext (ran (tables s pd) \<union> set (kfree_pages ?t)) s ?t" using ext_trans [OF u(4) kt(3)] rt kt(2) by auto
  ultimately have "unmapped pd (\<lambda>b. if PGROUNDDOWN b = a then 0 else pte_at s pd b) s ?t"
    using c(2,3) t(1) tt kt(2) assms(3) by (auto simp: unmapped_def)
  then show "\<exists>u. kfree (frame_of (pmem s r)) s = Inr u \<and> unmapped pd (\<lambda>b. if PGROUNDDOWN b = a then 0 else pte_at s pd b) s (put_word r 0 u)" using u(1) e by auto
qed

lemma unat_next_page: "a < KERNBASE_xv \<Longrightarrow> unat (a + PGSIZE_xv) = unat a + 4096"
  by (simp add: PGSIZE_xv_def unat_word_ariths word_less_nat_alt KERNBASE_xv_def)

lemma page_unat: "PGROUNDDOWN a = a \<Longrightarrow> \<exists>k. unat a = 4096 * k"
  using unat_PGROUNDDOWN [of a] by (metis mult.commute)

lemma next_page: "PGROUNDDOWN a = a \<Longrightarrow> a < KERNBASE_xv \<Longrightarrow> PGROUNDDOWN (a + PGSIZE_xv) = a + PGSIZE_xv"
  using page_unat [of a] unat_next_page [of a] by (auto simp: unat_inj [symmetric] unat_PGROUNDDOWN)

lemma page_le_iff:
  assumes "PGROUNDDOWN a = a" "PGROUNDDOWN p = p" "a < KERNBASE_xv"
  shows "a \<le> p \<longleftrightarrow> p = a \<or> a + PGSIZE_xv \<le> p"
proof -
  obtain k l where "unat a = 4096 * k" "unat p = 4096 * l" using assms page_unat by blast
  then have "unat a \<le> unat p \<longleftrightarrow> unat p = unat a \<or> unat a + 4096 \<le> unat p" by (cases "k \<le> l"; cases "k = l") auto
  then show ?thesis by (simp add: word_le_nat_alt unat_next_page [OF assms(3)] unat_inj)
qed

lemma cleared_step:
  assumes "PGROUNDDOWN a = a" "a < b" "b \<le> KERNBASE_xv"
  shows "cleared a b es = cleared (a + PGSIZE_xv) b (\<lambda>va. if PGROUNDDOWN va = a \<and> present_xv (es va) then 0 else es va)"
proof
  fix va
  have "a < KERNBASE_xv" using assms(2,3) by simp
  then show "cleared a b es va = cleared (a + PGSIZE_xv) b (\<lambda>va. if PGROUNDDOWN va = a \<and> present_xv (es va) then 0 else es va) va"
    using page_le_iff [of a "PGROUNDDOWN va"] assms(1,2) by (auto simp: cleared_def)
qed

lemma cleared_id: "b \<le> a \<Longrightarrow> cleared a b es = es"
  by (auto simp: cleared_def fun_eq_iff)

lemma unmapped_refl: "vinv s pd \<Longrightarrow> unmapped pd (pte_at s pd) s s" by (simp add: unmapped_def)

text \<open>The first address of the next page table.\<close>

lemma next_table:
  assumes "a < KERNBASE_xv"
  defines "n \<equiv> PGADDR_xv (PDX_xv a + 1) 0 0"
  shows "unat n = (unat a div 4194304 + 1) * 4194304" "PGROUNDDOWN n = n" "a < n" "a \<le> p \<Longrightarrow> p < n \<Longrightarrow> PDX_xv p = PDX_xv a"
proof -
  have a: "unat a < 2147483648" using assms(1) by (simp add: word_less_nat_alt KERNBASE_xv_def)
  then have d: "unat a div 4194304 < 512" by (simp add: less_mult_imp_div_less)
  have "unat (PDX_xv a + 1) = unat a div 4194304 + 1" using d by (simp add: unat_word_ariths unat_PDX_xv)
  moreover have "n = (PDX_xv a + 1) * 4194304" by (simp add: n_def PGADDR_xv_def push_bit_eq_mult)
  ultimately show n: "unat n = (unat a div 4194304 + 1) * 4194304" using d unat_mult_lem [of "PDX_xv a + 1" 4194304] by simp
  show "PGROUNDDOWN n = n" unfolding unat_inj [symmetric] unat_PGROUNDDOWN n by simp
  show "a < n" using n by (simp add: word_less_nat_alt)
  show "PDX_xv p = PDX_xv a" if "a \<le> p" "p < n"
  proof -
    have "unat a \<le> unat p" "unat p < (unat a div 4194304 + 1) * 4194304" using that n by (simp_all add: word_le_nat_alt word_less_nat_alt)
    then have "unat p div 4194304 = unat a div 4194304" using div_times_less_eq_dividend [of "unat a" 4194304] by (intro div_nat_eqI) (auto simp: algebra_simps)
    then show ?thesis by (simp add: unat_inj [symmetric] unat_PDX_xv)
  qed
qed

lemma deallocuvm_loop_eqs:
  shows "\<not> a < oldsz \<Longrightarrow> deallocuvm_loop pd a oldsz s = xret s"
    "a < oldsz \<Longrightarrow> \<not> present_xv (pmem s (pd + 4 * PDX_xv a)) \<Longrightarrow> deallocuvm_loop pd a oldsz s = deallocuvm_loop pd (PGADDR_xv (PDX_xv a + 1) 0 0) oldsz s"
    "a < oldsz \<Longrightarrow> vinv s pd \<Longrightarrow> present_xv (pmem s (pd + 4 * PDX_xv a)) \<Longrightarrow> \<not> present_xv (pte_at s pd a) \<Longrightarrow>
      deallocuvm_loop pd a oldsz s = deallocuvm_loop pd (a + PGSIZE_xv) oldsz s"
    "a < oldsz \<Longrightarrow> vinv s pd \<Longrightarrow> present_xv (pmem s (pd + 4 * PDX_xv a)) \<Longrightarrow> present_xv (pte_at s pd a) \<Longrightarrow> PTE_ADDR_xv (pte_at s pd a) \<noteq> 0 \<Longrightarrow>
      kfree (frame_of (pte_at s pd a)) s = Inr u \<Longrightarrow> deallocuvm_loop pd a oldsz s = deallocuvm_loop pd (a + PGSIZE_xv) oldsz (put_word (tab s pd (PDX_xv a) + 4 * PTX_xv a) 0 u)"
  using table_entry(5) [of s pd a]
  by (subst deallocuvm_loop.simps; simp add: walkpgdir_find Let_def frame_of_def pte_at_def)+

lemma clear_entry:
  assumes "present_xv (es a)" "\<And>b. es (PGROUNDDOWN b) = es b"
  shows "(\<lambda>b. if PGROUNDDOWN b = a then 0 else es b) = (\<lambda>b. if PGROUNDDOWN b = a \<and> present_xv (es b) then 0 else es b)"
proof
  fix b
  show "(if PGROUNDDOWN b = a then 0 else es b) = (if PGROUNDDOWN b = a \<and> present_xv (es b) then 0 else es b)" using assms(1) assms(2) [of b] by auto
qed

lemma clear_empty:
  assumes "\<not> present_xv (es a)" "\<And>b. es (PGROUNDDOWN b) = es b"
  shows "(\<lambda>b. if PGROUNDDOWN b = a \<and> present_xv (es b) then 0 else es b) = es"
proof
  fix b
  show "(if PGROUNDDOWN b = a \<and> present_xv (es b) then 0 else es b) = es b" using assms(1) assms(2) [of b] by auto
qed

lemma clear_gap:
  assumes "a < KERNBASE_xv" "\<not> present_xv (pmem s (pd + 4 * PDX_xv a))"
  shows "cleared a b (pte_at s pd) = cleared (PGADDR_xv (PDX_xv a + 1) 0 0) b (pte_at s pd)"
proof
  fix va
  show "cleared a b (pte_at s pd) va = cleared (PGADDR_xv (PDX_xv a + 1) 0 0) b (pte_at s pd) va"
  proof (cases "a \<le> PGROUNDDOWN va \<and> PGROUNDDOWN va < PGADDR_xv (PDX_xv a + 1) 0 0")
    case True
    then have "pte_at s pd va = 0" using next_table(4) [OF assms(1), of "PGROUNDDOWN va"] assms(2) by (simp add: pte_at_def)
    then show ?thesis by (simp add: cleared_def)
  next
    case False
    then show ?thesis using next_table(3) [OF assms(1)] by (auto simp: cleared_def)
  qed
qed

lemma deallocuvm_loop_ok:
  assumes "vinv s pd" "PGROUNDDOWN a = a" "oldsz \<le> KERNBASE_xv"
  shows "\<exists>t. deallocuvm_loop pd a oldsz s = xret t \<and> unmapped pd (cleared a oldsz (pte_at s pd)) s t"
  using assms
proof (induction "unat oldsz - unat a" arbitrary: a s rule: less_induct)
  case less
  show ?case
  proof (cases "a < oldsz")
    case False
    then show ?thesis using less.prems by (simp add: deallocuvm_loop_eqs cleared_id unmapped_refl)
  next
    case True
    then have k: "a < KERNBASE_xv" using less.prems(3) by simp
    let ?r = "tab s pd (PDX_xv a) + 4 * PTX_xv a"
    have dn: "unat oldsz - unat (a + PGSIZE_xv) < unat oldsz - unat a" "unat oldsz - unat (PGADDR_xv (PDX_xv a + 1) 0 0) < unat oldsz - unat a"
      using True next_table(3) [OF k] unat_next_page [OF k] by (auto simp: word_less_nat_alt)
    note nx = next_page [OF less.prems(2) k]
    note st = cleared_step [OF less.prems(2) True less.prems(3), of "pte_at s pd"]
    consider (gap) "\<not> present_xv (pmem s (pd + 4 * PDX_xv a))" | (empty) "present_xv (pmem s (pd + 4 * PDX_xv a))" "\<not> present_xv (pte_at s pd a)"
      | (full) "present_xv (pte_at s pd a)" by blast
    then show ?thesis
    proof cases
      case gap
      show ?thesis unfolding deallocuvm_loop_eqs(2) [OF True gap] clear_gap [OF k gap] by (rule less.hyps [OF dn(2) less.prems(1) next_table(2) [OF k] less.prems(3)])
    next
      case empty
      have "cleared a oldsz (pte_at s pd) = cleared (a + PGSIZE_xv) oldsz (pte_at s pd)" using st clear_empty [of "pte_at s pd", OF empty(2)] by simp
      then show ?thesis using less.hyps [OF dn(1) less.prems(1) nx less.prems(3)] deallocuvm_loop_eqs(3) [OF True less.prems(1) empty] by simp
    next
      case full
      note u = unmap_page [OF less.prems(1) k less.prems(2) full]
      obtain u where f: "kfree (frame_of (pte_at s pd a)) s = Inr u" "unmapped pd (\<lambda>b. if PGROUNDDOWN b = a then 0 else pte_at s pd b) s (put_word ?r 0 u)" using u(2,4) by auto
      let ?u = "put_word ?r 0 u"
      have v: "vinv ?u pd" "cleared (a + PGSIZE_xv) oldsz (pte_at ?u pd) = cleared a oldsz (pte_at s pd)"
        using f(2) st clear_entry [of "pte_at s pd", OF full] by (simp_all add: unmapped_def)
      obtain t where t: "deallocuvm_loop pd (a + PGSIZE_xv) oldsz ?u = xret t" "unmapped pd (cleared a oldsz (pte_at s pd)) ?u t"
        using less.hyps [OF dn(1) v(1) nx less.prems(3)] v(2) by auto
      have "deallocuvm_loop pd a oldsz s = xret t" using deallocuvm_loop_eqs(4) [OF True less.prems(1) u(1) full _ f(1)] u(2,3) t(1) by simp
      then show ?thesis using unmapped_trans [OF f(2) t(2)] by blast
    qed
  qed
qed

lemma page_roundup: "PGROUNDDOWN (PGROUNDUP n) = PGROUNDUP n"
proof -
  have "PGROUNDUP n = PGROUNDDOWN (n + PGSIZE_xv - 1)" by (simp add: PGROUNDUP_def PGROUNDDOWN_def)
  then show ?thesis by simp
qed

lemma deallocuvm_ok:
  assumes "vinv s pd" "oldsz \<le> KERNBASE_xv" "newsz < oldsz"
  shows "\<exists>t. deallocuvm pd oldsz newsz s = xret (newsz, t) \<and> unmapped pd (cleared (PGROUNDUP newsz) oldsz (pte_at s pd)) s t"
  using deallocuvm_loop_ok [OF assms(1) page_roundup assms(2), of newsz] assms(3) by (auto simp: deallocuvm_def)

subsection \<open>Pages outside the pool\<close>

text \<open>The frames are determined by the entries, and the rest of the pool are tables and free pages.\<close>

definition frames :: "(u32 \<Rightarrow> u32) \<Rightarrow> u32 set" where
  "frames es = {frame_of (es a) | a. PGROUNDDOWN a = a \<and> a < KERNBASE_xv \<and> present_xv (es a)}"

lemma meta_frames:
  assumes "vinv s pd"
  shows "meta s pd = pool s pd - frames (pte_at s pd)" "frames (pte_at s pd) \<subseteq> pool s pd"
proof -
  have fr: "v \<in> frames (pte_at s pd) \<longleftrightarrow> (\<exists>a. owns s pd (Frame a) = Some v)" for v by (auto simp: frames_def split: if_splits)
  show "frames (pte_at s pd) \<subseteq> pool s pd" using fr by (auto simp: pool_def ran_def simp del: owns.simps)
  have "v \<in> ran (owns s pd) \<longleftrightarrow> v \<in> ran (tables s pd) \<or> (\<exists>a. owns s pd (Frame a) = Some v)" for v
  proof
    assume "v \<in> ran (owns s pd)"
    then obtain x where "owns s pd x = Some v" by (auto simp: ran_def)
    then show "v \<in> ran (tables s pd) \<or> (\<exists>a. owns s pd (Frame a) = Some v)"
      using ranI [of "tables s pd" x v] by (cases "is_Frame x") (auto simp: tables_def is_Frame_def simp del: owns.simps)
  next
    assume "v \<in> ran (tables s pd) \<or> (\<exists>a. owns s pd (Frame a) = Some v)"
    then show "v \<in> ran (owns s pd)" by (auto simp: ran_def tables_def simp del: owns.simps split: if_splits)
  qed
  moreover have "v \<notin> ran (tables s pd)" "v \<notin> set (kfree_pages s)" if "owns s pd (Frame a) = Some v" for a v
    using table_frame [OF assms that] vinvD(5) [OF assms that] by auto
  ultimately show "meta s pd = pool s pd - frames (pte_at s pd)" unfolding meta_def pool_def using fr by blast
qed

lemma fresh_page:
  assumes "vinv s pd" "kalloc s = Inr (v, u)" "v \<noteq> 0" "kalloc_ok w" "kfree_pages w = kfree_pages u" "ext {v} u w"
  shows "vinv w pd" "pte_at w pd = pte_at s pd" "pool w pd = pool s pd - {v}" "kpage w v" "v \<in> set (kfree_pages s)" "set (kfree_pages w) \<subseteq> set (kfree_pages s)"
    "meta w pd = meta s pd - {v}" "ext {v} s w"
proof -
  have u: "kfree_pages s = v # kfree_pages u" "kfreeable u v" "pmem u = pmem s" "ext {} s u" using kalloc_cases [OF vinvD(1) [OF assms(1)]] assms(2,3) by auto
  show e: "ext {v} s w" using ext_trans [OF u(4) assms(6), of "{v}"] by simp
  have vn: "v \<notin> ran (owns s pd)" "v \<notin> ran (tables s pd)" using vinvD(5) [OF assms(1)] u(1) by (auto simp: ran_def tables_def simp del: owns.simps split: if_splits)
  have same: "owns w pd = owns s pd" "pte_at w pd = pte_at s pd" "tables w pd = tables s pd"
    by (rule tables_cong [OF assms(1)]; use e vn(2) in \<open>auto simp: ext_def\<close>)+
  show "pte_at w pd = pte_at s pd" by (rule same(2))
  show "vinv w pd" by (rule vinv_same [OF assms(1) same(1) assms(4)]) (use e u(1) assms(5) in \<open>auto simp: ext_def\<close>)
  show "v \<in> set (kfree_pages s)" "set (kfree_pages w) \<subseteq> set (kfree_pages s)" using u(1) assms(5) by auto
  show "kpage w v" using u(2) assms(6) by (simp add: kfreeable_def kpage_def ext_def)
  have "v \<notin> set (kfree_pages u)" using u(2) by (simp add: kfreeable_def)
  then show "pool w pd = pool s pd - {v}" "meta w pd = meta s pd - {v}" using u(1) vn same assms(5) by (auto simp: pool_def meta_def)
qed

lemma free_loose:
  assumes "vinv s pd" "kpage s v" "v \<notin> pool s pd"
  shows "\<exists>t. kfree v s = Inr t \<and> vinv t pd \<and> pte_at t pd = pte_at s pd \<and> pool t pd = insert v (pool s pd) \<and> meta t pd = insert v (meta s pd) \<and> ext {v} s t"
proof -
  have f: "kfreeable s v" using assms(2,3) by (simp add: kfreeable_def pool_def)
  obtain t where t: "kfree v s = Inr t" "kalloc_ok t" "kfree_pages t = v # kfree_pages s" "ext {v} s t" using kfree_ext [OF vinvD(1) [OF assms(1)] f] by blast
  have vn: "v \<notin> ran (owns s pd)" "v \<notin> ran (tables s pd)" using assms(3) pool_meta [of s pd] by (auto simp: pool_def meta_def)
  have same: "owns t pd = owns s pd" "pte_at t pd = pte_at s pd" "tables t pd = tables s pd"
    by (rule tables_cong [OF assms(1)]; use t(4) vn(2) in \<open>auto simp: ext_def\<close>)+
  have "vinv t pd" using assms(1) vn(1) same(1) t by (auto simp: vinv_def kfreeable_def kpage_def ext_def ran_def simp del: owns.simps)
  then show ?thesis using t same by (auto simp: pool_def meta_def)
qed

text \<open>A new page is filled and mapped, or there is no memory for the page table.\<close>

lemma map_fresh:
  assumes "vinv s pd" "kalloc s = Inr (v, u)" "v \<noteq> 0" "kalloc_ok w" "kfree_pages w = kfree_pages u" "ext {v} u w"
    and "PGROUNDDOWN a = a" "a < KERNBASE_xv" "\<not> present_xv (pte_at s pd a)" "perm < PGSIZE_xv"
  shows "(\<exists>t. mappages pd a PGSIZE_xv (V2P v) perm w = xret (-1, t) \<and> vinv t pd \<and> pte_at t pd = pte_at s pd \<and> pool t pd = pool s pd - {v} \<and>
      meta t pd = meta s pd - {v} \<and> kpage t v \<and> ext (meta s pd) s t \<and> kfree_pages t = []) \<or>
    (\<exists>t. mappages pd a PGSIZE_xv (V2P v) perm w = xret (0, t) \<and> vinv t pd \<and> pool t pd = pool s pd \<and> set (kfree_pages t) \<subseteq> set (kfree_pages s) \<and>
      pte_at t pd = (\<lambda>b. if PGROUNDDOWN b = a then V2P v OR perm OR PTE_P_xv else pte_at s pd b) \<and> ext (meta s pd) s t \<and>
      (\<forall>i. PGROUNDDOWN i = v \<longrightarrow> pmem t i = pmem w i))"
proof -
  note f = fresh_page [OF assms(1-6)]
  have np: "\<not> present_xv (pte_at w pd a)" using assms(9) f(2) by simp
  have vp: "v \<notin> pool w pd" "v \<in> pool s pd" "v \<in> meta s pd" using f(3,5) by (auto simp: pool_def meta_def)
  have e: "ext (meta s pd) s t" if "ext (meta w pd) w t" for t using ext_trans [OF f(8) that] f(7) vp(3) by auto
  from mappages_page [OF f(1) assms(7,8) np f(4) vp(1) assms(10)] show ?thesis
  proof (elim disjE exE conjE)
    fix t assume t: "mappages pd a PGSIZE_xv (V2P v) perm w = xret (-1, t)" "mapped pd (pte_at w pd) {} w t" "kfree_pages t = []"
    then have "kpage t v" using f(4) ext_kpage unfolding mapped_def by metis
    then show ?thesis using t f e [of t] by (auto simp: mapped_def)
  next
    fix t assume t: "mappages pd a PGSIZE_xv (V2P v) perm w = xret (0, t)" "mapped pd (\<lambda>b. if PGROUNDDOWN b = a then V2P v OR perm OR PTE_P_xv else pte_at w pd b) {v} w t"
    have "\<forall>i. PGROUNDDOWN i = v \<longrightarrow> pmem t i = pmem w i" using t(2) f(7) by (auto simp: mapped_def ext_def)
    then show ?thesis using t f(2,3,6) e [of t] vp(2) by (intro disjI2 exI [of _ t]) (auto simp: mapped_def)
  qed
qed

lemma owns_card:
  assumes "\<And>p. PGROUNDDOWN p = p \<Longrightarrow> p < KERNBASE_xv \<Longrightarrow> present_xv (pte_at s pd p) \<Longrightarrow> p < m"
  shows "card (ran (owns s pd)) \<le> 1025 + (unat m + 4095) div 4096" "finite (ran (owns s pd))"
proof -
  let ?T = "(\<lambda>i. tab s pd (of_nat i)) ` {..<1024}" and ?F = "(\<lambda>i. frame_of (pte_at s pd (of_nat (4096 * i)))) ` {..<(unat m + 4095) div 4096}"
  have sub: "ran (owns s pd) \<subseteq> insert pd (?T \<union> ?F)"
  proof
    fix v assume "v \<in> ran (owns s pd)"
    then obtain x where x: "owns s pd x = Some v" by (auto simp: ran_def)
    show "v \<in> insert pd (?T \<union> ?F)"
    proof (cases x)
      case (Table i)
      then have "unat i < 1024" "v = tab s pd (of_nat (unat i))" using x by (auto simp: word_less_nat_alt split: if_splits)
      then show ?thesis by blast
    next
      case (Frame p)
      then have p: "PGROUNDDOWN p = p" "p < m" "v = frame_of (pte_at s pd p)" using x assms by (auto split: if_splits)
      obtain k where k: "unat p = 4096 * k" using p(1) page_unat by blast
      have "p = of_nat (unat p)" by simp
      then have "p = of_nat (4096 * k)" unfolding k .
      moreover have "4096 * k + 1 \<le> unat m" using p(2) k by (simp add: word_less_nat_alt)
      then have "(4096 * k + 4096) div 4096 \<le> (unat m + 4095) div 4096" by (intro div_le_mono) simp
      then have "k < (unat m + 4095) div 4096" by simp
      ultimately show ?thesis using p(3) by blast
    qed (use x in simp)
  qed
  then show "finite (ran (owns s pd))" by (rule finite_subset) simp
  have "card (?T \<union> ?F) \<le> card ?T + card ?F" by (rule card_Un_le)
  also have "\<dots> \<le> 1024 + (unat m + 4095) div 4096" using card_image_le [of "{..<1024}" "\<lambda>i. tab s pd (of_nat i)"] card_image_le [of "{..<(unat m + 4095) div 4096}" "\<lambda>i. frame_of (pte_at s pd (of_nat (4096 * i)))"] by simp
  finally have "card (insert pd (?T \<union> ?F)) \<le> 1025 + (unat m + 4095) div 4096" using card_insert_le_m1 [of "1025 + (unat m + 4095) div 4096" "?T \<union> ?F" pd] by simp
  moreover have "card (ran (owns s pd)) \<le> card (insert pd (?T \<union> ?F))" by (rule card_mono [OF _ sub]) simp
  ultimately show "card (ran (owns s pd)) \<le> 1025 + (unat m + 4095) div 4096" by simp
qed

subsection \<open>Growing\<close>

definition user_pte :: "u32 \<Rightarrow> u32" where
  "user_pte v = V2P v OR (PTE_W_xv OR PTE_U_xv) OR PTE_P_xv"

text \<open>\<open>vm_grown\<close>: the pages from \<open>a\<close> up to \<open>b\<close>, empty before, are mapped to zeroed pages that were free.\<close>

definition vm_grown :: "u32 \<Rightarrow> u32 \<Rightarrow> u32 \<Rightarrow> kalloc_st \<Rightarrow> kalloc_st \<Rightarrow> bool" where
  "vm_grown pd a b s t \<longleftrightarrow> vinv t pd \<and> pool t pd = pool s pd \<and> set (kfree_pages t) \<subseteq> set (kfree_pages s) \<and> ext (meta s pd) s t \<and>
     (\<forall>va. if a \<le> PGROUNDDOWN va \<and> PGROUNDDOWN va < b
           then \<exists>v\<in>set (kfree_pages s). pte_at t pd va = user_pte v \<and> (\<forall>i. PGROUNDDOWN i = v \<longrightarrow> pmem t i = 0)
           else pte_at t pd va = pte_at s pd va)"

lemma vm_grown_refl: "vinv s pd \<Longrightarrow> vm_grown pd a a s s"
  by (auto simp: vm_grown_def)

lemma grownD:
  assumes "vm_grown pd a b s t"
  shows "vinv t pd" "pool t pd = pool s pd" "set (kfree_pages t) \<subseteq> set (kfree_pages s)" "ext (meta s pd) s t"
    "a \<le> PGROUNDDOWN va \<Longrightarrow> PGROUNDDOWN va < b \<Longrightarrow> \<exists>v\<in>set (kfree_pages s). pte_at t pd va = user_pte v \<and> (\<forall>i. PGROUNDDOWN i = v \<longrightarrow> pmem t i = 0)"
    "\<not> (a \<le> PGROUNDDOWN va \<and> PGROUNDDOWN va < b) \<Longrightarrow> pte_at t pd va = pte_at s pd va"
  using assms unfolding vm_grown_def by (auto dest: spec [of _ va])

lemma user_pte_present: "present_xv (user_pte v)" by (simp add: user_pte_def)

lemma frame_user_pte: "v mod PGSIZE_xv = 0 \<Longrightarrow> frame_of (user_pte v) = v"
  unfolding user_pte_def by (simp add: or.assoc frame_entry flags_lt)

lemma grown_meta:
  assumes "vm_grown pd a b s t" "vinv s pd" "\<And>va. a \<le> PGROUNDDOWN va \<Longrightarrow> PGROUNDDOWN va < b \<Longrightarrow> \<not> present_xv (pte_at s pd va)"
  shows "meta t pd \<subseteq> meta s pd"
proof -
  have "frames (pte_at s pd) \<subseteq> frames (pte_at t pd)"
  proof
    fix v assume "v \<in> frames (pte_at s pd)"
    then obtain c where c: "v = frame_of (pte_at s pd c)" "PGROUNDDOWN c = c" "c < KERNBASE_xv" "present_xv (pte_at s pd c)" by (auto simp: frames_def)
    then have "pte_at t pd c = pte_at s pd c" using grownD(6) [OF assms(1), of c] assms(3) [of c] by auto
    then show "v \<in> frames (pte_at t pd)" using c unfolding frames_def by force
  qed
  then show ?thesis using meta_frames(1) [OF grownD(1) [OF assms(1)]] meta_frames(1) [OF assms(2)] grownD(2) [OF assms(1)] by auto
qed

lemma grown_step:
  assumes g: "vm_grown pd a b s t" and "vinv s pd" "PGROUNDDOWN a = a" "PGROUNDDOWN b = b" "a \<le> b" "b < KERNBASE_xv"
    "\<forall>va. a \<le> PGROUNDDOWN va \<and> PGROUNDDOWN va \<le> b \<longrightarrow> pte_at s pd va = 0"
    and "kalloc t = Inr (v, u)" "v \<noteq> 0"
  shows "(\<exists>t'. mappages pd b PGSIZE_xv (V2P v) (PTE_W_xv OR PTE_U_xv) (zero_page v u) = xret (-1, t') \<and> vinv t' pd \<and> pte_at t' pd = pte_at t pd \<and>
      pool t' pd = pool s pd - {v} \<and> meta t' pd \<subseteq> meta s pd \<and> kpage t' v \<and> v \<in> meta s pd \<and> ext (meta s pd) s t' \<and> kfree_pages t' = []) \<or>
    (\<exists>t'. mappages pd b PGSIZE_xv (V2P v) (PTE_W_xv OR PTE_U_xv) (zero_page v u) = xret (0, t') \<and> vm_grown pd a (b + PGSIZE_xv) s t')"
proof -
  note d = grownD [OF g]
  have u: "kfree_pages t = v # kfree_pages u" "kfreeable u v" "kalloc_ok u" using kalloc_cases [OF vinvD(1) [OF d(1)]] assms(8,9) by auto
  have va: "v mod PGSIZE_xv = 0" "v \<notin> set (kfree_pages u)" using u(2) by (auto simp: kfreeable_def kpage_def)
  note z = kalloc_ok_zero [OF u(3) va(2,1)]
  have m: "meta t pd \<subseteq> meta s pd" using assms(7) by (intro grown_meta [OF g assms(2)]) simp
  have np: "\<not> present_xv (pte_at t pd b)" using d(6) [of b] assms(4,5,7) by simp
  have ex: "ext (meta s pd) s t'" if "ext (meta t pd) t t'" for t' using ext_trans [OF d(4) that] m by auto
  have perm: "PTE_W_xv OR PTE_U_xv < PGSIZE_xv" by (simp add: flags_lt)
  from map_fresh [OF d(1) assms(8,9) z(1-3) assms(4,6) np perm] show ?thesis
  proof (elim disjE exE conjE)
    fix t' assume t': "mappages pd b PGSIZE_xv (V2P v) (PTE_W_xv OR PTE_U_xv) (zero_page v u) = xret (-1, t')" "vinv t' pd" "pte_at t' pd = pte_at t pd"
      "pool t' pd = pool t pd - {v}" "meta t' pd = meta t pd - {v}" "kpage t' v" "ext (meta t pd) t t'" "kfree_pages t' = []"
    have "v \<in> meta s pd" using u(1) d(3) by (auto simp: meta_def)
    then show ?thesis using t' ex [of t'] m d(2) by (intro disjI1 exI [of _ t']) auto
  next
    fix t' assume t': "mappages pd b PGSIZE_xv (V2P v) (PTE_W_xv OR PTE_U_xv) (zero_page v u) = xret (0, t')" "vinv t' pd" "pool t' pd = pool t pd"
      "set (kfree_pages t') \<subseteq> set (kfree_pages t)" "pte_at t' pd = (\<lambda>c. if PGROUNDDOWN c = b then V2P v OR (PTE_W_xv OR PTE_U_xv) OR PTE_P_xv else pte_at t pd c)"
      "ext (meta t pd) t t'" "\<forall>i. PGROUNDDOWN i = v \<longrightarrow> pmem t' i = pmem (zero_page v u) i"
    have "if a \<le> PGROUNDDOWN c \<and> PGROUNDDOWN c < b + PGSIZE_xv
      then \<exists>w\<in>set (kfree_pages s). pte_at t' pd c = user_pte w \<and> (\<forall>i. PGROUNDDOWN i = w \<longrightarrow> pmem t' i = 0) else pte_at t' pd c = pte_at s pd c" for c
    proof (cases "PGROUNDDOWN c = b")
      case True
      have "b < b + PGSIZE_xv" using unat_next_page [OF assms(6)] by (simp add: word_less_nat_alt)
      moreover have "v \<in> set (kfree_pages s)" using u(1) d(3) by auto
      ultimately show ?thesis using True assms(5) t'(5,7) z(4) by (auto simp: user_pte_def)
    next
      case False
      then have c: "PGROUNDDOWN c < b + PGSIZE_xv \<longleftrightarrow> PGROUNDDOWN c < b" using page_le_iff [OF assms(4), of "PGROUNDDOWN c"] assms(6) by (auto simp: not_le [symmetric])
      have p: "pte_at t' pd c = pte_at t pd c" using False t'(5) by simp
      show ?thesis
      proof (cases "a \<le> PGROUNDDOWN c \<and> PGROUNDDOWN c < b")
        case True
        then obtain w where w: "w \<in> set (kfree_pages s)" "pte_at t pd c = user_pte w" "\<forall>i. PGROUNDDOWN i = w \<longrightarrow> pmem t i = 0" using d(5) by blast
        have "frame_of (user_pte w) = w" by (rule frame_user_pte [OF conjunct1 [OF free_aligned [OF vinvD(1) [OF assms(2)] w(1)]]])
        moreover have "PGROUNDDOWN c < KERNBASE_xv" using True assms(6) by (meson order.strict_trans)
        ultimately have "w \<in> frames (pte_at t pd)" unfolding frames_def using w(2) user_pte_present by (auto intro!: exI [of _ "PGROUNDDOWN c"])
        then have "w \<notin> meta t pd" using meta_frames(1) [OF d(1)] by simp
        then have "\<forall>i. PGROUNDDOWN i = w \<longrightarrow> pmem t' i = 0" using w(3) t'(6) by (auto simp: ext_def)
        then show ?thesis using True w(1,2) p c by auto
      next
        case F: False
        then show ?thesis using d(6) [OF F] p c by auto
      qed
    qed
    then have "vm_grown pd a (b + PGSIZE_xv) s t'" using t'(2,3,4) d(2,3) ex [OF t'(6)] unfolding vm_grown_def by auto
    then show ?thesis using t'(1) by blast
  qed
qed

text \<open>What \<open>allocuvm\<close> does when memory runs out: the entries are as before.\<close>

definition undone :: "u32 \<Rightarrow> kalloc_st \<Rightarrow> kalloc_st \<Rightarrow> bool" where
  "undone pd s t \<longleftrightarrow> vinv t pd \<and> pte_at t pd = pte_at s pd \<and> pool t pd = pool s pd \<and> ext (meta s pd) s t"

lemma grown_undo:
  assumes g: "vm_grown pd (PGROUNDUP oldsz) b s t" and s: "vinv s pd" "newsz \<le> KERNBASE_xv" "oldsz < newsz"
    and range: "\<And>p. PGROUNDUP oldsz \<le> p \<Longrightarrow> PGROUNDDOWN p = p \<Longrightarrow> p < b \<Longrightarrow> p < newsz"
    and zero: "\<And>va. PGROUNDUP oldsz \<le> PGROUNDDOWN va \<Longrightarrow> PGROUNDDOWN va < newsz \<Longrightarrow> pte_at s pd va = 0"
    and u: "vinv u pd" "pte_at u pd = pte_at t pd" "pool u pd \<subseteq> pool s pd" "ext (meta s pd) s u"
  shows "\<exists>w. deallocuvm pd newsz oldsz u = xret (oldsz, w) \<and> vinv w pd \<and> pte_at w pd = pte_at s pd \<and> pool w pd = pool u pd \<and> ext (meta s pd) s w"
proof -
  obtain w where w: "deallocuvm pd newsz oldsz u = xret (oldsz, w)" "unmapped pd (cleared (PGROUNDUP oldsz) newsz (pte_at u pd)) u w"
    using deallocuvm_ok [OF u(1) s(2,3)] by blast
  have "cleared (PGROUNDUP oldsz) newsz (pte_at u pd) va = pte_at s pd va" for va
  proof (cases "PGROUNDUP oldsz \<le> PGROUNDDOWN va \<and> PGROUNDDOWN va < b")
    case True
    then obtain v where "pte_at t pd va = user_pte v" using grownD(5) [OF g, of va] by blast
    then show ?thesis using True range [of "PGROUNDDOWN va"] zero [of va] user_pte_present u(2) by (simp add: cleared_def)
  next
    case False
    then show ?thesis using grownD(6) [OF g False] zero [of va] u(2) by (simp add: cleared_def)
  qed
  then have e: "cleared (PGROUNDUP oldsz) newsz (pte_at u pd) = pte_at s pd" by blast
  note w' = w(2) [unfolded e unmapped_def]
  have "meta w pd \<subseteq> meta s pd" using meta_frames(1) [of w pd] meta_frames(1) [OF s(1)] w' u(3) by auto
  then have "ext (meta s pd) s w" using w' ext_trans [OF u(4), of _ w "meta s pd"] by (auto simp: meta_def)
  then show ?thesis using w(1) w' by auto
qed

text \<open>Failure means that memory is really used up: \<open>scarce m\<close> is the number of pages that a process of \<open>m\<close> bytes can hold at most, and one more.\<close>

definition scarce :: "u32 \<Rightarrow> nat" where
  "scarce m = 1026 + (unat m + 4095) div 4096"

lemma pool_scarce:
  assumes "kfree_pages t = []" "\<And>p. PGROUNDDOWN p = p \<Longrightarrow> p < KERNBASE_xv \<Longrightarrow> present_xv (pte_at t pd p) \<Longrightarrow> p < m" "P \<subseteq> insert v (pool t pd)"
  shows "card P \<le> scarce m"
proof -
  have c: "card (ran (owns t pd)) \<le> 1025 + (unat m + 4095) div 4096" "finite (ran (owns t pd))" by (rule owns_card; fact assms(2))+
  have "card P \<le> card (insert v (ran (owns t pd)))" using assms(1,3) c(2) by (intro card_mono) (auto simp: pool_def)
  also have "\<dots> \<le> Suc (card (ran (owns t pd)))" by (rule card_insert_le_m1) (simp_all add: c(2))
  finally show ?thesis using c(1) by (simp add: scarce_def)
qed

lemma allocuvm_loop_ok:
  assumes s: "vinv s pd" "newsz < KERNBASE_xv" "oldsz \<le> newsz"
    and zero: "\<And>va. PGROUNDUP oldsz \<le> PGROUNDDOWN va \<Longrightarrow> PGROUNDDOWN va < newsz \<Longrightarrow> pte_at s pd va = 0"
    and low: "\<And>p. PGROUNDDOWN p = p \<Longrightarrow> p < KERNBASE_xv \<Longrightarrow> present_xv (pte_at s pd p) \<Longrightarrow> p < newsz"
    and g: "vm_grown pd (PGROUNDUP oldsz) b s t" "PGROUNDDOWN b = b" "PGROUNDUP oldsz \<le> b"
    and range: "\<And>p. PGROUNDUP oldsz \<le> p \<Longrightarrow> PGROUNDDOWN p = p \<Longrightarrow> p < b \<Longrightarrow> p < newsz"
  shows "(\<exists>t'. allocuvm_loop pd b oldsz newsz t = xret (newsz, t') \<and> vm_grown pd (PGROUNDUP oldsz) newsz s t') \<or>
    (\<exists>t'. allocuvm_loop pd b oldsz newsz t = xret (0, t') \<and> undone pd s t' \<and> card (pool s pd) \<le> scarce newsz)"
  using g range
proof (induction "unat newsz - unat b" arbitrary: b t rule: less_induct)
  case less
  let ?a = "PGROUNDUP oldsz"
  note g = less.prems(1) and d = grownD [OF less.prems(1)]
  show ?case
  proof (cases "b < newsz")
    case False
    have "(?a \<le> PGROUNDDOWN va \<and> PGROUNDDOWN va < b) = (?a \<le> PGROUNDDOWN va \<and> PGROUNDDOWN va < newsz)" for va
      using less.prems(4) [of "PGROUNDDOWN va"] False by auto
    then have "vm_grown pd ?a newsz s t" using g by (simp add: vm_grown_def)
    moreover have "allocuvm_loop pd b oldsz newsz t = xret (newsz, t)" using False by (subst allocuvm_loop.simps) simp
    ultimately show ?thesis by blast
  next
    case True
    then have bk: "b < KERNBASE_xv" using s(2) by (rule order.strict_trans)
    have old: "oldsz < newsz"
    proof -
      have "unat oldsz \<le> 0xFFFFF000" using s(2,3) by (simp add: word_le_nat_alt word_less_nat_alt KERNBASE_xv_def)
      then have "unat oldsz \<le> unat ?a" by (simp add: unat_PGROUNDUP)
      then show ?thesis using True less.prems(3) by (simp add: word_le_nat_alt word_less_nat_alt)
    qed
    have le: "newsz \<le> KERNBASE_xv" using s(2) by simp
    have undo: "\<exists>w. deallocuvm pd newsz oldsz u = xret (oldsz, w) \<and> vinv w pd \<and> pte_at w pd = pte_at s pd \<and> pool w pd = pool u pd \<and> ext (meta s pd) s w"
      if "vinv u pd" "pte_at u pd = pte_at t pd" "pool u pd \<subseteq> pool s pd" "ext (meta s pd) s u" for u
      by (rule grown_undo [OF g s(1) le old _ _ that]) (use less.prems(4) zero in blast)+
    have lowt: "p < newsz" if "PGROUNDDOWN p = p" "p < KERNBASE_xv" "present_xv (pte_at t pd p)" for p
      using that d(6) [of p] low [of p] less.prems(4) [of p] by (cases "?a \<le> p \<and> p < b") auto
    consider (none) "kalloc t = Inr (0, t)" "kfree_pages t = []" | (some) v u where "kalloc t = Inr (v, u)" "v \<noteq> 0" using kalloc_cases [OF vinvD(1) [OF d(1)]] by blast
    then show ?thesis
    proof cases
      case none
      obtain w where w: "deallocuvm pd newsz oldsz t = xret (oldsz, w)" "vinv w pd" "pte_at w pd = pte_at s pd" "pool w pd = pool t pd" "ext (meta s pd) s w"
        using undo [OF d(1) HOL.refl equalityD1 [OF d(2)] d(4)] by blast
      then have "allocuvm_loop pd b oldsz newsz t = xret (0, w)" using True none by (subst allocuvm_loop.simps) simp
      moreover have "card (pool s pd) \<le> scarce newsz" by (rule pool_scarce [OF none(2) lowt, where v = 0]) (use d(2) in auto)
      ultimately show ?thesis using w d(2) by (auto simp: undone_def)
    next
      case some
      have z: "\<forall>va. ?a \<le> PGROUNDDOWN va \<and> PGROUNDDOWN va \<le> b \<longrightarrow> pte_at s pd va = 0" using zero True by (auto intro: order.strict_trans1)
      from grown_step [OF g s(1) page_roundup less.prems(2,3) bk z some] show ?thesis
      proof (elim disjE exE conjE)
        fix t' assume t': "mappages pd b PGSIZE_xv (V2P v) (PTE_W_xv OR PTE_U_xv) (zero_page v u) = xret (-1, t')" "vinv t' pd" "pte_at t' pd = pte_at t pd"
          "pool t' pd = pool s pd - {v}" "kpage t' v" "v \<in> meta s pd" "ext (meta s pd) s t'" "kfree_pages t' = []"
        obtain w where w: "deallocuvm pd newsz oldsz t' = xret (oldsz, w)" "vinv w pd" "pte_at w pd = pte_at s pd" "pool w pd = pool t' pd" "ext (meta s pd) s w"
          using undo [OF t'(2,3) _ t'(7)] t'(4) by blast
        have "kpage w v" using t'(5,7) w(5) by (simp add: ext_def kpage_def)
        then obtain x where x: "kfree v w = Inr x" "vinv x pd" "pte_at x pd = pte_at w pd" "pool x pd = insert v (pool w pd)" "ext {v} w x"
          using free_loose [OF w(2), of v] w(4) t'(4) by auto
        have "allocuvm_loop pd b oldsz newsz t = xret (0, x)" using True some t'(1) w(1) x(1) by (subst allocuvm_loop.simps) simp
        moreover have "undone pd s x" using x w(3,4) t'(4,6) pool_meta [of s pd] ext_trans [OF w(5) x(5), of "meta s pd"] by (auto simp: undone_def)
        moreover have "card (pool s pd) \<le> scarce newsz" by (rule pool_scarce [OF t'(8), where v = v]) (use t'(3,4) lowt in auto)
        ultimately show ?thesis by blast
      next
        fix t' assume t': "mappages pd b PGSIZE_xv (V2P v) (PTE_W_xv OR PTE_U_xv) (zero_page v u) = xret (0, t')" "vm_grown pd ?a (b + PGSIZE_xv) s t'"
        have e: "allocuvm_loop pd b oldsz newsz t = allocuvm_loop pd (b + PGSIZE_xv) oldsz newsz t'" using True some t'(1) by (subst allocuvm_loop.simps) simp
        have nb: "unat (b + PGSIZE_xv) = unat b + 4096" by (rule unat_next_page [OF bk])
        then have dec: "unat newsz - unat (b + PGSIZE_xv) < unat newsz - unat b" and ab: "?a \<le> b + PGSIZE_xv"
          using True less.prems(3) by (simp_all add: word_less_nat_alt word_le_nat_alt)
        have "p < newsz" if "?a \<le> p" "PGROUNDDOWN p = p" "p < b + PGSIZE_xv" for p
          using page_le_iff [OF less.prems(2) that(2) bk] less.prems(4) [OF that(1,2)] that(3) True by (metis not_le)
        then show ?thesis unfolding e using less.hyps [OF dec t'(2) next_page [OF less.prems(2) bk] ab] by blast
      qed
    qed
  qed
qed

lemma allocuvm_ok:
  assumes "vinv s pd" "newsz < KERNBASE_xv" "oldsz \<le> newsz" "\<And>va. PGROUNDUP oldsz \<le> PGROUNDDOWN va \<Longrightarrow> PGROUNDDOWN va < newsz \<Longrightarrow> pte_at s pd va = 0"
    "\<And>p. PGROUNDDOWN p = p \<Longrightarrow> p < KERNBASE_xv \<Longrightarrow> present_xv (pte_at s pd p) \<Longrightarrow> p < newsz"
  shows "(\<exists>t. allocuvm pd oldsz newsz s = xret (newsz, t) \<and> vm_grown pd (PGROUNDUP oldsz) newsz s t) \<or>
    (\<exists>t. allocuvm pd oldsz newsz s = xret (0, t) \<and> undone pd s t \<and> card (pool s pd) \<le> scarce newsz)"
proof -
  have "p < newsz" if "PGROUNDUP oldsz \<le> p" "p < PGROUNDUP oldsz" for p using that by simp
  moreover have "allocuvm pd oldsz newsz s = allocuvm_loop pd (PGROUNDUP oldsz) oldsz newsz s" using assms(2,3) by (auto simp: allocuvm_def)
  ultimately show ?thesis using allocuvm_loop_ok [OF assms vm_grown_refl [OF assms(1)] page_roundup] by simp
qed


end
