(* ===== verification/XvVmSpace.thy ===== *)
theory XvVmSpace
  imports XvVmInv
begin

text \<open>
  Whole address spaces: \<open>freevm\<close>, the kernel part made by \<open>setupkvm\<close>, and the copy of a process made by \<open>copyuvm\<close>.
\<close>

subsection \<open>Freeing an address space\<close>

definition tabs_in :: "kalloc_st \<Rightarrow> u32 \<Rightarrow> nat list \<Rightarrow> u32 set" where
  "tabs_in s pd is = {tab s pd (of_nat i) | i. i \<in> set is \<and> present_xv (pmem s (pd + 4 * of_nat i))}"

lemma tabs_in_Cons: "tabs_in s pd (i # is) = (if present_xv (pmem s (pd + 4 * of_nat i)) then {tab s pd (of_nat i)} else {}) \<union> tabs_in s pd is"
  by (auto simp: tabs_in_def)

lemma entry_index: "i < 1024 \<Longrightarrow> (of_nat i :: u32) < 1024"
  by (simp add: word_less_nat_alt unat_of_nat)

lemma free_tables_ok:
  assumes "kalloc_ok s" "pd mod PGSIZE_xv = 0" "\<forall>i\<in>set is. i < 1024" "distinct is" "pd \<notin> tabs_in s pd is"
    "\<forall>v\<in>tabs_in s pd is. kfreeable s v" "inj_on (\<lambda>i. tab s pd (of_nat i)) {i\<in>set is. present_xv (pmem s (pd + 4 * of_nat i))}"
  shows "\<exists>t. free_tables pd is s = Inr t \<and> kalloc_ok t \<and> set (kfree_pages t) = set (kfree_pages s) \<union> tabs_in s pd is \<and> ext (tabs_in s pd is) s t"
  using assms
proof (induction "is" arbitrary: s)
  case Nil
  then show ?case by (simp add: tabs_in_def)
next
  case (Cons i "is")
  have i: "(of_nat i :: u32) < 1024" using Cons.prems(3) by (auto intro: entry_index)
  show ?case
  proof (cases "present_xv (pmem s (pd + 4 * of_nat i))")
    case False
    then have "tabs_in s pd (i # is) = tabs_in s pd is" by (simp add: tabs_in_Cons)
    moreover have "inj_on (\<lambda>i. tab s pd (of_nat i)) {i\<in>set is. present_xv (pmem s (pd + 4 * of_nat i))}" using Cons.prems(7) by (rule inj_on_subset) auto
    ultimately show ?thesis using Cons.IH [of s] Cons.prems(1-6) False by simp
  next
    case True
    let ?v = "tab s pd (of_nat i)"
    have v: "kfreeable s ?v" "?v \<noteq> pd" using Cons.prems(5,6) True by (auto simp: tabs_in_Cons)
    obtain u where u: "kfree ?v s = Inr u" "kalloc_ok u" "kfree_pages u = ?v # kfree_pages s" "ext {?v} s u" using kfree_ext [OF Cons.prems(1) v(1)] by blast
    have d: "pmem u (pd + 4 * of_nat j) = pmem s (pd + 4 * of_nat j)" if "j \<in> set is" for j
    proof -
      have "(of_nat j :: u32) < 1024" using Cons.prems(3) that by (auto intro: entry_index)
      then have "PGROUNDDOWN (pd + 4 * of_nat j) \<noteq> ?v" using entry_page [OF Cons.prems(2)] v(2) by metis
      then show ?thesis using u(4) by (auto simp: ext_def)
    qed
    then have tb: "tab u pd (of_nat j) = tab s pd (of_nat j)" if "j \<in> set is" for j using that by (simp add: tab_def)
    have ti: "tabs_in u pd is = tabs_in s pd is" using d tb unfolding tabs_in_def by (intro Collect_cong ex_cong1) auto
    have new: "?v \<notin> tabs_in s pd is"
    proof
      assume "?v \<in> tabs_in s pd is"
      then obtain j where j: "j \<in> set is" "present_xv (pmem s (pd + 4 * of_nat j))" "tab s pd (of_nat j) = ?v" by (auto simp: tabs_in_def)
      then have "j = i" using inj_onD [OF Cons.prems(7), of j i] True by auto
      then show False using j(1) Cons.prems(4) by simp
    qed
    have "\<exists>t. free_tables pd is u = Inr t \<and> kalloc_ok t \<and> set (kfree_pages t) = set (kfree_pages u) \<union> tabs_in u pd is \<and> ext (tabs_in u pd is) u t"
    proof (rule Cons.IH [OF u(2) Cons.prems(2)])
      show "\<forall>w\<in>tabs_in u pd is. kfreeable u w"
        using Cons.prems(6) new u(3,4) by (auto simp: ti tabs_in_Cons kfreeable_def kpage_def ext_def)
      have "{i\<in>set is. present_xv (pmem u (pd + 4 * of_nat i))} = {i\<in>set is. present_xv (pmem s (pd + 4 * of_nat i))}" using d by auto
      then show "inj_on (\<lambda>i. tab u pd (of_nat i)) {i\<in>set is. present_xv (pmem u (pd + 4 * of_nat i))}"
        using inj_on_subset [OF Cons.prems(7), of "{i\<in>set is. present_xv (pmem s (pd + 4 * of_nat i))}"] tb
        by (auto simp: inj_on_def)
    qed (use Cons.prems(3-5) ti in \<open>auto simp: tabs_in_Cons\<close>)
    then obtain t where t: "free_tables pd is u = Inr t" "kalloc_ok t" "set (kfree_pages t) = set (kfree_pages u) \<union> tabs_in s pd is" "ext (tabs_in s pd is) u t"
      unfolding ti by blast
    have "free_tables pd (i # is) s = Inr t" using True u(1) t(1) by (simp add: tab_def)
    moreover have "ext (tabs_in s pd (i # is)) s t" using ext_trans [OF u(4) t(4)] True by (auto simp: tabs_in_Cons)
    ultimately show ?thesis using t(2,3) u(3) True by (auto simp: tabs_in_Cons)
  qed
qed

lemma tabs_in_all:
  "tabs_in s pd [0..<1024] = {v. \<exists>i. owns s pd (Table i) = Some v}"
proof -
  have "\<exists>j<1024. i = of_nat j" if "i < (1024 :: u32)" for i using that by (intro exI [of _ "unat i"]) (simp add: word_less_nat_alt)
  then show ?thesis unfolding tabs_in_def using entry_index by (auto split: if_splits)
qed

lemma freevm_ok:
  assumes "vinv s pd"
  shows "\<exists>t. freevm pd s = xret t \<and> kalloc_ok t \<and> set (kfree_pages t) = pool s pd \<and> ext (pool s pd) s t"
proof -
  have "KERNBASE_xv \<le> KERNBASE_xv" "0 < KERNBASE_xv" by (simp_all add: KERNBASE_xv_def)
  then obtain u where u: "deallocuvm pd KERNBASE_xv 0 s = xret (0, u)" "unmapped pd (cleared (PGROUNDUP 0) KERNBASE_xv (pte_at s pd)) s u"
    using deallocuvm_ok [OF assms, of KERNBASE_xv 0] by blast
  note d = u(2) [unfolded unmapped_def]
  have uv: "vinv u pd" using d by simp
  have "\<not> present_xv (pte_at u pd a)" if "a < KERNBASE_xv" for a
    using d that by (auto simp: cleared_def PGROUNDUP_def PGSIZE_xv_def)
  then have "frames (pte_at u pd) = {}" by (auto simp: frames_def)
  then have po: "pool s pd = ran (tables u pd) \<union> set (kfree_pages u)" using meta_frames [OF uv] d by (simp add: meta_def)
  have rt: "ran (tables u pd) = insert pd (tabs_in u pd [0..<1024])"
  proof -
    have "v \<in> ran (tables u pd) \<longleftrightarrow> v = pd \<or> (\<exists>i. owns u pd (Table i) = Some v)" for v
    proof
      assume "v \<in> ran (tables u pd)"
      then obtain x where "tables u pd x = Some v" by (auto simp: ran_def)
      then show "v = pd \<or> (\<exists>i. owns u pd (Table i) = Some v)" by (cases x) (auto simp: tables_def simp del: owns.simps(2))
    next
      assume "v = pd \<or> (\<exists>i. owns u pd (Table i) = Some v)"
      then show "v \<in> ran (tables u pd)" using ranI [of "tables u pd" Root] ranI [of "tables u pd" "Table _" v] by (auto simp: tables_def)
    qed
    then show ?thesis unfolding tabs_in_all by blast
  qed
  have t: "\<exists>t. free_tables pd [0..<1024] u = Inr t \<and> kalloc_ok t \<and> set (kfree_pages t) = set (kfree_pages u) \<union> tabs_in u pd [0..<1024] \<and> ext (tabs_in u pd [0..<1024]) u t"
  proof (rule free_tables_ok)
    show "pd \<notin> tabs_in u pd [0..<1024]" using vinvD(4) [OF uv, of Root pd] by (auto simp: tabs_in_all simp del: owns.simps(2))
    show "\<forall>v\<in>tabs_in u pd [0..<1024]. kfreeable u v" using vinvD(3) [OF uv] by (auto simp: tabs_in_all simp del: owns.simps)
    show "inj_on (\<lambda>i. tab u pd (of_nat i)) {i \<in> set [0..<1024]. present_xv (pmem u (pd + 4 * of_nat i))}"
    proof (rule inj_onI, clarsimp)
      fix i j :: nat assume h: "i < 1024" "j < 1024" "present_xv (pmem u (pd + 4 * of_nat i))" "present_xv (pmem u (pd + 4 * of_nat j))" "tab u pd (of_nat i) = tab u pd (of_nat j)"
      have w: "(of_nat i :: u32) < 1024" "(of_nat j :: u32) < 1024" using h(1,2) by (simp_all add: entry_index)
      then have "(of_nat i :: u32) = of_nat j" using vinvD(4) [OF uv, of "Table (of_nat i)" _ "Table (of_nat j)"] h(3-5) by auto
      then have "unat (of_nat i :: u32) = unat (of_nat j :: u32)" by simp
      then show "i = j" using h(1,2) by (simp add: unat_of_nat)
    qed
  qed (use vinvD(1,6) [OF uv] in auto)
  then obtain t where t: "free_tables pd [0..<1024] u = Inr t" "kalloc_ok t" "set (kfree_pages t) = set (kfree_pages u) \<union> tabs_in u pd [0..<1024]" "ext (tabs_in u pd [0..<1024]) u t" by blast
  have "kfreeable t pd" using vinvD(3,4) [OF uv, of Root pd] t(3,4) by (auto simp: kfreeable_def kpage_def ext_def tabs_in_all simp del: owns.simps(2))
  then obtain w where w: "kfree pd t = Inr w" "kalloc_ok w" "kfree_pages w = pd # kfree_pages t" "ext {pd} t w" using kfree_ext [OF t(2)] by blast
  have "pd \<noteq> 0" using vinvD(1) [OF uv] vinvD(3) [OF uv, of Root pd] kpage_nz by (auto simp: kfreeable_def kalloc_ok_def)
  then have "freevm pd s = xret w" using u(1) t(1) w(1) by (simp add: freevm_def NPDENTRIES_xv_def)
  moreover have "set (kfree_pages w) = pool s pd" using po rt t(3) w(3) by auto
  moreover have "ext (pool s pd) s t" using ext_trans [of "ran (tables s pd) \<union> set (kfree_pages u)" s u "tabs_in u pd [0..<1024]" t "pool s pd"] t(4) d po rt by auto
  then have "ext (pool s pd) s w" using ext_trans [OF _ w(4)] po rt by auto
  ultimately show ?thesis using w(2) by blast
qed

subsection \<open>The kernel part\<close>

lemma next_page_le:
  assumes "PGROUNDDOWN a = a" "PGROUNDDOWN l = l" "a < l"
  shows "unat (a + PGSIZE_xv) = unat a + 4096" "a + PGSIZE_xv \<le> l" "PGROUNDDOWN (a + PGSIZE_xv) = a + PGSIZE_xv"
    "PGROUNDDOWN p = p \<Longrightarrow> a \<le> p \<longleftrightarrow> p = a \<or> a + PGSIZE_xv \<le> p"
proof -
  obtain k j where kj: "unat a = 4096 * k" "unat l = 4096 * j" using assms(1,2) page_unat by blast
  have l: "unat a + 4096 \<le> unat l" using kj assms(3) by (simp add: word_less_nat_alt)
  then show n: "unat (a + PGSIZE_xv) = unat a + 4096" using unat_lt [of l] by (simp add: PGSIZE_xv_def unat_word_ariths)
  then show "a + PGSIZE_xv \<le> l" using l by (simp add: word_le_nat_alt)
  show "PGROUNDDOWN (a + PGSIZE_xv) = a + PGSIZE_xv" unfolding unat_inj [symmetric] unat_PGROUNDDOWN n kj(1) by simp
  show "a \<le> p \<longleftrightarrow> p = a \<or> a + PGSIZE_xv \<le> p" if p: "PGROUNDDOWN p = p"
  proof -
    obtain i where i: "unat p = 4096 * i" using p page_unat by blast
    have "unat a \<le> unat p \<longleftrightarrow> unat p = unat a \<or> unat a + 4096 \<le> unat p" unfolding kj i by (cases "k \<le> i"; cases "k = i") auto
    then show ?thesis by (simp add: word_le_nat_alt n unat_inj)
  qed
qed

text \<open>The entries with the pages from \<open>a\<close> to \<open>l\<close> mapped in a row.\<close>

definition run_mapped :: "u32 \<Rightarrow> u32 \<Rightarrow> u32 \<Rightarrow> u32 \<Rightarrow> (u32 \<Rightarrow> u32) \<Rightarrow> u32 \<Rightarrow> u32" where
  "run_mapped a l pa perm es b =
     (if a \<le> PGROUNDDOWN b \<and> PGROUNDDOWN b \<le> l then (pa + (PGROUNDDOWN b - a)) OR perm OR PTE_P_xv else es b)"

lemma run_mapped_step:
  assumes "PGROUNDDOWN a = a" "PGROUNDDOWN l = l" "a < l"
  shows "run_mapped (a + PGSIZE_xv) l (pa + PGSIZE_xv) perm (\<lambda>b. if PGROUNDDOWN b = a then pa OR perm OR PTE_P_xv else es b) = run_mapped a l pa perm es"
proof
  fix b
  note n = next_page_le [OF assms]
  have "\<not> a + PGSIZE_xv \<le> a" using n(1) by (simp add: word_le_nat_alt)
  then show "run_mapped (a + PGSIZE_xv) l (pa + PGSIZE_xv) perm (\<lambda>b. if PGROUNDDOWN b = a then pa OR perm OR PTE_P_xv else es b) b = run_mapped a l pa perm es b"
    using n(4) [of "PGROUNDDOWN b"] assms(3) by (auto simp: run_mapped_def algebra_simps)
qed

lemma mappages_kernel:
  assumes "vinv s pd" "PGROUNDDOWN a = a" "PGROUNDDOWN l = l" "KERNBASE_xv \<le> a" "a \<le> l" "\<forall>b. a \<le> PGROUNDDOWN b \<and> PGROUNDDOWN b \<le> l \<longrightarrow> \<not> present_xv (pte_at s pd b)"
  shows "\<exists>r t es. mappages_loop pd a l pa perm s = xret (r, t) \<and> mapped pd es {} s t \<and> (\<forall>b<KERNBASE_xv. es b = pte_at s pd b) \<and>
    (r = -1 \<and> kfree_pages t = [] \<or> r = 0 \<and> es = run_mapped a l pa perm (pte_at s pd))"
  using assms
proof (induction "unat l - unat a" arbitrary: a pa s rule: less_induct)
  case less
  let ?x = "pa OR perm OR PTE_P_xv"
  have k: "\<not> a < KERNBASE_xv" using less.prems(4) by simp
  have np: "\<not> present_xv (pte_at s pd a)" using less.prems(2,5,6) by auto
  obtain r u where u: "walkpgdir pd a True s = Inr (r, u)" "mapped pd (pte_at s pd) {} s u"
    "r = 0 \<and> kfree_pages u = [] \<or> r \<noteq> 0 \<and> \<not> present_xv (pmem u r) \<and> mapped pd (\<lambda>b. if PGROUNDDOWN b = a then ?x else pte_at s pd b) {} s (put_word r ?x u)"
    using map_entry [OF less.prems(1) np, of ?x] k less.prems(2) by auto
  have low: "PGROUNDDOWN b \<noteq> a" if "b < KERNBASE_xv" for b using that k PGROUNDDOWN_simps(2) [of b] by auto
  consider (fail) "r = 0" | (final) "r \<noteq> 0" "a = l" | (more) "r \<noteq> 0" "a < l" using less.prems(5) by fastforce
  then show ?case
  proof cases
    case fail
    then have "mappages_loop pd a l pa perm s = xret (-1, u)" using u(1) by (subst mappages_loop.simps) simp
    then show ?thesis using u(2,3) fail by blast
  next
    case final
    then have "mappages_loop pd a l pa perm s = xret (0, put_word r ?x u)" using u by (subst mappages_loop.simps) (simp add: Let_def)
    moreover have "(\<lambda>b. if PGROUNDDOWN b = a then ?x else pte_at s pd b) = run_mapped a l pa perm (pte_at s pd)" using final(2) by (auto simp: run_mapped_def fun_eq_iff)
    moreover have "\<forall>b<KERNBASE_xv. (\<lambda>b. if PGROUNDDOWN b = a then ?x else pte_at s pd b) b = pte_at s pd b" using low by auto
    moreover have "mapped pd (\<lambda>b. if PGROUNDDOWN b = a then ?x else pte_at s pd b) {} s (put_word r ?x u)" using u(3) final(1) by blast
    ultimately show ?thesis by blast
  next
    case more
    let ?t = "put_word r ?x u"
    note n = next_page_le [OF less.prems(2,3) more(2)]
    have m: "mapped pd (\<lambda>b. if PGROUNDDOWN b = a then ?x else pte_at s pd b) {} s ?t" "\<not> present_xv (pmem u r)" using u(3) more(1) by auto
    have e: "mappages_loop pd a l pa perm s = mappages_loop pd (a + PGSIZE_xv) l (pa + PGSIZE_xv) perm ?t"
      using u(1) m(2) more by (subst mappages_loop.simps) (auto simp: Let_def)
    have up: "a \<le> a + PGSIZE_xv" "\<not> a + PGSIZE_xv \<le> a" using n(1) by (simp_all add: word_le_nat_alt)
    have dec: "unat l - unat (a + PGSIZE_xv) < unat l - unat a" using n(1) more(2) by (simp add: word_less_nat_alt)
    have v: "vinv ?t pd" "pte_at ?t pd = (\<lambda>b. if PGROUNDDOWN b = a then ?x else pte_at s pd b)" using m(1) by (auto simp: mapped_def)
    have "\<forall>b. a + PGSIZE_xv \<le> PGROUNDDOWN b \<and> PGROUNDDOWN b \<le> l \<longrightarrow> \<not> present_xv (pte_at ?t pd b)"
    proof (intro allI impI)
      fix b assume b: "a + PGSIZE_xv \<le> PGROUNDDOWN b \<and> PGROUNDDOWN b \<le> l"
      then have "PGROUNDDOWN b \<noteq> a" "a \<le> PGROUNDDOWN b" using up order.trans by auto
      then show "\<not> present_xv (pte_at ?t pd b)" using less.prems(6) b v(2) by simp
    qed
    then obtain r' t es where t: "mappages_loop pd (a + PGSIZE_xv) l (pa + PGSIZE_xv) perm ?t = xret (r', t)" "mapped pd es {} ?t t" "\<forall>b<KERNBASE_xv. es b = pte_at ?t pd b"
      "r' = -1 \<and> kfree_pages t = [] \<or> r' = 0 \<and> es = run_mapped (a + PGSIZE_xv) l (pa + PGSIZE_xv) perm (pte_at ?t pd)"
      using less.hyps [OF dec v(1) n(3) less.prems(3) _ n(2)] order.trans [OF less.prems(4) up(1)] by blast
    have "mapped pd es {} s t" using mapped_trans [OF m(1) t(2)] by simp
    moreover have "\<forall>b<KERNBASE_xv. es b = pte_at s pd b" using t(3) low unfolding v(2) by auto
    moreover have "r' = -1 \<and> kfree_pages t = [] \<or> r' = 0 \<and> es = run_mapped a l pa perm (pte_at s pd)" using t(4) unfolding v(2) run_mapped_step [OF less.prems(2,3) more(2)] .
    ultimately show ?thesis unfolding e t(1) by blast
  qed
qed

text \<open>\<open>kmaps_ok\<close>: the ranges lie in the kernel part, start and end at a page, and do not meet pages that are mapped already.\<close>

definition kmap_last :: "kmap \<Rightarrow> u32" where
  "kmap_last k = PGROUNDDOWN (virt k + (phys_end k - phys_start k) - 1)"

definition kmap_ptes :: "kmap \<Rightarrow> (u32 \<Rightarrow> u32) \<Rightarrow> u32 \<Rightarrow> u32" where
  "kmap_ptes k = run_mapped (virt k) (kmap_last k) (phys_start k) (kperm k)"

fun kmaps_ok :: "(u32 \<Rightarrow> u32) \<Rightarrow> kmap list \<Rightarrow> bool" where
  "kmaps_ok es [] = True"
| "kmaps_ok es (k # ks) \<longleftrightarrow> PGROUNDDOWN (virt k) = virt k \<and> KERNBASE_xv \<le> virt k \<and> virt k \<le> kmap_last k \<and>
     (\<forall>b. virt k \<le> PGROUNDDOWN b \<and> PGROUNDDOWN b \<le> kmap_last k \<longrightarrow> \<not> present_xv (es b)) \<and> kmaps_ok (kmap_ptes k es) ks"

lemma setupkvm_loop_ok:
  assumes "vinv s pd" "kmaps_ok (pte_at s pd) ks" "\<forall>b<KERNBASE_xv. pte_at s pd b = 0"
  shows "(\<exists>t. setupkvm_loop pd ks s = xret (0, t) \<and> kalloc_ok t \<and> set (kfree_pages t) = pool s pd \<and> ext (pool s pd) s t \<and> card (pool s pd) \<le> scarce 0) \<or>
    (\<exists>t. setupkvm_loop pd ks s = xret (pd, t) \<and> mapped pd (fold kmap_ptes ks (pte_at s pd)) {} s t)"
  using assms
proof (induction ks arbitrary: s)
  case Nil
  then show ?case by (simp add: mapped_def)
next
  case (Cons k ks)
  have "PGROUNDDOWN (kmap_last k) = kmap_last k" by (simp add: kmap_last_def)
  then obtain r t es where t: "mappages_loop pd (virt k) (kmap_last k) (phys_start k) (kperm k) s = xret (r, t)" "mapped pd es {} s t"
    "\<forall>b<KERNBASE_xv. es b = pte_at s pd b" "r = -1 \<and> kfree_pages t = [] \<or> r = 0 \<and> es = kmap_ptes k (pte_at s pd)"
    using mappages_kernel [OF Cons.prems(1), of "virt k" "kmap_last k" "phys_start k" "kperm k"] Cons.prems(2) by (auto simp: kmap_ptes_def)
  have m: "mappages pd (virt k) (phys_end k - phys_start k) (phys_start k) (kperm k) s = xret (r, t)"
    using t(1) Cons.prems(2) by (simp add: mappages_def kmap_last_def)
  have v: "vinv t pd" "pool t pd = pool s pd" "pte_at t pd = es" "ext (pool s pd) s t"
    using t(2) ext_mono [of "meta s pd" s t "pool s pd"] pool_meta [of s pd] by (auto simp: mapped_def)
  have low: "\<forall>b<KERNBASE_xv. pte_at t pd b = 0" using t(3) v(3) Cons.prems(3) by simp
  show ?case
  proof (cases "r = -1")
    case True
    then have "card (pool s pd) \<le> scarce 0" using t(4) v(2) low by (intro pool_scarce [of t pd _ _ 0]) auto
    moreover
    obtain w where w: "freevm pd t = xret w" "kalloc_ok w" "set (kfree_pages w) = pool t pd" "ext (pool t pd) t w" using freevm_ok [OF v(1)] by blast
    then have "setupkvm_loop pd (k # ks) s = xret (0, w)" using m True by simp
    moreover have "ext (pool s pd) s w" using ext_trans [OF v(4) w(4)] v(2) by simp
    ultimately show ?thesis using w v(2) by auto
  next
    case False
    then have r: "r = 0" "es = kmap_ptes k (pte_at s pd)" using t(4) by auto
    have e: "setupkvm_loop pd (k # ks) s = setupkvm_loop pd ks t" using m r(1) by simp
    have "kmaps_ok (pte_at t pd) ks" using Cons.prems(2) v(3) r(2) by simp
    from Cons.IH [OF v(1) this low] show ?thesis
    proof (elim disjE exE conjE)
      fix w assume w: "setupkvm_loop pd ks t = xret (0, w)" "kalloc_ok w" "set (kfree_pages w) = pool t pd" "ext (pool t pd) t w" "card (pool t pd) \<le> scarce 0"
      have "ext (pool s pd) s w" using ext_trans [OF v(4) w(4)] v(2) by simp
      then show ?thesis using w v(2) e by auto
    next
      fix w assume w: "setupkvm_loop pd ks t = xret (pd, w)" "mapped pd (fold kmap_ptes ks (pte_at t pd)) {} t w"
      have "mapped pd (fold kmap_ptes (k # ks) (pte_at s pd)) {} s w" using mapped_trans [OF t(2) w(2)] v(3) r(2) by simp
      then show ?thesis using w(1) e by auto
    qed
  qed
qed

definition data_ok :: "u32 \<Rightarrow> bool" where
  "data_ok dat \<longleftrightarrow> PGROUNDDOWN dat = dat \<and> KERNLINK < dat \<and> dat < P2V PHYSTOP"

definition kern_pte :: "u32 \<Rightarrow> u32 \<Rightarrow> u32" where
  "kern_pte dat b =
     (let p = PGROUNDDOWN b
      in if KERNBASE_xv \<le> p \<and> p < KERNLINK then V2P p OR PTE_W_xv OR PTE_P_xv
         else if KERNLINK \<le> p \<and> p < dat then V2P p OR PTE_P_xv
         else if dat \<le> p \<and> p < P2V PHYSTOP then V2P p OR PTE_W_xv OR PTE_P_xv
         else if DEVSPACE \<le> p then p OR PTE_W_xv OR PTE_P_xv
         else 0)"

lemma page_le_down: "PGROUNDDOWN p = p \<Longrightarrow> p \<le> PGROUNDDOWN x \<longleftrightarrow> p \<le> x"
proof -
  assume "PGROUNDDOWN p = p"
  then obtain k where k: "unat p = 4096 * k" using page_unat by blast
  have "4096 * k \<le> n div 4096 * 4096 \<longleftrightarrow> 4096 * k \<le> n" for n :: nat
  proof
    assume "4096 * k \<le> n"
    then have "4096 * k div 4096 \<le> n div 4096" by (rule div_le_mono)
    then show "4096 * k \<le> n div 4096 * 4096" by simp
  next
    assume "4096 * k \<le> n div 4096 * 4096"
    then show "4096 * k \<le> n" using div_times_less_eq_dividend [of n 4096] by (rule order.trans)
  qed
  then show ?thesis by (simp add: word_le_nat_alt unat_PGROUNDDOWN k)
qed

lemma kmap_lasts:
  assumes "data_ok dat" "PGROUNDDOWN p = p"
  shows "p \<le> kmap_last \<lparr>virt = KERNBASE_xv, phys_start = 0, phys_end = EXTMEM, kperm = w\<rparr> \<longleftrightarrow> p < KERNLINK"
    "p \<le> kmap_last \<lparr>virt = KERNLINK, phys_start = V2P KERNLINK, phys_end = V2P dat, kperm = w\<rparr> \<longleftrightarrow> p < dat"
    "p \<le> kmap_last \<lparr>virt = dat, phys_start = V2P dat, phys_end = PHYSTOP, kperm = w\<rparr> \<longleftrightarrow> p < P2V PHYSTOP"
    "p \<le> kmap_last \<lparr>virt = DEVSPACE, phys_start = DEVSPACE, phys_end = 0, kperm = w\<rparr>"
proof -
  have pred: "p \<le> x - 1 \<longleftrightarrow> p < x" if "0 < x" for x :: u32
    using that by (simp add: word_le_nat_alt word_less_nat_alt unat_minus_1 unat_eq_0 [symmetric]) linarith
  have d: "0 < dat" using assms(1) order.strict_trans1 [OF word_zero_le, of KERNLINK dat] by (simp add: data_ok_def)
  have ph: "0 < P2V PHYSTOP" by (simp add: P2V_def PHYSTOP_def KERNBASE_xv_def)
  show "p \<le> kmap_last \<lparr>virt = KERNBASE_xv, phys_start = 0, phys_end = EXTMEM, kperm = w\<rparr> \<longleftrightarrow> p < KERNLINK"
    using pred [of KERNLINK] by (simp add: kmap_last_def page_le_down [OF assms(2)] KERNLINK_def EXTMEM_def KERNBASE_xv_def)
  show "p \<le> kmap_last \<lparr>virt = KERNLINK, phys_start = V2P KERNLINK, phys_end = V2P dat, kperm = w\<rparr> \<longleftrightarrow> p < dat"
    using pred [OF d] by (simp add: kmap_last_def page_le_down [OF assms(2)] V2P_def)
  show "p \<le> kmap_last \<lparr>virt = dat, phys_start = V2P dat, phys_end = PHYSTOP, kperm = w\<rparr> \<longleftrightarrow> p < P2V PHYSTOP"
    using pred [OF ph] by (simp add: kmap_last_def page_le_down [OF assms(2)] V2P_def P2V_def PHYSTOP_def KERNBASE_xv_def algebra_simps)
  have "p \<le> -1" by simp
  then show "p \<le> kmap_last \<lparr>virt = DEVSPACE, phys_start = DEVSPACE, phys_end = 0, kperm = w\<rparr>"
    by (simp add: kmap_last_def page_le_down [OF assms(2)])
qed

lemma const_pages: "PGROUNDDOWN KERNBASE_xv = KERNBASE_xv" "PGROUNDDOWN KERNLINK = KERNLINK" "PGROUNDDOWN DEVSPACE = DEVSPACE"
  by (simp_all add: PGROUNDDOWN_def PGSIZE_xv_def KERNBASE_xv_def KERNLINK_def EXTMEM_def DEVSPACE_def)

lemma const_order: "KERNBASE_xv < KERNLINK" "P2V PHYSTOP < DEVSPACE" "KERNBASE_xv \<le> DEVSPACE"
  by (simp_all add: KERNBASE_xv_def KERNLINK_def EXTMEM_def DEVSPACE_def P2V_def PHYSTOP_def)

lemma kmaps_entries:
  assumes "data_ok dat"
  shows "kmaps_ok (\<lambda>_. 0) (kmaps dat)" "fold kmap_ptes (kmaps dat) (\<lambda>_. 0) = kern_pte dat"
proof -
  have d: "PGROUNDDOWN dat = dat" "KERNLINK < dat" "dat < P2V PHYSTOP" using assms by (auto simp: data_ok_def)
  have lin: "KERNBASE_xv \<le> dat" "dat < DEVSPACE" "KERNBASE_xv \<le> KERNLINK" using d(2,3) const_order by (meson order.strict_trans order.strict_trans1 less_imp_le)+
  note l = kmap_lasts [OF assms]
  have sh: "V2P a + (p - a) = V2P p" "p - KERNBASE_xv = V2P p" "DEVSPACE + (p - DEVSPACE) = p" for a p by (simp_all add: V2P_def)
  note ptes = kmap_ptes_def run_mapped_def l sh
  show "kmaps_ok (\<lambda>_. 0) (kmaps dat)"
    unfolding kmaps_def using d const_pages const_order lin by (auto simp: ptes)
  show "fold kmap_ptes (kmaps dat) (\<lambda>_. 0) = kern_pte dat"
  proof
    fix b
    show "fold kmap_ptes (kmaps dat) (\<lambda>_. 0) b = kern_pte dat b"
      using d const_order lin by (auto simp: kmaps_def ptes kern_pte_def Let_def)
  qed
qed

lemma new_space:
  assumes "kalloc_ok s" "KERNBASE_xv < kend s" "kalloc s = Inr (d, u)" "d \<noteq> 0"
  shows "vinv (zero_page d u) d" "pte_at (zero_page d u) d = (\<lambda>_. 0)" "pool (zero_page d u) d = set (kfree_pages s)" "ext {d} s (zero_page d u)"
    "d \<in> set (kfree_pages s)"
proof -
  have u: "kfree_pages s = d # kfree_pages u" "kfreeable u d" "kalloc_ok u" "pmem u = pmem s" "ext {} s u" using kalloc_cases [OF assms(1)] assms(3,4) by auto
  have d: "d mod PGSIZE_xv = 0" "d \<notin> set (kfree_pages u)" using u(2) by (auto simp: kfreeable_def kpage_def)
  note z = kalloc_ok_zero [OF u(3) d(2,1)]
  let ?w = "zero_page d u"
  show "ext {d} s ?w" using ext_trans [OF u(5) z(3)] by simp
  have e: "\<not> present_xv (pmem ?w (d + 4 * i))" if "i < 1024" for i using z(4) [OF entry_page [OF d(1) that]] by simp
  then show p: "pte_at ?w d = (\<lambda>_. 0)" by (auto simp: pte_at_def PDX_xv_lt fun_eq_iff)
  have o: "owns ?w d = [Root \<mapsto> d]"
  proof
    show "owns ?w d x = [Root \<mapsto> d] x" for x by (cases x) (use e p in auto)
  qed
  then show "pool ?w d = set (kfree_pages s)" using u(1) z(2) by (auto simp: pool_def)
  show "vinv ?w d" using z(1,2,3) d(2) u(2,5) assms(2) by (auto simp: vinv_def o kfreeable_def kpage_def ext_def split: if_splits)
  show "d \<in> set (kfree_pages s)" using u(1) by simp
qed

lemma setupkvm_ok:
  assumes "kalloc_ok s" "KERNBASE_xv < kend s" "data_ok dat"
  shows "(\<exists>t. setupkvm dat s = xret (0, t) \<and> kalloc_ok t \<and> set (kfree_pages t) = set (kfree_pages s) \<and> ext (set (kfree_pages s)) s t \<and>
      card (set (kfree_pages s)) \<le> scarce 0) \<or>
    (\<exists>d t. setupkvm dat s = xret (d, t) \<and> d \<noteq> 0 \<and> vinv t d \<and> pte_at t d = kern_pte dat \<and> pool t d = set (kfree_pages s) \<and> ext (set (kfree_pages s)) s t)"
proof -
  have dev: "\<not> DEVSPACE < P2V PHYSTOP" using const_order(2) by auto
  consider (none) "kalloc s = Inr (0, s)" "kfree_pages s = []" | (some) d u where "kalloc s = Inr (d, u)" "d \<noteq> 0" using kalloc_cases [OF assms(1)] by blast
  then show ?thesis
  proof cases
    case none
    then show ?thesis using assms(1) by (simp add: setupkvm_def)
  next
    case some
    note n = new_space [OF assms(1,2) some]
    let ?w = "zero_page d u"
    have e: "setupkvm dat s = setupkvm_loop d (kmaps dat) ?w" using some dev by (simp add: setupkvm_def Let_def)
    have x: "ext (set (kfree_pages s)) s t" if "ext (set (kfree_pages s)) ?w t" for t using ext_trans [OF n(4) that] n(5) by auto
    have "kmaps_ok (pte_at ?w d) (kmaps dat)" using kmaps_entries(1) [OF assms(3)] n(2) by simp
    moreover have "\<forall>b<KERNBASE_xv. pte_at ?w d b = 0" using n(2) by simp
    ultimately have r: "kmaps_ok (pte_at ?w d) (kmaps dat)" "\<forall>b<KERNBASE_xv. pte_at ?w d b = 0" by auto
    from setupkvm_loop_ok [OF n(1) r] show ?thesis
    proof (elim disjE exE conjE)
      fix t assume "setupkvm_loop d (kmaps dat) ?w = xret (0, t)" "kalloc_ok t" "set (kfree_pages t) = pool ?w d" "ext (pool ?w d) ?w t" "card (pool ?w d) \<le> scarce 0"
      then show ?thesis using e n(3) x by auto
    next
      fix t assume t: "setupkvm_loop d (kmaps dat) ?w = xret (d, t)" "mapped d (fold kmap_ptes (kmaps dat) (pte_at ?w d)) {} ?w t"
      have "ext (set (kfree_pages s)) ?w t" using t(2) pool_meta [of ?w d] n(3) by (auto simp: mapped_def intro: ext_mono)
      then show ?thesis using t e n x kmaps_entries(2) [OF assms(3)] some(2) by (auto simp: mapped_def)
    qed
  qed
qed

subsection \<open>Copying an address space\<close>

text \<open>An address space does not notice what happens to the pages of others.\<close>

lemma space_frame:
  assumes "vinv s pd" "ext P s t" "P \<inter> ran (owns s pd) = {}" "kalloc_ok t" "set (kfree_pages t) \<inter> ran (owns s pd) = {}"
  shows "vinv t pd" "owns t pd = owns s pd" "pte_at t pd = pte_at s pd"
proof -
  have "ran (tables s pd) \<subseteq> ran (owns s pd)" by (auto simp: ran_def tables_def simp del: owns.simps split: if_splits)
  then have m: "pmem t a = pmem s a" if "PGROUNDDOWN a \<in> ran (tables s pd)" for a using assms(2,3) that unfolding ext_def by blast
  show o: "owns t pd = owns s pd" "pte_at t pd = pte_at s pd" using tables_cong [OF assms(1) m] by auto
  have "kfreeable t v" if "owns s pd x = Some v" for x v
  proof -
    have "v \<in> ran (owns s pd)" using that by (rule ranI)
    then show ?thesis using vinvD(3) [OF assms(1) that] assms(2,5) by (auto simp: kfreeable_def kpage_def ext_def)
  qed
  then show "vinv t pd" using assms(1,2,4) unfolding vinv_def o by (auto simp: ext_def simp del: owns.simps)
qed

lemma off_page: "f mod PGSIZE_xv = 0 \<Longrightarrow> k < PGSIZE_xv \<Longrightarrow> PGROUNDDOWN (f + k) = f"
  using in_page_iff [of f "f + k"] by simp

text \<open>\<open>copied\<close>: the pages of \<open>pd\<close> below \<open>i\<close> are copied to new pages of \<open>d\<close>, with the same flags.\<close>

definition copied :: "u32 \<Rightarrow> u32 \<Rightarrow> u32 \<Rightarrow> u32 \<Rightarrow> kalloc_st \<Rightarrow> kalloc_st \<Rightarrow> bool" where
  "copied dat pd d i s t \<longleftrightarrow> vinv t d \<and> pool t d = set (kfree_pages s) \<and> ext (set (kfree_pages s)) s t \<and>
     (\<forall>b. if KERNBASE_xv \<le> b then pte_at t d b = kern_pte dat b
          else if PGROUNDDOWN b < i
          then \<exists>v\<in>set (kfree_pages s). pte_at t d b = V2P v OR PTE_FLAGS_xv (pte_at s pd b) OR PTE_P_xv \<and>
                 (\<forall>k<PGSIZE_xv. pmem t (v + k) = pmem s (frame_of (pte_at s pd b) + k))
          else pte_at t d b = 0)"

lemma copied_start:
  assumes "vinv t d" "pte_at t d = kern_pte dat" "pool t d = set (kfree_pages s)" "ext (set (kfree_pages s)) s t" "data_ok dat"
  shows "copied dat pd d 0 s t"
proof -
  have "kern_pte dat b = 0" if "\<not> KERNBASE_xv \<le> b" for b
  proof -
    have p: "PGROUNDDOWN b < KERNBASE_xv" using that by simp
    have "\<not> x \<le> PGROUNDDOWN b" if "KERNBASE_xv \<le> x" for x using p that by (meson leD order.trans)
    moreover have "KERNBASE_xv \<le> dat" "KERNBASE_xv \<le> DEVSPACE" "KERNBASE_xv \<le> KERNLINK" using assms(5) const_order by (auto simp: data_ok_def)
    ultimately show ?thesis by (simp add: kern_pte_def Let_def)
  qed
  then show ?thesis using assms by (simp add: copied_def)
qed

lemma copiedD:
  assumes "copied dat pd d i s t" "vinv s pd"
  shows "vinv t d" "pool t d = set (kfree_pages s)" "ext (set (kfree_pages s)) s t" "KERNBASE_xv \<le> b \<Longrightarrow> pte_at t d b = kern_pte dat b"
    "b < KERNBASE_xv \<Longrightarrow> PGROUNDDOWN b < i \<Longrightarrow> \<exists>v\<in>set (kfree_pages s). pte_at t d b = V2P v OR PTE_FLAGS_xv (pte_at s pd b) OR PTE_P_xv \<and>
       (\<forall>k<PGSIZE_xv. pmem t (v + k) = pmem s (frame_of (pte_at s pd b) + k))"
    "b < KERNBASE_xv \<Longrightarrow> \<not> PGROUNDDOWN b < i \<Longrightarrow> pte_at t d b = 0" "vinv t pd" "pte_at t pd = pte_at s pd"
proof -
  show t: "vinv t d" "pool t d = set (kfree_pages s)" "ext (set (kfree_pages s)) s t" using assms(1) by (auto simp: copied_def)
  show "KERNBASE_xv \<le> b \<Longrightarrow> pte_at t d b = kern_pte dat b"
    "b < KERNBASE_xv \<Longrightarrow> PGROUNDDOWN b < i \<Longrightarrow> \<exists>v\<in>set (kfree_pages s). pte_at t d b = V2P v OR PTE_FLAGS_xv (pte_at s pd b) OR PTE_P_xv \<and>
       (\<forall>k<PGSIZE_xv. pmem t (v + k) = pmem s (frame_of (pte_at s pd b) + k))"
    "b < KERNBASE_xv \<Longrightarrow> \<not> PGROUNDDOWN b < i \<Longrightarrow> pte_at t d b = 0"
    using assms(1) unfolding copied_def by (auto dest!: spec [of _ b])
  have dj: "set (kfree_pages s) \<inter> ran (owns s pd) = {}" using vinvD(5) [OF assms(2)] by (auto simp: ran_def simp del: owns.simps)
  moreover have "set (kfree_pages t) \<subseteq> set (kfree_pages s)" using t(2) by (auto simp: pool_def)
  ultimately show "vinv t pd" "pte_at t pd = pte_at s pd" using space_frame [OF assms(2) t(3) dj vinvD(1) [OF t(1)]] by auto
qed

lemma copied_frame:
  assumes "v mod PGSIZE_xv = 0"
  shows "frame_of (V2P v OR PTE_FLAGS_xv e OR PTE_P_xv) = v"
  by (simp add: or.assoc frame_entry [OF assms] flags_lt)

lemma copied_step:
  assumes c: "copied dat pd d i s t" and s: "vinv s pd" "PGROUNDDOWN i = i" "i < KERNBASE_xv" "present_xv (pte_at s pd i)"
    and k: "kalloc t = Inr (v, u)" "v \<noteq> 0"
  defines "w \<equiv> copy_page v (frame_of (pte_at s pd i)) u"
  shows "(\<exists>t'. mappages d i PGSIZE_xv (V2P v) (PTE_FLAGS_xv (pte_at s pd i)) w = xret (-1, t') \<and> vinv t' d \<and> pool t' d = set (kfree_pages s) - {v} \<and>
      kpage t' v \<and> v \<in> set (kfree_pages s) \<and> ext (set (kfree_pages s)) s t' \<and> kfree_pages t' = [] \<and> pte_at t' d = pte_at t d) \<or>
    (\<exists>t'. mappages d i PGSIZE_xv (V2P v) (PTE_FLAGS_xv (pte_at s pd i)) w = xret (0, t') \<and> copied dat pd d (i + PGSIZE_xv) s t')"
proof -
  note d = copiedD [OF c s(1)]
  have u: "kfree_pages t = v # kfree_pages u" "kfreeable u v" "kalloc_ok u" "pmem u = pmem t" using kalloc_cases [OF vinvD(1) [OF d(1)]] k by auto
  have va: "v mod PGSIZE_xv = 0" "v \<notin> set (kfree_pages u)" "v \<in> set (kfree_pages s)" using u(1,2) d(2) by (auto simp: kfreeable_def kpage_def pool_def)
  let ?f = "frame_of (pte_at s pd i)"
  note z = kalloc_ok_copy [OF u(3) va(2,1), where w = ?f, folded w_def]
  have np: "\<not> present_xv (pte_at t d i)" using d(6) [of i] s(2,3) by simp
  have e: "ext (set (kfree_pages s)) s t'" if "ext (meta t d) t t'" for t' using ext_trans [OF d(3) that] pool_meta [of t d] d(2) by auto
  from map_fresh [OF d(1) k z(1-3) s(2,3) np flag_lt(4) [of "pte_at s pd i"]] show ?thesis
  proof (elim disjE exE conjE)
    fix t' assume "mappages d i PGSIZE_xv (V2P v) (PTE_FLAGS_xv (pte_at s pd i)) w = xret (-1, t')" "vinv t' d" "pool t' d = pool t d - {v}" "kpage t' v" "ext (meta t d) t t'" "kfree_pages t' = []" "pte_at t' d = pte_at t d"
    then show ?thesis using e d(2) va(3) by auto
  next
    fix t' assume t': "mappages d i PGSIZE_xv (V2P v) (PTE_FLAGS_xv (pte_at s pd i)) w = xret (0, t')" "vinv t' d" "pool t' d = pool t d"
      "pte_at t' d = (\<lambda>b. if PGROUNDDOWN b = i then V2P v OR PTE_FLAGS_xv (pte_at s pd i) OR PTE_P_xv else pte_at t d b)"
      "ext (meta t d) t t'" "\<forall>a. PGROUNDDOWN a = v \<longrightarrow> pmem t' a = pmem w a"
    have o: "owns s pd (Frame i) = Some ?f" using s(2-4) by simp
    have f: "?f mod PGSIZE_xv = 0" "?f \<notin> set (kfree_pages s)" using vinvD(5) [OF s(1) o] by auto
    have cv: "pmem t' (v + j) = pmem s (?f + j)" if "j < PGSIZE_xv" for j
      using t'(6) off_page [OF va(1) that] z(4) [OF that] u(4) d(3) off_page [OF f(1) that] f(2) by (simp add: ext_def)
    have "if KERNBASE_xv \<le> b then pte_at t' d b = kern_pte dat b else if PGROUNDDOWN b < i + PGSIZE_xv
      then \<exists>v\<in>set (kfree_pages s). pte_at t' d b = V2P v OR PTE_FLAGS_xv (pte_at s pd b) OR PTE_P_xv \<and> (\<forall>k<PGSIZE_xv. pmem t' (v + k) = pmem s (frame_of (pte_at s pd b) + k))
      else pte_at t' d b = 0" for b
    proof (cases "PGROUNDDOWN b = i")
      case True
      then have b: "b < KERNBASE_xv" "pte_at s pd b = pte_at s pd i" using s(3) by (metis PGROUNDDOWN_simps(2), metis pte_at_page)
      have "i < i + PGSIZE_xv" using unat_next_page [OF s(3)] by (simp add: word_less_nat_alt)
      then show ?thesis using b True cv va(3) t'(4) by auto
    next
      case False
      then have r: "PGROUNDDOWN b < i + PGSIZE_xv \<longleftrightarrow> PGROUNDDOWN b < i" using page_le_iff [OF s(2), of "PGROUNDDOWN b"] s(3) by (auto simp: not_le [symmetric])
      have p: "pte_at t' d b = pte_at t d b" using False t'(4) by simp
      show ?thesis
      proof (cases "b < KERNBASE_xv \<and> PGROUNDDOWN b < i")
        case True
        then obtain x where x: "x \<in> set (kfree_pages s)" "pte_at t d b = V2P x OR PTE_FLAGS_xv (pte_at s pd b) OR PTE_P_xv"
          "\<forall>k<PGSIZE_xv. pmem t (x + k) = pmem s (frame_of (pte_at s pd b) + k)" using d(5) by blast
        have xa: "x mod PGSIZE_xv = 0" using free_aligned [OF vinvD(1) [OF s(1)] x(1)] by simp
        have "x \<in> frames (pte_at t d)" unfolding frames_def using x(2) True copied_frame [OF xa] by (auto intro!: exI [of _ "PGROUNDDOWN b"])
        then have "x \<notin> meta t d" using meta_frames(1) [OF d(1)] by simp
        then have "pmem t' (x + k) = pmem t (x + k)" if "k < PGSIZE_xv" for k using t'(5) off_page [OF xa that] by (simp add: ext_def)
        then show ?thesis using True x p r by auto
      qed (use d(4,6) [of b] p r in auto)
    qed
    then have "copied dat pd d (i + PGSIZE_xv) s t'" using t'(2,3) d(2) e [OF t'(5)] unfolding copied_def by simp
    then show ?thesis using t'(1) by blast
  qed
qed

lemma copyuvm_loop_ok:
  assumes s: "vinv s pd" "sz \<le> KERNBASE_xv" and pres: "\<forall>p. PGROUNDDOWN p = p \<and> p < sz \<longrightarrow> present_xv (pte_at s pd p)"
    and c: "copied dat pd d i s t" "PGROUNDDOWN i = i" and range: "\<forall>p. PGROUNDDOWN p = p \<and> p < i \<longrightarrow> p < sz"
  shows "(\<exists>t'. copyuvm_loop pd d i sz t = xret (0, t') \<and> kalloc_ok t' \<and> set (kfree_pages t') = set (kfree_pages s) \<and> ext (set (kfree_pages s)) s t' \<and>
      card (set (kfree_pages s)) \<le> scarce sz) \<or>
    (\<exists>t'. copyuvm_loop pd d i sz t = xret (d, t') \<and> copied dat pd d sz s t')"
  using c range
proof (induction "unat sz - unat i" arbitrary: i t rule: less_induct)
  case less
  note d = copiedD [OF less.prems(1) s(1)]
  have out: "\<exists>w. freevm d x = xret w \<and> kalloc_ok w \<and> set (kfree_pages w) = set (kfree_pages s) \<and> ext (set (kfree_pages s)) s w"
    if "vinv x d" "pool x d = set (kfree_pages s)" "ext (set (kfree_pages s)) s x" for x
    using freevm_ok [OF that(1)] that(2) ext_trans [OF that(3)] by (metis order.refl)
  show ?case
  proof (cases "i < sz")
    case False
    have "PGROUNDDOWN b < i \<longleftrightarrow> PGROUNDDOWN b < sz" for b using less.prems(3) False by (metis PGROUNDDOWN_simps(1) not_le order.strict_trans2)
    then have "copied dat pd d sz s t" using less.prems(1) by (simp add: copied_def)
    moreover have "copyuvm_loop pd d i sz t = xret (d, t)" using False by (subst copyuvm_loop.simps) simp
    ultimately show ?thesis by blast
  next
    case True
    then have ik: "i < KERNBASE_xv" using s(2) by (rule order.strict_trans2)
    have pi: "present_xv (pte_at s pd i)" using pres less.prems(2) True by blast
    have tb: "present_xv (pmem t (pd + 4 * PDX_xv i))" "pmem t (tab t pd (PDX_xv i) + 4 * PTX_xv i) = pte_at s pd i"
      using pi d(8) by (metis pte_at_def present_simps(2))+
    have r0: "tab t pd (PDX_xv i) + 4 * PTX_xv i \<noteq> 0" by (rule table_entry(5) [OF d(7) tb(1)])
    note w = walkpgdir_find tb r0 True pi frame_of_def [symmetric] Let_def
    have low: "p < sz" if "PGROUNDDOWN p = p" "p < KERNBASE_xv" "present_xv (pte_at t d p)" for p
      using that d(6) [of p] less.prems(3) by (cases "p < i") auto
    consider (none) "kalloc t = Inr (0, t)" "kfree_pages t = []" | (some) v u where "kalloc t = Inr (v, u)" "v \<noteq> 0" using kalloc_cases [OF vinvD(1) [OF d(1)]] by blast
    then show ?thesis
    proof cases
      case none
      obtain x where x: "freevm d t = xret x" "kalloc_ok x" "set (kfree_pages x) = set (kfree_pages s)" "ext (set (kfree_pages s)) s x" using out [OF d(1-3)] by blast
      then have "copyuvm_loop pd d i sz t = xret (0, x)" using none by (subst copyuvm_loop.simps) (simp add: w)
      moreover have "card (set (kfree_pages s)) \<le> scarce sz" by (rule pool_scarce [OF none(2) low, where v = 0]) (use d(2) in auto)
      ultimately show ?thesis using x by blast
    next
      case some
      from copied_step [OF less.prems(1) s(1) less.prems(2) ik pi some] show ?thesis
      proof (elim disjE exE conjE)
        fix t' assume t': "mappages d i PGSIZE_xv (V2P v) (PTE_FLAGS_xv (pte_at s pd i)) (copy_page v (frame_of (pte_at s pd i)) u) = xret (-1, t')" "vinv t' d"
          "pool t' d = set (kfree_pages s) - {v}" "kpage t' v" "v \<in> set (kfree_pages s)" "ext (set (kfree_pages s)) s t'" "kfree_pages t' = []" "pte_at t' d = pte_at t d"
        obtain y where y: "kfree v t' = Inr y" "vinv y d" "pool y d = insert v (pool t' d)" "ext {v} t' y" using free_loose [OF t'(2,4)] t'(3) by auto
        have ye: "pool y d = set (kfree_pages s)" "ext (set (kfree_pages s)) s y" using y(3) t'(3,5) ext_trans [OF t'(6) y(4)] by auto
        obtain x where x: "freevm d y = xret x" "kalloc_ok x" "set (kfree_pages x) = set (kfree_pages s)" "ext (set (kfree_pages s)) s x" using out [OF y(2) ye] by blast
        have "copyuvm_loop pd d i sz t = xret (0, x)" using some t'(1) y(1) x(1) by (subst copyuvm_loop.simps) (simp add: w)
        moreover have "card (set (kfree_pages s)) \<le> scarce sz" by (rule pool_scarce [OF t'(7), where v = v]) (use t'(3,8) low in auto)
        ultimately show ?thesis using x by blast
      next
        fix t' assume t': "mappages d i PGSIZE_xv (V2P v) (PTE_FLAGS_xv (pte_at s pd i)) (copy_page v (frame_of (pte_at s pd i)) u) = xret (0, t')" "copied dat pd d (i + PGSIZE_xv) s t'"
        have e: "copyuvm_loop pd d i sz t = copyuvm_loop pd d (i + PGSIZE_xv) sz t'" using some t'(1) by (subst copyuvm_loop.simps) (simp add: w)
        have dec: "unat sz - unat (i + PGSIZE_xv) < unat sz - unat i" using unat_next_page [OF ik] True by (simp add: word_less_nat_alt)
        have "p < sz" if "PGROUNDDOWN p = p" "p < i + PGSIZE_xv" for p
          using page_le_iff [OF less.prems(2) that(1) ik] less.prems(3) that True by (metis not_le)
        then show ?thesis unfolding e using less.hyps [OF dec t'(2) next_page [OF less.prems(2) ik]] by blast
      qed
    qed
  qed
qed

lemma copyuvm_ok:
  assumes "vinv s pd" "sz \<le> KERNBASE_xv" "\<forall>p. PGROUNDDOWN p = p \<and> p < sz \<longrightarrow> present_xv (pte_at s pd p)" "data_ok dat"
  shows "(\<exists>t. copyuvm dat pd sz s = xret (0, t) \<and> kalloc_ok t \<and> set (kfree_pages t) = set (kfree_pages s) \<and> ext (set (kfree_pages s)) s t \<and>
      card (set (kfree_pages s)) \<le> scarce sz) \<or>
    (\<exists>d t. copyuvm dat pd sz s = xret (d, t) \<and> d \<noteq> 0 \<and> copied dat pd d sz s t)"
  using setupkvm_ok [OF vinvD(1,2) [OF assms(1)] assms(4)]
proof (elim disjE exE conjE)
  fix d t assume t: "setupkvm dat s = xret (d, t)" "d \<noteq> 0" "vinv t d" "pte_at t d = kern_pte dat" "pool t d = set (kfree_pages s)" "ext (set (kfree_pages s)) s t"
  have z: "PGROUNDDOWN 0 = 0" by (simp add: PGROUNDDOWN_def)
  have "\<forall>p. PGROUNDDOWN p = p \<and> p < 0 \<longrightarrow> p < sz" by simp
  moreover have "copyuvm dat pd sz s = copyuvm_loop pd d 0 sz t" using t(1,2) by (simp add: copyuvm_def)
  ultimately show ?thesis using copyuvm_loop_ok [OF assms(1-3) copied_start [OF t(3-6) assms(4)] z] t(2) by auto
next
  fix t assume t: "setupkvm dat s = xret (0, t)" "kalloc_ok t" "set (kfree_pages t) = set (kfree_pages s)" "ext (set (kfree_pages s)) s t" "card (set (kfree_pages s)) \<le> scarce 0"
  have "scarce 0 \<le> scarce sz" by (simp add: scarce_def)
  then show ?thesis using t by (auto simp: copyuvm_def)
qed


end
