(* ===== verification/XvVmProps.thy ===== *)
theory XvVmProps
  imports XvVmSpace
begin

text \<open>
  All address spaces of the machine together.  \<open>vreach\<close> are the states that the kernel and the user programs can reach from a
  free list: address spaces are made, vm_grown, shrunk, copied and freed, the kernel takes and returns pages for itself, and both
  write to pages they have.  \<open>D\<close> gives the size of each address space, by its page directory, and \<open>K\<close> the pages the kernel has taken.
\<close>

subsection \<open>What a program sees\<close>

definition user_ok :: "u32 \<Rightarrow> bool" where
  "user_ok e \<longleftrightarrow> present_xv e \<and> e AND PTE_U_xv \<noteq> 0"

definition uload :: "kalloc_st \<Rightarrow> u32 \<Rightarrow> u32 \<Rightarrow> u32 option" where
  "uload s pd va = (let e = pte_at s pd va in if user_ok e then Some (pmem s (frame_of e + (va - PGROUNDDOWN va))) else None)"

definition space_ok :: "kalloc_st \<Rightarrow> u32 \<Rightarrow> u32 \<Rightarrow> bool" where
  "space_ok s pd n \<longleftrightarrow> vinv s pd \<and> n < KERNBASE_xv \<and>
     (\<forall>b<KERNBASE_xv. if PGROUNDDOWN b < n then present_xv (pte_at s pd b) else pte_at s pd b = 0)"

definition vmsys :: "kalloc_st \<Rightarrow> (u32 \<Rightarrow> u32 option) \<Rightarrow> u32 set \<Rightarrow> bool" where
  "vmsys s D K \<longleftrightarrow> kalloc_ok s \<and> KERNBASE_xv < kend s \<and> (\<forall>pd n. D pd = Some n \<longrightarrow> space_ok s pd n) \<and>
     (\<forall>pd m q n. D pd = Some m \<longrightarrow> D q = Some n \<longrightarrow> pd \<noteq> q \<longrightarrow> ran (owns s pd) \<inter> ran (owns s q) = {}) \<and>
     (\<forall>v\<in>K. kfreeable s v \<and> (\<forall>pd n. D pd = Some n \<longrightarrow> v \<notin> ran (owns s pd)))"

definition all_pages :: "kalloc_st \<Rightarrow> (u32 \<Rightarrow> u32 option) \<Rightarrow> u32 set \<Rightarrow> u32 set" where
  "all_pages s D K = set (kfree_pages s) \<union> K \<union> (\<Union>pd\<in>dom D. ran (owns s pd))"

lemma vmsysD:
  assumes "vmsys s D K"
  shows "kalloc_ok s" "KERNBASE_xv < kend s" "D pd = Some n \<Longrightarrow> space_ok s pd n" "D pd = Some n \<Longrightarrow> vinv s pd"
    "D pd = Some n \<Longrightarrow> D q = Some m \<Longrightarrow> pd \<noteq> q \<Longrightarrow> ran (owns s pd) \<inter> ran (owns s q) = {}"
    "v \<in> K \<Longrightarrow> kfreeable s v" "v \<in> K \<Longrightarrow> D pd = Some n \<Longrightarrow> v \<notin> ran (owns s pd)"
    "D pd = Some n \<Longrightarrow> set (kfree_pages s) \<inter> ran (owns s pd) = {}"
proof -
  show *: "D pd = Some n \<Longrightarrow> space_ok s pd n" using assms by (auto simp: vmsys_def)
  then show "D pd = Some n \<Longrightarrow> vinv s pd" by (simp add: space_ok_def)
  then show "D pd = Some n \<Longrightarrow> set (kfree_pages s) \<inter> ran (owns s pd) = {}" using vinvD(5) by (auto simp: ran_def simp del: owns.simps)
qed (use assms in \<open>simp_all add: vmsys_def\<close>)

text \<open>Address spaces whose pages stay out of \<open>P\<close> are as they were.\<close>

lemma spaces_frame:
  assumes "vmsys s D K" "ext P s t" "kalloc_ok t" "D q = Some n" "P \<inter> ran (owns s q) = {}" "set (kfree_pages t) \<subseteq> P \<union> set (kfree_pages s)"
  shows "space_ok t q n" "owns t q = owns s q"
proof -
  have "set (kfree_pages t) \<inter> ran (owns s q) = {}" using assms(5,6) vmsysD(8) [OF assms(1,4)] by blast
  note f = space_frame [OF vmsysD(4) [OF assms(1,4)] assms(2,5,3) this]
  show "space_ok t q n" "owns t q = owns s q" using vmsysD(3) [OF assms(1,4)] f by (auto simp: space_ok_def)
qed

lemma vmsysI:
  assumes "vmsys s D K" "ext P s t" "kalloc_ok t" "set (kfree_pages t) \<subseteq> P \<union> set (kfree_pages s)" "K \<inter> (P \<union> set (kfree_pages t)) = {}"
    "\<And>q n. D' q = Some n \<Longrightarrow> q \<noteq> pd \<Longrightarrow> D q = Some n \<and> P \<inter> ran (owns s q) = {}"
    "\<And>n. D' pd = Some n \<Longrightarrow> space_ok t pd n \<and> ran (owns t pd) \<subseteq> P"
  shows "vmsys t D' K"
proof -
  have o: "D q = Some n" "P \<inter> ran (owns s q) = {}" "space_ok t q n" "owns t q = owns s q" if "D' q = Some n" "q \<noteq> pd" for q n
  proof -
    show d: "D q = Some n" "P \<inter> ran (owns s q) = {}" using assms(6) [OF that] by auto
    show "space_ok t q n" "owns t q = owns s q" by (rule spaces_frame [OF assms(1-3) d assms(4)])+
  qed
  have n: "space_ok t pd n" "ran (owns t pd) \<subseteq> P" if "D' pd = Some n" for n using assms(7) [OF that] by auto
  have kf: "kfreeable t v" if "v \<in> K" for v using vmsysD(6) [OF assms(1) that] assms(2,5) that by (auto simp: kfreeable_def kpage_def ext_def)
  have one: "ran (owns t pd) \<inter> ran (owns t q) = {}" if "D' pd = Some m" "D' q = Some n" "q \<noteq> pd" for q m n
    using n(2) [OF that(1)] o(2,4) [OF that(2,3)] by auto
  show ?thesis unfolding vmsys_def
  proof (intro conjI allI impI ballI)
    show "kalloc_ok t" "KERNBASE_xv < kend t" using assms(2,3) vmsysD(2) [OF assms(1)] by (auto simp: ext_def)
    show "space_ok t q m" if "D' q = Some m" for q m using that o(3) n(1) by (cases "q = pd") auto
    show "ran (owns t q) \<inter> ran (owns t r) = {}" if "D' q = Some m" "D' r = Some l" "q \<noteq> r" for q m r l
    proof -
      consider "q = pd" "r \<noteq> pd" | "r = pd" "q \<noteq> pd" | "q \<noteq> pd" "r \<noteq> pd" using \<open>q \<noteq> r\<close> by blast
      then show ?thesis
      proof cases
        case 1
        then show ?thesis using one that(1,2) by blast
      next
        case 2
        then show ?thesis using one [of l q m] that(1,2) by blast
      next
        case 3
        then show ?thesis using vmsysD(5) [OF assms(1) o(1) [OF that(1)] o(1) [OF that(2)] that(3)] o(4) [OF that(1)] o(4) [OF that(2)] by simp
      qed
    qed
    show "kfreeable t v" if "v \<in> K" for v by (rule kf [OF that])
    show "v \<notin> ran (owns t r)" if "v \<in> K" "D' r = Some m" for v r m
    proof (cases "r = pd")
      case True
      then show ?thesis using n(2) [of m] that assms(5) by blast
    next
      case False
      then show ?thesis using vmsysD(7) [OF assms(1) that(1) o(1) [OF that(2)]] o(4) [OF that(2)] by simp
    qed
  qed
qed

subsection \<open>The steps\<close>

inductive vreach :: "u32 \<Rightarrow> kalloc_st \<Rightarrow> kalloc_st \<Rightarrow> (u32 \<Rightarrow> u32 option) \<Rightarrow> u32 set \<Rightarrow> bool" for dat s0 where
  start: "kalloc_ok s0 \<Longrightarrow> KERNBASE_xv < kend s0 \<Longrightarrow> vreach dat s0 s0 Map.empty {}"
| create: "vreach dat s0 s D K \<Longrightarrow> setupkvm dat s = xret (d, t) \<Longrightarrow> vreach dat s0 t (if d = 0 then D else D(d \<mapsto> 0)) K"
| grow: "vreach dat s0 s D K \<Longrightarrow> D pd = Some n \<Longrightarrow> allocuvm pd n m s = xret (r, t) \<Longrightarrow> vreach dat s0 t (if r = 0 then D else D(pd \<mapsto> r)) K"
| shrink: "vreach dat s0 s D K \<Longrightarrow> D pd = Some n \<Longrightarrow> deallocuvm pd n m s = xret (r, t) \<Longrightarrow> vreach dat s0 t (D(pd \<mapsto> r)) K"
| copy: "vreach dat s0 s D K \<Longrightarrow> D pd = Some n \<Longrightarrow> copyuvm dat pd n s = xret (d, t) \<Longrightarrow> vreach dat s0 t (if d = 0 then D else D(d \<mapsto> n)) K"
| remove: "vreach dat s0 s D K \<Longrightarrow> D pd = Some n \<Longrightarrow> freevm pd s = xret t \<Longrightarrow> vreach dat s0 t (D(pd := None)) K"
| guard: "vreach dat s0 s D K \<Longrightarrow> D pd = Some n \<Longrightarrow> PGROUNDDOWN va < n \<Longrightarrow> clearpteu pd va s = Inr t \<Longrightarrow> vreach dat s0 t D K"
| take: "vreach dat s0 s D K \<Longrightarrow> kalloc s = Inr (v, t) \<Longrightarrow> v \<noteq> 0 \<Longrightarrow> vreach dat s0 t D (insert v K)"
| give: "vreach dat s0 s D K \<Longrightarrow> v \<in> K \<Longrightarrow> kfree v s = Inr t \<Longrightarrow> vreach dat s0 t D (K - {v})"
| user: "vreach dat s0 s D K \<Longrightarrow> D pd = Some n \<Longrightarrow> va < KERNBASE_xv \<Longrightarrow> user_ok (pte_at s pd va) \<Longrightarrow>
    vreach dat s0 (put_word (frame_of (pte_at s pd va) + (va - PGROUNDDOWN va)) w s) D K"
| kernel: "vreach dat s0 s D K \<Longrightarrow> PGROUNDDOWN a \<in> K \<Longrightarrow> vreach dat s0 (put_word a w s) D K"

lemma owned_split: "(\<Union>q\<in>insert pd A. F q) = F pd \<union> (\<Union>q\<in>A - {pd}. F q)" by auto

lemma pages_swap: "R' \<union> F' = R \<union> F \<Longrightarrow> F' \<union> K \<union> (R' \<union> A) = F \<union> K \<union> (R \<union> A)" by blast

lemma owned_cong:
  assumes "\<And>q k. D q = Some k \<Longrightarrow> q \<noteq> pd \<Longrightarrow> owns t q = owns s q"
  shows "(\<Union>q\<in>dom D - {pd}. ran (owns t q)) = (\<Union>q\<in>dom D - {pd}. ran (owns s q))"
  using assms by (intro SUP_cong) auto

text \<open>A step of one address space that keeps its pool.\<close>

lemma sys_update:
  assumes "vmsys s D K" "D pd = Some n" "ext (pool s pd) s t" "space_ok t pd m" "pool t pd = pool s pd"
  shows "vmsys t (D(pd \<mapsto> m)) K \<and> all_pages t (D(pd \<mapsto> m)) K = all_pages s D K"
proof -
  have f: "pool s pd \<inter> ran (owns s q) = {}" if "D q = Some k" "q \<noteq> pd" for q k
    using vmsysD(5) [OF assms(1) assms(2) that(1)] vmsysD(8) [OF assms(1) that(1)] that(2) unfolding pool_def by blast
  have t: "kalloc_ok t" "set (kfree_pages t) \<subseteq> pool s pd" "ran (owns t pd) \<subseteq> pool s pd"
    using assms(4) vinvD(1) [of t pd] assms(5) by (auto simp: space_ok_def pool_def)
  have kp: "K \<inter> pool s pd = {}" using vmsysD(6) [OF assms(1)] vmsysD(7) [OF assms(1) _ assms(2)] by (auto simp: pool_def kfreeable_def)
  have v: "vmsys t (D(pd \<mapsto> m)) K"
  proof (rule vmsysI [OF assms(1,3) t(1), where pd = pd])
    show "D q = Some k \<and> pool s pd \<inter> ran (owns s q) = {}" if "(D(pd \<mapsto> m)) q = Some k" "q \<noteq> pd" for q k
    proof -
      have "D q = Some k" using that by simp
      then show ?thesis using f [of q k] that(2) by blast
    qed
    show "set (kfree_pages t) \<subseteq> pool s pd \<union> set (kfree_pages s)" "K \<inter> (pool s pd \<union> set (kfree_pages t)) = {}" using t(2) kp by blast+
    show "space_ok t pd k \<and> ran (owns t pd) \<subseteq> pool s pd" if "(D(pd \<mapsto> m)) pd = Some k" for k using that assms(4) t(3) by simp
  qed
  have o: "owns t q = owns s q" if "D q = Some k" "q \<noteq> pd" for q k
    using spaces_frame(2) [OF assms(1,3) t(1) that(1) f [OF that]] t(2) by blast
  have u: "(\<Union>q\<in>dom (D(pd \<mapsto> m)). ran (owns t q)) = ran (owns t pd) \<union> (\<Union>q\<in>dom D - {pd}. ran (owns s q))"
    using owned_cong [of D pd t s] o owned_split [of "\<lambda>q. ran (owns t q)" pd "dom D"] by simp
  have "(\<Union>q\<in>dom D. ran (owns s q)) = ran (owns s pd) \<union> (\<Union>q\<in>dom D - {pd}. ran (owns s q))"
    using owned_split [of "\<lambda>q. ran (owns s q)" pd "dom D"] assms(2) by (simp add: insert_absorb domI)
  then have "all_pages t (D(pd \<mapsto> m)) K = all_pages s D K" unfolding all_pages_def u by (simp only: pages_swap [OF assms(5) [unfolded pool_def]])
  then show ?thesis using v by simp
qed

text \<open>A new address space made of free pages.\<close>

lemma sys_new:
  assumes "vmsys s D K" "ext (set (kfree_pages s)) s t" "space_ok t d m" "pool t d = set (kfree_pages s)"
  shows "vmsys t (D(d \<mapsto> m)) K \<and> all_pages t (D(d \<mapsto> m)) K = all_pages s D K" "D d = None"
proof -
  have t: "kalloc_ok t" "set (kfree_pages t) \<subseteq> set (kfree_pages s)" "ran (owns t d) \<subseteq> set (kfree_pages s)"
    using assms(3) vinvD(1) [of t d] assms(4) by (auto simp: space_ok_def pool_def)
  have "d \<in> set (kfree_pages s)" using t(3) ranI [of "owns t d" Root d] by auto
  then show n: "D d = None" using vmsysD(8) [OF assms(1)] ranI [of "owns s d" Root d] by (cases "D d") auto
  have kp: "K \<inter> set (kfree_pages s) = {}" using vmsysD(6) [OF assms(1)] by (auto simp: kfreeable_def)
  have v: "vmsys t (D(d \<mapsto> m)) K"
  proof (rule vmsysI [OF assms(1,2) t(1), where pd = d])
    show "D q = Some k \<and> set (kfree_pages s) \<inter> ran (owns s q) = {}" if "(D(d \<mapsto> m)) q = Some k" "q \<noteq> d" for q k
    proof -
      have "D q = Some k" using that by simp
      then show ?thesis using vmsysD(8) [OF assms(1), of q k] by blast
    qed
    show "set (kfree_pages t) \<subseteq> set (kfree_pages s) \<union> set (kfree_pages s)" "K \<inter> (set (kfree_pages s) \<union> set (kfree_pages t)) = {}" using t(2) kp by blast+
    show "space_ok t d k \<and> ran (owns t d) \<subseteq> set (kfree_pages s)" if "(D(d \<mapsto> m)) d = Some k" for k using that assms(3) t(3) by simp
  qed
  have o: "owns t q = owns s q" if "D q = Some k" for q k
    using spaces_frame(2) [OF assms(1,2) t(1) that vmsysD(8) [OF assms(1) that]] t(2) by blast
  have "dom D - {d} = dom D" using n by auto
  then have "(\<Union>q\<in>dom (D(d \<mapsto> m)). ran (owns t q)) = ran (owns t d) \<union> (\<Union>q\<in>dom D. ran (owns s q))"
    using owned_cong [of D d t s] o owned_split [of "\<lambda>q. ran (owns t q)" d "dom D"] by simp
  then have "all_pages t (D(d \<mapsto> m)) K = all_pages s D K"
    using pages_swap [of "ran (owns t d)" "set (kfree_pages t)" "{}" "set (kfree_pages s)" K "\<Union>q\<in>dom D. ran (owns s q)"] assms(4) by (simp add: all_pages_def pool_def)
  then show "vmsys t (D(d \<mapsto> m)) K \<and> all_pages t (D(d \<mapsto> m)) K = all_pages s D K" using v by simp
qed

text \<open>Pages of the free list change, and nothing else.\<close>

lemma sys_same:
  assumes "vmsys s D K" "ext (set (kfree_pages s)) s t" "kalloc_ok t" "set (kfree_pages t) = set (kfree_pages s)"
  shows "vmsys t D K \<and> all_pages t D K = all_pages s D K"
proof -
  have kp: "K \<inter> set (kfree_pages s) = {}" using vmsysD(6) [OF assms(1)] by (auto simp: kfreeable_def)
  have o: "space_ok t q k" "owns t q = owns s q" if "D q = Some k" for q k
    using spaces_frame [OF assms(1-3) that vmsysD(8) [OF assms(1) that]] assms(4) by blast+
  have "vmsys t D K" unfolding vmsys_def
  proof (intro conjI allI impI ballI)
    show "kalloc_ok t" "KERNBASE_xv < kend t" using assms(2,3) vmsysD(2) [OF assms(1)] by (auto simp: ext_def)
    show "kfreeable t v" if "v \<in> K" for v using vmsysD(6) [OF assms(1) that] assms(2,4) by (auto simp: kfreeable_def kpage_def ext_def)
    show "space_ok t q k" if "D q = Some k" for q k by (rule o(1) [OF that])
    show "ran (owns t q) \<inter> ran (owns t r) = {}" if "D q = Some k" "D r = Some l" "q \<noteq> r" for q k r l
      unfolding o(2) [OF that(1)] o(2) [OF that(2)] by (rule vmsysD(5) [OF assms(1) that])
    show "v \<notin> ran (owns t q)" if "v \<in> K" "D q = Some k" for v q k unfolding o(2) [OF that(2)] by (rule vmsysD(7) [OF assms(1) that])
  qed
  moreover have "(\<Union>q\<in>dom D. ran (owns t q)) = (\<Union>q\<in>dom D. ran (owns s q))" using o(2) by (intro SUP_cong) auto
  ultimately show ?thesis using assms(4) by (simp add: all_pages_def)
qed

lemma sys_del:
  assumes "vmsys s D K" "D pd = Some n" "ext (pool s pd) s t" "kalloc_ok t" "set (kfree_pages t) = pool s pd"
  shows "vmsys t (D(pd := None)) K \<and> all_pages t (D(pd := None)) K = all_pages s D K"
proof -
  have f: "pool s pd \<inter> ran (owns s q) = {}" if "D q = Some k" "q \<noteq> pd" for q k
    using vmsysD(5) [OF assms(1) assms(2) that(1)] vmsysD(8) [OF assms(1) that(1)] that(2) unfolding pool_def by blast
  have kp: "K \<inter> pool s pd = {}" using vmsysD(6) [OF assms(1)] vmsysD(7) [OF assms(1) _ assms(2)] by (auto simp: pool_def kfreeable_def)
  have v: "vmsys t (D(pd := None)) K"
  proof (rule vmsysI [OF assms(1,3,4), where pd = pd])
    show "D q = Some k \<and> pool s pd \<inter> ran (owns s q) = {}" if "(D(pd := None)) q = Some k" "q \<noteq> pd" for q k
    proof -
      have "D q = Some k" using that by simp
      then show ?thesis using f [of q k] that(2) by blast
    qed
    show "set (kfree_pages t) \<subseteq> pool s pd \<union> set (kfree_pages s)" "K \<inter> (pool s pd \<union> set (kfree_pages t)) = {}" using assms(5) kp by blast+
  qed simp
  have o: "owns t q = owns s q" if "D q = Some k" "q \<noteq> pd" for q k
    using spaces_frame(2) [OF assms(1,3,4) that(1) f [OF that]] assms(5) by blast
  have u: "(\<Union>q\<in>dom (D(pd := None)). ran (owns t q)) = (\<Union>q\<in>dom D - {pd}. ran (owns s q))" using owned_cong [of D pd t s] o by simp
  have "(\<Union>q\<in>dom D. ran (owns s q)) = ran (owns s pd) \<union> (\<Union>q\<in>dom D - {pd}. ran (owns s q))"
    using owned_split [of "\<lambda>q. ran (owns s q)" pd "dom D"] assms(2) by (simp add: insert_absorb domI)
  then have "all_pages t (D(pd := None)) K = all_pages s D K"
    using pages_swap [of "{}" "set (kfree_pages t)" "ran (owns s pd)" "set (kfree_pages s)" K "\<Union>q\<in>dom D - {pd}. ran (owns s q)"] assms(5) u by (simp add: all_pages_def pool_def)
  then show ?thesis using v by simp
qed

text \<open>A step that leaves the page tables alone.\<close>

lemma sys_data:
  assumes "vmsys s D K" "kalloc_ok t" "kend t = kend s" "\<forall>q n a. D q = Some n \<longrightarrow> PGROUNDDOWN a \<in> ran (tables s q) \<longrightarrow> pmem t a = pmem s a"
    "\<forall>q n. D q = Some n \<longrightarrow> set (kfree_pages t) \<inter> ran (owns s q) = {}" "\<forall>v\<in>L. kfreeable t v" "\<forall>v q n. v \<in> L \<longrightarrow> D q = Some n \<longrightarrow> v \<notin> ran (owns s q)"
  shows "vmsys t D L" "all_pages t D L = set (kfree_pages t) \<union> L \<union> (\<Union>q\<in>dom D. ran (owns s q))" "D q = Some n \<Longrightarrow> pte_at t q = pte_at s q"
proof -
  have o: "owns t q = owns s q" "pte_at t q = pte_at s q" if "D q = Some n" for q n
    by (rule tables_cong [OF vmsysD(4) [OF assms(1) that]]; use assms(4) that in blast)+
  show "D q = Some n \<Longrightarrow> pte_at t q = pte_at s q" by (rule o(2))
  have sp: "space_ok t q n" if "D q = Some n" for q n
  proof -
    have "kfreeable t v" if "owns s q x = Some v" for x v
    proof -
      have "v \<in> ran (owns s q)" using that by (rule ranI)
      then have "v \<notin> set (kfree_pages t)" using assms(5) \<open>D q = Some n\<close> by blast
      then show ?thesis using vinvD(3) [OF vmsysD(4) [OF assms(1) \<open>D q = Some n\<close>] that] assms(3) by (simp add: kfreeable_def kpage_def)
    qed
    then have "vinv t q" using vmsysD(4) [OF assms(1) that] assms(2,3) unfolding vinv_def o(1) [OF that] by simp
    then show ?thesis using vmsysD(3) [OF assms(1) that] by (simp add: space_ok_def o(2) [OF that])
  qed
  show "vmsys t D L" unfolding vmsys_def
  proof (intro conjI allI impI ballI)
    show "kalloc_ok t" "KERNBASE_xv < kend t" using assms(2,3) vmsysD(2) [OF assms(1)] by auto
    show "space_ok t q k" if "D q = Some k" for q k by (rule sp [OF that])
    show "ran (owns t q) \<inter> ran (owns t r) = {}" if "D q = Some k" "D r = Some l" "q \<noteq> r" for q k r l
      unfolding o(1) [OF that(1)] o(1) [OF that(2)] by (rule vmsysD(5) [OF assms(1) that])
    show "v \<notin> ran (owns t q)" if "v \<in> L" "D q = Some k" for v q k unfolding o(1) [OF that(2)] using assms(7) that by blast
    show "kfreeable t v" if "v \<in> L" for v using assms(6) that by blast
  qed
  have "(\<Union>q\<in>dom D. ran (owns t q)) = (\<Union>q\<in>dom D. ran (owns s q))" using o(1) by (intro SUP_cong) auto
  then show "all_pages t D L = set (kfree_pages t) \<union> L \<union> (\<Union>q\<in>dom D. ran (owns s q))" by (simp add: all_pages_def)
qed

lemma tables_owns: "ran (tables s q) \<subseteq> ran (owns s q)"
  by (auto simp: ran_def tables_def simp del: owns.simps split: if_splits)

lemma sys_take:
  assumes "vmsys s D K" "kalloc s = Inr (v, t)" "v \<noteq> 0"
  shows "vmsys t D (insert v K) \<and> all_pages t D (insert v K) = all_pages s D K"
proof -
  have u: "kfree_pages s = v # kfree_pages t" "kfreeable t v" "kalloc_ok t" "pmem t = pmem s" "ext {} s t" using kalloc_cases [OF vmsysD(1) [OF assms(1)]] assms(2,3) by auto
  have k: "\<forall>w\<in>insert v K. kfreeable t w"
  proof
    fix w assume "w \<in> insert v K"
    then show "kfreeable t w" using u(1,2,5) vmsysD(6) [OF assms(1), of w] by (cases "w = v") (auto simp: kfreeable_def kpage_def ext_def)
  qed
  have n: "\<forall>w q n. w \<in> insert v K \<longrightarrow> D q = Some n \<longrightarrow> w \<notin> ran (owns s q)"
    using vmsysD(7,8) [OF assms(1)] u(1) by (metis IntI emptyE insertE list.set_intros(1))
  have f: "\<forall>q n. D q = Some n \<longrightarrow> set (kfree_pages t) \<inter> ran (owns s q) = {}"
  proof (intro allI impI)
    fix q n assume "D q = Some n"
    then show "set (kfree_pages t) \<inter> ran (owns s q) = {}" using vmsysD(8) [OF assms(1)] u(1) by auto
  qed
  have ke: "kend t = kend s" using u(5) by (simp add: ext_def)
  have m: "\<forall>q n a. D q = Some n \<longrightarrow> PGROUNDDOWN a \<in> ran (tables s q) \<longrightarrow> pmem t a = pmem s a" by (simp add: u(4))
  note * = sys_data(1,2) [OF assms(1) u(3) ke m f k n]
  show ?thesis using * u(1) by (simp add: all_pages_def)
qed

lemma sys_give:
  assumes "vmsys s D K" "kfree v s = Inr t" "v \<in> K"
  shows "vmsys t D (K - {v}) \<and> all_pages t D (K - {v}) = all_pages s D K"
proof -
  have u: "kalloc_ok t" "kfree_pages t = v # kfree_pages s" "ext {v} s t" using kfree_ext [OF vmsysD(1) [OF assms(1)] vmsysD(6) [OF assms(1,3)]] assms(2) by auto
  have k: "\<forall>w\<in>K - {v}. kfreeable t w"
  proof
    fix w assume "w \<in> K - {v}"
    then show "kfreeable t w" using u(2,3) vmsysD(6) [OF assms(1), of w] by (auto simp: kfreeable_def kpage_def ext_def)
  qed
  have n: "\<forall>w q n. w \<in> K - {v} \<longrightarrow> D q = Some n \<longrightarrow> w \<notin> ran (owns s q)" using vmsysD(7) [OF assms(1)] by blast
  have vn: "v \<notin> ran (owns s q)" if "D q = Some n" for q n by (rule vmsysD(7) [OF assms(1,3) that])
  have f: "\<forall>q n. D q = Some n \<longrightarrow> set (kfree_pages t) \<inter> ran (owns s q) = {}"
  proof (intro allI impI)
    fix q n assume "D q = Some n"
    then show "set (kfree_pages t) \<inter> ran (owns s q) = {}" using vmsysD(8) [OF assms(1)] u(2) vn by auto
  qed
  have ke: "kend t = kend s" using u(3) by (simp add: ext_def)
  have m: "\<forall>q n a. D q = Some n \<longrightarrow> PGROUNDDOWN a \<in> ran (tables s q) \<longrightarrow> pmem t a = pmem s a"
  proof (intro allI impI)
    fix q n a assume "D q = Some n" "PGROUNDDOWN a \<in> ran (tables s q)"
    then have "PGROUNDDOWN a \<noteq> v" using vn tables_owns [of s q] by blast
    then show "pmem t a = pmem s a" using u(3) by (simp add: ext_def)
  qed
  note * = sys_data(1,2) [OF assms(1) u(1) ke m f k n]
  have "set (kfree_pages t) \<union> (K - {v}) = set (kfree_pages s) \<union> K" using assms(3) u(2) by auto
  then show ?thesis using * by (simp add: all_pages_def)
qed

lemma sys_store:
  assumes "vmsys s D K" "PGROUNDDOWN a \<notin> set (kfree_pages s)" "\<And>q n. D q = Some n \<Longrightarrow> PGROUNDDOWN a \<notin> ran (tables s q)"
  shows "vmsys (put_word a w s) D K" "all_pages (put_word a w s) D K = all_pages s D K" "D q = Some n \<Longrightarrow> pte_at (put_word a w s) q = pte_at s q"
proof -
  note u = kalloc_ok_store [OF vmsysD(1) [OF assms(1)] assms(2), of w]
  have k: "\<forall>v\<in>K. kfreeable (put_word a w s) v" using u(2,3) vmsysD(6) [OF assms(1)] by (auto simp: kfreeable_def kpage_def ext_def)
  have n: "\<forall>v q n. v \<in> K \<longrightarrow> D q = Some n \<longrightarrow> v \<notin> ran (owns s q)" using vmsysD(7) [OF assms(1)] by blast
  have f: "\<forall>q n. D q = Some n \<longrightarrow> set (kfree_pages (put_word a w s)) \<inter> ran (owns s q) = {}" using vmsysD(8) [OF assms(1)] u(2) by simp
  have ke: "kend (put_word a w s) = kend s" using u(3) by (simp add: ext_def)
  have m: "\<forall>q n b. D q = Some n \<longrightarrow> PGROUNDDOWN b \<in> ran (tables s q) \<longrightarrow> pmem (put_word a w s) b = pmem s b" using assms(3) by (auto simp: put_word_def)
  note * = sys_data [OF assms(1) u(1) ke m f k n]
  show "vmsys (put_word a w s) D K" by (rule *(1))
  show "all_pages (put_word a w s) D K = all_pages s D K" using *(2) u(2) by (simp add: all_pages_def)
  show "D q = Some n \<Longrightarrow> pte_at (put_word a w s) q = pte_at s q" by (rule *(3))
qed

text \<open>The page of an address of user memory, and the place of the address in it.\<close>

lemma user_page:
  assumes "vmsys s D K" "D pd = Some n" "va < KERNBASE_xv" "present_xv (pte_at s pd va)"
  shows "PGROUNDDOWN (frame_of (pte_at s pd va) + (va - PGROUNDDOWN va)) = frame_of (pte_at s pd va)"
    "owns s pd (Frame (PGROUNDDOWN va)) = Some (frame_of (pte_at s pd va))"
proof -
  show o: "owns s pd (Frame (PGROUNDDOWN va)) = Some (frame_of (pte_at s pd va))" using assms(3,4) by simp
  have "frame_of (pte_at s pd va) mod PGSIZE_xv = 0" using vinvD(5) [OF vmsysD(4) [OF assms(1,2)] o] by simp
  moreover have "va - PGROUNDDOWN va < PGSIZE_xv" using in_page_iff [OF PGROUNDDOWN_aligned] by simp
  ultimately show "PGROUNDDOWN (frame_of (pte_at s pd va) + (va - PGROUNDDOWN va)) = frame_of (pte_at s pd va)" by (rule off_page)
qed

lemma user_page_apart:
  assumes "vmsys s D K" "D pd = Some n" "va < KERNBASE_xv" "present_xv (pte_at s pd va)"
  defines "v \<equiv> frame_of (pte_at s pd va)"
  shows "v \<notin> set (kfree_pages s)" "D q = Some m \<Longrightarrow> v \<notin> ran (tables s q)" "v \<notin> K" "D q = Some m \<Longrightarrow> q \<noteq> pd \<Longrightarrow> v \<notin> ran (owns s q)"
proof -
  have o: "owns s pd (Frame (PGROUNDDOWN va)) = Some v" unfolding v_def by (rule user_page(2) [OF assms(1-4)])
  have r: "v \<in> ran (owns s pd)" using o by (rule ranI)
  show "v \<notin> set (kfree_pages s)" using vmsysD(8) [OF assms(1,2)] r by blast
  show a: "v \<notin> ran (owns s q)" if "D q = Some m" "q \<noteq> pd" for q m using vmsysD(5) [OF assms(1,2) that(1)] that(2) r by blast
  show "v \<notin> ran (tables s q)" if "D q = Some m" for q m
    using a [OF that] table_frame [OF vmsysD(4) [OF assms(1,2)] o] tables_owns [of s q] by (cases "q = pd") auto
  show "v \<notin> K" using vmsysD(7) [OF assms(1) _ assms(2)] r by blast
qed

subsection \<open>The operations keep the spaces apart\<close>

lemma kern_pte_user: "data_ok dat \<Longrightarrow> b < KERNBASE_xv \<Longrightarrow> kern_pte dat b = 0"
proof -
  assume a: "data_ok dat" "b < KERNBASE_xv"
  then have p: "PGROUNDDOWN b < KERNBASE_xv" by simp
  have "\<not> x \<le> PGROUNDDOWN b" if "KERNBASE_xv \<le> x" for x using p that by (meson leD order.trans)
  moreover have "KERNBASE_xv \<le> dat" "KERNBASE_xv \<le> DEVSPACE" "KERNBASE_xv \<le> KERNLINK" using a(1) const_order by (auto simp: data_ok_def)
  ultimately show ?thesis by (simp add: kern_pte_def Let_def)
qed

lemma space_okD:
  assumes "space_ok s pd n" "b < KERNBASE_xv"
  shows "PGROUNDDOWN b < n \<Longrightarrow> present_xv (pte_at s pd b)" "n \<le> PGROUNDDOWN b \<Longrightarrow> pte_at s pd b = 0"
  using assms by (auto simp: space_ok_def split: if_splits)

lemma roundup_le:
  assumes "PGROUNDDOWN p = p" "n \<le> KERNBASE_xv"
  shows "PGROUNDUP n \<le> p \<longleftrightarrow> n \<le> p"
proof -
  obtain k where k: "unat p = 4096 * k" using assms(1) page_unat by blast
  have n: "unat n \<le> 2147483648" using assms(2) by (simp add: word_le_nat_alt KERNBASE_xv_def)
  have "(m + 4095) div 4096 * 4096 \<le> 4096 * k \<longleftrightarrow> m \<le> 4096 * k" for m :: nat
  proof
    assume "m \<le> 4096 * k"
    then have "(m + 4095) div 4096 \<le> (4096 * k + 4095) div 4096" by (intro div_le_mono) simp
    then show "(m + 4095) div 4096 * 4096 \<le> 4096 * k" by simp
  qed linarith
  then show ?thesis using n by (simp add: word_le_nat_alt unat_PGROUNDUP k)
qed

lemma sys_create:
  assumes "vmsys s D K" "data_ok dat"
  shows "\<exists>d t. setupkvm dat s = xret (d, t) \<and> vmsys t (if d = 0 then D else D(d \<mapsto> 0)) K \<and> all_pages t (if d = 0 then D else D(d \<mapsto> 0)) K = all_pages s D K"
  using setupkvm_ok [OF vmsysD(1,2) [OF assms(1)] assms(2)]
proof (elim disjE exE conjE)
  fix d t assume t: "setupkvm dat s = xret (d, t)" "d \<noteq> 0" "vinv t d" "pte_at t d = kern_pte dat" "pool t d = set (kfree_pages s)" "ext (set (kfree_pages s)) s t"
  have "space_ok t d 0" using t(3,4) kern_pte_user [OF assms(2)] by (auto simp: space_ok_def KERNBASE_xv_def)
  from sys_new(1) [OF assms(1) t(6) this t(5)] show ?thesis using t(1,2) by auto
qed (use sys_same [OF assms(1)] in auto)

lemma allocuvm_cases:
  assumes "vmsys s D K" "D pd = Some n"
  shows "m < n \<and> m < KERNBASE_xv \<and> allocuvm pd n m s = xret (n, s) \<or> KERNBASE_xv \<le> m \<and> allocuvm pd n m s = xret (0, s) \<or>
    n \<le> m \<and> m < KERNBASE_xv \<and> (\<exists>t. allocuvm pd n m s = xret (m, t) \<and> vm_grown pd (PGROUNDUP n) m s t \<or> allocuvm pd n m s = xret (0, t) \<and> undone pd s t \<and> card (pool s pd) \<le> scarce m)"
proof -
  note sp = vmsysD(3) [OF assms]
  have nk: "n < KERNBASE_xv" using sp by (simp add: space_ok_def)
  consider "m < n" "m < KERNBASE_xv" | "KERNBASE_xv \<le> m" | "n \<le> m" "m < KERNBASE_xv" by fastforce
  then show ?thesis
  proof cases
    case 3
    have "pte_at s pd va = 0" if "PGROUNDUP n \<le> PGROUNDDOWN va" "PGROUNDDOWN va < m" for va
    proof -
      have "PGROUNDDOWN va < KERNBASE_xv" using that(2) 3(2) by (rule order.strict_trans)
      then have v: "va < KERNBASE_xv" by simp
      show ?thesis using space_okD(2) [OF sp v] that(1) roundup_le [of "PGROUNDDOWN va" n] nk by simp
    qed
    moreover have "p < m" if "PGROUNDDOWN p = p" "p < KERNBASE_xv" "present_xv (pte_at s pd p)" for p
    proof -
      have "p < n" using space_okD(2) [OF sp that(2)] that(1,3) by (cases "p < n") auto
      then show ?thesis using 3(1) by simp
    qed
    ultimately show ?thesis using allocuvm_ok [OF vmsysD(4) [OF assms] 3(2,1)] 3 by blast
  qed (auto simp: allocuvm_def)
qed

lemma grown_space:
  assumes "space_ok s pd n" "n \<le> m" "m < KERNBASE_xv" "vm_grown pd (PGROUNDUP n) m s t"
  shows "space_ok t pd m"
proof -
  note g = grownD [OF assms(4)]
  have nk: "n \<le> KERNBASE_xv" using assms(1) by (auto simp: space_ok_def)
  have "if PGROUNDDOWN b < m then present_xv (pte_at t pd b) else pte_at t pd b = 0" if "b < KERNBASE_xv" for b
  proof (cases "PGROUNDUP n \<le> PGROUNDDOWN b \<and> PGROUNDDOWN b < m")
    case True
    then obtain v where "pte_at t pd b = user_pte v" using g(5) by blast
    then show ?thesis using True user_pte_present by simp
  next
    case False
    have "PGROUNDUP n \<le> PGROUNDDOWN b \<longleftrightarrow> n \<le> PGROUNDDOWN b" using roundup_le [OF _ nk] by simp
    then show ?thesis using False g(6) [OF False] space_okD [OF assms(1) that] assms(2) by (auto simp: not_le not_less dest: order.strict_trans1 order.trans)
  qed
  then show ?thesis using g(1) assms(3) by (simp add: space_ok_def)
qed

lemma sys_grow:
  assumes "vmsys s D K" "D pd = Some n"
  shows "\<exists>r t. allocuvm pd n m s = xret (r, t) \<and> vmsys t (if r = 0 then D else D(pd \<mapsto> r)) K \<and> all_pages t (if r = 0 then D else D(pd \<mapsto> r)) K = all_pages s D K"
proof -
  have dn: "D(pd \<mapsto> n) = D" using assms(2) by (rule map_upd_triv)
  from allocuvm_cases [OF assms, of m] show ?thesis
  proof (elim disjE exE conjE)
    fix t assume t: "n \<le> m" "m < KERNBASE_xv" "allocuvm pd n m s = xret (m, t)" "vm_grown pd (PGROUNDUP n) m s t"
    note g = grownD [OF t(4)]
    have v: "vmsys t (D(pd \<mapsto> m)) K \<and> all_pages t (D(pd \<mapsto> m)) K = all_pages s D K"
      by (rule sys_update [OF assms ext_mono [OF g(4) pool_meta] grown_space [OF vmsysD(3) [OF assms] t(1,2,4)] g(2)])
    have "n = 0" if "m = 0" using t(1) that by (simp add: word_le_nat_alt unat_eq_0)
    then have e: "(if m = 0 then D else D(pd \<mapsto> m)) = D(pd \<mapsto> m)" using dn by (cases "m = 0") auto
    have "vmsys t (if m = 0 then D else D(pd \<mapsto> m)) K \<and> all_pages t (if m = 0 then D else D(pd \<mapsto> m)) K = all_pages s D K" unfolding e by (rule v)
    then show ?thesis using t(3) by blast
  next
    fix t assume t: "allocuvm pd n m s = xret (0, t)" "undone pd s t"
    have "space_ok t pd n" using vmsysD(3) [OF assms] t(2) by (simp add: space_ok_def undone_def)
    moreover have "ext (pool s pd) s t" "pool t pd = pool s pd" using t(2) ext_mono [OF _ pool_meta] by (auto simp: undone_def)
    ultimately have "vmsys t D K \<and> all_pages t D K = all_pages s D K" using sys_update [OF assms, of t n] unfolding dn by blast
    then show ?thesis using t(1) by auto
  next
    assume "m < n" "allocuvm pd n m s = xret (n, s)"
    then show ?thesis using assms(1) dn by auto
  next
    assume "allocuvm pd n m s = xret (0, s)"
    then show ?thesis using assms(1) by auto
  qed
qed

lemma sys_shrink:
  assumes "vmsys s D K" "D pd = Some n"
  shows "\<exists>r t. deallocuvm pd n m s = xret (r, t) \<and> r = min n m \<and> vmsys t (D(pd \<mapsto> r)) K \<and> all_pages t (D(pd \<mapsto> r)) K = all_pages s D K"
proof (cases "m < n")
  case True
  note sp = vmsysD(3) [OF assms]
  have nk: "n \<le> KERNBASE_xv" "n < KERNBASE_xv" using sp by (auto simp: space_ok_def)
  then have mk: "m \<le> KERNBASE_xv" "m < KERNBASE_xv" using True by auto
  obtain t where t: "deallocuvm pd n m s = xret (m, t)" "unmapped pd (cleared (PGROUNDUP m) n (pte_at s pd)) s t"
    using deallocuvm_ok [OF vmsysD(4) [OF assms] nk(1) True] by blast
  note u = t(2) [unfolded unmapped_def]
  have "if PGROUNDDOWN b < m then present_xv (pte_at t pd b) else pte_at t pd b = 0" if "b < KERNBASE_xv" for b
  proof -
    have e: "pte_at t pd b = (if m \<le> PGROUNDDOWN b \<and> PGROUNDDOWN b < n \<and> present_xv (pte_at s pd b) then 0 else pte_at s pd b)"
      using u roundup_le [of "PGROUNDDOWN b" m] mk(1) by (simp add: cleared_def)
    show ?thesis
    proof (cases "PGROUNDDOWN b < m")
      case F: True
      then show ?thesis using e space_okD(1) [OF sp that] True by (auto dest: order.strict_trans)
    next
      case False
      then show ?thesis using e space_okD [OF sp that] by (cases "PGROUNDDOWN b < n") auto
    qed
  qed
  then have "space_ok t pd m" unfolding space_ok_def using u mk(2) by blast
  moreover have "ran (tables s pd) \<union> set (kfree_pages t) \<subseteq> pool s pd" using u tables_owns [of s pd] by (auto simp: pool_def)
  then have "ext (pool s pd) s t" using u ext_mono by blast
  ultimately show ?thesis using sys_update [OF assms, of t m] u t(1) True by auto
next
  case False
  have "D(pd \<mapsto> n) = D" using assms(2) by (simp add: fun_upd_idem)
  then show ?thesis using False assms(1) by (auto simp: deallocuvm_def min_def)
qed

lemma copied_space:
  assumes "space_ok s pd n" "copied dat pd d n s t" "data_ok dat"
  shows "space_ok t d n"
proof -
  have v: "vinv s pd" "n < KERNBASE_xv" using assms(1) by (auto simp: space_ok_def)
  note c = copiedD [OF assms(2) v(1)]
  have "if PGROUNDDOWN b < n then present_xv (pte_at t d b) else pte_at t d b = 0" if "b < KERNBASE_xv" for b
    using c(5,6) [OF that] by auto
  then show ?thesis using c(1) v(2) by (simp add: space_ok_def)
qed

lemma space_present: "space_ok s pd n \<Longrightarrow> \<forall>p. PGROUNDDOWN p = p \<and> p < n \<longrightarrow> present_xv (pte_at s pd p)"
  unfolding space_ok_def by (metis order.strict_trans)

lemma sys_copy:
  assumes "vmsys s D K" "D pd = Some n" "data_ok dat"
  shows "\<exists>d t. copyuvm dat pd n s = xret (d, t) \<and> vmsys t (if d = 0 then D else D(d \<mapsto> n)) K \<and> all_pages t (if d = 0 then D else D(d \<mapsto> n)) K = all_pages s D K \<and>
    (d \<noteq> 0 \<longrightarrow> copied dat pd d n s t \<and> D d = None)"
proof -
  note sp = vmsysD(3) [OF assms(1,2)]
  have nk: "n \<le> KERNBASE_xv" using sp by (auto simp: space_ok_def)
  from copyuvm_ok [OF vmsysD(4) [OF assms(1,2)] nk space_present [OF sp] assms(3)] show ?thesis
  proof (elim disjE exE conjE)
    fix d t assume t: "copyuvm dat pd n s = xret (d, t)" "d \<noteq> 0" "copied dat pd d n s t"
    note c = copiedD [OF t(3) vmsysD(4) [OF assms(1,2)]]
    from sys_new [OF assms(1) c(3) copied_space [OF sp t(3) assms(3)] c(2)] show ?thesis using t by auto
  qed (use sys_same [OF assms(1)] in auto)
qed

lemma sys_remove:
  assumes "vmsys s D K" "D pd = Some n"
  shows "\<exists>t. freevm pd s = xret t \<and> vmsys t (D(pd := None)) K \<and> all_pages t (D(pd := None)) K = all_pages s D K"
  using freevm_ok [OF vmsysD(4) [OF assms]] sys_del [OF assms] by blast

lemma entry_bits:
  "present_xv e \<longleftrightarrow> bit e 0" "e AND PTE_U_xv \<noteq> 0 \<longleftrightarrow> bit e 2"
  using and_exp_eq_0_iff_not_bit [of e 2] by (simp_all add: present_xv_def PTE_P_xv_def PTE_U_xv_def)

lemma aligned_bit: "v mod PGSIZE_xv = 0 \<Longrightarrow> i < 12 \<Longrightarrow> \<not> bit v i"
proof -
  assume a: "v mod PGSIZE_xv = 0" "i < 12"
  have "v = v AND NOT (mask 12)" using PGROUNDDOWN_id [OF a(1)] by (simp add: PGROUNDDOWN_def PGSIZE_xv_def mask_eq_exp_minus_1)
  then show ?thesis using a(2) by (metis bit_and_iff bit_not_iff bit_mask_iff)
qed

lemma PTE_ADDR_clear_u: "frame_of (e AND NOT PTE_U_xv) = frame_of e"
proof -
  have "(e AND NOT 4) AND NOT 0xFFF = e AND NOT (0xFFF :: u32)"
  proof (rule bit_eqI)
    fix n assume "possible_bit TYPE(u32) n"
    have "bit (4 :: u32) n \<Longrightarrow> bit (0xFFF :: u32) n"
    proof -
      assume "bit (4 :: u32) n"
      moreover have "(4 :: u32) = 2 ^ 2" "(0xFFF :: u32) = mask 12" by (simp_all add: mask_eq_exp_minus_1)
      ultimately show ?thesis by (simp only: bit_exp_iff bit_mask_iff) simp
    qed
    then show "bit ((e AND NOT 4) AND NOT 0xFFF) n = bit (e AND NOT (0xFFF :: u32)) n" unfolding bit_and_iff bit_not_iff by blast
  qed
  then show ?thesis unfolding frame_of_def PTE_ADDR_xv_def PTE_U_xv_def by (simp only:)
qed

lemma sys_guard:
  assumes "vmsys s D K" "D pd = Some n" "PGROUNDDOWN va < n"
  shows "\<exists>t. clearpteu pd va s = Inr t \<and> vmsys t D K \<and> all_pages t D K = all_pages s D K"
proof -
  note sp = vmsysD(3) [OF assms(1,2)] and v = vmsysD(4) [OF assms(1,2)]
  have "PGROUNDDOWN va < KERNBASE_xv" using assms(3) sp unfolding space_ok_def by (meson order.strict_trans)
  then have k: "va < KERNBASE_xv" by simp
  then have p: "present_xv (pte_at s pd va)" using space_okD(1) [OF sp k assms(3)] by simp
  then have tb: "present_xv (pmem s (pd + 4 * PDX_xv va))" "pmem s (tab s pd (PDX_xv va) + 4 * PTX_xv va) = pte_at s pd va"
    by (auto simp: pte_at_def split: if_splits)
  let ?r = "tab s pd (PDX_xv va) + 4 * PTX_xv va" and ?x = "pte_at s pd va AND NOT PTE_U_xv"
  have px: "present_xv ?x" "frame_of ?x = frame_of (pte_at s pd va)"
    using p PTE_ADDR_clear_u by (simp_all add: entry_bits bit_and_iff bit_not_iff PTE_U_xv_def bit_numeral_rec)
  note e = set_entry [OF v tb(1), of ?x]
  have c: "clearpteu pd va s = Inr (put_word ?r ?x s)" using tb table_entry(5) [OF v tb(1)] by (simp add: clearpteu_def walkpgdir_find)
  let ?t = "put_word ?r ?x s"
  have o: "owns ?t pd = owns s pd" using e(2) px k p by (simp add: fun_upd_idem)
  have "vinv ?t pd" by (rule vinv_same [OF v o e(3)]) (use e(4,5) in \<open>auto simp: ext_def\<close>)
  moreover have "if PGROUNDDOWN b < n then present_xv (pte_at ?t pd b) else pte_at ?t pd b = 0" if "b < KERNBASE_xv" for b
    using space_okD [OF sp that] px(1) assms(3) unfolding e(1) by auto
  ultimately have "space_ok ?t pd n" using sp unfolding space_ok_def by blast
  moreover have "pool ?t pd = pool s pd" using o e(4) by (simp add: pool_def)
  moreover have "ext (pool s pd) s ?t" by (rule ext_mono [OF e(5)]) (use meta_set_entry(2) [OF v tb(1)] pool_meta [of s pd] in blast)
  moreover have "D(pd \<mapsto> n) = D" using assms(2) by (simp add: fun_upd_idem)
  ultimately show ?thesis using sys_update [OF assms(1,2)] c by metis
qed

lemma sys_start: "kalloc_ok s \<Longrightarrow> KERNBASE_xv < kend s \<Longrightarrow> vmsys s Map.empty {} \<and> all_pages s Map.empty {} = set (kfree_pages s)"
  by (simp add: vmsys_def all_pages_def)

lemma vreach_ok:
  assumes "vreach dat s0 s D K" "data_ok dat"
  shows "vmsys s D K \<and> all_pages s D K = set (kfree_pages s0)"
  using assms
proof (induction rule: vreach.induct)
  case start
  then show ?case using sys_start by blast
next
  case (create s D K d t)
  then show ?case using sys_create [of s D K dat] by auto
next
  case (grow s D K pd n m r t)
  then show ?case using sys_grow [of s D K pd n m] by auto
next
  case (shrink s D K pd n m r t)
  then show ?case using sys_shrink [of s D K pd n m] by (auto simp: fun_upd_def)
next
  case (copy s D K pd n d t)
  then show ?case using sys_copy [of s D K pd n dat] by auto
next
  case (remove s D K pd n t)
  then show ?case using sys_remove [of s D K pd n] by (auto simp: fun_upd_def)
next
  case (guard s D K pd n va t)
  then show ?case using sys_guard [of s D K pd n va] by auto
next
  case (take s D K v t)
  then show ?case using sys_take [of s D K v t] by simp
next
  case (give s D K v t)
  then show ?case using sys_give [of s D K v t] by simp
next
  case (user s D K pd n va w)
  then have v: "vmsys s D K" and p: "present_xv (pte_at s pd va)" by (auto simp: user_ok_def)
  note a = user_page_apart [OF v user.hyps(2,3) p] and b = user_page(1) [OF v user.hyps(2,3) p]
  show ?case using sys_store(1,2) [OF v, of "frame_of (pte_at s pd va) + (va - PGROUNDDOWN va)" w] a(1,2) user.IH user.prems unfolding b by simp
next
  case (kernel s D K a w)
  then have v: "vmsys s D K" by simp
  have "PGROUNDDOWN a \<notin> set (kfree_pages s)" using vmsysD(6) [OF v kernel.hyps(2)] by (simp add: kfreeable_def)
  moreover have "PGROUNDDOWN a \<notin> ran (tables s q)" if "D q = Some n" for q n using vmsysD(7) [OF v kernel.hyps(2) that] tables_owns [of s q] by blast
  ultimately show ?case using sys_store(1,2) [OF v] kernel.IH kernel.prems by simp
qed

subsection \<open>Properties\<close>

lemma uload_frame:
  assumes "vmsys s D K" "D q = Some n" "b < KERNBASE_xv" "pte_at t q b = pte_at s q b" "ext P s t" "P \<inter> ran (owns s q) = {}"
  shows "uload t q b = uload s q b"
proof (cases "present_xv (pte_at s q b)")
  case True
  note u = user_page [OF assms(1-3) True]
  have "frame_of (pte_at s q b) \<in> ran (owns s q)" using u(2) by (rule ranI)
  then have "frame_of (pte_at s q b) \<notin> P" using assms(6) by blast
  then show ?thesis using u(1) assms(4,5) by (simp add: uload_def Let_def ext_def)
next
  case False
  then show ?thesis using assms(4) by (simp add: uload_def user_ok_def)
qed

lemma others_uload:
  assumes "vmsys s D K" "D q = Some n" "b < KERNBASE_xv" "ext P s t" "P \<inter> ran (owns s q) = {}" "kalloc_ok t" "set (kfree_pages t) \<subseteq> P \<union> set (kfree_pages s)"
  shows "uload t q b = uload s q b"
proof -
  have "set (kfree_pages t) \<inter> ran (owns s q) = {}" using assms(5,7) vmsysD(8) [OF assms(1,2)] by blast
  then have "pte_at t q = pte_at s q" by (rule space_frame(3) [OF vmsysD(4) [OF assms(1,2)] assms(4,5,6)])
  then show ?thesis using uload_frame [OF assms(1-3) _ assms(4,5)] by simp
qed

lemma pool_others:
  assumes "vmsys s D K" "D pd = Some n" "D q = Some m" "q \<noteq> pd"
  shows "pool s pd \<inter> ran (owns s q) = {}"
  using vmsysD(5) [OF assms(1,2,3)] vmsysD(8) [OF assms(1,3)] assms(4) unfolding pool_def by blast

text \<open>C3: in every state the kernel and the programs can reach, no page belongs to two address spaces or has two roles in one, no page in use is on
  the free list or with the kernel, exactly the user pages below the size of a process are present, and every page of the initial free list
  is accounted for: none is lost.\<close>

theorem vm_isolation:
  assumes "data_ok dat" "vreach dat s0 s D K"
  shows "(\<forall>pd q m n. D pd = Some m \<longrightarrow> D q = Some n \<longrightarrow> pd \<noteq> q \<longrightarrow> ran (owns s pd) \<inter> ran (owns s q) = {}) \<and>
    (\<forall>pd n. D pd = Some n \<longrightarrow> inj_on (owns s pd) (dom (owns s pd)) \<and> ran (owns s pd) \<inter> (set (kfree_pages s) \<union> K) = {} \<and>
      (\<forall>va<KERNBASE_xv. present_xv (pte_at s pd va) \<longleftrightarrow> PGROUNDDOWN va < n)) \<and>
    K \<inter> set (kfree_pages s) = {} \<and> set (kfree_pages s) \<union> K \<union> (\<Union>pd\<in>dom D. ran (owns s pd)) = set (kfree_pages s0)"
proof -
  have v: "vmsys s D K" "all_pages s D K = set (kfree_pages s0)" using vreach_ok [OF assms(2,1)] by auto
  have "inj_on (owns s pd) (dom (owns s pd)) \<and> ran (owns s pd) \<inter> (set (kfree_pages s) \<union> K) = {} \<and>
      (\<forall>va<KERNBASE_xv. present_xv (pte_at s pd va) \<longleftrightarrow> PGROUNDDOWN va < n)" if "D pd = Some n" for pd n
  proof (intro conjI allI impI)
    show "inj_on (owns s pd) (dom (owns s pd))" by (rule inj_onI) (metis domD vinvD(4) [OF vmsysD(4) [OF v(1) that]])
    show "ran (owns s pd) \<inter> (set (kfree_pages s) \<union> K) = {}" using vmsysD(7) [OF v(1) _ that] vmsysD(8) [OF v(1) that] by blast
    show "present_xv (pte_at s pd va) \<longleftrightarrow> PGROUNDDOWN va < n" if "va < KERNBASE_xv" for va
      using space_okD [OF vmsysD(3) [OF v(1) \<open>D pd = Some n\<close>] that] by (cases "PGROUNDDOWN va < n") auto
  qed
  moreover have "K \<inter> set (kfree_pages s) = {}" using vmsysD(6) [OF v(1)] by (auto simp: kfreeable_def)
  ultimately show ?thesis using vmsysD(5) [OF v(1)] v(2) unfolding all_pages_def by blast
qed

text \<open>C15: a write of a program to an address it may use is read back there and changes nothing that another program can read, no page of the
  kernel and no page table.\<close>

theorem vm_write_isolated:
  assumes "data_ok dat" "vreach dat s0 s D K" "D pd = Some n" "va < KERNBASE_xv" "user_ok (pte_at s pd va)"
  shows "\<exists>a. uload s pd va = Some (pmem s a) \<and> uload (put_word a w s) pd va = Some w \<and> (\<forall>b. PGROUNDDOWN b \<in> K \<longrightarrow> pmem (put_word a w s) b = pmem s b) \<and>
    (\<forall>q m. D q = Some m \<longrightarrow> pte_at (put_word a w s) q = pte_at s q \<and> (q \<noteq> pd \<longrightarrow> (\<forall>b<KERNBASE_xv. uload (put_word a w s) q b = uload s q b)))"
proof -
  have v: "vmsys s D K" using vreach_ok [OF assms(2,1)] by simp
  have p: "present_xv (pte_at s pd va)" using assms(5) by (simp add: user_ok_def)
  let ?f = "frame_of (pte_at s pd va)"
  let ?a = "?f + (va - PGROUNDDOWN va)"
  note u = user_page [OF v assms(3,4) p] and a = user_page_apart [OF v assms(3,4) p]
  have w1: "PGROUNDDOWN ?a \<notin> set (kfree_pages s)" using u(1) a(1) by simp
  have w2: "PGROUNDDOWN ?a \<notin> ran (tables s q)" if "D q = Some m" for q m using u(1) a(2) [OF that] by simp
  have wr: "pte_at (put_word ?a w s) q = pte_at s q" if "D q = Some m" for q m by (rule sys_store(3) [OF v w1 _ that]) (rule w2)
  have e: "ext {?f} s (put_word ?a w s)" using u(1) by (auto simp: ext_def put_word_def)
  have "uload (put_word ?a w s) q b = uload s q b" if "D q = Some m" "q \<noteq> pd" "b < KERNBASE_xv" for q m b
    using uload_frame [OF v that(1,3) _ e] wr [OF that(1)] a(4) [OF that(1,2)] by simp
  moreover have "uload (put_word ?a w s) pd va = Some w" using assms(5) wr [OF assms(3)] by (simp add: uload_def put_word_def)
  moreover have "pmem (put_word ?a w s) b = pmem s b" if "PGROUNDDOWN b \<in> K" for b using a(3) that u(1) by (auto simp: put_word_def)
  ultimately show ?thesis using wr assms(5) by (intro exI [of _ ?a]) (simp add: uload_def)
qed

lemma copied_user_ok:
  assumes "v mod PGSIZE_xv = 0" "present_xv e"
  shows "user_ok (V2P v OR PTE_FLAGS_xv e OR PTE_P_xv) \<longleftrightarrow> user_ok e"
proof -
  have m: "(0xFFF :: u32) = mask 12" "PTE_P_xv = mask 1" by (simp_all add: mask_eq_exp_minus_1 PTE_P_xv_def)
  have "\<not> bit (V2P v) 2" by (rule aligned_bit) (use assms(1) in \<open>simp_all add: V2P_aligned\<close>)
  then have "bit (V2P v OR PTE_FLAGS_xv e OR PTE_P_xv) 2 = bit e 2" unfolding PTE_FLAGS_xv_def m bit_or_iff bit_and_iff bit_mask_iff by simp
  then show ?thesis using assms(2) unfolding user_ok_def entry_bits(2) by simp
qed

text \<open>\<open>copyuvm\<close> always returns.  Either memory runs out (there were no more free pages than the copy may need) and every page it had taken is free again, or the child sees at every
  user address exactly what the parent sees, in pages that no other address space has.  The parent and all the others see what they saw before.\<close>

lemma copyuvm_returns:
  assumes "data_ok dat" "vmsys s D K" "D pd = Some n"
  shows "\<exists>d t. copyuvm dat pd n s = xret (d, t) \<and> (\<forall>q m. D q = Some m \<longrightarrow> (\<forall>b<KERNBASE_xv. uload t q b = uload s q b)) \<and>
    (if d = 0 then set (kfree_pages t) = set (kfree_pages s) \<and> length (kfree_pages s) \<le> scarce n
     else D d = None \<and> ran (owns t d) \<subseteq> set (kfree_pages s) \<and> (\<forall>b<KERNBASE_xv. uload t d b = uload s pd b))"
proof -
  note v = assms(2)
  note sp = vmsysD(3) [OF v assms(3)] and vi = vmsysD(4) [OF v assms(3)]
  have nk: "n \<le> KERNBASE_xv" using sp by (auto simp: space_ok_def)
  have others: "uload t q b = uload s q b" if "ext (set (kfree_pages s)) s t" "kalloc_ok t" "set (kfree_pages t) \<subseteq> set (kfree_pages s)" "D q = Some m" "b < KERNBASE_xv" for t q m b
    by (rule others_uload [OF v that(4,5,1) vmsysD(8) [OF v that(4)] that(2)]) (use that(3) in blast)
  from copyuvm_ok [OF vi nk space_present [OF sp] assms(1)] show ?thesis
  proof (elim disjE exE conjE)
    fix t assume t: "copyuvm dat pd n s = xret (0, t)" "kalloc_ok t" "set (kfree_pages t) = set (kfree_pages s)" "ext (set (kfree_pages s)) s t"
      "card (set (kfree_pages s)) \<le> scarce n"
    have "length (kfree_pages s) \<le> scarce n" using t(5) xv_pool.avail_distinct [OF vmsysD(1) [OF v]] by (simp add: distinct_card)
    then show ?thesis using t others [OF t(4,2)] by (intro exI [of _ 0] exI [of _ t]) auto
  next
    fix d t assume t: "copyuvm dat pd n s = xret (d, t)" "d \<noteq> 0" "copied dat pd d n s t"
    note c = copiedD [OF t(3) vi]
    have pf: "set (kfree_pages t) \<subseteq> set (kfree_pages s)" "ran (owns t d) \<subseteq> set (kfree_pages s)" using c(2) by (auto simp: pool_def)
    have dn: "D d = None" using sys_new(2) [OF v c(3) copied_space [OF sp t(3) assms(1)] c(2)] .
    have "uload t d b = uload s pd b" if b: "b < KERNBASE_xv" for b
    proof (cases "PGROUNDDOWN b < n")
      case True
      have p: "present_xv (pte_at s pd b)" using space_okD(1) [OF sp b True] .
      obtain x where x: "x \<in> set (kfree_pages s)" "pte_at t d b = V2P x OR PTE_FLAGS_xv (pte_at s pd b) OR PTE_P_xv"
        "\<forall>k<PGSIZE_xv. pmem t (x + k) = pmem s (frame_of (pte_at s pd b) + k)" using c(5) [OF b True] by blast
      have xa: "x mod PGSIZE_xv = 0" using free_aligned [OF vmsysD(1) [OF v] x(1)] by simp
      have "b - PGROUNDDOWN b < PGSIZE_xv" using in_page_iff [OF PGROUNDDOWN_aligned] by simp
      then show ?thesis using x(2,3) copied_user_ok [OF xa p] copied_frame [OF xa] by (simp add: uload_def Let_def)
    next
      case False
      then show ?thesis using c(6) [OF b False] space_okD(2) [OF sp b] by (simp add: uload_def user_ok_def)
    qed
    then show ?thesis using t(1,2) others [OF c(3) vinvD(1) [OF c(1)] pf(1)] dn pf(2) by (intro exI [of _ d] exI [of _ t]) auto
  qed
qed

lemma user_ok_user_pte: "user_ok (user_pte v)"
proof -
  have "bit PTE_U_xv 2" by (simp add: PTE_U_xv_def bit_numeral_rec)
  then have "bit (user_pte v) 2" unfolding user_pte_def bit_or_iff by simp
  then show ?thesis using user_pte_present unfolding user_ok_def entry_bits(2) by simp
qed

text \<open>Growing a space from \<open>n\<close> to \<open>m\<close> bytes always returns: the new pages read 0 and are writable, or memory ran out and the page table is as before.\<close>

lemma allocuvm_effect:
  assumes "vmsys s D K" "D pd = Some n" "n \<le> m" "m < KERNBASE_xv"
  shows "\<exists>r t. allocuvm pd n m s = xret (r, t) \<and> (\<forall>q k. D q = Some k \<longrightarrow> q \<noteq> pd \<longrightarrow> (\<forall>b<KERNBASE_xv. uload t q b = uload s q b)) \<and>
    (\<forall>b<KERNBASE_xv. PGROUNDDOWN b < n \<longrightarrow> uload t pd b = uload s pd b) \<and> pool t pd = pool s pd \<and>
    (r = m \<and> (\<forall>b. n \<le> PGROUNDDOWN b \<and> PGROUNDDOWN b < m \<longrightarrow> uload t pd b = Some 0 \<and> pte_at t pd b AND PTE_W_xv \<noteq> 0) \<or> r = 0 \<and> pte_at t pd = pte_at s pd \<and> length (kfree_pages s) \<le> scarce m)"
proof -
  note v = assms(1)
  note sp = vmsysD(3) [OF v assms(2)] and vi = vmsysD(4) [OF v assms(2)]
  have nk: "n \<le> KERNBASE_xv" using sp by (auto simp: space_ok_def)
  have others: "uload t q b = uload s q b"
    if "ext (meta s pd) s t" "vinv t pd" "pool t pd = pool s pd" "D q = Some k" "q \<noteq> pd" "b < KERNBASE_xv" for t q k b
    by (rule others_uload [OF v that(4,6) ext_mono [OF that(1) pool_meta] pool_others [OF v assms(2) that(4,5)] vinvD(1) [OF that(2)]])
      (use that(3) in \<open>auto simp: pool_def\<close>)
  have own: "uload t pd b = uload s pd b" if "ext (meta s pd) s t" "pte_at t pd b = pte_at s pd b" "b < KERNBASE_xv" for t b
  proof (cases "present_xv (pte_at s pd b)")
    case True
    have "frame_of (pte_at s pd b) \<in> frames (pte_at s pd)" unfolding frames_def using True that(3) by (auto intro!: exI [of _ "PGROUNDDOWN b"])
    then have "frame_of (pte_at s pd b) \<notin> meta s pd" using meta_frames(1) [OF vi] by simp
    then show ?thesis using that(1,2) user_page(1) [OF v assms(2) that(3) True] by (simp add: uload_def Let_def ext_def)
  qed (use that(2) in \<open>simp add: uload_def user_ok_def\<close>)
  consider t where "allocuvm pd n m s = xret (m, t)" "vm_grown pd (PGROUNDUP n) m s t" | t where "allocuvm pd n m s = xret (0, t)" "undone pd s t" "card (pool s pd) \<le> scarce m"
    using allocuvm_cases [OF v assms(2), of m] assms(3,4) by (auto simp: not_le [symmetric])
  then show ?thesis
  proof cases
    case (1 t)
    note g = grownD [OF 1(2)]
    have up: "PGROUNDUP n \<le> PGROUNDDOWN b \<longleftrightarrow> n \<le> PGROUNDDOWN b" for b using roundup_le [OF _ nk] by simp
    have new: "uload t pd b = Some 0 \<and> pte_at t pd b AND PTE_W_xv \<noteq> 0" if b: "n \<le> PGROUNDDOWN b" "PGROUNDDOWN b < m" for b
    proof -
      obtain x where x: "x \<in> set (kfree_pages s)" "pte_at t pd b = user_pte x" "\<forall>i. PGROUNDDOWN i = x \<longrightarrow> pmem t i = 0" using g(5) [of b] b up by blast
      have xa: "x mod PGSIZE_xv = 0" using free_aligned [OF vmsysD(1) [OF v] x(1)] by simp
      have "PGROUNDDOWN (x + (b - PGROUNDDOWN b)) = x" by (rule off_page [OF xa]) (use in_page_iff [OF PGROUNDDOWN_aligned] in simp)
      moreover have "bit (user_pte x) 1"
      proof -
        have "bit PTE_W_xv 1" by (simp add: PTE_W_xv_def)
        then show ?thesis unfolding user_pte_def bit_or_iff by simp
      qed
      then have "user_pte x AND PTE_W_xv \<noteq> 0" using and_exp_eq_0_iff_not_bit [of "user_pte x" 1] by (simp add: PTE_W_xv_def)
      ultimately show ?thesis using x(2,3) user_ok_user_pte frame_user_pte [OF xa] by (simp add: uload_def)
    qed
    have "uload t pd b = uload s pd b" if "b < KERNBASE_xv" "PGROUNDDOWN b < n" for b
      by (rule own [OF g(4) g(6) that(1)]) (use that(2) up [of b] in auto)
    then show ?thesis using 1(1) new others [OF g(4,1,2)] g(2) by (intro exI [of _ m] exI [of _ t]) blast
  next
    case (2 t)
    have u: "vinv t pd" "pte_at t pd = pte_at s pd" "pool t pd = pool s pd" "ext (meta s pd) s t" using 2(2) by (auto simp: undone_def)
    have o: "uload t pd b = uload s pd b" if "b < KERNBASE_xv" for b using own [OF u(4) _ that] u(2) by simp
    have "length (kfree_pages s) = card (set (kfree_pages s))" using xv_pool.avail_distinct [OF vmsysD(1) [OF v]] by (simp add: distinct_card)
    moreover have "finite (ran (owns s pd))"
      by (rule owns_card(2) [where m = KERNBASE_xv])
    then have "card (set (kfree_pages s)) \<le> card (pool s pd)" by (intro card_mono) (auto simp: pool_def)
    ultimately have "length (kfree_pages s) \<le> scarce m" using 2(3) by simp
    then show ?thesis using o 2(1) others [OF u(4,1,3)] u(2,3) by (intro exI [of _ 0] exI [of _ t]) blast
  qed
qed

text \<open>Shrinking a space always returns; what is left reads as before.\<close>

lemma deallocuvm_effect:
  assumes "vmsys s D K" "D pd = Some n" "m < n"
  shows "\<exists>t. deallocuvm pd n m s = xret (m, t) \<and> (\<forall>q k. D q = Some k \<longrightarrow> q \<noteq> pd \<longrightarrow> (\<forall>b<KERNBASE_xv. uload t q b = uload s q b)) \<and>
    (\<forall>b<KERNBASE_xv. uload t pd b = (if PGROUNDDOWN b < m then uload s pd b else None))"
proof -
  note v = assms(1)
  note sp = vmsysD(3) [OF v assms(2)] and vi = vmsysD(4) [OF v assms(2)]
  have nk: "n \<le> KERNBASE_xv" using sp by (auto simp: space_ok_def)
  have mk: "m \<le> KERNBASE_xv" using assms(3) nk by simp
  obtain t where t: "deallocuvm pd n m s = xret (m, t)" and u: "unmapped pd (cleared (PGROUNDUP m) n (pte_at s pd)) s t"
    using deallocuvm_ok [OF vi nk assms(3)] by blast
  have w: "vinv t pd" "pte_at t pd = cleared (PGROUNDUP m) n (pte_at s pd)" "pool t pd = pool s pd" "ext (ran (tables s pd) \<union> set (kfree_pages t)) s t"
    using u by (auto simp: unmapped_def)
  have e: "ext (pool s pd) s t"
    by (rule ext_mono [OF w(4)]) (use tables_owns [of s pd] w(3) in \<open>auto simp: pool_def\<close>)
  have others: "uload t q b = uload s q b" if "D q = Some k" "q \<noteq> pd" "b < KERNBASE_xv" for q k b
    by (rule others_uload [OF v that(1,3) e pool_others [OF v assms(2) that(1,2)] vinvD(1) [OF w(1)]]) (use w(3) in \<open>auto simp: pool_def\<close>)
  have "uload t pd b = (if PGROUNDDOWN b < m then uload s pd b else None)" if b: "b < KERNBASE_xv" for b
  proof (cases "PGROUNDDOWN b < m")
    case True
    have e: "pte_at t pd b = pte_at s pd b" using True roundup_le [OF _ mk, of "PGROUNDDOWN b"] by (auto simp: w(2) cleared_def)
    have p: "present_xv (pte_at s pd b)" by (rule space_okD(1) [OF sp b]) (use True assms(3) in simp)
    note o = user_page [OF v assms(2) b p]
    have "frame_of (pte_at s pd b) \<notin> ran (tables s pd)" by (rule user_page_apart(2) [OF v assms(2) b p assms(2)])
    moreover have "owns t pd (Frame (PGROUNDDOWN b)) = Some (frame_of (pte_at s pd b))" using p b e by simp
    then have "frame_of (pte_at s pd b) \<notin> set (kfree_pages t)" using vinvD(5) [OF w(1)] by blast
    ultimately show ?thesis using True o(1) e w(4) by (simp add: uload_def Let_def ext_def)
  next
    case False
    then have "PGROUNDUP m \<le> PGROUNDDOWN b" using roundup_le [OF _ mk, of "PGROUNDDOWN b"] by simp
    then have "\<not> present_xv (pte_at t pd b)" using space_okD(2) [OF sp b] by (auto simp: w(2) cleared_def)
    then show ?thesis using False by (simp add: uload_def user_ok_def)
  qed
  then show ?thesis using t others by blast
qed

subsection \<open>A machine with 2048 free pages\<close>

lemma card_pages_in: "card (pages_in 0x80400000 0x80C00000) = 2048"
proof -
  have "pages_in 0x80400000 0x80C00000 = (\<lambda>i. of_nat (0x80400000 + 4096 * i)) ` {..<2048}"
  proof (intro set_eqI iffI)
    fix v assume "v \<in> pages_in 0x80400000 0x80C00000"
    then have v: "unat v mod 4096 = 0" "0x80400000 \<le> unat v" "unat v + 4096 \<le> 0x80C00000" by (auto simp: pages_in_def)
    then obtain k where k: "unat v = 4096 * k" by (auto simp: mod_eq_0_iff_dvd)
    have "v = of_nat (unat v)" by simp
    also have "unat v = 0x80400000 + 4096 * (k - 525312)" using k v(2) by simp
    finally have "v = of_nat (0x80400000 + 4096 * (k - 525312))" .
    moreover have "k - 525312 < 2048" using k v(2,3) by simp
    ultimately show "v \<in> (\<lambda>i. of_nat (0x80400000 + 4096 * i)) ` {..<2048}" by blast
  next
    fix v :: u32 assume "v \<in> (\<lambda>i. of_nat (0x80400000 + 4096 * i)) ` {..<2048}"
    then obtain i where i: "i < 2048" "v = of_nat (0x80400000 + 4096 * i)" by blast
    have "unat v = 0x80400000 + 4096 * i" unfolding i(2) using i(1) by (subst unat_of_nat) simp
    moreover have "(0x80400000 + 4096 * i) mod 4096 = 0" by presburger
    ultimately show "v \<in> pages_in 0x80400000 0x80C00000" using i(1) by (simp add: pages_in_def)
  qed
  moreover have "inj_on (\<lambda>i. of_nat (0x80400000 + 4096 * i) :: u32) {..<2048}"
  proof (rule inj_onI)
    fix i j assume "i \<in> {..<2048}" "j \<in> {..<2048}" and e: "(of_nat (0x80400000 + 4096 * i) :: u32) = of_nat (0x80400000 + 4096 * j)"
    then have b: "i < 2048" "j < 2048" by auto
    have "unat (of_nat (0x80400000 + 4096 * k) :: u32) = 0x80400000 + 4096 * k" if "k < 2048" for k using that by (subst unat_of_nat) simp
    from this [OF b(1)] this [OF b(2)] show "i = j" unfolding e by simp
  qed
  ultimately show ?thesis by (simp add: card_image)
qed

lemma many_pages: "\<exists>s. kalloc_ok s \<and> KERNBASE_xv < kend s \<and> length (kfree_pages s) = 2048"
proof -
  define s where "s = \<lparr>klock = False, use_lock = False, freelist = 0, pmem = (\<lambda>_. 0), kend = 0x80400000\<rparr>"
  have e: "kfree_pages s = []" by (simp add: s_def kfree_pages_def)
  have "kalloc_ok s" by (simp add: kalloc_ok_def e) (simp add: s_def)
  then have "\<exists>t. freerange_loop 0x80400000 0x80C00000 s = Inr t \<and> kalloc_ok t \<and> use_lock t = use_lock s \<and> kend t = kend s \<and>
    set (kfree_pages t) = set (kfree_pages s) \<union> pages_in (unat (0x80400000 :: u32)) (unat (0x80C00000 :: u32))"
    by (intro freerange_loop_ok) (simp_all add: e, simp_all add: s_def)
  then obtain t where t: "kalloc_ok t" "kend t = kend s" "set (kfree_pages t) = pages_in 0x80400000 0x80C00000" by (auto simp: e)
  have "length (kfree_pages t) = 2048" using t(3) card_pages_in xv_pool.avail_distinct [OF t(1)] distinct_card by metis
  moreover have "KERNBASE_xv < kend t" using t(2) by (simp add: s_def KERNBASE_xv_def)
  ultimately show ?thesis using t(1) by blast
qed

lemma data_ok_demo: "data_ok 0x80200000"
  by (simp add: data_ok_def PGROUNDDOWN_def PGSIZE_xv_def KERNLINK_def KERNBASE_xv_def EXTMEM_def P2V_def PHYSTOP_def)

text \<open>A process of one page on it.\<close>

lemma one_process:
  "\<exists>s0 s d. length (kfree_pages s0) = 2048 \<and> vreach 0x80200000 s0 s (Map.empty(d \<mapsto> 4096)) {} \<and> user_ok (pte_at s d 0)"
proof -
  obtain s where s: "kalloc_ok s" "KERNBASE_xv < kend s" "length (kfree_pages s) = 2048" using many_pages by blast
  have card: "card (set (kfree_pages s)) = 2048" using s(3) xv_pool.avail_distinct [OF s(1)] by (simp add: distinct_card)
  have "\<not> card (set (kfree_pages s)) \<le> scarce 0" using card by (simp add: scarce_def)
  then obtain d t where t: "setupkvm 0x80200000 s = xret (d, t)" "d \<noteq> 0" "pool t d = set (kfree_pages s)" using setupkvm_ok [OF s(1,2) data_ok_demo] by blast
  have r0: "vreach 0x80200000 s s Map.empty {}" by (rule vreach.start [OF s(1,2)])
  have r1: "vreach 0x80200000 s t (Map.empty(d \<mapsto> 0)) {}" using vreach.create [OF r0 t(1)] t(2) by simp
  have v: "vmsys t (Map.empty(d \<mapsto> 0)) {}" using vreach_ok [OF r1 data_ok_demo] by simp
  have d: "(Map.empty(d \<mapsto> 0)) d = Some 0" by simp
  have big: "\<not> card (pool t d) \<le> scarce 4096" using card t(3) by (simp add: scarce_def)
  have "\<not> KERNBASE_xv \<le> (4096 :: u32)" "\<not> (4096 :: u32) < 0" by (simp_all add: KERNBASE_xv_def)
  then obtain u where u: "allocuvm d 0 4096 t = xret (4096, u)" "vm_grown d (PGROUNDUP 0) 4096 t u"
    using allocuvm_cases [OF v d, of 4096] big by blast
  have "(Map.empty(d \<mapsto> 0))(d \<mapsto> 4096) = Map.empty(d \<mapsto> (4096 :: u32))" by simp
  then have r2: "vreach 0x80200000 s u (Map.empty(d \<mapsto> 4096)) {}" using vreach.grow [OF r1 d u(1)] by simp
  have "\<exists>w\<in>set (kfree_pages t). pte_at u d 0 = user_pte w \<and> (\<forall>i. PGROUNDDOWN i = w \<longrightarrow> pmem u i = 0)"
    by (rule grownD(5) [OF u(2)]) (simp_all add: PGROUNDUP_def PGROUNDDOWN_def PGSIZE_xv_def)
  then have "user_ok (pte_at u d 0)" using user_ok_user_pte by auto
  then show ?thesis using s(3) r2 by blast
qed

theorem vm_isolation_witness:
  "\<exists>s0 s D K. vreach 0x80200000 s0 s D K \<and> D \<noteq> Map.empty \<and> length (kfree_pages s0) = 2048 \<and>
     set (kfree_pages s) \<union> K \<union> (\<Union>pd\<in>dom D. ran (owns s pd)) = set (kfree_pages s0)"
proof -
  obtain s0 s d where r: "length (kfree_pages s0) = 2048" "vreach 0x80200000 s0 s (Map.empty(d \<mapsto> 4096)) {}" using one_process by blast
  have "set (kfree_pages s) \<union> {} \<union> (\<Union>pd\<in>dom (Map.empty(d \<mapsto> (4096 :: u32))). ran (owns s pd)) = set (kfree_pages s0)"
    using vm_isolation [OF data_ok_demo r(2)] by blast
  moreover have "Map.empty(d \<mapsto> (4096 :: u32)) \<noteq> Map.empty" by (simp add: fun_upd_eqD)
  ultimately show ?thesis using r by blast
qed

theorem vm_write_isolated_witness: "\<exists>s d a. uload s d 0 = Some (pmem s a) \<and> uload (put_word a 7 s) d 0 = Some 7"
proof -
  obtain s0 s d where r: "vreach 0x80200000 s0 s (Map.empty(d \<mapsto> 4096)) {}" "user_ok (pte_at s d 0)" using one_process by blast
  have "(Map.empty(d \<mapsto> (4096 :: u32))) d = Some 4096" "(0 :: u32) < KERNBASE_xv" by (simp_all add: KERNBASE_xv_def)
  from vm_write_isolated [OF data_ok_demo r(1) this r(2), of 7] show ?thesis by blast
qed

end
