(* ===== verification/XvVmProc.thy ===== *)
theory XvVmProc
  imports XvVmProps XvProcProps
begin

text \<open>
  Processes and their memory together: the services of the process table that deal with memory are the functions of
  \<^verbatim>\<open>kalloc.c\<close> and \<^verbatim>\<open>vm.c\<close>; the others work on a state \<open>'f\<close> of their own.
\<close>

definition run_res :: "'a run \<Rightarrow> 'a res" where
  "run_res r = (case r of None \<Rightarrow> Inl ''does not return'' | Some x \<Rightarrow> x)"

definition on_mem :: "(kalloc_st \<Rightarrow> ('a \<times> kalloc_st) res) \<Rightarrow> kalloc_st \<times> 'f \<Rightarrow> ('a \<times> kalloc_st \<times> 'f) res" where
  "on_mem f k = rbind (f (fst k)) (\<lambda>(r, m). Inr (r, m, snd k))"

definition on_mem1 :: "(kalloc_st \<Rightarrow> kalloc_st res) \<Rightarrow> kalloc_st \<times> 'f \<Rightarrow> (kalloc_st \<times> 'f) res" where
  "on_mem1 f k = rbind (f (fst k)) (\<lambda>m. Inr (m, snd k))"

definition vm_svc :: "u32 \<Rightarrow> (kalloc_st \<times> 'f) svc \<Rightarrow> (kalloc_st \<times> 'f) svc" where
  "vm_svc dat svc = svc\<lparr>
     kalloc_op := on_mem kalloc, kfree_op := (\<lambda>v. on_mem1 (kfree v)),
     setupkvm_op := on_mem (\<lambda>m. run_res (setupkvm dat m)),
     allocuvm_op := (\<lambda>pd old new. on_mem (\<lambda>m. run_res (allocuvm pd old new m))),
     deallocuvm_op := (\<lambda>pd old new. on_mem (\<lambda>m. run_res (deallocuvm pd old new m))),
     copyuvm_op := (\<lambda>pd n. on_mem (\<lambda>m. run_res (copyuvm dat pd n m))),
     freevm_op := (\<lambda>pd. on_mem1 (\<lambda>m. run_res (freevm pd m)))\<rparr>"

lemma run_res_simps [simp]: "run_res (Some x) = x" by (simp add: run_res_def)

lemma vm_svc_ops [simp]:
  "kalloc_op (vm_svc dat svc) = on_mem kalloc" "kfree_op (vm_svc dat svc) v = on_mem1 (kfree v)"
  "copyuvm_op (vm_svc dat svc) pd n = on_mem (\<lambda>m. run_res (copyuvm dat pd n m))"
  "allocuvm_op (vm_svc dat svc) pd old new = on_mem (\<lambda>m. run_res (allocuvm pd old new m))"
  "deallocuvm_op (vm_svc dat svc) pd old new = on_mem (\<lambda>m. run_res (deallocuvm pd old new m))"
  "filedup_op (vm_svc dat svc) = filedup_op svc" "idup_op (vm_svc dat svc) = idup_op svc" "switchuvm_op (vm_svc dat svc) = switchuvm_op svc"
  by (simp_all add: vm_svc_def)

text \<open>The files and inodes that \<open>fork\<close> shares, and the loading of page directories, leave memory alone.\<close>

definition mem_kept :: "(kalloc_st \<times> 'f) svc \<Rightarrow> bool" where
  "mem_kept svc \<longleftrightarrow> (\<forall>f k k'. filedup_op svc f k = Inr k' \<longrightarrow> fst k' = fst k) \<and> (\<forall>d k. fst (snd (idup_op svc d k)) = fst k) \<and>
     (\<forall>p k k'. switchuvm_op svc p k = Inr k' \<longrightarrow> fst k' = fst k)"

lemma kst_same:
  "pt_acquire s = Inr t \<Longrightarrow> kst t = kst s" "pt_release s = Inr t \<Longrightarrow> kst t = kst s" "kst (setp p f s) = kst s"
  by (auto simp: pt_acquire_def pt_release_def setp_def res_simps)

lemma allocproc_kst:
  assumes "length (procs s) = NPROC" "allocproc svc s = Inr (r, t)"
  shows "r = None \<and> kst t = kst s \<or> (\<exists>k. kalloc_op svc (kst s) = Inr (k, kst t) \<and> (k = 0 \<and> r = None \<or> k \<noteq> 0 \<and> (\<exists>p. r = Some p \<and> kstack (getp t p) = k)))"
proof -
  obtain s1 where s1: "pt_acquire s = Inr s1" using assms(2) by (auto simp: allocproc_def res_simps)
  show ?thesis
  proof (cases "find_idx (\<lambda>p. state p = UNUSED) (procs s1)")
    case None
    then have "pt_release s1 = Inr t" "r = None" using assms(2) s1 by (auto simp: allocproc_def res_simps)
    then show ?thesis using kst_same(1) [OF s1] kst_same(2) [of s1 t] by simp
  next
    case (Some p)
    then have p: "p < NPROC" using assms(1) procs_same(1) [OF s1] by (auto simp: find_idx_Some)
    define s2 where "s2 = (setp p (\<lambda>x. x\<lparr>state := EMBRYO, pid := nextpid s1\<rparr>) s1)\<lparr>nextpid := nextpid s1 + 1\<rparr>"
    obtain s3 k ks where s3: "pt_release s2 = Inr s3" "kalloc_op svc (kst s3) = Inr (k, ks)"
      and rt: "(r, t) = (let s4 = setp p (\<lambda>x. x\<lparr>kstack := k\<rparr>) (s3\<lparr>kst := ks\<rparr>)
        in if k = 0 then (None, setp p (\<lambda>x. x\<lparr>state := UNUSED\<rparr>) s4) else (Some p, setp p (setup_stack svc k) s4))"
      using assms(2) s1 Some unfolding allocproc_def s2_def by (fastforce simp: res_simps Let_def split: if_splits)
    have "kst s3 = kst s" using kst_same(2) [OF s3(1)] kst_same(1) [OF s1] by (simp add: s2_def kst_same(3))
    moreover have "length (procs s3) = NPROC" using procs_same(2) [OF s3(1)] procs_same(1) [OF s1] assms(1) by (simp add: s2_def setp_def)
    ultimately show ?thesis using s3(2) rt p by (auto simp: Let_def kst_same(3) getp_setp setup_stack_def split: if_splits)
  qed
qed

lemma dup_files_kst:
  assumes "dup_files svc cp np is s = Inr t" "\<forall>f k k'. filedup_op svc f k = Inr k' \<longrightarrow> fst k' = fst k"
  shows "fst (kst t) = fst (kst s)"
  using assms
proof (induction svc cp np "is" s rule: dup_files.induct)
  case (2 svc cp np i "is" s)
  show ?case
  proof (cases "ofile (getp s cp) ! i")
    case None
    then show ?thesis using 2(1) [OF None] 2(3,4) by simp
  next
    case (Some f)
    with 2(3) obtain s1 where s1: "with_k (filedup_op svc f) s = Inr s1"
      and t: "dup_files svc cp np is (setp np (\<lambda>x. x\<lparr>ofile := (ofile x)[i := Some f]\<rparr>) s1) = Inr t" by (auto simp: res_simps)
    then obtain k' where "filedup_op svc f (kst s) = Inr k'" "s1 = s\<lparr>kst := k'\<rparr>" unfolding with_k_def rbind_eq_Inr by auto
    then have "fst (kst s1) = fst (kst s)" using 2(4) [rule_format, of f "kst s" k'] by simp
    then show ?thesis using 2(2) [OF Some t 2(4)] by (simp add: kst_same(3))
  qed
qed simp

lemma fork_kst:
  assumes "length (procs s) = NPROC" "curproc s = Some cp" "state (getp s cp) = RUNNING" "fork svc s = Inr (r, t)"
    "\<forall>f k k'. filedup_op svc f k = Inr k' \<longrightarrow> fst k' = fst k" "\<forall>d k. fst (snd (idup_op svc d k)) = fst k"
  shows "r = -1 \<and> (kst t = kst s \<or> kalloc_op svc (kst s) = Inr (0, kst t)) \<or>
    (\<exists>k ks pd ks2. kalloc_op svc (kst s) = Inr (k, ks) \<and> k \<noteq> 0 \<and> copyuvm_op svc (pgdir (getp s cp)) (sz (getp s cp)) ks = Inr (pd, ks2) \<and>
      (pd = 0 \<and> r = -1 \<and> kfree_op svc k ks2 = Inr (kst t) \<or>
       pd \<noteq> 0 \<and> fst (kst t) = fst ks2 \<and> (\<exists>p<NPROC. pid (getp t p) = r \<and> pgdir (getp t p) = pd \<and> kstack (getp t p) = k \<and> sz (getp t p) = sz (getp s cp))))"
proof -
  obtain c s1 where c: "fork_child svc s = Inr (c, s1)" using assms(4) by (auto simp: fork_def res_simps)
  obtain a s2 where a: "allocproc svc s = Inr (a, s2)" using c assms(2) by (auto simp: fork_child_def res_simps)
  note al = allocproc_spec [OF assms(1) a] and ak = allocproc_kst [OF assms(1) a]
  show ?thesis
  proof (cases a)
    case None
    then have "c = None" "s1 = s2" using c a assms(2) by (auto simp: fork_child_def)
    then have "r = -1" "t = s2" using assms(4) c by (auto simp: fork_def)
    then show ?thesis using ak None by auto
  next
    case (Some p)
    then have p: "p < NPROC" "state (getp s p) = UNUSED" "frame p s s2" using al by auto
    obtain k where k: "kalloc_op svc (kst s) = Inr (k, kst s2)" "k \<noteq> 0" "kstack (getp s2 p) = k" using ak Some by auto
    have cpp: "cp \<noteq> p" using assms(3) p(2) by auto
    have cp2: "getp s2 cp = getp s cp" using p(3) cpp by (simp add: frame_def)
    have len2: "length (procs s2) = NPROC" using p(3) assms(1) by (simp add: frame_def)
    obtain pd ks where cu: "copyuvm_op svc (pgdir (getp s cp)) (sz (getp s cp)) (kst s2) = Inr (pd, ks)"
      using c a Some assms(2) by (auto simp: fork_child_def res_simps cp2)
    define s3 where "s3 = setp p (\<lambda>x. x\<lparr>pgdir := pd\<rparr>) (s2\<lparr>kst := ks\<rparr>)"
    have g3: "kst s3 = ks" "kstack (getp s3 p) = k" "getp s3 cp = getp s cp" "pgdir (getp s3 p) = pd" "length (procs s3) = NPROC"
      using len2 p(1) k(3) cpp cp2 by (auto simp: s3_def getp_setp kst_same(3))
    show ?thesis
    proof (cases "pd = 0")
      case True
      then obtain s4 where s4: "with_k (kfree_op svc k) s3 = Inr s4" and rt: "c = None" "s1 = setp p (\<lambda>x. x\<lparr>kstack := 0, state := UNUSED\<rparr>) s4"
        using c a Some assms(2) cu g3(2) cp2 unfolding s3_def by (auto simp: fork_child_def res_simps Let_def)
      have "r = -1" "t = s1" using assms(4) c rt by (auto simp: fork_def)
      moreover have "kfree_op svc k ks = Inr (kst s1)" using s4 g3(1) rt(2) by (auto simp: with_k_def kst_same(3) rbind_eq_Inr)
      ultimately show ?thesis using k(1,2) cu True by blast
    next
      case False
      define s4 where "s4 = setp p (\<lambda>x. x\<lparr>sz := sz (getp s3 cp), parent := Some cp, tf := (tf (getp s3 cp))\<lparr>tf_eax := 0\<rparr>\<rparr>) s3"
      obtain s5 where s5: "dup_files svc cp p [0..<NOFILE] s4 = Inr s5"
        and rt: "c = Some p" "s1 = setp p (\<lambda>x. x\<lparr>cwd := fst (idup_op svc (cwd (getp s5 cp)) (kst s5)), name := name (getp s5 cp)\<rparr>)
          (s5\<lparr>kst := snd (idup_op svc (cwd (getp s5 cp)) (kst s5))\<rparr>)"
        using c a Some assms(2) cu False cp2 unfolding s3_def s4_def
        by (auto simp: fork_child_def res_simps Let_def split_beta)
      obtain s6 where s6: "pt_acquire s1 = Inr s6" and t: "pt_release (setp p (\<lambda>x. x\<lparr>state := RUNNABLE\<rparr>) s6) = Inr t" and r: "r = pid (getp s1 p)"
        using assms(4) c rt by (auto simp: fork_def res_simps Let_def)
      have len4: "length (procs s4) = NPROC" using g3(5) by (simp add: s4_def)
      obtain X where e5: "getp s5 p = (getp s4 p)\<lparr>ofile := X\<rparr>" and len5: "length (procs s5) = NPROC"
        using dup_files_spec [OF s5] len4 p(1) cpp by (auto simp: frame_def)
      have g5: "kstack (getp s5 p) = k" "pgdir (getp s5 p) = pd" "sz (getp s5 p) = sz (getp s cp)" using g3 p(1) by (simp_all add: e5 s4_def getp_setp)
      have gt: "getp t p = (getp s1 p)\<lparr>state := RUNNABLE\<rparr>" "getp s1 p = (getp s5 p)\<lparr>cwd := fst (idup_op svc (cwd (getp s5 cp)) (kst s5)), name := name (getp s5 cp)\<rparr>"
        using procs_same(2) [OF t] procs_same(1) [OF s6] rt(2) len5 p(1) by (auto simp: getp_def setp_def)
      have "kst t = snd (idup_op svc (cwd (getp s5 cp)) (kst s5))" using kst_same(2) [OF t] kst_same(1) [OF s6] rt(2) by (simp add: kst_same(3))
      then have "fst (kst t) = fst (kst s5)" using assms(6) [rule_format, of "cwd (getp s5 cp)" "kst s5"] by simp
      moreover have "fst (kst s5) = fst ks" using dup_files_kst [OF s5 assms(5)] g3(1) by (simp add: s4_def kst_same(3))
      ultimately have "fst (kst t) = fst ks" by simp
      moreover have "pid (getp t p) = r" "pgdir (getp t p) = pd" "kstack (getp t p) = k" "sz (getp t p) = sz (getp s cp)" using gt g5 r by simp_all
      ultimately show ?thesis using k(1,2) cu False p(1) by blast
    qed
  qed
qed

text \<open>With the table lock free and a sane count of \<open>pushcli\<close>, \<open>fork\<close> can only fail in one of the services.\<close>

definition lock_free :: "('k, 'm) ptable_scheme \<Rightarrow> bool" where
  "lock_free s \<longleftrightarrow> \<not> pt_lock s \<and> 0 \<le> ncli (cpu s)"

definition lock_held :: "('k, 'm) ptable_scheme \<Rightarrow> bool" where
  "lock_held s \<longleftrightarrow> pt_lock s \<and> \<not> IF (cpu s) \<and> 1 \<le> ncli (cpu s)"

lemma lock_held_upd [simp]: "lock_held (setp p f s) = lock_held s" "lock_held (s\<lparr>nextpid := n\<rparr>) = lock_held s"
  by (simp_all add: lock_held_def setp_def)

lemma lock_free_upd [simp]: "lock_free (setp p f s) = lock_free s" "lock_free (s\<lparr>kst := k\<rparr>) = lock_free s" "lock_free (s\<lparr>nextpid := n\<rparr>) = lock_free s"
  by (simp_all add: lock_free_def setp_def)

lemma rbind_eq_Inl: "rbind r f = Inl e \<longleftrightarrow> r = Inl e \<or> (\<exists>x. r = Inr x \<and> f x = Inl e)"
  by (cases r) auto

lemma lock_round:
  "lock_free s \<Longrightarrow> \<exists>t. pt_acquire s = Inr t \<and> lock_held t" "lock_held s \<Longrightarrow> \<exists>t. pt_release s = Inr t \<and> lock_free t"
  by (auto simp: lock_free_def lock_held_def pt_acquire_def pt_release_def push_cpu_def pop_cpu_def cpu_pop_def)

lemma allocproc_free:
  assumes "lock_free s" "nextpid s < INT_MAX"
  shows "allocproc svc s = Inl e \<Longrightarrow> kalloc_op svc (kst s) = Inl e" "allocproc svc s = Inr (r, t) \<Longrightarrow> lock_free t"
proof -
  obtain s1 where s1: "pt_acquire s = Inr s1" "lock_held s1"
    using lock_round(1) [OF assms(1)] by blast
  have np: "nextpid s1 \<noteq> INT_MAX" using nextpid_same(1) [OF s1(1)] assms(2) by simp
  have both: "(allocproc svc s = Inl e \<longrightarrow> kalloc_op svc (kst s) = Inl e) \<and> (allocproc svc s = Inr (r, t) \<longrightarrow> lock_free t)" for e r t
  proof (cases "find_idx (\<lambda>p. state p = UNUSED) (procs s1)")
    case None
    obtain t' where "pt_release s1 = Inr t'" "lock_free t'" using lock_round(2) [OF s1(2)] by blast
    then show ?thesis using s1 None by (auto simp: allocproc_def)
  next
    case (Some p)
    define s2 where "s2 = (setp p (\<lambda>x. x\<lparr>state := EMBRYO, pid := nextpid s1\<rparr>) s1)\<lparr>nextpid := nextpid s1 + 1\<rparr>"
    obtain s3 where s3: "pt_release s2 = Inr s3" "lock_free s3" using lock_round(2) [of s2] s1(2) by (auto simp: s2_def)
    have "kst s3 = kst s" using kst_same(2) [OF s3(1)] kst_same(1) [OF s1(1)] by (simp add: s2_def kst_same(3))
    then show ?thesis using s1 Some s3 np unfolding s2_def by (cases "kalloc_op svc (kst s)") (auto simp: allocproc_def Let_def split: if_splits)
  qed
  show "allocproc svc s = Inl e \<Longrightarrow> kalloc_op svc (kst s) = Inl e" "allocproc svc s = Inr (r, t) \<Longrightarrow> lock_free t" using both by blast+
qed

lemma with_k_cases:
  "with_k f s = Inl e \<longleftrightarrow> f (kst s) = Inl e" "with_k f s = Inr t \<longleftrightarrow> (\<exists>k. f (kst s) = Inr k \<and> t = s\<lparr>kst := k\<rparr>)"
  by (cases "f (kst s)"; auto simp: with_k_def)+

lemma dup_files_free:
  "dup_files svc cp np is s = Inl e \<Longrightarrow> \<exists>f k. filedup_op svc f k = Inl e"
  "dup_files svc cp np is s = Inr t \<Longrightarrow> lock_free s \<Longrightarrow> lock_free t"
proof (induction svc cp np "is" s rule: dup_files.induct)
  case (2 svc cp np i "is" s)
  {
    case 1
    then show ?case using 2 by (auto simp: rbind_eq_Inl with_k_cases split: option.splits)
  next
    case 2
    then show ?case using "2.IH" by (auto simp: rbind_eq_Inr with_k_cases split: option.splits)
  }
qed simp_all

lemma fork_Inl:
  assumes "lock_free s" "length (procs s) = NPROC" "curproc s = Some cp" "state (getp s cp) = RUNNING" "fork svc s = Inl e" "nextpid s < INT_MAX"
  shows "kalloc_op svc (kst s) = Inl e \<or> (\<exists>f k. filedup_op svc f k = Inl e) \<or>
    (\<exists>k ks. kalloc_op svc (kst s) = Inr (k, ks) \<and> k \<noteq> 0 \<and> (copyuvm_op svc (pgdir (getp s cp)) (sz (getp s cp)) ks = Inl e \<or>
      (\<exists>ks2. copyuvm_op svc (pgdir (getp s cp)) (sz (getp s cp)) ks = Inr (0, ks2) \<and> kfree_op svc k ks2 = Inl e)))"
proof (cases "fork_child svc s")
  case (Inr x)
  obtain r s1 where x: "x = (r, s1)" by (cases x)
  obtain a s2 where a: "allocproc svc s = Inr (a, s2)" using Inr assms(3) by (auto simp: fork_child_def res_simps)
  have f2: "lock_free s2" by (rule allocproc_free(2) [OF assms(1,6) a])
  have "lock_free s1"
    using Inr f2 unfolding x fork_child_def by (auto simp: assms(3) a res_simps Let_def split_beta with_k_cases dest: dup_files_free(2) split: option.splits if_splits)
  then obtain s3 where s3: "pt_acquire s1 = Inr s3" "lock_held s3"
    using lock_round(1) [of s1] by blast
  have "pt_release (setp p f s3) \<noteq> Inl e" for p f using lock_round(2) [of "setp p f s3"] s3(2) by auto
  then show ?thesis using assms(5) Inr s3 unfolding x fork_def by (cases r) (auto simp: Let_def rbind_eq_Inl)
next
  case (Inl e')
  then have e: "e' = e" using assms(5) by (simp add: fork_def)
  show ?thesis
  proof (cases "allocproc svc s")
    case (Inl e2)
    then show ?thesis using allocproc_free(1) [OF assms(1,6)] \<open>fork_child svc s = Inl e'\<close> e assms(3) by (simp add: fork_child_def)
  next
    case (Inr x)
    then obtain p s2 where a: "allocproc svc s = Inr (Some p, s2)" using \<open>fork_child svc s = Inl e'\<close> assms(3) by (cases x; cases "fst x") (auto simp: fork_child_def)
    note al = allocproc_spec [OF assms(2) a] and ak = allocproc_kst [OF assms(2) a]
    have k: "kalloc_op svc (kst s) = Inr (kstack (getp s2 p), kst s2)" "kstack (getp s2 p) \<noteq> 0" using ak by auto
    have p: "p < NPROC" "state (getp s p) = UNUSED" "frame p s s2" using al by auto
    have "cp \<noteq> p" using assms(4) p(2) by auto
    then have cp: "getp s2 cp = getp s cp" "length (procs s2) = NPROC" using p assms(2) by (auto simp: frame_def)
    have c: "(\<exists>f k. filedup_op svc f k = Inl e) \<or> copyuvm_op svc (pgdir (getp s cp)) (sz (getp s cp)) (kst s2) = Inl e \<or>
      (\<exists>ks2. copyuvm_op svc (pgdir (getp s cp)) (sz (getp s cp)) (kst s2) = Inr (0, ks2) \<and> kfree_op svc (kstack (getp s2 p)) ks2 = Inl e)"
    proof (cases "copyuvm_op svc (pgdir (getp s cp)) (sz (getp s cp)) (kst s2)")
      case (Inr y)
      obtain pd ks where y: "y = (pd, ks)" by (cases y)
      show ?thesis
      proof (cases "pd = 0")
        case True
        then show ?thesis using \<open>fork_child svc s = Inl e'\<close> e Inr y cp p(1)
          by (cases "kfree_op svc (kstack (getp s2 p)) ks") (auto simp: fork_child_def assms(3) a with_k_def getp_setp kst_same(3) Let_def)
      next
        case False
        then show ?thesis using \<open>fork_child svc s = Inl e'\<close> e Inr y cp p(1)
          by (auto simp: fork_child_def assms(3) a Let_def rbind_eq_Inl split_beta dest: dup_files_free(1))
      qed
    qed (use \<open>fork_child svc s = Inl e'\<close> e cp in \<open>simp add: fork_child_def assms(3) a\<close>)
    then show ?thesis using k by blast
  qed
qed

lemma on_mem_Inr:
  "on_mem f k = Inr (r, k') \<longleftrightarrow> (\<exists>m. f (fst k) = Inr (r, m) \<and> k' = (m, snd k))"
  "on_mem1 g k = Inr k' \<longleftrightarrow> (\<exists>m. g (fst k) = Inr m \<and> k' = (m, snd k))"
  by (auto simp: on_mem_def on_mem1_def rbind_eq_Inr)

lemma uload_pmem: "pmem t = pmem s \<Longrightarrow> uload t = uload s"
  by (auto simp: fun_eq_iff uload_def pte_at_def tab_def Let_def)

lemma taken_page:
  assumes "vmsys s D K" "kalloc s = Inr (v, t)" "v \<noteq> 0"
  shows "v \<notin> K" "uload t = uload s"
proof -
  have k: "kfree_pages s = v # kfree_pages t" "pmem t = pmem s" using kalloc_cases [OF vmsysD(1) [OF assms(1)]] assms(2,3) by auto
  then show "v \<notin> K" using vmsysD(6) [OF assms(1)] by (auto simp: kfreeable_def)
  show "uload t = uload s" by (rule uload_pmem [OF k(2)])
qed

lemma fork_mem:
  assumes "table_ok s" "curproc s = Some cp" "mem_kept svc" "data_ok dat" "vreach dat m0 (fst (kst s)) D K" "D (pgdir (getp s cp)) = Some (sz (getp s cp))"
    and "fork (vm_svc dat svc) s = Inr (r, t)"
  shows "r = -1 \<and> vreach dat m0 (fst (kst t)) D K \<or>
    (\<exists>p<NPROC. pid (getp t p) = r \<and> sz (getp t p) = sz (getp s cp) \<and> D (pgdir (getp t p)) = None \<and> kstack (getp t p) \<notin> K \<and>
      vreach dat m0 (fst (kst t)) (D(pgdir (getp t p) \<mapsto> sz (getp t p))) (insert (kstack (getp t p)) K) \<and>
      (\<forall>b<KERNBASE_xv. uload (fst (kst t)) (pgdir (getp t p)) b = uload (fst (kst s)) (pgdir (getp s cp)) b) \<and>
      (\<forall>q n. D q = Some n \<longrightarrow> (\<forall>b<KERNBASE_xv. uload (fst (kst t)) q b = uload (fst (kst s)) q b)))"
proof -
  let ?pd = "pgdir (getp s cp)" and ?n = "sz (getp s cp)" and ?m = "fst (kst s)"
  have len: "length (procs s) = NPROC" using assms(1) by (rule table_okD)
  have run: "state (getp s cp) = RUNNING" using table_okD(4) [OF assms(1,2)] by simp
  have kept: "\<forall>f k k'. filedup_op (vm_svc dat svc) f k = Inr k' \<longrightarrow> fst k' = fst k" "\<forall>d k. fst (snd (idup_op (vm_svc dat svc) d k)) = fst k"
    using assms(3) unfolding mem_kept_def vm_svc_ops by blast+
  have v: "vmsys ?m D K" using vreach_ok [OF assms(5,4)] by simp
  from fork_kst [OF len assms(2) run assms(7) kept] show ?thesis
  proof (elim disjE exE conjE)
    assume "r = -1" "kst t = kst s"
    then show ?thesis using assms(5) by simp
  next
    assume "r = -1" "kalloc_op (vm_svc dat svc) (kst s) = Inr (0, kst t)"
    then have "kalloc ?m = Inr (0, fst (kst t))" by (auto simp: on_mem_Inr)
    then have "fst (kst t) = ?m" using kalloc_cases [OF vmsysD(1) [OF v]] by auto
    then show ?thesis using \<open>r = -1\<close> assms(5) by simp
  next
    fix k ks pd ks2
    assume h: "kalloc_op (vm_svc dat svc) (kst s) = Inr (k, ks)" "k \<noteq> 0" "copyuvm_op (vm_svc dat svc) ?pd ?n ks = Inr (pd, ks2)"
      "pd = 0" "r = -1" "kfree_op (vm_svc dat svc) k ks2 = Inr (kst t)"
    have r1: "vreach dat m0 (fst ks) D (insert k K)" by (rule vreach.take [OF assms(5) _ h(2)]) (use h(1) in \<open>auto simp: on_mem_Inr\<close>)
    obtain d u where c: "copyuvm dat ?pd ?n (fst ks) = xret (d, u)" using copyuvm_returns [OF assms(4) conjunct1 [OF vreach_ok [OF r1 assms(4)]] assms(6)] by blast
    then have "d = 0" "u = fst ks2" using h(3,4) by (auto simp: on_mem_Inr)
    then have r2: "vreach dat m0 (fst ks2) D (insert k K)" using vreach.copy [OF r1 assms(6) c] by simp
    have "kfree k (fst ks2) = Inr (fst (kst t))" using h(6) by (auto simp: on_mem_Inr)
    then have "vreach dat m0 (fst (kst t)) D (insert k K - {k})" by (rule vreach.give [OF r2 insertI1])
    moreover have "k \<notin> K" using taken_page(1) [OF v] h(1,2) by (auto simp: on_mem_Inr)
    ultimately show ?thesis using h(5) by simp
  next
    fix k ks pd ks2 p
    assume h: "kalloc_op (vm_svc dat svc) (kst s) = Inr (k, ks)" "k \<noteq> 0" "copyuvm_op (vm_svc dat svc) ?pd ?n ks = Inr (pd, ks2)"
      "pd \<noteq> 0" "fst (kst t) = fst ks2" "p < NPROC" "pid (getp t p) = r" "pgdir (getp t p) = pd" "kstack (getp t p) = k" "sz (getp t p) = ?n"
    have kk: "kalloc ?m = Inr (k, fst ks)" using h(1) by (auto simp: on_mem_Inr)
    have r1: "vreach dat m0 (fst ks) D (insert k K)" by (rule vreach.take [OF assms(5) kk h(2)])
    obtain u where c: "copyuvm dat ?pd ?n (fst ks) = xret (pd, u)" "u = fst ks2"
      "\<forall>q m. D q = Some m \<longrightarrow> (\<forall>b<KERNBASE_xv. uload u q b = uload (fst ks) q b)" "D pd = None" "\<forall>b<KERNBASE_xv. uload u pd b = uload (fst ks) ?pd b"
      using copyuvm_returns [OF assms(4) conjunct1 [OF vreach_ok [OF r1 assms(4)]] assms(6)] h(3,4) by (auto simp: on_mem_Inr)
    have r2: "vreach dat m0 (fst ks2) (D(pd \<mapsto> ?n)) (insert k K)" using vreach.copy [OF r1 assms(6) c(1)] h(4) c(2) by simp
    have same: "uload (fst ks) q b = uload ?m q b" for q b using taken_page(2) [OF v kk h(2)] by simp
    show ?thesis using h c r2 same taken_page(1) [OF v kk h(2)] by (intro disjI2 exI [of _ p]) auto
  qed
qed

text \<open>On the memory of \<^verbatim>\<open>vm.c\<close> the services of memory do not panic in \<open>fork\<close>.\<close>

lemma fork_panics:
  assumes "table_ok s" "curproc s = Some cp" "lock_free s" "mem_kept svc" "data_ok dat" "vreach dat m0 (fst (kst s)) D K"
    "D (pgdir (getp s cp)) = Some (sz (getp s cp))" "nextpid s < INT_MAX" "fork (vm_svc dat svc) s = Inl e"
  shows "\<exists>f k. filedup_op svc f k = Inl e"
proof -
  let ?pd = "pgdir (getp s cp)" and ?n = "sz (getp s cp)" and ?m = "fst (kst s)"
  have run: "state (getp s cp) = RUNNING" using table_okD(4) [OF assms(1,2)] by simp
  have v: "vmsys ?m D K" using vreach_ok [OF assms(6,5)] by simp
  obtain k m1 where k: "kalloc ?m = Inr (k, m1)" using kalloc_cases [OF vmsysD(1) [OF v]] by auto
  have "\<exists>d m2. copyuvm dat ?pd ?n m1 = xret (d, m2) \<and> (d = 0 \<longrightarrow> (\<exists>m3. kfree k m2 = Inr m3))" if "k \<noteq> 0"
  proof -
    have r1: "vreach dat m0 m1 D (insert k K)" by (rule vreach.take [OF assms(6) k that])
    obtain d m2 where d: "copyuvm dat ?pd ?n m1 = xret (d, m2)" using copyuvm_returns [OF assms(5) conjunct1 [OF vreach_ok [OF r1 assms(5)]] assms(7)] by blast
    have "\<exists>m3. kfree k m2 = Inr m3" if "d = 0"
    proof -
      have "vmsys m2 D (insert k K)" using vreach_ok [OF vreach.copy [OF r1 assms(7) d] assms(5)] that by simp
      from kfree_ext [OF vmsysD(1) [OF this] vmsysD(6) [OF this insertI1]] show ?thesis by blast
    qed
    then show ?thesis using d by blast
  qed
  then show ?thesis using fork_Inl [OF assms(3) table_okD(1) [OF assms(1)] assms(2) run assms(9,8)] k by (auto simp: on_mem_def on_mem1_def)
qed

text \<open>C13: while the pid counter, a C \<open>int\<close>, can be incremented, \<open>fork\<close> on the memory of \<^verbatim>\<open>vm.c\<close> returns, unless \<open>filedup\<close> panics.  Then the child has an address space of its own, of the size of the parent, that reads at every
  user address what the parent reads, and a new page as its kernel stack; all address spaces there were before read as before.  When \<open>fork\<close> returns -1, the address spaces and
  the pages of the kernel are the same as before, so nothing is lost.\<close>

theorem fork_memory:
  assumes "table_ok s" "curproc s = Some cp" "lock_free s" "mem_kept svc" "data_ok dat" "vreach dat m0 (fst (kst s)) D K"
    "D (pgdir (getp s cp)) = Some (sz (getp s cp))" "nextpid s < INT_MAX"
  shows "(\<exists>e f k. fork (vm_svc dat svc) s = Inl e \<and> filedup_op svc f k = Inl e) \<or> (\<exists>r t. fork (vm_svc dat svc) s = Inr (r, t) \<and>
    (r = -1 \<and> vreach dat m0 (fst (kst t)) D K \<or>
    (\<exists>p<NPROC. pid (getp t p) = r \<and> sz (getp t p) = sz (getp s cp) \<and> D (pgdir (getp t p)) = None \<and> kstack (getp t p) \<notin> K \<and>
      vreach dat m0 (fst (kst t)) (D(pgdir (getp t p) \<mapsto> sz (getp t p))) (insert (kstack (getp t p)) K) \<and>
      (\<forall>b<KERNBASE_xv. uload (fst (kst t)) (pgdir (getp t p)) b = uload (fst (kst s)) (pgdir (getp s cp)) b) \<and>
      (\<forall>q n. D q = Some n \<longrightarrow> (\<forall>b<KERNBASE_xv. uload (fst (kst t)) q b = uload (fst (kst s)) q b)))))"
proof (cases "fork (vm_svc dat svc) s")
  case (Inl e)
  then have "\<exists>f k. filedup_op svc f k = Inl e" using fork_panics [OF assms] by blast
  then show ?thesis using Inl by blast
next
  case (Inr x)
  obtain r t where x: "x = (r, t)" by (cases x)
  from fork_mem [OF assms(1,2,4-7) Inr [unfolded x]] show ?thesis using Inr unfolding x by blast
qed

text \<open>One running process of one page.\<close>

definition idle_svc :: "(kalloc_st \<times> unit) svc" where
  "idle_svc = \<lparr>kalloc_op = (\<lambda>k. Inr (0, k)), kfree_op = (\<lambda>_ k. Inr k), setupkvm_op = (\<lambda>k. Inr (0, k)),
     inituvm_op = (\<lambda>_ k. Inr k), allocuvm_op = (\<lambda>_ _ n k. Inr (n, k)), deallocuvm_op = (\<lambda>_ _ n k. Inr (n, k)),
     copyuvm_op = (\<lambda>_ _ k. Inr (0, k)), freevm_op = (\<lambda>_ k. Inr k), switchuvm_op = (\<lambda>_ k. Inr k),
     switchkvm_op = (\<lambda>k. k), filedup_op = (\<lambda>_ k. Inr k), fileclose_op = (\<lambda>_ k. Inr k), idup_op = (\<lambda>d k. (d, k)),
     iput_op = (\<lambda>_ k. Inr k), namei_root_op = (\<lambda>k. (Some 0, k)), begin_op_op = Inr, end_op_op = Inr,
     iinit_op = Inr, initlog_op = Inr, trapret_addr = 0, forkret_addr = 0\<rparr>"

definition one_proc :: "u32 \<Rightarrow> proc" where
  "one_proc d = proc0\<lparr>state := RUNNING, pid := 1, sz := 4096, pgdir := d\<rparr>"

definition one_run :: "kalloc_st \<Rightarrow> u32 \<Rightarrow> (kalloc_st \<times> unit) ptable" where
  "one_run m d = \<lparr>pt_lock = False, procs = one_proc d # replicate 63 proc0, initproc = Some 0, nextpid = 2,
     cpu = \<lparr>ncli = 0, intena = False, IF = False\<rparr>, curproc = Some 0, olocks = (\<lambda>_. False), ticks = 0, forkret_first = True, kst = (m, ())\<rparr>"

lemma one_run_ok: "table_ok (one_run m d)"
proof -
  have g: "getp (one_run m d) p = (if p = 0 then one_proc d else proc0)" if "p < NPROC" for p
    using that by (auto simp: one_run_def getp_def NPROC_def nth_Cons')
  have f: "nextpid (one_run m d) = 2" "curproc (one_run m d) = Some 0" "initproc (one_run m d) = Some 0" by (simp_all add: one_run_def)
  have "pids_ok (one_run m d)" "parents_ok (one_run m d)" "running_ok (one_run m d)"
    by (auto simp: pids_ok_def parents_ok_def running_ok_def g f NPROC_def alive_def proc0_def one_proc_def)
  then show ?thesis by (simp add: table_ok_def one_run_def NPROC_def)
qed

lemma one_run_simps:
  "curproc (one_run m d) = Some 0" "kst (one_run m d) = (m, ())" "getp (one_run m d) 0 = one_proc d" "lock_free (one_run m d)" "nextpid (one_run m d) < INT_MAX"
  by (simp_all add: one_run_def getp_def lock_free_def)

lemma idle_kept: "mem_kept idle_svc"
  by (simp add: mem_kept_def idle_svc_def)

theorem fork_memory_witness:
  "\<exists>m d r t. fork (vm_svc 0x80200000 idle_svc) (one_run m d) = Inr (r, t) \<and>
     (r = -1 \<or> (\<exists>p<NPROC. pid (getp t p) = r \<and> (\<forall>b<KERNBASE_xv. uload (fst (kst t)) (pgdir (getp t p)) b = uload m d b)))"
proof -
  obtain m0 m d where r: "vreach 0x80200000 m0 m (Map.empty(d \<mapsto> 4096)) {}" using one_process by blast
  note c = one_run_simps [of m d]
  have "vreach 0x80200000 m0 (fst (kst (one_run m d))) (Map.empty(d \<mapsto> 4096)) {}"
    "(Map.empty(d \<mapsto> (4096 :: u32))) (pgdir (getp (one_run m d) 0)) = Some (sz (getp (one_run m d) 0))" using r c by (simp_all add: one_proc_def)
  from fork_memory [OF one_run_ok c(1,4) idle_kept data_ok_demo this c(5)] obtain x t where
    "fork (vm_svc 0x80200000 idle_svc) (one_run m d) = Inr (x, t)"
    "x = -1 \<or> (\<exists>p<NPROC. pid (getp t p) = x \<and> (\<forall>b<KERNBASE_xv. uload (fst (kst t)) (pgdir (getp t p)) b = uload m d b))"
    unfolding c by (auto simp: idle_svc_def one_proc_def)
  then show ?thesis by blast
qed

subsection \<open>Growing and shrinking a process\<close>

text \<open>\<open>space_step s t pd D old new\<close>: the address space \<open>pd\<close> goes from \<open>old\<close> to \<open>new\<close> bytes; what it keeps reads as before and what it gains reads 0, and the other spaces of \<open>D\<close> read as before.\<close>

definition space_step :: "kalloc_st \<Rightarrow> kalloc_st \<Rightarrow> u32 \<Rightarrow> (u32 \<Rightarrow> u32 option) \<Rightarrow> u32 \<Rightarrow> u32 \<Rightarrow> bool" where
  "space_step s t pd D old new \<longleftrightarrow> (\<forall>q k. D q = Some k \<longrightarrow> q \<noteq> pd \<longrightarrow> (\<forall>b<KERNBASE_xv. uload t q b = uload s q b)) \<and>
     (\<forall>b<KERNBASE_xv. PGROUNDDOWN b < old \<and> PGROUNDDOWN b < new \<longrightarrow> uload t pd b = uload s pd b) \<and>
     (\<forall>b. old \<le> PGROUNDDOWN b \<and> PGROUNDDOWN b < new \<longrightarrow> uload t pd b = Some 0)"

lemma space_step_refl: "space_step s s pd D n n"
  by (simp add: space_step_def) (auto simp: not_less [symmetric])

lemma alloc_step:
  assumes "data_ok dat" "vreach dat m0 s D K" "D pd = Some old"
  shows "\<exists>r t. allocuvm pd old m s = xret (r, t) \<and> (if m < old \<and> m < KERNBASE_xv then r = old \<and> t = s
    else (r = m \<or> r = 0 \<and> (KERNBASE_xv \<le> m \<or> length (kfree_pages s) \<le> scarce m)) \<and>
      space_step s t pd D old (if r = 0 then old else r) \<and> vreach dat m0 t (D(pd \<mapsto> if r = 0 then old else r)) K)"
proof -
  have v: "vmsys s D K" using vreach_ok [OF assms(2,1)] by simp
  consider "m < old" "m < KERNBASE_xv" | "KERNBASE_xv \<le> m" | "old \<le> m" "m < KERNBASE_xv" by fastforce
  then show ?thesis
  proof cases
    case 1
    then show ?thesis by (auto simp: allocuvm_def)
  next
    case 2
    have "allocuvm pd old m s = xret (0, s)" using 2 by (simp add: allocuvm_def)
    then show ?thesis using 2 assms(2,3) space_step_refl by (auto simp: map_upd_triv)
  next
    case 3
    obtain r t where a: "allocuvm pd old m s = xret (r, t)" and s: "\<forall>q k. D q = Some k \<longrightarrow> q \<noteq> pd \<longrightarrow> (\<forall>b<KERNBASE_xv. uload t q b = uload s q b)"
      "\<forall>b<KERNBASE_xv. PGROUNDDOWN b < old \<longrightarrow> uload t pd b = uload s pd b"
      and r: "r = m \<and> (\<forall>b. old \<le> PGROUNDDOWN b \<and> PGROUNDDOWN b < m \<longrightarrow> uload t pd b = Some 0) \<or> r = 0 \<and> length (kfree_pages s) \<le> scarce m"
      using allocuvm_effect [OF v assms(3) 3] by blast
    let ?n = "if r = 0 then old else r"
    have "vreach dat m0 t (if r = 0 then D else D(pd \<mapsto> r)) K" by (rule vreach.grow [OF assms(2,3) a])
    then have "vreach dat m0 t (D(pd \<mapsto> ?n)) K" using assms(3) by (cases "r = 0") (simp_all add: map_upd_triv)
    moreover have "space_step s t pd D old ?n" unfolding space_step_def using s r by (auto simp: not_less [symmetric])
    ultimately show ?thesis using a r 3 by auto
  qed
qed

lemma dealloc_step:
  assumes "data_ok dat" "vreach dat m0 s D K" "D pd = Some old"
  shows "\<exists>t. deallocuvm pd old m s = xret (min m old, t) \<and> space_step s t pd D old (min m old) \<and> vreach dat m0 t (D(pd \<mapsto> min m old)) K"
proof (cases "m < old")
  case True
  have v: "vmsys s D K" using vreach_ok [OF assms(2,1)] by simp
  obtain t where t: "deallocuvm pd old m s = xret (m, t)" "\<forall>q k. D q = Some k \<longrightarrow> q \<noteq> pd \<longrightarrow> (\<forall>b<KERNBASE_xv. uload t q b = uload s q b)"
    "\<forall>b<KERNBASE_xv. uload t pd b = (if PGROUNDDOWN b < m then uload s pd b else None)" using deallocuvm_effect [OF v assms(3) True] by blast
  have "space_step s t pd D old m" unfolding space_step_def using t True by (auto simp: not_less [symmetric])
  moreover have "min m old = m" using True by simp
  ultimately show ?thesis using t(1) vreach.shrink [OF assms(2,3) t(1)] by simp
next
  case False
  then show ?thesis using assms(2,3) space_step_refl by (intro exI [of _ s]) (auto simp: deallocuvm_def min_def map_upd_triv)
qed

lemma switch_step:
  assumes "mem_kept svc" "switchuvm_op svc = sw"
  shows "(\<exists>e p k. rbind (with_k (sw (getp s cp)) s) (\<lambda>t. Inr (0 :: int, t)) = Inl e \<and> sw p k = Inl e) \<or>
    (\<exists>t. rbind (with_k (sw (getp s cp)) s) (\<lambda>t. Inr (0 :: int, t)) = Inr (0, t) \<and> fst (kst t) = fst (kst s) \<and> procs t = procs s)"
proof (cases "sw (getp s cp) (kst s)")
  case (Inl e)
  then have "rbind (with_k (sw (getp s cp)) s) (\<lambda>t. Inr (0 :: int, t)) = Inl e" by (simp add: with_k_def)
  then show ?thesis using Inl by blast
next
  case (Inr k)
  then have "fst k = fst (kst s)" using assms unfolding mem_kept_def by blast
  then show ?thesis using Inr by (simp add: with_k_def)
qed

lemma resized:
  fixes old :: u32
  assumes "old < KERNBASE_xv" "- (2 ^ 31) \<le> n" "n < 2 ^ 31"
  shows "0 < n \<Longrightarrow> uint (old + word_of_int n) = uint old + n" "n < 0 \<Longrightarrow> uint (min (old + word_of_int n) old) = (if uint old + n < 0 then uint old else uint old + n)"
proof -
  have o: "uint old < 2147483648" using assms(1) by (simp add: word_less_def KERNBASE_xv_def)
  have lo: "-2147483648 \<le> n" using assms(2) by simp
  have u: "uint (old + word_of_int n) = (uint old + n) mod 4294967296" by (simp add: uint_word_ariths uint_word_of_int_eq take_bit_eq_mod mod_add_right_eq)
  show "0 < n \<Longrightarrow> uint (old + word_of_int n) = uint old + n" using o assms(3) uint_ge_0 [of old] unfolding u by simp
  show "uint (min (old + word_of_int n) old) = (if uint old + n < 0 then uint old else uint old + n)" if n: "n < 0"
  proof (cases "uint old + n < 0")
    case True
    have "(uint old + n + 4294967296) mod 4294967296 = uint old + n + 4294967296"
      by (rule mod_pos_pos_trivial) (use True lo uint_ge_0 [of old] in linarith)+
    then have "(uint old + n) mod 4294967296 = uint old + n + 4294967296" by simp
    then have "old \<le> old + word_of_int n" using assms(2) unfolding word_le_def u by simp
    then show ?thesis using True by (simp add: min_def)
  next
    case False
    then have e: "uint (old + word_of_int n) = uint old + n" using o n unfolding u by simp
    then have "old + word_of_int n \<le> old" using n unfolding word_le_def by simp
    then show ?thesis using False e by (simp add: min_def)
  qed
qed

text \<open>C14: \<open>growproc\<close> on the memory of \<^verbatim>\<open>vm.c\<close> returns, unless \<open>switchuvm\<close> panics.  When it returns 0, the process has the requested size (a request to shrink below 0 changes nothing);
  the memory it keeps reads as before and new memory reads 0.  When it returns -1 to a request for more, nothing has changed, and the request was too large for user memory or for the free
  pages.  But a request to shrink to size 0 returns -1 as well, although it has freed all the memory and the process keeps its old size.\<close>

theorem growproc_memory:
  fixes s :: "(kalloc_st \<times> 'f, 'm) ptable_scheme"
  assumes "table_ok s" "curproc s = Some cp" "mem_kept svc" "data_ok dat" "vreach dat m0 (fst (kst s)) D K" "D (pgdir (getp s cp)) = Some (sz (getp s cp))"
    "- (2 ^ 31) \<le> n" "n < 2 ^ 31"
  defines "pd \<equiv> pgdir (getp s cp)" and "old \<equiv> sz (getp s cp)"
  shows "(\<exists>e p k. growproc (vm_svc dat svc) n s = Inl e \<and> switchuvm_op svc p k = Inl e) \<or> (\<exists>r t new. growproc (vm_svc dat svc) n s = Inr (r, t) \<and>
    vreach dat m0 (fst (kst t)) (D(pd \<mapsto> new)) K \<and> space_step (fst (kst s)) (fst (kst t)) pd D old new \<and>
    procs t = (procs s)[cp := (getp s cp)\<lparr>sz := if r = 0 then new else old\<rparr>] \<and>
    (r = 0 \<and> (n < 0 \<longrightarrow> new \<noteq> 0) \<and> uint new = (if uint old + n < 0 then uint old else uint old + n) \<or>
     r = -1 \<and> 0 < n \<and> new = old \<and> (2 ^ 31 \<le> uint old + n \<or> length (kfree_pages (fst (kst s))) \<le> scarce (old + word_of_int n)) \<or>
     r = -1 \<and> n < 0 \<and> new = 0 \<and> (old = 0 \<or> uint old + n = 0)))"
proof -
  let ?m = "old + word_of_int n" and ?k = "fst (kst s)"
  have ok: "old < KERNBASE_xv" using vmsysD(3) [OF conjunct1 [OF vreach_ok [OF assms(5,4)]] assms(6)] by (simp add: old_def space_ok_def)
  have same: "procs s = (procs s)[cp := (getp s cp)\<lparr>sz := old\<rparr>]" by (simp add: getp_def old_def)
  define fin where "fin new s1 = (let s2 = setp cp (\<lambda>x. x\<lparr>sz := new\<rparr>) s1 in rbind (with_k (switchuvm_op svc (getp s2 cp)) s2) (\<lambda>s3. Inr (0 :: int, s3)))"
    for new and s1 :: "(kalloc_st \<times> 'f, 'm) ptable_scheme"
  have fin: "(\<exists>e p k. fin new s1 = Inl e \<and> switchuvm_op svc p k = Inl e) \<or>
    (\<exists>t. fin new s1 = Inr (0, t) \<and> fst (kst t) = fst (kst s1) \<and> procs t = (procs s)[cp := (getp s cp)\<lparr>sz := new\<rparr>])" if "procs s1 = procs s" for new s1
    using switch_step [OF assms(3) HOL.refl, of "setp cp (\<lambda>x. x\<lparr>sz := new\<rparr>) s1" cp] that unfolding fin_def Let_def by (simp add: setp_def getp_def)
  note r = resized [OF ok assms(7,8)]
  consider "0 < n" | "n < 0" | "n = 0" by linarith
  then show ?thesis
  proof cases
    case 1
    have mo: "\<not> ?m < old" using r(1) [OF 1] 1 by (simp add: word_less_def)
    obtain r1 m1 where a: "allocuvm pd old ?m ?k = xret (r1, m1)" "r1 = ?m \<or> r1 = 0 \<and> (KERNBASE_xv \<le> ?m \<or> length (kfree_pages ?k) \<le> scarce ?m)"
      "space_step ?k m1 pd D old (if r1 = 0 then old else r1)" "vreach dat m0 m1 (D(pd \<mapsto> if r1 = 0 then old else r1)) K"
      using alloc_step [OF assms(4,5) assms(6) [folded pd_def old_def], of ?m] mo by auto
    have g: "growproc (vm_svc dat svc) n s = (if r1 = 0 then Inr (-1, s\<lparr>kst := (m1, snd (kst s))\<rparr>) else fin r1 (s\<lparr>kst := (m1, snd (kst s))\<rparr>))"
      using 1 a(1) assms(2) by (simp add: growproc_def on_mem_def pd_def old_def fin_def Let_def)
    show ?thesis
    proof (cases "r1 = 0")
      case True
      have "KERNBASE_xv \<le> ?m \<longleftrightarrow> 2 ^ 31 \<le> uint old + n" using r(1) [OF 1] by (simp add: word_le_def KERNBASE_xv_def)
      moreover have "0 < uint ?m" using r(1) [OF 1] 1 uint_ge_0 [of old] by linarith
      then have "?m \<noteq> 0" by auto
      ultimately have "KERNBASE_xv \<le> ?m \<or> length (kfree_pages ?k) \<le> scarce ?m" using a(2) True by auto
      then show ?thesis using g a(3,4) True 1 same \<open>KERNBASE_xv \<le> ?m \<longleftrightarrow> _\<close> by (intro disjI2 exI [of _ "-1"] exI [of _ "s\<lparr>kst := (m1, snd (kst s))\<rparr>"] exI [of _ old]) auto
    next
      case False
      then have rm: "r1 = ?m" using a(2) by simp
      have "\<not> uint old + n < 0" using 1 uint_ge_0 [of old] by linarith
      then show ?thesis using fin [of "s\<lparr>kst := (m1, snd (kst s))\<rparr>" r1] g a(3,4) False r(1) [OF 1] 1 rm by auto
    qed
  next
    case 2
    let ?z = "min ?m old"
    obtain m1 where a: "deallocuvm pd old ?m ?k = xret (?z, m1)" "space_step ?k m1 pd D old ?z" "vreach dat m0 m1 (D(pd \<mapsto> ?z)) K"
      using dealloc_step [OF assms(4,5) assms(6) [folded pd_def old_def], of ?m] by auto
    have g: "growproc (vm_svc dat svc) n s = (if ?z = 0 then Inr (-1, s\<lparr>kst := (m1, snd (kst s))\<rparr>) else fin ?z (s\<lparr>kst := (m1, snd (kst s))\<rparr>))"
      using 2 a(1) assms(2) by (simp add: growproc_def on_mem_def pd_def old_def fin_def Let_def)
    show ?thesis
    proof (cases "?z = 0")
      case True
      then have "old = 0 \<or> uint old + n = 0" using r(2) [OF 2] by (auto split: if_splits simp: uint_0_iff)
      then show ?thesis using g a(2,3) True 2 same by (intro disjI2 exI [of _ "-1"] exI [of _ "s\<lparr>kst := (m1, snd (kst s))\<rparr>"] exI [of _ 0]) simp
    next
      case False
      then show ?thesis using fin [of "s\<lparr>kst := (m1, snd (kst s))\<rparr>" ?z] g a(2,3) r(2) [OF 2] by auto
    qed
  next
    case 3
    then have "growproc (vm_svc dat svc) n s = fin old s" using assms(2) by (simp add: growproc_def fin_def old_def Let_def)
    moreover have "vreach dat m0 ?k (D(pd \<mapsto> old)) K" using assms(5,6) by (simp add: pd_def old_def map_upd_triv)
    ultimately show ?thesis using fin [of s old] 3 space_step_refl [of ?k pd D old] by auto
  qed
qed

lemma switch_idle: "switchuvm_op idle_svc p k = Inr k"
  by (simp add: idle_svc_def)

theorem growproc_memory_witness:
  "\<exists>m0 m d t. growproc (vm_svc 0x80200000 idle_svc) (-4096) (one_run m d) = Inr (-1, t) \<and> sz (getp t 0) = 4096 \<and>
     vreach 0x80200000 m0 (fst (kst t)) (Map.empty(d \<mapsto> 0)) {}"
proof -
  obtain m0 m d where r: "vreach 0x80200000 m0 m (Map.empty(d \<mapsto> 4096)) {}" using one_process by blast
  note c = one_run_simps [of m d]
  define D where "D = Map.empty(d \<mapsto> (4096 :: u32))"
  have "vreach 0x80200000 m0 (fst (kst (one_run m d))) D {}" "D (pgdir (getp (one_run m d) 0)) = Some (sz (getp (one_run m d) 0))"
    using r c by (simp_all add: one_proc_def D_def)
  from growproc_memory [OF one_run_ok c(1) idle_kept data_ok_demo this, of "-4096"] obtain x t new where t:
    "growproc (vm_svc 0x80200000 idle_svc) (-4096) (one_run m d) = Inr (x, t)" "vreach 0x80200000 m0 (fst (kst t)) (D(d \<mapsto> new)) {}"
    "procs t = (procs (one_run m d))[0 := (one_proc d)\<lparr>sz := if x = 0 then new else 4096\<rparr>]" "x = -1" "new = 0"
    unfolding c by (auto simp: switch_idle one_proc_def uint_0_iff)
  have "length (procs (one_run m d)) = 64" by (simp add: one_run_def)
  then have "sz (getp t 0) = 4096" using t(3,4) by (simp add: getp_def)
  moreover have "vreach 0x80200000 m0 (fst (kst t)) (Map.empty(d \<mapsto> 0)) {}" using t(2) unfolding t(5) D_def fun_upd_upd .
  ultimately show ?thesis using t(1) unfolding t(4) by blast
qed

end
