(* ===== verification/XvSyscallProps.thy ===== *)
theory XvSyscallProps
  imports XvSyscall XvVmProc
begin

text \<open>
  What the kernel may rely on when it has fetched the arguments of a system call, the clock interrupt, and a system call that brings the kernel down.
\<close>

subsection \<open>Arguments\<close>

text \<open>The pages of user memory are those of the page table of the process.\<close>

definition user_view :: "kalloc_st \<Rightarrow> proc \<Rightarrow> umem \<Rightarrow> bool" where
  "user_view k p m \<longleftrightarrow> (\<forall>b<KERNBASE_xv. upage m b \<longleftrightarrow> present_xv (pte_at k (pgdir p) b))"

lemma below_size:
  assumes "data_ok dat" "vreach dat m0 k D K" "D (pgdir p) = Some (sz p)" "user_view k p m"
  shows "sz p < KERNBASE_xv" "b < sz p \<Longrightarrow> upage m b"
proof -
  have sp: "space_ok k (pgdir p) (sz p)" using vreach_ok [OF assms(2,1)] vmsysD(3) assms(3) by blast
  show s: "sz p < KERNBASE_xv" using sp by (simp add: space_ok_def)
  assume b: "b < sz p"
  then have bk: "b < KERNBASE_xv" using s by simp
  have "PGROUNDDOWN b \<le> b" by (simp add: PGROUNDDOWN_def word_and_le2)
  then have "PGROUNDDOWN b < sz p" using b by simp
  then have "present_xv (pte_at k (pgdir p) b)" by (rule space_okD(1) [OF sp bk])
  then show "upage m b" using assms(4) bk by (simp add: user_view_def)
qed

lemma add_no_wrap:
  fixes a :: u32
  assumes "uint a + i < 4294967296" "0 \<le> i"
  shows "uint (a + word_of_int i) = uint a + i"
proof -
  have "uint (a + word_of_int i) = (uint a + i) mod 4294967296" by (simp add: uint_word_ariths uint_word_of_int_eq take_bit_eq_mod mod_add_right_eq)
  also have "\<dots> = uint a + i" by (rule mod_pos_pos_trivial) (use assms uint_ge_0 [of a] in linarith)+
  finally show ?thesis .
qed

text \<open>With a size below \<open>KERNBASE\<close> the checks of the code do not wrap around.\<close>

lemma range_check:
  assumes "sz p < KERNBASE_xv" "0 \<le> len" "len < 2147483648"
  shows "sz p \<le> a \<or> sz p < a + word_of_int len \<longleftrightarrow> sz p \<le> a \<or> uint (sz p) < uint a + len"
proof (cases "sz p \<le> a")
  case False
  have "uint (sz p) < 2147483648" using assms(1) by (simp add: word_less_def KERNBASE_xv_def)
  then have "uint a + len < 4294967296" using False assms(3) by (simp add: word_le_def)
  then show ?thesis using add_no_wrap [OF _ assms(2)] by (simp add: word_less_def)
qed simp

lemma argint_eq:
  assumes "sz p < KERNBASE_xv" "\<And>b. b < sz p \<Longrightarrow> upage m b"
  shows "argint n p m = (let a = tf_esp (tf p) + 4 + 4 * word_of_int n in Inr (if uint a + 4 \<le> uint (sz p) then Some (int_at (ubytes m) a) else None))"
proof -
  define a where "a = tf_esp (tf p) + 4 + 4 * word_of_int n"
  have c: "sz p \<le> a \<or> sz p < a + 4 \<longleftrightarrow> uint (sz p) < uint a + 4" using range_check [OF assms(1), of 4 a] by (auto simp: word_le_def)
  have "upage m a \<and> upage m (a + 1) \<and> upage m (a + 2) \<and> upage m (a + 3)" if u: "uint a + 4 \<le> uint (sz p)"
  proof -
    have "a + word_of_int i < sz p" if "0 \<le> i" "i < 4" for i
      using add_no_wrap [of a i] u that assms(1) by (simp add: word_less_def KERNBASE_xv_def)
    from this [of 0] this [of 1] this [of 2] this [of 3] show ?thesis using assms(2) by simp
  qed
  then have "fetchint p m a = Inr (if uint a + 4 \<le> uint (sz p) then Some (int_at (ubytes m) a) else None)"
    unfolding fetchint_def c by (cases "uint a + 4 \<le> uint (sz p)") (simp_all add: uread_int_def not_less)
  then show ?thesis by (simp only: argint_def Let_def a_def)
qed

lemma argptr_eq:
  fixes n :: int
  assumes "sz p < KERNBASE_xv" "\<And>b. b < sz p \<Longrightarrow> upage m b" "len < 2 ^ 31"
  defines "a \<equiv> tf_esp (tf p) + 4 + 4 * word_of_int n" and "q \<equiv> int_at (ubytes m) (tf_esp (tf p) + 4 + 4 * word_of_int n)"
  shows "argptr n len p m = Inr (if uint a + 4 \<le> uint (sz p) \<and> 0 \<le> len \<and> q < sz p \<and> uint q + len \<le> uint (sz p) then Some q else None)"
proof -
  have i: "argint n p m = Inr (if uint a + 4 \<le> uint (sz p) then Some q else None)"
    using argint_eq [OF assms(1), of m n] assms(2) by (simp add: Let_def a_def q_def)
  have "len < 2147483648" using assms(3) by simp
  then have c: "sz p \<le> q \<or> sz p < q + word_of_int len \<longleftrightarrow> sz p \<le> q \<or> uint (sz p) < uint q + len" if "0 \<le> len"
    by (rule range_check [OF assms(1) that])
  show ?thesis using i c by (auto simp: argptr_def not_le not_less)
qed

text \<open>What the scan for the end of a string finds.\<close>

definition scanned :: "bytes \<Rightarrow> u32 \<Rightarrow> u32 \<Rightarrow> u32 option \<Rightarrow> bool" where
  "scanned b s ep r \<longleftrightarrow> (case r of None \<Rightarrow> \<forall>x. s \<le> x \<and> x < ep \<longrightarrow> b x \<noteq> 0
     | Some e \<Rightarrow> s \<le> e \<and> e < ep \<and> b e = 0 \<and> (\<forall>x. s \<le> x \<and> x < e \<longrightarrow> b x \<noteq> 0))"

lemma scanned_step:
  assumes "s < ep" "b s \<noteq> 0" "scanned b (s + 1) ep r"
  shows "scanned b s ep r"
proof -
  have nx: "s + 1 \<le> x \<longleftrightarrow> s < x" for x using next_address [OF assms(1)] by (auto simp: word_le_nat_alt word_less_nat_alt)
  have le: "s \<le> x \<longleftrightarrow> x = s \<or> s < x" for x by auto
  show ?thesis using assms nx by (cases r) (auto simp: scanned_def le)
qed

lemma fetchstr_loop_eq:
  assumes "\<And>x. x < ep \<Longrightarrow> upage m x"
  shows "\<exists>r. fetchstr_loop m ep s = Inr r \<and> scanned (ubytes m) s ep r"
  using assms
proof (induction m ep s rule: fetchstr_loop.induct)
  case (1 m ep s)
  consider "\<not> s < ep" | "s < ep" "ubytes m s = 0" | "s < ep" "ubytes m s \<noteq> 0" by blast
  then show ?case
  proof cases
    case 1
    then have "x < ep \<Longrightarrow> \<not> s \<le> x" for x by simp
    then show ?thesis using 1 by (subst fetchstr_loop.simps) (auto simp: scanned_def)
  next
    case 2
    then have "fetchstr_loop m ep s = Inr (Some s)" using "1.prems" by (subst fetchstr_loop.simps) (simp add: uread_def)
    then show ?thesis using 2 by (auto simp: scanned_def)
  next
    case 3
    obtain r where r: "fetchstr_loop m ep (s + 1) = Inr r" "scanned (ubytes m) (s + 1) ep r" using "1.IH" [of "ubytes m s"] 3 "1.prems" by blast
    have "fetchstr_loop m ep s = Inr r" using 3 r(1) "1.prems" by (subst fetchstr_loop.simps) (simp add: uread_def)
    then show ?thesis using scanned_step [OF 3 r(2)] by blast
  qed
qed

text \<open>C16: the arguments of a system call.  \<open>argint\<close>, \<open>argptr\<close> and \<open>argstr\<close> never fault, whatever the stack pointer and the memory of the process, and succeed exactly when the
  argument is good: the word of the argument lies below the size of the process, the block of a pointer does too, without wrapping around, and so do the bytes of a string up to and with the first 0
  after its start.  So every address the kernel then uses is mapped in the page table of the process.\<close>

theorem args_in_bounds:
  fixes n :: int
  assumes "data_ok dat" "vreach dat m0 k D K" "D (pgdir p) = Some (sz p)" "user_view k p m" "len < 2 ^ 31"
  defines "a \<equiv> tf_esp (tf p) + 4 + 4 * word_of_int n" and "q \<equiv> int_at (ubytes m) (tf_esp (tf p) + 4 + 4 * word_of_int n)"
  shows "argint n p m = Inr (if uint a + 4 \<le> uint (sz p) then Some q else None) \<and>
    argptr n len p m = Inr (if uint a + 4 \<le> uint (sz p) \<and> 0 \<le> len \<and> q < sz p \<and> uint q + len \<le> uint (sz p) then Some q else None) \<and>
    (\<exists>r. argstr n p m = Inr r \<and> (case r of None \<Rightarrow> uint (sz p) < uint a + 4 \<or> (\<forall>x. q \<le> x \<and> x < sz p \<longrightarrow> ubytes m x \<noteq> 0)
      | Some (s, l) \<Rightarrow> uint a + 4 \<le> uint (sz p) \<and> s = q \<and> uint q + uint l < uint (sz p) \<and> ubytes m (q + l) = 0 \<and> (\<forall>x. q \<le> x \<and> x < q + l \<longrightarrow> ubytes m x \<noteq> 0))) \<and>
    (\<forall>x. x < sz p \<longrightarrow> upage m x)"
proof -
  note b = below_size [OF assms(1-4)]
  have i: "argint n p m = Inr (if uint a + 4 \<le> uint (sz p) then Some q else None)"
    using argint_eq [OF b(1), of m n] b(2) by (simp add: Let_def a_def q_def)
  have ptr: "argptr n len p m = Inr (if uint a + 4 \<le> uint (sz p) \<and> 0 \<le> len \<and> q < sz p \<and> uint q + len \<le> uint (sz p) then Some q else None)"
    using argptr_eq [OF b(1) _ assms(5), of m n] b(2) by (simp add: a_def q_def)
  obtain r where r: "fetchstr_loop m (sz p) q = Inr r" "scanned (ubytes m) q (sz p) r" using fetchstr_loop_eq [of "sz p" m q] b(2) by blast
  have add: "uint q + uint (e - q) = uint e" if "q \<le> e" for e using that by (simp add: uint_minus_simple_alt word_le_def uint_sub_lem)
  have str: "\<exists>r. argstr n p m = Inr r \<and> (case r of None \<Rightarrow> uint (sz p) < uint a + 4 \<or> (\<forall>x. q \<le> x \<and> x < sz p \<longrightarrow> ubytes m x \<noteq> 0)
      | Some (s, l) \<Rightarrow> uint a + 4 \<le> uint (sz p) \<and> s = q \<and> uint q + uint l < uint (sz p) \<and> ubytes m (q + l) = 0 \<and> (\<forall>x. q \<le> x \<and> x < q + l \<longrightarrow> ubytes m x \<noteq> 0))"
  proof (cases "uint a + 4 \<le> uint (sz p) \<and> q < sz p")
    case True
    then have "argstr n p m = Inr (map_option (\<lambda>s. (q, s - q)) r)" using i r(1) by (auto simp: argstr_def fetchstr_def)
    then show ?thesis using r(2) add True by (cases r) (auto simp: scanned_def word_less_def)
  next
    case False
    then have "argstr n p m = Inr None" using i by (auto simp: argstr_def fetchstr_def not_le not_less)
    then show ?thesis using False by (auto simp: not_le not_less)
  qed
  show ?thesis using i ptr str b(2) by blast
qed

theorem args_in_bounds_witness:
  "\<exists>k d. let m = \<lparr>upage = (\<lambda>b. present_xv (pte_at k d b)), ubytes = (\<lambda>_. 0)\<rparr>
     in argint 0 (one_proc d) m = Inr (Some 0) \<and> argptr 0 4096 (one_proc d) m = Inr (Some 0) \<and> argptr 0 4097 (one_proc d) m = Inr None \<and> argint 1023 (one_proc d) m = Inr None"
proof -
  obtain m0 k d where r: "vreach 0x80200000 m0 k (Map.empty(d \<mapsto> 4096)) {}" using one_process by blast
  define m where "m = \<lparr>upage = (\<lambda>b. present_xv (pte_at k d b)), ubytes = (\<lambda>_. 0)\<rparr>"
  have p: "(Map.empty(d \<mapsto> 4096)) (pgdir (one_proc d)) = Some (sz (one_proc d))" "user_view k (one_proc d) m"
    by (simp_all add: one_proc_def user_view_def m_def)
  have z: "tf_esp (tf (one_proc d)) = 0" "sz (one_proc d) = 4096" "int_at (ubytes m) x = 0" for x
    by (simp_all add: one_proc_def proc0_def tf_zero_def m_def int_at_def)
  note a = args_in_bounds [OF data_ok_demo r p]
  have "argint 0 (one_proc d) m = Inr (Some 0) \<and> argptr 0 4096 (one_proc d) m = Inr (Some 0)" using a [of 4096 0] by (simp add: z)
  moreover have "argptr 0 4097 (one_proc d) m = Inr None" using a [of 4097 0] by (simp add: z)
  moreover have "argint 1023 (one_proc d) m = Inr None" using a [of 0 1023] by (simp add: z)
  ultimately show ?thesis unfolding m_def Let_def by blast
qed

subsection \<open>The clock\<close>

lemma wakeup1_loop_all:
  assumes "set ps \<subseteq> {..<length (procs s)}"
  shows "getp (wakeup1_loop ch ps s) q = (if q \<in> set ps \<and> state (getp s q) = SLEEPING \<and> chan (getp s q) = ch then (getp s q)\<lparr>state := RUNNABLE\<rparr> else getp s q)"
    "length (procs (wakeup1_loop ch ps s)) = length (procs s)" "ticks (wakeup1_loop ch ps s) = ticks s" "curproc (wakeup1_loop ch ps s) = curproc s"
    "pt_lock (wakeup1_loop ch ps s) = pt_lock s" "cpu (wakeup1_loop ch ps s) = cpu s" "olocks (wakeup1_loop ch ps s) = olocks s"
  using assms by (induction ch ps s rule: wakeup1_loop.induct) (auto simp: getp_setp, simp_all add: setp_def)

text \<open>A clock tick with the locks free: \<open>woken\<close> is the table with the processes that wait for the clock made runnable.\<close>

definition woken :: "u32 \<Rightarrow> proc \<Rightarrow> proc" where
  "woken ta x = (if state x = SLEEPING \<and> chan x = AddrChan ta then x\<lparr>state := RUNNABLE\<rparr> else x)"

lemma timer_tick_ok:
  assumes "lock_free s" "\<not> olocks s tlk" "length (procs s) = NPROC"
  shows "\<exists>t. timer_tick tlk ta s = Inr t \<and> lock_free t \<and> olocks t = olocks s \<and> ncli (cpu t) = ncli (cpu s) \<and> ticks t = ticks s + 1 \<and> curproc t = curproc s \<and>
    length (procs t) = NPROC \<and> (\<forall>q<NPROC. getp t q = woken ta (getp s q))"
proof -
  define s1 where "s1 = s\<lparr>olocks := (olocks s)(tlk := True), cpu := push_cpu (cpu s), ticks := ticks s + 1\<rparr>"
  define s2 where "s2 = s1\<lparr>pt_lock := True, cpu := push_cpu (cpu s1)\<rparr>"
  define s3 where "s3 = wakeup1_loop (AddrChan ta) [0..<NPROC] s2"
  have "set [0..<NPROC] \<subseteq> {..<length (procs s2)}" using assms(3) by (simp add: s2_def s1_def atLeast0LessThan)
  note w = wakeup1_loop_all [OF this, of "AddrChan ta", folded s3_def]
  define t where "t = s3\<lparr>pt_lock := False, olocks := (olocks s3)(tlk := False), cpu := pop_cpu (pop_cpu (cpu s3))\<rparr>"
  have la: "lock_acquire tlk s = Inr (s\<lparr>olocks := (olocks s)(tlk := True), cpu := push_cpu (cpu s)\<rparr>)" using assms(2) by (simp add: lock_acquire_def)
  have c: "cpu s3 = push_cpu (push_cpu (cpu s))" "pt_lock s3" "olocks s3 tlk" using w(5-7) by (simp_all add: s2_def s1_def)
  have pa: "pt_acquire s1 = Inr s2" using assms(1) by (simp add: pt_acquire_def s2_def s1_def lock_free_def)
  have pr: "pt_release s3 = Inr (s3\<lparr>pt_lock := False, cpu := pop_cpu (cpu s3)\<rparr>)"
    using assms(1) c by (simp add: pt_release_def lock_free_def cpu_pop_def push_cpu_def)
  have "wakeup_with wakeup1 (AddrChan ta) s1 = Inr (s3\<lparr>pt_lock := False, cpu := pop_cpu (cpu s3)\<rparr>)"
    by (simp add: wakeup_with_def wakeup1_def pa pr s3_def [symmetric])
  moreover have "lock_release tlk (s3\<lparr>pt_lock := False, cpu := pop_cpu (cpu s3)\<rparr>) = Inr t"
    using assms(1) c by (simp add: lock_release_def t_def lock_free_def cpu_pop_def push_cpu_def pop_cpu_def)
  ultimately have "timer_tick tlk ta s = Inr t" by (simp add: timer_tick_def la s1_def)
  moreover have "olocks t = olocks s" using assms(2) w(7) by (auto simp: t_def s2_def s1_def fun_eq_iff)
  moreover have "getp t q = woken ta (getp s q)" if "q < NPROC" for q using w(1) [of q] that by (simp add: t_def s2_def s1_def woken_def getp_def)
  ultimately show ?thesis using assms w(2-4) c(1) by (auto simp: t_def s2_def s1_def lock_free_def push_cpu_def pop_cpu_def)
qed

text \<open>C35: a clock interrupt of a running process that has not been killed advances the clock, makes the processes that wait for it runnable, and gives up the processor: the process is runnable
  again and the scheduler goes on with the table lock.  No other process changes.\<close>

theorem timer_trap:
  assumes "curproc s = Some p" "p < NPROC" "length (procs s) = NPROC" "state (getp s p) = RUNNING" "\<not> killed (getp s p)" "\<not> pt_lock s" "ncli (cpu s) = 0" "\<not> olocks s tlk"
    "tf_trapno fr = T_IRQ0 + IRQ_TIMER"
  shows "\<exists>t. trap svc dev tlk ta tbl fr s = Inr (False, t) \<and> ticks t = ticks s + 1 \<and> pt_lock t \<and> olocks t = olocks s \<and> \<not> IF (cpu t) \<and>
    (\<forall>q<NPROC. getp t q = (if q = p then (getp s p)\<lparr>state := RUNNABLE\<rparr>
       else if state (getp s q) = SLEEPING \<and> chan (getp s q) = AddrChan ta then (getp s q)\<lparr>state := RUNNABLE\<rparr> else getp s q))"
proof -
  have lf: "lock_free s" using assms(6,7) by (simp add: lock_free_def)
  obtain u where u: "timer_tick tlk ta s = Inr u" "lock_free u" "olocks u = olocks s" "ncli (cpu u) = 0" "ticks u = ticks s + 1" "curproc u = Some p" "length (procs u) = NPROC"
    "\<forall>q<NPROC. getp u q = woken ta (getp s q)" using timer_tick_ok [OF lf assms(8,3), of ta] assms(1,7) by auto
  have up: "getp u p = getp s p" using u(8) assms(2,4) by (simp add: woken_def)
  define t where "t = setp p (\<lambda>x. x\<lparr>state := RUNNABLE\<rparr>) (u\<lparr>pt_lock := True, cpu := push_cpu (cpu u)\<rparr>)"
  have y: "yield u = Inr t" using u(2,4,6,7) assms(2)
    by (simp add: yield_def pt_acquire_def lock_free_def sched_def t_def setp_def getp_def push_cpu_def)
  have n: "tf_trapno fr \<noteq> T_SYSCALL" using assms(9) by (simp add: T_SYSCALL_def T_IRQ0_def IRQ_TIMER_def)
  have "trap svc dev tlk ta tbl fr s = Inr (False, t)" using u(1,6) up assms(4,5,9) n y by (simp add: trap_def trap_switch_def cur_killed_def)
  moreover have "getp t q = (if q = p then (getp s p)\<lparr>state := RUNNABLE\<rparr> else woken ta (getp s q))" if "q < NPROC" for q
    using u(7,8) up assms(2) that by (simp add: t_def getp_setp) (simp add: getp_def)
  ultimately show ?thesis using u(3,5) by (intro exI [of _ t]) (auto simp: t_def setp_def push_cpu_def woken_def)
qed

theorem timer_trap_witness:
  "\<exists>t. trap unit_svc \<lparr>ideintr_op = Inr, kbdintr_op = Inr, uartintr_op = Inr\<rparr> 7 8 (\<lambda>_. None) (tf_zero\<lparr>tf_trapno := 32\<rparr>) unit_run = Inr (False, t) \<and> ticks t = 1 \<and> state (getp t 0) = RUNNABLE"
proof -
  have s: "curproc unit_run = Some 0" "length (procs unit_run) = NPROC" "state (getp unit_run 0) = RUNNING" "\<not> killed (getp unit_run 0)" "\<not> pt_lock unit_run" "ncli (cpu unit_run) = 0"
    "\<not> olocks unit_run 7" "ticks unit_run = 0"
    by (simp_all add: unit_run_def unit_run_with_def unit_boot_def NPROC_def getp_def proc0_def)
  have "0 < NPROC" "tf_trapno (tf_zero\<lparr>tf_trapno := 32\<rparr>) = T_IRQ0 + IRQ_TIMER" by (simp_all add: NPROC_def T_IRQ0_def IRQ_TIMER_def)
  from timer_trap [OF s(1) this(1) s(2-7) this(2), of unit_svc "\<lparr>ideintr_op = Inr, kbdintr_op = Inr, uartintr_op = Inr\<rparr>" 8 "\<lambda>_. None"] show ?thesis
    using s(8) by (auto simp: NPROC_def)
qed

subsection \<open>A null pointer for getpinfo\<close>

text \<open>C36: a program of at least 1024 bytes that calls \<open>getpinfo\<close> with the null pointer as the argument on its stack passes the check of \<open>argptr\<close>, because 0 is an address of user
  memory, gets the result -1 and leaves the table lock taken; the next clock interrupt panics.\<close>

theorem getpinfo_null_panics:
  assumes "curproc s = Some p" "p < length (procs s)" "\<not> killed (getp s p)" "\<not> pt_lock s" "\<not> olocks s tlk" "tf_trapno fr = T_SYSCALL" "tf_eax fr = 25"
    "sz (getp s p) < KERNBASE_xv" "\<forall>b. b < sz (getp s p) \<longrightarrow> upage m b" "1024 \<le> sz (getp s p)"
    "uint (tf_esp fr + 4) + 4 \<le> uint (sz (getp s p))" "int_at (ubytes m) (tf_esp fr + 4) = 0" "tf_trapno fr2 = T_IRQ0 + IRQ_TIMER"
  shows "\<exists>t. trap svc dev tlk ta (syscalls svc tlk ta m fs) fr s = Inr (True, t) \<and> tf_eax (tf (getp t p)) = -1 \<and> pt_lock t \<and>
    trap svc dev tlk ta tbl fr2 t = Inl ''acquire''"
proof -
  have "argptr 0 1024 ((getp s p)\<lparr>tf := fr\<rparr>) m = Inr (Some 0)"
    using argptr_eq [of "(getp s p)\<lparr>tf := fr\<rparr>" m 1024 0] assms(8-12) by (simp add: word_le_def word_less_def)
  note null = this
  define s1 where "s1 = setp p (\<lambda>x. x\<lparr>tf := fr\<rparr>) s"
  define s2 where "s2 = s1\<lparr>pt_lock := True, cpu := push_cpu (cpu s1)\<rparr>"
  define t where "t = setp p (\<lambda>x. x\<lparr>tf := (tf x)\<lparr>tf_eax := -1\<rparr>\<rparr>) s2"
  have g: "getp s1 p = (getp s p)\<lparr>tf := fr\<rparr>" "curproc s1 = Some p" using assms(1,2) by (simp_all add: s1_def setp_def getp_def)
  have "sys_getpinfo m s1 = Inr (-1, None, s2)" using assms(4) null g by (simp add: sys_getpinfo_def getpinfo_def pt_acquire_def s2_def s1_def setp_def)
  then have "syscall (syscalls svc tlk ta m fs) s1 = Inr (True, t)" using g assms(7) by (simp add: syscall_def syscalls_def NSYSCALLS_def t_def)
  moreover have "\<not> cur_killed t" using assms(1-3) by (simp add: cur_killed_def t_def s2_def s1_def setp_def getp_def)
  ultimately have tr: "trap svc dev tlk ta (syscalls svc tlk ta m fs) fr s = Inr (True, t)" using assms(1,3,6) by (simp add: trap_def trap_syscall_def s1_def)
  have "timer_tick tlk ta t = Inl ''acquire''" using assms(5) by (simp add: timer_tick_def lock_acquire_def wakeup_with_def pt_acquire_def t_def s2_def s1_def setp_def)
  moreover have "T_IRQ0 + IRQ_TIMER \<noteq> T_SYSCALL" by (simp add: T_SYSCALL_def T_IRQ0_def IRQ_TIMER_def)
  ultimately have "trap svc dev tlk ta tbl fr2 t = Inl ''acquire''" using assms(13) by (simp add: trap_def trap_switch_def)
  moreover have "tf_eax (tf (getp t p)) = -1" using assms(2) by (simp add: t_def s2_def s1_def setp_def getp_def)
  moreover have "pt_lock t" by (simp add: t_def s2_def setp_def)
  ultimately show ?thesis using tr by blast
qed

theorem getpinfo_null_panics_witness:
  "\<exists>m dev t. trap unit_svc dev 7 8 (syscalls unit_svc 7 8 m (\<lambda>_. None)) (tf_zero\<lparr>tf_trapno := 64, tf_eax := 25\<rparr>) unit_run = Inr (True, t) \<and> pt_lock t \<and>
     trap unit_svc dev 7 8 (\<lambda>_. None) (tf_zero\<lparr>tf_trapno := 32\<rparr>) t = Inl ''acquire''"
proof -
  let ?m = "\<lparr>upage = (\<lambda>_. True), ubytes = (\<lambda>_. 0)\<rparr>" and ?d = "\<lparr>ideintr_op = Inr, kbdintr_op = Inr, uartintr_op = Inr\<rparr>"
    and ?f = "tf_zero\<lparr>tf_trapno := 64, tf_eax := 25\<rparr>"
  have s: "curproc unit_run = Some 0" "0 < length (procs unit_run)" "\<not> killed (getp unit_run 0)" "\<not> pt_lock unit_run" "\<not> olocks unit_run 7" "sz (getp unit_run 0) = 4096"
    by (simp_all add: unit_run_def unit_run_with_def unit_boot_def getp_def proc0_def)
  have f: "tf_trapno ?f = T_SYSCALL" "tf_eax ?f = 25" "tf_trapno (tf_zero\<lparr>tf_trapno := 32\<rparr>) = T_IRQ0 + IRQ_TIMER" by (simp_all add: T_SYSCALL_def T_IRQ0_def IRQ_TIMER_def)
  have m: "sz (getp unit_run 0) < KERNBASE_xv" "\<forall>b. b < sz (getp unit_run 0) \<longrightarrow> upage ?m b" "1024 \<le> sz (getp unit_run 0)"
    "uint (tf_esp ?f + 4) + 4 \<le> uint (sz (getp unit_run 0))" "int_at (ubytes ?m) (tf_esp ?f + 4) = 0"
    by (simp_all add: s(6) KERNBASE_xv_def tf_zero_def int_at_def)
  from getpinfo_null_panics [OF s(1-5) f(1,2) m f(3), of unit_svc ?d 8 "\<lambda>_. None" "\<lambda>_. None"] show ?thesis by blast
qed

text \<open>\<open>sleep\<close> with a negative number of ticks does not return before the clock has advanced by \<open>2 ^ 31\<close>.\<close>

lemma sleep_negative:
  assumes "n < 0" "- (2 ^ 31) \<le> n" "curproc s = Some p" "\<not> killed (getp s p)" "ticks s - ticks0 < 2 ^ 31" "sleep_turn tlk ta n ticks0 s = Inr (r, t)"
  shows "r = None"
proof -
  have "uint (word_of_int n :: u32) = n + 4294967296"
  proof -
    have "n mod 4294967296 = (n + 4294967296) mod 4294967296" by simp
    also have "\<dots> = n + 4294967296" by (rule mod_pos_pos_trivial) (use assms(1,2) in simp_all)
    finally show ?thesis by (simp add: uint_word_of_int)
  qed
  then have "ticks s - ticks0 < word_of_int n" using assms(2,5) by (simp add: word_less_def)
  then show ?thesis using assms(3,4,6) by (auto simp: sleep_turn_def res_simps)
qed

end
