(* ===== verification/XvConsole.thy ===== *)
theory XvConsole
  imports XvPipe
begin

text \<open>
  The console, \<^verbatim>\<open>lab-2/console.c\<close>, on the process table extended by the input buffer, the screen and the bytes sent to the serial line.  The screen memory
  \<open>crt\<close> and its cursor register \<open>cpos\<close> are part of the state.  \<open>cl\<close> is the lock of the console and \<open>ra\<close> the address of \<open>input.r\<close>, on which readers sleep.
\<close>

definition INPUT_BUF :: nat where "INPUT_BUF = 128"
definition BACKSPACE :: int where "BACKSPACE = 0x100"

record 'k cons = "'k ptable" +
  ibuf :: "u8 list"
  in_r :: u32
  in_w :: u32
  in_e :: u32
  crt :: "nat \<Rightarrow> u16"
  cpos :: int
  serial :: "u8 list"
  uart :: bool
  panicked :: bool

subsection \<open>Output\<close>

text \<open>\<open>uartputc\<close> of \<^verbatim>\<open>uart.c\<close>, without the wait for the port.\<close>

definition uartputc :: "int \<Rightarrow> 'k cons \<Rightarrow> 'k cons" where
  "uartputc c s = (if uart s then s\<lparr>serial := serial s @ [word_of_int c]\<rparr> else s)"

text \<open>The cells of the screen after scrolling up one line, with the cursor at \<open>pos\<close>.\<close>

definition scroll :: "nat \<Rightarrow> (nat \<Rightarrow> u16) \<Rightarrow> nat \<Rightarrow> u16" where
  "scroll pos m i = (let m1 = (\<lambda>i. if i < 23 * 80 then m (i + 80) else m i) in if pos \<le> i \<and> i < 24 * 80 then 0 else m1 i)"

definition cgaputc :: "int \<Rightarrow> 'k cons \<Rightarrow> 'k cons res" where
  "cgaputc c s =
     (let pos = cpos s;
          m1 = (if c = 10 \<or> c = BACKSPACE then crt s else (crt s)(nat pos := word_of_int (c mod 256) OR 0x0700));
          pos1 = (if c = 10 then pos + (80 - pos mod 80) else if c = BACKSPACE then (if 0 < pos then pos - 1 else pos) else pos + 1)
      in if pos1 < 0 \<or> 25 * 80 < pos1 then Inl ''pos under/overflow''
         else let pos2 = (if 24 \<le> pos1 div 80 then pos1 - 80 else pos1);
                  m2 = (if 24 \<le> pos1 div 80 then scroll (nat pos2) m1 else m1)
              in Inr (s\<lparr>cpos := pos2 mod 65536, crt := m2(nat pos2 := 0x0720)\<rparr>))"

definition consputc :: "int \<Rightarrow> 'k cons \<Rightarrow> 'k cons res" where
  "consputc c s =
     (if panicked s then Inl ''panicked''
      else cgaputc c (if c = BACKSPACE then uartputc 8 (uartputc 32 (uartputc 8 s)) else uartputc c s))"

lemma cgaputc_shape: "cgaputc c s = Inr t \<Longrightarrow> \<exists>q m. t = s\<lparr>cpos := q, crt := m\<rparr>"
  unfolding cgaputc_def Let_def by (metis Inl_Inr_False sum.inject(2))

lemma uartputc_eq: "uartputc c s = s\<lparr>serial := serial s @ (if uart s then [word_of_int c] else [])\<rparr>"
  by (simp add: uartputc_def)

lemma consputc_shape:
  assumes "consputc c s = Inr t"
  shows "\<exists>b q m. t = s\<lparr>serial := b, cpos := q, crt := m\<rparr>"
proof -
  obtain b where "(if c = BACKSPACE then uartputc 8 (uartputc 32 (uartputc 8 s)) else uartputc c s) = s\<lparr>serial := b\<rparr>"
    by (cases "c = BACKSPACE") (simp_all add: uartputc_eq)
  then show ?thesis using assms cgaputc_shape [of c "s\<lparr>serial := b\<rparr>" t] by (auto simp: consputc_def split: if_splits)
qed

lemma consputc_input:
  assumes "consputc c s = Inr t"
  shows "ibuf t = ibuf s" "in_r t = in_r s" "in_w t = in_w s" "in_e t = in_e s" "olocks t = olocks s" "pt_lock t = pt_lock s" "cpu t = cpu s" "procs t = procs s" "curproc t = curproc s"
    "panicked t = panicked s"
  using consputc_shape [OF assms] by auto

subsection \<open>Input\<close>

text \<open>The loop of Control-U.\<close>

function kill_line :: "'k cons \<Rightarrow> 'k cons res" where
  "kill_line s =
     (if in_e s \<noteq> in_w s \<and> ibuf s ! (unat (in_e s - 1) mod INPUT_BUF) \<noteq> 10
      then (case consputc BACKSPACE (s\<lparr>in_e := in_e s - 1\<rparr>) of Inl e \<Rightarrow> Inl e | Inr s1 \<Rightarrow> kill_line s1)
      else Inr s)"
  by pat_completeness auto
termination
proof (relation "measure (\<lambda>s. unat (in_e s - in_w s))")
  fix s s1 :: "'k cons"
  assume a: "in_e s \<noteq> in_w s \<and> ibuf s ! (unat (in_e s - 1) mod INPUT_BUF) \<noteq> 10" "consputc BACKSPACE (s\<lparr>in_e := in_e s - 1\<rparr>) = Inr s1"
  have "in_e s1 - in_w s1 = in_e s - in_w s - 1" using consputc_input [OF a(2)] by simp
  moreover have "in_e s - in_w s \<noteq> 0" using a(1) by simp
  ultimately show "(s1, s) \<in> measure (\<lambda>s. unat (in_e s - in_w s))" by (simp add: unat_minus_1 unat_gt_0)
qed simp

declare kill_line.simps [simp del]

definition wakeup_cons :: "u32 \<Rightarrow> 'k cons \<Rightarrow> 'k cons res" where
  "wakeup_cons ra = wakeup_with wakeup1 (AddrChan ra)"

text \<open>The \<open>switch\<close> of \<open>consoleintr\<close> over a character.  Control-P only asks for a listing of the processes, which is printed at the end.\<close>

definition cons_char :: "u32 \<Rightarrow> int \<Rightarrow> 'k cons \<Rightarrow> 'k cons res" where
  "cons_char ra c s =
     (if c = 16 then Inr s
      else if c = 21 then kill_line s
      else if c = 8 \<or> c = 127 then (if in_e s \<noteq> in_w s then consputc BACKSPACE (s\<lparr>in_e := in_e s - 1\<rparr>) else Inr s)
      else if c \<noteq> 0 \<and> in_e s - in_r s < of_nat INPUT_BUF
      then let c1 = (if c = 13 then 10 else c);
               s1 = s\<lparr>ibuf := (ibuf s)[unat (in_e s) mod INPUT_BUF := word_of_int c1], in_e := in_e s + 1\<rparr>
           in rbind (consputc c1 s1) (\<lambda>s2.
              if c1 = 10 \<or> c1 = 4 \<or> in_e s2 = in_r s2 + of_nat INPUT_BUF then wakeup_cons ra (s2\<lparr>in_w := in_e s2\<rparr>) else Inr s2)
      else Inr s)"

text \<open>The characters \<open>getc\<close> gives; the loop ends at the first negative one or when there are no more.\<close>

fun cons_loop :: "u32 \<Rightarrow> int list \<Rightarrow> 'k cons \<Rightarrow> 'k cons res" where
  "cons_loop ra [] s = Inr s"
| "cons_loop ra (c # cs) s = (if c < 0 then Inr s else rbind (cons_char ra c s) (cons_loop ra cs))"

definition consoleintr :: "nat \<Rightarrow> u32 \<Rightarrow> int list \<Rightarrow> 'k cons \<Rightarrow> 'k cons res" where
  "consoleintr cl ra cs s = rbind (lock_acquire cl s) (\<lambda>s1. rbind (cons_loop ra cs s1) (lock_release cl))"

text \<open>A read returns the bytes it has stored at \<open>dst\<close>, returns -1, or goes to sleep with the bytes it has so far.\<close>

datatype cread = Done "u8 list" | Failed | Waits "u8 list"

function read_chars :: "nat \<Rightarrow> u32 \<Rightarrow> nat \<Rightarrow> nat \<Rightarrow> u8 list \<Rightarrow> 'k cons \<Rightarrow> (cread \<times> 'k cons) res" where
  "read_chars cl ra target n out s =
     (if 0 < n
      then if in_r s = in_w s
           then case curproc s of None \<Rightarrow> Inl ''null pointer''
                | Some p \<Rightarrow>
                    if killed (getp s p) then rbind (lock_release cl s) (\<lambda>s1. Inr (Failed, s1))
                    else rbind (sleep (AddrChan ra) (OtherLock cl) s) (\<lambda>s1. Inr (Waits out, s1))
           else let c = ibuf s ! (unat (in_r s) mod INPUT_BUF); s1 = s\<lparr>in_r := in_r s + 1\<rparr>
                in if c = 4 then rbind (lock_release cl (if n < target then s1\<lparr>in_r := in_r s1 - 1\<rparr> else s1)) (\<lambda>s2. Inr (Done out, s2))
                   else if c = 10 then rbind (lock_release cl s1) (\<lambda>s2. Inr (Done (out @ [c]), s2))
                   else read_chars cl ra target (n - 1) (out @ [c]) s1
      else rbind (lock_release cl s) (\<lambda>s1. Inr (Done out, s1)))"
  by pat_completeness auto
termination by (relation "measure (\<lambda>(cl, ra, target, n, out, s). n)") auto

declare read_chars.simps [simp del]

text \<open>\<open>iul\<close> and \<open>il\<close> unlock and lock the inode of the console.\<close>

definition consoleread :: "nat \<Rightarrow> u32 \<Rightarrow> ('k \<Rightarrow> 'k res) \<Rightarrow> ('k \<Rightarrow> 'k res) \<Rightarrow> int \<Rightarrow> 'k cons \<Rightarrow> (cread \<times> 'k cons) res" where
  "consoleread cl ra iul il n s =
     rbind (with_k iul s) (\<lambda>s1. rbind (lock_acquire cl s1) (\<lambda>s2. rbind (read_chars cl ra (nat n) (nat n) [] s2) (\<lambda>(r, s3).
       case r of Waits out \<Rightarrow> Inr (r, s3) | _ \<Rightarrow> rbind (with_k il s3) (\<lambda>s4. Inr (r, s4)))))"

definition consoleread_resume ::
  "nat \<Rightarrow> u32 \<Rightarrow> ('k \<Rightarrow> 'k res) \<Rightarrow> int \<Rightarrow> u8 list \<Rightarrow> bool \<Rightarrow> 'k cons \<Rightarrow> (cread \<times> 'k cons) res" where
  "consoleread_resume cl ra il n out saved s =
     rbind (sleep_resume saved (OtherLock cl) s) (\<lambda>s1. rbind (read_chars cl ra (nat n) (nat n - length out) out s1) (\<lambda>(r, s2).
       case r of Waits out \<Rightarrow> Inr (r, s2) | _ \<Rightarrow> rbind (with_k il s2) (\<lambda>s3. Inr (r, s3))))"

fun put_chars :: "u8 list \<Rightarrow> 'k cons \<Rightarrow> 'k cons res" where
  "put_chars [] s = Inr s"
| "put_chars (c # cs) s = rbind (consputc (uint c) s) (put_chars cs)"

definition consolewrite :: "nat \<Rightarrow> ('k \<Rightarrow> 'k res) \<Rightarrow> ('k \<Rightarrow> 'k res) \<Rightarrow> u8 list \<Rightarrow> 'k cons \<Rightarrow> (int \<times> 'k cons) res" where
  "consolewrite cl iul il b s =
     rbind (with_k iul s) (\<lambda>s1. rbind (lock_acquire cl s1) (\<lambda>s2. rbind (put_chars b s2) (\<lambda>s3.
     rbind (lock_release cl s3) (\<lambda>s4. rbind (with_k il s4) (\<lambda>s5. Inr (int (length b), s5))))))"

end
