(* ===== verification/XvConsoleProps.thy ===== *)
theory XvConsoleProps
  imports XvConsole XvProcProps
begin

text \<open>
  The console as a line editor.  The bytes between the indices \<open>r\<close> and \<open>w\<close> of the buffer are what readers can have, those between \<open>w\<close> and \<open>e\<close> the line
  that is being edited.  The indices are 32-bit words and wrap around.
\<close>

subsection \<open>The screen\<close>

definition screen_ok :: "'k cons \<Rightarrow> bool" where
  "screen_ok s \<longleftrightarrow> \<not> panicked s \<and> 0 \<le> cpos s \<and> cpos s < 24 * 80"

lemma cgaputc_ok:
  assumes "screen_ok s"
  shows "\<exists>t. cgaputc c s = Inr t \<and> screen_ok t"
proof -
  let ?p = "cpos s"
  let ?q = "if c = 10 then ?p + (80 - ?p mod 80) else if c = BACKSPACE then (if 0 < ?p then ?p - 1 else ?p) else ?p + 1"
  have "?p + (80 - ?p mod 80) = 80 * (?p div 80) + 80" using div_mult_mod_eq [of ?p 80] by linarith
  then have q: "0 \<le> ?q" "?q \<le> 1920" using assms by (auto simp: screen_ok_def)
  have "24 \<le> ?q div 80 \<longleftrightarrow> ?q = 1920" using q by auto
  then show ?thesis using assms q by (auto simp: cgaputc_def Let_def screen_ok_def)
qed

lemma consputc_ok:
  assumes "screen_ok s"
  shows "\<exists>t. consputc c s = Inr t \<and> screen_ok t"
proof -
  have "screen_ok (if c = BACKSPACE then uartputc 8 (uartputc 32 (uartputc 8 s)) else uartputc c s)" using assms by (simp add: screen_ok_def uartputc_eq)
  from cgaputc_ok [OF this, of c] show ?thesis using assms by (simp add: consputc_def screen_ok_def)
qed

subsection \<open>The input buffer\<close>

definition ring :: "u8 list \<Rightarrow> u32 \<Rightarrow> nat \<Rightarrow> u8 list" where
  "ring b r k = map (\<lambda>i. b ! ((unat r + i) mod INPUT_BUF)) [0..<k]"

definition committed :: "'k cons \<Rightarrow> u8 list" where
  "committed s = ring (ibuf s) (in_r s) (unat (in_w s - in_r s))"

definition edited :: "'k cons \<Rightarrow> u8 list" where
  "edited s = ring (ibuf s) (in_w s) (unat (in_e s - in_w s))"

definition input_ok :: "'k cons \<Rightarrow> bool" where
  "input_ok s \<longleftrightarrow> length (ibuf s) = INPUT_BUF \<and> unat (in_w s - in_r s) + unat (in_e s - in_w s) \<le> INPUT_BUF"

lemma length_ring [simp]: "length (ring b r k) = k"
  by (simp add: ring_def)

lemma unat_mod_buf: "unat (a + of_nat k :: u32) mod INPUT_BUF = (unat a + k) mod INPUT_BUF"
proof -
  have "unat (a + of_nat k :: u32) = (unat a + k) mod 4294967296"
    by (simp add: unat_word_ariths unat_of_nat take_bit_nat_def mod_simps)
  then show ?thesis by (simp add: INPUT_BUF_def mod_mod_cancel)
qed

lemma ring_Suc: "ring b r (Suc k) = ring b r k @ [b ! (unat (r + of_nat k) mod INPUT_BUF)]"
  by (simp add: ring_def unat_mod_buf)

lemma ring_Cons: "ring b r (Suc k) = b ! (unat r mod INPUT_BUF) # ring b (r + 1) k"
proof -
  have "(unat (r + 1) + i) mod INPUT_BUF = (unat r + Suc i) mod INPUT_BUF" for i
    using unat_mod_buf [of r 1] mod_add_left_eq [of "unat (r + 1)" INPUT_BUF i] mod_add_left_eq [of "unat r + 1" INPUT_BUF i] by simp
  then show ?thesis unfolding ring_def by (intro nth_equalityI) (auto simp: nth_Cons simp del: upt_Suc split: nat.splits)
qed

lemma ring_append: "ring b r (j + k) = ring b r j @ ring b (r + of_nat j) k"
proof (induction k)
  case (Suc k)
  then show ?case by (simp add: ring_Suc add.assoc)
qed (simp add: ring_def)

lemma ring_upd:
  assumes "length b = INPUT_BUF" "k < INPUT_BUF" "j \<le> k"
  shows "ring (b[unat (r + of_nat k) mod INPUT_BUF := c]) r j = ring b r j"
proof -
  have "(unat r + k) mod INPUT_BUF \<noteq> (unat r + i) mod INPUT_BUF" if "i < j" for i
    using that assms(2,3) mod_add_inj [of "unat r" k INPUT_BUF i] by auto
  then show ?thesis by (simp add: ring_def unat_mod_buf)
qed

text \<open>The whole contents.\<close>

lemma contents_split:
  assumes "input_ok s"
  shows "ring (ibuf s) (in_r s) (unat (in_e s - in_r s)) = committed s @ edited s" "unat (in_e s - in_r s) = length (committed s) + length (edited s)"
proof -
  have w: "in_w s = in_r s + of_nat (unat (in_w s - in_r s))" by simp
  have "in_e s - in_r s = (in_w s - in_r s) + (in_e s - in_w s)" by simp
  also have "unat \<dots> = unat (in_w s - in_r s) + unat (in_e s - in_w s)"
    by (rule unat_add_lem [THEN iffD1]) (use assms in \<open>simp add: input_ok_def INPUT_BUF_def\<close>)
  finally show l: "unat (in_e s - in_r s) = length (committed s) + length (edited s)" by (simp add: committed_def edited_def)
  have "ring (ibuf s) (in_r s) (unat (in_e s - in_r s)) = ring (ibuf s) (in_r s) (unat (in_w s - in_r s)) @ ring (ibuf s) (in_r s + of_nat (unat (in_w s - in_r s))) (unat (in_e s - in_w s))"
    unfolding l ring_append [symmetric] by (simp add: committed_def edited_def)
  then show "ring (ibuf s) (in_r s) (unat (in_e s - in_r s)) = committed s @ edited s" by (simp add: committed_def edited_def)
qed

lemma dist_pred: "(e :: u32) \<noteq> w \<Longrightarrow> unat (e - w) = Suc (unat (e - 1 - w))"
proof -
  assume "e \<noteq> w"
  then have "e - w \<noteq> 0" by simp
  then have "unat (e - w - 1) = unat (e - w) - 1" "0 < unat (e - w)" by (simp_all add: unat_minus_1 unat_gt_0)
  moreover have "e - w - 1 = e - 1 - w" by simp
  ultimately show ?thesis by simp
qed

lemma rub_out:
  assumes "input_ok s" "in_e s \<noteq> in_w s"
  defines "t \<equiv> s\<lparr>in_e := in_e s - 1\<rparr>"
  shows "input_ok t" "committed t = committed s" "edited s = edited t @ [ibuf s ! (unat (in_e s - 1) mod INPUT_BUF)]"
proof -
  note d = dist_pred [OF assms(2)]
  have "in_w s + of_nat (unat (in_e s - 1 - in_w s)) = in_e s - 1" by simp
  then show "edited s = edited t @ [ibuf s ! (unat (in_e s - 1) mod INPUT_BUF)]" unfolding edited_def d ring_Suc by (simp add: t_def)
  show "input_ok t" "committed t = committed s" using assms(1) d by (simp_all add: t_def input_ok_def committed_def)
qed

lemma put_in:
  fixes c :: u8
  assumes "input_ok s" "length (committed s) + length (edited s) < INPUT_BUF"
  defines "t \<equiv> s\<lparr>ibuf := (ibuf s)[unat (in_e s) mod INPUT_BUF := c], in_e := in_e s + 1\<rparr>"
  shows "input_ok t" "committed t = committed s" "edited t = edited s @ [c]"
proof -
  let ?b = "(ibuf s)[unat (in_e s) mod INPUT_BUF := c]" and ?k = "unat (in_e s - in_r s)" and ?j = "unat (in_e s - in_w s)"
  have e: "in_r s + of_nat ?k = in_e s" "in_w s + of_nat ?j = in_e s" by simp_all
  have k: "?k < INPUT_BUF" "length (committed s) \<le> ?k" using contents_split(2) [OF assms(1)] assms(2) by simp_all
  have j: "?j < INPUT_BUF" using assms(2) by (simp add: edited_def)
  have b: "length (ibuf s) = INPUT_BUF" using assms(1) by (simp add: input_ok_def)
  have "in_e s + 1 - in_w s = of_nat (Suc ?j)" by simp
  then have d: "unat (in_e s + 1 - in_w s) = Suc ?j" using j by (simp add: unat_of_nat take_bit_nat_eq_self INPUT_BUF_def del: of_nat_Suc)
  show "input_ok t" using assms(1,2) d by (simp add: t_def input_ok_def committed_def edited_def)
  show "committed t = committed s" using ring_upd [OF b k(1), of "unat (in_w s - in_r s)" "in_r s" c] k(2) unfolding e by (simp add: t_def committed_def)
  have "ring ?b (in_w s) (Suc ?j) = ring (ibuf s) (in_w s) ?j @ [c]"
    using ring_upd [OF b j order.refl, of "in_w s" c] b unfolding e ring_Suc by (simp add: INPUT_BUF_def)
  then show "edited t = edited s @ [c]" by (simp add: t_def edited_def d)
qed

lemma commit_line:
  assumes "input_ok s"
  defines "t \<equiv> s\<lparr>in_w := in_e s\<rparr>"
  shows "input_ok t" "committed t = committed s @ edited s" "edited t = []"
proof -
  note c = contents_split [OF assms(1)]
  have "unat (in_w s - in_r s) + unat (in_e s - in_w s) = unat (in_e s - in_r s)" using c(2) by (simp add: committed_def edited_def)
  then show "input_ok t" using assms(1) by (simp add: t_def input_ok_def)
  show "committed t = committed s @ edited s" using c(1) by (simp add: t_def committed_def)
  show "edited t = []" by (simp add: t_def edited_def ring_def)
qed

lemma take_out:
  assumes "input_ok s" "in_r s \<noteq> in_w s"
  defines "t \<equiv> s\<lparr>in_r := in_r s + 1\<rparr>"
  shows "input_ok t" "committed s = ibuf s ! (unat (in_r s) mod INPUT_BUF) # committed t" "edited t = edited s"
proof -
  have d: "unat (in_w s - in_r s) = Suc (unat (in_w s - (in_r s + 1)))" using dist_pred [of "in_w s" "in_r s"] assms(2) by (simp add: algebra_simps)
  then show "committed s = ibuf s ! (unat (in_r s) mod INPUT_BUF) # committed t" unfolding committed_def d ring_Cons by (simp add: t_def)
  show "input_ok t" "edited t = edited s" using assms(1) d by (simp_all add: t_def input_ok_def edited_def)
qed

lemma no_input: "in_r s = in_w s \<longleftrightarrow> committed s = []"
  by (auto simp: committed_def ring_def unat_eq_0)

lemma no_line: "in_e s = in_w s \<longleftrightarrow> edited s = []"
  by (auto simp: edited_def ring_def unat_eq_0)

lemma full_buffer:
  assumes "input_ok s"
  shows "in_e s - in_r s < of_nat INPUT_BUF \<longleftrightarrow> length (committed s) + length (edited s) < INPUT_BUF"
    "in_e s = in_r s + of_nat INPUT_BUF \<longleftrightarrow> length (committed s) + length (edited s) = INPUT_BUF"
proof -
  note c = contents_split(2) [OF assms, symmetric]
  show "in_e s - in_r s < of_nat INPUT_BUF \<longleftrightarrow> length (committed s) + length (edited s) < INPUT_BUF" unfolding c word_less_nat_alt by (simp add: INPUT_BUF_def)
  have u: "unat (of_nat INPUT_BUF :: u32) = INPUT_BUF" by (simp add: INPUT_BUF_def)
  have "in_e s = in_r s + of_nat INPUT_BUF \<longleftrightarrow> in_e s - in_r s = of_nat INPUT_BUF" by (simp only: diff_eq_eq add.commute)
  also have "\<dots> \<longleftrightarrow> unat (in_e s - in_r s) = INPUT_BUF" by (simp only: word_unat_eq_iff u)
  finally show "in_e s = in_r s + of_nat INPUT_BUF \<longleftrightarrow> length (committed s) + length (edited s) = INPUT_BUF" unfolding c .
qed

subsection \<open>A line editor\<close>

text \<open>The effect of a key on the bytes that can be read and the line that is edited.\<close>

fun edit :: "int \<Rightarrow> u8 list \<times> u8 list \<Rightarrow> u8 list \<times> u8 list" where
  "edit c (q, l) =
     (if c = 16 then (q, l)
      else if c = 21 then (q, rev (dropWhile (\<lambda>x. x \<noteq> 10) (rev l)))
      else if c = 8 \<or> c = 127 then (q, butlast l)
      else if c = 0 \<or> INPUT_BUF \<le> length q + length l then (q, l)
      else let c1 = (if c = 13 then 10 else c); l1 = l @ [word_of_int c1]
           in if c1 = 10 \<or> c1 = 4 \<or> length q + length l1 = INPUT_BUF then (q @ l1, []) else (q, l1))"

fun edits :: "int list \<Rightarrow> u8 list \<times> u8 list \<Rightarrow> u8 list \<times> u8 list" where
  "edits [] v = v"
| "edits (c # cs) v = (if c < 0 then v else edits cs (edit c v))"

definition view :: "'k cons \<Rightarrow> u8 list \<times> u8 list" where
  "view s = (committed s, edited s)"

text \<open>The locks while \<open>cons.lock\<close> is held, and what the operations keep of the rest of the state.\<close>

definition con_held :: "nat \<Rightarrow> 'k cons \<Rightarrow> bool" where
  "con_held cl s \<longleftrightarrow> olocks s cl \<and> \<not> pt_lock s \<and> 1 \<le> ncli (cpu s) \<and> \<not> IF (cpu s) \<and> input_ok s \<and> screen_ok s"

definition con_kept :: "'k cons \<Rightarrow> 'k cons \<Rightarrow> bool" where
  "con_kept s t \<longleftrightarrow> olocks t = olocks s \<and> ncli (cpu t) = ncli (cpu s) \<and> kst t = kst s"

lemma con_kept_trans: "con_kept s t \<Longrightarrow> con_kept t u \<Longrightarrow> con_kept s u"
  by (simp add: con_kept_def)

lemma con_kept_put: "consputc c s = Inr t \<Longrightarrow> con_kept s t"
  using consputc_shape [of c s t] by (auto simp: con_kept_def)

lemma view_put: "consputc c s = Inr t \<Longrightarrow> view t = view s"
  using consputc_input [of c s t] by (simp add: view_def committed_def edited_def)

lemma held_put:
  assumes "con_held cl s"
  shows "\<exists>t. consputc c s = Inr t \<and> con_held cl t \<and> view t = view s \<and> con_kept s t"
proof -
  obtain t where t: "consputc c s = Inr t" "screen_ok t" using consputc_ok assms unfolding con_held_def by blast
  then have "con_held cl t" using assms consputc_input [OF t(1)] by (simp add: con_held_def input_ok_def)
  then show ?thesis using t(1) view_put con_kept_put by blast
qed

lemma kill_line_ok:
  assumes "con_held cl s"
  shows "\<exists>t. kill_line s = Inr t \<and> con_held cl t \<and> view t = edit 21 (view s) \<and> con_kept s t"
  using assms
proof (induction s rule: kill_line.induct)
  case (1 s)
  show ?case
  proof (cases "in_e s \<noteq> in_w s \<and> ibuf s ! (unat (in_e s - 1) mod INPUT_BUF) \<noteq> 10")
    case True
    let ?s = "s\<lparr>in_e := in_e s - 1\<rparr>"
    have ok: "input_ok s" using 1(2) by (simp add: con_held_def)
    note r = rub_out [OF ok conjunct1 [OF True]]
    have "con_held cl ?s" using 1(2) r(1) by (simp add: con_held_def screen_ok_def)
    then obtain u where u: "consputc BACKSPACE ?s = Inr u" "con_held cl u" "view u = view ?s" "con_kept ?s u" using held_put by blast
    obtain t where t: "kill_line u = Inr t" "con_held cl t" "view t = edit 21 (view u)" "con_kept u t" using 1(1) [OF True u(1,2)] by blast
    have "kill_line s = Inr t" using True u(1) t(1) by (subst kill_line.simps) simp
    moreover have "edit 21 (view u) = edit 21 (view s)" using r(2,3) True unfolding u(3) by (simp add: view_def)
    moreover have "con_kept s t" using con_kept_trans [OF u(4) t(4)] by (simp add: con_kept_def)
    ultimately show ?thesis using t by simp
  next
    case False
    then have "kill_line s = Inr s" by (subst kill_line.simps) auto
    moreover have "edit 21 (view s) = view s"
    proof (cases "in_e s = in_w s")
      case True
      then show ?thesis using no_line [of s] by (simp add: view_def)
    next
      case n: False
      then show ?thesis using False rub_out(3) [OF _ n] 1(2) by (simp add: view_def con_held_def)
    qed
    ultimately show ?thesis using 1(2) by (simp add: con_kept_def)
  qed
qed

lemma input_more:
  assumes "ptable.more t = ptable.more (s :: 'k cons)"
  shows "view t = view s" "input_ok t = input_ok s" "screen_ok t = screen_ok s"
proof -
  have "ibuf t = ibuf s \<and> in_r t = in_r s \<and> in_w t = in_w s \<and> in_e t = in_e s \<and> cpos t = cpos s \<and> panicked t = panicked s"
    using assms by (cases s, cases t) simp
  then show "view t = view s" "input_ok t = input_ok s" "screen_ok t = screen_ok s"
    by (simp_all add: view_def committed_def edited_def input_ok_def screen_ok_def)
qed

lemma wakeup1_loop_kst: "kst (wakeup1_loop ch ps s) = kst s"
  by (induction ch ps s rule: wakeup1_loop.induct) (auto simp: setp_def)

lemma held_wakeup:
  assumes "con_held cl s"
  shows "\<exists>t. wakeup_cons ra s = Inr t \<and> con_held cl t \<and> view t = view s \<and> con_kept s t"
proof -
  let ?u = "wakeup1_loop (AddrChan ra) [0..<NPROC] (s\<lparr>pt_lock := True, cpu := push_cpu (cpu s)\<rparr>)"
  let ?t = "?u\<lparr>pt_lock := False, cpu := pop_cpu (cpu ?u)\<rparr>"
  note w = wakeup1_loop_fields [of "AddrChan ra" "[0..<NPROC]" "s\<lparr>pt_lock := True, cpu := push_cpu (cpu s)\<rparr>"]
  have "wakeup_cons ra s = Inr ?t"
    using assms w by (simp add: wakeup_cons_def wakeup_with_def wakeup1_def pt_acquire_def pt_release_def con_held_def cpu_pop_def push_cpu_def)
  moreover have m: "ptable.more ?t = ptable.more s" using more_wakeup1_loop [of "AddrChan ra" "[0..<NPROC]" "s\<lparr>pt_lock := True, cpu := push_cpu (cpu s)\<rparr>"] by simp
  moreover have "con_held cl ?t" using assms w input_more(2,3) [OF m] by (simp add: con_held_def push_cpu_def pop_cpu_def)
  moreover have "con_kept s ?t" using w by (simp add: con_kept_def push_cpu_def pop_cpu_def wakeup1_loop_kst)
  ultimately show ?thesis using input_more(1) [OF m] by blast
qed

lemma cons_char_ok:
  assumes "con_held cl s"
  shows "\<exists>t. cons_char ra c s = Inr t \<and> con_held cl t \<and> view t = edit c (view s) \<and> con_kept s t"
proof -
  have ok: "input_ok s" using assms by (simp add: con_held_def)
  consider "c = 16" | "c = 21" | "c = 8 \<or> c = 127" "in_e s = in_w s" | "c = 8 \<or> c = 127" "in_e s \<noteq> in_w s" |
    "c \<notin> {16, 21, 8, 127}" "c = 0 \<or> \<not> in_e s - in_r s < of_nat INPUT_BUF" | "c \<notin> {16, 21, 8, 127, 0}" "in_e s - in_r s < of_nat INPUT_BUF" by auto
  then show ?thesis
  proof cases
    case 1
    then show ?thesis using assms by (simp add: cons_char_def con_kept_def view_def)
  next
    case 2
    then show ?thesis using kill_line_ok [OF assms] by (simp add: cons_char_def)
  next
    case 3
    then have "edit c (view s) = view s" "cons_char ra c s = Inr s" using no_line [of s] by (auto simp: view_def cons_char_def)
    then show ?thesis using assms by (simp add: con_kept_def)
  next
    case 4
    let ?s = "s\<lparr>in_e := in_e s - 1\<rparr>"
    note r = rub_out [OF ok 4(2)]
    have "con_held cl ?s" using assms r(1) by (simp add: con_held_def screen_ok_def)
    then obtain t where t: "consputc BACKSPACE ?s = Inr t" "con_held cl t" "view t = view ?s" "con_kept ?s t" using held_put by blast
    have "view ?s = edit c (view s)" "cons_char ra c s = Inr t" using r(2,3) 4 t(1) by (auto simp: view_def cons_char_def)
    then show ?thesis using t by (simp add: con_kept_def)
  next
    case 5
    then have "edit c (view s) = view s" using full_buffer(1) [OF ok] by (auto simp: view_def)
    moreover have "cons_char ra c s = Inr s" using 5 by (auto simp: cons_char_def)
    ultimately show ?thesis using assms by (simp add: con_kept_def)
  next
    case 6
    define c1 where "c1 = (if c = 13 then 10 else c)"
    define s1 where "s1 = s\<lparr>ibuf := (ibuf s)[unat (in_e s) mod INPUT_BUF := word_of_int c1], in_e := in_e s + 1\<rparr>"
    have room: "length (committed s) + length (edited s) < INPUT_BUF" using 6(2) full_buffer(1) [OF ok] by simp
    note p = put_in [OF ok room, of "word_of_int c1", folded s1_def]
    have h1: "con_held cl s1" "con_kept s s1" using assms p(1) by (simp_all add: con_held_def screen_ok_def s1_def con_kept_def)
    obtain s2 where s2: "consputc c1 s1 = Inr s2" "con_held cl s2" "view s2 = view s1" "con_kept s1 s2" using held_put [OF h1(1)] by blast
    have ok2: "input_ok s2" using s2(2) by (simp add: con_held_def)
    have v2: "committed s2 = committed s" "edited s2 = edited s @ [word_of_int c1]" using s2(3) p by (simp_all add: view_def)
    have full: "in_e s2 = in_r s2 + of_nat INPUT_BUF \<longleftrightarrow> length (committed s) + length (edited s @ [word_of_int c1]) = INPUT_BUF"
      using full_buffer(2) [OF ok2] v2 by simp
    have ch: "cons_char ra c s = (if c1 = 10 \<or> c1 = 4 \<or> in_e s2 = in_r s2 + of_nat INPUT_BUF then wakeup_cons ra (s2\<lparr>in_w := in_e s2\<rparr>) else Inr s2)"
      using 6 s2(1) by (simp add: cons_char_def c1_def [symmetric] s1_def [symmetric] Let_def)
    have ed: "edit c (view s) = (if c1 = 10 \<or> c1 = 4 \<or> in_e s2 = in_r s2 + of_nat INPUT_BUF then (committed s @ edited s @ [word_of_int c1], []) else (committed s, edited s @ [word_of_int c1]))"
      using 6(1) room unfolding full by (simp add: view_def c1_def [symmetric] Let_def)
    show ?thesis
    proof (cases "c1 = 10 \<or> c1 = 4 \<or> in_e s2 = in_r s2 + of_nat INPUT_BUF")
      case True
      note w = commit_line [OF ok2]
      have "con_held cl (s2\<lparr>in_w := in_e s2\<rparr>)" using s2(2) w(1) by (simp add: con_held_def screen_ok_def)
      from held_wakeup [OF this, of ra] obtain t where "wakeup_cons ra (s2\<lparr>in_w := in_e s2\<rparr>) = Inr t" "con_held cl t" "view t = view (s2\<lparr>in_w := in_e s2\<rparr>)" "con_kept (s2\<lparr>in_w := in_e s2\<rparr>) t" by blast
      then show ?thesis using True ch ed w(2,3) v2 h1(2) s2(4) by (auto simp: view_def con_kept_def)
    next
      case False
      then show ?thesis using ch ed s2(2) v2 con_kept_trans [OF h1(2) s2(4)] by (simp add: view_def)
    qed
  qed
qed

lemma cons_loop_ok:
  assumes "con_held cl s"
  shows "\<exists>t. cons_loop ra cs s = Inr t \<and> con_held cl t \<and> view t = edits cs (view s) \<and> con_kept s t"
  using assms
proof (induction cs arbitrary: s)
  case (Cons c cs)
  obtain u where u: "cons_char ra c s = Inr u" "con_held cl u" "view u = edit c (view s)" "con_kept s u" using cons_char_ok [OF Cons.prems] by blast
  obtain t where t: "cons_loop ra cs u = Inr t" "con_held cl t" "view t = edits cs (view u)" "con_kept u t" using Cons.IH [OF u(2)] by blast
  show ?case using Cons.prems u t con_kept_trans [OF u(4) t(4)] by (cases "c < 0") (auto simp: con_kept_def)
qed (simp add: con_kept_def)

subsection \<open>Reading\<close>

text \<open>What a read of \<open>n\<close> bytes takes from the bytes that can be read, and what it leaves: up to the end of a line, or up to a Control-D, which stays there unless it is the first byte
  (\<open>f\<close>).  \<open>None\<close> when it has to wait.\<close>

fun take_line :: "nat \<Rightarrow> bool \<Rightarrow> u8 list \<Rightarrow> (u8 list \<times> u8 list) option" where
  "take_line 0 f q = Some ([], q)"
| "take_line (Suc n) f [] = None"
| "take_line (Suc n) f (c # q) =
     (if c = 4 then Some ([], if f then q else c # q)
      else if c = 10 then Some ([c], q)
      else map_option (\<lambda>(xs, rest). (c # xs, rest)) (take_line n False q))"

lemma held_release:
  assumes "con_held cl s"
  shows "\<exists>t. lock_release cl s = Inr t \<and> input_ok t \<and> screen_ok t \<and> view t = view s \<and> \<not> pt_lock t \<and> \<not> olocks t cl \<and> ncli (cpu t) = ncli (cpu s) - 1 \<and> kst t = kst s"
  using assms by (auto simp: con_held_def lock_release_def cpu_pop_def pop_cpu_def input_ok_def screen_ok_def view_def committed_def edited_def)

lemma read_chars_ok:
  assumes "con_held cl s" "n \<le> target" "take_line n (n = target) (committed s) = Some (xs, rest)"
  shows "\<exists>t. read_chars cl ra target n out s = Inr (Done (out @ xs), t) \<and> view t = (rest, edited s) \<and> input_ok t \<and> screen_ok t \<and> \<not> olocks t cl \<and> kst t = kst s"
  using assms
proof (induction n arbitrary: s out xs)
  case 0
  then show ?case using held_release [OF 0(1)] by (subst read_chars.simps) (auto simp: view_def)
next
  case (Suc n)
  let ?c = "ibuf s ! (unat (in_r s) mod INPUT_BUF)" and ?s = "s\<lparr>in_r := in_r s + 1\<rparr>"
  have ok: "input_ok s" using Suc.prems(1) by (simp add: con_held_def)
  have ne: "in_r s \<noteq> in_w s" using Suc.prems(3) no_input [of s] by (cases "committed s") auto
  note o = take_out [OF ok ne]
  have h: "con_held cl ?s" using Suc.prems(1) o(1) by (simp add: con_held_def screen_ok_def)
  consider "?c = 4" "Suc n = target" | "?c = 4" "Suc n < target" | "?c = 10" | "?c \<noteq> 4" "?c \<noteq> 10" using Suc.prems(2) by linarith
  then show ?case
  proof cases
    case 1
    then show ?thesis using Suc.prems(3) held_release [OF h] ne o(2,3) by (subst read_chars.simps) (auto simp: view_def Let_def)
  next
    case 2
    then show ?thesis using Suc.prems(3) held_release [OF Suc.prems(1)] ne o(2,3) by (subst read_chars.simps) (auto simp: view_def Let_def)
  next
    case 3
    then show ?thesis using Suc.prems(3) held_release [OF h] ne o(2,3) by (subst read_chars.simps) (auto simp: view_def Let_def)
  next
    case 4
    obtain ys where ys: "take_line n False (committed ?s) = Some (ys, rest)" "xs = ?c # ys" using Suc.prems(3) 4 unfolding o(2) by (auto simp: map_option_eq_Some)
    then have "take_line n (n = target) (committed ?s) = Some (ys, rest)" using Suc.prems(2) by simp
    from Suc.IH [OF h _ this, of "out @ [?c]"] Suc.prems(2) obtain t where "read_chars cl ra target n (out @ [?c]) ?s = Inr (Done ((out @ [?c]) @ ys), t)"
      "view t = (rest, edited ?s)" "input_ok t" "screen_ok t" "\<not> olocks t cl" "kst t = kst ?s" by auto
    then show ?thesis using ne 4 ys(2) o(3) by (subst read_chars.simps) (simp add: Let_def)
  qed
qed

lemma acquire_held:
  assumes "input_ok s" "screen_ok s" "\<not> pt_lock s" "0 \<le> ncli (cpu s)" "\<not> olocks s cl"
  shows "\<exists>t. lock_acquire cl s = Inr t \<and> con_held cl t \<and> view t = view s \<and> kst t = kst s \<and> ncli (cpu t) = ncli (cpu s) + 1"
  using assms by (auto simp: lock_acquire_def con_held_def push_cpu_def input_ok_def screen_ok_def view_def committed_def edited_def)

lemma consoleread_ok:
  assumes "input_ok s" "screen_ok s" "\<not> pt_lock s" "0 \<le> ncli (cpu s)" "\<not> olocks s cl" "take_line (nat n) True (committed s) = Some (xs, rest)"
    "iul (kst s) = Inr k1" "il k1 = Inr k2"
  shows "\<exists>t. consoleread cl ra iul il n s = Inr (Done xs, t) \<and> view t = (rest, edited s) \<and> input_ok t \<and> screen_ok t \<and> kst t = k2"
proof -
  define s1 where "s1 = s\<lparr>kst := k1\<rparr>"
  have s1: "input_ok s1" "screen_ok s1" "\<not> pt_lock s1" "0 \<le> ncli (cpu s1)" "\<not> olocks s1 cl" "view s1 = view s" "kst s1 = k1"
    using assms(1-5) by (simp_all add: s1_def input_ok_def screen_ok_def view_def committed_def edited_def)
  obtain s2 where s2: "lock_acquire cl s1 = Inr s2" "con_held cl s2" "view s2 = view s" "kst s2 = k1" using acquire_held [OF s1(1-5)] s1(6,7) by auto
  have "take_line (nat n) (nat n = nat n) (committed s2) = Some (xs, rest)" using assms(6) s2(3) by (simp add: view_def)
  from read_chars_ok [OF s2(2) order.refl this, of ra "[]"] obtain u where u: "read_chars cl ra (nat n) (nat n) [] s2 = Inr (Done xs, u)"
    "view u = (rest, edited s2)" "input_ok u" "screen_ok u" "kst u = k1" using s2(4) by auto
  have "consoleread cl ra iul il n s = Inr (Done xs, u\<lparr>kst := k2\<rparr>)"
    using assms(7,8) s2(1) u(1,5) by (simp add: consoleread_def with_k_def s1_def)
  then show ?thesis using u(2-4) s2(3) by (auto simp: view_def committed_def edited_def input_ok_def screen_ok_def)
qed

text \<open>C28: the console is a line editor.  For every sequence of keys \<open>consoleintr\<close> returns, with the bytes that can be read and the line that is edited as \<open>edits\<close> makes
  them: characters are added while there is room, backspace takes back one and Control-U the line, and the end of a line, Control-D or a full buffer makes the line readable.
  A read then takes from the readable bytes what \<open>take_line\<close> says and leaves the rest.  The indices may wrap around, and the cursor stays on the screen.\<close>

theorem console_lines:
  assumes "input_ok s" "screen_ok s" "\<not> pt_lock s" "0 \<le> ncli (cpu s)" "\<not> olocks s cl"
  shows "\<exists>t. consoleintr cl ra cs s = Inr t \<and> input_ok t \<and> screen_ok t \<and> view t = edits cs (view s) \<and>
    (\<forall>n xs rest k1 k2. take_line (nat n) True (fst (view t)) = Some (xs, rest) \<longrightarrow> iul (kst t) = Inr k1 \<longrightarrow> il k1 = Inr k2 \<longrightarrow>
      (\<exists>u. consoleread cl ra iul il n t = Inr (Done xs, u) \<and> view u = (rest, snd (view t)) \<and> input_ok u \<and> screen_ok u))"
proof -
  obtain s1 where s1: "lock_acquire cl s = Inr s1" "con_held cl s1" "view s1 = view s" "ncli (cpu s1) = ncli (cpu s) + 1" using acquire_held [OF assms] by blast
  obtain s2 where s2: "cons_loop ra cs s1 = Inr s2" "con_held cl s2" "view s2 = edits cs (view s1)" "con_kept s1 s2" using cons_loop_ok [OF s1(2)] by blast
  obtain t where t: "lock_release cl s2 = Inr t" "input_ok t" "screen_ok t" "view t = view s2" "\<not> pt_lock t" "\<not> olocks t cl" "ncli (cpu t) = ncli (cpu s2) - 1"
    using held_release [OF s2(2)] by blast
  have n: "0 \<le> ncli (cpu t)" using t(7) s2(4) s1(4) assms(4) by (simp add: con_kept_def)
  have "consoleintr cl ra cs s = Inr t" using s1(1) s2(1) t(1) by (simp add: consoleintr_def)
  moreover have "\<exists>u. consoleread cl ra iul il m t = Inr (Done xs, u) \<and> view u = (rest, snd (view t)) \<and> input_ok u \<and> screen_ok u"
    if "take_line (nat m) True (fst (view t)) = Some (xs, rest)" "iul (kst t) = Inr k1" "il k1 = Inr k2" for m xs rest k1 k2
  proof -
    have "take_line (nat m) True (committed t) = Some (xs, rest)" using that(1) by (simp add: view_def)
    from consoleread_ok [where iul = iul and il = il, OF t(2,3,5) n t(6) this that(2,3), of ra] show ?thesis by (auto simp: view_def)
  qed
  ultimately show ?thesis using t(2-4) s2(3) s1(3) by auto
qed

text \<open>A console on a machine with one running process, near the point where the indices wrap around.\<close>

definition demo_cons :: "unit cons" where
  "demo_cons = ptable.extend unit_run \<lparr>ibuf = replicate 128 0, in_r = 0xFFFFFFFE, in_w = 0xFFFFFFFE, in_e = 0xFFFFFFFE, crt = (\<lambda>_. 0), cpos = 1919, serial = [], uart = True, panicked = False\<rparr>"

theorem console_lines_witness:
  "\<exists>t u. consoleintr 7 8 [108, 120, 8, 115, 13, 104, 105] demo_cons = Inr t \<and> view t = ([108, 115, 10], [104, 105]) \<and>
     consoleread 7 8 Inr Inr 100 t = Inr (Done [108, 115, 10], u) \<and> view u = ([], [104, 105])"
proof -
  have s: "input_ok demo_cons" "screen_ok demo_cons" "\<not> pt_lock demo_cons" "0 \<le> ncli (cpu demo_cons)" "\<not> olocks demo_cons 7" "view demo_cons = ([], [])"
    by (simp_all add: demo_cons_def unit_run_def unit_run_with_def unit_boot_def ptable.defs input_ok_def screen_ok_def INPUT_BUF_def view_def committed_def edited_def ring_def)
  have e: "edits [108, 120, 8, 115, 13, 104, 105] ([], []) = ([108, 115, 10], [104, 105])" by (simp add: INPUT_BUF_def)
  have "nat 100 = Suc (Suc (Suc 97))" by simp
  then have l: "take_line (nat 100) True [108, 115, 10] = Some ([108, 115, 10], [])" by (simp only: take_line.simps) simp
  from console_lines [OF s(1-5), of 8 "[108, 120, 8, 115, 13, 104, 105]" Inr Inr] obtain t where t: "consoleintr 7 8 [108, 120, 8, 115, 13, 104, 105] demo_cons = Inr t"
    "view t = ([108, 115, 10], [104, 105])"
    "\<forall>n xs rest. take_line (nat n) True (fst (view t)) = Some (xs, rest) \<longrightarrow> (\<exists>u. consoleread 7 8 Inr Inr n t = Inr (Done xs, u) \<and> view u = (rest, snd (view t)))"
    unfolding s(6) e by blast
  then show ?thesis using l by (metis fst_conv snd_conv)
qed

end
