(* ===== verification/Spec2Isabelle.thy ===== *)
theory Spec2Isabelle
  imports JosPmapProps XvSpinlock XvKalloc XvProcProps XvMlfqBound XvMlfqProps XvLottery XvString XvPipe XvLogProps XvFsDir XvFdProps XvPrintf XvUmalloc XvShTrip XvSyscallProps XvConsoleProps
begin

text \<open>
  Verification of the two kernels of the repository: JOS, a teaching kernel whose memory management is the
  third lab (\<^verbatim>\<open>lab-3\<close>), and xv6, a small Unix with the schedulers of the second lab (\<^verbatim>\<open>lab-2\<close>).

  \<^bold>\<open>How the code is modelled.\<close>  Every C function is a function of the state it works on, in the order of the source.
  A \<open>struct\<close> is a record, a pointer into a table is an index, an address is a 32-bit word, and machine integers keep
  their width where they can wrap around.  The state of a component extends the state of the one below it: \<open>bio\<close> (buffer cache and disk),
  \<open>log_st\<close>, \<open>fs_st\<close> and \<open>file_st\<close>; \<open>ptable\<close> (processes), \<open>pipe_st\<close>, \<open>mlfq\<close> and \<open>lottery\<close>.  A panic, a null pointer and a lock taken twice are
  values \<open>Inl\<close> of the result type \<open>res\<close> of the prelude.  A call that has to sleep ends in the model: in the process table and in pipes
  it is split at the switch into the part before and the part after it, and in the file system the outcome \<open>''sleep''\<close> stands for it.

  \<^bold>\<open>Theories.\<close>
  \<^item> \<open>Prelude\<close>: results, linked lists by next pointers, words and searches in arrays.  \<open>Interfaces\<close>: the locales.  A \<open>page_pool\<close> is what both page
    allocators promise (pages handed out differ, none is lost), a \<open>byte_stream\<close> what a pipe promises, a \<open>block_cache\<close> what the buffer
    cache promises to the log and the file system.  Each is interpreted on the model in the theory of the component.
  \<^item> \<open>JosPmap\<close>, \<open>JosMemInit\<close>, \<open>JosPgtable\<close>, \<open>JosPmapProps\<close>: \<^verbatim>\<open>lab-3/kern/pmap.c\<close>.  The page allocator, the boot allocator, page tables as words in
    memory, walking, mapping and unmapping.  The invariant is that the reference count of a page is the number of its mappings; insertion and removal are
    exact updates of the map from virtual pages to entries.
  \<^item> \<open>XvSpinlock\<close> (\<^verbatim>\<open>spinlock.c\<close>): several processors interleaved at each atomic access; mutual exclusion by an invariant of the step relation.
    \<open>XvKalloc\<close> (\<^verbatim>\<open>kalloc.c\<close>): the free list in the free pages.  \<open>XvRand\<close> (\<^verbatim>\<open>rand.c\<close>): the generator and the uniform draw.
  \<^item> \<open>XvProc\<close>, \<open>XvProcInv\<close>, \<open>XvProcProps\<close>: \<^verbatim>\<open>proc_original.c\<close>.  Processes with the round-robin scheduler; the invariant of the table (distinct
    process numbers, live parents, one running process) holds in every reachable state.  \<open>XvMlfq\<close>, \<open>XvMlfqProps\<close>, \<open>XvMlfqBound\<close> and \<open>XvLottery\<close>: the schedulers of
    \<^verbatim>\<open>proc_mlfq_v02.c\<close> and \<^verbatim>\<open>proc_lottery_v02.c\<close>: which process runs, what happens to its queue and budget, the odds of a ticket, and the
    defects of both.
  \<^item> \<open>XvVm\<close>, \<open>XvVmInv\<close>, \<open>XvVmSpace\<close>, \<open>XvVmProps\<close> (\<^verbatim>\<open>vm.c\<close>): the address spaces of processes, as page tables in the pages of the allocator.  \<open>owns\<close> gives the
    page in each role of an address space (directory, table, frame) and \<open>vinv\<close> says that the roles have different pages, none of them free.  \<open>vreach\<close> are the states
    of all address spaces, the kernel and the programs together; there the spaces are disjoint, nothing is lost, and a write of one program is not seen by another.
    \<open>XvVmProc\<close> puts these functions into the process table in place of its services for memory and follows \<open>fork\<close> and \<open>growproc\<close> down to the bytes.
  \<^item> \<open>XvSyscall\<close>, \<open>XvSyscallProps\<close> (\<^verbatim>\<open>syscall.c\<close>, \<^verbatim>\<open>sysproc.c\<close>, \<^verbatim>\<open>trap.c\<close>): the fetching of arguments from user memory, the calls on processes, the dispatcher and the handler of
    traps.  A fetched argument lies in mapped memory of the process, the clock wakes and switches processes, and \<open>getpinfo\<close> of a null pointer leads to a panic.
  \<^item> \<open>XvString\<close> (\<^verbatim>\<open>string.c\<close>) and \<open>XvPrintf\<close> (\<^verbatim>\<open>printf.c\<close>, \<^verbatim>\<open>ulib.c\<close>): byte strings in a memory that wraps around, and printing and reading of numbers.
  \<^item> \<open>XvPipe\<close> (\<^verbatim>\<open>pipe.c\<close>): a ring buffer with counters that wrap, as a stream of bytes under every interleaving.
  \<^item> \<open>XvConsole\<close>, \<open>XvConsoleProps\<close> (\<^verbatim>\<open>console.c\<close>, \<^verbatim>\<open>uart.c\<close>): the line discipline, the screen and reading and writing.  The input buffer with its wrapping indices is a line
    editor: what can be read and what is edited follow the keys, and a read takes a line.
  \<^item> \<open>XvSleeplock\<close>, \<open>XvBio\<close>, \<open>XvLog\<close>, \<open>XvLogProps\<close> (\<^verbatim>\<open>sleeplock.c\<close>, \<^verbatim>\<open>bio.c\<close>, \<^verbatim>\<open>ide.c\<close>, \<^verbatim>\<open>log.c\<close>): the cache with its list in order of use, and the write-ahead log.  The state
    records every write to the disk, so that a crash is a prefix of this record and \<open>replay\<close> is the disk that recovery makes of it.
  \<^item> \<open>XvLayout\<close>, \<open>XvFs\<close>, \<open>XvFsLaws\<close>, \<open>XvFsProps\<close>, \<open>XvFsFile\<close>, \<open>XvFsDir\<close> (\<^verbatim>\<open>fs.h\<close>, \<^verbatim>\<open>fs.c\<close>): the bytes of the disk format, blocks, inodes, file contents,
    directories and paths, inside a transaction.
  \<^item> \<open>XvFcntl\<close>, \<open>XvFile\<close>, \<open>XvFileProps\<close>, \<open>XvSysfile\<close>, \<open>XvFdProps\<close> (\<^verbatim>\<open>fcntl.h\<close>, \<^verbatim>\<open>file.c\<close>, \<^verbatim>\<open>sysfile.c\<close>): open files, descriptors and the system calls on files.  A write to an
    open file is followed from the file table through inode, cache and log to the disk, with every crash in between.
  \<^item> \<open>XvUmalloc\<close> (\<^verbatim>\<open>umalloc.c\<close>): \<open>malloc\<close> and \<open>free\<close> on the circular free list.  The blocks in use never overlap, whatever the sequence of calls.
  \<^item> \<open>XvSh\<close>, \<open>XvShProps\<close>, \<open>XvShTrip\<close> (\<^verbatim>\<open>sh.c\<close>): the parser of the shell.  It returns on every line, and it reads back what a printer writes.

  \<^bold>\<open>Loops and bounds.\<close>  Loops over a counter are structural recursions or have a measure.  The walk along the list of the buffer cache takes at most
  \<open>NBUF\<close> steps, which the invariant of the list makes enough.  The parser recurses to a depth of four times the length of the line and four
  more, which the proof that it returns shows to be enough.  Loops that may run for ever (the draw of a random number below a bound, the level of a
  scheduler queue, the length of a string, the loops of \<^verbatim>\<open>vm.c\<close> over addresses, which can wrap around) have the value \<open>None\<close> then, and where they return this is proved.

  \<^bold>\<open>Parameters.\<close>  The process table takes the operations of virtual memory, files and the log from a record of services (those of memory are the modelled functions in \<open>XvVmProc\<close>), and the
  file system takes the device switch as an argument; \<open>malloc\<close> takes \<open>sbrk\<close>, which either fails or moves the break up; the table of system calls takes the calls on files, a trap the interrupt handlers of the devices, and both the lock and the address of \<open>ticks\<close>; \<open>setupkvm\<close> takes the address \<open>dat\<close> of the linker symbol \<open>data\<close>.  No property of them is assumed beyond what a theorem states.

  \<^bold>\<open>Not modelled.\<close>  In JOS \<open>mem_init\<close> and the self-checks, the console, the monitor, the symbol tables and the boot code, which drive the
  hardware or print.  In xv6 \<open>exec\<close> and what only \<open>exec\<close> and the start use of \<^verbatim>\<open>vm.c\<close> (loading of bytes into user pages, segment and page table registers), the interrupt table, the keyboard, the interrupt controllers, the printing of the kernel and
  the ports of the disk, the boot code, the user programs and tests apart from the parser of the shell, and \<^verbatim>\<open>mkfs.c\<close>, a tool of the host.
  The copy of xv6 in \<^verbatim>\<open>assignment-3\<close> is not modelled: its \<^verbatim>\<open>syscall.c\<close>, \<^verbatim>\<open>sysproc.c\<close>, \<^verbatim>\<open>proc.c\<close>, \<^verbatim>\<open>proc.h\<close>, \<^verbatim>\<open>syscall.h\<close> and \<^verbatim>\<open>param.h\<close> differ from
  those of \<^verbatim>\<open>lab-2\<close>, and it has no \<^verbatim>\<open>rand.c\<close> and no \<^verbatim>\<open>proc_original.c\<close>.

  \<^bold>\<open>Coarser than the code.\<close>  Only \<open>XvSpinlock\<close> has several processors; the processes, the file system, the traps and the console run on one.  There the index of the processor is
  given instead of being searched by its APIC id, the test for processor 0 in the clock interrupt is dropped, and \<open>holding\<close> runs as one step, as only the processor itself writes the field it reads.
  The counter of process numbers is a C \<open>int\<close> whose overflow is an error value; the ticks that the MLFQ scheduler takes off a budget are computed without bound, which differs from the code
  only when the clock crosses \<open>2 ^ 31\<close> in a time slice.  The memory of \<open>XvKalloc\<close> and \<open>XvVm\<close> has a word of its own at every address; the code only uses aligned ones.
\<close>

end
